(* ===== verification/Prelude.thy ===== *)
theory Prelude
  imports
    Complex_Main
    "HOL-Library.AList"
    "HOL-Library.Multiset"
    "HOL-Library.Sublist"
    "HOL-Library.List_Lexorder"
    "HOL-Library.Char_ord"
begin

text \<open>
  Shared vocabulary of the development: the result type of fallible Rust functions, the string
  operations of the Rust standard library that the sources use (\<open>join\<close>, \<open>lines\<close>, \<open>contains\<close>,
  \<open>replace\<close>, decimal printing), hash maps as association lists with distinct keys, and list
  lemmas about enumerations, contiguous partitions and sums that the components share.
\<close>

named_theorems str_simps \<open>evaluation rules for the string operations\<close>
named_theorems keyed \<open>lookup rules for hash maps kept as association lists\<close>

subsection \<open>Results\<close>

text \<open>\<open>Result<T, E>\<close> of Rust is the sum \<open>'e + 'a\<close>: \<open>Inl\<close> is \<open>Err\<close>, \<open>Inr\<close> is \<open>Ok\<close>.\<close>

type_synonym ('e, 'a) result = "'e + 'a"

definition is_ok :: "('e, 'a) result \<Rightarrow> bool" where
  "is_ok r = (case r of Inl _ \<Rightarrow> False | Inr _ \<Rightarrow> True)"

definition and_then :: "('e, 'a) result \<Rightarrow> ('a \<Rightarrow> ('e, 'b) result) \<Rightarrow> ('e, 'b) result" where
  "and_then r f = (case r of Inl e \<Rightarrow> Inl e | Inr a \<Rightarrow> f a)"

lemma is_ok_simps [simp]: "is_ok (Inr a)" "\<not> is_ok (Inl e)"
  by (simp_all add: is_ok_def)

lemma and_then_simps [simp]: "and_then (Inr a) f = f a" "and_then (Inl e) f = Inl e"
  by (simp_all add: and_then_def)

lemma and_then_Inr: "and_then r f = Inr b \<longleftrightarrow> (\<exists>a. r = Inr a \<and> f a = Inr b)"
  by (cases r) simp_all

subsection \<open>Strings\<close>

text \<open>A path is its list of components, compared component by component as \<open>PathBuf\<close> does.\<close>

type_synonym path = "string list"

fun join :: "string \<Rightarrow> string list \<Rightarrow> string" where
  "join sep [] = []"
| "join sep [s] = s"
| "join sep (s # t # ts) = s @ sep @ join sep (t # ts)"

definition path_str :: "path \<Rightarrow> string" where
  "path_str p = join ''/'' p"

definition newline :: char where
  "newline = CHR 0x0A"

fun nat_str :: "nat \<Rightarrow> string" where
  "nat_str n = (if n < 10 then [char_of (48 + n)]
                else nat_str (n div 10) @ [char_of (48 + n mod 10)])"

declare nat_str.simps [simp del]

definition ascii_lower :: "char \<Rightarrow> char" where
  "ascii_lower c = (let n = (of_char c :: nat) in if 65 \<le> n \<and> n \<le> 90 then char_of (n + 32) else c)"

definition to_lowercase :: "string \<Rightarrow> string" where
  "to_lowercase s = map ascii_lower s"

fun contains_str :: "string \<Rightarrow> string \<Rightarrow> bool" where
  "contains_str [] pat = (pat = [])"
| "contains_str (c # cs) pat = (prefix pat (c # cs) \<or> contains_str cs pat)"

lemma contains_str_iff_sublist: "contains_str s pat \<longleftrightarrow> (\<exists>u v. s = u @ pat @ v)"
proof (induction s)
  case Nil
  then show ?case by simp
next
  case (Cons c cs)
  show ?case
  proof
    assume "contains_str (c # cs) pat"
    then consider "prefix pat (c # cs)" | "contains_str cs pat" by auto
    then show "\<exists>u v. c # cs = u @ pat @ v"
    proof cases
      case 1
      then obtain v where "c # cs = pat @ v" by (auto elim: prefixE)
      then show ?thesis by (metis append_Nil)
    next
      case 2
      then obtain u v where "cs = u @ pat @ v" using Cons.IH by blast
      then show ?thesis by (metis append_Cons)
    qed
  next
    assume "\<exists>u v. c # cs = u @ pat @ v"
    then obtain u v where uv: "c # cs = u @ pat @ v" by blast
    show "contains_str (c # cs) pat"
    proof (cases u)
      case Nil
      then have "prefix pat (c # cs)" using uv by (auto intro: prefixI)
      then show ?thesis by simp
    next
      case (Cons d u')
      then have "cs = u' @ pat @ v" using uv by simp
      then show ?thesis using Cons.IH by auto
    qed
  qed
qed

subsection \<open>Hash maps as association lists\<close>

text \<open>
  A \<open>HashMap\<close> is an association list with distinct keys; its order stands for the unspecified
  iteration order. \<open>AList.update\<close> is \<open>insert\<close>, \<open>AList.delete\<close> is \<open>remove\<close>, \<open>map_of\<close> is \<open>get\<close>,
  \<open>AList.map_default\<close> is \<open>entry\<close> with \<open>and_modify\<close> and \<open>or_insert\<close>.
\<close>

abbreviation keys :: "('k \<times> 'v) list \<Rightarrow> 'k list" where
  "keys m \<equiv> map fst m"

lemma map_of_update [keyed]: "map_of (AList.update k v m) = (map_of m)(k \<mapsto> v)"
  by (rule update_conv')

lemma map_of_delete [keyed]: "map_of (AList.delete k m) = (map_of m)(k := None)"
  by (rule delete_conv')

lemma image_fst_update [keyed]: "fst ` set (AList.update k v m) = insert k (fst ` set m)"
  by (induction m) auto

lemma key_lookupE:
  assumes "k \<in> set (keys m)"
  obtains v where "map_of m k = Some v"
  using assms by (metis in_set_conv_decomp list.set_map map_of_eq_None_iff not_None_eq)

lemma keys_update_in [keyed]: "k \<in> set (keys m) \<Longrightarrow> keys (AList.update k v m) = keys m"
  by (induction m) auto

lemma distinct_keys_update [keyed]: "distinct (keys m) \<Longrightarrow> distinct (keys (AList.update k v m))"
  by (rule distinct_update)

lemma distinct_keys_delete [keyed]: "distinct (keys m) \<Longrightarrow> distinct (keys (AList.delete k m))"
  by (rule distinct_delete)

lemma map_of_map_default [keyed]:
  "map_of (AList.map_default k v f m) = (map_of m)(k \<mapsto> (case map_of m k of None \<Rightarrow> v | Some x \<Rightarrow> f x))"
  by (induction m) (auto simp: fun_eq_iff)

lemma keys_map_default [simp]: "fst ` set (AList.map_default k v f m) = insert k (fst ` set m)"
  by (induction m) auto

lemma distinct_keys_map_default [simp]: "distinct (keys m) \<Longrightarrow> distinct (keys (AList.map_default k v f m))"
proof (induction m)
  case (Cons a m)
  then show ?case using keys_map_default[of k v f m] by (cases a) (auto simp del: keys_map_default)
qed simp

lemma in_keys_iff_lookup: "k \<in> set (keys m) \<longleftrightarrow> map_of m k \<noteq> None"
  by (auto simp: map_of_eq_None_iff)

lemma in_alist_iff_lookup: "distinct (keys m) \<Longrightarrow> (k, v) \<in> set m \<longleftrightarrow> map_of m k = Some v"
  by (simp add: map_of_eq_Some_iff)

declare map_of_eq_Some_iff [simp del]

lemma set_keys_filter:
  "distinct (keys m) \<Longrightarrow> set (keys (filter P m)) = {k. \<exists>v. map_of m k = Some v \<and> P (k, v)}"
  by (auto simp: image_iff map_of_eq_Some_iff)

lemma distinct_keys_filter: "distinct (keys m) \<Longrightarrow> distinct (keys (filter P m))"
  by (rule distinct_map_filter)

lemma sort_cong_set:
  assumes "distinct (xs :: 'a::linorder list)" "distinct ys" "set xs = set ys"
  shows "sort xs = sort ys"
  by (rule sorted_distinct_set_unique) (use assms in auto)

end
