(* ===== verification/Filesystem.thy ===== *)
theory Filesystem
  imports Prelude
begin

text \<open>
  The part of the operating system the indexer sees, and the walker that decides which files
  belong to a project (\<open>crates/rmc-indexing/src/indexing/traversal.rs\<close>).

  A file system value answers the \<open>std::fs\<close> calls of the sources; errors are their messages.
  The directory walk itself is the \<open>walkdir\<close> crate, so it is a component \<open>fs_walk\<close> of the value:
  given a root and the \<open>filter_entry\<close> predicate it yields the entries. What the sources rely on
  (a rejected directory is not descended into) is the hypothesis \<open>prunes\<close>.
\<close>

subsection \<open>Files and directories\<close>

record metadata =
  md_len :: nat
  md_modified :: "(string, int) result"  \<comment> \<open>\<open>SystemTime\<close>, in nanoseconds since the epoch\<close>

record dir_entry =
  de_path :: path
  de_is_dir :: bool
  de_is_file :: bool

record filesystem =
  fs_read :: "path \<Rightarrow> (string, string) result"            \<comment> \<open>\<open>std::fs::read\<close>\<close>
  fs_read_to_string :: "path \<Rightarrow> (string, string) result"  \<comment> \<open>the same, refusing invalid UTF-8\<close>
  fs_metadata :: "path \<Rightarrow> (string, metadata) result"
  fs_exists :: "path \<Rightarrow> bool"
  fs_walk :: "path \<Rightarrow> (dir_entry \<Rightarrow> bool) \<Rightarrow> (string, dir_entry) result list"

definition fs_modified :: "filesystem \<Rightarrow> path \<Rightarrow> (string, int) result" where
  "fs_modified fs p = and_then (fs_metadata fs p) md_modified"

subsection \<open>The project walker\<close>

definition SKIPPED_DIRS :: "string list" where
  "SKIPPED_DIRS = [''target'', ''vendor'', ''.git'', ''.jj'', ''.direnv'', ''.skeleton'']"

definition NESTED_ROOT_MARKER :: string where
  "NESTED_ROOT_MARKER = ''.rmcroot''"

definition is_skipped_dir_name :: "string \<Rightarrow> bool" where
  "is_skipped_dir_name name = (name \<in> set SKIPPED_DIRS)"

definition is_nested_project_root :: "filesystem \<Rightarrow> path \<Rightarrow> bool" where
  "is_nested_project_root fs dir = fs_exists fs (dir @ [NESTED_ROOT_MARKER])"

definition file_name :: "path \<Rightarrow> string" where
  "file_name p = (if p = [] then [] else last p)"

text \<open>\<open>Path::extension\<close>: what follows the last dot of the file name, unless the dot is leading.\<close>

definition extension :: "path \<Rightarrow> string option" where
  "extension p =
     (let name = file_name p; ext = rev (takeWhile (\<lambda>c. c \<noteq> CHR ''.'') (rev name))
      in if ext = name \<or> length ext + 1 = length name then None else Some ext)"

text \<open>The \<open>filter_entry\<close> closure of the walk.\<close>

definition walk_filter :: "filesystem \<Rightarrow> path \<Rightarrow> dir_entry \<Rightarrow> bool" where
  "walk_filter fs base e =
     (if \<not> de_is_dir e then True
      else if is_skipped_dir_name (file_name (de_path e)) then False
      else if de_path e = base then True
      else \<not> is_nested_project_root fs (de_path e))"

fun walk_loop :: "(string, dir_entry) result list \<Rightarrow> path list \<Rightarrow> nat \<Rightarrow> path list \<times> nat" where
  "walk_loop [] rust_files walk_errors = (rust_files, walk_errors)"
| "walk_loop (Inr e # es) rust_files walk_errors =
     (if de_is_file e \<and> extension (de_path e) = Some ''rs''
      then walk_loop es (rust_files @ [de_path e]) walk_errors
      else walk_loop es rust_files walk_errors)"
| "walk_loop (Inl err # es) rust_files walk_errors = walk_loop es rust_files (walk_errors + 1)"

definition collect_project_rust_files :: "filesystem \<Rightarrow> path \<Rightarrow> path list \<times> nat" where
  "collect_project_rust_files fs base = walk_loop (fs_walk fs base (walk_filter fs base)) [] 0"

abbreviation walked :: "filesystem \<Rightarrow> path \<Rightarrow> path set" where
  "walked fs base \<equiv> set (fst (collect_project_rust_files fs base))"

text \<open>
  The documented behaviour of \<open>WalkDir::filter_entry\<close>: every yielded entry satisfies the predicate
  and so does every directory above it, from the root down; yielded paths lie below the root.
\<close>

definition ancestors_from :: "path \<Rightarrow> path \<Rightarrow> path set" where
  "ancestors_from base p = {q. prefix base q \<and> prefix q p}"

definition prunes :: "filesystem \<Rightarrow> path \<Rightarrow> bool" where
  "prunes fs base \<longleftrightarrow>
     (\<forall>pred e. Inr e \<in> set (fs_walk fs base pred) \<longrightarrow>
        prefix base (de_path e) \<and> pred e \<and>
        (\<forall>q \<in> ancestors_from base (de_path e). q \<noteq> de_path e \<longrightarrow>
           pred \<lparr>de_path = q, de_is_dir = True, de_is_file = False\<rparr>))"

subsection \<open>What the walker returns\<close>

lemma walk_loop_files:
  "fst (walk_loop es files n) =
     files @ [de_path e. Inr e \<leftarrow> es, de_is_file e \<and> extension (de_path e) = Some ''rs'']"
  by (induction es files n rule: walk_loop.induct) auto

lemma walk_loop_errors: "snd (walk_loop es files n) = n + length (filter (Not \<circ> is_ok) es)"
  by (induction es files n rule: walk_loop.induct) auto

lemma collect_mem:
  "p \<in> set (fst (collect_project_rust_files fs base)) \<longleftrightarrow>
     (\<exists>e. Inr e \<in> set (fs_walk fs base (walk_filter fs base)) \<and> de_path e = p \<and>
          de_is_file e \<and> extension p = Some ''rs'')"
  by (auto simp: collect_project_rust_files_def walk_loop_files split: sum.splits)

lemma collect_no_pruned_dir:
  assumes "prunes fs base" and "p \<in> set (fst (collect_project_rust_files fs base))"
    and "q \<in> ancestors_from base p" and "q \<noteq> p"
  shows "\<not> is_skipped_dir_name (file_name q) \<and> (q \<noteq> base \<longrightarrow> \<not> is_nested_project_root fs q)"
proof -
  from assms(2) obtain e where e: "Inr e \<in> set (fs_walk fs base (walk_filter fs base))"
    and "de_path e = p" by (auto simp: collect_mem)
  with assms(1,3,4) have "walk_filter fs base \<lparr>de_path = q, de_is_dir = True, de_is_file = False\<rparr>"
    by (auto simp: prunes_def)
  then show ?thesis by (simp add: walk_filter_def split: if_splits)
qed

end
