(* ===== verification/Merkle.thy ===== *)
theory Merkle
  imports Filesystem
begin

text \<open>
  Change detection (\<open>crates/rmc-indexing/src/indexing/merkle.rs\<close>): the snapshot of a tree of
  files, its construction, the comparison of two snapshots, the snapshot that is committed after
  a partly failed run, the probe against the disk, and saving and loading.

  SHA-256 (\<open>sha2\<close>), the Merkle root of a list of leaves (\<open>rs_merkle\<close>) and the snapshot's bytes
  (\<open>bincode\<close>) are crates outside the repository: they are the parameters \<open>sha\<close>, \<open>mroot\<close>, \<open>ser\<close> and
  \<open>de\<close>; \<open>zero\<close> is the all-zero hash. A \<open>MerkleTree\<close> value is determined by its leaves, so the model keeps the leaves.
  A panic (\<open>expect\<close>) is \<open>None\<close>.
\<close>

subsection \<open>Snapshots\<close>

record 'h file_node =
  content_hash :: 'h
  leaf_index :: nat
  last_modified :: int

record change_set =
  added :: "path list"
  modified :: "path list"
  deleted :: "path list"

definition ChangeSet_empty :: change_set where
  "ChangeSet_empty = \<lparr>added = [], modified = [], deleted = []\<rparr>"

definition ChangeSet_is_empty :: "change_set \<Rightarrow> bool" where
  "ChangeSet_is_empty c = (added c = [] \<and> modified c = [] \<and> deleted c = [])"

definition total_changes :: "change_set \<Rightarrow> nat" where
  "total_changes c = length (added c) + length (modified c) + length (deleted c)"

type_synonym 'h node_map = "(path \<times> 'h file_node) list"

record 'h fs_merkle =
  tree_leaves :: "'h list"
  file_to_node :: "'h node_map"
  snapshot_version :: nat

subsection \<open>Building a snapshot\<close>

text \<open>The loop of \<open>from_nodes\<close>: number the sorted paths and collect their hashes.\<close>

fun assign_leaves :: "nat \<Rightarrow> path list \<Rightarrow> 'h node_map \<Rightarrow> 'h list \<Rightarrow> ('h node_map \<times> 'h list) option" where
  "assign_leaves i [] nodes hashes = Some (nodes, hashes)"
| "assign_leaves i (p # ps) nodes hashes =
     (case map_of nodes p of
        None \<Rightarrow> None
      | Some n \<Rightarrow> assign_leaves (i + 1) ps (AList.update p (n\<lparr>leaf_index := i\<rparr>) nodes)
                    (hashes @ [content_hash n]))"

definition from_nodes :: "'h node_map \<Rightarrow> nat \<Rightarrow> 'h fs_merkle option" where
  "from_nodes nodes version =
     (case assign_leaves 0 (sort (keys nodes)) nodes [] of
        None \<Rightarrow> None
      | Some (nodes', hashes) \<Rightarrow>
          Some \<lparr>tree_leaves = hashes, file_to_node = nodes', snapshot_version = version\<rparr>)"

text \<open>The loop of \<open>from_directory\<close>: hash every file, in sorted order; any read error aborts.\<close>

fun hash_files ::
  "(string \<Rightarrow> 'h) \<Rightarrow> filesystem \<Rightarrow> nat \<Rightarrow> path list \<Rightarrow> 'h list \<Rightarrow> 'h node_map \<Rightarrow>
   (string, 'h list \<times> 'h node_map) result" where
  "hash_files sha fs idx [] hashes nodes = Inr (hashes, nodes)"
| "hash_files sha fs idx (p # ps) hashes nodes =
     and_then (fs_read fs p) (\<lambda>content.
       let hash = sha content in
       and_then (fs_modified fs p) (\<lambda>mtime.
         hash_files sha fs (idx + 1) ps (hashes @ [hash])
           (AList.update p \<lparr>content_hash = hash, leaf_index = idx, last_modified = mtime\<rparr> nodes)))"

definition from_directory ::
  "(string \<Rightarrow> 'h) \<Rightarrow> filesystem \<Rightarrow> path \<Rightarrow> (string, 'h fs_merkle) result" where
  "from_directory sha fs base =
     (let files = sort (fst (collect_project_rust_files fs base)) in
      and_then (hash_files sha fs 0 files [] []) (\<lambda>(hashes, nodes).
        Inr \<lparr>tree_leaves = hashes, file_to_node = nodes, snapshot_version = 1\<rparr>))"

subsection \<open>Comparing snapshots\<close>

definition root_hash :: "('h list \<Rightarrow> 'h option) \<Rightarrow> 'h fs_merkle \<Rightarrow> 'h option" where
  "root_hash mroot m = mroot (tree_leaves m)"

definition has_changes :: "('h list \<Rightarrow> 'h option) \<Rightarrow> 'h fs_merkle \<Rightarrow> 'h fs_merkle \<Rightarrow> bool" where
  "has_changes mroot self old = (root_hash mroot self \<noteq> root_hash mroot old)"

text \<open>The first loop of \<open>detect_changes\<close>, over the new nodes, and the second, over the old keys.\<close>

fun scan_new :: "'h node_map \<Rightarrow> 'h node_map \<Rightarrow> path list \<Rightarrow> path list \<Rightarrow> path list \<times> path list" where
  "scan_new old [] added_acc modified_acc = (added_acc, modified_acc)"
| "scan_new old ((p, n) # rest) added_acc modified_acc =
     (case map_of old p of
        Some old_node \<Rightarrow>
          if content_hash n \<noteq> content_hash old_node
          then scan_new old rest added_acc (modified_acc @ [p])
          else scan_new old rest added_acc modified_acc
      | None \<Rightarrow> scan_new old rest (added_acc @ [p]) modified_acc)"

definition detect_changes ::
  "('h list \<Rightarrow> 'h option) \<Rightarrow> 'h fs_merkle \<Rightarrow> 'h fs_merkle \<Rightarrow> change_set" where
  "detect_changes mroot self old =
     (if \<not> has_changes mroot self old then ChangeSet_empty
      else case scan_new (file_to_node old) (file_to_node self) [] [] of
             (a, m) \<Rightarrow>
               \<lparr>added = a, modified = m,
                deleted = filter (\<lambda>p. map_of (file_to_node self) p = None)
                            (keys (file_to_node old))\<rparr>)"

subsection \<open>The snapshot of a partly failed run\<close>

fun apply_retries :: "'h node_map \<Rightarrow> path list \<Rightarrow> 'h node_map \<Rightarrow> 'h node_map" where
  "apply_retries previous [] nodes = nodes"
| "apply_retries previous (p # ps) nodes =
     (case map_of previous p of
        Some old_node \<Rightarrow> apply_retries previous ps (AList.update p old_node nodes)
      | None \<Rightarrow> apply_retries previous ps (AList.delete p nodes))"

definition snapshot_with_retries ::
  "'h fs_merkle \<Rightarrow> 'h fs_merkle option \<Rightarrow> path list \<Rightarrow> 'h fs_merkle option" where
  "snapshot_with_retries self previous retry_paths =
     from_nodes
       (apply_retries (case previous of None \<Rightarrow> [] | Some snapshot \<Rightarrow> file_to_node snapshot)
          retry_paths (file_to_node self))
       (snapshot_version self)"

subsection \<open>The probe against the disk\<close>

fun disk_loop ::
  "(string \<Rightarrow> 'h) \<Rightarrow> filesystem \<Rightarrow> 'h node_map \<Rightarrow> path list \<Rightarrow>
   path list \<Rightarrow> path list \<Rightarrow> path list \<Rightarrow> path list \<times> path list \<times> path list" where
  "disk_loop sha fs nodes [] a m on_disk = (a, m, on_disk)"
| "disk_loop sha fs nodes (p # ps) a m on_disk =
     (case map_of nodes p of
        None \<Rightarrow> disk_loop sha fs nodes ps (a @ [p]) m (p # on_disk)
      | Some node \<Rightarrow>
          let stamp_unchanged =
                (case fs_modified fs p of Inr t \<Rightarrow> t = last_modified node | Inl _ \<Rightarrow> False)
          in if stamp_unchanged then disk_loop sha fs nodes ps a m (p # on_disk)
             else case fs_read fs p of
                    Inr content \<Rightarrow>
                      if sha content = content_hash node
                      then disk_loop sha fs nodes ps a m (p # on_disk)
                      else disk_loop sha fs nodes ps a (m @ [p]) (p # on_disk)
                  | Inl _ \<Rightarrow> disk_loop sha fs nodes ps a (m @ [p]) (p # on_disk))"

definition detect_disk_changes ::
  "(string \<Rightarrow> 'h) \<Rightarrow> filesystem \<Rightarrow> 'h fs_merkle \<Rightarrow> path \<Rightarrow> change_set" where
  "detect_disk_changes sha fs self base =
     (case disk_loop sha fs (file_to_node self) (fst (collect_project_rust_files fs base)) [] [] [] of
        (a, m, on_disk) \<Rightarrow>
          \<lparr>added = sort a, modified = sort m,
           deleted = sort (filter (\<lambda>p. p \<notin> set on_disk) (keys (file_to_node self)))\<rparr>)"

subsection \<open>Saving and loading\<close>

record 'h merkle_snapshot =
  ms_root_hash :: 'h
  ms_file_to_node :: "'h node_map"
  ms_snapshot_version :: nat
  ms_timestamp :: int

text \<open>
  One attempt to write a snapshot: which of the system calls succeed, and what a failed write
  leaves in the temporary file. The disk maps the names of the files that exist to their contents, or to the error with
  which opening one fails; renaming over a file needs no access to it.
\<close>

record save_io =
  io_create_dir :: "(string, unit) result"
  io_create :: "(string, unit) result"
  io_write :: "(string, unit) result"
  io_partial :: string
  io_flush :: "(string, unit) result"
  io_sync :: "(string, unit) result"
  io_rename :: "(string, unit) result"
  io_remove :: "(string, unit) result"

type_synonym disk = "string \<rightharpoonup> (string, string) result"

definition with_extension :: "string \<Rightarrow> string \<Rightarrow> string" where
  "with_extension name ext =
     (let tail = rev (takeWhile (\<lambda>c. c \<noteq> CHR ''.'') (rev name));
          stem = (if tail = name \<or> length tail + 1 = length name then name
                  else take (length name - length tail - 1) name)
      in stem @ ''.'' @ ext)"

definition temporary_name :: "string \<Rightarrow> nat \<Rightarrow> string" where
  "temporary_name name pid = with_extension name (''tmp-'' @ nat_str pid)"

text \<open>The closure of \<open>save_snapshot\<close>: create, serialize, flush, sync, rename; the disk after it.\<close>

definition write_snapshot :: "save_io \<Rightarrow> string \<Rightarrow> string \<Rightarrow> string \<Rightarrow> disk \<Rightarrow> disk \<times> (string, unit) result" where
  "write_snapshot io bytes temporary name d =
     (case io_create io of Inl e \<Rightarrow> (d, Inl e) | Inr _ \<Rightarrow>
      let d1 = d(temporary \<mapsto> Inr []) in
      case io_write io of Inl e \<Rightarrow> (d1(temporary \<mapsto> Inr (io_partial io)), Inl e) | Inr _ \<Rightarrow>
      let d2 = d1(temporary \<mapsto> Inr bytes) in
      case io_flush io of Inl e \<Rightarrow> (d2, Inl e) | Inr _ \<Rightarrow>
      case io_sync io of Inl e \<Rightarrow> (d2, Inl e) | Inr _ \<Rightarrow>
      case io_rename io of Inl e \<Rightarrow> (d2, Inl e) | Inr _ \<Rightarrow>
      ((d2(temporary := None))(name \<mapsto> Inr bytes), Inr ()))"

definition snapshot_of :: "('h list \<Rightarrow> 'h option) \<Rightarrow> 'h \<Rightarrow> int \<Rightarrow> 'h fs_merkle \<Rightarrow> 'h merkle_snapshot" where
  "snapshot_of mroot zero now self =
     \<lparr>ms_root_hash = (case root_hash mroot self of None \<Rightarrow> zero | Some h \<Rightarrow> h),
      ms_file_to_node = file_to_node self, ms_snapshot_version = snapshot_version self,
      ms_timestamp = now\<rparr>"

definition save_snapshot ::
  "('h merkle_snapshot \<Rightarrow> string) \<Rightarrow> ('h list \<Rightarrow> 'h option) \<Rightarrow> 'h \<Rightarrow> save_io \<Rightarrow> nat \<Rightarrow> int \<Rightarrow>
   'h fs_merkle \<Rightarrow> string \<Rightarrow> disk \<Rightarrow> disk \<times> (string, unit) result" where
  "save_snapshot ser mroot zero io pid now self name d =
     (let snapshot = snapshot_of mroot zero now self
      in case io_create_dir io of Inl e \<Rightarrow> (d, Inl e) | Inr _ \<Rightarrow>
         let temporary = temporary_name name pid in
         case write_snapshot io (ser snapshot) temporary name d of
           (d', Inl e) \<Rightarrow> (if is_ok (io_remove io) then d'(temporary := None) else d', Inl e)
         | (d', Inr u) \<Rightarrow> (d', Inr u))"

definition load_snapshot ::
  "(string \<Rightarrow> (string, 'h merkle_snapshot) result) \<Rightarrow> string \<Rightarrow> disk \<Rightarrow>
   (string, 'h fs_merkle option) result" where
  "load_snapshot de name d =
     (case d name of
        None \<Rightarrow> Inr None
      | Some file \<Rightarrow>
          and_then file (\<lambda>bytes.
          and_then (de bytes) (\<lambda>snapshot.
            let leaf_hashes = map (\<lambda>(p, node). (content_hash node, p)) (ms_file_to_node snapshot);
                hashes = map fst (sort_key snd leaf_hashes)
            in Inr (Some \<lparr>tree_leaves = hashes, file_to_node = ms_file_to_node snapshot,
                          snapshot_version = ms_snapshot_version snapshot\<rparr>))))"

definition file_count :: "'h fs_merkle \<Rightarrow> nat" where
  "file_count m = length (file_to_node m)"

definition file_paths :: "'h fs_merkle \<Rightarrow> path list" where
  "file_paths m = keys (file_to_node m)"

definition version :: "'h fs_merkle \<Rightarrow> nat" where
  "version m = snapshot_version m"

subsection \<open>Well-formed snapshots\<close>

definition hash_of :: "'h fs_merkle \<Rightarrow> path \<Rightarrow> 'h option" where
  "hash_of m p = map_option content_hash (map_of (file_to_node m) p)"

definition hashes_in_path_order :: "'h node_map \<Rightarrow> 'h list" where
  "hashes_in_path_order nodes =
     map (\<lambda>p. content_hash (the (map_of nodes p))) (sort (keys nodes))"

definition merkle_wf :: "'h fs_merkle \<Rightarrow> bool" where
  "merkle_wf m \<longleftrightarrow>
     distinct (keys (file_to_node m)) \<and>
     tree_leaves m = hashes_in_path_order (file_to_node m) \<and>
     (\<forall>i < length (file_to_node m).
        leaf_index (the (map_of (file_to_node m) (sort (keys (file_to_node m)) ! i))) = i)"

lemma merkle_wf_distinct: "merkle_wf m \<Longrightarrow> distinct (keys (file_to_node m))"
  by (simp add: merkle_wf_def)

lemma assign_leaves_Some:
  assumes "distinct ps" and "set ps \<subseteq> set (keys nodes)"
  shows "\<exists>nodes'. assign_leaves i ps nodes hs =
           Some (nodes', hs @ map (\<lambda>p. content_hash (the (map_of nodes p))) ps) \<and>
           keys nodes' = keys nodes \<and>
           (\<forall>j < length ps. map_of nodes' (ps ! j) =
              Some ((the (map_of nodes (ps ! j)))\<lparr>leaf_index := i + j\<rparr>)) \<and>
           (\<forall>q. q \<notin> set ps \<longrightarrow> map_of nodes' q = map_of nodes q)"
  using assms
proof (induction ps arbitrary: i nodes hs)
  case Nil
  then show ?case by simp
next
  case (Cons p ps)
  from Cons.prems have pin: "p \<in> set (keys nodes)" by simp
  then obtain n where n: "map_of nodes p = Some n" by (rule key_lookupE)
  let ?nodes = "AList.update p (n\<lparr>leaf_index := i\<rparr>) nodes"
  have k: "keys ?nodes = keys nodes" using pin by (rule keys_update_in)
  have other: "\<And>q. q \<in> set ps \<Longrightarrow> map_of ?nodes q = map_of nodes q"
    using Cons.prems(1) by (auto simp: keyed)
  from Cons.prems k have "set ps \<subseteq> set (keys ?nodes)" "distinct ps" by auto
  from Cons.IH[OF this(2,1), of "i + 1" "hs @ [content_hash n]"] obtain nodes' where
    IH: "assign_leaves (i + 1) ps ?nodes (hs @ [content_hash n]) =
           Some (nodes', hs @ [content_hash n] @ map (\<lambda>p. content_hash (the (map_of ?nodes p))) ps)"
      "keys nodes' = keys nodes"
      "\<And>j. j < length ps \<Longrightarrow> map_of nodes' (ps ! j) =
         Some ((the (map_of ?nodes (ps ! j)))\<lparr>leaf_index := i + 1 + j\<rparr>)"
      "\<And>q. q \<notin> set ps \<Longrightarrow> map_of nodes' q = map_of ?nodes q"
    using k by auto
  have here: "map_of nodes' p = Some (n\<lparr>leaf_index := i\<rparr>)"
    using IH(4)[of p] Cons.prems(1) by (simp add: keyed)
  have "assign_leaves i (p # ps) nodes hs =
      Some (nodes', hs @ map (\<lambda>p. content_hash (the (map_of nodes p))) (p # ps))"
    using IH(1) n other by simp
  moreover have "\<forall>j < length (p # ps). map_of nodes' ((p # ps) ! j) =
      Some ((the (map_of nodes ((p # ps) ! j)))\<lparr>leaf_index := i + j\<rparr>)"
    using here n IH(3) other by (auto simp: less_Suc_eq_0_disj)
  moreover have "\<forall>q. q \<notin> set (p # ps) \<longrightarrow> map_of nodes' q = map_of nodes q"
    using IH(4) by (simp add: keyed)
  ultimately show ?case using IH(2) by blast
qed

text \<open>\<open>from_nodes\<close> never panics; it keeps every hash and numbers the leaves in path order.\<close>

lemma from_nodes_Some:
  assumes "distinct (keys nodes)"
  shows "\<exists>m. from_nodes nodes v = Some m \<and> merkle_wf m \<and> snapshot_version m = v \<and>
             keys (file_to_node m) = keys nodes \<and>
             (\<forall>p. hash_of m p = map_option content_hash (map_of nodes p))"
proof -
  have d: "distinct (sort (keys nodes))" "set (sort (keys nodes)) \<subseteq> set (keys nodes)"
    using assms by auto
  from assign_leaves_Some[OF d, of 0 "[]"] obtain nodes' where
    a: "assign_leaves 0 (sort (keys nodes)) nodes [] = Some (nodes', hashes_in_path_order nodes)"
    and k: "keys nodes' = keys nodes"
    and look: "\<And>j. j < length (sort (keys nodes)) \<Longrightarrow> map_of nodes' (sort (keys nodes) ! j) =
         Some ((the (map_of nodes (sort (keys nodes) ! j)))\<lparr>leaf_index := j\<rparr>)"
    by (auto simp: hashes_in_path_order_def)
  define m where
    "m = \<lparr>tree_leaves = hashes_in_path_order nodes, file_to_node = nodes', snapshot_version = v\<rparr>"
  have hash: "map_option content_hash (map_of nodes' p) = map_option content_hash (map_of nodes p)" for p
  proof (cases "p \<in> set (keys nodes)")
    case True
    then obtain j where j: "j < length (sort (keys nodes))" "sort (keys nodes) ! j = p"
      by (metis in_set_conv_nth set_sort)
    obtain n where n: "map_of nodes p = Some n" using True by (rule key_lookupE)
    from look[OF j(1)] j(2) n have "map_of nodes' p = Some (n\<lparr>leaf_index := j\<rparr>)" by simp
    with n show ?thesis by simp
  next
    case False
    then show ?thesis using k by (metis map_of_eq_None_iff list.set_map)
  qed
  have the_hash: "content_hash (the (map_of nodes' p)) = content_hash (the (map_of nodes p))"
    if "p \<in> set (keys nodes)" for p
    using hash[of p] that k by (metis in_keys_iff_lookup map_option_eq_Some not_None_eq option.sel)
  then have "hashes_in_path_order nodes' = hashes_in_path_order nodes"
    by (auto simp: hashes_in_path_order_def k)
  moreover have "length nodes' = length (sort (keys nodes))"
    using arg_cong[OF k, of length] by simp
  moreover have "leaf_index (the (map_of nodes' (sort (keys nodes) ! j))) = j"
    if "j < length (sort (keys nodes))" for j
    by (simp only: look[OF that] option.sel) simp
  ultimately have "merkle_wf m"
    using assms by (simp add: merkle_wf_def m_def k)
  moreover have "from_nodes nodes v = Some m"
    by (simp add: from_nodes_def a m_def)
  ultimately show ?thesis using hash k by (auto simp: m_def hash_of_def)
qed

subsection \<open>Building from a directory\<close>

lemma hash_files_Inr:
  assumes "hash_files sha fs i ps hs nodes = Inr (hs', nodes')" and "distinct ps"
    and "set ps \<inter> set (keys nodes) = {}"
  shows "hs' = hs @ map (\<lambda>p. content_hash (the (map_of nodes' p))) ps \<and>
         set (keys nodes') = set (keys nodes) \<union> set ps \<and>
         (distinct (keys nodes) \<longrightarrow> distinct (keys nodes')) \<and>
         (\<forall>q. q \<notin> set ps \<longrightarrow> map_of nodes' q = map_of nodes q) \<and>
         (\<forall>j < length ps. \<exists>c t. fs_read fs (ps ! j) = Inr c \<and> fs_modified fs (ps ! j) = Inr t \<and>
            map_of nodes' (ps ! j) =
              Some \<lparr>content_hash = sha c, leaf_index = i + j, last_modified = t\<rparr>)"
  using assms
proof (induction ps arbitrary: i hs nodes)
  case Nil
  then show ?case by simp
next
  case (Cons p ps)
  from Cons.prems(1) obtain c t where c: "fs_read fs p = Inr c" and t: "fs_modified fs p = Inr t"
    and rec: "hash_files sha fs (i + 1) ps (hs @ [sha c])
      (AList.update p \<lparr>content_hash = sha c, leaf_index = i, last_modified = t\<rparr> nodes) = Inr (hs', nodes')"
    by (auto simp: and_then_Inr Let_def)
  let ?nodes = "AList.update p \<lparr>content_hash = sha c, leaf_index = i, last_modified = t\<rparr> nodes"
  have disj: "set ps \<inter> set (keys ?nodes) = {}" using Cons.prems(2,3) by (auto simp: keyed)
  have dps: "distinct ps" using Cons.prems(2) by simp
  note IH = Cons.IH[OF rec dps disj]
  have here: "map_of nodes' p = Some \<lparr>content_hash = sha c, leaf_index = i, last_modified = t\<rparr>"
    using IH Cons.prems(2) by (simp add: keyed)
  have len: "\<exists>c t. fs_read fs ((p # ps) ! j) = Inr c \<and> fs_modified fs ((p # ps) ! j) = Inr t \<and>
            map_of nodes' ((p # ps) ! j) =
              Some \<lparr>content_hash = sha c, leaf_index = i + j, last_modified = t\<rparr>"
    if "j < length (p # ps)" for j
    using that here c t IH by (cases j) auto
  show ?case
    using IH here len by (auto simp: keyed)
qed

lemma from_directory_Inr:
  assumes "from_directory sha fs base = Inr m"
    and "distinct (fst (collect_project_rust_files fs base))"
  shows "merkle_wf m \<and>
         (\<forall>p. hash_of m p =
            (if p \<in> set (fst (collect_project_rust_files fs base))
             then map_option sha (case fs_read fs p of Inr c \<Rightarrow> Some c | Inl _ \<Rightarrow> None) else None))"
proof -
  define files where "files = sort (fst (collect_project_rust_files fs base))"
  have d: "distinct files" "set files = set (fst (collect_project_rust_files fs base))"
    using assms(2) by (auto simp: files_def)
  from assms(1) obtain hs nodes where h: "hash_files sha fs 0 files [] [] = Inr (hs, nodes)"
    and m: "m = \<lparr>tree_leaves = hs, file_to_node = nodes, snapshot_version = 1\<rparr>"
    by (auto simp: from_directory_def files_def Let_def and_then_Inr)
  note facts = hash_files_Inr[OF h d(1)]
  have k: "set (keys nodes) = set files" and dk: "distinct (keys nodes)"
    and look: "\<And>j. j < length files \<Longrightarrow> \<exists>c t. fs_read fs (files ! j) = Inr c \<and>
       map_of nodes (files ! j) = Some \<lparr>content_hash = sha c, leaf_index = j, last_modified = t\<rparr>"
    and none: "\<And>q. q \<notin> set files \<Longrightarrow> map_of nodes q = None"
    using facts by force+
  have srt: "sort (keys nodes) = files"
    using sort_cong_set[OF dk d(1) k] by (simp add: files_def sort_key_id_if_sorted)
  have len: "length nodes = length files"
    using arg_cong[OF srt, of length] by simp
  have "leaf_index (the (map_of nodes (files ! i))) = i" if "i < length nodes" for i
    using look[of i] that len by auto
  moreover have "hs = map (\<lambda>p. content_hash (the (map_of nodes p))) files"
    using facts by simp
  ultimately have "merkle_wf m"
    by (simp add: merkle_wf_def hashes_in_path_order_def m dk srt)
  moreover have "hash_of m p = (if p \<in> set files
      then map_option sha (case fs_read fs p of Inr c \<Rightarrow> Some c | Inl _ \<Rightarrow> None) else None)" for p
  proof (cases "p \<in> set files")
    case True
    then obtain j where "j < length files" "files ! j = p" by (auto simp: in_set_conv_nth)
    with look True show ?thesis by (force simp: hash_of_def m)
  next
    case False
    with none show ?thesis by (simp add: hash_of_def m)
  qed
  ultimately show ?thesis using d(2) by simp
qed

lemma hash_files_reads:
  "hash_files sha fs i ps hs ns = Inr r \<Longrightarrow> p \<in> set ps \<Longrightarrow> \<exists>c. fs_read fs p = Inr c"
  by (induction sha fs i ps hs ns rule: hash_files.induct) (auto simp: and_then_Inr Let_def)

lemma from_directory_walked:
  assumes "from_directory sha fs base = Inr m" and "distinct (fst (collect_project_rust_files fs base))"
    and "p \<in> set (fst (collect_project_rust_files fs base))"
  shows "hash_of m p \<noteq> None"
proof -
  from assms(1) obtain r where "hash_files sha fs 0 (sort (fst (collect_project_rust_files fs base))) [] [] = Inr r"
    by (auto simp: from_directory_def Let_def and_then_Inr)
  from hash_files_reads[OF this, of p] assms(3) obtain c where "fs_read fs p = Inr c" by auto
  then show ?thesis using from_directory_Inr[OF assms(1,2)] assms(3) by simp
qed

subsection \<open>What a comparison reports\<close>

lemma scan_new_eq:
  "scan_new old ns a m =
     (a @ map fst (filter (\<lambda>(p, n). map_of old p = None) ns),
      m @ map fst (filter (\<lambda>(p, n). case map_of old p of
             None \<Rightarrow> False | Some q \<Rightarrow> content_hash n \<noteq> content_hash q) ns))"
  by (induction old ns a m rule: scan_new.induct) (auto split: option.splits)

lemma detect_changes_no_root_change:
  "\<not> has_changes mroot new old \<Longrightarrow> detect_changes mroot new old = ChangeSet_empty"
  by (simp add: detect_changes_def)

lemma hash_of_None_iff: "hash_of m p = None \<longleftrightarrow> p \<notin> set (keys (file_to_node m))"
  by (simp add: hash_of_def map_of_eq_None_iff)

lemma detect_changes_sets:
  assumes "merkle_wf new" and "merkle_wf old" and "has_changes mroot new old"
  shows "set (added (detect_changes mroot new old)) = {p. hash_of new p \<noteq> None \<and> hash_of old p = None}"
    and "set (modified (detect_changes mroot new old)) =
           {p. hash_of new p \<noteq> None \<and> hash_of old p \<noteq> None \<and> hash_of new p \<noteq> hash_of old p}"
    and "set (deleted (detect_changes mroot new old)) = {p. hash_of new p = None \<and> hash_of old p \<noteq> None}"
proof -
  note d = assms(1,2)[THEN merkle_wf_distinct]
  have dc: "detect_changes mroot new old =
     \<lparr>added = map fst (filter (\<lambda>(p, n). map_of (file_to_node old) p = None) (file_to_node new)),
      modified = map fst (filter (\<lambda>(p, n). case map_of (file_to_node old) p of
             None \<Rightarrow> False | Some q \<Rightarrow> content_hash n \<noteq> content_hash q) (file_to_node new)),
      deleted = filter (\<lambda>p. map_of (file_to_node new) p = None) (keys (file_to_node old))\<rparr>"
    using assms(3) by (simp add: detect_changes_def scan_new_eq)
  show "set (added (detect_changes mroot new old)) = {p. hash_of new p \<noteq> None \<and> hash_of old p = None}"
    unfolding dc change_set.simps set_keys_filter[OF d(1)] by (auto simp: hash_of_def)
  show "set (modified (detect_changes mroot new old)) =
           {p. hash_of new p \<noteq> None \<and> hash_of old p \<noteq> None \<and> hash_of new p \<noteq> hash_of old p}"
    unfolding dc change_set.simps set_keys_filter[OF d(1)]
    by (auto simp: hash_of_def split: option.splits)
  show "set (deleted (detect_changes mroot new old)) = {p. hash_of new p = None \<and> hash_of old p \<noteq> None}"
    by (auto simp: dc hash_of_def map_of_eq_None_iff)
qed

lemma detect_changes_differ:
  assumes "merkle_wf new"
    and "p \<in> set (added (detect_changes mroot new old) @ modified (detect_changes mroot new old) @
                 deleted (detect_changes mroot new old))"
  shows "hash_of new p \<noteq> hash_of old p"
proof (cases "has_changes mroot new old")
  case False
  then show ?thesis using assms(2) by (simp add: detect_changes_no_root_change ChangeSet_empty_def)
next
  case True
  note d = merkle_wf_distinct[OF assms(1)]
  have dc: "detect_changes mroot new old =
     \<lparr>added = map fst (filter (\<lambda>(p, n). map_of (file_to_node old) p = None) (file_to_node new)),
      modified = map fst (filter (\<lambda>(p, n). case map_of (file_to_node old) p of
             None \<Rightarrow> False | Some q \<Rightarrow> content_hash n \<noteq> content_hash q) (file_to_node new)),
      deleted = filter (\<lambda>p. map_of (file_to_node new) p = None) (keys (file_to_node old))\<rparr>"
    using True by (simp add: detect_changes_def scan_new_eq)
  have old: "map_of (file_to_node old) p \<noteq> None" if "p \<in> set (keys (file_to_node old))"
    using that by (simp add: map_of_eq_None_iff)
  from assms(2) show ?thesis
    unfolding dc change_set.simps set_append set_keys_filter[OF d] set_filter
    using old by (auto simp: hash_of_def split: option.splits)
qed

lemma detect_changes_distinct:
  assumes "merkle_wf new" and "merkle_wf old"
  shows "distinct (added (detect_changes mroot new old) @ modified (detect_changes mroot new old)
           @ deleted (detect_changes mroot new old))"
proof (cases "has_changes mroot new old")
  case False
  then show ?thesis by (simp add: detect_changes_no_root_change ChangeSet_empty_def)
next
  case True
  note d = assms[THEN merkle_wf_distinct]
  have "distinct (added (detect_changes mroot new old))" "distinct (modified (detect_changes mroot new old))"
    "distinct (deleted (detect_changes mroot new old))"
    using True d by (simp_all add: detect_changes_def scan_new_eq distinct_keys_filter)
  moreover note detect_changes_sets[OF assms True]
  ultimately show ?thesis by auto
qed

lemma leaves_eq_imp_hash_eq:
  assumes "merkle_wf new" and "merkle_wf old"
    and "set (keys (file_to_node new)) = set (keys (file_to_node old))"
    and "tree_leaves new = tree_leaves old"
  shows "hash_of new p = hash_of old p"
proof (cases "p \<in> set (keys (file_to_node new))")
  case False
  then show ?thesis using assms(3) by (metis hash_of_None_iff)
next
  case True
  have srt: "sort (keys (file_to_node new)) = sort (keys (file_to_node old))"
    using assms(1,2)[THEN merkle_wf_distinct] assms(3) by (rule sort_cong_set)
  have "map (\<lambda>p. content_hash (the (map_of (file_to_node new) p))) (sort (keys (file_to_node new))) =
        map (\<lambda>p. content_hash (the (map_of (file_to_node old) p))) (sort (keys (file_to_node new)))"
    using assms by (simp add: merkle_wf_def hashes_in_path_order_def srt)
  then have "content_hash (the (map_of (file_to_node new) p)) = content_hash (the (map_of (file_to_node old) p))"
    using True by (simp only: map_eq_conv set_sort)
  moreover obtain n where "map_of (file_to_node new) p = Some n" using True by (rule key_lookupE)
  moreover obtain n' where "map_of (file_to_node old) p = Some n'"
    using True assms(3) by (metis key_lookupE)
  ultimately show ?thesis by (simp add: hash_of_def)
qed

subsection \<open>What a committed snapshot holds\<close>

lemma apply_retries_lookup:
  "map_of (apply_retries prev ps nodes) p = (if p \<in> set ps then map_of prev p else map_of nodes p)"
proof (induction prev ps nodes rule: apply_retries.induct)
  case (2 prev q ps nodes)
  show ?case
  proof (cases "map_of prev q")
    case None
    then show ?thesis using "2.IH"(1)[OF None] by (auto simp: keyed)
  next
    case (Some n)
    then show ?thesis using "2.IH"(2)[OF Some] by (auto simp: keyed)
  qed
qed simp

lemma apply_retries_distinct: "distinct (keys nodes) \<Longrightarrow> distinct (keys (apply_retries prev ps nodes))"
  by (induction prev ps nodes rule: apply_retries.induct) (auto simp: keyed split: option.splits)

definition prev_hash :: "'h fs_merkle option \<Rightarrow> path \<Rightarrow> 'h option" where
  "prev_hash previous p = (case previous of None \<Rightarrow> None | Some m \<Rightarrow> hash_of m p)"

lemma snapshot_with_retries_Some:
  assumes "merkle_wf self"
  shows "\<exists>m. snapshot_with_retries self previous ps = Some m \<and> merkle_wf m \<and>
             snapshot_version m = snapshot_version self \<and>
             (\<forall>p. hash_of m p = (if p \<in> set ps then prev_hash previous p else hash_of self p))"
proof -
  let ?prev = "case previous of None \<Rightarrow> [] | Some snapshot \<Rightarrow> file_to_node snapshot"
  have "distinct (keys (apply_retries ?prev ps (file_to_node self)))"
    using assms by (intro apply_retries_distinct merkle_wf_distinct)
  from from_nodes_Some[OF this, of "snapshot_version self"]
  show ?thesis
    by (fastforce simp: snapshot_with_retries_def apply_retries_lookup hash_of_def prev_hash_def
        split: option.splits)
qed

subsection \<open>What the disk probe reports\<close>

text \<open>The code's verdict on one walked file.\<close>

definition disk_modified :: "(string \<Rightarrow> 'h) \<Rightarrow> filesystem \<Rightarrow> 'h node_map \<Rightarrow> path \<Rightarrow> bool" where
  "disk_modified sha fs nodes p =
     (case map_of nodes p of
        None \<Rightarrow> False
      | Some node \<Rightarrow>
          fs_modified fs p \<noteq> Inr (last_modified node) \<and>
          (case fs_read fs p of Inr c \<Rightarrow> sha c \<noteq> content_hash node | Inl _ \<Rightarrow> True))"

lemma disk_loop_eq:
  "disk_loop sha fs nodes ps a m d =
     (a @ filter (\<lambda>p. map_of nodes p = None) ps, m @ filter (disk_modified sha fs nodes) ps, rev ps @ d)"
proof (induction ps arbitrary: a m d)
  case (Cons p ps)
  show ?case
  proof (cases "map_of nodes p")
    case None
    then show ?thesis by (simp add: Cons.IH disk_modified_def)
  next
    case (Some n)
    then show ?thesis
      by (cases "fs_modified fs p"; cases "fs_read fs p")
        (simp_all add: Cons.IH disk_modified_def)
  qed
qed simp

text \<open>
  What the probe relies on: a file whose time stamp is the recorded one still has the recorded
  content, and whatever the walk returns can be read.
\<close>

definition stamps_honest :: "(string \<Rightarrow> 'h) \<Rightarrow> filesystem \<Rightarrow> 'h node_map \<Rightarrow> bool" where
  "stamps_honest sha fs nodes \<longleftrightarrow>
     (\<forall>p n. map_of nodes p = Some n \<longrightarrow> fs_modified fs p = Inr (last_modified n) \<longrightarrow>
        (\<exists>c. fs_read fs p = Inr c \<and> sha c = content_hash n))"

definition disk_hash :: "(string \<Rightarrow> 'h) \<Rightarrow> filesystem \<Rightarrow> path \<Rightarrow> path \<Rightarrow> 'h option" where
  "disk_hash sha fs base p =
     (if p \<in> set (fst (collect_project_rust_files fs base))
      then (case fs_read fs p of Inr c \<Rightarrow> Some (sha c) | Inl _ \<Rightarrow> None) else None)"

lemma detect_disk_changes_sets:
  assumes "stamps_honest sha fs (file_to_node self)"
  shows "set (added (detect_disk_changes sha fs self base)) = {p \<in> walked fs base. hash_of self p = None}"
    and "set (modified (detect_disk_changes sha fs self base)) =
           {p \<in> walked fs base. hash_of self p \<noteq> None \<and> disk_hash sha fs base p \<noteq> hash_of self p}"
    and "set (deleted (detect_disk_changes sha fs self base)) = {p. hash_of self p \<noteq> None \<and> p \<notin> walked fs base}"
proof -
  show "set (added (detect_disk_changes sha fs self base)) = {p \<in> walked fs base. hash_of self p = None}"
    by (auto simp: detect_disk_changes_def disk_loop_eq hash_of_def)
  have "disk_modified sha fs (file_to_node self) p \<longleftrightarrow>
          hash_of self p \<noteq> None \<and> disk_hash sha fs base p \<noteq> hash_of self p" if "p \<in> walked fs base" for p
    using assms that 
    by (cases "map_of (file_to_node self) p"; cases "fs_read fs p")
      (force simp: disk_modified_def disk_hash_def hash_of_def stamps_honest_def)+
  then show "set (modified (detect_disk_changes sha fs self base)) =
           {p \<in> walked fs base. hash_of self p \<noteq> None \<and> disk_hash sha fs base p \<noteq> hash_of self p}"
    by (auto simp: detect_disk_changes_def disk_loop_eq)
  show "set (deleted (detect_disk_changes sha fs self base)) = {p. hash_of self p \<noteq> None \<and> p \<notin> walked fs base}"
    by (auto simp: detect_disk_changes_def disk_loop_eq hash_of_def  map_of_eq_None_iff)
qed

subsection \<open>Saving and loading\<close>

lemma write_snapshot_other:
  "q \<noteq> temporary \<Longrightarrow> q \<noteq> name \<Longrightarrow> fst (write_snapshot io b temporary name d) q = d q"
  by (auto simp: write_snapshot_def Let_def split: sum.splits)

lemma write_snapshot_Inl:
  "write_snapshot io b temporary name d = (d', Inl e) \<Longrightarrow> q \<noteq> temporary \<Longrightarrow> d' q = d q"
  by (auto simp: write_snapshot_def Let_def split: sum.splits)

lemma write_snapshot_Inr:
  "write_snapshot io b temporary name d = (d', Inr u) \<Longrightarrow> temporary \<noteq> name \<Longrightarrow>
   d' name = Some (Inr b) \<and> d' temporary = None \<and> (\<forall>q. q \<noteq> temporary \<longrightarrow> q \<noteq> name \<longrightarrow> d' q = d q)"
  by (auto simp: write_snapshot_def Let_def split: sum.splits)

lemma sorted_hashes:
  assumes "distinct (keys nodes)"
  shows "map fst (sort_key snd (map (\<lambda>(p, node). (content_hash node, p)) nodes)) =
         hashes_in_path_order nodes"
proof -
  let ?L = "map (\<lambda>(p, node). (content_hash node, p)) nodes"
  have snds: "map snd ?L = keys nodes" by (induction nodes) auto
  have "map snd (sort_key snd ?L) = sort (keys nodes)"
    by (rule properties_for_sort[symmetric]) (simp_all add: snds[symmetric] del: map_map)
  moreover have "h = content_hash (the (map_of nodes p))" if "(h, p) \<in> set (sort_key snd ?L)" for h p
    using that assms by (auto simp: map_of_eq_Some_iff)
  then have "map fst (sort_key snd ?L) =
      map (\<lambda>p. content_hash (the (map_of nodes p))) (map snd (sort_key snd ?L))"
    unfolding map_map by (intro map_cong refl) (auto simp: case_prod_beta)
  ultimately show ?thesis by (simp add: hashes_in_path_order_def)
qed

text \<open>The leaves are determined by the hashes.\<close>

lemma same_hashes_same_leaves:
  assumes "merkle_wf m" and "merkle_wf m'" and "\<And>p. hash_of m p = hash_of m' p"
  shows "tree_leaves m = tree_leaves m'"
proof -
  have "set (keys (file_to_node m)) = set (keys (file_to_node m'))"
    using assms(3) hash_of_None_iff by (metis subsetI subset_antisym)
  then have "sort (keys (file_to_node m)) = sort (keys (file_to_node m'))"
    using assms(1,2)[THEN merkle_wf_distinct] by (metis distinct_sort set_sort sorted_distinct_set_unique sorted_sort)
  moreover have "content_hash (the (map_of (file_to_node m) p)) = content_hash (the (map_of (file_to_node m') p))"
    if "p \<in> set (keys (file_to_node m))" for p
  proof -
    obtain n where n: "map_of (file_to_node m) p = Some n" using \<open>p \<in> _\<close> by (rule key_lookupE)
    then obtain n' where "map_of (file_to_node m') p = Some n'" "content_hash n = content_hash n'"
      using assms(3)[of p] by (cases "map_of (file_to_node m') p") (auto simp: hash_of_def)
    with n show ?thesis by simp
  qed
  ultimately have "hashes_in_path_order (file_to_node m) = hashes_in_path_order (file_to_node m')"
    unfolding hashes_in_path_order_def by (metis (no_types, lifting) map_cong set_sort)
  then show ?thesis using assms(1,2) by (simp add: merkle_wf_def)
qed

subsection \<open>Properties\<close>

text \<open>C12: When the roots differ, \<open>detect_changes\<close> reports exactly the difference of the two snapshots:
  the new paths, the paths in both whose content hash differs, and the paths that are gone; no
  path is reported twice.
\<close>

theorem detect_changes_exact:
  assumes "merkle_wf new" and "merkle_wf old" and "has_changes mroot new old"
  shows "set (added (detect_changes mroot new old)) = {p. hash_of new p \<noteq> None \<and> hash_of old p = None} \<and>
         set (modified (detect_changes mroot new old)) =
           {p. hash_of new p \<noteq> None \<and> hash_of old p \<noteq> None \<and> hash_of new p \<noteq> hash_of old p} \<and>
         set (deleted (detect_changes mroot new old)) = {p. hash_of new p = None \<and> hash_of old p \<noteq> None} \<and>
         distinct (added (detect_changes mroot new old) @ modified (detect_changes mroot new old)
           @ deleted (detect_changes mroot new old))"
  using detect_changes_sets[OF assms] detect_changes_distinct[OF assms(1,2)] by blast

text \<open>A small digest type with an injective root, for concrete snapshots.\<close>

datatype digest = Leaf nat | Node "digest list"

definition ref_root :: "digest list \<Rightarrow> digest option" where
  "ref_root ls = (if ls = [] then None else Some (Node ls))"

lemma inj_ref_root: "inj ref_root"
  by (auto simp: inj_def ref_root_def split: if_splits)

definition node_at :: "nat \<Rightarrow> nat \<Rightarrow> digest file_node" where
  "node_at h i = \<lparr>content_hash = Leaf h, leaf_index = i, last_modified = 0\<rparr>"

definition snap_old :: "digest fs_merkle" where
  "snap_old = \<lparr>tree_leaves = [Leaf 1, Leaf 2],
     file_to_node = [([''b.rs''], node_at 2 1), ([''a.rs''], node_at 1 0)], snapshot_version = 1\<rparr>"

definition snap_new :: "digest fs_merkle" where
  "snap_new = \<lparr>tree_leaves = [Leaf 5, Leaf 2],
     file_to_node = [([''a.rs''], node_at 5 0), ([''b.rs''], node_at 2 1)], snapshot_version = 1\<rparr>"

lemma snap_wf: "merkle_wf snap_old" "merkle_wf snap_new"
  by code_simp+

lemma snap_changed: "has_changes ref_root snap_new snap_old"
  by code_simp

theorem detect_changes_exact_witness:
  "modified (detect_changes ref_root snap_new snap_old) = [[''a.rs'']] \<and>
   [''a.rs''] \<in> {p. hash_of snap_new p \<noteq> None \<and> hash_of snap_old p \<noteq> None \<and> hash_of snap_new p \<noteq> hash_of snap_old p}"
proof -
  have m: "modified (detect_changes ref_root snap_new snap_old) = [[''a.rs'']]" by code_simp
  show ?thesis
    using detect_changes_exact[OF snap_wf(2,1) snap_changed] m by auto
qed

text \<open>For two snapshots of the same set of paths and a collision-free Merkle root, the fast path
  (equal roots, so nothing to do) loses nothing: the files reported as modified are exactly those
  whose content hash differs, and nothing is reported added or deleted.
\<close>

theorem detect_changes_same_paths:
  assumes "inj mroot" and "merkle_wf new" and "merkle_wf old"
    and "set (file_paths new) = set (file_paths old)"
  shows "set (modified (detect_changes mroot new old)) = {p. hash_of new p \<noteq> hash_of old p} \<and>
         added (detect_changes mroot new old) = [] \<and> deleted (detect_changes mroot new old) = []"
proof -
  have keys: "set (keys (file_to_node new)) = set (keys (file_to_node old))"
    using assms(4) by (simp add: file_paths_def)
  then have none: "hash_of new p = None \<longleftrightarrow> hash_of old p = None" for p
    by (simp only: hash_of_None_iff)
  show ?thesis
  proof (cases "has_changes mroot new old")
    case True
    from detect_changes_sets[OF assms(2,3) True] none show ?thesis
      by (auto simp flip: set_empty)
  next
    case False
    then have "tree_leaves new = tree_leaves old"
      using assms(1) by (auto simp: has_changes_def root_hash_def inj_def)
    from leaves_eq_imp_hash_eq[OF assms(2,3) keys this] False show ?thesis
      by (simp add: detect_changes_no_root_change ChangeSet_empty_def)
  qed
qed

theorem detect_changes_same_paths_witness:
  "set (modified (detect_changes ref_root snap_new snap_old)) = {p. hash_of snap_new p \<noteq> hash_of snap_old p}"
proof -
  have "set (file_paths snap_new) = set (file_paths snap_old)" by code_simp
  then show ?thesis using detect_changes_same_paths[OF inj_ref_root snap_wf(2,1)] by blast
qed

text \<open>The leaves of the tree are content hashes only, so a rename that keeps the order of the
  contents leaves the root unchanged, and \<open>detect_changes\<close> reports nothing although one path is
  gone and another is new, whatever hash and root function are used.
\<close>

theorem detect_changes_misses_rename:
  "\<exists>before after. from_nodes [([''a.rs''], node_at h 0)] 1 = Some before \<and>
     from_nodes [([''b.rs''], node_at h 0)] 1 = Some after \<and>
     detect_changes mroot after before = ChangeSet_empty \<and>
     hash_of before [''a.rs''] \<noteq> None \<and> hash_of after [''a.rs''] = None \<and>
     hash_of before [''b.rs''] = None \<and> hash_of after [''b.rs''] \<noteq> None"
  by (simp add: from_nodes_def detect_changes_def has_changes_def root_hash_def hash_of_def)

text \<open>The snapshot committed after a partly failed run makes the next comparison of the same tree
  report exactly the retried paths whose state on disk differs from the previous snapshot, as long
  as the two roots differ; every other path is up to date.
\<close>

theorem retries_are_presented_again:
  assumes "merkle_wf new" and "snapshot_with_retries new previous retry = Some committed"
    and "has_changes mroot new committed"
  shows "set (added (detect_changes mroot new committed) @ modified (detect_changes mroot new committed)
            @ deleted (detect_changes mroot new committed)) =
           {p \<in> set retry. hash_of new p \<noteq> prev_hash previous p}"
proof -
  from snapshot_with_retries_Some[OF assms(1), of previous retry] assms(2)
  have wf: "merkle_wf committed"
    and look: "\<And>p. hash_of committed p = (if p \<in> set retry then prev_hash previous p else hash_of new p)"
    by auto
  from detect_changes_sets[OF assms(1) wf assms(3)] show ?thesis
    unfolding set_append using look by (auto split: if_splits)
qed

theorem retries_are_presented_again_witness:
  "\<exists>committed. snapshot_with_retries snap_new (Some snap_old) [[''a.rs'']] = Some committed \<and>
     set (added (detect_changes ref_root snap_new committed) @ modified (detect_changes ref_root snap_new committed)
       @ deleted (detect_changes ref_root snap_new committed)) =
     {p \<in> {[''a.rs'']}. hash_of snap_new p \<noteq> prev_hash (Some snap_old) p} \<and>
     hash_of snap_new [''a.rs''] \<noteq> prev_hash (Some snap_old) [''a.rs'']"
proof -
  define c where "c = the (snapshot_with_retries snap_new (Some snap_old) [[''a.rs'']])"
  have "snapshot_with_retries snap_new (Some snap_old) [[''a.rs'']] \<noteq> None" by code_simp
  then have c: "snapshot_with_retries snap_new (Some snap_old) [[''a.rs'']] = Some c"
    by (auto simp: c_def)
  have "has_changes ref_root snap_new (the (snapshot_with_retries snap_new (Some snap_old) [[''a.rs'']]))"
    by code_simp
  then have ch: "has_changes ref_root snap_new c" by (simp add: c_def)
  have "hash_of snap_new [''a.rs''] \<noteq> prev_hash (Some snap_old) [''a.rs'']" by code_simp
  then show ?thesis using c retries_are_presented_again[OF snap_wf(2) c ch] by auto
qed

text \<open>A retried rename is lost. One file moves (\<open>a.rs\<close> to \<open>b.rs\<close>, same content) while another
  changes (\<open>c.rs\<close>); the run fails on the two moved paths and commits the snapshot with both to be
  retried. The committed root equals the root of the tree, so the next comparison reports nothing
  and the two paths are never retried, whatever the root function.
\<close>

theorem retried_rename_is_lost:
  "\<exists>old new committed.
     from_nodes [([''a.rs''], node_at h 0), ([''c.rs''], node_at k 1)] 1 = Some old \<and>
     from_nodes [([''b.rs''], node_at h 0), ([''c.rs''], node_at k' 1)] 1 = Some new \<and>
     snapshot_with_retries new (Some old) [[''b.rs''], [''a.rs'']] = Some committed \<and>
     hash_of new [''b.rs''] \<noteq> hash_of committed [''b.rs''] \<and>
     detect_changes mroot new committed = ChangeSet_empty"
  by (simp add: from_nodes_def snapshot_with_retries_def detect_changes_def has_changes_def
      root_hash_def hash_of_def node_at_def)

text \<open>C13: The disk probe agrees with the content of the tree: under honest time stamps it reports
  exactly the walked files the snapshot does not know, those whose content hash differs from the
  snapshot or that cannot be read, and the snapshot's files the walk did not find; all sorted.
\<close>

theorem detect_disk_changes_exact:
  assumes "stamps_honest sha fs (file_to_node self)"
  shows "set (added (detect_disk_changes sha fs self base)) = {p \<in> walked fs base. hash_of self p = None} \<and>
         set (modified (detect_disk_changes sha fs self base)) =
           {p \<in> walked fs base. hash_of self p \<noteq> None \<and> disk_hash sha fs base p \<noteq> hash_of self p} \<and>
         set (deleted (detect_disk_changes sha fs self base)) = {p. hash_of self p \<noteq> None \<and> p \<notin> walked fs base} \<and>
         sorted (added (detect_disk_changes sha fs self base)) \<and>
         sorted (modified (detect_disk_changes sha fs self base)) \<and>
         sorted (deleted (detect_disk_changes sha fs self base))"
  using detect_disk_changes_sets[OF assms]
  by (simp add: detect_disk_changes_def disk_loop_eq)

definition disk_example :: filesystem where
  "disk_example = \<lparr>
     fs_read = (\<lambda>p. if p = [''a.rs''] then Inr ''changed'' else if p = [''c.rs''] then Inr ''new'' else Inl ''not found''),
     fs_read_to_string = (\<lambda>p. if p = [''a.rs''] then Inr ''changed'' else if p = [''c.rs''] then Inr ''new'' else Inl ''not found''),
     fs_metadata = (\<lambda>p. if p \<in> {[''a.rs''], [''c.rs'']} then Inr \<lparr>md_len = 7, md_modified = Inr 9\<rparr> else Inl ''not found''),
     fs_exists = (\<lambda>p. p \<in> {[''a.rs''], [''c.rs'']}),
     fs_walk = (\<lambda>base pred. map Inr (filter pred
        (map (\<lambda>p. \<lparr>de_path = p, de_is_dir = False, de_is_file = True\<rparr>) [[''c.rs''], [''a.rs'']])))\<rparr>"

theorem detect_disk_changes_exact_witness:
  "detect_disk_changes (\<lambda>c. Leaf (length c)) disk_example snap_old [] =
     \<lparr>added = [[''c.rs'']], modified = [[''a.rs'']], deleted = [[''b.rs'']]\<rparr> \<and>
   set (deleted (detect_disk_changes (\<lambda>c. Leaf (length c)) disk_example snap_old [])) =
     {p. hash_of snap_old p \<noteq> None \<and> p \<notin> walked disk_example []}"
proof -
  have v: "detect_disk_changes (\<lambda>c. Leaf (length c)) disk_example snap_old [] =
     \<lparr>added = [[''c.rs'']], modified = [[''a.rs'']], deleted = [[''b.rs'']]\<rparr>" by code_simp
  have "stamps_honest (\<lambda>c. Leaf (length c)) disk_example (file_to_node snap_old)"
    by (auto simp: stamps_honest_def snap_old_def node_at_def disk_example_def fs_modified_def)
  from detect_disk_changes_exact[OF this, of "[]"] v show ?thesis by blast
qed

lemma save_load:
  assumes "merkle_wf m"
    and "de (ser (snapshot_of mroot zero now m)) = Inr (snapshot_of mroot zero now m)"
    and "temporary_name name pid \<noteq> name"
    and "save_snapshot ser mroot zero io pid now m name d = (d', r)"
  shows "(is_ok r \<longrightarrow> load_snapshot de name d' = Inr (Some m) \<and> d' (temporary_name name pid) = None) \<and>
         (\<not> is_ok r \<longrightarrow> d' name = d name) \<and>
         (\<forall>q. q \<noteq> name \<longrightarrow> q \<noteq> temporary_name name pid \<longrightarrow> d' q = d q)"
proof -
  define t where "t = temporary_name name pid"
  define s where "s = snapshot_of mroot zero now m"
  obtain d1 r1 where w: "write_snapshot io (ser s) t name d = (d1, r1)" by force
  have sv: "(d', r) = (case io_create_dir io of Inl e \<Rightarrow> (d, Inl e)
      | Inr _ \<Rightarrow> (case r1 of Inl e \<Rightarrow> (if is_ok (io_remove io) then d1(t := None) else d1, Inl e)
                  | Inr u \<Rightarrow> (d1, Inr u)))"
    unfolding assms(4)[symmetric] save_snapshot_def Let_def s_def[symmetric] t_def[symmetric] w
    by (cases "io_create_dir io"; cases r1) simp_all
  have reload: "load_snapshot de name d1 = Inr (Some m)" if "d1 name = Some (Inr (ser s))"
    using that assms(1,2) sorted_hashes[of "file_to_node m"]
    by (simp add: load_snapshot_def s_def snapshot_of_def merkle_wf_def Let_def)
  have other: "d1 q = d q" if "q \<noteq> name" "q \<noteq> t" for q
    using write_snapshot_other[OF that(2,1), of io "ser s" d] w by simp
  show ?thesis
  proof (cases "\<exists>e. io_create_dir io = Inl e")
    case True
    then show ?thesis using sv by (auto simp: t_def)
  next
    case False
    then obtain u where cd: "io_create_dir io = Inr u" by (cases "io_create_dir io") auto
    show ?thesis
    proof (cases r1)
      case (Inl e)
      with w have "d1 name = d name" using write_snapshot_Inl assms(3) t_def by metis
      with Inl cd sv other show ?thesis using assms(3) by (auto simp: t_def)
    next
      case (Inr v)
      with w assms(3) have "d1 name = Some (Inr (ser s))" "d1 t = None"
        using write_snapshot_Inr t_def by metis+
      with Inr cd sv other reload show ?thesis by (auto simp: t_def)
    qed
  qed
qed

text \<open>C34: Saving is atomic and loading inverts it. When the save succeeds, loading returns the very
  same snapshot (tree, nodes and version) and the temporary file is gone; when it fails, at
  whatever step, the previous snapshot file is untouched; no other file changes in either case.
\<close>

theorem save_load_snapshot:
  assumes "merkle_wf m"
    and "de (ser (snapshot_of mroot zero now m)) = Inr (snapshot_of mroot zero now m)"
    and "temporary_name name pid \<noteq> name"
    and "save_snapshot ser mroot zero io pid now m name d = (d', r)"
  shows "(is_ok r \<longrightarrow> load_snapshot de name d' = Inr (Some m) \<and> d' (temporary_name name pid) = None) \<and>
         (\<not> is_ok r \<longrightarrow> d' name = d name) \<and>
         (\<forall>q. q \<noteq> name \<longrightarrow> q \<noteq> temporary_name name pid \<longrightarrow> d' q = d q)"
  using assms by (rule save_load)

definition io_ok :: save_io where
  "io_ok = \<lparr>io_create_dir = Inr (), io_create = Inr (), io_write = Inr (), io_partial = [],
            io_flush = Inr (), io_sync = Inr (), io_rename = Inr (), io_remove = Inr ()\<rparr>"

definition io_full :: save_io where
  "io_full = io_ok\<lparr>io_write := Inl ''no space left on device'', io_partial := ''x''\<rparr>"

lemma temporary_name_example: "temporary_name ''ab.snapshot'' 7 = ''ab.tmp-7''"
  by code_simp

theorem save_load_snapshot_witness:
  "load_snapshot (\<lambda>_. Inr (snapshot_of ref_root (Leaf 0) 3 snap_new)) ''ab.snapshot''
     (fst (save_snapshot (\<lambda>_. ''bytes'') ref_root (Leaf 0) io_ok 7 3 snap_new ''ab.snapshot''
        [''ab.snapshot'' \<mapsto> Inr ''old''])) = Inr (Some snap_new) \<and>
   fst (save_snapshot (\<lambda>_. ''bytes'') ref_root (Leaf 0) io_full 7 3 snap_new ''ab.snapshot''
        [''ab.snapshot'' \<mapsto> Inr ''old'']) ''ab.snapshot'' = Some (Inr ''old'')"
proof -
  have t: "temporary_name ''ab.snapshot'' 7 \<noteq> ''ab.snapshot''" by code_simp
  have ok: "is_ok (snd (save_snapshot (\<lambda>_. ''bytes'') ref_root (Leaf 0) io_ok 7 3 snap_new ''ab.snapshot''
        [''ab.snapshot'' \<mapsto> Inr ''old'']))"
    and full: "\<not> is_ok (snd (save_snapshot (\<lambda>_. ''bytes'') ref_root (Leaf 0) io_full 7 3 snap_new ''ab.snapshot''
        [''ab.snapshot'' \<mapsto> Inr ''old'']))"
    by (simp_all add: save_snapshot_def write_snapshot_def io_ok_def io_full_def Let_def)
  note saved = save_load_snapshot[where de = "\<lambda>_. Inr (snapshot_of ref_root (Leaf 0) 3 snap_new)"
      and ser = "\<lambda>_. ''bytes''" and mroot = ref_root and zero = "Leaf 0" and now = 3,
      OF snap_wf(2) refl t surjective_pairing]
  show ?thesis
    using ok full saved[where io = io_ok and d = "[''ab.snapshot'' \<mapsto> Inr ''old'']"]
      saved[where io = io_full and d = "[''ab.snapshot'' \<mapsto> Inr ''old'']"]
    by simp
qed

end
