(* ===== verification/Index_Errors.thy ===== *)
theory Index_Errors
  imports Prelude
begin

text \<open>
  Errors of an indexing run and their accounting (\<open>crates/rmc-indexing/src/indexing/error.rs\<close>,
  \<open>error_collection.rs\<close>, the \<open>IndexStats\<close> of \<open>unified.rs\<close>, \<open>process_batch_errors\<close> of
  \<open>unified_parallel.rs\<close>, and \<open>crates/rmc-engine/src/embeddings/error.rs\<close>). An \<open>anyhow::Error\<close> is
  the list of its messages, outermost context first: \<open>to_string\<close> shows the first one only.

  Lowercasing is that of ASCII; the literals it is compared with are ASCII.
\<close>

subsection \<open>Error types\<close>

text \<open>An \<open>f32\<close> component of an embedding. Finite ones are rational numbers.\<close>

datatype non_finite = Infinity | NegInfinity | NaN

datatype f32 = Finite rat | NonFinite non_finite

type_synonym embedding = "f32 list"

datatype embedding_error =
    ModelInit string
  | EmbedFailed string
  | NoEmbeddingGenerated
  | NonFiniteEmbedding nat nat nat non_finite
  | TaskJoin string
  | GpuRequired string
  | InvalidIdentity string

datatype indexing_error =
    Io string
  | Embedding embedding_error
  | VectorStore string
  | Parser string
  | Cache string

fun non_finite_str :: "non_finite \<Rightarrow> string" where
  "non_finite_str Infinity = ''inf''"
| "non_finite_str NegInfinity = ''-inf''"
| "non_finite_str NaN = ''NaN''"

fun embedding_error_str :: "embedding_error \<Rightarrow> string" where
  "embedding_error_str (ModelInit s) = ''Model initialization failed: '' @ s"
| "embedding_error_str (EmbedFailed s) = ''Embedding generation failed: '' @ s"
| "embedding_error_str NoEmbeddingGenerated = ''No embedding generated''"
| "embedding_error_str (NonFiniteEmbedding i n c v) =
     ''Model returned a non-finite embedding: item '' @ nat_str i @ '' of '' @ nat_str n @
     '', component '' @ nat_str c @ '' = '' @ non_finite_str v"
| "embedding_error_str (TaskJoin s) = ''Async task failed: '' @ s"
| "embedding_error_str (GpuRequired s) = s"
| "embedding_error_str (InvalidIdentity s) = ''Invalid embedder identity: '' @ s"

fun indexing_error_str :: "indexing_error \<Rightarrow> string" where
  "indexing_error_str (Io s) = ''I/O error: '' @ s"
| "indexing_error_str (Embedding e) = ''Embedding error: '' @ embedding_error_str e"
| "indexing_error_str (VectorStore s) = ''Vector store error: '' @ s"
| "indexing_error_str (Parser s) = ''Parser error: '' @ s"
| "indexing_error_str (Cache s) = ''Cache error: '' @ s"

type_synonym anyhow = "string list"

definition with_context :: "string \<Rightarrow> anyhow \<Rightarrow> anyhow" where
  "with_context msg e = msg # e"

definition anyhow_str :: "anyhow \<Rightarrow> string" where
  "anyhow_str e = (case e of [] \<Rightarrow> [] | msg # _ \<Rightarrow> msg)"

definition to_anyhow :: "indexing_error \<Rightarrow> anyhow" where
  "to_anyhow e = [indexing_error_str e]"

subsection \<open>Categories\<close>

definition OUTCOME_FILE_UNCHANGED :: string where
  "OUTCOME_FILE_UNCHANGED = ''File unchanged''"

definition OUTCOME_NO_CHUNKS :: string where
  "OUTCOME_NO_CHUNKS = ''No chunks generated''"

definition OUTCOME_CONTAINS_SECRETS :: string where
  "OUTCOME_CONTAINS_SECRETS = ''Contains secrets''"

definition OUTCOME_SECURITY_FILTERED :: string where
  "OUTCOME_SECURITY_FILTERED = ''File filtered: security check failed''"

definition SETTLED_OUTCOMES :: "string list" where
  "SETTLED_OUTCOMES =
     [OUTCOME_FILE_UNCHANGED, OUTCOME_NO_CHUNKS, OUTCOME_CONTAINS_SECRETS, OUTCOME_SECURITY_FILTERED]"

lemmas outcome_defs = OUTCOME_FILE_UNCHANGED_def OUTCOME_NO_CHUNKS_def OUTCOME_CONTAINS_SECRETS_def
  OUTCOME_SECURITY_FILTERED_def

datatype error_category = Permanent | Transient

definition categorize_error :: "string \<Rightarrow> error_category" where
  "categorize_error msg =
     (let error_str = to_lowercase msg in
      if list_ex (\<lambda>outcome. contains_str error_str (to_lowercase outcome)) SETTLED_OUTCOMES then Permanent
      else if contains_str error_str ''permission denied'' \<or> contains_str error_str ''not found''
              \<or> contains_str error_str ''invalid utf'' \<or> contains_str error_str ''is a directory''
      then Permanent
      else Transient)"

record error_detail =
  err_path :: path
  err_category :: error_category
  err_message :: string

text \<open>The collector is the list of its errors, in the order they were recorded.\<close>

type_synonym error_collector = "error_detail list"

definition collector_record :: "error_collector \<Rightarrow> error_detail \<Rightarrow> error_collector" where
  "collector_record ec e = ec @ [e]"

definition errors_by_category :: "error_collector \<Rightarrow> error_category \<Rightarrow> error_detail list" where
  "errors_by_category ec cat = filter (\<lambda>e. err_category e = cat) ec"

subsection \<open>Statistics of a run\<close>

record index_stats =
  total_files :: nat
  indexed_files :: nat
  unchanged_files :: nat
  skipped_files :: nat
  failed_files :: nat
  retry_files :: "path list"
  total_chunks :: nat
  needs_maintenance :: bool

definition IndexStats_unchanged :: index_stats where
  "IndexStats_unchanged =
     \<lparr>total_files = 0, indexed_files = 0, unchanged_files = 0, skipped_files = 0, failed_files = 0,
      retry_files = [], total_chunks = 0, needs_maintenance = False\<rparr>"

definition record_error :: "index_stats \<Rightarrow> path \<Rightarrow> anyhow \<Rightarrow> index_stats" where
  "record_error stats p e =
     (case categorize_error (anyhow_str e) of
        Permanent \<Rightarrow> stats\<lparr>skipped_files := skipped_files stats + 1\<rparr>
      | Transient \<Rightarrow> stats\<lparr>failed_files := failed_files stats + 1, retry_files := retry_files stats @ [p]\<rparr>)"

fun process_batch_errors :: "error_collector \<Rightarrow> index_stats \<Rightarrow> index_stats" where
  "process_batch_errors [] stats = stats"
| "process_batch_errors (e # es) stats =
     process_batch_errors es
       (case err_category e of
          Permanent \<Rightarrow> stats\<lparr>skipped_files := skipped_files stats + 1\<rparr>
        | Transient \<Rightarrow> stats\<lparr>failed_files := failed_files stats + 1,
                              retry_files := retry_files stats @ [err_path e]\<rparr>)"

subsection \<open>Lemmas\<close>

lemma to_lowercase_append [simp]: "to_lowercase (s @ t) = to_lowercase s @ to_lowercase t"
  by (simp add: to_lowercase_def)

lemma contains_lowercase_middle: "contains_str (to_lowercase (pre @ s @ post)) (to_lowercase s)"
  by (auto simp: contains_str_iff_sublist)

lemma categorize_settled:
  assumes "outcome \<in> set SETTLED_OUTCOMES"
  shows "categorize_error (pre @ outcome @ post) = Permanent"
  using assms contains_lowercase_middle[of pre outcome post]
  by (auto simp: categorize_error_def Let_def list_ex_iff)

lemma record_error_simps [simp]:
  "total_files (record_error st p e) = total_files st"
  "indexed_files (record_error st p e) = indexed_files st"
  "unchanged_files (record_error st p e) = unchanged_files st"
  "total_chunks (record_error st p e) = total_chunks st"
  "needs_maintenance (record_error st p e) = needs_maintenance st"
  by (simp_all add: record_error_def split: error_category.split)

lemma record_error_accounts:
  "skipped_files (record_error st p e) + failed_files (record_error st p e) =
     Suc (skipped_files st + failed_files st)"
  by (simp add: record_error_def split: error_category.split)

lemma record_error_retry:
  "retry_files (record_error st p e) =
     retry_files st @ (if categorize_error (anyhow_str e) = Transient then [p] else [])"
  by (simp add: record_error_def split: error_category.split)

lemma record_error_failed:
  "length (retry_files st) = failed_files st \<Longrightarrow>
   length (retry_files (record_error st p e)) = failed_files (record_error st p e)"
  by (simp add: record_error_def split: error_category.split)

text \<open>A settled outcome (unchanged, no chunks, secrets, filtered) that reaches the classifier
  inside an indexing error is permanent, whatever text surrounds it: it is counted as skipped and
  never put on the retry list.\<close>

theorem settled_outcome_is_never_retried:
  assumes "outcome \<in> set SETTLED_OUTCOMES"
  shows "record_error st p (to_anyhow (Parser (pre @ outcome @ post))) =
           st\<lparr>skipped_files := skipped_files st + 1\<rparr>"
  using categorize_settled[OF assms, of "''Parser error: '' @ pre" post]
  by (simp add: record_error_def to_anyhow_def anyhow_str_def)

theorem settled_outcome_is_never_retried_witness:
  "retry_files (record_error IndexStats_unchanged [''a.rs''] (to_anyhow (Parser OUTCOME_NO_CHUNKS))) = []"
  using settled_outcome_is_never_retried[of OUTCOME_NO_CHUNKS IndexStats_unchanged "[''a.rs'']" "[]" "[]"]
  by (simp add: SETTLED_OUTCOMES_def IndexStats_unchanged_def)

text \<open>The parallel path accounts for the errors it collected exactly as the sequential path does
  when it records them one by one.\<close>

theorem process_batch_errors_is_record_error:
  "process_batch_errors
     (map (\<lambda>(p, e). \<lparr>err_path = p, err_category = categorize_error (indexing_error_str e),
                      err_message = indexing_error_str e\<rparr>) failures) stats =
   fold (\<lambda>(p, e) st. record_error st p (to_anyhow e)) failures stats"
  by (induction failures arbitrary: stats) (auto simp: record_error_def to_anyhow_def anyhow_str_def split: error_category.split)

text \<open>Two errors that the classifier means to be permanent are not recognised. The standard library
  reports a file that is not UTF-8 as ``stream did not contain valid UTF-8'' and a missing file as
  ``No such file or directory''; neither contains ``invalid utf'' or ``not found'', so such a file is
  put on the retry list.\<close>

theorem std_read_errors_are_retried:
  "retry_files (record_error st p (to_anyhow (Io ''stream did not contain valid UTF-8''))) = retry_files st @ [p] \<and>
   retry_files (record_error st p (to_anyhow (Io ''No such file or directory (os error 2)''))) = retry_files st @ [p]"
proof -
  have "categorize_error (indexing_error_str (Io ''stream did not contain valid UTF-8'')) = Transient"
    "categorize_error (indexing_error_str (Io ''No such file or directory (os error 2)'')) = Transient"
    by code_simp+
  then show ?thesis by (simp only: record_error_retry to_anyhow_def anyhow_str_def list.case simp_thms if_True)
qed

end
