(* ===== verification/Chunking.thy ===== *)
theory Chunking
  imports Prelude
begin

text \<open>
  Code chunks and how a file becomes chunks that fit an embedding budget
  (\<open>crates/rmc-engine/src/chunker/types.rs\<close>, \<open>chunker.rs\<close>, \<open>split.rs\<close>): the data types, the text
  that is embedded, the cut of a file by symbols, and the elision or line-split of oversized chunks.

  A fresh \<open>ChunkId\<close> (a random UUID) is the next value of a supply \<open>gen\<close>; the position in the supply is
  threaded through every function that draws one. The token counter is a parameter. Line numbers
  and counts are natural numbers: they are bounded by the length of a file. A panic is \<open>None\<close>.
\<close>

subsection \<open>Chunks\<close>

type_synonym chunk_id = nat

definition EMBEDDED_CONTEXT_ITEMS :: nat where
  "EMBEDDED_CONTEXT_ITEMS = 5"

record chunk_context =
  file_path :: path
  module_path :: "string list"
  symbol_name :: string
  symbol_kind :: string
  docstring :: "string option"
  file_imports :: "string list"
  outgoing_calls :: "string list"
  parent_symbol_name :: "string option"
  split_part :: "nat option"
  split_total :: "nat option"
  line_start :: nat
  line_end :: nat

record code_chunk =
  chunk_id :: chunk_id
  content :: string
  ctx :: chunk_context

text \<open>The text of a chunk that is embedded; its parts in the order the code pushes them.\<close>

definition embedding_parts :: "code_chunk \<Rightarrow> string list" where
  "embedding_parts c =
     (let x = ctx c in
      [''// File: '' @ path_str (file_path x)] @
      [''// Location: lines '' @ nat_str (line_start x) @ ''-'' @ nat_str (line_end x)] @
      (if module_path x = [] then [] else [''// Module: '' @ join ''::'' (module_path x)]) @
      [''// Symbol: '' @ symbol_name x @ '' ('' @ symbol_kind x @ '')''] @
      (case parent_symbol_name x of None \<Rightarrow> [] | Some parent \<Rightarrow> [''// Parent: '' @ parent]) @
      (case (split_part x, split_total x) of
         (Some part, Some tot) \<Rightarrow> [''// Chunk part: '' @ nat_str part @ ''/'' @ nat_str tot]
       | _ \<Rightarrow> []) @
      (case docstring x of None \<Rightarrow> [] | Some doc \<Rightarrow> [''// Purpose: '' @ doc]) @
      (if file_imports x = [] then []
       else [''// Imports: '' @ join '', '' (take EMBEDDED_CONTEXT_ITEMS (file_imports x))]) @
      (if outgoing_calls x = [] then []
       else [''// Calls: '' @ join '', '' (take EMBEDDED_CONTEXT_ITEMS (outgoing_calls x))]) @
      [[]] @ [content c])"

definition format_for_embedding :: "code_chunk \<Rightarrow> string" where
  "format_for_embedding c = join [newline] (embedding_parts c)"

record chunk_split_config =
  target_tokens :: nat
  hard_max_tokens :: nat
  context_in_first_part_only :: bool

definition ChunkSplitConfig_new :: "nat \<Rightarrow> nat \<Rightarrow> chunk_split_config" where
  "ChunkSplitConfig_new target hard =
     (let t = max target 1 in
      \<lparr>target_tokens = t, hard_max_tokens = max hard t, context_in_first_part_only = False\<rparr>)"

definition with_context_in_first_part_only :: "chunk_split_config \<Rightarrow> bool \<Rightarrow> chunk_split_config" where
  "with_context_in_first_part_only cfg on = cfg\<lparr>context_in_first_part_only := on\<rparr>"

subsection \<open>Lines\<close>

text \<open>\<open>str::lines\<close>: a line ends at a newline, which may be preceded by a carriage return.\<close>

definition strip_cr :: "string \<Rightarrow> string" where
  "strip_cr rline = (case rline of [] \<Rightarrow> [] | c # cs \<Rightarrow> if c = CHR 0x0D then cs else rline)"

fun lines_loop :: "string \<Rightarrow> string \<Rightarrow> string list" where
  "lines_loop [] cur = (if cur = [] then [] else [rev cur])"
| "lines_loop (c # cs) cur =
     (if c = newline then rev (strip_cr cur) # lines_loop cs [] else lines_loop cs (c # cur))"

definition str_lines :: "string \<Rightarrow> string list" where
  "str_lines s = lines_loop s []"

subsection \<open>Cutting a file by symbols\<close>

record symbol =
  sym_name :: string
  sym_kind :: string
  sym_docstring :: "string option"
  sym_start_line :: nat
  sym_end_line :: nat

record parse_result =
  pr_imports :: "string list"
  pr_symbols :: "symbol list"
  pr_callees :: "string \<Rightarrow> string list"  \<comment> \<open>\<open>CallGraph::get_callees\<close>\<close>

definition extract_symbol_code :: "string \<Rightarrow> symbol \<Rightarrow> string option" where
  "extract_symbol_code source smb =
     (let lines = str_lines source; start = sym_start_line smb - 1; end_line = sym_end_line smb in
      if length lines \<le> start then Some []
      else let e = min end_line (length lines) in
        if e < start then None else Some (join [newline] (take (e - start) (drop start lines))))"

fun module_components :: "path \<Rightarrow> bool \<Rightarrow> string list" where
  "module_components [] found_src = []"
| "module_components (name # rest) found_src =
     (if name = ''src'' then ''crate'' # module_components rest True
      else if found_src then
        let clean = (if suffix ''.rs'' name then take (length name - 3) name else name) in
        if clean \<noteq> ''mod'' then clean # module_components rest True else module_components rest True
      else module_components rest False)"

definition file_stem :: "path \<Rightarrow> string option" where
  "file_stem p =
     (if p = [] then None
      else let name = last p; ext = rev (takeWhile (\<lambda>c. c \<noteq> CHR ''.'') (rev name)) in
        Some (if ext = name \<or> length ext + 1 = length name then name
              else take (length name - length ext - 1) name))"

definition extract_module_path :: "path \<Rightarrow> string list" where
  "extract_module_path p =
     (let parts = module_components p False in
      if parts = [] then (case file_stem p of None \<Rightarrow> [] | Some name \<Rightarrow> [name]) else parts)"

definition symbol_context :: "path \<Rightarrow> string list \<Rightarrow> parse_result \<Rightarrow> symbol \<Rightarrow> chunk_context" where
  "symbol_context p mods pr smb =
     \<lparr>file_path = p, module_path = mods, symbol_name = sym_name smb, symbol_kind = sym_kind smb,
      docstring = sym_docstring smb, file_imports = take EMBEDDED_CONTEXT_ITEMS (pr_imports pr),
      outgoing_calls = take EMBEDDED_CONTEXT_ITEMS (pr_callees pr (sym_name smb)),
      parent_symbol_name = None, split_part = None, split_total = None,
      line_start = sym_start_line smb, line_end = sym_end_line smb\<rparr>"

fun chunk_symbols ::
  "(nat \<Rightarrow> chunk_id) \<Rightarrow> nat \<Rightarrow> path \<Rightarrow> string \<Rightarrow> parse_result \<Rightarrow> symbol list \<Rightarrow> (code_chunk list \<times> nat) option" where
  "chunk_symbols gen n p source pr [] = Some ([], n)"
| "chunk_symbols gen n p source pr (smb # smbs) =
     (case extract_symbol_code source smb of
        None \<Rightarrow> None
      | Some code \<Rightarrow>
          (case chunk_symbols gen (n + 1) p source pr smbs of
             None \<Rightarrow> None
           | Some (chunks, n') \<Rightarrow>
               Some (\<lparr>chunk_id = gen n, content = code,
                      ctx = symbol_context p (extract_module_path p) pr smb\<rparr> # chunks, n')))"

definition chunk_file ::
  "(nat \<Rightarrow> chunk_id) \<Rightarrow> nat \<Rightarrow> path \<Rightarrow> string \<Rightarrow> parse_result \<Rightarrow> (code_chunk list \<times> nat) option" where
  "chunk_file gen n p source pr = chunk_symbols gen n p source pr (pr_symbols pr)"

subsection \<open>Oversized chunks\<close>

definition make_part_chunk ::
  "(nat \<Rightarrow> chunk_id) \<Rightarrow> nat \<Rightarrow> code_chunk \<Rightarrow> nat \<Rightarrow> nat \<Rightarrow> string \<Rightarrow> bool \<Rightarrow> code_chunk" where
  "make_part_chunk gen n source start_off end_off text bare =
     (let x = (ctx source)\<lparr>line_start := line_start (ctx source) + start_off,
                               line_end := line_start (ctx source) + (end_off - 1)\<rparr>;
          x' = (if bare then x\<lparr>docstring := None, file_imports := [], outgoing_calls := []\<rparr> else x)
      in source\<lparr>chunk_id := gen n, content := text, ctx := x'\<rparr>)"

definition token_count_or_estimate :: "(code_chunk \<Rightarrow> nat option) \<Rightarrow> code_chunk \<Rightarrow> nat" where
  "token_count_or_estimate token_count c =
     max 1 (case token_count c of
              Some n \<Rightarrow> n
            | None \<Rightarrow> (length (format_for_embedding c) + 3) div 4)"

definition is_container_kind :: "string \<Rightarrow> bool" where
  "is_container_kind kind = (kind \<in> {''impl'', ''module'', ''trait''})"

definition strictly_contains :: "code_chunk \<Rightarrow> code_chunk \<Rightarrow> bool" where
  "strictly_contains parent child =
     (let p = ctx parent; c = ctx child in
      file_path p = file_path c \<and> line_start p \<le> line_start c \<and> line_end c \<le> line_end p \<and>
      (line_start p < line_start c \<or> line_end c < line_end p))"

text \<open>The loop of \<open>split_leaf_chunk\<close> over the lines, and the last part after it.\<close>

fun split_loop ::
  "(nat \<Rightarrow> chunk_id) \<Rightarrow> (code_chunk \<Rightarrow> nat option) \<Rightarrow> chunk_split_config \<Rightarrow> code_chunk \<Rightarrow>
   nat \<Rightarrow> string list \<Rightarrow> code_chunk list \<Rightarrow> nat \<Rightarrow> string list \<Rightarrow> nat \<Rightarrow> code_chunk list \<times> nat" where
  "split_loop gen tc cfg chunk line_idx [] parts part_start current n =
     (if current \<noteq> []
      then (parts @ [make_part_chunk gen n chunk part_start line_idx (join [newline] current)
                       (context_in_first_part_only cfg \<and> parts \<noteq> [])], n + 1)
      else (parts, n))"
| "split_loop gen tc cfg chunk line_idx (line # rest) parts part_start current n =
     (let bare = (context_in_first_part_only cfg \<and> parts \<noteq> []);
          candidate = make_part_chunk gen n chunk part_start (line_idx + 1)
                        (join [newline] (current @ [line])) bare;
          candidate_tokens = token_count_or_estimate tc candidate
      in if current \<noteq> [] \<and> target_tokens cfg < candidate_tokens
         then split_loop gen tc cfg chunk (line_idx + 1) rest
                (parts @ [make_part_chunk gen (n + 1) chunk part_start line_idx
                            (join [newline] current) bare])
                line_idx [line] (n + 2)
         else split_loop gen tc cfg chunk (line_idx + 1) rest parts part_start (current @ [line]) (n + 1))"

definition number_parts :: "code_chunk list \<Rightarrow> code_chunk list" where
  "number_parts parts =
     map (\<lambda>(i, part). part\<lparr>ctx := (ctx part)\<lparr>split_part := Some (i + 1),
                                                       split_total := Some (length parts)\<rparr>\<rparr>)
       (zip [0..<length parts] parts)"

definition split_leaf_chunk ::
  "(nat \<Rightarrow> chunk_id) \<Rightarrow> (code_chunk \<Rightarrow> nat option) \<Rightarrow> chunk_split_config \<Rightarrow> code_chunk \<Rightarrow> nat \<Rightarrow>
   code_chunk list \<times> nat" where
  "split_leaf_chunk gen tc cfg chunk n =
     (let lines = str_lines (content chunk) in
      if length lines \<le> 1 then ([chunk], n)
      else case split_loop gen tc cfg chunk 0 lines [] 0 [] n of
             (parts, n') \<Rightarrow> if length parts \<le> 1 then ([chunk], n') else (number_parts parts, n'))"

text \<open>\<open>skip_container\<close> of \<open>split_oversized_chunks\<close>, for the chunk at position \<open>idx\<close>.\<close>

definition skips_container ::
  "(code_chunk \<Rightarrow> nat option) \<Rightarrow> chunk_split_config \<Rightarrow> code_chunk list \<Rightarrow> nat \<Rightarrow> bool" where
  "skips_container tc cfg chunks idx =
     (let chunk = chunks ! idx in
      \<not> (token_count_or_estimate tc chunk \<le> target_tokens cfg
         \<or> \<not> is_container_kind (symbol_kind (ctx chunk))) \<and>
      (\<exists>child_idx < length chunks. child_idx \<noteq> idx \<and> strictly_contains chunk (chunks ! child_idx)))"

text \<open>\<open>min_by_key\<close> returns the first minimal element.\<close>

fun min_by_key :: "('a \<Rightarrow> nat) \<Rightarrow> 'a list \<Rightarrow> 'a option" where
  "min_by_key key [] = None"
| "min_by_key key (x # xs) =
     (case min_by_key key xs of
        None \<Rightarrow> Some x
      | Some y \<Rightarrow> if key x \<le> key y then Some x else Some y)"

definition nearest_skipped_parent :: "nat \<Rightarrow> code_chunk list \<Rightarrow> bool list \<Rightarrow> nat option" where
  "nearest_skipped_parent idx chunks skip =
     min_by_key (\<lambda>i. line_end (ctx (chunks ! i)) - line_start (ctx (chunks ! i)))
       (filter (\<lambda>i. skip ! i \<and> i \<noteq> idx \<and> strictly_contains (chunks ! i) (chunks ! idx))
          [0..<length chunks])"

fun emit_chunks ::
  "(nat \<Rightarrow> chunk_id) \<Rightarrow> (code_chunk \<Rightarrow> nat option) \<Rightarrow> chunk_split_config \<Rightarrow> code_chunk list \<Rightarrow> bool list \<Rightarrow>
   nat list \<Rightarrow> nat \<Rightarrow> code_chunk list \<times> nat" where
  "emit_chunks gen tc cfg chunks skip [] n = ([], n)"
| "emit_chunks gen tc cfg chunks skip (idx # rest) n =
     (if skip ! idx then emit_chunks gen tc cfg chunks skip rest n
      else
        let chunk = (case nearest_skipped_parent idx chunks skip of
                       Some p \<Rightarrow> (chunks ! idx)\<lparr>ctx := (ctx (chunks ! idx))
                          \<lparr>parent_symbol_name := Some (symbol_name (ctx (chunks ! p)))\<rparr>\<rparr>
                     | None \<Rightarrow> chunks ! idx);
            count = token_count_or_estimate tc chunk;
            (here, n1) = (if target_tokens cfg < count then split_leaf_chunk gen tc cfg chunk n
                          else ([chunk], n));
            (later, n2) = emit_chunks gen tc cfg chunks skip rest n1
        in (here @ later, n2))"

definition split_oversized_chunks ::
  "(nat \<Rightarrow> chunk_id) \<Rightarrow> (code_chunk \<Rightarrow> nat option) \<Rightarrow> chunk_split_config \<Rightarrow> code_chunk list \<Rightarrow> nat \<Rightarrow>
   code_chunk list \<times> nat" where
  "split_oversized_chunks gen tc cfg chunks n =
     (if chunks = [] then ([], n)
      else emit_chunks gen tc cfg chunks
             (map (skips_container tc cfg chunks) [0..<length chunks]) [0..<length chunks] n)"

subsection \<open>The line split is a partition\<close>

text \<open>Where the parts of a split lie: the place and text of each group of lines.\<close>

fun layout :: "nat \<Rightarrow> string list list \<Rightarrow> (nat \<times> nat \<times> string) list" where
  "layout off [] = []"
| "layout off (g # gs) = (off, off + (length g - 1), join [newline] g) # layout (off + length g) gs"

definition part_shape :: "code_chunk \<Rightarrow> nat \<times> nat \<times> string" where
  "part_shape p = (line_start (ctx p), line_end (ctx p), content p)"

lemma layout_append: "layout off (gs @ hs) = layout off gs @ layout (off + length (concat gs)) hs"
  by (induction gs arbitrary: off) (auto simp: add.assoc)

lemma length_layout [simp]: "length (layout off gs) = length gs"
  by (induction gs arbitrary: off) auto

lemma make_part_chunk_simps [simp]:
  "line_start (ctx (make_part_chunk gen n c a b t bare)) = line_start (ctx c) + a"
  "line_end (ctx (make_part_chunk gen n c a b t bare)) = line_start (ctx c) + (b - 1)"
  "content (make_part_chunk gen n c a b t bare) = t"
  "chunk_id (make_part_chunk gen n c a b t bare) = gen n"
  "file_path (ctx (make_part_chunk gen n c a b t bare)) = file_path (ctx c)"
  by (simp_all add: make_part_chunk_def Let_def)

lemma part_shape_make [simp]:
  "part_shape (make_part_chunk gen n c a b t bare) = (line_start (ctx c) + a, line_start (ctx c) + (b - 1), t)"
  by (simp add: part_shape_def)

lemma split_loop_layout:
  assumes "map part_shape parts = layout (line_start (ctx chunk)) gs"
    and "part_start = length (concat gs)" and "line_idx = part_start + length current"
    and "\<forall>g \<in> set gs. g \<noteq> []" and "ls \<noteq> [] \<or> current \<noteq> []"
  shows "\<exists>gs'. concat gs' = concat gs @ current @ ls \<and> (\<forall>g \<in> set gs'. g \<noteq> []) \<and>
           map part_shape (fst (split_loop gen tc cfg chunk line_idx ls parts part_start current n)) =
             layout (line_start (ctx chunk)) gs'"
  using assms
proof (induction ls arbitrary: parts part_start current line_idx n gs)
  case Nil
  then have ne: "current \<noteq> []" by simp
  have "map part_shape (fst (split_loop gen tc cfg chunk line_idx [] parts part_start current n)) =
      layout (line_start (ctx chunk)) (gs @ [current])"
    using Nil ne by (cases current) (auto simp: layout_append)
  moreover have "concat (gs @ [current]) = concat gs @ current @ []" by simp
  moreover have "\<forall>g \<in> set (gs @ [current]). g \<noteq> []" using Nil ne by auto
  ultimately show ?case by blast
next
  case (Cons line ls)
  let ?bare = "context_in_first_part_only cfg \<and> parts \<noteq> []"
  let ?cand = "make_part_chunk gen n chunk part_start (line_idx + 1) (join [newline] (current @ [line])) ?bare"
  show ?case
  proof (cases "current \<noteq> [] \<and> target_tokens cfg < token_count_or_estimate tc ?cand")
    case True
    let ?part = "make_part_chunk gen (n + 1) chunk part_start line_idx (join [newline] current) ?bare"
    have "part_shape ?part = (line_start (ctx chunk) + part_start,
        line_start (ctx chunk) + part_start + (length current - 1), join [newline] current)"
      using True Cons.prems(3) by (cases current) auto
    then have lay: "map part_shape (parts @ [?part]) = layout (line_start (ctx chunk)) (gs @ [current])"
      using Cons.prems(1,2) by (simp add: layout_append)
    have "\<exists>gs'. concat gs' = concat (gs @ [current]) @ [line] @ ls \<and> (\<forall>g \<in> set gs'. g \<noteq> []) \<and>
        map part_shape (fst (split_loop gen tc cfg chunk (line_idx + 1) ls (parts @ [?part]) line_idx [line] (n + 2))) =
          layout (line_start (ctx chunk)) gs'"
      by (rule Cons.IH[OF lay]) (use Cons.prems True in auto)
    then show ?thesis using True by (simp add: Let_def)
  next
    case False
    have "\<exists>gs'. concat gs' = concat gs @ (current @ [line]) @ ls \<and> (\<forall>g \<in> set gs'. g \<noteq> []) \<and>
        map part_shape (fst (split_loop gen tc cfg chunk (line_idx + 1) ls parts part_start (current @ [line]) (n + 1))) =
          layout (line_start (ctx chunk)) gs'"
      by (rule Cons.IH[OF Cons.prems(1,2)]) (use Cons.prems in auto)
    then show ?thesis using False by (auto simp: Let_def)
  qed
qed

subsection \<open>The parts respect the budget\<close>

text \<open>A counter that looks at the text only, as every counter of the code does.\<close>

definition id_blind :: "(code_chunk \<Rightarrow> nat option) \<Rightarrow> bool" where
  "id_blind tc \<longleftrightarrow> (\<forall>c i. tc (c\<lparr>chunk_id := i\<rparr>) = tc c)"

definition part_fits :: "(code_chunk \<Rightarrow> nat option) \<Rightarrow> chunk_split_config \<Rightarrow> code_chunk \<Rightarrow> bool" where
  "part_fits tc cfg p \<longleftrightarrow>
     token_count_or_estimate tc p \<le> target_tokens cfg \<or> line_start (ctx p) = line_end (ctx p)"

lemma format_id_blind [simp]: "format_for_embedding (c\<lparr>chunk_id := i\<rparr>) = format_for_embedding c"
  by (simp add: format_for_embedding_def embedding_parts_def)

lemma tokens_id_blind:
  assumes "id_blind tc"
  shows "token_count_or_estimate tc (c\<lparr>chunk_id := i\<rparr>) = token_count_or_estimate tc c"
  using assms by (simp add: token_count_or_estimate_def id_blind_def split: option.split)

lemma tokens_part_id:
  assumes "id_blind tc"
  shows "token_count_or_estimate tc (make_part_chunk gen n c a b t bare) =
         token_count_or_estimate tc (make_part_chunk gen m c a b t bare)"
proof -
  have "make_part_chunk gen n c a b t bare = (make_part_chunk gen m c a b t bare)\<lparr>chunk_id := gen n\<rparr>"
    by (simp add: make_part_chunk_def Let_def)
  then show ?thesis by (simp only: tokens_id_blind[OF assms])
qed

lemma split_loop_fits:
  assumes "id_blind tc" and "\<forall>p \<in> set parts. part_fits tc cfg p"
    and "line_idx = part_start + length current"
    and "2 \<le> length current \<Longrightarrow>
      token_count_or_estimate tc (make_part_chunk gen n chunk part_start line_idx (join [newline] current)
        (context_in_first_part_only cfg \<and> parts \<noteq> [])) \<le> target_tokens cfg"
  shows "\<forall>p \<in> set (fst (split_loop gen tc cfg chunk line_idx ls parts part_start current n)).
           part_fits tc cfg p"
  using assms
proof (induction ls arbitrary: parts part_start current line_idx n)
  case Nil
  have "part_fits tc cfg (make_part_chunk gen n chunk part_start line_idx (join [newline] current)
      (context_in_first_part_only cfg \<and> parts \<noteq> []))" if "current \<noteq> []"
    using Nil.prems that by (cases "2 \<le> length current") (auto simp: part_fits_def not_le less_2_cases_iff)
  then show ?case using Nil.prems by auto
next
  case (Cons line ls)
  let ?bare = "context_in_first_part_only cfg \<and> parts \<noteq> []"
  let ?cand = "make_part_chunk gen n chunk part_start (line_idx + 1) (join [newline] (current @ [line])) ?bare"
  show ?case
  proof (cases "current \<noteq> [] \<and> target_tokens cfg < token_count_or_estimate tc ?cand")
    case True
    let ?part = "make_part_chunk gen (n + 1) chunk part_start line_idx (join [newline] current) ?bare"
    have "part_fits tc cfg ?part"
      using True Cons.prems(3,4) tokens_part_id[OF assms(1), of gen "n + 1" chunk part_start line_idx _ ?bare n]
      by (cases "2 \<le> length current") (auto simp: part_fits_def not_le less_2_cases_iff)
    then have "\<forall>p \<in> set (parts @ [?part]). part_fits tc cfg p" using Cons.prems(2) by auto
    then have "\<forall>p \<in> set (fst (split_loop gen tc cfg chunk (line_idx + 1) ls (parts @ [?part]) line_idx [line] (n + 2))).
        part_fits tc cfg p"
      by (rule Cons.IH[OF assms(1)]) simp_all
    then show ?thesis using True by (simp add: Let_def)
  next
    case False
    have "\<forall>p \<in> set (fst (split_loop gen tc cfg chunk (line_idx + 1) ls parts part_start (current @ [line]) (n + 1))).
        part_fits tc cfg p"
    proof (rule Cons.IH[OF assms(1) Cons.prems(2)])
      assume "2 \<le> length (current @ [line])"
      then show "token_count_or_estimate tc (make_part_chunk gen (n + 1) chunk part_start (line_idx + 1)
          (join [newline] (current @ [line])) ?bare) \<le> target_tokens cfg"
        using False tokens_part_id[OF assms(1), of gen "n + 1" chunk part_start "line_idx + 1" _ ?bare n]
        by (cases current) auto
    qed (use Cons.prems(3) in simp)
    then show ?thesis using False by (auto simp: Let_def)
  qed
qed

lemma split_loop_ids:
  "\<exists>ks. map chunk_id (fst (split_loop gen tc cfg chunk i ls parts s cur n)) = map chunk_id parts @ map gen ks \<and>
        sorted_wrt (<) ks \<and> (\<forall>k \<in> set ks. n \<le> k \<and> k < snd (split_loop gen tc cfg chunk i ls parts s cur n)) \<and>
        n \<le> snd (split_loop gen tc cfg chunk i ls parts s cur n)"
proof (induction ls arbitrary: i parts s cur n)
  case Nil
  show ?case by (auto intro: exI[of _ "[n]"])
next
  case (Cons line ls)
  let ?bare = "context_in_first_part_only cfg \<and> parts \<noteq> []"
  let ?cand = "make_part_chunk gen n chunk s (i + 1) (join [newline] (cur @ [line])) ?bare"
  show ?case
  proof (cases "cur \<noteq> [] \<and> target_tokens cfg < token_count_or_estimate tc ?cand")
    case True
    let ?part = "make_part_chunk gen (n + 1) chunk s i (join [newline] cur) ?bare"
    from Cons.IH[of "i + 1" "parts @ [?part]" i "[line]" "n + 2"] obtain ks where
      "map chunk_id (fst (split_loop gen tc cfg chunk (i + 1) ls (parts @ [?part]) i [line] (n + 2))) =
         map chunk_id (parts @ [?part]) @ map gen ks" "sorted_wrt (<) ks"
      "\<forall>k \<in> set ks. n + 2 \<le> k \<and> k < snd (split_loop gen tc cfg chunk (i + 1) ls (parts @ [?part]) i [line] (n + 2))"
      "n + 2 \<le> snd (split_loop gen tc cfg chunk (i + 1) ls (parts @ [?part]) i [line] (n + 2))"
      by blast
    then show ?thesis using True by (intro exI[of _ "(n + 1) # ks"]) (auto simp: Let_def)
  next
    case False
    from Cons.IH[of "i + 1" parts s "cur @ [line]" "n + 1"] obtain ks where
      "map chunk_id (fst (split_loop gen tc cfg chunk (i + 1) ls parts s (cur @ [line]) (n + 1))) =
         map chunk_id parts @ map gen ks" "sorted_wrt (<) ks"
      "\<forall>k \<in> set ks. n + 1 \<le> k \<and> k < snd (split_loop gen tc cfg chunk (i + 1) ls parts s (cur @ [line]) (n + 1))"
      "n + 1 \<le> snd (split_loop gen tc cfg chunk (i + 1) ls parts s (cur @ [line]) (n + 1))"
      by blast
    then show ?thesis using False by (intro exI[of _ ks]) (auto simp: Let_def)
  qed
qed

lemma number_parts_shape [simp]: "map part_shape (number_parts parts) = map part_shape parts"
  by (rule nth_equalityI) (simp_all add: number_parts_def part_shape_def)

lemma number_parts_simps [simp]:
  "length (number_parts parts) = length parts"
  "map chunk_id (number_parts parts) = map chunk_id parts"
  by (simp add: number_parts_def) (rule nth_equalityI; simp add: number_parts_def)

lemma number_parts_nth:
  "i < length parts \<Longrightarrow> number_parts parts ! i =
     (parts ! i)\<lparr>ctx := (ctx (parts ! i))\<lparr>split_part := Some (i + 1), split_total := Some (length parts)\<rparr>\<rparr>"
  by (simp add: number_parts_def)

lemma split_leaf_chunk_cases:
  obtains "fst (split_leaf_chunk gen tc cfg chunk n) = [chunk]"
  | parts where "fst (split_leaf_chunk gen tc cfg chunk n) = number_parts parts" and "1 < length parts"
      and "parts = fst (split_loop gen tc cfg chunk 0 (str_lines (content chunk)) [] 0 [] n)"
      and "str_lines (content chunk) \<noteq> []"
proof (cases "length (str_lines (content chunk)) \<le> 1")
  case True
  then show ?thesis using that(1) by (simp add: split_leaf_chunk_def)
next
  case False
  obtain parts n' where p: "split_loop gen tc cfg chunk 0 (str_lines (content chunk)) [] 0 [] n = (parts, n')"
    by force
  have ne: "str_lines (content chunk) \<noteq> []" using False by auto
  show ?thesis
  proof (cases "length parts \<le> 1")
    case True
    then show ?thesis using that(1) False p by (simp add: split_leaf_chunk_def)
  next
    case F: False
    then have eq: "fst (split_leaf_chunk gen tc cfg chunk n) = number_parts parts"
      using False p by (simp add: split_leaf_chunk_def)
    have fst_p: "parts = fst (split_loop gen tc cfg chunk 0 (str_lines (content chunk)) [] 0 [] n)"
      unfolding p by simp
    show ?thesis by (rule that(2)[OF eq _ fst_p ne]) (use F in simp)
  qed
qed

subsection \<open>Elision of containers\<close>

definition line_span :: "code_chunk \<Rightarrow> int" where
  "line_span c = int (line_end (ctx c)) - int (line_start (ctx c))"

lemma strictly_contains_span: "strictly_contains p c \<Longrightarrow> line_span c < line_span p"
  by (auto simp: strictly_contains_def line_span_def Let_def)

lemma strictly_contains_trans: "strictly_contains a b \<Longrightarrow> strictly_contains b c \<Longrightarrow> strictly_contains a c"
  by (auto simp: strictly_contains_def Let_def)

text \<open>In a set of positions closed under containment, a chunk with the fewest lines is not elided.\<close>

lemma closed_set_not_skipped:
  assumes "I \<subseteq> {..<length chunks}" and "I \<noteq> {}"
    and closed: "\<And>i j. i \<in> I \<Longrightarrow> j < length chunks \<Longrightarrow> strictly_contains (chunks ! i) (chunks ! j) \<Longrightarrow> j \<in> I"
  shows "\<exists>i \<in> I. \<not> skips_container tc cfg chunks i"
proof -
  let ?spans = "(\<lambda>j. line_span (chunks ! j)) ` I"
  have "finite I" using assms(1) finite_subset by blast
  then have fin: "finite ?spans" by simp
  have "Min ?spans \<in> ?spans" using fin assms(2) by (intro Min_in) auto
  then obtain i where i: "i \<in> I" "line_span (chunks ! i) = Min ?spans" by force
  have least: "line_span (chunks ! i) \<le> line_span (chunks ! j)" if "j \<in> I" for j
    unfolding i(2) using fin that by (intro Min_le) auto
  have "\<not> skips_container tc cfg chunks i"
  proof
    assume "skips_container tc cfg chunks i"
    then obtain j where "j < length chunks" "strictly_contains (chunks ! i) (chunks ! j)"
      unfolding skips_container_def Let_def by blast
    with closed[OF i(1) this] least[of j] strictly_contains_span[of "chunks ! i" "chunks ! j"]
    show False by simp
  qed
  with i(1) show ?thesis by blast
qed

lemma some_chunk_not_skipped:
  assumes "chunks \<noteq> []"
  shows "\<exists>i < length chunks. \<not> skips_container tc cfg chunks i"
  using closed_set_not_skipped[of "{..<length chunks}" chunks tc cfg] assms by auto

lemma split_leaf_chunk_ne [simp]: "fst (split_leaf_chunk gen tc cfg chunk n) \<noteq> []"
proof (cases rule: split_leaf_chunk_cases[of gen tc cfg chunk n])
  case (2 parts)
  then have "length (fst (split_leaf_chunk gen tc cfg chunk n)) = length parts" by (simp only: number_parts_simps)
  with 2(2) show ?thesis by auto
qed simp

lemma emit_chunks_ne:
  "i \<in> set is \<Longrightarrow> \<not> skip ! i \<Longrightarrow> fst (emit_chunks gen tc cfg chunks skip is n) \<noteq> []"
proof (induction "is" arbitrary: n)
  case (Cons j js)
  then show ?case
    by (auto simp: Let_def case_prod_beta split: option.splits)
qed simp

text \<open>Every emitted chunk comes from an input chunk that was not elided.\<close>

lemma make_part_chunk_symbol [simp]:
  "symbol_name (ctx (make_part_chunk gen n c a b t bare)) = symbol_name (ctx c)"
  by (simp add: make_part_chunk_def Let_def)

lemma split_loop_origin:
  "\<forall>p \<in> set parts. file_path (ctx p) = file_path (ctx c) \<and> symbol_name (ctx p) = symbol_name (ctx c) \<Longrightarrow>
   \<forall>p \<in> set (fst (split_loop gen tc cfg c i ls parts s cur n)).
     file_path (ctx p) = file_path (ctx c) \<and> symbol_name (ctx p) = symbol_name (ctx c)"
  by (induction gen tc cfg c i ls parts s cur n rule: split_loop.induct) (auto simp: Let_def)

lemma split_leaf_origin:
  assumes "p \<in> set (fst (split_leaf_chunk gen tc cfg c n))"
  shows "file_path (ctx p) = file_path (ctx c) \<and> symbol_name (ctx p) = symbol_name (ctx c)"
proof (rule split_leaf_chunk_cases[of gen tc cfg c n])
  fix parts
  assume parts: "fst (split_leaf_chunk gen tc cfg c n) = number_parts parts"
    and p: "parts = fst (split_loop gen tc cfg c 0 (str_lines (content c)) [] 0 [] n)"
  have "\<forall>q \<in> set parts. file_path (ctx q) = file_path (ctx c) \<and> symbol_name (ctx q) = symbol_name (ctx c)"
    unfolding p by (rule split_loop_origin) simp
  then show ?thesis using assms parts
    by (auto simp: number_parts_def dest!: set_zip_rightD)
qed (use assms in auto)

lemma emit_chunks_origin:
  assumes "p \<in> set (fst (emit_chunks gen tc cfg chunks skip is n))"
  shows "\<exists>i \<in> set is. \<not> skip ! i \<and> file_path (ctx p) = file_path (ctx (chunks ! i)) \<and>
           symbol_name (ctx p) = symbol_name (ctx (chunks ! i))"
  using assms
proof (induction "is" arbitrary: n)
  case (Cons j js)
  then show ?case
    by (fastforce simp: Let_def case_prod_beta split: if_splits option.splits dest: split_leaf_origin)
qed simp

lemma split_oversized_paths:
  assumes "p \<in> set (fst (split_oversized_chunks gen tc cfg chunks n))"
  shows "\<exists>c \<in> set chunks. file_path (ctx p) = file_path (ctx c)"
proof (cases "chunks = []")
  case False
  then show ?thesis using assms emit_chunks_origin[of p gen tc cfg chunks _ "[0..<length chunks]" n]
    by (fastforce simp: split_oversized_chunks_def)
qed (use assms in \<open>simp add: split_oversized_chunks_def\<close>)

lemma chunk_symbols_paths:
  "chunk_symbols gen n p source pr smbs = Some (chunks, n') \<Longrightarrow> c \<in> set chunks \<Longrightarrow> file_path (ctx c) = p"
  by (induction gen n p source pr smbs arbitrary: chunks n' rule: chunk_symbols.induct)
     (auto simp: symbol_context_def split: option.splits)

subsection \<open>What the split promises\<close>

text \<open>A part as it was measured, before \<open>split_leaf_chunk\<close> numbered it.\<close>

definition unnumbered :: "code_chunk \<Rightarrow> code_chunk \<Rightarrow> code_chunk" where
  "unnumbered chunk p = p\<lparr>ctx := (ctx p)\<lparr>split_part := split_part (ctx chunk),
                                           split_total := split_total (ctx chunk)\<rparr>\<rparr>"

lemma make_part_unnumbered [simp]:
  "split_part (ctx (make_part_chunk gen n c a b t bare)) = split_part (ctx c)"
  "split_total (ctx (make_part_chunk gen n c a b t bare)) = split_total (ctx c)"
  by (simp_all add: make_part_chunk_def Let_def)

lemma split_loop_unnumbered:
  "\<forall>p \<in> set parts. unnumbered c p = p \<Longrightarrow>
   \<forall>p \<in> set (fst (split_loop gen tc cfg c i ls parts s cur n)). unnumbered c p = p"
  by (induction gen tc cfg c i ls parts s cur n rule: split_loop.induct)
     (auto simp: Let_def unnumbered_def)

lemma unnumbered_number_parts:
  assumes "\<forall>p \<in> set parts. unnumbered c p = p"
  shows "map (unnumbered c) (number_parts parts) = parts"
proof (rule nth_equalityI)
  fix i assume "i < length (map (unnumbered c) (number_parts parts))"
  then have i: "i < length parts" by simp
  then have "unnumbered c (number_parts parts ! i) = unnumbered c (parts ! i)"
    by (simp add: number_parts_nth unnumbered_def)
  then show "map (unnumbered c) (number_parts parts) ! i = parts ! i" using assms i by simp
qed simp

text \<open>C22: A leaf chunk that is split is partitioned by lines: the lines of its parts, in order, are
  the lines of the chunk; no part is empty; each part starts on the line after the previous one ends
  and its recorded line range has as many lines as its text; and the parts are numbered
  \<open>1 .. total\<close>.\<close>

theorem split_leaf_chunk_tiles:
  assumes "fst (split_leaf_chunk gen tc cfg chunk n) = ps" and "ps \<noteq> [chunk]"
  shows "(\<exists>gs. concat gs = str_lines (content chunk) \<and> (\<forall>g \<in> set gs. g \<noteq> []) \<and>
            map part_shape ps = layout (line_start (ctx chunk)) gs) \<and> 1 < length ps \<and>
         (\<forall>i < length ps. split_part (ctx (ps ! i)) = Some (i + 1) \<and>
                          split_total (ctx (ps ! i)) = Some (length ps))"
proof (cases rule: split_leaf_chunk_cases[of gen tc cfg chunk n])
  case (2 parts)
  have "\<exists>gs. concat gs = concat [] @ [] @ str_lines (content chunk) \<and> (\<forall>g \<in> set gs. g \<noteq> []) \<and>
      map part_shape (fst (split_loop gen tc cfg chunk 0 (str_lines (content chunk)) [] 0 [] n)) =
        layout (line_start (ctx chunk)) gs"
    by (rule split_loop_layout) (use 2(4) in auto)
  with 2 assms(1) show ?thesis by (auto simp: number_parts_nth)
qed (use assms in simp)

text \<open>Every part of a split fits the token target, measured as the code measures it (before the
  part-number line is added), unless the part is a single line. The hypothesis on the counter is that
  it reads the text of a chunk and not its random id.\<close>

theorem split_leaf_chunk_fits:
  assumes "id_blind tc" and "fst (split_leaf_chunk gen tc cfg chunk n) = ps" and "ps \<noteq> [chunk]"
  shows "\<forall>p \<in> set ps. part_fits tc cfg (unnumbered chunk p)"
proof (cases rule: split_leaf_chunk_cases[of gen tc cfg chunk n])
  case (2 parts)
  have un: "\<forall>p \<in> set parts. unnumbered chunk p = p" unfolding 2(3) by (rule split_loop_unnumbered) simp
  have "\<forall>p \<in> set parts. part_fits tc cfg p" unfolding 2(3) by (rule split_loop_fits) (use assms(1) in auto)
  moreover have "unnumbered chunk ` set ps = set parts"
    using unnumbered_number_parts[OF un] 2(1) assms(2) by (metis set_map)
  ultimately show ?thesis by blast
qed (use assms in simp)

text \<open>The ids of the parts of a split are fresh: distinct draws from the id supply.\<close>

theorem split_leaf_chunk_fresh_ids:
  assumes "fst (split_leaf_chunk gen tc cfg chunk n) = ps" and "ps \<noteq> [chunk]" and "inj gen"
  shows "distinct (map chunk_id ps) \<and> chunk_id ` set ps \<subseteq> gen ` {n..<snd (split_leaf_chunk gen tc cfg chunk n)}"
proof (cases rule: split_leaf_chunk_cases[of gen tc cfg chunk n])
  case (2 parts)
  let ?r = "split_loop gen tc cfg chunk 0 (str_lines (content chunk)) [] 0 [] n"
  have "1 < length (str_lines (content chunk))"
    using 2(1) assms(1,2) by (auto simp: split_leaf_chunk_def Let_def split: if_splits)
  then have snd_eq: "snd (split_leaf_chunk gen tc cfg chunk n) = snd ?r"
    by (simp add: split_leaf_chunk_def Let_def case_prod_beta)
  obtain ks where ks: "map chunk_id (fst ?r) = map gen ks" "sorted_wrt (<) ks"
      "\<forall>k \<in> set ks. n \<le> k \<and> k < snd ?r"
    using split_loop_ids[of gen tc cfg chunk 0 "str_lines (content chunk)" "[]" 0 "[]" n] by auto
  have ids: "map chunk_id ps = map gen ks" using 2 assms(1) ks(1) by simp
  have "distinct ks" using ks(2) strict_sorted_iff by blast
  then have "distinct (map gen ks)" using assms(3) by (metis distinct_map inj_on_subset subset_UNIV)
  moreover have "chunk_id ` set ps = gen ` set ks" using arg_cong[OF ids, of set] by simp
  ultimately show ?thesis using ids ks(3) snd_eq by fastforce
qed (use assms in simp)

text \<open>Splitting keeps a symbol for every file that had one: a non-empty list of chunks yields a
  non-empty list, and every chunk that comes out belongs to an input chunk that was not elided, and
  keeps its file and symbol.\<close>

theorem split_oversized_chunks_origin:
  assumes "chunks \<noteq> []"
  shows "fst (split_oversized_chunks gen tc cfg chunks n) \<noteq> [] \<and>
         (\<forall>p \<in> set (fst (split_oversized_chunks gen tc cfg chunks n)).
            \<exists>i < length chunks. \<not> skips_container tc cfg chunks i \<and>
              file_path (ctx p) = file_path (ctx (chunks ! i)) \<and>
              symbol_name (ctx p) = symbol_name (ctx (chunks ! i)))"
proof -
  let ?skip = "map (skips_container tc cfg chunks) [0..<length chunks]"
  obtain i where "i < length chunks" "\<not> skips_container tc cfg chunks i"
    using some_chunk_not_skipped[OF assms] by blast
  then have "fst (emit_chunks gen tc cfg chunks ?skip [0..<length chunks] n) \<noteq> []"
    by (intro emit_chunks_ne[of i]) auto
  moreover have "\<exists>i < length chunks. \<not> skips_container tc cfg chunks i \<and>
      file_path (ctx p) = file_path (ctx (chunks ! i)) \<and> symbol_name (ctx p) = symbol_name (ctx (chunks ! i))"
    if "p \<in> set (fst (emit_chunks gen tc cfg chunks ?skip [0..<length chunks] n))" for p
    using emit_chunks_origin[OF that] by auto
  ultimately show ?thesis using assms by (simp add: split_oversized_chunks_def)
qed

text \<open>An elided container loses no file position: inside it lies another chunk of the same file
  that is emitted.\<close>

theorem elided_container_has_emitted_child:
  assumes "idx < length chunks" and "skips_container tc cfg chunks idx"
  shows "\<exists>i < length chunks. \<not> skips_container tc cfg chunks i \<and> strictly_contains (chunks ! idx) (chunks ! i)"
proof -
  let ?I = "{i. i < length chunks \<and> strictly_contains (chunks ! idx) (chunks ! i)}"
  have "?I \<noteq> {}" using assms(2) unfolding skips_container_def Let_def by blast
  then have "\<exists>i \<in> ?I. \<not> skips_container tc cfg chunks i"
    by (intro closed_set_not_skipped) (auto dest: strictly_contains_trans)
  then show ?thesis by blast
qed

subsection \<open>A split at work\<close>

text \<open>A three-line function under a counter of one token per four bytes of its text, with a target
  that two lines exceed.\<close>

definition demo_chunk :: code_chunk where
  "demo_chunk =
     \<lparr>chunk_id = 100, content = ''aaaa'' @ [newline] @ ''bbbb'' @ [newline] @ ''cccc'',
      ctx = \<lparr>file_path = [''a.rs''], module_path = [], symbol_name = ''f'', symbol_kind = ''function'',
             docstring = None, file_imports = [], outgoing_calls = [], parent_symbol_name = None,
             split_part = None, split_total = None, line_start = 10, line_end = 12\<rparr>\<rparr>"

definition demo_counter :: "code_chunk \<Rightarrow> nat option" where
  "demo_counter c = Some (length (content c))"

definition demo_container :: code_chunk where
  "demo_container = demo_chunk\<lparr>chunk_id := 99, ctx := (ctx demo_chunk)\<lparr>symbol_kind := ''impl'', line_start := 9\<rparr>\<rparr>"

lemmas demo_defs = demo_chunk_def demo_counter_def demo_container_def

lemma demo_lines: "str_lines (content demo_chunk) = [''aaaa'', ''bbbb'', ''cccc'']"
  by code_simp

lemma demo_split:
  "map chunk_id (fst (split_leaf_chunk id demo_counter (ChunkSplitConfig_new 9 9) demo_chunk 0)) = [3, 4]"
  by code_simp

lemma demo_split_ne: "fst (split_leaf_chunk id demo_counter (ChunkSplitConfig_new 9 9) demo_chunk 0) \<noteq> [demo_chunk]"
proof
  assume "fst (split_leaf_chunk id demo_counter (ChunkSplitConfig_new 9 9) demo_chunk 0) = [demo_chunk]"
  from arg_cong[OF this, of "map chunk_id"] show False unfolding demo_split by (simp add: demo_chunk_def)
qed

theorem split_leaf_chunk_tiles_witness:
  "\<exists>gs. concat gs = [''aaaa'', ''bbbb'', ''cccc''] \<and>
     map part_shape (fst (split_leaf_chunk id demo_counter (ChunkSplitConfig_new 9 9) demo_chunk 0)) = layout 10 gs"
  using split_leaf_chunk_tiles[OF refl demo_split_ne] demo_lines by (auto simp: demo_chunk_def)

theorem split_leaf_chunk_fits_witness:
  "list_all (\<lambda>p. part_fits demo_counter (ChunkSplitConfig_new 9 9) (unnumbered demo_chunk p))
     (fst (split_leaf_chunk id demo_counter (ChunkSplitConfig_new 9 9) demo_chunk 0))"
  using split_leaf_chunk_fits[OF _ refl demo_split_ne] by (simp add: list_all_iff id_blind_def demo_counter_def)

theorem split_leaf_chunk_fresh_ids_witness:
  "distinct (map chunk_id (fst (split_leaf_chunk id demo_counter (ChunkSplitConfig_new 9 9) demo_chunk 0)))"
  using split_leaf_chunk_fresh_ids[OF refl demo_split_ne] by simp

theorem split_oversized_chunks_origin_witness:
  "fst (split_oversized_chunks id demo_counter (ChunkSplitConfig_new 9 9) [demo_container, demo_chunk] 0) \<noteq> []"
  using split_oversized_chunks_origin[of "[demo_container, demo_chunk]"] by simp

theorem elided_container_has_emitted_child_witness:
  "\<exists>i < 2. \<not> skips_container demo_counter (ChunkSplitConfig_new 9 9) [demo_container, demo_chunk] i"
proof -
  have "skips_container demo_counter (ChunkSplitConfig_new 9 9) [demo_container, demo_chunk] 0" by code_simp
  then show ?thesis
    using elided_container_has_emitted_child[of 0 "[demo_container, demo_chunk]"] by (auto simp: numeral_2_eq_2)
qed

end
