(* ===== verification/Batching.thy ===== *)
theory Batching
  imports Index_Errors Chunking "HOL-Library.Product_Lexorder"
begin

text \<open>
  Embedding generation: how the texts of a run are cut into batches of model input
  (\<open>crates/rmc-engine/src/embeddings/batching.rs\<close>), the gate that keeps non-finite vectors out
  (\<open>embeddings/mod.rs\<close>), and the batcher that embeds the chunks of a file
  (\<open>crates/rmc-indexing/src/indexing/embedding_batcher.rs\<close>).

  The model itself is outside the repository: it is a parameter \<open>raw\<close> whose \<open>k\<close>-th call answers for a
  side and a list of texts. The number of the call is threaded through, since the runtimes answer
  differently to the same texts at different calls; nothing is assumed about \<open>raw\<close> unless a theorem
  says so. Sizes and token counts are natural numbers.
\<close>

subsection \<open>Batch plans\<close>

record batch_plan =
  plan_start :: nat
  plan_end :: nat

text \<open>The loop of \<open>plan_batches\<close>, at position \<open>idx\<close>, and what it returns after the last item.\<close>

fun plan_loop :: "nat \<Rightarrow> nat \<Rightarrow> nat \<Rightarrow> nat list \<Rightarrow> nat \<Rightarrow> nat \<Rightarrow> nat \<Rightarrow> batch_plan list" where
  "plan_loop max_rows budget idx [] start batch_len batch_max =
     (if 0 < batch_len then [\<lparr>plan_start = start, plan_end = idx\<rparr>] else [])"
| "plan_loop max_rows budget idx (len # lens) start batch_len batch_max =
     (let item_tokens = max len 1;
          next_len = batch_len + 1;
          next_max = max batch_max item_tokens;
          exceeds_count = max_rows < next_len;
          exceeds_budget = budget < next_len * next_max
      in if 0 < batch_len \<and> (exceeds_count \<or> exceeds_budget)
         then \<lparr>plan_start = start, plan_end = idx\<rparr> #
              plan_loop max_rows budget (idx + 1) lens idx 1 item_tokens
         else plan_loop max_rows budget (idx + 1) lens start (batch_len + 1) next_max)"

definition plan_batches :: "'a list \<Rightarrow> nat \<Rightarrow> nat \<Rightarrow> ('a \<Rightarrow> nat) \<Rightarrow> batch_plan list" where
  "plan_batches items max_rows budget token_len =
     (if items = [] then []
      else plan_loop (max max_rows 1) (max budget 1) 0 (map token_len items) 0 0 0)"

record fixed_input_shape =
  shape_rows :: nat
  shape_seq_len :: nat

datatype batching_policy = FixedByModel nat | ByBudget nat nat

definition BatchingPolicy_new :: "nat option \<Rightarrow> nat \<Rightarrow> nat \<Rightarrow> batching_policy" where
  "BatchingPolicy_new fixed_rows max_rows budget =
     (case fixed_rows of
        Some rows \<Rightarrow> FixedByModel rows
      | None \<Rightarrow> ByBudget (max max_rows 1) (max budget 1))"

fun rows_per_batch :: "batching_policy \<Rightarrow> nat" where
  "rows_per_batch (FixedByModel rows) = rows"
| "rows_per_batch (ByBudget max_rows budget) = max_rows"

fun sorts_by_length :: "batching_policy \<Rightarrow> bool" where
  "sorts_by_length (FixedByModel rows) = False"
| "sorts_by_length (ByBudget max_rows budget) = True"

text \<open>\<open>(0..len).step_by(rows)\<close> visits the multiples of \<open>rows\<close> below \<open>len\<close>.\<close>

definition plan_fixed_rows :: "nat \<Rightarrow> nat \<Rightarrow> batch_plan list" where
  "plan_fixed_rows len rows =
     (let r = max rows 1 in
      map (\<lambda>k. \<lparr>plan_start = k * r, plan_end = min (k * r + r) len\<rparr>) [0..<(len + r - 1) div r])"

fun policy_plan :: "batching_policy \<Rightarrow> 'a list \<Rightarrow> ('a \<Rightarrow> nat) \<Rightarrow> batch_plan list" where
  "policy_plan (FixedByModel rows) items token_len = plan_fixed_rows (length items) rows"
| "policy_plan (ByBudget max_rows budget) items token_len = plan_batches items max_rows budget token_len"

subsection \<open>Plans tile the input\<close>

text \<open>\<open>tiles a b ps\<close>: the plans are non-empty, adjacent, and cover exactly \<open>[a, b)\<close>.\<close>

fun tiles :: "nat \<Rightarrow> nat \<Rightarrow> batch_plan list \<Rightarrow> bool" where
  "tiles a b [] = (a = b)"
| "tiles a b (p # ps) = (plan_start p = a \<and> a < plan_end p \<and> tiles (plan_end p) b ps)"

definition slice :: "'a list \<Rightarrow> batch_plan \<Rightarrow> 'a list" where
  "slice xs p = take (plan_end p - plan_start p) (drop (plan_start p) xs)"

lemma tiles_le: "tiles a b ps \<Longrightarrow> a \<le> b"
  by (induction ps arbitrary: a) fastforce+

lemma tiles_concat:
  assumes "tiles a b ps" and "b = length xs"
  shows "concat (map (slice xs) ps) = drop a xs"
  using assms
proof (induction ps arbitrary: a)
  case (Cons p ps)
  then have a: "plan_start p = a" "a < plan_end p" and t: "tiles (plan_end p) b ps" by auto
  have "slice xs p @ drop (plan_end p) xs = drop a xs"
    using a by (simp add: slice_def) (metis add_diff_inverse_nat append_take_drop_id drop_drop not_less_iff_gr_or_eq add.commute)
  then show ?case using Cons.IH[OF t Cons.prems(2)] by simp
qed simp

lemma tiles_slice_length: "tiles a b ps \<Longrightarrow> b \<le> length xs \<Longrightarrow> p \<in> set ps \<Longrightarrow> length (slice xs p) = plan_end p - plan_start p"
proof (induction ps arbitrary: a)
  case (Cons q ps)
  then show ?case using tiles_le[of "plan_end q" b ps] by (auto simp: slice_def)
qed simp

definition plan_ok :: "nat \<Rightarrow> nat \<Rightarrow> nat list \<Rightarrow> batch_plan \<Rightarrow> bool" where
  "plan_ok max_rows budget lens p \<longleftrightarrow>
     plan_end p - plan_start p \<le> max_rows \<and>
     (plan_end p - plan_start p = 1 \<or>
      (\<forall>i. plan_start p \<le> i \<and> i < plan_end p \<longrightarrow> (plan_end p - plan_start p) * max (lens ! i) 1 \<le> budget))"

lemma plan_loop_tiles:
  assumes "idx = start + batch_len"
  shows "tiles start (idx + length lens) (plan_loop mr bu idx lens start batch_len bm)"
  using assms
  by (induction mr bu idx lens start batch_len bm rule: plan_loop.induct) (auto simp: Let_def)

lemma plan_ok_closed:
  assumes "idx = start + bl" and "0 < bl" and "bl \<le> mr"
    and "\<And>i. start \<le> i \<Longrightarrow> i < idx \<Longrightarrow> max (xs ! i) 1 \<le> bm"
    and "1 < bl \<Longrightarrow> bl * bm \<le> bu"
  shows "plan_ok mr bu xs \<lparr>plan_start = start, plan_end = idx\<rparr>"
proof -
  have "bl * max (xs ! i) 1 \<le> bu" if "1 < bl" "start \<le> i" "i < idx" for i
    using mult_le_mono2[OF assms(4)[OF that(2,3)], of bl] assms(5)[OF that(1)] by linarith
  moreover have "bl = 1 \<or> 1 < bl" using assms(2) by linarith
  ultimately show ?thesis using assms(1,3) by (auto simp: plan_ok_def)
qed

lemma plan_loop_ok:
  assumes "idx = start + batch_len" and "length pre = idx" and "0 < mr"
    and "batch_len \<le> mr"
    and "\<And>i. start \<le> i \<Longrightarrow> i < idx \<Longrightarrow> max (pre ! i) 1 \<le> bm"
    and "1 < batch_len \<Longrightarrow> batch_len * bm \<le> bu"
  shows "\<forall>p \<in> set (plan_loop mr bu idx lens start batch_len bm). plan_ok mr bu (pre @ lens) p"
  using assms
proof (induction mr bu idx lens start batch_len bm arbitrary: pre rule: plan_loop.induct)
  case (1 mr bu idx start batch_len bm)
  have "plan_ok mr bu pre \<lparr>plan_start = start, plan_end = idx\<rparr>" if "0 < batch_len"
    by (rule plan_ok_closed[OF 1(1) that 1(4,5,6)])
  then show ?case by simp
next
  case (2 mr bu idx len lens start batch_len bm)
  let ?cut = "0 < batch_len \<and> (mr < batch_len + 1 \<or> bu < (batch_len + 1) * max bm (max len 1))"
  have here: "max ((pre @ [len]) ! i) 1 \<le> max bm (max len 1)" if "start \<le> i" "i < idx + 1" for i
    using that 2(4,7) by (cases "i < idx") (auto simp: nth_append intro: max.coboundedI1)
  show ?case
  proof (cases ?cut)
    case True
    have "plan_ok mr bu (pre @ len # lens) \<lparr>plan_start = start, plan_end = idx\<rparr>"
      by (rule plan_ok_closed[OF 2(3)]) (use True 2(4,6,7,8) in \<open>auto simp: nth_append\<close>)
    moreover have "\<forall>p \<in> set (plan_loop mr bu (idx + 1) lens idx 1 (max len 1)).
        plan_ok mr bu ((pre @ [len]) @ lens) p"
      by (rule 2(1)[OF refl refl refl refl refl True]) (use 2(4,5) in \<open>auto simp: nth_append\<close>)
    ultimately show ?thesis using True by (simp add: Let_def)
  next
    case False
    have "\<forall>p \<in> set (plan_loop mr bu (idx + 1) lens start (batch_len + 1) (max bm (max len 1))).
        plan_ok mr bu ((pre @ [len]) @ lens) p"
      by (rule 2(2)[OF refl refl refl refl refl False]) (use False 2(3,4,5,6) here in auto)
    then show ?thesis using False by (auto simp: Let_def)
  qed
qed

lemma plan_fixed_rows_tiles: "tiles 0 len (plan_fixed_rows len rows)"
proof -
  define r where "r = max rows 1"
  have r: "0 < r" by (simp add: r_def)
  have gen: "tiles (min (k * r) len) len
      (map (\<lambda>k. \<lparr>plan_start = k * r, plan_end = min (k * r + r) len\<rparr>) [k..<(len + r - 1) div r])"
    if "k \<le> (len + r - 1) div r" for k
    using that
  proof (induction "(len + r - 1) div r - k" arbitrary: k)
    case 0
    then have "k = (len + r - 1) div r" by simp
    moreover have "len \<le> (len + r - 1) div r * r"
      using r div_mult_mod_eq[of "len + r - 1" r] mod_less_divisor[OF r, of "len + r - 1"] by linarith
    ultimately have "len \<le> k * r" by simp
    with 0 show ?case by simp
  next
    case (Suc d)
    then have lt: "k < (len + r - 1) div r" by simp
    then have "Suc k * r \<le> len + r - 1" using r by (metis Suc_leI div_times_less_eq_dividend less_eq_div_iff_mult_less_eq)
    then have "k * r < len" using r by simp
    moreover have "tiles (min (Suc k * r) len) len
        (map (\<lambda>k. \<lparr>plan_start = k * r, plan_end = min (k * r + r) len\<rparr>) [Suc k..<(len + r - 1) div r])"
      by (rule Suc(1)) (use Suc(2) lt in auto)
    ultimately show ?case using lt r by (simp add: upt_conv_Cons add.commute)
  qed
  from gen[of 0] show ?thesis by (simp add: plan_fixed_rows_def Let_def r_def)
qed

lemma policy_plan_tiles: "tiles 0 (length items) (policy_plan pol items token_len)"
proof (cases pol)
  case (FixedByModel rows)
  then show ?thesis by (simp add: plan_fixed_rows_tiles)
next
  case (ByBudget mr bu)
  then show ?thesis
    using plan_loop_tiles[of 0 0 0 "map token_len items" "max mr 1" "max bu 1" 0]
    by (simp add: plan_batches_def)
qed

subsection \<open>The gate against non-finite vectors\<close>

datatype embed_side = Documents | Queries

datatype embedding_runtime =
    LocalQwen3CandleCuda | LocalFastembedOnnxCpu | LocalFastembedOnnxMigraphx
  | LocalFastembedOnnxDirectml | OpenRouter

type_synonym raw_embedder = "nat \<Rightarrow> embed_side \<Rightarrow> string list \<Rightarrow> (embedding_error, embedding list) result"

record non_finite_hit =
  hit_index :: nat
  hit_component :: nat
  hit_value :: non_finite

definition into_error :: "non_finite_hit \<Rightarrow> nat \<Rightarrow> embedding_error" where
  "into_error h batch_len = NonFiniteEmbedding (hit_index h) batch_len (hit_component h) (hit_value h)"

fun find_component :: "nat \<Rightarrow> embedding \<Rightarrow> (nat \<times> non_finite) option" where
  "find_component c [] = None"
| "find_component c (Finite r # xs) = find_component (c + 1) xs"
| "find_component c (NonFinite v # xs) = Some (c, v)"

fun first_non_finite_from :: "nat \<Rightarrow> embedding list \<Rightarrow> non_finite_hit option" where
  "first_non_finite_from i [] = None"
| "first_non_finite_from i (e # es) =
     (case find_component 0 e of
        Some (c, v) \<Rightarrow> Some \<lparr>hit_index = i, hit_component = c, hit_value = v\<rparr>
      | None \<Rightarrow> first_non_finite_from (i + 1) es)"

definition first_non_finite :: "embedding list \<Rightarrow> non_finite_hit option" where
  "first_non_finite es = first_non_finite_from 0 es"

definition retries_non_finite :: "embedding_runtime \<Rightarrow> bool" where
  "retries_non_finite rt = (rt \<in> {LocalFastembedOnnxMigraphx, LocalFastembedOnnxDirectml})"

text \<open>The one-by-one recomputation; \<open>batch_len\<close> is the length of the batch that was refused.\<close>

fun recompute :: "raw_embedder \<Rightarrow> embed_side \<Rightarrow> nat \<Rightarrow> string list \<Rightarrow> embedding list \<Rightarrow> nat \<Rightarrow>
    (embedding_error, embedding list) result \<times> nat" where
  "recompute raw side batch_len [] recomputed k = (Inr recomputed, k)"
| "recompute raw side batch_len (text # texts) recomputed k =
     (case raw k side [text] of
        Inl e \<Rightarrow> (Inl e, k + 1)
      | Inr one \<Rightarrow>
          (case first_non_finite one of
             Some found \<Rightarrow> (Inl (into_error found batch_len), k + 1)
           | None \<Rightarrow> recompute raw side batch_len texts (recomputed @ one) (k + 1)))"

definition guard_finite :: "raw_embedder \<Rightarrow> embedding_runtime \<Rightarrow> embed_side \<Rightarrow> string list \<Rightarrow>
    embedding list \<Rightarrow> nat \<Rightarrow> (embedding_error, embedding list) result \<times> nat" where
  "guard_finite raw rt side texts es k =
     (case first_non_finite es of
        None \<Rightarrow> (Inr es, k)
      | Some found \<Rightarrow>
          if \<not> retries_non_finite rt then (Inl (into_error found (length es)), k)
          else recompute raw side (length es) texts [] k)"

definition embed_side_texts :: "raw_embedder \<Rightarrow> embedding_runtime \<Rightarrow> embed_side \<Rightarrow> nat \<Rightarrow> string list \<Rightarrow>
    (embedding_error, embedding list) result \<times> nat" where
  "embed_side_texts raw rt side k texts =
     (case raw k side texts of
        Inl e \<Rightarrow> (Inl e, k + 1)
      | Inr es \<Rightarrow> guard_finite raw rt side texts es (k + 1))"

definition embed_documents :: "raw_embedder \<Rightarrow> embedding_runtime \<Rightarrow> nat \<Rightarrow> string list \<Rightarrow>
    (embedding_error, embedding list) result \<times> nat" where
  "embed_documents raw rt k texts = embed_side_texts raw rt Documents k texts"

definition embed_queries :: "raw_embedder \<Rightarrow> embedding_runtime \<Rightarrow> nat \<Rightarrow> string list \<Rightarrow>
    (embedding_error, embedding list) result \<times> nat" where
  "embed_queries raw rt k texts = embed_side_texts raw rt Queries k texts"

definition all_finite :: "embedding \<Rightarrow> bool" where
  "all_finite e = list_all (\<lambda>x. case x of Finite _ \<Rightarrow> True | NonFinite _ \<Rightarrow> False) e"

lemma find_component_None: "find_component c e = None \<longleftrightarrow> all_finite e"
  by (induction c e rule: find_component.induct) (auto simp: all_finite_def)

lemma first_non_finite_None: "first_non_finite es = None \<longleftrightarrow> (\<forall>e \<in> set es. all_finite e)"
proof -
  have "first_non_finite_from i es = None \<longleftrightarrow> (\<forall>e \<in> set es. all_finite e)" for i
    by (induction es arbitrary: i) (auto simp: find_component_None[of 0, symmetric] split: option.split)
  then show ?thesis by (simp add: first_non_finite_def)
qed

lemma recompute_finite:
  "recompute raw side n texts acc k = (Inr es, k') \<Longrightarrow> \<forall>e \<in> set acc. all_finite e \<Longrightarrow>
   \<forall>e \<in> set es. all_finite e"
proof (induction texts arbitrary: acc k)
  case (Cons t ts)
  from Cons.prems(1) obtain one where "\<forall>e \<in> set one. all_finite e" "recompute raw side n ts (acc @ one) (k + 1) = (Inr es, k')"
    by (auto simp: first_non_finite_None split: sum.splits option.splits)
  with Cons.prems(2) show ?case by (intro Cons.IH[of "acc @ one" "k + 1"]) auto
qed simp

lemma embed_side_texts_cases:
  assumes "embed_side_texts raw rt side k texts = (Inr es, k')"
  obtains "raw k side texts = Inr es" and "first_non_finite es = None"
  | n where "recompute raw side n texts [] (k + 1) = (Inr es, k')"
  using assms by (auto simp: embed_side_texts_def guard_finite_def split: sum.splits option.splits if_splits)

lemma embed_side_texts_finite:
  assumes "embed_side_texts raw rt side k texts = (Inr es, k')" and "e \<in> set es"
  shows "all_finite e"
proof (cases rule: embed_side_texts_cases[OF assms(1)])
  case 1
  then show ?thesis using assms(2) by (simp add: first_non_finite_None)
next
  case (2 n)
  then show ?thesis using recompute_finite[OF 2] assms(2) by simp
qed

subsection \<open>The batcher\<close>

record embedding_text_len =
  raw_tokens :: nat
  capped_tokens :: nat

type_synonym ordered_text = "nat \<times> string \<times> embedding_text_len option"

record embedding_batcher =
  batcher_runtime :: embedding_runtime
  batching_policy :: batching_policy
  fixed_shape :: "fixed_input_shape option"
  token_counter :: "(string list \<Rightarrow> embedding_text_len list option) option"
    \<comment> \<open>a counter that fails on a batch answers \<open>None\<close>\<close>

definition EmbeddingBatcher_new :: "embedding_runtime \<Rightarrow> fixed_input_shape option \<Rightarrow>
    (string list \<Rightarrow> embedding_text_len list option) option \<Rightarrow> nat \<Rightarrow> nat \<Rightarrow> embedding_batcher" where
  "EmbeddingBatcher_new rt shape counter gpu_batch_size max_tokens =
     (let rows = (if gpu_batch_size = 0 then 1 else gpu_batch_size);
          budget = (if max_tokens = 0 then 1 else max_tokens)
      in \<lparr>batcher_runtime = rt,
          batching_policy = BatchingPolicy_new (map_option shape_rows shape) rows budget,
          fixed_shape = shape, token_counter = counter\<rparr>)"

definition count_token_lengths :: "embedding_batcher \<Rightarrow> string list \<Rightarrow> embedding_text_len list option" where
  "count_token_lengths b texts =
     (case token_counter b of None \<Rightarrow> None | Some counter \<Rightarrow> counter texts)"

definition item_len :: "ordered_text \<Rightarrow> nat" where
  "item_len x = (case x of (_, text, tok) \<Rightarrow>
     (case tok of Some l \<Rightarrow> capped_tokens l | None \<Rightarrow> length text))"

definition sort_embedding_inputs :: "ordered_text list \<Rightarrow> ordered_text list" where
  "sort_embedding_inputs xs = sort_key (\<lambda>x. (item_len x, fst x)) xs"

definition plan_embedding_batches :: "ordered_text list \<Rightarrow> batching_policy \<Rightarrow> batch_plan list" where
  "plan_embedding_batches xs pol = policy_plan pol xs item_len"

definition calculate_safe_batch_size :: "nat \<Rightarrow> nat \<Rightarrow> nat" where
  "calculate_safe_batch_size available_bytes num_cpus =
     (let available_mb = available_bytes div 1000000;
          safe_concurrent = max (available_mb div 15) 1
      in min (min safe_concurrent num_cpus) 100)"

record token_length_summary =
  raw_tokens_total :: nat
  capped_tokens_total :: nat
  padded_tokens_total :: nat
  min_tokens :: nat
  max_tokens :: nat

definition usize_max :: nat where
  "usize_max = 2 ^ 64 - 1"

fun sum_lengths :: "embedding_text_len list \<Rightarrow> token_length_summary \<Rightarrow> token_length_summary" where
  "sum_lengths [] s = s"
| "sum_lengths (l # ls) s =
     sum_lengths ls (s\<lparr>raw_tokens_total := raw_tokens_total s + raw_tokens l,
                      capped_tokens_total := capped_tokens_total s + capped_tokens l,
                      min_tokens := min (min_tokens s) (capped_tokens l),
                      max_tokens := max (max_tokens s) (capped_tokens l)\<rparr>)"

definition empty_summary :: token_length_summary where
  "empty_summary = \<lparr>raw_tokens_total = 0, capped_tokens_total = 0, padded_tokens_total = 0,
                    min_tokens = 0, max_tokens = 0\<rparr>"

definition batch_cost :: "fixed_input_shape option \<Rightarrow> ordered_text list \<Rightarrow> nat" where
  "batch_cost shape batch =
     (case shape of
        Some sh \<Rightarrow> shape_rows sh * shape_seq_len sh
      | None \<Rightarrow> fold max (map capped_tokens (List.map_filter (\<lambda>(_, _, l). l) batch)) 0 * length batch)"

definition summarize_token_lengths ::
  "ordered_text list \<Rightarrow> batch_plan list \<Rightarrow> fixed_input_shape option \<Rightarrow> token_length_summary option" where
  "summarize_token_lengths xs plans shape =
     (if xs = [] then Some empty_summary
      else case those (map (\<lambda>(_, _, l). l) xs) of
             None \<Rightarrow> None
           | Some lens \<Rightarrow>
               Some ((sum_lengths lens (empty_summary\<lparr>min_tokens := usize_max\<rparr>))
                 \<lparr>padded_tokens_total := sum_list (map (\<lambda>p. batch_cost shape (slice xs p)) plans)\<rparr>))"

definition summarize_unsorted_token_lengths :: "embedding_text_len list option \<Rightarrow> token_length_summary option" where
  "summarize_unsorted_token_lengths lens =
     (case lens of
        None \<Rightarrow> None
      | Some ls \<Rightarrow>
          if ls = [] then Some empty_summary
          else let s = sum_lengths ls (empty_summary\<lparr>min_tokens := usize_max\<rparr>)
               in Some (s\<lparr>padded_tokens_total := capped_tokens_total s\<rparr>))"

text \<open>\<open>lengths[idx]\<close> panics (\<open>None\<close>) if the counter answered with too few lengths.\<close>

definition ordered_texts :: "string list \<Rightarrow> embedding_text_len list option \<Rightarrow> ordered_text list option" where
  "ordered_texts texts lens =
     (case lens of
        None \<Rightarrow> Some (map (\<lambda>i. (i, texts ! i, None)) [0..<length texts])
      | Some ls \<Rightarrow>
          if length ls < length texts then None
          else Some (map (\<lambda>i. (i, texts ! i, Some (ls ! i))) [0..<length texts]))"

fun place :: "ordered_text list \<Rightarrow> embedding list \<Rightarrow> embedding option list \<Rightarrow> embedding option list" where
  "place ((i, t, l) # xs) (e # es) acc = place xs es (acc[i := Some e])"
| "place _ _ acc = acc"

fun embed_batches :: "(nat \<Rightarrow> string list \<Rightarrow> (embedding_error, embedding list) result \<times> nat) \<Rightarrow>
    ordered_text list \<Rightarrow> batch_plan list \<Rightarrow> embedding option list \<Rightarrow> nat \<Rightarrow>
    (indexing_error, embedding option list) result \<times> nat" where
  "embed_batches emb xs [] acc k = (Inr acc, k)"
| "embed_batches emb xs (p # ps) acc k =
     (case emb k (map (\<lambda>(_, text, _). text) (slice xs p)) of
        (Inl e, k') \<Rightarrow> (Inl (Embedding e), k')
      | (Inr es, k') \<Rightarrow> embed_batches emb xs ps (place (slice xs p) es acc) k')"

definition generate_openrouter_embeddings ::
  "(nat \<Rightarrow> string list \<Rightarrow> (embedding_error, embedding list) result \<times> nat) \<Rightarrow> string list \<Rightarrow> nat \<Rightarrow>
   (indexing_error, embedding list) result \<times> nat" where
  "generate_openrouter_embeddings emb texts k =
     (case emb k texts of
        (Inl e, k') \<Rightarrow> (Inl (Embedding e), k')
      | (Inr es, k') \<Rightarrow>
          if length es \<noteq> length texts
          then (Inl (Parser (''OpenRouter returned '' @ nat_str (length es) @ '' embeddings for '' @
                             nat_str (length texts) @ '' chunks'')), k')
          else (Inr es, k'))"

definition generate_embeddings_batched ::
  "embedding_batcher \<Rightarrow> (nat \<Rightarrow> string list \<Rightarrow> (embedding_error, embedding list) result \<times> nat) \<Rightarrow>
   code_chunk list \<Rightarrow> nat \<Rightarrow> ((indexing_error, embedding list) result \<times> nat) option" where
  "generate_embeddings_batched b emb chunks k =
     (let texts = map format_for_embedding chunks;
          lens = count_token_lengths b texts
      in if batcher_runtime b = OpenRouter then Some (generate_openrouter_embeddings emb texts k)
         else
           case ordered_texts texts lens of
             None \<Rightarrow> None
           | Some xs0 \<Rightarrow>
               let xs = (if sorts_by_length (batching_policy b) then sort_embedding_inputs xs0 else xs0) in
               Some (case embed_batches emb xs (plan_embedding_batches xs (batching_policy b))
                            (replicate (length xs) None) k of
                       (Inl e, k') \<Rightarrow> (Inl e, k')
                     | (Inr all, k') \<Rightarrow>
                         (case those all of
                            None \<Rightarrow> (Inl (Parser ''Embedding result ordering failed''), k')
                          | Some es \<Rightarrow> (Inr es, k'))))"

subsection \<open>What every embedder gives the batcher\<close>

lemma ordered_texts_entries:
  assumes "ordered_texts texts lens = Some xs0"
  shows "\<forall>(i, t, l) \<in> set xs0. i < length texts \<and> t = texts ! i" and "length xs0 = length texts"
  using assms by (auto simp: ordered_texts_def split: option.splits if_splits)

lemma those_Some_conv: "those all = Some es \<longleftrightarrow> all = map Some es"
  by (induction all arbitrary: es) (auto split: option.splits)

lemma ordered_texts_indices: "ordered_texts texts lens = Some xs0 \<Longrightarrow> fst ` set xs0 = {..<length texts}"
  by (force simp: ordered_texts_def split: option.splits if_splits)

lemma those_None_conv: "those all = None \<longleftrightarrow> None \<in> set all"
  by (induction all) (auto split: option.splits)

lemma place_fills:
  assumes "length xs = length es" and "\<forall>(i, t, l) \<in> set xs. i < length acc"
    and "\<forall>i \<in> filled. i < length acc \<and> acc ! i \<noteq> None"
  shows "length (place xs es acc) = length acc \<and>
         (\<forall>i \<in> filled \<union> fst ` set xs. i < length acc \<and> place xs es acc ! i \<noteq> None)"
  using assms
proof (induction xs es acc arbitrary: filled rule: place.induct)
  case (1 i t l xs e es acc)
  have "\<forall>j \<in> insert i filled. j < length (acc[i := Some e]) \<and> acc[i := Some e] ! j \<noteq> None"
    using 1(3,4) by (auto simp: nth_list_update)
  from 1(1)[OF _ _ this] 1(2,3) show ?case by auto
qed simp_all

text \<open>An embedder whose answers satisfy \<open>P\<close> position by position, however many it gives.\<close>

locale positional_embedder =
  fixes emb :: "nat \<Rightarrow> string list \<Rightarrow> (embedding_error, embedding list) result \<times> nat"
    and P :: "string \<Rightarrow> embedding \<Rightarrow> bool"
  assumes positional: "emb k texts = (Inr es, k') \<Longrightarrow> i < length texts \<Longrightarrow> i < length es \<Longrightarrow> P (texts ! i) (es ! i)"
begin

text \<open>The slots filled so far hold vectors of their texts.\<close>

definition slots_ok :: "string list \<Rightarrow> embedding option list \<Rightarrow> bool" where
  "slots_ok texts acc \<longleftrightarrow> length acc = length texts \<and>
     (\<forall>i < length texts. \<forall>e. acc ! i = Some e \<longrightarrow> P (texts ! i) e)"

lemma slots_ok_place:
  assumes "slots_ok texts acc" and "\<forall>(i, t, l) \<in> set xs. i < length texts \<and> t = texts ! i"
    and "\<forall>j < length xs. j < length es \<longrightarrow> P (fst (snd (xs ! j))) (es ! j)"
  shows "slots_ok texts (place xs es acc)"
  using assms
proof (induction xs es acc rule: place.induct)
  case (1 i t l xs e es acc)
  then have "P t e" by fastforce
  then have "slots_ok texts (acc[i := Some e])" using 1(2,3) by (auto simp: slots_ok_def nth_list_update)
  moreover have "\<forall>j < length xs. j < length es \<longrightarrow> P (fst (snd (xs ! j))) (es ! j)" using 1(4) by force
  ultimately show ?case using 1 by simp
qed simp_all

lemma slots_ok_embed_batches:
  assumes "slots_ok texts acc" and "\<forall>(i, t, l) \<in> set xs. i < length texts \<and> t = texts ! i"
    and "embed_batches emb xs ps acc k = (Inr all, k')"
  shows "slots_ok texts all"
  using assms(1,3)
proof (induction ps arbitrary: acc k)
  case (Cons p ps)
  obtain es k1 where es: "emb k (map (\<lambda>(_, text, _). text) (slice xs p)) = (Inr es, k1)"
    and rest: "embed_batches emb xs ps (place (slice xs p) es acc) k1 = (Inr all, k')"
    using Cons.prems(2) by (auto split: prod.splits sum.splits)
  have sub: "set (slice xs p) \<subseteq> set xs" by (auto simp: slice_def dest: in_set_takeD in_set_dropD)
  have "slots_ok texts (place (slice xs p) es acc)"
  proof (rule slots_ok_place[OF Cons.prems(1)])
    show "\<forall>j < length (slice xs p). j < length es \<longrightarrow> P (fst (snd (slice xs p ! j))) (es ! j)"
      using positional[OF es] by (simp add: case_prod_beta)
  qed (use assms(2) sub in blast)
  then show ?case using rest by (rule Cons.IH)
qed simp

lemma generate_ok:
  assumes "generate_embeddings_batched b emb chunks k = Some (Inr es, k')"
  shows "list_all2 P (map format_for_embedding chunks) es"
proof (cases "batcher_runtime b = OpenRouter")
  case True
  then have "emb k (map format_for_embedding chunks) = (Inr es, k') \<and> length es = length chunks"
    using assms
    by (auto simp: generate_embeddings_batched_def generate_openrouter_embeddings_def Let_def
        split: prod.splits sum.splits if_splits)
  then show ?thesis using positional by (fastforce simp: list_all2_conv_all_nth)
next
  case False
  let ?texts = "map format_for_embedding chunks"
  let ?ord = "\<lambda>xs. if sorts_by_length (batching_policy b) then sort_embedding_inputs xs else xs"
  obtain xs0 all where xs0: "ordered_texts ?texts (count_token_lengths b ?texts) = Some xs0"
    and run: "embed_batches emb (?ord xs0) (plan_embedding_batches (?ord xs0) (batching_policy b))
        (replicate (length (?ord xs0)) None) k = (Inr all, k')"
    and all: "those all = Some es"
    using assms False by (auto simp: generate_embeddings_batched_def Let_def split: option.splits prod.splits sum.splits)
  have entries: "\<forall>(i, t, l) \<in> set (?ord xs0). i < length ?texts \<and> t = ?texts ! i"
    using ordered_texts_entries(1)[OF xs0] by (simp add: sort_embedding_inputs_def)
  have "slots_ok ?texts (replicate (length (?ord xs0)) None)"
    using ordered_texts_entries(2)[OF xs0] by (simp add: slots_ok_def sort_embedding_inputs_def)
  from slots_ok_embed_batches[OF this entries run] show ?thesis
    using all by (auto simp: slots_ok_def those_Some_conv list_all2_conv_all_nth)
qed

end

interpretation gated: positional_embedder "embed_documents raw rt" "\<lambda>_. all_finite" for raw rt
  by unfold_locales (metis embed_documents_def embed_side_texts_finite nth_mem)

text \<open>An embedder that also answers with as many vectors as it was given texts.\<close>

locale aligned_embedder = positional_embedder +
  assumes one_each: "emb k texts = (Inr es, k') \<Longrightarrow> length es = length texts"
begin

lemma embed_batches_fills:
  assumes "embed_batches emb xs ps acc k = (r, k')" and "\<forall>(i, t, l) \<in> set xs. i < length acc"
    and "\<forall>i \<in> filled. i < length acc \<and> acc ! i \<noteq> None"
  shows "case r of Inl e \<Rightarrow> \<exists>ee. e = Embedding ee
         | Inr all \<Rightarrow> length all = length acc \<and>
             (\<forall>i \<in> filled \<union> fst ` set (concat (map (slice xs) ps)). i < length all \<and> all ! i \<noteq> None)"
  using assms
proof (induction ps arbitrary: acc k filled)
  case (Cons p ps)
  show ?case
  proof (cases "emb k (map (\<lambda>(_, text, _). text) (slice xs p))")
    case (Pair r1 k1)
    show ?thesis
    proof (cases r1)
      case (Inl e)
      then show ?thesis using Cons.prems(1) Pair by auto
    next
      case (Inr es)
      have len: "length (slice xs p) = length es" using one_each[OF Pair[unfolded Inr]] by simp
      have sub: "set (slice xs p) \<subseteq> set xs" by (auto simp: slice_def dest: in_set_takeD in_set_dropD)
      have "\<forall>(i, t, l) \<in> set (slice xs p). i < length acc" using Cons.prems(2) sub by blast
      note fills = place_fills[OF len this Cons.prems(3)]
      have new: "\<forall>i \<in> filled \<union> fst ` set (slice xs p).
          i < length (place (slice xs p) es acc) \<and> place (slice xs p) es acc ! i \<noteq> None"
        using fills[THEN conjunct2] by (simp only: fills[THEN conjunct1])
      have rest: "embed_batches emb xs ps (place (slice xs p) es acc) k1 = (r, k')"
        using Cons.prems(1) Pair Inr by simp
      have "\<forall>(i, t, l) \<in> set xs. i < length (place (slice xs p) es acc)"
        using Cons.prems(2) by (simp only: fills[THEN conjunct1])
      note ih = Cons.IH[OF rest this new, unfolded fills[THEN conjunct1]]
      have "filled \<union> fst ` set (concat (map (slice xs) (p # ps))) =
          filled \<union> fst ` set (slice xs p) \<union> fst ` set (concat (map (slice xs) ps))"
        by (simp add: Un_assoc image_Un)
      then show ?thesis using ih by (simp only:)
    qed
  qed
qed (auto)

lemma generate_complete:
  assumes "generate_embeddings_batched b emb chunks k = Some (Inl e, k')"
  shows "\<exists>ee. e = Embedding ee"
proof (cases "batcher_runtime b = OpenRouter")
  case True
  then show ?thesis using assms one_each
    by (auto simp: generate_embeddings_batched_def generate_openrouter_embeddings_def Let_def
        split: prod.splits sum.splits if_splits)
next
  case False
  let ?texts = "map format_for_embedding chunks"
  let ?ord = "\<lambda>xs. if sorts_by_length (batching_policy b) then sort_embedding_inputs xs else xs"
  obtain xs0 where xs0: "ordered_texts ?texts (count_token_lengths b ?texts) = Some xs0"
    using assms False by (auto simp: generate_embeddings_batched_def Let_def split: option.splits)
  define xs where "xs = ?ord xs0"
  obtain r k1 where run: "embed_batches emb xs (plan_embedding_batches xs (batching_policy b))
      (replicate (length xs) None) k = (r, k1)" by force
  have len: "length xs = length ?texts" and idx: "fst ` set xs = {..<length ?texts}"
    using ordered_texts_entries(2)[OF xs0] ordered_texts_indices[OF xs0]
    by (simp_all add: xs_def sort_embedding_inputs_def)
  have bound: "\<forall>(i, t, l) \<in> set xs. i < length (replicate (length xs) (None :: embedding option))"
    using len idx by (force simp: image_iff)
  have conc: "concat (map (slice xs) (plan_embedding_batches xs (batching_policy b))) = xs"
    unfolding plan_embedding_batches_def using tiles_concat[OF policy_plan_tiles refl] by simp
  have filled: "case r of Inl e \<Rightarrow> \<exists>ee. e = Embedding ee
      | Inr all \<Rightarrow> length all = length ?texts \<and> (\<forall>i < length ?texts. all ! i \<noteq> None)"
    using embed_batches_fills[OF run bound, of "{}"] unfolding conc Un_empty_left idx
    by (simp add: len split: sum.splits)
  show ?thesis
  proof (cases r)
    case (Inl e')
    then show ?thesis using filled assms False xs0 run
      by (auto simp: generate_embeddings_batched_def Let_def xs_def)
  next
    case (Inr all)
    then have "those all \<noteq> None" using filled by (auto simp: those_None_conv in_set_conv_nth)
    then show ?thesis using Inr assms False xs0 run
      by (auto simp: generate_embeddings_batched_def Let_def xs_def)
  qed
qed

end

text \<open>A model that answers each text with one vector that is right for it, at every call.\<close>

locale text_model =
  fixes raw :: raw_embedder and P :: "embed_side \<Rightarrow> string \<Rightarrow> embedding \<Rightarrow> bool"
  assumes per_text: "raw k side texts = Inr es \<Longrightarrow> list_all2 (P side) texts es"
begin

lemma recompute_aligned:
  "recompute raw side n texts acc k = (Inr es, k') \<Longrightarrow> \<exists>new. es = acc @ new \<and> list_all2 (P side) texts new"
proof (induction texts arbitrary: acc k)
  case (Cons t ts)
  from Cons.prems obtain one where one: "raw k side [t] = Inr one" "recompute raw side n ts (acc @ one) (k + 1) = (Inr es, k')"
    by (auto split: sum.splits option.splits)
  from Cons.IH[OF one(2)] obtain new where new: "es = (acc @ one) @ new" "list_all2 (P side) ts new"
    by blast
  with per_text[OF one(1)] show ?case by (intro exI[of _ "one @ new"]) (auto simp: list_all2_Cons1)
qed simp

lemma embed_side_texts_aligned:
  assumes "embed_side_texts raw rt side k texts = (Inr es, k')"
  shows "list_all2 (P side) texts es"
  by (cases rule: embed_side_texts_cases[OF assms]) (auto dest: per_text recompute_aligned)

end

sublocale text_model \<subseteq> docs: aligned_embedder "embed_documents raw rt" "P Documents" for rt
  by unfold_locales
     (auto simp: embed_documents_def dest!: embed_side_texts_aligned dest: list_all2_lengthD list_all2_nthD)

context text_model
begin

lemma generate_aligned:
  "generate_embeddings_batched b (embed_documents raw rt) chunks k = Some (Inr es, k') \<Longrightarrow>
   list_all2 (P Documents) (map format_for_embedding chunks) es"
  by (rule docs.generate_ok)

lemma generate_backend_errors:
  "generate_embeddings_batched b (embed_documents raw rt) chunks k = Some (Inl e, k') \<Longrightarrow> \<exists>ee. e = Embedding ee"
  by (rule docs.generate_complete)

end

subsection \<open>Properties\<close>

text \<open>The batches planned for a run tile its inputs: consecutive, non-empty, and covering every
  input exactly once, under either policy.\<close>

theorem policy_plan_covers:
  "tiles 0 (length items) (policy_plan pol items token_len) \<and>
   concat (map (slice items) (policy_plan pol items token_len)) = items"
  using policy_plan_tiles[of items pol token_len] tiles_concat[OF policy_plan_tiles refl, of items pol token_len]
  by simp

text \<open>A batch planned under a budget has at most the allowed number of rows, and its padded size
  (rows times the longest row) stays within the token budget unless it holds a single row.\<close>

theorem plan_batches_within_budget:
  "\<forall>p \<in> set (plan_batches items max_rows budget token_len).
     plan_ok (max max_rows 1) (max budget 1) (map token_len items) p"
proof (cases "items = []")
  case False
  have "\<forall>p \<in> set (plan_loop (max max_rows 1) (max budget 1) 0 (map token_len items) 0 0 0).
      plan_ok (max max_rows 1) (max budget 1) ([] @ map token_len items) p"
    by (rule plan_loop_ok) auto
  with False show ?thesis by (simp add: plan_batches_def)
qed (simp add: plan_batches_def)

theorem plan_batches_within_budget_witness:
  "plan_batches [30, 10, 5, 5 :: nat] 3 20 id =
     [\<lparr>plan_start = 0, plan_end = 1\<rparr>, \<lparr>plan_start = 1, plan_end = 3\<rparr>, \<lparr>plan_start = 3, plan_end = 4\<rparr>] \<and>
   plan_ok 3 20 [30, 10, 5, 5] \<lparr>plan_start = 1, plan_end = 3\<rparr>"
proof -
  have eq: "plan_batches [30, 10, 5, 5 :: nat] 3 20 id =
     [\<lparr>plan_start = 0, plan_end = 1\<rparr>, \<lparr>plan_start = 1, plan_end = 3\<rparr>, \<lparr>plan_start = 3, plan_end = 4\<rparr>]"
    by code_simp
  with plan_batches_within_budget[of "[30, 10, 5, 5 :: nat]" 3 20 id] show ?thesis by simp
qed

text \<open>No non-finite vector leaves the embedder, and none is dropped or added on the way: whatever
  the model answers at each call, when the batcher succeeds it returns exactly one vector per chunk
  and every component of every vector is finite.\<close>

theorem embeddings_finite_and_complete:
  assumes "generate_embeddings_batched b (embed_documents raw rt) chunks k = Some (Inr es, k')"
  shows "length es = length chunks \<and> (\<forall>e \<in> set es. all_finite e)"
  using gated.generate_ok[OF assms] by (auto simp: list_all2_conv_all_nth in_set_conv_nth)

text \<open>C21: The batcher restores the input order. If the model answers each text with a vector that is
  right for that text, then although the texts are sorted by length, cut into batches and possibly
  recomputed one by one, the vector at position \<open>i\<close> is right for chunk \<open>i\<close>; and the batcher fails only
  when the model does, never with an error of its own.\<close>

theorem embeddings_aligned:
  assumes "text_model raw P"
    and "generate_embeddings_batched b (embed_documents raw rt) chunks k = Some (r, k')"
  shows "case r of
           Inr es \<Rightarrow> list_all2 (P Documents) (map format_for_embedding chunks) es
         | Inl e \<Rightarrow> \<exists>ee. e = Embedding ee"
  using assms text_model.generate_aligned[OF assms(1), of b rt chunks k _ k']
    text_model.generate_backend_errors[OF assms(1), of b rt chunks k _ k']
  by (cases r) auto

text \<open>A model that answers with the length of the text, except that its first call returns \<open>NaN\<close> for
  every text but the first.\<close>

definition demo_raw :: raw_embedder where
  "demo_raw k side texts =
     Inr (map (\<lambda>i. if k = 0 \<and> 0 < i then [NonFinite NaN] else [Finite (of_nat (length (texts ! i)))])
            [0..<length texts])"

definition demo_right :: "embed_side \<Rightarrow> string \<Rightarrow> embedding \<Rightarrow> bool" where
  "demo_right side text e \<longleftrightarrow> e = [Finite (of_nat (length text))] \<or> e = [NonFinite NaN]"

interpretation demo_model: text_model demo_raw demo_right
  by unfold_locales (auto simp: demo_raw_def demo_right_def list_all2_conv_all_nth)

definition demo_batcher :: embedding_batcher where
  "demo_batcher = EmbeddingBatcher_new LocalFastembedOnnxMigraphx None None 8 1000"

definition demo_chunks :: "code_chunk list" where
  "demo_chunks = [demo_chunk, demo_chunk\<lparr>content := ''x''\<rparr>]"

lemma demo_generate:
  "generate_embeddings_batched demo_batcher (embed_documents demo_raw LocalFastembedOnnxMigraphx) demo_chunks 0 =
     Some (Inr [[Finite 78], [Finite 65]], 3)"
  by code_simp

theorem embeddings_finite_and_complete_witness:
  "list_all all_finite [[Finite 78], [Finite 65]]"
  unfolding list_all_iff using embeddings_finite_and_complete[OF demo_generate] by (rule conjunct2)

theorem embeddings_aligned_witness:
  "list_all2 (demo_right Documents) (map format_for_embedding demo_chunks) [[Finite 78], [Finite 65]]"
  using embeddings_aligned[OF demo_model.text_model_axioms demo_generate] by simp

end
