(* ===== verification/Metadata_Cache.thy ===== *)
theory Metadata_Cache
  imports Filesystem
begin

text \<open>
  The metadata cache (\<open>crates/rmc-indexing/src/metadata_cache.rs\<close>): which content of a file was
  indexed last, and the bounded wait for the lock of its database. The database is \<open>sled\<close> and the
  encoding of an entry is \<open>bincode\<close>: both are operations of a record \<open>sled\<close> over an opaque database
  state and an opaque type of bytes, with their laws in the locale \<open>sled_store\<close>. What the indexer relies on is the locale
  \<open>change_memory\<close>, which the cache built on any such database implements.
\<close>

subsection \<open>Entries\<close>

record file_metadata =
  fm_hash :: string
  fm_last_modified :: nat
  fm_size :: nat
  fm_indexed_at :: nat

record file_stat =
  st_last_modified :: nat
  st_size :: nat

text \<open>\<open>duration_since(UNIX_EPOCH)\<close> fails for a time before the epoch.\<close>

definition as_secs :: "int \<Rightarrow> (string, nat) result" where
  "as_secs t = (if t < 0 then Inl ''second time provided was later than self''
                else Inr (nat (t div 1000000000)))"

definition FileStat_from_path :: "filesystem \<Rightarrow> path \<Rightarrow> (string, file_stat) result" where
  "FileStat_from_path fs p =
     and_then (fs_metadata fs p) (\<lambda>md.
     and_then (md_modified md) (\<lambda>t.
     and_then (as_secs t) (\<lambda>secs.
       Inr \<lparr>st_last_modified = secs, st_size = md_len md\<rparr>)))"

definition FileMetadata_from_content :: "(string \<Rightarrow> string) \<Rightarrow> nat \<Rightarrow> string \<Rightarrow> nat \<Rightarrow> nat \<Rightarrow> file_metadata" where
  "FileMetadata_from_content hash_content now text last_modified sz =
     \<lparr>fm_hash = hash_content text, fm_last_modified = last_modified, fm_size = sz, fm_indexed_at = now\<rparr>"

subsection \<open>The database\<close>

datatype sled_error = SledIo string | SledOther string

record ('d, 'b) sled =
  sled_get :: "'d \<Rightarrow> string \<Rightarrow> (string, 'b option) result"
  sled_insert :: "'d \<Rightarrow> string \<Rightarrow> 'b \<Rightarrow> (string, unit) result \<times> 'd"
  sled_remove :: "'d \<Rightarrow> string \<Rightarrow> (string, unit) result \<times> 'd"
  sled_clear :: "'d \<Rightarrow> (string, unit) result \<times> 'd"
  sled_iter :: "'d \<Rightarrow> (string, string) result list"   \<comment> \<open>the keys\<close>
  meta_encode :: "file_metadata \<Rightarrow> (string, 'b) result"
  meta_decode :: "'b \<Rightarrow> (string, file_metadata) result"

definition is_lock_contention :: "sled_error \<Rightarrow> bool" where
  "is_lock_contention e = (case e of SledIo msg \<Rightarrow> contains_str msg ''could not acquire lock'' | SledOther _ \<Rightarrow> False)"

definition LOCK_WAIT_BUDGET :: nat where "LOCK_WAIT_BUDGET = 250"

definition LOCK_WAIT_STEP :: nat where "LOCK_WAIT_STEP = 10"

text \<open>
  The loop of \<open>MetadataCache::new\<close>. The \<open>n\<close>-th attempt to open answers \<open>attempt n\<close>; \<open>waited\<close> is in
  milliseconds.
\<close>

function open_loop :: "(nat \<Rightarrow> (sled_error, 'd) result) \<Rightarrow> nat \<Rightarrow> nat \<Rightarrow> (sled_error, 'd) result" where
  "open_loop attempt n waited =
     (case attempt n of
        Inr db \<Rightarrow> Inr db
      | Inl e \<Rightarrow> if is_lock_contention e \<and> waited < LOCK_WAIT_BUDGET
                 then open_loop attempt (n + 1) (waited + LOCK_WAIT_STEP)
                 else Inl e)"
  by pat_completeness auto
termination
  by (relation "measure (\<lambda>(_, _, waited). LOCK_WAIT_BUDGET - waited)")
     (auto simp: LOCK_WAIT_BUDGET_def LOCK_WAIT_STEP_def)

declare open_loop.simps [simp del]

definition MetadataCache_new :: "(nat \<Rightarrow> (sled_error, 'd) result) \<Rightarrow> (sled_error, 'd) result" where
  "MetadataCache_new attempt = open_loop attempt 0 0"

subsection \<open>Operations of the cache\<close>

definition cache_get :: "('d, 'b) sled \<Rightarrow> 'd \<Rightarrow> string \<Rightarrow> (string, file_metadata option) result" where
  "cache_get S db key =
     and_then (sled_get S db key) (\<lambda>r.
       case r of
         Some bytes \<Rightarrow> and_then (meta_decode S bytes) (\<lambda>m. Inr (Some m))
       | None \<Rightarrow> Inr None)"

definition cache_set :: "('d, 'b) sled \<Rightarrow> 'd \<Rightarrow> string \<Rightarrow> file_metadata \<Rightarrow> (string, unit) result \<times> 'd" where
  "cache_set S db key m =
     (case meta_encode S m of
        Inl e \<Rightarrow> (Inl e, db)
      | Inr bytes \<Rightarrow> sled_insert S db key bytes)"

definition cache_remove :: "('d, 'b) sled \<Rightarrow> 'd \<Rightarrow> string \<Rightarrow> (string, unit) result \<times> 'd" where
  "cache_remove S db key = sled_remove S db key"

definition cache_has_stat_changed :: "('d, 'b) sled \<Rightarrow> 'd \<Rightarrow> string \<Rightarrow> file_stat \<Rightarrow> (string, bool) result" where
  "cache_has_stat_changed S db key stat =
     and_then (cache_get S db key) (\<lambda>r.
       case r of
         Some cached \<Rightarrow> Inr (fm_last_modified cached \<noteq> st_last_modified stat \<or> fm_size cached \<noteq> st_size stat)
       | None \<Rightarrow> Inr True)"

definition cache_has_changed ::
  "(string \<Rightarrow> string) \<Rightarrow> ('d, 'b) sled \<Rightarrow> 'd \<Rightarrow> string \<Rightarrow> string \<Rightarrow> (string, bool) result" where
  "cache_has_changed hash_content S db key text =
     and_then (cache_get S db key) (\<lambda>r.
       case r of
         Some cached \<Rightarrow> Inr (fm_hash cached \<noteq> hash_content text)
       | None \<Rightarrow> Inr True)"

fun collect_results :: "('e, 'a) result list \<Rightarrow> 'a list \<Rightarrow> ('e, 'a list) result" where
  "collect_results [] acc = Inr acc"
| "collect_results (Inl e # rs) acc = Inl e"
| "collect_results (Inr x # rs) acc = collect_results rs (acc @ [x])"

definition cache_list_files :: "('d, 'b) sled \<Rightarrow> 'd \<Rightarrow> (string, string list) result" where
  "cache_list_files S db = collect_results (sled_iter S db) []"

definition cache_clear :: "('d, 'b) sled \<Rightarrow> 'd \<Rightarrow> (string, unit) result \<times> 'd" where
  "cache_clear S db = sled_clear S db"

definition strip_prefix :: "string \<Rightarrow> string \<Rightarrow> string option" where
  "strip_prefix pre s = (if prefix pre s then Some (drop (length pre) s) else None)"

definition paths_for_salt :: "string list \<Rightarrow> string \<Rightarrow> string set" where
  "paths_for_salt ks salt =
     (if salt = [] then set ks
      else set (List.map_filter (strip_prefix (salt @ ''::'')) ks))"

subsection \<open>The wait for the lock\<close>

lemma open_loop_waits:
  assumes "\<And>i. n \<le> i \<Longrightarrow> i < k \<Longrightarrow> \<exists>e. attempt i = Inl e \<and> is_lock_contention e"
    and "n \<le> k" and "waited + (k - n) * LOCK_WAIT_STEP \<le> LOCK_WAIT_BUDGET"
  shows "open_loop attempt n waited = open_loop attempt k (waited + (k - n) * LOCK_WAIT_STEP)"
  using assms
proof (induction "k - n" arbitrary: n waited)
  case (Suc d)
  from Suc(2) have nk: "n < k" by simp
  with Suc.prems(1)[of n] obtain e where e: "attempt n = Inl e" "is_lock_contention e" by blast
  have split: "k - n = Suc (k - Suc n)" using nk by simp
  have room: "waited + LOCK_WAIT_STEP + (k - Suc n) * LOCK_WAIT_STEP \<le> LOCK_WAIT_BUDGET"
    using Suc.prems(3) unfolding split by simp
  then have "waited < LOCK_WAIT_BUDGET" by (simp add: LOCK_WAIT_STEP_def)
  then have "open_loop attempt n waited = open_loop attempt (Suc n) (waited + LOCK_WAIT_STEP)"
    using e by (subst open_loop.simps) simp
  also have "\<dots> = open_loop attempt k (waited + LOCK_WAIT_STEP + (k - Suc n) * LOCK_WAIT_STEP)"
    by (rule Suc(1)) (use Suc(2) Suc.prems(1) nk room in auto)
  also have "\<dots> = open_loop attempt k (waited + (k - n) * LOCK_WAIT_STEP)" unfolding split by (simp add: add.assoc)
  finally show ?case .
qed simp

text \<open>Opening the cache waits out a lock that is on its way out and nothing longer. If the first
  \<open>k\<close> attempts fail on the lock, with \<open>k\<close> at most 25, the answer is that of attempt \<open>k\<close> whenever that
  one is not lock contention; and after 25 waits the contention itself is returned.\<close>

theorem MetadataCache_new_waits_out_the_lock:
  assumes "\<And>i. i < k \<Longrightarrow> \<exists>e. attempt i = Inl e \<and> is_lock_contention e" and "k \<le> 25"
    and "k = 25 \<or> (\<forall>e. attempt k = Inl e \<longrightarrow> \<not> is_lock_contention e)"
  shows "MetadataCache_new attempt = attempt k"
proof -
  have "MetadataCache_new attempt = open_loop attempt k (k * LOCK_WAIT_STEP)"
    unfolding MetadataCache_new_def using open_loop_waits[of 0 k attempt 0] assms(1,2)
    by (simp add: LOCK_WAIT_STEP_def LOCK_WAIT_BUDGET_def)
  also have "\<dots> = attempt k"
    using assms(3) by (subst open_loop.simps) (auto simp: LOCK_WAIT_STEP_def LOCK_WAIT_BUDGET_def split: sum.split)
  finally show ?thesis .
qed

theorem MetadataCache_new_waits_out_the_lock_witness:
  "MetadataCache_new (\<lambda>i. if i < 3 then Inl (SledIo ''could not acquire lock on db'') else Inr i) = Inr (3 :: nat)"
proof -
  have "is_lock_contention (SledIo ''could not acquire lock on db'')" by code_simp
  then show ?thesis
    using MetadataCache_new_waits_out_the_lock
      [of 3 "\<lambda>i. if i < 3 then Inl (SledIo ''could not acquire lock on db'') else Inr i"] by simp
qed

subsection \<open>What the cache remembers\<close>

text \<open>The documented behaviour of the database: a map from keys to bytes. Nothing is said about the
  state after an operation that failed.\<close>

locale sled_store =
  fixes S :: "('d, 'b) sled" and kv :: "'d \<Rightarrow> string \<rightharpoonup> 'b"
  assumes get_ok: "sled_get S db k = Inr r \<Longrightarrow> r = kv db k"
    and insert_ok: "sled_insert S db k v = (Inr (), db') \<Longrightarrow> kv db' = (kv db)(k \<mapsto> v)"
    and remove_ok: "sled_remove S db k = (Inr (), db') \<Longrightarrow> kv db' = (kv db)(k := None)"
    and clear_ok: "sled_clear S db = (Inr (), db') \<Longrightarrow> kv db' = Map.empty"
    and iter_ok: "list_all is_ok (sled_iter S db) \<Longrightarrow> set (sled_iter S db) = Inr ` dom (kv db)"
    and decode_encode: "meta_encode S m = Inr bytes \<Longrightarrow> meta_decode S bytes = Inr m"

begin

text \<open>The entry a key holds, decoded; an entry that cannot be decoded is none.\<close>

definition entry :: "'d \<Rightarrow> string \<rightharpoonup> file_metadata" where
  "entry db k = (case kv db k of
                   None \<Rightarrow> None
                 | Some bytes \<Rightarrow> (case meta_decode S bytes of Inl _ \<Rightarrow> None | Inr m \<Rightarrow> Some m))"

lemma entry_kv: "kv db' = (kv db)(k := v) \<Longrightarrow>
    entry db' = (entry db)(k := (case v of None \<Rightarrow> None | Some b \<Rightarrow> (case meta_decode S b of Inl _ \<Rightarrow> None | Inr m \<Rightarrow> Some m)))"
  by (rule ext) (simp add: entry_def)

end

text \<open>What the indexer relies on: a memory of entries by key, behind operations that may fail.\<close>

locale change_memory =
  fixes get :: "'d \<Rightarrow> string \<Rightarrow> (string, file_metadata option) result"
    and put :: "'d \<Rightarrow> string \<Rightarrow> file_metadata \<Rightarrow> (string, unit) result \<times> 'd"
    and del :: "'d \<Rightarrow> string \<Rightarrow> (string, unit) result \<times> 'd"
    and wipe :: "'d \<Rightarrow> (string, unit) result \<times> 'd"
    and entries :: "'d \<Rightarrow> string \<rightharpoonup> file_metadata"
  assumes get_entry: "get db k = Inr r \<Longrightarrow> r = entries db k"
    and put_entry: "put db k m = (Inr (), db') \<Longrightarrow> entries db' = (entries db)(k \<mapsto> m)"
    and del_entry: "del db k = (Inr (), db') \<Longrightarrow> entries db' = (entries db)(k := None)"
    and wipe_entry: "wipe db = (Inr (), db') \<Longrightarrow> entries db' = Map.empty"

sublocale sled_store \<subseteq> memory: change_memory "cache_get S" "cache_set S" "cache_remove S" "cache_clear S" entry
proof unfold_locales
  fix db k r assume "cache_get S db k = Inr r"
  then show "r = entry db k"
    by (auto simp: cache_get_def entry_def and_then_Inr dest!: get_ok split: option.splits sum.splits)
next
  fix db k m db' assume "cache_set S db k m = (Inr (), db')"
  then show "entry db' = (entry db)(k \<mapsto> m)"
    by (auto simp: cache_set_def decode_encode dest!: insert_ok[THEN entry_kv] split: sum.splits)
next
  fix db k db' assume "cache_remove S db k = (Inr (), db')"
  then show "entry db' = (entry db)(k := None)"
    by (auto simp: cache_remove_def dest!: remove_ok[THEN entry_kv])
next
  fix db db' assume "cache_clear S db = (Inr (), db')"
  then show "entry db' = Map.empty"
    by (auto simp: cache_clear_def entry_def dest!: clear_ok)
qed

lemma collect_results_Inr: "collect_results rs acc = Inr xs \<longleftrightarrow> rs = map Inr (drop (length acc) xs) \<and> take (length acc) xs = acc"
proof (induction rs acc rule: collect_results.induct)
  case (1 acc)
  then show ?case by (auto simp: take_Cons' split: if_splits)
next
  case (3 x rs acc)
  show ?case
  proof
    assume "collect_results (Inr x # rs) acc = Inr xs"
    then have "rs = map Inr (drop (length (acc @ [x])) xs)" "take (length (acc @ [x])) xs = acc @ [x]" using 3 by auto
    then show "Inr x # rs = map Inr (drop (length acc) xs) \<and> take (length acc) xs = acc"
      by (metis Cons_nth_drop_Suc append_eq_conv_conj append_take_drop_id append.assoc append_Cons append_Nil drop_drop length_append list.simps(9) same_append_eq)
  next
    assume *: "Inr x # rs = map Inr (drop (length acc) xs) \<and> take (length acc) xs = acc"
    then obtain ys where ys: "drop (length acc) xs = x # ys" "rs = map Inr ys" by auto
    then have "xs = acc @ x # ys" using * by (metis append_take_drop_id)
    then show "collect_results (Inr x # rs) acc = Inr xs" using 3 ys by simp
  qed
qed auto

context sled_store
begin

lemmas cache_get_entry = memory.get_entry
lemmas cache_set_entry = memory.put_entry
lemmas cache_remove_entry = memory.del_entry
lemmas cache_clear_entry = memory.wipe_entry

lemma has_stat_changed_entry:
  "cache_has_stat_changed S db k st = Inr b \<Longrightarrow>
   b = (case entry db k of
          Some m \<Rightarrow> fm_last_modified m \<noteq> st_last_modified st \<or> fm_size m \<noteq> st_size st
        | None \<Rightarrow> True)"
  by (auto simp: cache_has_stat_changed_def and_then_Inr dest!: memory.get_entry split: option.splits)

lemma has_changed_entry:
  "cache_has_changed h S db k t = Inr b \<Longrightarrow>
   b = (case entry db k of Some m \<Rightarrow> fm_hash m \<noteq> h t | None \<Rightarrow> True)"
  by (auto simp: cache_has_changed_def and_then_Inr dest!: memory.get_entry split: option.splits)

lemma list_files_dom:
  assumes "cache_list_files S db = Inr ks"
  shows "set ks = dom (kv db)"
proof -
  have "sled_iter S db = map Inr ks" using assms by (simp add: cache_list_files_def collect_results_Inr)
  then have "Inr ` set ks = (Inr ` dom (kv db) :: (string, string) result set)"
    using iter_ok[of db] by (simp add: list_all_iff)
  then show ?thesis by (simp add: inj_image_eq_iff)
qed

end

subsection \<open>A database in memory\<close>

definition mem_sled :: "((string \<times> file_metadata) list, file_metadata) sled" where
  "mem_sled =
     \<lparr>sled_get = (\<lambda>db k. Inr (map_of db k)),
      sled_insert = (\<lambda>db k v. (Inr (), AList.update k v db)),
      sled_remove = (\<lambda>db k. (Inr (), AList.delete k db)),
      sled_clear = (\<lambda>db. (Inr (), [])),
      sled_iter = (\<lambda>db. map Inr (keys db)),
      meta_encode = Inr, meta_decode = Inr\<rparr>"

interpretation mem: sled_store mem_sled map_of
  by unfold_locales (auto simp: mem_sled_def keyed dom_map_of_conv_image_fst)

end
