(* ===== verification/File_Gate.thy ===== *)
theory File_Gate
  imports Index_Errors Chunking Metadata_Cache
begin

text \<open>
  What stands between a file and its chunks: the filter of sensitive paths and the scanner for
  secrets (\<open>crates/rmc-indexing/src/security\<close>), the size limit and the metadata cache
  (\<open>indexing/file_processor.rs\<close>), and \<open>process_file_sync\<close> of \<open>indexing/indexer_core.rs\<close>, which reads,
  checks, parses and chunks one file.

  Glob patterns, regular expressions, SHA-256, the Rust parser and the tokenizer come from other
  crates: they are operations of the record \<open>gate\<close>, together with the file system and the clock.
  A panic is \<open>None\<close>.
\<close>

subsection \<open>The environment\<close>

record ('d, 'b) gate =
  g_fs :: filesystem
  g_sled :: "('d, 'b) sled"
  g_glob_compiles :: "string \<Rightarrow> bool"
  g_glob_matches :: "string \<Rightarrow> string \<Rightarrow> bool"
  g_regex_matches :: "string \<Rightarrow> string \<Rightarrow> bool"
  g_hash :: "string \<Rightarrow> string"
  g_now :: nat
  g_parse :: "string \<Rightarrow> (string, parse_result) result"
  g_ids :: "nat \<Rightarrow> chunk_id"
  g_tokens :: "code_chunk \<Rightarrow> nat option"

subsection \<open>Sensitive files\<close>

definition sensitive_patterns :: "string list" where
  "sensitive_patterns =
     [''.env'', ''.env.*'', ''**/.env.*'', ''*.env'',
      ''**/secrets/**'', ''**/credentials/**'', ''**/.aws/**'', ''**/.ssh/**'', ''**/private_key*'',
      ''**/*.key'', ''**/*.pem'', ''**/*.p12'', ''**/*.pfx'',
      ''**/config/database.yml'', ''**/config/secrets.yml'',
      ''**/.git/**'', ''**/.gitignore'',
      ''**/target/**'', ''**/node_modules/**'', ''**/.cargo/**'',
      ''**/fixtures/secrets/**'',
      ''**/*secret*'', ''**/*password*'', ''**/*credential*'']"

definition SensitiveFileFilter_default :: "('d, 'b) gate \<Rightarrow> string list" where
  "SensitiveFileFilter_default G = filter (g_glob_compiles G) sensitive_patterns"

definition SensitiveFileFilter_with_patterns :: "('d, 'b) gate \<Rightarrow> string list \<Rightarrow> string list option" where
  "SensitiveFileFilter_with_patterns G ps = (if list_all (g_glob_compiles G) ps then Some ps else None)"

definition should_index :: "('d, 'b) gate \<Rightarrow> string list \<Rightarrow> path \<Rightarrow> bool" where
  "should_index G excluded p = (\<not> list_ex (\<lambda>pat. g_glob_matches G pat (path_str p)) excluded)"

definition add_pattern :: "('d, 'b) gate \<Rightarrow> string list \<Rightarrow> string \<Rightarrow> string list option" where
  "add_pattern G excluded pat = (if g_glob_compiles G pat then Some (excluded @ [pat]) else None)"

subsection \<open>Secrets\<close>

record secret_match =
  pattern_name :: string
  line_number :: "nat option"

definition quote_class :: string where
  "quote_class = [CHR 0x27, CHR 0x22]"

definition secret_patterns :: "(string \<times> string) list" where
  "secret_patterns =
     [(''AWS Access Key'', ''AKIA[0-9A-Z]{16}''),
      (''Private Key'', ''-----BEGIN (RSA |EC |DSA |OPENSSH |)PRIVATE KEY-----''),
      (''Generic API Key'', ''(?i)(api[_-]?key|apikey|api[_-]?token)['' @ [CHR 0x5C] @ ''s:=]+['' @ quote_class @
         ''](['' @ [CHR 0x5E] @ quote_class @ '']{20,})['' @ quote_class @ '']''),
      (''Generic Secret'', ''(?i)(secret|password|passwd|pwd)['' @ [CHR 0x5C] @ ''s:=]+['' @ quote_class @
         ''](['' @ [CHR 0x5E] @ quote_class @ '']{8,})['' @ quote_class @ '']''),
      (''GitHub Token'', ''ghp_[0-9a-zA-Z]{36}''),
      (''Slack Token'', ''xox[baprs]-[0-9a-zA-Z]{10,48}''),
      (''Google API Key'', ''AIza[0-9A-Za-z'' @ [CHR 0x5C, CHR 0x5C] @ ''-_]{35}''),
      (''Stripe API Key'', ''sk_live_[0-9a-zA-Z]{24}''),
      (''JWT Token'', ''eyJ[A-Za-z0-9-_=]+'' @ [CHR 0x5C] @ ''.eyJ[A-Za-z0-9-_=]+'' @ [CHR 0x5C] @
         ''.?[A-Za-z0-9-_.+/=]*'')]"

definition scan :: "('d, 'b) gate \<Rightarrow> (string \<times> string) list \<Rightarrow> string \<Rightarrow> secret_match list" where
  "scan G patterns text =
     concat (map (\<lambda>(name, pattern).
        map (\<lambda>i. \<lparr>pattern_name = name, line_number = Some (i + 1)\<rparr>)
          (filter (\<lambda>i. g_regex_matches G pattern (str_lines text ! i)) [0..<length (str_lines text)]))
      patterns)"

definition should_exclude :: "('d, 'b) gate \<Rightarrow> (string \<times> string) list \<Rightarrow> string \<Rightarrow> bool" where
  "should_exclude G patterns text = (scan G patterns text \<noteq> [])"

definition scan_summary :: "('d, 'b) gate \<Rightarrow> (string \<times> string) list \<Rightarrow> string \<Rightarrow> string" where
  "scan_summary G patterns text =
     (let matches = scan G patterns text in
      if matches = [] then ''No secrets detected''
      else ''Found '' @ nat_str (length matches) @ '' potential secret(s):'' @ [newline] @
           concat (map (\<lambda>m. case line_number m of
                       Some line \<Rightarrow> ''  - '' @ pattern_name m @ '' at line '' @ nat_str line @ [newline]
                     | None \<Rightarrow> ''  - '' @ pattern_name m @ [newline]) matches))"

subsection \<open>The file processor\<close>

record 'd file_processor =
  fp_cache :: 'd
  fp_scanner :: "(string \<times> string) list"
  fp_filter :: "string list"
  fp_max_file_size :: nat
  fp_salt :: string

definition FileProcessor_with_cache_key_salt ::
  "('d, 'b) gate \<Rightarrow> (nat \<Rightarrow> (sled_error, 'd) result) \<Rightarrow> (sled_error \<Rightarrow> string) \<Rightarrow> nat \<Rightarrow> string \<Rightarrow>
   (indexing_error, 'd file_processor) result" where
  "FileProcessor_with_cache_key_salt G attempt err_str max_file_size salt =
     (case MetadataCache_new attempt of
        Inl e \<Rightarrow> Inl (Cache (err_str e))
      | Inr db \<Rightarrow> Inr \<lparr>fp_cache = db, fp_scanner = secret_patterns,
                        fp_filter = SensitiveFileFilter_default G,
                        fp_max_file_size = max_file_size, fp_salt = salt\<rparr>)"

definition metadata_cache_salt :: "string \<Rightarrow> string \<Rightarrow> string" where
  "metadata_cache_salt backend_identity chunking_identity =
     ''embedder'' @ backend_identity @ '':chunking'' @ chunking_identity"

definition cache_key :: "string \<Rightarrow> path \<Rightarrow> string" where
  "cache_key salt p = (if salt = [] then path_str p else salt @ ''::'' @ path_str p)"

definition map_err :: "('e \<Rightarrow> 'f) \<Rightarrow> ('e, 'a) result \<Rightarrow> ('f, 'a) result" where
  "map_err f r = (case r of Inl e \<Rightarrow> Inl (f e) | Inr a \<Rightarrow> Inr a)"

definition should_process_file :: "('d, 'b) gate \<Rightarrow> 'd file_processor \<Rightarrow> path \<Rightarrow> (indexing_error, bool) result" where
  "should_process_file G fp p =
     (if \<not> should_index G (fp_filter fp) p then Inr False
      else case fs_metadata (g_fs G) p of
             Inl e \<Rightarrow> Inl (Io e)
           | Inr md \<Rightarrow> Inr (\<not> fp_max_file_size fp < md_len md))"

definition has_stat_changed :: "('d, 'b) gate \<Rightarrow> 'd file_processor \<Rightarrow> path \<Rightarrow> (indexing_error, bool) result" where
  "has_stat_changed G fp p =
     and_then (map_err Cache (FileStat_from_path (g_fs G) p)) (\<lambda>stat.
       map_err Cache (cache_has_stat_changed (g_sled G) (fp_cache fp) (cache_key (fp_salt fp) p) stat))"

definition has_file_changed ::
  "('d, 'b) gate \<Rightarrow> 'd file_processor \<Rightarrow> path \<Rightarrow> string \<Rightarrow> (indexing_error, bool) result" where
  "has_file_changed G fp p text =
     map_err Cache (cache_has_changed (g_hash G) (g_sled G) (fp_cache fp) (cache_key (fp_salt fp) p) text)"

definition update_file_metadata ::
  "('d, 'b) gate \<Rightarrow> 'd file_processor \<Rightarrow> path \<Rightarrow> string \<Rightarrow> (indexing_error, unit) result \<times> 'd file_processor" where
  "update_file_metadata G fp p text =
     (case fs_metadata (g_fs G) p of
        Inl e \<Rightarrow> (Inl (Io e), fp)
      | Inr md \<Rightarrow>
          (case md_modified md of
             Inl e \<Rightarrow> (Inl (Io e), fp)
           | Inr t \<Rightarrow>
               (case as_secs t of
                  Inl e \<Rightarrow> (Inl (Cache e), fp)
                | Inr secs \<Rightarrow>
                    (case cache_set (g_sled G) (fp_cache fp) (cache_key (fp_salt fp) p)
                            (FileMetadata_from_content (g_hash G) (g_now G) text secs (md_len md)) of
                       (r, db) \<Rightarrow> (map_err Cache r, fp\<lparr>fp_cache := db\<rparr>)))))"

definition check_secrets :: "('d, 'b) gate \<Rightarrow> 'd file_processor \<Rightarrow> string \<Rightarrow> (indexing_error, unit) result" where
  "check_secrets G fp text =
     (if should_exclude G (fp_scanner fp) text then Inl (Parser OUTCOME_CONTAINS_SECRETS) else Inr ())"

definition cached_paths :: "('d, 'b) gate \<Rightarrow> 'd file_processor \<Rightarrow> (indexing_error, string set) result" where
  "cached_paths G fp =
     and_then (map_err Cache (cache_list_files (g_sled G) (fp_cache fp))) (\<lambda>ks. Inr (paths_for_salt ks (fp_salt fp)))"

definition forget_file ::
  "('d, 'b) gate \<Rightarrow> 'd file_processor \<Rightarrow> path \<Rightarrow> (indexing_error, unit) result \<times> 'd file_processor" where
  "forget_file G fp p =
     (case cache_remove (g_sled G) (fp_cache fp) (cache_key (fp_salt fp) p) of
        (r, db) \<Rightarrow> (map_err Cache r, fp\<lparr>fp_cache := db\<rparr>))"

definition clear_metadata_cache ::
  "('d, 'b) gate \<Rightarrow> 'd file_processor \<Rightarrow> (indexing_error, unit) result \<times> 'd file_processor" where
  "clear_metadata_cache G fp =
     (case cache_clear (g_sled G) (fp_cache fp) of (r, db) \<Rightarrow> (map_err Cache r, fp\<lparr>fp_cache := db\<rparr>))"

subsection \<open>Processing one file\<close>

record processed_file =
  pf_path :: path
  pf_content :: string
  pf_chunks :: "code_chunk list"

text \<open>Parsing and chunking, after every check has passed; the last number is the next free id.\<close>

definition parse_and_chunk ::
  "('d, 'b) gate \<Rightarrow> chunk_split_config \<Rightarrow> path \<Rightarrow> string \<Rightarrow> nat \<Rightarrow>
   ((indexing_error, processed_file) result \<times> nat) option" where
  "parse_and_chunk G cfg p text n =
     (case g_parse G text of
        Inl e \<Rightarrow> Some (Inl (Parser e), n)
      | Inr pr \<Rightarrow>
          (case chunk_file (g_ids G) n p text pr of
             None \<Rightarrow> None
           | Some (chunks0, n1) \<Rightarrow>
               (case split_oversized_chunks (g_ids G) (g_tokens G) cfg chunks0 n1 of
                  (chunks, n2) \<Rightarrow>
                    Some (if chunks = [] then Inl (Parser OUTCOME_NO_CHUNKS)
                          else Inr \<lparr>pf_path = p, pf_content = text, pf_chunks = chunks\<rparr>, n2))))"

definition process_file_sync ::
  "('d, 'b) gate \<Rightarrow> chunk_split_config \<Rightarrow> 'd file_processor \<Rightarrow> path \<Rightarrow> nat \<Rightarrow>
   ((indexing_error, processed_file) result \<times> nat) option" where
  "process_file_sync G cfg fp p n =
     (case should_process_file G fp p of
        Inl e \<Rightarrow> Some (Inl e, n)
      | Inr False \<Rightarrow> Some (Inl (Parser OUTCOME_SECURITY_FILTERED), n)
      | Inr True \<Rightarrow>
     (case has_stat_changed G fp p of
        Inl e \<Rightarrow> Some (Inl e, n)
      | Inr False \<Rightarrow> Some (Inl (Parser OUTCOME_FILE_UNCHANGED), n)
      | Inr True \<Rightarrow>
     (case fs_read_to_string (g_fs G) p of
        Inl e \<Rightarrow> Some (Inl (Io e), n)
      | Inr text \<Rightarrow>
     (case check_secrets G fp text of
        Inl e \<Rightarrow> Some (Inl e, n)
      | Inr _ \<Rightarrow>
     (case has_file_changed G fp p text of
        Inl e \<Rightarrow> Some (Inl e, n)
      | Inr False \<Rightarrow> Some (Inl (Parser OUTCOME_FILE_UNCHANGED), n)
      | Inr True \<Rightarrow> parse_and_chunk G cfg p text n)))))"

subsection \<open>Lemmas\<close>

lemma map_err_Inr [simp]: "map_err f r = Inr a \<longleftrightarrow> r = Inr a"
  by (cases r) (simp_all add: map_err_def)

lemma map_err_simps [simp]: "map_err f (Inr a) = Inr a" "map_err f (Inl e) = Inl (f e)"
  by (simp_all add: map_err_def)

lemma strip_prefix_mem: "s \<in> set (List.map_filter (strip_prefix pre) ks) \<longleftrightarrow> pre @ s \<in> set ks"
  by (induction ks) (auto simp: map_filter_simps strip_prefix_def prefix_def)

lemma scan_empty_iff:
  "scan G patterns text = [] \<longleftrightarrow>
     (\<forall>(name, pattern) \<in> set patterns. \<forall>line \<in> set (str_lines text). \<not> g_regex_matches G pattern line)"
proof -
  have "(\<forall>line \<in> set ls. \<not> P line) \<longleftrightarrow> (\<forall>i \<in> {0..<length ls}. \<not> P (ls ! i))" for P and ls :: "string list"
    by (auto simp: all_set_conv_all_nth)
  then show ?thesis by (simp add: scan_def filter_empty_conv case_prod_beta)
qed

lemma parse_and_chunk_Inr:
  assumes "parse_and_chunk G cfg p text n = Some (Inr f, n')"
  shows "pf_path f = p \<and> pf_content f = text \<and> pf_chunks f \<noteq> [] \<and> (\<forall>c \<in> set (pf_chunks f). file_path (ctx c) = p)"
proof -
  obtain pr chunks0 n1 where pr: "g_parse G text = Inr pr" "chunk_file (g_ids G) n p text pr = Some (chunks0, n1)"
    and f: "fst (split_oversized_chunks (g_ids G) (g_tokens G) cfg chunks0 n1) \<noteq> []"
      "f = \<lparr>pf_path = p, pf_content = text, pf_chunks = fst (split_oversized_chunks (g_ids G) (g_tokens G) cfg chunks0 n1)\<rparr>"
    using assms by (auto simp: parse_and_chunk_def split: sum.splits option.splits prod.splits if_splits)
  have "file_path (ctx c) = p" if "c \<in> set (pf_chunks f)" for c
    using that split_oversized_paths[of c "g_ids G" "g_tokens G" cfg chunks0 n1]
      chunk_symbols_paths[OF pr(2)[unfolded chunk_file_def]] f(2) by auto
  then show ?thesis using f by simp
qed

lemma process_file_sync_Inr:
  assumes "process_file_sync G cfg fp p n = Some (Inr f, n')"
  shows "should_process_file G fp p = Inr True \<and> has_stat_changed G fp p = Inr True \<and>
         fs_read_to_string (g_fs G) p = Inr (pf_content f) \<and> \<not> should_exclude G (fp_scanner fp) (pf_content f) \<and>
         has_file_changed G fp p (pf_content f) = Inr True \<and>
         parse_and_chunk G cfg p (pf_content f) n = Some (Inr f, n')"
  using assms parse_and_chunk_Inr[of G cfg p _ n f n']
  by (auto simp: process_file_sync_def check_secrets_def split: sum.splits bool.splits if_splits)

lemma process_file_sync_unchanged:
  assumes "should_process_file G fp p = Inr True" and "has_stat_changed G fp p = Inr False"
  shows "process_file_sync G cfg fp p n = Some (Inl (Parser OUTCOME_FILE_UNCHANGED), n)"
  using assms by (simp add: process_file_sync_def)

lemma update_file_metadata_keeps [simp]:
  "fp_filter (snd (update_file_metadata G fp p text)) = fp_filter fp"
  "fp_scanner (snd (update_file_metadata G fp p text)) = fp_scanner fp"
  "fp_max_file_size (snd (update_file_metadata G fp p text)) = fp_max_file_size fp"
  "fp_salt (snd (update_file_metadata G fp p text)) = fp_salt fp"
  by (simp_all add: update_file_metadata_def split: sum.split prod.split)

lemma update_file_metadata_Inr:
  assumes "update_file_metadata G fp p text = (Inr (), fp')"
  obtains md t secs db where "fs_metadata (g_fs G) p = Inr md" "md_modified md = Inr t" "as_secs t = Inr secs"
    "cache_set (g_sled G) (fp_cache fp) (cache_key (fp_salt fp) p)
       (FileMetadata_from_content (g_hash G) (g_now G) text secs (md_len md)) = (Inr (), db)"
    "fp' = fp\<lparr>fp_cache := db\<rparr>"
  using assms by (auto simp: update_file_metadata_def split: sum.splits prod.splits)

text \<open>The entry the cache holds for a path, given the meaning of its database.\<close>

abbreviation fp_entry ::
  "('d, 'b) gate \<Rightarrow> ('d \<Rightarrow> string \<rightharpoonup> 'b) \<Rightarrow> 'd file_processor \<Rightarrow> path \<Rightarrow> file_metadata option" where
  "fp_entry G kv fp p \<equiv> sled_store.entry (g_sled G) kv (fp_cache fp) (cache_key (fp_salt fp) p)"

lemma update_file_metadata_entry:
  assumes "sled_store (g_sled G) kv" and "update_file_metadata G fp p text = (Inr (), fp')"
    and "fs_metadata (g_fs G) p = Inr md" and "md_modified md = Inr t" and "as_secs t = Inr secs"
  shows "fp_entry G kv fp' p = Some (FileMetadata_from_content (g_hash G) (g_now G) text secs (md_len md))"
proof -
  obtain db where "cache_set (g_sled G) (fp_cache fp) (cache_key (fp_salt fp) p)
      (FileMetadata_from_content (g_hash G) (g_now G) text secs (md_len md)) = (Inr (), db)"
    and "fp' = fp\<lparr>fp_cache := db\<rparr>"
    using assms(2-5) by (auto simp: update_file_metadata_def split: prod.splits)
  then show ?thesis using sled_store.cache_set_entry[OF assms(1)] by simp
qed

lemma has_stat_changed_Inr:
  assumes "sled_store (g_sled G) kv" and "has_stat_changed G fp p = Inr b"
    and "FileStat_from_path (g_fs G) p = Inr st"
  shows "b = (case fp_entry G kv fp p of
                Some m \<Rightarrow> fm_last_modified m \<noteq> st_last_modified st \<or> fm_size m \<noteq> st_size st
              | None \<Rightarrow> True)"
  using assms(2,3) sled_store.has_stat_changed_entry[OF assms(1)]
  by (auto simp: has_stat_changed_def and_then_Inr)

lemma recorded_stat_unchanged:
  assumes "sled_store (g_sled G) kv" and "update_file_metadata G fp p text = (Inr (), fp')"
    and "is_ok (has_stat_changed G fp' p)"
  shows "has_stat_changed G fp' p = Inr False"
proof -
  obtain md t secs where md: "fs_metadata (g_fs G) p = Inr md" "md_modified md = Inr t" "as_secs t = Inr secs"
    by (rule update_file_metadata_Inr[OF assms(2)])
  then have stat: "FileStat_from_path (g_fs G) p = Inr \<lparr>st_last_modified = secs, st_size = md_len md\<rparr>"
    by (simp add: FileStat_from_path_def)
  obtain b where b: "has_stat_changed G fp' p = Inr b" using assms(3) by (auto simp: is_ok_def split: sum.splits)
  show ?thesis
    using has_stat_changed_Inr[OF assms(1) b stat] update_file_metadata_entry[OF assms(1,2) md] b
    by (simp add: FileMetadata_from_content_def)
qed

subsection \<open>Properties\<close>

text \<open>Only clean files are turned into chunks. When a file is processed, no exclusion pattern matched
  its path, it is not larger than the limit, no line of the text that was chunked matched a secret
  pattern, the text is the text of the file, there is at least one chunk and every chunk names the file.\<close>

theorem processed_file_is_clean:
  assumes "process_file_sync G cfg fp p n = Some (Inr f, n')"
  shows "should_index G (fp_filter fp) p \<and>
         (\<exists>md. fs_metadata (g_fs G) p = Inr md \<and> md_len md \<le> fp_max_file_size fp) \<and>
         (\<forall>(name, pattern) \<in> set (fp_scanner fp). \<forall>line \<in> set (str_lines (pf_content f)).
            \<not> g_regex_matches G pattern line) \<and>
         fs_read_to_string (g_fs G) p = Inr (pf_content f) \<and>
         pf_path f = p \<and> pf_chunks f \<noteq> [] \<and> (\<forall>c \<in> set (pf_chunks f). file_path (ctx c) = p)"
proof -
  note run = process_file_sync_Inr[OF assms]
  then have "should_index G (fp_filter fp) p" "\<exists>md. fs_metadata (g_fs G) p = Inr md \<and> md_len md \<le> fp_max_file_size fp"
    by (auto simp: should_process_file_def split: if_splits sum.splits)
  with run show ?thesis
    using parse_and_chunk_Inr[of G cfg p "pf_content f" n f n'] by (simp add: should_exclude_def scan_empty_iff)
qed

text \<open>A file recorded in the metadata cache is not processed again while it stays as it is: once its
  metadata has been written, processing it answers ``unchanged'' without reading it, whatever chunker
  configuration and ids are in use. The database is any store that keeps what it is given.\<close>

theorem recorded_file_is_unchanged:
  assumes "sled_store (g_sled G) kv" and "update_file_metadata G fp p text = (Inr (), fp')"
    and "should_process_file G fp p = Inr True" and "is_ok (has_stat_changed G fp' p)"
  shows "process_file_sync G cfg fp' p n = Some (Inl (Parser OUTCOME_FILE_UNCHANGED), n)"
proof (rule process_file_sync_unchanged)
  have fp': "fp' = snd (update_file_metadata G fp p text)" using assms(2) by simp
  show "should_process_file G fp' p = Inr True"
    using assms(3) unfolding fp' by (auto simp: should_process_file_def split: sum.splits if_splits)
  show "has_stat_changed G fp' p = Inr False" by (rule recorded_stat_unchanged[OF assms(1,2,4)])
qed

text \<open>A forgotten file looks new: after its entry was removed, both change checks answer ``changed''
  for it whenever they answer.\<close>

theorem forgotten_file_looks_new:
  assumes "sled_store (g_sled G) kv" and "forget_file G fp p = (Inr (), fp')"
  shows "has_stat_changed G fp' p \<noteq> Inr False \<and> has_file_changed G fp' p text \<noteq> Inr False"
proof -
  obtain db where db: "cache_remove (g_sled G) (fp_cache fp) (cache_key (fp_salt fp) p) = (Inr (), db)"
    and fp': "fp' = fp\<lparr>fp_cache := db\<rparr>"
    using assms(2) by (auto simp: forget_file_def split: prod.splits)
  have none: "fp_entry G kv fp' p = None" using sled_store.cache_remove_entry[OF assms(1) db] fp' by simp
  have "has_stat_changed G fp' p \<noteq> Inr False"
    using none sled_store.has_stat_changed_entry[OF assms(1)] by (fastforce simp: has_stat_changed_def and_then_Inr)
  moreover have "has_file_changed G fp' p text \<noteq> Inr False"
    using none sled_store.has_changed_entry[OF assms(1)] by (fastforce simp: has_file_changed_def)
  ultimately show ?thesis by blast
qed

text \<open>The cached paths of a salt are exactly the paths recorded under that salt; the entries that
  other embedding profiles keep in the same database do not leak into the answer.\<close>

theorem cached_paths_exact:
  assumes "sled_store (g_sled G) kv" and "cached_paths G fp = Inr ps" and "fp_salt fp \<noteq> []"
  shows "path_str p \<in> ps \<longleftrightarrow> cache_key (fp_salt fp) p \<in> dom (kv (fp_cache fp))"
proof -
  obtain ks where ks: "cache_list_files (g_sled G) (fp_cache fp) = Inr ks" "ps = paths_for_salt ks (fp_salt fp)"
    using assms(2) by (auto simp: cached_paths_def and_then_Inr)
  have "s \<in> ps \<longleftrightarrow> fp_salt fp @ ''::'' @ s \<in> set ks" for s
    using assms(3) unfolding ks(2) by (simp add: paths_for_salt_def strip_prefix_mem)
  then show ?thesis
    using sled_store.list_files_dom[OF assms(1) ks(1)] assms(3) by (simp add: cache_key_def)
qed

subsection \<open>A gate at work\<close>

definition demo_fs :: "(path \<times> string) list \<Rightarrow> int \<Rightarrow> filesystem" where
  "demo_fs files t =
     (let get = (\<lambda>p. case map_of files p of None \<Rightarrow> Inl ''No such file or directory (os error 2)'' | Some s \<Rightarrow> Inr s) in
      \<lparr>fs_read = get, fs_read_to_string = get,
       fs_metadata = (\<lambda>p. and_then (get p) (\<lambda>s. Inr \<lparr>md_len = length s, md_modified = Inr t\<rparr>)),
       fs_exists = (\<lambda>p. p \<in> set (keys files)),
       fs_walk = (\<lambda>base pred. map (\<lambda>p. Inr \<lparr>de_path = p, de_is_dir = False, de_is_file = True\<rparr>) (keys files))\<rparr>)"

text \<open>One symbol per file, spanning its first line; a line is a secret if it holds \<open>SECRET\<close>.\<close>

definition demo_gate :: "(path \<times> string) list \<Rightarrow> int \<Rightarrow> ((string \<times> file_metadata) list, file_metadata) gate" where
  "demo_gate files t =
     \<lparr>g_fs = demo_fs files t, g_sled = mem_sled, g_glob_compiles = (\<lambda>_. True),
      g_glob_matches = (\<lambda>pat s. pat = s), g_regex_matches = (\<lambda>_ line. contains_str line ''SECRET''),
      g_hash = id, g_now = 0,
      g_parse = (\<lambda>text. Inr \<lparr>pr_imports = [],
          pr_symbols = (if text = [] then [] else
            [\<lparr>sym_name = ''f'', sym_kind = ''function'', sym_docstring = None, sym_start_line = 1, sym_end_line = 1\<rparr>]),
          pr_callees = (\<lambda>_. [])\<rparr>),
      g_ids = id, g_tokens = (\<lambda>c. Some (length (content c)))\<rparr>"

definition demo_processor :: "(string \<times> file_metadata) list file_processor" where
  "demo_processor = \<lparr>fp_cache = [], fp_scanner = secret_patterns, fp_filter = sensitive_patterns,
                     fp_max_file_size = 100, fp_salt = ''salt''\<rparr>"

definition demo_files :: "(path \<times> string) list" where
  "demo_files = [([''src'', ''a.rs''], ''fn a() {}''), ([''src'', ''b.rs''], ''fn b() {}'')]"

definition demo_config :: chunk_split_config where
  "demo_config = ChunkSplitConfig_new 768 1024"

lemma map_sum_InrE: "map_sum f g r = Inr b \<Longrightarrow> (\<And>a. r = Inr a \<Longrightarrow> b = g a \<Longrightarrow> thesis) \<Longrightarrow> thesis"
  by (cases r) auto

lemma demo_sled: "g_sled (demo_gate files t) = mem_sled"
  by (simp add: demo_gate_def)

lemmas demo_store = mem.sled_store_axioms[folded demo_sled[of demo_files 5000000000]]

lemma demo_process:
  "map_option (\<lambda>(r, n). (map_sum id pf_content r, n))
     (process_file_sync (demo_gate demo_files 5000000000) demo_config demo_processor [''src'', ''a.rs''] 0) =
   Some (Inr ''fn a() {}'', 1)"
  by code_simp

lemma demo_update:
  "map_prod id fp_cache (update_file_metadata (demo_gate demo_files 5000000000) demo_processor [''src'', ''a.rs''] ''fn a() {}'') =
   (Inr (), [(''salt::src/a.rs'', \<lparr>fm_hash = ''fn a() {}'', fm_last_modified = 5, fm_size = 9, fm_indexed_at = 0\<rparr>)])"
  by code_simp

theorem processed_file_is_clean_witness:
  "should_index (demo_gate demo_files 5000000000) sensitive_patterns [''src'', ''a.rs'']"
proof -
  obtain f n where "process_file_sync (demo_gate demo_files 5000000000) demo_config demo_processor [''src'', ''a.rs''] 0 = Some (Inr f, n)"
    using demo_process by (auto elim!: map_sum_InrE)
  from processed_file_is_clean[OF this] show ?thesis by (simp add: demo_processor_def)
qed

theorem recorded_file_is_unchanged_witness:
  "process_file_sync (demo_gate demo_files 5000000000) demo_config
     (snd (update_file_metadata (demo_gate demo_files 5000000000) demo_processor [''src'', ''a.rs''] ''fn a() {}''))
     [''src'', ''a.rs''] 0 = Some (Inl (Parser OUTCOME_FILE_UNCHANGED), 0)"
proof (rule recorded_file_is_unchanged[OF demo_store])
  let ?u = "update_file_metadata (demo_gate demo_files 5000000000) demo_processor [''src'', ''a.rs''] ''fn a() {}''"
  have "fst ?u = Inr ()" by code_simp
  then show "?u = (Inr (), snd ?u)" by (simp add: prod_eq_iff)
  show "should_process_file (demo_gate demo_files 5000000000) demo_processor [''src'', ''a.rs''] = Inr True" by code_simp
  show "is_ok (has_stat_changed (demo_gate demo_files 5000000000) (snd ?u) [''src'', ''a.rs''])" by code_simp
qed

theorem forgotten_file_looks_new_witness:
  "has_stat_changed (demo_gate demo_files 5000000000)
     (snd (forget_file (demo_gate demo_files 5000000000) demo_processor [''src'', ''a.rs''])) [''src'', ''a.rs''] \<noteq> Inr False"
proof -
  have "fst (forget_file (demo_gate demo_files 5000000000) demo_processor [''src'', ''a.rs'']) = Inr ()" by code_simp
  then show ?thesis using forgotten_file_looks_new[OF demo_store, of demo_processor "[''src'', ''a.rs'']"]
    by (metis prod.collapse)
qed

theorem cached_paths_exact_witness:
  "path_str [''src'', ''a.rs''] \<notin> paths_for_salt [''other::src/a.rs''] ''salt''"
proof -
  let ?m = "\<lparr>fm_hash = [], fm_last_modified = 0, fm_size = 0, fm_indexed_at = 0\<rparr> :: file_metadata"
  let ?fp = "demo_processor\<lparr>fp_cache := [(''other::src/a.rs'', ?m)]\<rparr>"
  have "cached_paths (demo_gate demo_files 5000000000) ?fp = Inr (paths_for_salt [''other::src/a.rs''] ''salt'')"
    by (simp add: cached_paths_def cache_list_files_def demo_sled mem_sled_def demo_processor_def)
  from cached_paths_exact[OF demo_store this, of "[''src'', ''a.rs'']"] show ?thesis
    by (simp add: demo_processor_def cache_key_def path_str_def)
qed

end
