(* ===== verification/Vector_Store.thy ===== *)
theory Vector_Store
  imports Index_Errors Chunking Filesystem
begin

text \<open>
  The vector store (\<open>crates/rmc-engine/src/vector_store/lancedb.rs\<close>, \<open>traits.rs\<close>, \<open>mod.rs\<close>): the rows
  a chunk becomes, the filters rows are deleted and looked up by, and the identity check of a store on
  disk. The table itself is LanceDB: its operations are the record \<open>lance\<close> over an opaque state, with
  their documented behaviour in the locale \<open>lance_table\<close>; the JSON of a chunk and the text of a UUID are
  operations too. What the indexer relies on is the locale \<open>chunk_store\<close>, the contract of
  \<open>VectorStoreBackend\<close>, which the operations over any such table implement.

  A batch of rows has its columns by construction, so the errors for missing or mistyped columns do
  not occur in the model.
\<close>

subsection \<open>Errors\<close>

datatype vector_store_error =
    Connection string
  | Query string
  | Serialization string
  | NotFound string
  | VsIo string
  | Backend string
  | VersionMismatch string string

fun vector_store_error_str :: "vector_store_error \<Rightarrow> string" where
  "vector_store_error_str (Connection s) = ''Connection failed: '' @ s"
| "vector_store_error_str (Query s) = ''Query failed: '' @ s"
| "vector_store_error_str (Serialization s) = ''Serialization error: '' @ s"
| "vector_store_error_str (NotFound s) = ''Not found: '' @ s"
| "vector_store_error_str (VsIo s) = ''I/O error: '' @ s"
| "vector_store_error_str (Backend s) = ''Backend error: '' @ s"
| "vector_store_error_str (VersionMismatch stored configured) =
     ''vector store embedder mismatch: stored='' @ stored @ '', configured='' @ configured @
     ''. Run clear_cache to discard and rebuild.''"

subsection \<open>Rows and the table\<close>

record 'j row =
  row_id :: string
  row_vector :: embedding
  row_json :: 'j
  row_file_path :: string
  row_symbol_kind :: string
  row_module_path :: string

record ('t, 'j) lance =
  lt_open :: "'t \<Rightarrow> (string, unit) result"
  lt_add :: "'t \<Rightarrow> 'j row list \<Rightarrow> (string, unit) result \<times> 't"
  lt_delete :: "'t \<Rightarrow> string \<Rightarrow> (string, unit) result \<times> 't"
  lt_count :: "'t \<Rightarrow> (string, nat) result"
  lt_query :: "'t \<Rightarrow> string option \<Rightarrow> (string, (string, 'j row list) result list) result"
    \<comment> \<open>the batches of a query, filtered or not; the stream may fail at any batch\<close>
  json_of :: "code_chunk \<Rightarrow> (string, 'j) result"
  json_read :: "'j \<Rightarrow> (string, code_chunk) result"
  uuid_str :: "chunk_id \<Rightarrow> string"
  uuid_parse :: "string \<Rightarrow> (string, chunk_id) result"
  arrow_lists :: "nat \<Rightarrow> f32 list \<Rightarrow> (string, embedding list) result"
    \<comment> \<open>\<open>FixedSizeListArray::try_new\<close> on the flat values\<close>

type_synonym store_row = "chunk_id \<times> embedding \<times> code_chunk"

fun encode_jsons :: "('t, 'j) lance \<Rightarrow> store_row list \<Rightarrow> (vector_store_error, 'j list) result" where
  "encode_jsons L [] = Inr []"
| "encode_jsons L ((i, e, c) # cs) =
     (case json_of L c of
        Inl err \<Rightarrow> Inl (Serialization (''Failed to serialize chunk: '' @ err))
      | Inr j \<Rightarrow> and_then (encode_jsons L cs) (\<lambda>js. Inr (j # js)))"

definition mk_row :: "('t, 'j) lance \<Rightarrow> store_row \<Rightarrow> embedding \<Rightarrow> 'j \<Rightarrow> 'j row" where
  "mk_row L x v j =
     (case x of (i, e, c) \<Rightarrow>
        \<lparr>row_id = uuid_str L i, row_vector = v, row_json = j, row_file_path = path_str (file_path (ctx c)),
         row_symbol_kind = symbol_kind (ctx c), row_module_path = join ''::'' (module_path (ctx c))\<rparr>)"

definition chunks_to_batch ::
  "('t, 'j) lance \<Rightarrow> nat \<Rightarrow> store_row list \<Rightarrow> (vector_store_error, 'j row list) result" where
  "chunks_to_batch L vdim cs =
     and_then (encode_jsons L cs) (\<lambda>js.
       case arrow_lists L vdim (concat (map (\<lambda>(i, e, c). e) cs)) of
         Inl e \<Rightarrow> Inl (Serialization (''Failed to create vector array: '' @ e))
       | Inr vs \<Rightarrow>
           if length vs \<noteq> length cs then Inl (Backend ''Failed to create batch: column lengths differ'')
           else Inr (map (\<lambda>(x, v, j). mk_row L x v j) (zip cs (zip vs js))))"

definition get_table :: "('t, 'j) lance \<Rightarrow> 't \<Rightarrow> (vector_store_error, unit) result" where
  "get_table L t = (case lt_open L t of Inl e \<Rightarrow> Inl (NotFound (''Table not found: '' @ e)) | Inr _ \<Rightarrow> Inr ())"

definition insert_chunks ::
  "('t, 'j) lance \<Rightarrow> nat \<Rightarrow> store_row list \<Rightarrow> 't \<Rightarrow> (vector_store_error, unit) result \<times> 't" where
  "insert_chunks L vdim cs t =
     (if cs = [] then (Inr (), t)
      else case get_table L t of
             Inl e \<Rightarrow> (Inl e, t)
           | Inr _ \<Rightarrow>
               (case chunks_to_batch L vdim cs of
                  Inl e \<Rightarrow> (Inl e, t)
                | Inr batch \<Rightarrow>
                    (case lt_add L t batch of
                       (Inl e, t') \<Rightarrow> (Inl (Backend (''Failed to insert chunks: '' @ e)), t')
                     | (Inr _, t') \<Rightarrow> (Inr (), t'))))"

subsection \<open>Filters\<close>

definition quote :: char where
  "quote = CHR 0x27"

definition escape_quotes :: "string \<Rightarrow> string" where
  "escape_quotes s = concat (map (\<lambda>c. if c = quote then [quote, quote] else [c]) s)"

definition path_literal :: "string \<Rightarrow> string" where
  "path_literal p = [quote] @ escape_quotes p @ [quote]"

definition paths_filter :: "string list \<Rightarrow> string" where
  "paths_filter ps = ''file_path IN ('' @ join '', '' (map path_literal ps) @ '')''"

definition ids_filter :: "('t, 'j) lance \<Rightarrow> chunk_id list \<Rightarrow> string" where
  "ids_filter L is = ''id IN ('' @ join '', '' (map (\<lambda>i. [quote] @ uuid_str L i @ [quote]) is) @ '')''"

definition delete_chunks ::
  "('t, 'j) lance \<Rightarrow> chunk_id list \<Rightarrow> 't \<Rightarrow> (vector_store_error, unit) result \<times> 't" where
  "delete_chunks L is t =
     (if is = [] then (Inr (), t)
      else case get_table L t of
             Inl e \<Rightarrow> (Inl e, t)
           | Inr _ \<Rightarrow>
               (case lt_delete L t (ids_filter L is) of
                  (Inl e, t') \<Rightarrow> (Inl (Backend (''Failed to delete chunks: '' @ e)), t')
                | (Inr _, t') \<Rightarrow> (Inr (), t')))"

definition delete_by_file_paths ::
  "('t, 'j) lance \<Rightarrow> string list \<Rightarrow> 't \<Rightarrow> (vector_store_error, unit) result \<times> 't" where
  "delete_by_file_paths L ps t =
     (if ps = [] then (Inr (), t)
      else case get_table L t of
             Inl e \<Rightarrow> (Inl e, t)
           | Inr _ \<Rightarrow>
               (case lt_delete L t (paths_filter ps) of
                  (Inl e, t') \<Rightarrow> (Inl (Backend (''Failed to delete by path: '' @ e)), t')
                | (Inr _, t') \<Rightarrow> (Inr (), t')))"

definition store_clear :: "('t, 'j) lance \<Rightarrow> 't \<Rightarrow> (vector_store_error, unit) result \<times> 't" where
  "store_clear L t =
     (case get_table L t of
        Inl e \<Rightarrow> (Inl e, t)
      | Inr _ \<Rightarrow>
          (case lt_delete L t ''1=1'' of
             (Inl e, t') \<Rightarrow> (Inl (Backend (''Failed to clear table: '' @ e)), t')
           | (Inr _, t') \<Rightarrow> (Inr (), t')))"

subsection \<open>Reading\<close>

definition store_count :: "('t, 'j) lance \<Rightarrow> 't \<Rightarrow> (vector_store_error, nat) result" where
  "store_count L t =
     and_then (get_table L t) (\<lambda>_.
       case lt_count L t of Inl e \<Rightarrow> Inl (Query (''Failed to count rows: '' @ e)) | Inr n \<Rightarrow> Inr n)"

fun decode_chunk_rows :: "('t, 'j) lance \<Rightarrow> 'j row list \<Rightarrow> (vector_store_error, (chunk_id \<times> code_chunk) list) result" where
  "decode_chunk_rows L [] = Inr []"
| "decode_chunk_rows L (r # rs) =
     (case uuid_parse L (row_id r) of
        Inl e \<Rightarrow> Inl (Serialization (''Invalid chunk ID: '' @ e))
      | Inr i \<Rightarrow>
          (case json_read L (row_json r) of
             Inl e \<Rightarrow> Inl (Serialization (''Failed to deserialize chunk: '' @ e))
           | Inr c \<Rightarrow>
               if chunk_id c \<noteq> i
               then Inl (Serialization (''row '' @ row_id r @ '' holds the chunk of '' @ uuid_str L (chunk_id c)))
               else and_then (decode_chunk_rows L rs) (\<lambda>xs. Inr ((i, c) # xs))))"

text \<open>\<open>try_collect\<close>: all batches, or the first error of the stream.\<close>

fun try_collect :: "(string, 'a) result list \<Rightarrow> (string, 'a list) result" where
  "try_collect [] = Inr []"
| "try_collect (Inl e # bs) = Inl e"
| "try_collect (Inr b # bs) = and_then (try_collect bs) (\<lambda>xs. Inr (b # xs))"

definition store_query :: "('t, 'j) lance \<Rightarrow> 't \<Rightarrow> string option \<Rightarrow> string \<Rightarrow> string \<Rightarrow> (vector_store_error, 'j row list list) result" where
  "store_query L t flt start_msg collect_msg =
     (case lt_query L t flt of
        Inl e \<Rightarrow> Inl (Query (start_msg @ e))
      | Inr stream \<Rightarrow>
          (case try_collect stream of Inl e \<Rightarrow> Inl (Query (collect_msg @ e)) | Inr bs \<Rightarrow> Inr bs))"

fun decode_batches :: "('t, 'j) lance \<Rightarrow> 'j row list list \<Rightarrow> (vector_store_error, (chunk_id \<times> code_chunk) list) result" where
  "decode_batches L [] = Inr []"
| "decode_batches L (b # bs) =
     and_then (decode_chunk_rows L b) (\<lambda>xs. and_then (decode_batches L bs) (\<lambda>ys. Inr (xs @ ys)))"

text \<open>The result is the map the rows are collected into, a later row replacing an earlier one.\<close>

definition chunks_by_ids ::
  "('t, 'j) lance \<Rightarrow> chunk_id list \<Rightarrow> 't \<Rightarrow> (vector_store_error, chunk_id \<rightharpoonup> code_chunk) result" where
  "chunks_by_ids L is t =
     (if is = [] then Inr Map.empty
      else
        and_then (get_table L t) (\<lambda>_.
        and_then (store_query L t (Some (ids_filter L is)) ''Failed to look up chunks: '' ''Failed to collect chunk lookup: '')
          (\<lambda>bs. and_then (decode_batches L bs) (\<lambda>xs. Inr (map_of (rev xs))))))"

definition indexed_file_paths :: "('t, 'j) lance \<Rightarrow> 't \<Rightarrow> (vector_store_error, string set) result" where
  "indexed_file_paths L t =
     and_then (get_table L t) (\<lambda>_.
     and_then (store_query L t None ''Failed to scan file_path column: '' ''Failed to collect file_path batches: '')
       (\<lambda>bs. Inr (row_file_path ` set (concat bs))))"

text \<open>
  \<open>scan_chunks\<close> hands each batch to the sink as it arrives; the state \<open>s\<close> is the sink's. An error of the
  sink is passed on unchanged.
\<close>

fun scan_loop :: "('t, 'j) lance \<Rightarrow> ('s \<Rightarrow> code_chunk list \<Rightarrow> (anyhow, unit) result \<times> 's) \<Rightarrow>
    (string, 'j row list) result list \<Rightarrow> nat \<Rightarrow> 's \<Rightarrow> (anyhow, nat) result \<times> 's" where
  "scan_loop L sink [] n s = (Inr n, s)"
| "scan_loop L sink (Inl e # bs) n s =
     (Inl [vector_store_error_str (Query (''Failed to read chunk batch: '' @ e))], s)"
| "scan_loop L sink (Inr b # bs) n s =
     (case decode_chunk_rows L b of
        Inl e \<Rightarrow> (Inl [vector_store_error_str e], s)
      | Inr xs \<Rightarrow>
          (case sink s (map snd xs) of
             (Inl e, s') \<Rightarrow> (Inl e, s')
           | (Inr _, s') \<Rightarrow> scan_loop L sink bs (n + length xs) s'))"

definition scan_chunks ::
  "('t, 'j) lance \<Rightarrow> ('s \<Rightarrow> code_chunk list \<Rightarrow> (anyhow, unit) result \<times> 's) \<Rightarrow> 't \<Rightarrow> 's \<Rightarrow> (anyhow, nat) result \<times> 's" where
  "scan_chunks L sink t s =
     (case get_table L t of
        Inl e \<Rightarrow> (Inl [vector_store_error_str e], s)
      | Inr _ \<Rightarrow>
          (case lt_query L t None of
             Inl e \<Rightarrow> (Inl [vector_store_error_str (Query (''Failed to scan chunks: '' @ e))], s)
           | Inr stream \<Rightarrow> scan_loop L sink stream 0 s))"

subsection \<open>Identity of a store on disk\<close>

record store_metadata =
  embedder_version :: string
  created_at :: string

text \<open>
  What \<open>new\<close> and \<open>open_existing\<close> see of the disk: whether the directory, the metadata file and the table
  exist, and what the file holds. \<open>None\<close> for the file's content is a file that does not parse.
\<close>

record store_disk =
  sd_dir :: bool
  sd_metadata :: "store_metadata option option"
  sd_table :: bool

definition read_metadata :: "store_disk \<Rightarrow> (vector_store_error, store_metadata option) result" where
  "read_metadata d =
     (case sd_metadata d of
        None \<Rightarrow> Inr None
      | Some None \<Rightarrow> Inl (Serialization ''failed to parse vector store metadata'')
      | Some (Some m) \<Rightarrow> Inr (Some m))"

text \<open>\<open>wr\<close> is the outcome of serialising and writing the file, \<open>prepared\<close> that of creating the directory,
  connecting and making sure the table exists.\<close>

definition write_metadata_if_missing ::
  "(vector_store_error, unit) result \<Rightarrow> string \<Rightarrow> string \<Rightarrow> store_disk \<Rightarrow> (vector_store_error, unit) result \<times> store_disk" where
  "write_metadata_if_missing wr now identity d =
     (case sd_metadata d of
        Some _ \<Rightarrow> (Inr (), d)
      | None \<Rightarrow>
          (case wr of
             Inl e \<Rightarrow> (Inl e, d)
           | Inr _ \<Rightarrow> (Inr (), d\<lparr>sd_metadata := Some (Some \<lparr>embedder_version = identity, created_at = ''unix:'' @ now\<rparr>)\<rparr>)))"

definition LanceDbBackend_new ::
  "(vector_store_error, unit) result \<Rightarrow> (vector_store_error, unit) result \<Rightarrow> string \<Rightarrow> string \<Rightarrow> store_disk \<Rightarrow>
   (vector_store_error, unit) result \<times> store_disk" where
  "LanceDbBackend_new prepared wr now identity d =
     (case prepared of
        Inl e \<Rightarrow> (Inl e, d)
      | Inr _ \<Rightarrow>
          (let d1 = d\<lparr>sd_dir := True, sd_table := True\<rparr> in
           case read_metadata d1 of
             Inl e \<Rightarrow> (Inl e, d1)
           | Inr (Some m) \<Rightarrow>
               if embedder_version m \<noteq> identity then (Inl (VersionMismatch (embedder_version m) identity), d1)
               else (Inr (), d1)
           | Inr None \<Rightarrow> write_metadata_if_missing wr now identity d1))"

definition LanceDbBackend_open_existing :: "string \<Rightarrow> store_disk \<Rightarrow> (vector_store_error, unit) result" where
  "LanceDbBackend_open_existing identity d =
     (if \<not> sd_dir d then Inl (NotFound ''vector store directory does not exist'')
      else
        case read_metadata d of
          Inl e \<Rightarrow> Inl e
        | Inr None \<Rightarrow> Inl (NotFound ''vector store metadata does not exist'')
        | Inr (Some m) \<Rightarrow>
            if embedder_version m \<noteq> identity then Inl (VersionMismatch (embedder_version m) identity)
            else if \<not> sd_table d then Inl (NotFound ''vector table does not exist'')
            else Inr ())"

text \<open>The casts to \<open>u32\<close> keep the low 32 bits.\<close>

definition ann_sub_vectors :: "nat \<Rightarrow> nat option" where
  "ann_sub_vectors vdim = (if vdim mod 8 = 0 then Some (vdim div 8 mod 2 ^ 32) else None)"

definition div_ceil :: "nat \<Rightarrow> nat \<Rightarrow> nat" where
  "div_ceil a b = (a + b - 1) div b"

definition refine_factor :: "nat \<Rightarrow> nat \<Rightarrow> nat" where
  "refine_factor budget limit = max (div_ceil budget (max limit 1)) 1 mod 2 ^ 32"

subsection \<open>SQL literals\<close>

text \<open>
  How the query engine reads \<open>column IN ('a', 'b')\<close>: a literal ends at a quote that is not doubled, and a
  doubled quote is one quote.
\<close>

fun lit_body :: "string \<Rightarrow> string \<Rightarrow> (string \<times> string) option" where
  "lit_body [] acc = None"
| "lit_body [c] acc = (if c = quote then Some (acc, []) else None)"
| "lit_body (c # d # cs) acc =
     (if c = quote then (if d = quote then lit_body cs (acc @ [quote]) else Some (acc, d # cs))
      else lit_body (d # cs) (acc @ [c]))"

lemma lit_body_shorter: "lit_body s acc = Some (v, rest) \<Longrightarrow> length rest < length s"
  by (induction s acc rule: lit_body.induct) (auto split: if_splits)

function sql_literals :: "string \<Rightarrow> string list option" where
  "sql_literals [] = None"
| "sql_literals (c # cs) =
     (if c \<noteq> quote then None
      else case lit_body cs [] of
             None \<Rightarrow> None
           | Some (v, rest) \<Rightarrow>
               if rest = '')'' then Some [v]
               else if take 2 rest = '', '' then map_option (Cons v) (sql_literals (drop 2 rest))
               else None)"
  by pat_completeness auto
termination
  by (relation "measure length") (auto dest: lit_body_shorter)

definition sql_in_list :: "string \<Rightarrow> (string \<times> string list) option" where
  "sql_in_list flt =
     (let col = takeWhile (\<lambda>c. c \<noteq> CHR '' '') flt; rest = drop (length col) flt in
      if take 5 rest = '' IN ('' then map_option (Pair col) (sql_literals (drop 5 rest)) else None)"

lemma escape_simps [simp]:
  "escape_quotes [] = []"
  "escape_quotes (c # cs) = (if c = quote then [quote, quote] else [c]) @ escape_quotes cs"
  by (simp_all add: escape_quotes_def)

lemma lit_body_escape:
  assumes "rest = [] \<or> hd rest \<noteq> quote"
  shows "lit_body (escape_quotes s @ quote # rest) acc = Some (acc @ s, rest)"
proof (induction s arbitrary: acc)
  case Nil
  then show ?case using assms by (cases rest) auto
next
  case (Cons c s)
  show ?case
  proof (cases "c = quote")
    case True
    then show ?thesis using Cons.IH[of "acc @ [quote]"] by simp
  next
    case False
    obtain d ds where d: "escape_quotes s @ quote # rest = d # ds" by (cases "escape_quotes s") auto
    then show ?thesis using Cons.IH[of "acc @ [c]"] False by simp
  qed
qed

lemma sql_literals_join: "ps \<noteq> [] \<Longrightarrow> sql_literals (join '', '' (map path_literal ps) @ '')'') = Some ps"
proof (induction ps)
  case (Cons p ps)
  show ?case
  proof (cases ps)
    case Nil
    have "lit_body (escape_quotes p @ quote # '')'') [] = Some ([] @ p, '')'')"
      by (rule lit_body_escape) (simp add: quote_def)
    then show ?thesis using Nil by (simp add: path_literal_def)
  next
    case (Cons q qs)
    define J where "J = join '', '' (map path_literal (q # qs)) @ '')''"
    have eq: "join '', '' (map path_literal (p # ps)) @ '')'' = quote # escape_quotes p @ quote # '', '' @ J"
      by (simp add: J_def Cons path_literal_def)
    have body: "lit_body (escape_quotes p @ quote # '', '' @ J) [] = Some ([] @ p, '', '' @ J)"
      by (rule lit_body_escape) (simp add: quote_def)
    have "sql_literals J = Some (q # qs)" using Cons.IH Cons by (simp add: J_def)
    then show ?thesis unfolding eq sql_literals.simps(2) body using Cons by simp
  qed
qed simp

lemma sql_in_list_paths: "ps \<noteq> [] \<Longrightarrow> sql_in_list (paths_filter ps) = Some (''file_path'', ps)"
  using sql_literals_join[of ps] by (simp add: sql_in_list_def paths_filter_def)

lemma escape_no_quote: "quote \<notin> set s \<Longrightarrow> escape_quotes s = s"
  by (induction s) auto

lemma sql_in_list_ids:
  assumes "is \<noteq> []" and "\<And>i. quote \<notin> set (uuid_str L i)"
  shows "sql_in_list (ids_filter L is) = Some (''id'', map (uuid_str L) is)"
proof -
  have "map (\<lambda>i. [quote] @ uuid_str L i @ [quote]) is = map path_literal (map (uuid_str L) is)"
    using assms(2) by (simp add: path_literal_def escape_no_quote)
  then have "ids_filter L is = ''id IN ('' @ join '', '' (map path_literal (map (uuid_str L) is)) @ '')''"
    unfolding ids_filter_def by (simp only:)
  then show ?thesis using sql_literals_join[of "map (uuid_str L) is"] assms(1)
    by (simp add: sql_in_list_def del: map_map)
qed

subsection \<open>The table and the contract of a store\<close>

definition column :: "string \<Rightarrow> 'j row \<Rightarrow> string" where
  "column col r = (if col = ''id'' then row_id r else row_file_path r)"

text \<open>The documented behaviour of the table, of the JSON and UUID encodings and of the Arrow array.
  Nothing is said about the state after a failed write.\<close>

locale lance_table =
  fixes L :: "('t, 'j) lance" and vdim :: nat and rows :: "'t \<Rightarrow> 'j row multiset"
  assumes add_ok: "lt_add L t rs = (Inr (), t') \<Longrightarrow> rows t' = rows t + mset rs"
    and delete_in: "lt_delete L t flt = (Inr (), t') \<Longrightarrow> sql_in_list flt = Some (col, vals) \<Longrightarrow>
      col \<in> {''id'', ''file_path''} \<Longrightarrow> rows t' = filter_mset (\<lambda>r. column col r \<notin> set vals) (rows t)"
    and delete_all: "lt_delete L t ''1=1'' = (Inr (), t') \<Longrightarrow> rows t' = {#}"
    and count_ok: "lt_count L t = Inr n \<Longrightarrow> n = size (rows t)"
    and query_all: "lt_query L t None = Inr bs \<Longrightarrow> try_collect bs = Inr xs \<Longrightarrow> mset (concat xs) = rows t"
    and query_in: "lt_query L t (Some flt) = Inr bs \<Longrightarrow> sql_in_list flt = Some (col, vals) \<Longrightarrow>
      col \<in> {''id'', ''file_path''} \<Longrightarrow> try_collect bs = Inr xs \<Longrightarrow>
      mset (concat xs) = filter_mset (\<lambda>r. column col r \<in> set vals) (rows t)"
    and json_roundtrip: "json_of L c = Inr j \<Longrightarrow> json_read L j = Inr c"
    and uuid_roundtrip: "uuid_parse L (uuid_str L i) = Inr i"
    and uuid_plain: "quote \<notin> set (uuid_str L i)"
    and arrow_ok: "arrow_lists L vdim flat = Inr vs \<Longrightarrow> vdim dvd length flat \<Longrightarrow>
      concat vs = flat \<and> (\<forall>v \<in> set vs. length v = vdim)"
    and vdim_pos: "0 < vdim"
begin

definition row_ok :: "'j row \<Rightarrow> bool" where
  "row_ok r \<longleftrightarrow> (\<exists>v c j. r = mk_row L (chunk_id c, v, c) v j \<and> json_of L c = Inr j)"

definition row_entry :: "'j row \<Rightarrow> store_row" where
  "row_entry r = (projr (uuid_parse L (row_id r)), row_vector r, projr (json_read L (row_json r)))"

definition inv :: "'t \<Rightarrow> bool" where
  "inv t \<longleftrightarrow> (\<forall>r \<in># rows t. row_ok r)"

definition view :: "'t \<Rightarrow> store_row multiset" where
  "view t = image_mset row_entry (rows t)"

lemma row_entry_mk: "json_of L c = Inr j \<Longrightarrow> row_entry (mk_row L (i, e, c) v j) = (i, v, c)"
  by (simp add: row_entry_def mk_row_def uuid_roundtrip json_roundtrip)

lemma row_ok_entry: "row_ok r \<Longrightarrow> row_file_path r = path_str (file_path (ctx (snd (snd (row_entry r)))))"
  by (auto simp: row_ok_def row_entry_mk) (simp add: mk_row_def)

lemma encode_jsons_Inr:
  "encode_jsons L cs = Inr js \<Longrightarrow> list_all2 (\<lambda>(i, e, c) j. json_of L c = Inr j) cs js"
  by (induction L cs arbitrary: js rule: encode_jsons.induct) (auto simp: and_then_Inr split: sum.splits)

lemma equal_parts:
  assumes "concat vs = concat es" and "\<forall>v \<in> set vs. length v = vdim" and "\<forall>e \<in> set es. length e = vdim"
  shows "vs = es"
  using assms
proof (induction vs arbitrary: es)
  case Nil
  then show ?case using vdim_pos by (cases es) auto
next
  case (Cons v vs)
  then show ?case using vdim_pos by (cases es) auto
qed

lemma chunks_to_batch_Inr:
  assumes "chunks_to_batch L vdim cs = Inr batch" and "\<forall>(i, e, c) \<in> set cs. chunk_id c = i \<and> length e = vdim"
  shows "map row_entry batch = cs \<and> (\<forall>r \<in> set batch. row_ok r)"
proof -
  let ?es = "map (\<lambda>(i, e, c). e) cs"
  obtain js vs where js: "encode_jsons L cs = Inr js" and vs: "arrow_lists L vdim (concat ?es) = Inr vs"
    and len: "length vs = length cs" and batch: "batch = map (\<lambda>(x, v, j). mk_row L x v j) (zip cs (zip vs js))"
    using assms(1) by (cases "arrow_lists L vdim (concat ?es)")
      (auto simp: chunks_to_batch_def and_then_Inr split: if_splits)
  have dims: "\<forall>e \<in> set ?es. length e = vdim" using assms(2) by auto
  then have "length (concat ?es) = length ?es * vdim" by (induction cs) auto
  then have "vs = ?es" using arrow_ok[OF vs] dims by (intro equal_parts) auto
  have json: "list_all2 (\<lambda>(i, e, c) j. json_of L c = Inr j) cs js" using encode_jsons_Inr[OF js] .
  have rows: "batch ! k = mk_row L (cs ! k) (fst (snd (cs ! k))) (js ! k)" if "k < length cs" for k
    using that batch \<open>vs = ?es\<close> list_all2_lengthD[OF json] by (simp add: case_prod_beta)
  have lb: "length batch = length cs" using batch len list_all2_lengthD[OF json] by simp
  have each: "row_entry (batch ! k) = cs ! k \<and> row_ok (batch ! k)" if k: "k < length cs" for k
  proof -
    obtain i e c where x: "cs ! k = (i, e, c)" by (cases "cs ! k")
    have "chunk_id c = i" using assms(2) nth_mem[OF k] x by auto
    moreover have "json_of L c = Inr (js ! k)" using list_all2_nthD[OF json k] x by simp
    ultimately show ?thesis using rows[OF k] x row_entry_mk[of c "js ! k" i e e] by (auto simp: row_ok_def)
  qed
  show ?thesis using each lb by (auto simp: in_set_conv_nth intro: nth_equalityI)
qed

end

text \<open>The contract of \<open>VectorStoreBackend\<close>, as far as the indexer uses it.\<close>

locale chunk_store =
  fixes ins :: "store_row list \<Rightarrow> 't \<Rightarrow> (vector_store_error, unit) result \<times> 't"
    and del :: "string list \<Rightarrow> 't \<Rightarrow> (vector_store_error, unit) result \<times> 't"
    and wipe :: "'t \<Rightarrow> (vector_store_error, unit) result \<times> 't"
    and cnt :: "'t \<Rightarrow> (vector_store_error, nat) result"
    and pths :: "'t \<Rightarrow> (vector_store_error, string set) result"
    and width :: nat and wf :: "'t \<Rightarrow> bool" and contents :: "'t \<Rightarrow> store_row multiset"
  assumes ins_contents: "wf t \<Longrightarrow> ins cs t = (Inr (), t') \<Longrightarrow> \<forall>(i, e, c) \<in> set cs. chunk_id c = i \<and> length e = width \<Longrightarrow>
      wf t' \<and> contents t' = contents t + mset cs"
    and del_contents: "wf t \<Longrightarrow> del ps t = (Inr (), t') \<Longrightarrow>
      wf t' \<and> contents t' = filter_mset (\<lambda>(i, e, c). path_str (file_path (ctx c)) \<notin> set ps) (contents t)"
    and wipe_contents: "wipe t = (Inr (), t') \<Longrightarrow> wf t' \<and> contents t' = {#}"
    and cnt_contents: "cnt t = Inr n \<Longrightarrow> n = size (contents t)"
    and pths_contents: "wf t \<Longrightarrow> pths t = Inr Q \<Longrightarrow> Q = (\<lambda>(i, e, c). path_str (file_path (ctx c))) ` set_mset (contents t)"

sublocale lance_table \<subseteq> store: chunk_store "insert_chunks L vdim" "delete_by_file_paths L" "store_clear L"
  "store_count L" "indexed_file_paths L" vdim inv view
proof unfold_locales
  fix t cs t'
  assume wf: "inv t" and ins: "insert_chunks L vdim cs t = (Inr (), t')"
    and cs: "\<forall>(i, e, c) \<in> set cs. chunk_id c = i \<and> length e = vdim"
  show "inv t' \<and> view t' = view t + mset cs"
  proof (cases "cs = []")
    case True
    then show ?thesis using wf ins by (simp add: insert_chunks_def)
  next
    case False
    then obtain batch where batch: "chunks_to_batch L vdim cs = Inr batch" "lt_add L t batch = (Inr (), t')"
      using ins by (auto simp: insert_chunks_def split: sum.splits prod.splits)
    have "image_mset row_entry (mset batch) = mset cs"
      using chunks_to_batch_Inr[OF batch(1) cs] by (metis mset_map)
    then show ?thesis using add_ok[OF batch(2)] chunks_to_batch_Inr[OF batch(1) cs] wf
      by (auto simp: inv_def view_def)
  qed
next
  fix t ps t'
  assume wf: "inv t" and del: "delete_by_file_paths L ps t = (Inr (), t')"
  show "inv t' \<and> view t' = filter_mset (\<lambda>(i, e, c). path_str (file_path (ctx c)) \<notin> set ps) (view t)"
  proof (cases "ps = []")
    case True
    then show ?thesis using wf del by (simp add: delete_by_file_paths_def case_prod_unfold)
  next
    case False
    then have "lt_delete L t (paths_filter ps) = (Inr (), t')"
      using del by (auto simp: delete_by_file_paths_def split: sum.splits prod.splits)
    from delete_in[OF this sql_in_list_paths[OF False]]
    have rows: "rows t' = filter_mset (\<lambda>r. row_file_path r \<notin> set ps) (rows t)" by (simp add: column_def)
    have "filter_mset (\<lambda>r. row_file_path r \<notin> set ps) (rows t) =
        filter_mset (\<lambda>r. path_str (file_path (ctx (snd (snd (row_entry r))))) \<notin> set ps) (rows t)"
      by (rule filter_mset_cong) (use wf in \<open>auto simp: inv_def row_ok_entry\<close>)
    then show ?thesis using wf rows
      by (auto simp: inv_def view_def filter_mset_image_mset case_prod_beta)
  qed
next
  fix t t'
  assume "store_clear L t = (Inr (), t')"
  then have "lt_delete L t ''1=1'' = (Inr (), t')" by (auto simp: store_clear_def split: sum.splits prod.splits)
  from delete_all[OF this] show "inv t' \<and> view t' = {#}" by (simp add: inv_def view_def)
next
  fix t n
  assume "store_count L t = Inr n"
  then show "n = size (view t)" by (auto simp: store_count_def and_then_Inr view_def dest: count_ok split: sum.splits)
next
  fix t ps
  assume wf: "inv t" and "indexed_file_paths L t = Inr ps"
  then obtain bs xs where "lt_query L t None = Inr bs" "try_collect bs = Inr xs" "ps = row_file_path ` set (concat xs)"
    by (auto simp: indexed_file_paths_def store_query_def and_then_Inr split: sum.splits)
  then have "ps = row_file_path ` set_mset (rows t)" using query_all by (metis set_mset_mset)
  also have "\<dots> = (\<lambda>(i, e, c). path_str (file_path (ctx c))) ` set_mset (view t)"
    using wf by (force simp: inv_def view_def row_ok_entry case_prod_beta)
  finally show "ps = (\<lambda>(i, e, c). path_str (file_path (ctx c))) ` set_mset (view t)" .
qed

context lance_table
begin

lemmas insert_view = store.ins_contents
lemmas delete_view = store.del_contents
lemmas clear_view = store.wipe_contents
lemmas count_view = store.cnt_contents
lemmas paths_view = store.pths_contents

lemma decode_rows_ok:
  "\<forall>r \<in> set rs. row_ok r \<Longrightarrow> decode_chunk_rows L rs = Inr (map (\<lambda>r. (fst (row_entry r), snd (snd (row_entry r)))) rs)"
proof (induction rs)
  case (Cons r rs)
  then obtain v c j where r: "r = mk_row L (chunk_id c, v, c) v j" "json_of L c = Inr j" by (auto simp: row_ok_def)
  then have "uuid_parse L (row_id r) = Inr (chunk_id c)" "json_read L (row_json r) = Inr c"
    by (simp_all add: mk_row_def uuid_roundtrip json_roundtrip)
  then show ?case using Cons r row_entry_mk[OF r(2), of "chunk_id c" v v] by simp
qed simp

lemma decode_batches_ok:
  "\<forall>r \<in> set (concat bs). row_ok r \<Longrightarrow>
   decode_batches L bs = Inr (map (\<lambda>r. (fst (row_entry r), snd (snd (row_entry r)))) (concat bs))"
  by (induction bs) (simp_all add: decode_rows_ok)

lemma row_ok_id: "row_ok r \<Longrightarrow> row_id r = uuid_str L (fst (row_entry r)) \<and> fst (row_entry r) = chunk_id (snd (snd (row_entry r)))"
  by (auto simp: row_ok_def row_entry_mk) (simp add: mk_row_def)

lemma uuid_inj: "uuid_str L i = uuid_str L j \<Longrightarrow> i = j"
  by (metis uuid_roundtrip sum.inject(2))

lemma chunks_by_ids_view:
  assumes "inv t" and "chunks_by_ids L is t = Inr m" and "m i = Some c"
  shows "i \<in> set is \<and> (\<exists>e. (i, e, c) \<in># view t) \<and> chunk_id c = i"
proof -
  have ne: "is \<noteq> []" using assms(2,3) by (auto simp: chunks_by_ids_def)
  then obtain bs xs where q: "lt_query L t (Some (ids_filter L is)) = Inr bs" "try_collect bs = Inr xs"
    and m: "and_then (decode_batches L xs) (\<lambda>xs. Inr (map_of (rev xs))) = Inr m"
    using assms(2) by (auto simp: chunks_by_ids_def store_query_def and_then_Inr split: sum.splits)
  have rows: "mset (concat xs) = filter_mset (\<lambda>r. row_id r \<in> uuid_str L ` set is) (rows t)"
    using query_in[OF q(1) sql_in_list_ids[OF ne uuid_plain] _ q(2)] by (simp add: column_def)
  have sub: "\<forall>r \<in> set (concat xs). r \<in># rows t \<and> row_id r \<in> uuid_str L ` set is"
    using arg_cong[OF rows, of set_mset] by auto
  then have ok: "\<forall>r \<in> set (concat xs). row_ok r" using assms(1) by (auto simp: inv_def)
  from m assms(3) have "map_of (rev (map (\<lambda>r. (fst (row_entry r), snd (snd (row_entry r)))) (concat xs))) i = Some c"
    using decode_batches_ok[OF ok] by simp
  from map_of_SomeD[OF this] obtain r where r: "r \<in> set (concat xs)" "i = fst (row_entry r)" "c = snd (snd (row_entry r))"
    by auto
  then have "row_entry r = (i, row_vector r, c)" by (simp add: row_entry_def)
  moreover have "row_id r = uuid_str L i" "i = chunk_id c" using row_ok_id ok r by auto
  moreover have "r \<in># rows t" "row_id r \<in> uuid_str L ` set is" using r(1) sub by blast+
  moreover have "row_entry r \<in># view t" using \<open>r \<in># rows t\<close> by (simp add: view_def)
  ultimately show ?thesis using uuid_inj by auto
qed

lemma chunks_by_ids_finds:
  assumes "inv t" and "chunks_by_ids L is t = Inr m" and "i \<in> set is" and "(i, e, c) \<in># view t"
  shows "m i \<noteq> None"
proof -
  have ne: "is \<noteq> []" using assms(3) by auto
  then obtain bs xs where q: "lt_query L t (Some (ids_filter L is)) = Inr bs" "try_collect bs = Inr xs"
    and m: "and_then (decode_batches L xs) (\<lambda>xs. Inr (map_of (rev xs))) = Inr m"
    using assms(2) by (auto simp: chunks_by_ids_def store_query_def and_then_Inr split: sum.splits)
  have rows: "mset (concat xs) = filter_mset (\<lambda>r. row_id r \<in> uuid_str L ` set is) (rows t)"
    using query_in[OF q(1) sql_in_list_ids[OF ne uuid_plain] _ q(2)] by (simp add: column_def)
  have ok: "\<forall>r \<in> set (concat xs). row_ok r" using assms(1) arg_cong[OF rows, of set_mset] by (auto simp: inv_def)
  obtain r where r: "r \<in># rows t" "row_entry r = (i, e, c)" using assms(4) by (auto simp: view_def)
  then have "row_id r = uuid_str L i" using row_ok_id assms(1) by (fastforce simp: inv_def)
  then have "r \<in> set (concat xs)" using r(1) assms(3) arg_cong[OF rows, of set_mset] by auto
  then have "i \<in> (\<lambda>r. fst (row_entry r)) ` set (concat xs)" using r(2) by force
  then have "map_of (rev (map (\<lambda>r. (fst (row_entry r), snd (snd (row_entry r)))) (concat xs))) i \<noteq> None"
    by (auto simp: map_of_eq_None_iff image_iff)
  then show ?thesis using m decode_batches_ok[OF ok] by auto
qed

end

subsection \<open>A table in memory\<close>

fun group :: "nat \<Rightarrow> nat \<Rightarrow> 'a list \<Rightarrow> 'a list list" where
  "group v 0 xs = []"
| "group v (Suc n) xs = take v xs # group v n (drop v xs)"

lemma group_concat: "length xs = n * v \<Longrightarrow> concat (group v n xs) = xs \<and> (\<forall>g \<in> set (group v n xs). length g = v)"
  by (induction v n xs rule: group.induct) auto

definition mem_lance :: "(code_chunk row list, code_chunk) lance" where
  "mem_lance =
     \<lparr>lt_open = (\<lambda>t. Inr ()), lt_add = (\<lambda>t rs. (Inr (), t @ rs)),
      lt_delete = (\<lambda>t flt. if flt = ''1=1'' then (Inr (), [])
                           else case sql_in_list flt of
                                  None \<Rightarrow> (Inl ''parse error'', t)
                                | Some (col, vals) \<Rightarrow> (Inr (), filter (\<lambda>r. column col r \<notin> set vals) t)),
      lt_count = (\<lambda>t. Inr (length t)),
      lt_query = (\<lambda>t flt. case flt of
                     None \<Rightarrow> Inr [Inr t]
                   | Some f \<Rightarrow> (case sql_in_list f of
                                 None \<Rightarrow> Inl ''parse error''
                               | Some (col, vals) \<Rightarrow> Inr [Inr (filter (\<lambda>r. column col r \<in> set vals) t)])),
      json_of = Inr, json_read = Inr, uuid_str = (\<lambda>i. replicate i (CHR ''a'')), uuid_parse = (\<lambda>s. Inr (length s)),
      arrow_lists = (\<lambda>v xs. Inr (group v (length xs div v) xs))\<rparr>"

lemma mem_lance_simps:
  "lt_add mem_lance t rs = (Inr (), t @ rs)"
  "lt_delete mem_lance t ''1=1'' = (Inr (), [])"
  "lt_count mem_lance t = Inr (length t)"
  "lt_query mem_lance t None = Inr [Inr t]"
  "sql_in_list flt = Some (col, vals) \<Longrightarrow>
     lt_query mem_lance t (Some flt) = Inr [Inr (filter (\<lambda>r. column col r \<in> set vals) t)]"
  "json_of mem_lance c = Inr c" "json_read mem_lance c = Inr c"
  "uuid_str mem_lance i = replicate i (CHR ''a'')" "uuid_parse mem_lance s = Inr (length s)"
  "arrow_lists mem_lance v xs = Inr (group v (length xs div v) xs)"
  by (simp_all add: mem_lance_def)

lemma mem_lance_delete:
  assumes "sql_in_list flt = Some (col, vals)"
  shows "lt_delete mem_lance t flt = (Inr (), filter (\<lambda>r. column col r \<notin> set vals) t)"
proof -
  have "sql_in_list ''1=1'' = None" by code_simp
  then have "flt \<noteq> ''1=1''" using assms by auto
  then show ?thesis by (simp add: mem_lance_def assms)
qed

interpretation mem_table: lance_table mem_lance 1 mset
proof unfold_locales
  fix t flt t' col vals
  assume "lt_delete mem_lance t flt = (Inr (), t')" "sql_in_list flt = Some (col, vals)"
  then show "mset t' = filter_mset (\<lambda>r. column col r \<notin> set vals) (mset t)"
    by (auto simp: mem_lance_delete)
next
  fix xs vs assume "arrow_lists mem_lance 1 xs = Inr vs"
  then have vs: "vs = group 1 (length xs) xs" unfolding mem_lance_simps by simp
  show "concat vs = xs \<and> (\<forall>v \<in> set vs. length v = 1)"
    unfolding vs by (rule group_concat) simp
next
  fix t bs xs assume "lt_query mem_lance t None = Inr bs" "try_collect bs = Inr xs"
  then show "mset (concat xs) = mset t" by (auto simp: mem_lance_simps)
next
  fix t flt bs col vals xs
  assume "lt_query mem_lance t (Some flt) = Inr bs" "sql_in_list flt = Some (col, vals)" "try_collect bs = Inr xs"
  then show "mset (concat xs) = filter_mset (\<lambda>r. column col r \<in> set vals) (mset t)"
    by (auto simp: mem_lance_simps)
qed (simp_all add: mem_lance_simps quote_def)

subsection \<open>Properties\<close>

text \<open>The filter that deletes the rows of files names exactly those files: read back as the query engine
  reads a list of SQL literals, it is the list of paths it was built from, whatever characters (quotes,
  commas, parentheses) the paths contain.\<close>

theorem paths_filter_roundtrip:
  assumes "ps \<noteq> []"
  shows "sql_in_list (paths_filter ps) = Some (''file_path'', ps)"
  by (rule sql_in_list_paths[OF assms])

theorem paths_filter_roundtrip_witness:
  "sql_in_list (paths_filter [[CHR ''a'', quote, CHR '',''], ''b'']) = Some (''file_path'', [[CHR ''a'', quote, CHR '',''], ''b''])"
  by (rule paths_filter_roundtrip) simp

text \<open>C14: The operations of the store over any table refine a multiset of (id, vector, chunk): inserting adds
  exactly the given rows, deleting by path removes exactly the rows of those files, clearing removes all,
  counting and listing the paths report what is there. A table with the documented behaviour implements
  the contract the indexer relies on.\<close>

theorem vector_store_refines_contract:
  assumes "lance_table L vdim rows"
  shows "chunk_store (insert_chunks L vdim) (delete_by_file_paths L) (store_clear L) (store_count L)
           (indexed_file_paths L) vdim (lance_table.inv L rows) (lance_table.view L rows)"
proof (unfold_locales, goal_cases)
  case 1 then show ?case by (rule lance_table.insert_view[OF assms])
next
  case 2 then show ?case by (rule lance_table.delete_view[OF assms])
next
  case 3 then show ?case by (rule lance_table.clear_view[OF assms])
next
  case 4 then show ?case by (rule lance_table.count_view[OF assms])
next
  case 5 then show ?case by (rule lance_table.paths_view[OF assms])
qed

theorem vector_store_refines_contract_witness:
  "chunk_store (insert_chunks mem_lance 1) (delete_by_file_paths mem_lance) (store_clear mem_lance)
     (store_count mem_lance) (indexed_file_paths mem_lance) 1 mem_table.inv mem_table.view"
  by (rule vector_store_refines_contract[OF mem_table.lance_table_axioms])

text \<open>A lookup by ids answers only with asked-for ids, each with the chunk the store holds under it and
  whose own id it is.\<close>

theorem chunks_by_ids_sound:
  assumes "lance_table L vdim rows" and "lance_table.inv L rows t"
    and "chunks_by_ids L is t = Inr m" and "m i = Some c"
  shows "i \<in> set is \<and> (\<exists>e. (i, e, c) \<in># lance_table.view L rows t) \<and> chunk_id c = i"
  by (rule lance_table.chunks_by_ids_view[OF assms])

theorem chunks_by_ids_sound_witness:
  "\<exists>m. chunks_by_ids mem_lance [3] (snd (insert_chunks mem_lance 1 [(3, [Finite 1], demo_chunk\<lparr>chunk_id := 3\<rparr>)] [])) = Inr m \<and>
       m 3 = Some (demo_chunk\<lparr>chunk_id := 3\<rparr>) \<and> (3 :: nat) \<in> set [3]"
proof -
  let ?c = "demo_chunk\<lparr>chunk_id := 3\<rparr>"
  define t where "t = snd (insert_chunks mem_lance 1 [(3, [Finite 1], ?c)] [])"
  have ins: "insert_chunks mem_lance 1 [(3, [Finite 1], ?c)] [] = (Inr (), t)" unfolding t_def by code_simp
  have inv: "mem_table.inv t"
    using mem_table.insert_view[OF _ ins] by (simp add: mem_table.inv_def)
  have eq: "map_option (\<lambda>m. m 3) (case chunks_by_ids mem_lance [3] t of Inl _ \<Rightarrow> None | Inr m \<Rightarrow> Some m) = Some (Some ?c)"
    unfolding t_def by code_simp
  then obtain m where m: "chunks_by_ids mem_lance [3] t = Inr m" "m 3 = Some ?c" by (auto split: sum.splits)
  from chunks_by_ids_sound[OF mem_table.lance_table_axioms inv m] m show ?thesis unfolding t_def by blast
qed

text \<open>A store is never used with an embedder it was not built with. Opening an existing store succeeds
  only under the identity recorded in it; and after \<open>new\<close> succeeded, \<open>open_existing\<close> succeeds under exactly
  the same identity.\<close>

theorem store_identity_is_checked:
  assumes "LanceDbBackend_new prepared wr now identity d = (Inr (), d')"
  shows "LanceDbBackend_open_existing other d' = Inr () \<longleftrightarrow> other = identity"
  using assms
  by (auto simp: LanceDbBackend_new_def LanceDbBackend_open_existing_def read_metadata_def
      write_metadata_if_missing_def Let_def split: sum.splits option.splits if_splits)

theorem store_identity_is_checked_witness:
  "LanceDbBackend_open_existing ''bge:v2''
     (snd (LanceDbBackend_new (Inr ()) (Inr ()) ''0'' ''bge:v1'' \<lparr>sd_dir = False, sd_metadata = None, sd_table = False\<rparr>))
   \<noteq> Inr ()"
proof -
  let ?n = "LanceDbBackend_new (Inr ()) (Inr ()) ''0'' ''bge:v1'' \<lparr>sd_dir = False, sd_metadata = None, sd_table = False\<rparr>"
  have "?n = (Inr (), snd ?n)" by code_simp
  from store_identity_is_checked[OF this, of "''bge:v2''"] show ?thesis by simp
qed

text \<open>The refine factor re-ranks at least the budgeted number of candidates for every limit, as long as
  the factor fits the 32 bits it is cast to.\<close>

theorem refine_factor_covers_budget:
  assumes "budget < 2 ^ 32"
  shows "budget \<le> refine_factor budget limit * max limit 1 \<and> 1 \<le> refine_factor budget limit"
proof -
  let ?l = "max limit 1"
  have "budget \<le> div_ceil budget ?l * ?l"
  proof -
    have "(budget + ?l - 1) mod ?l < ?l" by (rule mod_less_divisor) simp
    with div_mult_mod_eq[of "budget + ?l - 1" ?l] show ?thesis unfolding div_ceil_def by linarith
  qed
  moreover have "div_ceil budget ?l \<le> max budget 1"
  proof -
    have "div_ceil budget ?l \<le> (max budget 1 * ?l + (?l - 1)) div ?l"
    proof (unfold div_ceil_def, rule div_le_mono)
      have "budget * 1 \<le> max budget 1 * ?l" by (rule mult_le_mono) simp_all
      then show "budget + ?l - 1 \<le> max budget 1 * ?l + (?l - 1)" by linarith
    qed
    also have "\<dots> = max budget 1" by (subst div_mult_self3) simp_all
    finally show ?thesis .
  qed
  ultimately have "refine_factor budget limit = max (div_ceil budget ?l) 1" using assms
    by (simp add: refine_factor_def)
  with \<open>budget \<le> div_ceil budget ?l * ?l\<close> show ?thesis
    by (metis max.cobounded1 max.cobounded2 mult_le_mono1 order.trans)
qed

theorem refine_factor_covers_budget_witness: "2000 \<le> refine_factor 2000 7 * max 7 1"
  using refine_factor_covers_budget[of 2000 7] by simp

end
