(* ===== verification/Bm25.thy ===== *)
theory Bm25
  imports Index_Errors Chunking
begin

text \<open>
  The keyword index (\<open>crates/rmc-indexing/src/indexing/tantivy_adapter.rs\<close>, the document of a chunk in
  \<open>crates/rmc-engine/src/schema.rs\<close>). Tantivy's writer is an opaque state with the operations of the record
  \<open>tantivy\<close>; their documented behaviour is the locale \<open>tantivy_index\<close>: the documents of the last commit,
  which readers see, and the pending documents, which the next commit publishes. What the indexer relies
  on is the locale \<open>keyword_index\<close>.
\<close>

subsection \<open>Documents\<close>

record bm25_doc =
  doc_chunk_id :: string
  doc_content :: string
  doc_symbol_name :: string
  doc_file_path :: string
  doc_docstring :: string

definition document :: "(chunk_id \<Rightarrow> string) \<Rightarrow> code_chunk \<Rightarrow> bm25_doc" where
  "document id_str c =
     \<lparr>doc_chunk_id = id_str (chunk_id c), doc_content = content c, doc_symbol_name = symbol_name (ctx c),
      doc_file_path = path_str (file_path (ctx c)),
      doc_docstring = (case docstring (ctx c) of None \<Rightarrow> [] | Some d \<Rightarrow> d)\<rparr>"

subsection \<open>The adapter\<close>

record 'w tantivy =
  tw_add :: "'w \<Rightarrow> bm25_doc \<Rightarrow> (string, unit) result \<times> 'w"
  tw_delete_path :: "'w \<Rightarrow> string \<Rightarrow> (string, unit) result \<times> 'w"
    \<comment> \<open>\<open>delete_query\<close> of a term of the untokenised field \<open>file_path\<close>\<close>
  tw_delete_all :: "'w \<Rightarrow> (string, unit) result \<times> 'w"
  tw_commit :: "'w \<Rightarrow> (string, unit) result \<times> 'w"
  tw_rollback :: "'w \<Rightarrow> (string, unit) result \<times> 'w"
  tw_segment_docs :: "'w \<Rightarrow> (string, nat list) result"
    \<comment> \<open>live documents of each segment of the last commit\<close>
  tw_id_str :: "chunk_id \<Rightarrow> string"

definition ctx_err :: "string \<Rightarrow> (string, 'a) result \<Rightarrow> (anyhow, 'a) result" where
  "ctx_err msg r = (case r of Inl e \<Rightarrow> Inl (with_context msg [e]) | Inr a \<Rightarrow> Inr a)"

definition index_chunk :: "'w tantivy \<Rightarrow> code_chunk \<Rightarrow> 'w \<Rightarrow> (anyhow, unit) result \<times> 'w" where
  "index_chunk W c w =
     (case tw_add W w (document (tw_id_str W) c) of
        (r, w') \<Rightarrow> (ctx_err ''Failed to add document to Tantivy'' r, w'))"

fun index_chunks :: "'w tantivy \<Rightarrow> code_chunk list \<Rightarrow> 'w \<Rightarrow> (anyhow, unit) result \<times> 'w" where
  "index_chunks W [] w = (Inr (), w)"
| "index_chunks W (c # cs) w =
     (case index_chunk W c w of
        (Inl e, w') \<Rightarrow> (Inl e, w')
      | (Inr _, w') \<Rightarrow> index_chunks W cs w')"

definition delete_file_chunks :: "'w tantivy \<Rightarrow> string \<Rightarrow> 'w \<Rightarrow> (anyhow, unit) result \<times> 'w" where
  "delete_file_chunks W p w =
     (case tw_delete_path W w p of
        (Inl e, w') \<Rightarrow> (Inl [e], w')
      | (Inr _, w') \<Rightarrow> (Inr (), w'))"

definition bm25_delete_all :: "'w tantivy \<Rightarrow> 'w \<Rightarrow> (anyhow, unit) result \<times> 'w" where
  "bm25_delete_all W w =
     (case tw_delete_all W w of (r, w') \<Rightarrow> (ctx_err ''Failed to delete all Tantivy documents'' r, w'))"

definition bm25_commit :: "'w tantivy \<Rightarrow> 'w \<Rightarrow> (anyhow, unit) result \<times> 'w" where
  "bm25_commit W w = (case tw_commit W w of (r, w') \<Rightarrow> (ctx_err ''Failed to commit Tantivy index'' r, w'))"

definition bm25_rollback :: "'w tantivy \<Rightarrow> 'w \<Rightarrow> (anyhow, unit) result \<times> 'w" where
  "bm25_rollback W w = (case tw_rollback W w of (r, w') \<Rightarrow> (ctx_err ''Failed to rollback Tantivy writer'' r, w'))"

definition committed_doc_count :: "'w tantivy \<Rightarrow> 'w \<Rightarrow> (anyhow, nat) result" where
  "committed_doc_count W w =
     (case ctx_err ''Failed to read Tantivy segment metas'' (tw_segment_docs W w) of
        Inl e \<Rightarrow> Inl e
      | Inr ns \<Rightarrow> Inr (sum_list ns))"

text \<open>\<open>exists\<close> tells whether \<open>meta.json\<close> is there, \<open>opened\<close> what opening the directory and reading its segments gives.\<close>

definition is_empty_at :: "bool \<Rightarrow> (anyhow, nat list) result \<Rightarrow> (anyhow, bool) result" where
  "is_empty_at meta_exists opened =
     (if \<not> meta_exists then Inr True
      else case opened of Inl e \<Rightarrow> Inl e | Inr ns \<Rightarrow> Inr (list_all (\<lambda>n. n = 0) ns))"

subsection \<open>Contracts\<close>

locale tantivy_index =
  fixes W :: "'w tantivy" and committed :: "'w \<Rightarrow> bm25_doc multiset" and pending :: "'w \<Rightarrow> bm25_doc multiset"
  assumes add_ok: "tw_add W w d = (Inr (), w') \<Longrightarrow> pending w' = pending w + {#d#}"
    and delete_ok: "tw_delete_path W w p = (Inr (), w') \<Longrightarrow> pending w' = filter_mset (\<lambda>d. doc_file_path d \<noteq> p) (pending w)"
    and delete_all_ok: "tw_delete_all W w = (Inr (), w') \<Longrightarrow> pending w' = {#}"
    and commit_ok: "tw_commit W w = (Inr (), w') \<Longrightarrow> committed w' = pending w \<and> pending w' = pending w"
    and rollback_ok: "tw_rollback W w = (Inr (), w') \<Longrightarrow> pending w' = committed w"
    and add_invisible: "committed (snd (tw_add W w d)) = committed w"
    and delete_invisible: "committed (snd (tw_delete_path W w p)) = committed w"
    and segments_ok: "tw_segment_docs W w = Inr ns \<Longrightarrow> sum_list ns = size (committed w)"

text \<open>What the indexer relies on, over documents: writes are pending until a commit publishes them.\<close>

locale keyword_index =
  fixes ixc :: "code_chunk list \<Rightarrow> 'w \<Rightarrow> (anyhow, unit) result \<times> 'w"
    and delp :: "string \<Rightarrow> 'w \<Rightarrow> (anyhow, unit) result \<times> 'w"
    and dela :: "'w \<Rightarrow> (anyhow, unit) result \<times> 'w"
    and comm :: "'w \<Rightarrow> (anyhow, unit) result \<times> 'w"
    and cntc :: "'w \<Rightarrow> (anyhow, nat) result"
    and doc_of :: "code_chunk \<Rightarrow> bm25_doc"
    and vis :: "'w \<Rightarrow> bm25_doc multiset" and pend :: "'w \<Rightarrow> bm25_doc multiset"
  assumes ixc_pend: "ixc cs w = (Inr (), w') \<Longrightarrow> pend w' = pend w + image_mset doc_of (mset cs)"
    and ixc_vis: "ixc cs w = (r, w') \<Longrightarrow> vis w' = vis w"
    and delp_pend: "delp p w = (Inr (), w') \<Longrightarrow> pend w' = filter_mset (\<lambda>d. doc_file_path d \<noteq> p) (pend w)"
    and delp_vis: "delp p w = (r, w') \<Longrightarrow> vis w' = vis w"
    and dela_pend: "dela w = (Inr (), w') \<Longrightarrow> pend w' = {#}"
    and comm_vis: "comm w = (Inr (), w') \<Longrightarrow> vis w' = pend w \<and> pend w' = pend w"
    and cntc_vis: "cntc w = Inr n \<Longrightarrow> n = size (vis w)"

lemma ctx_err_Inr [simp]: "ctx_err msg r = Inr a \<longleftrightarrow> r = Inr a"
  by (cases r) (simp_all add: ctx_err_def)

context tantivy_index
begin

lemma index_chunks_pending:
  "index_chunks W cs w = (Inr (), w') \<Longrightarrow> pending w' = pending w + image_mset (document (tw_id_str W)) (mset cs)"
proof (induction cs arbitrary: w)
  case (Cons c cs)
  from Cons.prems obtain w1 where w1: "tw_add W w (document (tw_id_str W) c) = (Inr (), w1)" "index_chunks W cs w1 = (Inr (), w')"
    by (auto simp: index_chunk_def split: prod.splits sum.splits)
  from Cons.IH[OF w1(2)] add_ok[OF w1(1)] show ?case by simp
qed simp

lemma index_chunks_committed: "index_chunks W cs w = (r, w') \<Longrightarrow> committed w' = committed w"
proof (induction cs arbitrary: w)
  case (Cons c cs)
  obtain r1 w1 where w1: "tw_add W w (document (tw_id_str W) c) = (r1, w1)" by force
  have "committed w1 = committed w" using add_invisible[of w "document (tw_id_str W) c"] w1 by simp
  then show ?case using Cons w1 by (auto simp: index_chunk_def split: sum.splits)
qed simp

end

sublocale tantivy_index \<subseteq> keyword: keyword_index "index_chunks W" "delete_file_chunks W" "bm25_delete_all W"
  "bm25_commit W" "committed_doc_count W" "document (tw_id_str W)" committed pending
proof unfold_locales
  fix p w r w' assume "delete_file_chunks W p w = (r, w')"
  then show "committed w' = committed w"
    using delete_invisible[of w p] by (auto simp: delete_file_chunks_def split: prod.splits sum.splits)
next
  fix w n assume "committed_doc_count W w = Inr n"
  then show "n = size (committed w)"
    by (auto simp: committed_doc_count_def dest: segments_ok split: sum.splits)
qed (auto simp: delete_file_chunks_def bm25_delete_all_def bm25_commit_def index_chunks_pending index_chunks_committed
      dest: delete_ok delete_all_ok commit_ok split: prod.splits sum.splits)

context tantivy_index
begin

lemmas index_pending = keyword.ixc_pend
lemmas index_invisible = keyword.ixc_vis
lemmas delete_pending = keyword.delp_pend
lemmas delete_not_visible = keyword.delp_vis
lemmas delete_all_pending = keyword.dela_pend
lemmas commit_publishes = keyword.comm_vis
lemmas count_committed = keyword.cntc_vis

end

subsection \<open>An index in memory\<close>

text \<open>The committed and the pending documents.\<close>

definition mem_tantivy :: "(bm25_doc list \<times> bm25_doc list) tantivy" where
  "mem_tantivy =
     \<lparr>tw_add = (\<lambda>w d. (Inr (), (fst w, snd w @ [d]))),
      tw_delete_path = (\<lambda>w p. (Inr (), (fst w, filter (\<lambda>d. doc_file_path d \<noteq> p) (snd w)))),
      tw_delete_all = (\<lambda>w. (Inr (), (fst w, []))),
      tw_commit = (\<lambda>w. (Inr (), (snd w, snd w))),
      tw_rollback = (\<lambda>w. (Inr (), (fst w, fst w))),
      tw_segment_docs = (\<lambda>w. Inr [length (fst w)]),
      tw_id_str = nat_str\<rparr>"

interpretation mem_bm25: tantivy_index mem_tantivy "\<lambda>w. mset (fst w)" "\<lambda>w. mset (snd w)"
  by unfold_locales (auto simp: mem_tantivy_def)

end
