(* ===== verification/Unified_Indexer.thy ===== *)
theory Unified_Indexer
  imports Batching File_Gate Vector_Store Bm25 "HOL-Library.Word"
begin

text \<open>
  The indexer that keeps the keyword index and the vector store together
  (\<open>crates/rmc-indexing/src/indexing/unified.rs\<close>, \<open>unified_parallel.rs\<close>, the facade of
  \<open>indexer_core.rs\<close>): preparing a file, writing prepared files to both stores and recording them,
  whole-directory runs, and the operations that drop files.

  The record \<open>engine\<close> collects what does not change during an operation: the environment of the file gate,
  the engines behind the two stores, the embedding model and the free disk space. The record \<open>indexer\<close> is
  the state of a \<open>UnifiedIndexer\<close>; \<open>ix_ids\<close> and \<open>ix_calls\<close> count the ids drawn and the model calls made.
  A panic is \<open>None\<close>; an error is a value next to the state the operation left behind. Metrics and logs
  are left out.
\<close>

subsection \<open>State and environment\<close>

record ('d, 'b, 't, 'j, 'w) engine =
  en_gate :: "('d, 'b) gate"
  en_lance :: "('t, 'j) lance"
  en_tantivy :: "'w tantivy"
  en_dim :: nat
  en_split :: chunk_split_config
  en_batcher :: "(indexing_error, embedding_batcher) result"  \<comment> \<open>built on first use\<close>
  en_raw :: raw_embedder
  en_min_free :: "64 word"                \<comment> \<open>\<open>configured_min_index_free_mb\<close>\<close>
  en_free :: "path \<Rightarrow> (string, 64 word) result"  \<comment> \<open>\<open>fs2::available_space\<close>\<close>
  en_root :: path
  en_memory :: nat
  en_cpus :: nat

record ('d, 't, 'w) indexer =
  ix_fp :: "'d file_processor"
  ix_store :: 't
  ix_bm25 :: 'w
  ix_ids :: nat
  ix_calls :: nat

record prepared_file =
  pp_path :: path
  pp_content :: string
  pp_chunks :: "code_chunk list"
  pp_embeddings :: "embedding list"

datatype preparation = Ready prepared_file | PrepUnchanged | PrepSkipped

datatype index_file_result = Indexed nat | Unchanged | Skipped

subsection \<open>Disk headroom\<close>

definition saturating_mul :: "'a::len word \<Rightarrow> 'a word \<Rightarrow> 'a word" where
  "saturating_mul a b = (if unat a * unat b < 2 ^ LENGTH('a) then a * b else - 1)"

definition has_disk_headroom :: "64 word \<Rightarrow> 64 word \<Rightarrow> bool" where
  "has_disk_headroom available minimum_mb =
     (minimum_mb = 0 \<or> saturating_mul minimum_mb (1024 * 1024) \<le> available)"

text \<open>The loop goes up to the parent until a path exists; the empty path has no parent.\<close>

fun nearest_rev :: "filesystem \<Rightarrow> string list \<Rightarrow> string list" where
  "nearest_rev fs [] = []"
| "nearest_rev fs (c # up) = (if fs_exists fs (rev (c # up)) then c # up else nearest_rev fs up)"

definition nearest_existing_path :: "filesystem \<Rightarrow> path \<Rightarrow> path" where
  "nearest_existing_path fs p = rev (nearest_rev fs (rev p))"

definition ensure_index_disk_headroom :: "('d, 'b, 't, 'j, 'w) engine \<Rightarrow> path \<Rightarrow> (anyhow, unit) result" where
  "ensure_index_disk_headroom E p =
     (if en_min_free E = 0 then Inr ()
      else
        let probe = nearest_existing_path (g_fs (en_gate E)) p in
        case en_free E probe of
          Inl e \<Rightarrow> Inl (with_context (''Failed to read free space at '' @ path_str probe) [e])
        | Inr available \<Rightarrow>
            if \<not> has_disk_headroom available (en_min_free E)
            then Inl [''index write refused: '' @ nat_str (unat available div (1024 * 1024)) @ '' MiB free at '' @
                      path_str probe @ '', below RMC_MIN_INDEX_FREE_MB='' @ nat_str (unat (en_min_free E)) @
                      '' MiB; free disk space or set the threshold to 0 to disable'']
            else Inr ())"

subsection \<open>Preparing a file\<close>

definition core_generate_embeddings ::
  "('d, 'b, 't, 'j, 'w) engine \<Rightarrow> code_chunk list \<Rightarrow> nat \<Rightarrow> ((indexing_error, embedding list) result \<times> nat) option" where
  "core_generate_embeddings E chunks k =
     (case en_batcher E of
        Inl e \<Rightarrow> Some (Inl e, k)
      | Inr b \<Rightarrow> generate_embeddings_batched b (embed_documents (en_raw E) (batcher_runtime b)) chunks k)"

definition embed_processed ::
  "('d, 'b, 't, 'j, 'w) engine \<Rightarrow> processed_file \<Rightarrow> ('d, 't, 'w) indexer \<Rightarrow>
   ((anyhow, preparation) result \<times> ('d, 't, 'w) indexer) option" where
  "embed_processed E f st =
     (case (if pf_chunks f = [] then Some (Inr [], ix_calls st)
            else core_generate_embeddings E (pf_chunks f) (ix_calls st)) of
        None \<Rightarrow> None
      | Some (Inl e, k) \<Rightarrow> Some (Inl (to_anyhow e), st\<lparr>ix_calls := k\<rparr>)
      | Some (Inr es, k) \<Rightarrow>
          Some (Inr (Ready \<lparr>pp_path = pf_path f, pp_content = pf_content f, pp_chunks = pf_chunks f,
                            pp_embeddings = es\<rparr>), st\<lparr>ix_calls := k\<rparr>))"

definition process_and_embed ::
  "('d, 'b, 't, 'j, 'w) engine \<Rightarrow> path \<Rightarrow> ('d, 't, 'w) indexer \<Rightarrow>
   ((anyhow, preparation) result \<times> ('d, 't, 'w) indexer) option" where
  "process_and_embed E p st =
     (case process_file_sync (en_gate E) (en_split E) (ix_fp st) p (ix_ids st) of
        None \<Rightarrow> None
      | Some (Inl e, n) \<Rightarrow> Some (Inl (to_anyhow e), st\<lparr>ix_ids := n\<rparr>)
      | Some (Inr f, n) \<Rightarrow> embed_processed E f (st\<lparr>ix_ids := n\<rparr>))"

definition prepare_file ::
  "('d, 'b, 't, 'j, 'w) engine \<Rightarrow> path \<Rightarrow> bool \<Rightarrow> ('d, 't, 'w) indexer \<Rightarrow>
   ((anyhow, preparation) result \<times> ('d, 't, 'w) indexer) option" where
  "prepare_file E p consult st =
     (case ensure_index_disk_headroom E (en_root E) of
        Inl e \<Rightarrow> Some (Inl e, st)
      | Inr _ \<Rightarrow>
     (case should_process_file (en_gate E) (ix_fp st) p of
        Inl e \<Rightarrow> Some (Inl (to_anyhow e), st)
      | Inr False \<Rightarrow> Some (Inr PrepSkipped, st)
      | Inr True \<Rightarrow>
     (case (if consult then has_stat_changed (en_gate E) (ix_fp st) p else Inr True) of
        Inl e \<Rightarrow> Some (Inl (to_anyhow e), st)
      | Inr False \<Rightarrow> Some (Inr PrepUnchanged, st)
      | Inr True \<Rightarrow>
     (case fs_read_to_string (g_fs (en_gate E)) p of
        Inl e \<Rightarrow> Some (Inl (with_context (''Failed to read file: '' @ path_str p) [e]), st)
      | Inr text \<Rightarrow>
     (case (if consult then has_file_changed (en_gate E) (ix_fp st) p text else Inr True) of
        Inl e \<Rightarrow> Some (Inl (to_anyhow e), st)
      | Inr False \<Rightarrow> Some (Inr PrepUnchanged, st)
      | Inr True \<Rightarrow> process_and_embed E p st)))))"

subsection \<open>Writing to both stores\<close>

fun bm25_delete_paths :: "'w tantivy \<Rightarrow> string list \<Rightarrow> 'w \<Rightarrow> (anyhow, unit) result \<times> 'w" where
  "bm25_delete_paths W [] w = (Inr (), w)"
| "bm25_delete_paths W (p # ps) w =
     (case delete_file_chunks W p w of
        (Inl e, w') \<Rightarrow> (Inl e, w')
      | (Inr _, w') \<Rightarrow> bm25_delete_paths W ps w')"

text \<open>The paths are given as the strings both stores key files by.\<close>

definition delete_files_chunks ::
  "('d, 'b, 't, 'j, 'w) engine \<Rightarrow> string list \<Rightarrow> ('d, 't, 'w) indexer \<Rightarrow> (anyhow, unit) result \<times> ('d, 't, 'w) indexer" where
  "delete_files_chunks E ps st =
     (case bm25_delete_paths (en_tantivy E) ps (ix_bm25 st) of
        (Inl e, w) \<Rightarrow> (Inl e, st\<lparr>ix_bm25 := w\<rparr>)
      | (Inr _, w) \<Rightarrow>
          (case delete_by_file_paths (en_lance E) ps (ix_store st) of
             (Inl e, t) \<Rightarrow>
               (Inl [''Failed to delete chunks from vector store: '' @ vector_store_error_str e],
                st\<lparr>ix_bm25 := w, ix_store := t\<rparr>)
           | (Inr _, t) \<Rightarrow> (Inr (), st\<lparr>ix_bm25 := w, ix_store := t\<rparr>)))"

definition file_rows :: "prepared_file \<Rightarrow> store_row list" where
  "file_rows f = map (\<lambda>(c, e). (chunk_id c, e, c)) (zip (pp_chunks f) (pp_embeddings f))"

text \<open>The loop over the files: the assertion on their embeddings, the keyword index, and the rows collected.\<close>

fun index_prepared ::
  "'w tantivy \<Rightarrow> prepared_file list \<Rightarrow> store_row list \<Rightarrow> 'w \<Rightarrow> ((anyhow, store_row list) result \<times> 'w) option" where
  "index_prepared W [] rows w = Some (Inr rows, w)"
| "index_prepared W (f # fs) rows w =
     (if length (pp_chunks f) \<noteq> length (pp_embeddings f) then None
      else case index_chunks W (pp_chunks f) w of
             (Inl e, w') \<Rightarrow> Some (Inl e, w')
           | (Inr _, w') \<Rightarrow> index_prepared W fs (rows @ file_rows f) w')"

fun record_files ::
  "('d, 'b) gate \<Rightarrow> prepared_file list \<Rightarrow> 'd file_processor \<Rightarrow> (anyhow, unit) result \<times> 'd file_processor" where
  "record_files G [] fp = (Inr (), fp)"
| "record_files G (f # fs) fp =
     (if pp_chunks f = [] then record_files G fs fp
      else case update_file_metadata G fp (pp_path f) (pp_content f) of
             (Inl e, fp') \<Rightarrow> (Inl (to_anyhow e), fp')
           | (Inr _, fp') \<Rightarrow> record_files G fs fp')"

definition write_files ::
  "('d, 'b, 't, 'j, 'w) engine \<Rightarrow> prepared_file list \<Rightarrow> path list \<Rightarrow> ('d, 't, 'w) indexer \<Rightarrow>
   ((anyhow, unit) result \<times> ('d, 't, 'w) indexer) option" where
  "write_files E files removed st =
     (if files = [] \<and> removed = [] then Some (Inr (), st)
      else
        case delete_files_chunks E (map path_str removed @ map (path_str \<circ> pp_path) files) st of
          (Inl e, st1) \<Rightarrow> Some (Inl e, st1)
        | (Inr _, st1) \<Rightarrow>
            (case index_prepared (en_tantivy E) files [] (ix_bm25 st1) of
               None \<Rightarrow> None
             | Some (Inl e, w) \<Rightarrow> Some (Inl e, st1\<lparr>ix_bm25 := w\<rparr>)
             | Some (Inr rows, w) \<Rightarrow>
                 (case insert_chunks (en_lance E) (en_dim E) rows (ix_store st1) of
                    (Inl e, t) \<Rightarrow>
                      Some (Inl [''Failed to index chunks to vector store: '' @ vector_store_error_str e],
                            st1\<lparr>ix_bm25 := w, ix_store := t\<rparr>)
                  | (Inr _, t) \<Rightarrow>
                      (case record_files (en_gate E) files (ix_fp st1) of
                         (r, fp) \<Rightarrow> Some (r, st1\<lparr>ix_bm25 := w, ix_store := t, ix_fp := fp\<rparr>)))))"

subsection \<open>Indexing files and directories\<close>

definition index_file_impl ::
  "('d, 'b, 't, 'j, 'w) engine \<Rightarrow> path \<Rightarrow> bool \<Rightarrow> ('d, 't, 'w) indexer \<Rightarrow>
   ((anyhow, index_file_result) result \<times> ('d, 't, 'w) indexer) option" where
  "index_file_impl E p consult st =
     (case prepare_file E p consult st of
        None \<Rightarrow> None
      | Some (Inl e, st1) \<Rightarrow> Some (Inl e, st1)
      | Some (Inr PrepUnchanged, st1) \<Rightarrow> Some (Inr Unchanged, st1)
      | Some (Inr PrepSkipped, st1) \<Rightarrow> Some (Inr Skipped, st1)
      | Some (Inr (Ready f), st1) \<Rightarrow>
          (case write_files E [f] [] st1 of
             None \<Rightarrow> None
           | Some (Inl e, st2) \<Rightarrow> Some (Inl e, st2)
           | Some (Inr _, st2) \<Rightarrow>
               Some (Inr (if pp_chunks f = [] then Skipped else Indexed (length (pp_chunks f))), st2)))"

definition index_file ::
  "('d, 'b, 't, 'j, 'w) engine \<Rightarrow> path \<Rightarrow> ('d, 't, 'w) indexer \<Rightarrow>
   ((anyhow, index_file_result) result \<times> ('d, 't, 'w) indexer) option" where
  "index_file E p st = index_file_impl E p True st"

definition reindex_file ::
  "('d, 'b, 't, 'j, 'w) engine \<Rightarrow> path \<Rightarrow> ('d, 't, 'w) indexer \<Rightarrow>
   ((anyhow, index_file_result) result \<times> ('d, 't, 'w) indexer) option" where
  "reindex_file E p st = index_file_impl E p False st"

definition count_file_result :: "index_stats \<Rightarrow> path \<Rightarrow> (anyhow, index_file_result) result \<Rightarrow> index_stats" where
  "count_file_result stats p r =
     (case r of
        Inr (Indexed n) \<Rightarrow> stats\<lparr>indexed_files := indexed_files stats + 1, total_chunks := total_chunks stats + n\<rparr>
      | Inr Unchanged \<Rightarrow> stats\<lparr>unchanged_files := unchanged_files stats + 1\<rparr>
      | Inr Skipped \<Rightarrow> stats\<lparr>skipped_files := skipped_files stats + 1\<rparr>
      | Inl e \<Rightarrow> record_error stats p e)"

fun index_files ::
  "('d, 'b, 't, 'j, 'w) engine \<Rightarrow> path list \<Rightarrow> index_stats \<Rightarrow> ('d, 't, 'w) indexer \<Rightarrow>
   (index_stats \<times> ('d, 't, 'w) indexer) option" where
  "index_files E [] stats st = Some (stats, st)"
| "index_files E (p # ps) stats st =
     (case index_file E p st of
        None \<Rightarrow> None
      | Some (r, st1) \<Rightarrow> index_files E ps (count_file_result stats p r) st1)"

definition collect_rust_files :: "filesystem \<Rightarrow> path \<Rightarrow> index_stats \<Rightarrow> (path list \<times> nat) \<times> index_stats" where
  "collect_rust_files fs dir stats =
     (case collect_project_rust_files fs dir of
        (files, errs) \<Rightarrow> ((files, errs), stats\<lparr>total_files := length files\<rparr>))"

definition commit_bm25 ::
  "('d, 'b, 't, 'j, 'w) engine \<Rightarrow> ('d, 't, 'w) indexer \<Rightarrow> (anyhow, unit) result \<times> ('d, 't, 'w) indexer" where
  "commit_bm25 E st = (case bm25_commit (en_tantivy E) (ix_bm25 st) of (r, w) \<Rightarrow> (r, st\<lparr>ix_bm25 := w\<rparr>))"

text \<open>\<open>cache_key\<close> of a path that is given as its string.\<close>

definition forget_path ::
  "('d, 'b) gate \<Rightarrow> string \<Rightarrow> 'd file_processor \<Rightarrow> (anyhow, unit) result \<times> 'd file_processor" where
  "forget_path G s fp =
     (case forget_file G fp [s] of (Inl e, fp') \<Rightarrow> (Inl (to_anyhow e), fp') | (Inr _, fp') \<Rightarrow> (Inr (), fp'))"

fun forget_paths ::
  "('d, 'b) gate \<Rightarrow> string list \<Rightarrow> 'd file_processor \<Rightarrow> (anyhow, unit) result \<times> 'd file_processor" where
  "forget_paths G [] fp = (Inr (), fp)"
| "forget_paths G (s # ss) fp =
     (case forget_path G s fp of
        (Inl e, fp') \<Rightarrow> (Inl e, fp')
      | (Inr _, fp') \<Rightarrow> forget_paths G ss fp')"

text \<open>The set is iterated in some order and then sorted.\<close>

definition drop_files_outside ::
  "('d, 'b, 't, 'j, 'w) engine \<Rightarrow> path list \<Rightarrow> ('d, 't, 'w) indexer \<Rightarrow>
   (anyhow, string list) result \<times> ('d, 't, 'w) indexer" where
  "drop_files_outside E tree st =
     (case indexed_file_paths (en_lance E) (ix_store st) of
        Inl e \<Rightarrow> (Inl [''Failed to list indexed files: '' @ vector_store_error_str e], st)
      | Inr indexed \<Rightarrow>
          (let gone = sorted_list_of_set (indexed - path_str ` set tree) in
           if gone = [] then (Inr [], st)
           else
             case delete_files_chunks E gone st of
               (Inl e, st1) \<Rightarrow> (Inl e, st1)
             | (Inr _, st1) \<Rightarrow>
                 (case commit_bm25 E st1 of
                    (Inl e, st2) \<Rightarrow> (Inl e, st2)
                  | (Inr _, st2) \<Rightarrow>
                      (case forget_paths (en_gate E) gone (ix_fp st2) of
                         (Inl e, fp) \<Rightarrow> (Inl e, st2\<lparr>ix_fp := fp\<rparr>)
                       | (Inr _, fp) \<Rightarrow> (Inr gone, st2\<lparr>ix_fp := fp\<rparr>)))))"

definition drop_files_outside_walk ::
  "('d, 'b, 't, 'j, 'w) engine \<Rightarrow> path list \<Rightarrow> nat \<Rightarrow> ('d, 't, 'w) indexer \<Rightarrow>
   (anyhow, nat) result \<times> ('d, 't, 'w) indexer" where
  "drop_files_outside_walk E walked_files walk_errors st =
     (if 0 < walk_errors then (Inr 0, st)
      else case drop_files_outside E walked_files st of
             (Inl e, st1) \<Rightarrow> (Inl e, st1)
           | (Inr gone, st1) \<Rightarrow> (Inr (length gone), st1))"

definition finish_directory ::
  "('d, 'b, 't, 'j, 'w) engine \<Rightarrow> path list \<Rightarrow> nat \<Rightarrow> index_stats \<Rightarrow> ('d, 't, 'w) indexer \<Rightarrow>
   (anyhow, index_stats) result \<times> ('d, 't, 'w) indexer" where
  "finish_directory E files walk_errors stats st =
     (case drop_files_outside_walk E files walk_errors st of
        (Inl e, st1) \<Rightarrow> (Inl e, st1)
      | (Inr dropped, st1) \<Rightarrow>
          (Inr (if 0 < indexed_files stats \<or> 0 < dropped then stats\<lparr>needs_maintenance := True\<rparr> else stats), st1))"

definition index_directory ::
  "('d, 'b, 't, 'j, 'w) engine \<Rightarrow> path \<Rightarrow> ('d, 't, 'w) indexer \<Rightarrow>
   ((anyhow, index_stats) result \<times> ('d, 't, 'w) indexer) option" where
  "index_directory E dir st =
     (case collect_rust_files (g_fs (en_gate E)) dir IndexStats_unchanged of
        ((files, walk_errors), stats) \<Rightarrow>
          if files = [] then Some (Inr stats, st)
          else
            case index_files E files stats st of
              None \<Rightarrow> None
            | Some (stats1, st1) \<Rightarrow>
                (case commit_bm25 E st1 of
                   (Inl e, st2) \<Rightarrow> Some (Inl (with_context ''Failed to commit Tantivy index'' e), st2)
                 | (Inr _, st2) \<Rightarrow> Some (finish_directory E files walk_errors stats1 st2)))"

subsection \<open>The parallel run\<close>

text \<open>Files are processed independently; the ids they draw are numbered in file order.\<close>

fun parallel_parse_batch ::
  "('d, 'b) gate \<Rightarrow> chunk_split_config \<Rightarrow> 'd file_processor \<Rightarrow> path list \<Rightarrow> nat \<Rightarrow>
   (processed_file list \<times> error_collector \<times> nat) option" where
  "parallel_parse_batch G cfg fp [] n = Some ([], [], n)"
| "parallel_parse_batch G cfg fp (p # ps) n =
     (case process_file_sync G cfg fp p n of
        None \<Rightarrow> None
      | Some (r, n1) \<Rightarrow>
          (case parallel_parse_batch G cfg fp ps n1 of
             None \<Rightarrow> None
           | Some (done, errs, n2) \<Rightarrow>
               (case r of
                  Inr f \<Rightarrow> Some (f # done, errs, n2)
                | Inl e \<Rightarrow> Some (done, \<lparr>err_path = p, err_category = categorize_error (indexing_error_str e),
                                         err_message = indexing_error_str e\<rparr> # errs, n2))))"

text \<open>Each file takes as many of the remaining embeddings as it has chunks.\<close>

fun split_embeddings :: "processed_file list \<Rightarrow> embedding list \<Rightarrow> prepared_file list \<times> embedding list" where
  "split_embeddings [] es = ([], es)"
| "split_embeddings (f # fs) es =
     (case split_embeddings fs (drop (length (pf_chunks f)) es) of
        (ps, rest) \<Rightarrow>
          (\<lparr>pp_path = pf_path f, pp_content = pf_content f, pp_chunks = pf_chunks f,
            pp_embeddings = take (length (pf_chunks f)) es\<rparr> # ps, rest))"

definition process_and_index_batch ::
  "('d, 'b, 't, 'j, 'w) engine \<Rightarrow> processed_file list \<Rightarrow> index_stats \<Rightarrow> ('d, 't, 'w) indexer \<Rightarrow>
   ((anyhow, index_stats) result \<times> ('d, 't, 'w) indexer) option" where
  "process_and_index_batch E processed stats st =
     (let chunks = concat (map pf_chunks processed) in
      case core_generate_embeddings E chunks (ix_calls st) of
        None \<Rightarrow> None
      | Some (Inl e, k) \<Rightarrow> Some (Inl (to_anyhow e), st\<lparr>ix_calls := k\<rparr>)
      | Some (Inr es, k) \<Rightarrow>
          (case split_embeddings processed es of
             (files, rest) \<Rightarrow>
               if rest \<noteq> [] then None
               else case write_files E files [] (st\<lparr>ix_calls := k\<rparr>) of
                      None \<Rightarrow> None
                    | Some (Inl e, st1) \<Rightarrow> Some (Inl e, st1)
                    | Some (Inr _, st1) \<Rightarrow>
                        Some (Inr (stats\<lparr>indexed_files := indexed_files stats + length processed,
                                         total_chunks := total_chunks stats + length chunks\<rparr>), st1)))"

text \<open>\<open>slice::chunks\<close>, for a positive size.\<close>

fun chunks_of :: "nat \<Rightarrow> 'a list \<Rightarrow> 'a list list" where
  "chunks_of n [] = []"
| "chunks_of n (x # xs) = (x # take (n - 1) xs) # chunks_of n (drop (n - 1) xs)"

fun index_batches ::
  "('d, 'b, 't, 'j, 'w) engine \<Rightarrow> path list list \<Rightarrow> index_stats \<Rightarrow> ('d, 't, 'w) indexer \<Rightarrow>
   ((anyhow, index_stats) result \<times> ('d, 't, 'w) indexer) option" where
  "index_batches E [] stats st = Some (Inr stats, st)"
| "index_batches E (batch # batches) stats st =
     (case ensure_index_disk_headroom E (en_root E) of
        Inl e \<Rightarrow> Some (Inl e, st)
      | Inr _ \<Rightarrow>
          (case parallel_parse_batch (en_gate E) (en_split E) (ix_fp st) batch (ix_ids st) of
             None \<Rightarrow> None
           | Some (processed, errs, n) \<Rightarrow>
               (case (if processed = [] then Some (Inr (process_batch_errors errs stats), st\<lparr>ix_ids := n\<rparr>)
                      else process_and_index_batch E processed (process_batch_errors errs stats) (st\<lparr>ix_ids := n\<rparr>)) of
                  None \<Rightarrow> None
                | Some (Inl e, st1) \<Rightarrow> Some (Inl e, st1)
                | Some (Inr stats1, st1) \<Rightarrow>
                    (case commit_bm25 E st1 of
                       (Inl e, st2) \<Rightarrow> Some (Inl e, st2)
                     | (Inr _, st2) \<Rightarrow> index_batches E batches stats1 st2))))"

definition index_directory_parallel ::
  "('d, 'b, 't, 'j, 'w) engine \<Rightarrow> path \<Rightarrow> ('d, 't, 'w) indexer \<Rightarrow>
   ((anyhow, index_stats) result \<times> ('d, 't, 'w) indexer) option" where
  "index_directory_parallel E dir st =
     (case collect_rust_files (g_fs (en_gate E)) dir IndexStats_unchanged of
        ((files, walk_errors), stats) \<Rightarrow>
          if files = [] then Some (Inr stats, st)
          else
            case en_batcher E of
              Inl e \<Rightarrow> Some (Inl (to_anyhow e), st)
            | Inr _ \<Rightarrow>
                let batch_size = calculate_safe_batch_size (en_memory E) (en_cpus E) in
                if batch_size = 0 then None
                else case index_batches E (chunks_of batch_size files) stats st of
                       None \<Rightarrow> None
                     | Some (Inl e, st1) \<Rightarrow> Some (Inl e, st1)
                     | Some (Inr stats1, st1) \<Rightarrow> Some (finish_directory E files walk_errors stats1 st1))"

subsection \<open>Clearing and repairing\<close>

definition clear_all_data ::
  "('d, 'b, 't, 'j, 'w) engine \<Rightarrow> ('d, 't, 'w) indexer \<Rightarrow> (anyhow, unit) result \<times> ('d, 't, 'w) indexer" where
  "clear_all_data E st =
     (case clear_metadata_cache (en_gate E) (ix_fp st) of
        (Inl e, fp) \<Rightarrow> (Inl (to_anyhow e), st\<lparr>ix_fp := fp\<rparr>)
      | (Inr _, fp) \<Rightarrow>
          (case bm25_delete_all (en_tantivy E) (ix_bm25 st) of
             (Inl e, w) \<Rightarrow> (Inl e, st\<lparr>ix_fp := fp, ix_bm25 := w\<rparr>)
           | (Inr _, w) \<Rightarrow>
               (case bm25_commit (en_tantivy E) w of
                  (Inl e, w1) \<Rightarrow> (Inl e, st\<lparr>ix_fp := fp, ix_bm25 := w1\<rparr>)
                | (Inr _, w1) \<Rightarrow>
                    (case store_clear (en_lance E) (ix_store st) of
                       (Inl e, t) \<Rightarrow>
                         (Inl [''Failed to clear vector store: '' @ vector_store_error_str e],
                          st\<lparr>ix_fp := fp, ix_bm25 := w1, ix_store := t\<rparr>)
                     | (Inr _, t) \<Rightarrow> (Inr (), st\<lparr>ix_fp := fp, ix_bm25 := w1, ix_store := t\<rparr>)))))"

definition forget_files_without_vectors ::
  "('d, 'b, 't, 'j, 'w) engine \<Rightarrow> ('d, 't, 'w) indexer \<Rightarrow> (anyhow, string list) result \<times> ('d, 't, 'w) indexer" where
  "forget_files_without_vectors E st =
     (case cached_paths (en_gate E) (ix_fp st) of
        Inl e \<Rightarrow> (Inl (to_anyhow e), st)
      | Inr cached \<Rightarrow>
          (case indexed_file_paths (en_lance E) (ix_store st) of
             Inl e \<Rightarrow> (Inl [''Failed to list indexed files: '' @ vector_store_error_str e], st)
           | Inr indexed \<Rightarrow>
               (let stale = sorted_list_of_set (cached - indexed) in
                case forget_paths (en_gate E) stale (ix_fp st) of
                  (Inl e, fp) \<Rightarrow> (Inl e, st\<lparr>ix_fp := fp\<rparr>)
                | (Inr _, fp) \<Rightarrow> (Inr stale, st\<lparr>ix_fp := fp\<rparr>))))"

definition rebuild_bm25_if_empty ::
  "('t, 'j) lance \<Rightarrow> 'w tantivy \<Rightarrow> 't \<Rightarrow> 'w \<Rightarrow> (anyhow, nat option) result \<times> 'w" where
  "rebuild_bm25_if_empty L W t w =
     (case committed_doc_count W w of
        Inl e \<Rightarrow> (Inl e, w)
      | Inr n \<Rightarrow>
          if 0 < n then (Inr None, w)
          else
            case store_count L t of
              Inl e \<Rightarrow> (Inl [''Failed to count vector store rows: '' @ vector_store_error_str e], w)
            | Inr stored \<Rightarrow>
                if stored = 0 then (Inr None, w)
                else
                  case scan_chunks L (\<lambda>w chunks. index_chunks W chunks w) t w of
                    (Inl e, w1) \<Rightarrow>
                      (Inl (with_context ''Failed to rebuild the BM25 index from the vector store'' e), w1)
                  | (Inr indexed, w1) \<Rightarrow>
                      (case bm25_commit W w1 of
                         (Inl e, w2) \<Rightarrow> (Inl e, w2)
                       | (Inr _, w2) \<Rightarrow> (Inr (Some indexed), w2)))"

subsection \<open>The laws of the engines\<close>

locale engine_laws =
  fixes E :: "('d, 'b, 't, 'j, 'w) engine" and rows :: "'t \<Rightarrow> 'j row multiset"
    and committed :: "'w \<Rightarrow> bm25_doc multiset" and pending :: "'w \<Rightarrow> bm25_doc multiset"
    and kv :: "'d \<Rightarrow> string \<rightharpoonup> 'b"
  assumes lance: "lance_table (en_lance E) (en_dim E) rows"
    and tantivy: "tantivy_index (en_tantivy E) committed pending"
    and sled: "sled_store (g_sled (en_gate E)) kv"

sublocale engine_laws \<subseteq> vs: lance_table "en_lance E" "en_dim E" rows
  by (rule lance)

sublocale engine_laws \<subseteq> kw: tantivy_index "en_tantivy E" committed pending
  by (rule tantivy)

sublocale engine_laws \<subseteq> mc: sled_store "g_sled (en_gate E)" kv
  by (rule sled)

text \<open>The string both stores key a row by.\<close>

definition row_path :: "store_row \<Rightarrow> string" where
  "row_path x = path_str (file_path (ctx (snd (snd x))))"

lemma row_path_simp [simp]: "row_path (i, e, c) = path_str (file_path (ctx c))"
  by (simp add: row_path_def)

lemma document_path [simp]: "doc_file_path (document g c) = path_str (file_path (ctx c))"
  by (simp add: document_def)

definition prepared_ok :: "nat \<Rightarrow> prepared_file \<Rightarrow> bool" where
  "prepared_ok width f \<longleftrightarrow>
     (\<forall>e \<in> set (pp_embeddings f). length e = width) \<and> (\<forall>c \<in> set (pp_chunks f). file_path (ctx c) = pp_path f)"

lemma file_rows_chunks:
  "length (pp_chunks f) = length (pp_embeddings f) \<Longrightarrow> map (snd \<circ> snd) (file_rows f) = pp_chunks f"
  by (auto simp: file_rows_def case_prod_beta intro: nth_equalityI)

lemma file_rows_ok:
  "prepared_ok width f \<Longrightarrow> (i, e, c) \<in> set (file_rows f) \<Longrightarrow>
   chunk_id c = i \<and> length e = width \<and> file_path (ctx c) = pp_path f"
  by (auto simp: file_rows_def prepared_ok_def dest: set_zip_leftD set_zip_rightD)

context engine_laws
begin

definition stored :: "('d, 't, 'w) indexer \<Rightarrow> store_row multiset" where
  "stored st = vs.view (ix_store st)"

definition docs_of :: "store_row multiset \<Rightarrow> bm25_doc multiset" where
  "docs_of M = image_mset (\<lambda>x. document (tw_id_str (en_tantivy E)) (snd (snd x))) M"

text \<open>The two stores hold the same chunks, and every row of the vector store can be read back.\<close>

definition in_sync :: "('d, 't, 'w) indexer \<Rightarrow> bool" where
  "in_sync st \<longleftrightarrow> vs.inv (ix_store st) \<and> pending (ix_bm25 st) = docs_of (stored st)"

lemma docs_of_filter: "docs_of (filter_mset (\<lambda>x. row_path x \<notin> P) M) = filter_mset (\<lambda>d. doc_file_path d \<notin> P) (docs_of M)"
  by (simp add: docs_of_def filter_mset_image_mset row_path_def)

lemma bm25_delete_paths_pending:
  "bm25_delete_paths (en_tantivy E) ps w = (Inr (), w') \<Longrightarrow>
   pending w' = filter_mset (\<lambda>d. doc_file_path d \<notin> set ps) (pending w)"
proof (induction ps arbitrary: w)
  case (Cons p ps)
  from Cons.prems obtain w1 where w1: "delete_file_chunks (en_tantivy E) p w = (Inr (), w1)"
    "bm25_delete_paths (en_tantivy E) ps w1 = (Inr (), w')"
    by (auto split: prod.splits sum.splits)
  from Cons.IH[OF w1(2)] kw.delete_pending[OF w1(1)] show ?case
    by (simp add: filter_filter_mset conj_commute)
qed simp

lemma bm25_delete_paths_committed:
  "bm25_delete_paths (en_tantivy E) ps w = (r, w') \<Longrightarrow> committed w' = committed w"
proof (induction ps arbitrary: w)
  case (Cons p ps)
  obtain r1 w1 where w1: "delete_file_chunks (en_tantivy E) p w = (r1, w1)" by force
  then show ?case using Cons kw.delete_not_visible[OF w1] by (auto split: sum.splits)
qed simp

lemma delete_files_chunks_ok:
  assumes "delete_files_chunks E ps st = (Inr (), st')" and "in_sync st"
  shows "in_sync st' \<and> stored st' = filter_mset (\<lambda>x. row_path x \<notin> set ps) (stored st) \<and>
         committed (ix_bm25 st') = committed (ix_bm25 st) \<and> ix_fp st' = ix_fp st"
proof -
  obtain w t where w: "bm25_delete_paths (en_tantivy E) ps (ix_bm25 st) = (Inr (), w)"
    and t: "delete_by_file_paths (en_lance E) ps (ix_store st) = (Inr (), t)"
    and st': "st' = st\<lparr>ix_bm25 := w, ix_store := t\<rparr>"
    using assms(1) by (auto simp: delete_files_chunks_def split: prod.splits sum.splits)
  have inv: "vs.inv (ix_store st)" using assms(2) by (simp add: in_sync_def)
  have view: "vs.inv t" "vs.view t = filter_mset (\<lambda>x. row_path x \<notin> set ps) (vs.view (ix_store st))"
    using vs.delete_view[OF inv t] by (auto simp: row_path_def case_prod_unfold)
  show ?thesis
    using view assms(2) bm25_delete_paths_pending[OF w] bm25_delete_paths_committed[OF w]
    by (simp add: st' in_sync_def stored_def docs_of_filter)
qed

lemma index_prepared_ok:
  assumes "index_prepared (en_tantivy E) files acc w = Some (Inr rs, w')"
  shows "rs = acc @ concat (map file_rows files) \<and>
         (\<forall>f \<in> set files. length (pp_chunks f) = length (pp_embeddings f)) \<and>
         pending w' = pending w + docs_of (mset (concat (map file_rows files))) \<and> committed w' = committed w"
  using assms
proof (induction files arbitrary: acc w)
  case (Cons f files)
  from Cons.prems obtain w1 where len: "length (pp_chunks f) = length (pp_embeddings f)"
    and w1: "index_chunks (en_tantivy E) (pp_chunks f) w = (Inr (), w1)"
    and rest: "index_prepared (en_tantivy E) files (acc @ file_rows f) w1 = Some (Inr rs, w')"
    by (auto split: if_splits prod.splits sum.splits)
  have "docs_of (mset (file_rows f)) = image_mset (document (tw_id_str (en_tantivy E))) (mset (pp_chunks f))"
    unfolding docs_of_def file_rows_chunks[OF len, symmetric] by (simp add: image_mset.compositionality comp_def)
  then show ?case using Cons.IH[OF rest] len kw.index_pending[OF w1] kw.index_invisible[OF w1]
    by (simp add: docs_of_def ac_simps)
qed (simp add: docs_of_def)

lemma write_files_ok:
  assumes "write_files E files removed st = Some (Inr (), st')" and "in_sync st"
    and "\<forall>f \<in> set files. prepared_ok (en_dim E) f"
  shows "in_sync st' \<and>
    stored st' = filter_mset (\<lambda>x. row_path x \<notin> path_str ` set removed \<union> path_str ` pp_path ` set files) (stored st) +
      mset (concat (map file_rows files)) \<and>
    committed (ix_bm25 st') = committed (ix_bm25 st)"
proof (cases "files = [] \<and> removed = []")
  case True
  then show ?thesis using assms by (simp add: write_files_def)
next
  case False
  let ?ps = "map path_str removed @ map (path_str \<circ> pp_path) files"
  obtain st1 rs w t fp where del: "delete_files_chunks E ?ps st = (Inr (), st1)"
    and ix: "index_prepared (en_tantivy E) files [] (ix_bm25 st1) = Some (Inr rs, w)"
    and ins: "insert_chunks (en_lance E) (en_dim E) rs (ix_store st1) = (Inr (), t)"
    and st': "st' = st1\<lparr>ix_bm25 := w, ix_store := t, ix_fp := fp\<rparr>"
    using assms(1) False by (auto simp: write_files_def split: prod.splits sum.splits option.splits if_splits)
  note d = delete_files_chunks_ok[OF del assms(2)] and i = index_prepared_ok[OF ix]
  have rows_ok: "\<forall>(i, e, c) \<in> set rs. chunk_id c = i \<and> length e = en_dim E"
    using i assms(3) file_rows_ok by fastforce
  have inv: "vs.inv (ix_store st1)" using d by (simp add: in_sync_def)
  have view: "vs.inv t" "vs.view t = stored st1 + mset rs"
    using vs.insert_view[OF inv ins rows_ok] by (simp_all add: stored_def)
  have paths: "set ?ps = path_str ` set removed \<union> path_str ` pp_path ` set files" by (auto simp: image_comp)
  have rs: "rs = concat (map file_rows files)" using i by simp
  have "pending w = docs_of (stored st1) + docs_of (mset rs)" using i d by (simp add: in_sync_def)
  then have "in_sync st'" using view by (simp add: st' in_sync_def stored_def docs_of_def)
  moreover have "stored st' = stored st1 + mset rs" using view by (simp add: st' stored_def)
  ultimately show ?thesis using d i rs unfolding paths by (simp add: st')
qed

end

subsection \<open>What a write records in the cache\<close>

lemma cache_key_eq [simp]: "cache_key salt p = cache_key salt q \<longleftrightarrow> path_str p = path_str q"
  by (simp add: cache_key_def)

lemma record_files_keeps:
  "record_files G files fp = (r, fp') \<Longrightarrow>
   fp_filter fp' = fp_filter fp \<and> fp_scanner fp' = fp_scanner fp \<and> fp_max_file_size fp' = fp_max_file_size fp \<and>
   fp_salt fp' = fp_salt fp"
proof (induction files arbitrary: fp)
  case (Cons f files)
  obtain r1 fp1 where u: "update_file_metadata G fp (pp_path f) (pp_content f) = (r1, fp1)" by force
  have "fp_filter fp1 = fp_filter fp \<and> fp_scanner fp1 = fp_scanner fp \<and>
      fp_max_file_size fp1 = fp_max_file_size fp \<and> fp_salt fp1 = fp_salt fp"
    using update_file_metadata_keeps[of G fp "pp_path f" "pp_content f"] u by simp
  then show ?case using Cons u by (auto split: if_splits sum.splits)
qed simp

context engine_laws
begin

abbreviation entry_of :: "'d file_processor \<Rightarrow> path \<Rightarrow> file_metadata option" where
  "entry_of fp p \<equiv> mc.entry (fp_cache fp) (cache_key (fp_salt fp) p)"

lemma update_entry:
  assumes "update_file_metadata (en_gate E) fp p text = (Inr (), fp')"
  shows "entry_of fp' q = (if path_str q = path_str p
     then Some (FileMetadata_from_content (g_hash (en_gate E)) (g_now (en_gate E)) text
                  (projr (as_secs (projr (md_modified (projr (fs_metadata (g_fs (en_gate E)) p))))))
                  (md_len (projr (fs_metadata (g_fs (en_gate E)) p))))
     else entry_of fp q) \<and> fp_salt fp' = fp_salt fp"
  by (rule update_file_metadata_Inr[OF assms]) (auto dest!: mc.cache_set_entry)

lemma record_files_entry:
  assumes "record_files (en_gate E) files fp = (Inr (), fp')" and "distinct (map (path_str \<circ> pp_path) files)"
  shows "(\<forall>f \<in> set files. pp_chunks f \<noteq> [] \<longrightarrow>
            (\<exists>m. entry_of fp' (pp_path f) = Some m \<and> fm_hash m = g_hash (en_gate E) (pp_content f))) \<and>
         (\<forall>q. (\<forall>f \<in> set files. pp_chunks f \<noteq> [] \<longrightarrow> path_str (pp_path f) \<noteq> path_str q) \<longrightarrow>
              entry_of fp' q = entry_of fp q)"
  using assms
proof (induction files arbitrary: fp)
  case (Cons f files)
  show ?case
  proof (cases "pp_chunks f = []")
    case True
    then show ?thesis using Cons by auto
  next
    case False
    with Cons.prems(1) obtain fp1 where u: "update_file_metadata (en_gate E) fp (pp_path f) (pp_content f) = (Inr (), fp1)"
      and rest: "record_files (en_gate E) files fp1 = (Inr (), fp')"
      by (auto split: prod.splits sum.splits)
    have dist: "distinct (map (path_str \<circ> pp_path) files)" using Cons.prems(2) by (simp add: comp_def)
    note ih = Cons.IH[OF rest dist] and up = update_entry[OF u]
    have "\<forall>g \<in> set files. pp_chunks g \<noteq> [] \<longrightarrow> path_str (pp_path g) \<noteq> path_str (pp_path f)"
      using Cons.prems(2) by (fastforce simp: image_iff)
    then have "entry_of fp' (pp_path f) = entry_of fp1 (pp_path f)" using ih by blast
    then have "\<exists>m. entry_of fp' (pp_path f) = Some m \<and> fm_hash m = g_hash (en_gate E) (pp_content f)"
      using up[of "pp_path f", THEN conjunct1] by (simp add: FileMetadata_from_content_def)
    moreover have "entry_of fp' q = entry_of fp q"
      if "\<forall>g \<in> set (f # files). pp_chunks g \<noteq> [] \<longrightarrow> path_str (pp_path g) \<noteq> path_str q" for q
    proof -
      have "entry_of fp' q = entry_of fp1 q" using ih that by simp
      also have "\<dots> = entry_of fp q" using that False up[of q, THEN conjunct1] by auto
      finally show ?thesis .
    qed
    ultimately show ?thesis using ih by simp
  qed
qed simp

lemma write_files_recorded:
  assumes "write_files E files removed st = Some (Inr (), st')"
  shows "record_files (en_gate E) files (ix_fp st) = (Inr (), ix_fp st')"
proof -
  have "ix_fp (snd (delete_files_chunks E ps st)) = ix_fp st" for ps
    by (auto simp: delete_files_chunks_def split: prod.splits sum.splits)
  then have "delete_files_chunks E ps st = (x, st1) \<Longrightarrow> ix_fp st1 = ix_fp st" for ps x st1
    by (metis snd_conv)
  with assms show ?thesis
    by (auto simp: write_files_def split: prod.splits sum.splits option.splits if_splits)
qed

end

end
