(* ===== verification/Unified_Laws.thy ===== *)
theory Unified_Laws
  imports Unified_Indexer
begin

text \<open>
  The properties of the unified indexer: what a write does to both stores and to the metadata cache, what
  preparing a file guarantees, the accounting of a directory run, and the operations that drop and repair.
\<close>

subsection \<open>Preparing\<close>

lemma embed_processed_ready:
  assumes "embed_processed E f st = Some (Inr (Ready pf), st')"
  shows "pp_path pf = pf_path f \<and> pp_content pf = pf_content f \<and> pp_chunks pf = pf_chunks f \<and>
         length (pp_embeddings pf) = length (pp_chunks pf) \<and> (\<forall>e \<in> set (pp_embeddings pf). all_finite e) \<and>
         st' = st\<lparr>ix_calls := ix_calls st'\<rparr>"
proof (cases "pf_chunks f = []")
  case True
  then show ?thesis using assms by (auto simp: embed_processed_def)
next
  case False
  then obtain es k where gen: "core_generate_embeddings E (pf_chunks f) (ix_calls st) = Some (Inr es, k)"
    and pf: "pf = \<lparr>pp_path = pf_path f, pp_content = pf_content f, pp_chunks = pf_chunks f, pp_embeddings = es\<rparr>"
    and st': "st' = st\<lparr>ix_calls := k\<rparr>"
    using assms by (auto simp: embed_processed_def split: option.splits prod.splits sum.splits)
  have "list_all2 (\<lambda>_. all_finite) (map format_for_embedding (pf_chunks f)) es"
  proof (cases "en_batcher E")
    case (Inr b)
    then have "generate_embeddings_batched b (embed_documents (en_raw E) (batcher_runtime b)) (pf_chunks f) (ix_calls st) =
        Some (Inr es, k)"
      using gen by (simp add: core_generate_embeddings_def)
    then show ?thesis by (rule gated.generate_ok)
  qed (use gen in \<open>simp add: core_generate_embeddings_def\<close>)
  then show ?thesis using pf st' by (auto simp: list_all2_conv_all_nth in_set_conv_nth)
qed

lemma process_and_embed_ready:
  assumes "process_and_embed E p st = Some (Inr (Ready pf), st')"
  shows "\<exists>f n. process_file_sync (en_gate E) (en_split E) (ix_fp st) p (ix_ids st) = Some (Inr f, n) \<and>
     pp_path pf = p \<and> pp_content pf = pf_content f \<and> pp_chunks pf = pf_chunks f \<and>
     length (pp_embeddings pf) = length (pp_chunks pf) \<and> (\<forall>e \<in> set (pp_embeddings pf). all_finite e) \<and>
     ix_fp st' = ix_fp st \<and> ix_store st' = ix_store st \<and> ix_bm25 st' = ix_bm25 st"
proof -
  obtain f n where f: "process_file_sync (en_gate E) (en_split E) (ix_fp st) p (ix_ids st) = Some (Inr f, n)"
    and e: "embed_processed E f (st\<lparr>ix_ids := n\<rparr>) = Some (Inr (Ready pf), st')"
    using assms by (auto simp: process_and_embed_def split: option.splits prod.splits sum.splits)
  have st': "st' = st\<lparr>ix_ids := n, ix_calls := ix_calls st'\<rparr>" using embed_processed_ready[OF e] by simp
  have "ix_fp st' = ix_fp st \<and> ix_store st' = ix_store st \<and> ix_bm25 st' = ix_bm25 st" by (subst (1 2 3) st') simp
  moreover have "pf_path f = p"
    using process_file_sync_Inr[OF f] parse_and_chunk_Inr by blast
  ultimately show ?thesis using f embed_processed_ready[OF e] by auto
qed

lemma prepare_file_ready:
  "prepare_file E p consult st = Some (Inr (Ready pf), st') \<Longrightarrow> process_and_embed E p st = Some (Inr (Ready pf), st')"
  by (auto simp: prepare_file_def split: sum.splits bool.splits if_splits)

lemma prepare_file_state:
  assumes "prepare_file E p consult st = Some (r, st')"
  shows "ix_fp st' = ix_fp st \<and> ix_store st' = ix_store st \<and> ix_bm25 st' = ix_bm25 st"
proof -
  have "ix_fp st' = ix_fp st \<and> ix_store st' = ix_store st \<and> ix_bm25 st' = ix_bm25 st"
    if "process_and_embed E p st = Some (r, st')"
    using that by (auto simp: process_and_embed_def embed_processed_def split: option.splits prod.splits sum.splits)
  then show ?thesis using assms
    by (auto simp: prepare_file_def split: sum.splits bool.splits if_splits)
qed

lemma prepare_file_complete:
  assumes "prepare_file E p consult st = Some (Inr (Ready f), st')"
  shows "pp_path f = p \<and> fs_read_to_string (g_fs (en_gate E)) p = Inr (pp_content f) \<and> pp_chunks f \<noteq> [] \<and>
         (\<forall>c \<in> set (pp_chunks f). file_path (ctx c) = p) \<and>
         length (pp_embeddings f) = length (pp_chunks f) \<and> (\<forall>e \<in> set (pp_embeddings f). all_finite e)"
proof -
  obtain g n where g: "process_file_sync (en_gate E) (en_split E) (ix_fp st) p (ix_ids st) = Some (Inr g, n)"
    and f: "pp_path f = p" "pp_content f = pf_content g" "pp_chunks f = pf_chunks g"
      "length (pp_embeddings f) = length (pp_chunks f)" "\<forall>e \<in> set (pp_embeddings f). all_finite e"
    using process_and_embed_ready[OF prepare_file_ready[OF assms]] by blast
  have "parse_and_chunk (en_gate E) (en_split E) p (pf_content g) (ix_ids st) = Some (Inr g, n)"
    "fs_read_to_string (g_fs (en_gate E)) p = Inr (pf_content g)"
    using process_file_sync_Inr[OF g] by simp_all
  with parse_and_chunk_Inr[OF this(1)] f show ?thesis by simp
qed

text \<open>A prepared file is complete: its path and text are those of the file on disk, it has at least one
  chunk, every chunk names the file, it has exactly one embedding per chunk and every component is
  finite. In particular a file without chunks is never handed to the writer.\<close>

theorem prepared_file_is_complete:
  assumes "prepare_file E p consult st = Some (Inr (Ready f), st')"
  shows "pp_path f = p \<and> fs_read_to_string (g_fs (en_gate E)) p = Inr (pp_content f) \<and> pp_chunks f \<noteq> [] \<and>
         (\<forall>c \<in> set (pp_chunks f). file_path (ctx c) = p) \<and>
         length (pp_embeddings f) = length (pp_chunks f) \<and> (\<forall>e \<in> set (pp_embeddings f). all_finite e)"
  by (rule prepare_file_complete[OF assms])

text \<open>Preparing never writes: whatever it answers, both stores and the metadata cache are as before.\<close>

theorem prepare_file_writes_nothing:
  assumes "prepare_file E p consult st = Some (r, st')"
  shows "ix_fp st' = ix_fp st \<and> ix_store st' = ix_store st \<and> ix_bm25 st' = ix_bm25 st"
  by (rule prepare_file_state[OF assms])

text \<open>Bypassing the metadata cache has no effect. With \<open>consult_metadata_cache\<close> off, a file whose entry has
  the same size and the same modification second is still refused as unchanged, by \<open>process_file_sync\<close>:
  it is neither rebuilt nor retried, although the caller asked for exactly that.\<close>

theorem reindex_still_consults_the_cache:
  assumes "ensure_index_disk_headroom E (en_root E) = Inr ()"
    and "should_process_file (en_gate E) (ix_fp st) p = Inr True"
    and "fs_read_to_string (g_fs (en_gate E)) p = Inr text"
    and "has_stat_changed (en_gate E) (ix_fp st) p = Inr False"
  shows "reindex_file E p st = Some (Inl (to_anyhow (Parser OUTCOME_FILE_UNCHANGED)), st)"
  using assms
  by (simp add: reindex_file_def index_file_impl_def prepare_file_def process_and_embed_def process_file_sync_unchanged)

subsection \<open>Writing\<close>

text \<open>C4: A successful write replaces exactly the written files. In the vector store the rows of the removed and
  of the written files are gone and the new rows are there, nothing else changed; the keyword index holds
  the same chunks as the vector store; readers still see the last commit; and the metadata cache records
  the content of every written file that has chunks, leaving every other entry alone.\<close>

theorem write_files_replaces:
  assumes "engine_laws E rows committed pending kv"
    and "write_files E files removed st = Some (Inr (), st')"
    and "engine_laws.in_sync E rows pending st"
    and "\<forall>f \<in> set files. prepared_ok (en_dim E) f" and "distinct (map (path_str \<circ> pp_path) files)"
  shows "engine_laws.in_sync E rows pending st' \<and>
    engine_laws.stored E rows st' =
      filter_mset (\<lambda>x. row_path x \<notin> path_str ` set removed \<union> path_str ` pp_path ` set files)
        (engine_laws.stored E rows st) + mset (concat (map file_rows files)) \<and>
    committed (ix_bm25 st') = committed (ix_bm25 st) \<and>
    (\<forall>f \<in> set files. pp_chunks f \<noteq> [] \<longrightarrow>
       (\<exists>m. fp_entry (en_gate E) kv (ix_fp st') (pp_path f) = Some m \<and> fm_hash m = g_hash (en_gate E) (pp_content f))) \<and>
    (\<forall>q. (\<forall>f \<in> set files. pp_chunks f \<noteq> [] \<longrightarrow> path_str (pp_path f) \<noteq> path_str q) \<longrightarrow>
       fp_entry (en_gate E) kv (ix_fp st') q = fp_entry (en_gate E) kv (ix_fp st) q)"
  using engine_laws.write_files_ok[OF assms(1-4)]
    engine_laws.record_files_entry[OF assms(1) engine_laws.write_files_recorded[OF assms(1,2)] assms(5)]
  by blast

text \<open>A write that fails before it records anything leaves the metadata cache as it was, so that every file
  of it is processed again: an error of either store leaves every entry in place.\<close>

theorem failed_store_write_records_nothing:
  assumes "write_files E files removed st = Some (Inl e, st')"
  shows "ix_fp st' = ix_fp st \<or> (\<exists>fp. record_files (en_gate E) files (ix_fp st) = (Inl e, fp))"
proof -
  have keep: "ix_fp (snd (delete_files_chunks E ps st)) = ix_fp st" for ps
    by (auto simp: delete_files_chunks_def split: prod.splits sum.splits)
  then have "delete_files_chunks E ps st = (x, st1) \<Longrightarrow> ix_fp st1 = ix_fp st" for ps x st1
    by (metis snd_conv)
  with assms show ?thesis
    by (auto simp: write_files_def split: prod.splits sum.splits option.splits if_splits)
qed

subsection \<open>Accounting of a directory run\<close>

definition accounted :: "index_stats \<Rightarrow> nat" where
  "accounted s = indexed_files s + unchanged_files s + skipped_files s + failed_files s"

lemma count_file_result_accounts:
  "accounted (count_file_result s p r) = Suc (accounted s) \<and> total_files (count_file_result s p r) = total_files s \<and>
   set (retry_files (count_file_result s p r)) \<subseteq> insert p (set (retry_files s)) \<and>
   (length (retry_files s) = failed_files s \<longrightarrow>
     length (retry_files (count_file_result s p r)) = failed_files (count_file_result s p r))"
  using record_error_accounts[of s p] record_error_failed[of s p]
  by (auto simp: count_file_result_def accounted_def record_error_retry split: sum.split index_file_result.split)

lemma index_files_accounts:
  "index_files E ps s st = Some (s', st') \<Longrightarrow>
   accounted s' = accounted s + length ps \<and> total_files s' = total_files s \<and>
   set (retry_files s') \<subseteq> set ps \<union> set (retry_files s) \<and>
   (length (retry_files s) = failed_files s \<longrightarrow> length (retry_files s') = failed_files s')"
proof (induction ps arbitrary: s st)
  case (Cons p ps)
  from Cons.prems obtain r st1 where "index_files E ps (count_file_result s p r) st1 = Some (s', st')"
    by (auto split: option.splits prod.splits)
  from Cons.IH[OF this] count_file_result_accounts[of s p r] show ?case by auto
qed simp

lemma finish_directory_stats:
  assumes "finish_directory E files errs s st = (Inr s', st')"
  shows "accounted s' = accounted s \<and> total_files s' = total_files s \<and> retry_files s' = retry_files s \<and>
         failed_files s' = failed_files s"
  using assms by (auto simp: finish_directory_def accounted_def split: prod.splits sum.splits if_splits)

text \<open>What a run over a list of files owes its caller, said without the run's own counters: the answer each
  file gets when the files are indexed one after the other from a given state, and the class of each answer. A
  transient error is a failure, a permanent one a skip.\<close>

fun file_results ::
  "('d, 'b, 't, 'j, 'w) engine \<Rightarrow> path list \<Rightarrow> ('d, 't, 'w) indexer \<Rightarrow>
   ((anyhow, index_file_result) result list \<times> ('d, 't, 'w) indexer) option" where
  "file_results E [] st = Some ([], st)"
| "file_results E (p # ps) st =
     (case index_file E p st of
        None \<Rightarrow> None
      | Some (r, st1) \<Rightarrow> map_option (\<lambda>(rs, st2). (r # rs, st2)) (file_results E ps st1))"

definition file_failed :: "(anyhow, index_file_result) result \<Rightarrow> bool" where
  "file_failed r = (case r of Inl e \<Rightarrow> categorize_error (anyhow_str e) = Transient | Inr _ \<Rightarrow> False)"

definition file_skipped :: "(anyhow, index_file_result) result \<Rightarrow> bool" where
  "file_skipped r = (case r of Inl e \<Rightarrow> categorize_error (anyhow_str e) = Permanent | Inr x \<Rightarrow> x = Skipped)"

definition file_indexed :: "(anyhow, index_file_result) result \<Rightarrow> bool" where
  "file_indexed r = (case r of Inr (Indexed _) \<Rightarrow> True | _ \<Rightarrow> False)"

lemmas file_answer_defs = file_failed_def file_skipped_def file_indexed_def

lemma count_file_result_counts:
  "retry_files (count_file_result s p r) = retry_files s @ (if file_failed r then [p] else [])"
  "failed_files (count_file_result s p r) = failed_files s + (if file_failed r then 1 else 0)"
  "skipped_files (count_file_result s p r) = skipped_files s + (if file_skipped r then 1 else 0)"
  "indexed_files (count_file_result s p r) = indexed_files s + (if file_indexed r then 1 else 0)"
  "unchanged_files (count_file_result s p r) = unchanged_files s + (if r = Inr Unchanged then 1 else 0)"
  by (auto simp: count_file_result_def record_error_def file_answer_defs
           split: sum.split index_file_result.split error_category.split)

lemma index_files_counts:
  "index_files E ps s st = Some (s', st') \<Longrightarrow>
   \<exists>rs. file_results E ps st = Some (rs, st') \<and> length rs = length ps \<and>
     retry_files s' = retry_files s @ map fst (filter (file_failed \<circ> snd) (zip ps rs)) \<and>
     failed_files s' = failed_files s + length (filter file_failed rs) \<and>
     skipped_files s' = skipped_files s + length (filter file_skipped rs) \<and>
     indexed_files s' = indexed_files s + length (filter file_indexed rs) \<and>
     unchanged_files s' = unchanged_files s + count_list rs (Inr Unchanged)"
proof (induction ps arbitrary: s st)
  case (Cons p ps)
  from Cons.prems obtain r st1 where r: "index_file E p st = Some (r, st1)"
    and "index_files E ps (count_file_result s p r) st1 = Some (s', st')"
    by (auto split: option.splits prod.splits)
  from Cons.IH[OF this(2)] obtain rs where rs: "file_results E ps st1 = Some (rs, st')" "length rs = length ps"
    and counts: "retry_files s' = retry_files (count_file_result s p r) @ map fst (filter (file_failed \<circ> snd) (zip ps rs))"
      "failed_files s' = failed_files (count_file_result s p r) + length (filter file_failed rs)"
      "skipped_files s' = skipped_files (count_file_result s p r) + length (filter file_skipped rs)"
      "indexed_files s' = indexed_files (count_file_result s p r) + length (filter file_indexed rs)"
      "unchanged_files s' = unchanged_files (count_file_result s p r) + count_list rs (Inr Unchanged)"
    by blast
  show ?case by (rule exI[of _ "r # rs"]) (simp add: r rs counts count_file_result_counts comp_def)
qed simp

lemma finish_directory_counts:
  assumes "finish_directory E files errs s st = (Inr s', st')"
  shows "indexed_files s' = indexed_files s \<and> unchanged_files s' = unchanged_files s \<and>
         skipped_files s' = skipped_files s"
  using assms by (auto simp: finish_directory_def split: prod.splits sum.splits if_splits)

text \<open>C33: A directory run accounts for every file of the walk exactly once, as indexed, unchanged, skipped or
  failed. The retry list is exactly the files of the walk, in walk order, whose own indexing ended in a transient
  error, and every other counter is the number of files that got that answer.\<close>

theorem index_directory_accounts_for_every_file:
  assumes "index_directory E dir st = Some (Inr stats, st')"
  shows "total_files stats = length (fst (collect_project_rust_files (g_fs (en_gate E)) dir)) \<and>
         total_files stats = indexed_files stats + unchanged_files stats + skipped_files stats + failed_files stats \<and>
         length (retry_files stats) = failed_files stats \<and>
         set (retry_files stats) \<subseteq> walked (g_fs (en_gate E)) dir \<and>
         (\<exists>rs st1. file_results E (fst (collect_project_rust_files (g_fs (en_gate E)) dir)) st = Some (rs, st1) \<and>
            length rs = total_files stats \<and>
            retry_files stats =
              map fst (filter (file_failed \<circ> snd) (zip (fst (collect_project_rust_files (g_fs (en_gate E)) dir)) rs)) \<and>
            failed_files stats = length (filter file_failed rs) \<and>
            skipped_files stats = length (filter file_skipped rs) \<and>
            indexed_files stats = length (filter file_indexed rs) \<and>
            unchanged_files stats = count_list rs (Inr Unchanged))"
proof -
  obtain files errs where col: "collect_project_rust_files (g_fs (en_gate E)) dir = (files, errs)" by force
  let ?s0 = "IndexStats_unchanged\<lparr>total_files := length files\<rparr>"
  show ?thesis
  proof (cases "files = []")
    case True
    then have "stats = ?s0"
      using assms col by (auto simp: index_directory_def collect_rust_files_def)
    then show ?thesis using True col by (simp add: IndexStats_unchanged_def)
  next
    case False
    obtain s1 st1 where run: "index_files E files ?s0 st = Some (s1, st1)"
      and fin: "\<exists>st2. finish_directory E files errs s1 st2 = (Inr stats, st')"
      using assms col False
      by (auto simp: index_directory_def collect_rust_files_def split: option.splits prod.splits sum.splits)
    have s0: "accounted ?s0 = 0" "retry_files ?s0 = []" "failed_files ?s0 = 0" "skipped_files ?s0 = 0"
      "indexed_files ?s0 = 0" "unchanged_files ?s0 = 0"
      by (simp_all add: accounted_def IndexStats_unchanged_def)
    from fin obtain st2 where f: "finish_directory E files errs s1 st2 = (Inr stats, st')" by blast
    from index_files_counts[OF run] s0 obtain rs where rs: "file_results E files st = Some (rs, st1)"
      "length rs = length files"
      "retry_files s1 = map fst (filter (file_failed \<circ> snd) (zip files rs))"
      "failed_files s1 = length (filter file_failed rs)" "skipped_files s1 = length (filter file_skipped rs)"
      "indexed_files s1 = length (filter file_indexed rs)" "unchanged_files s1 = count_list rs (Inr Unchanged)"
      by auto
    from finish_directory_stats[OF f] finish_directory_counts[OF f] index_files_accounts[OF run] s0 col rs
    show ?thesis by (auto simp: accounted_def)
  qed
qed

text \<open>A full pass over a tree that has lost all its files drops nothing. The run ends before the step that
  removes files outside the tree, so both stores keep every chunk of every deleted file.\<close>

theorem index_directory_of_empty_tree_keeps_everything:
  assumes "fst (collect_project_rust_files (g_fs (en_gate E)) dir) = []"
  shows "index_directory E dir st = Some (Inr IndexStats_unchanged, st)"
  using assms
  by (auto simp: index_directory_def collect_rust_files_def IndexStats_unchanged_def split: prod.splits)

subsection \<open>Dropping, clearing, repairing\<close>

lemma forget_paths_keeps: "forget_paths G ss fp = (r, fp') \<Longrightarrow> fp_salt fp' = fp_salt fp"
  by (induction ss arbitrary: fp) (auto simp: forget_path_def forget_file_def split: prod.splits sum.splits)

lemma path_str_single [simp]: "path_str [s] = s"
  by (simp add: path_str_def)

lemma finite_indexed_paths: "indexed_file_paths L t = Inr ps \<Longrightarrow> finite ps"
  by (auto simp: indexed_file_paths_def and_then_Inr)

context engine_laws
begin

lemma forget_paths_kv:
  "forget_paths (en_gate E) ss fp = (Inr (), fp') \<Longrightarrow>
   kv (fp_cache fp') = (\<lambda>k. if k \<in> (\<lambda>s. cache_key (fp_salt fp) [s]) ` set ss then None else kv (fp_cache fp) k)"
proof (induction ss arbitrary: fp)
  case (Cons s ss)
  from Cons.prems obtain fp1 where f: "forget_file (en_gate E) fp [s] = (Inr (), fp1)"
    and rest: "forget_paths (en_gate E) ss fp1 = (Inr (), fp')"
    by (auto simp: forget_path_def split: prod.splits sum.splits)
  then obtain db where "sled_remove (g_sled (en_gate E)) (fp_cache fp) (cache_key (fp_salt fp) [s]) = (Inr (), db)"
    and fp1: "fp1 = fp\<lparr>fp_cache := db\<rparr>"
    by (auto simp: forget_file_def cache_remove_def split: prod.splits)
  from mc.remove_ok[OF this(1)] Cons.IH[OF rest] fp1 show ?case by (auto simp: fun_eq_iff)
qed simp

lemma commit_bm25_ok:
  assumes "commit_bm25 E st = (Inr (), st')" and "in_sync st"
  shows "in_sync st' \<and> stored st' = stored st \<and> committed (ix_bm25 st') = pending (ix_bm25 st) \<and> ix_fp st' = ix_fp st"
  using assms kw.commit_publishes
  by (auto simp: commit_bm25_def in_sync_def stored_def split: prod.splits)

lemma drop_files_outside_ok:
  assumes "drop_files_outside E tree st = (Inr gone, st')" and "in_sync st"
  shows "in_sync st' \<and> stored st' = filter_mset (\<lambda>x. row_path x \<in> path_str ` set tree) (stored st) \<and>
         set gone = row_path ` set_mset (stored st) - path_str ` set tree \<and> sorted gone \<and>
         (gone \<noteq> [] \<longrightarrow> committed (ix_bm25 st') = docs_of (stored st')) \<and>
         (\<forall>s \<in> set gone. kv (fp_cache (ix_fp st')) (cache_key (fp_salt (ix_fp st)) [s]) = None)"
proof -
  have inv: "vs.inv (ix_store st)" using assms(2) by (simp add: in_sync_def)
  obtain indexed where ind: "indexed_file_paths (en_lance E) (ix_store st) = Inr indexed"
    using assms(1) by (auto simp: drop_files_outside_def split: sum.splits)
  let ?gone = "indexed - path_str ` set tree"
  have fin: "finite ?gone" using finite_indexed_paths[OF ind] by simp
  have paths: "indexed = row_path ` set_mset (stored st)"
    using vs.paths_view[OF inv ind] by (simp add: stored_def row_path_def case_prod_unfold)
  have all: "filter_mset (\<lambda>x. row_path x \<notin> ?gone) (stored st) =
      filter_mset (\<lambda>x. row_path x \<in> path_str ` set tree) (stored st)"
    by (rule filter_mset_cong) (auto simp: paths)
  show ?thesis
  proof (cases "sorted_list_of_set ?gone = []")
    case True
    then have empty: "?gone = {}" using fin by simp
    have "gone = [] \<and> st' = st" using assms(1) ind True by (simp add: drop_files_outside_def)
    moreover have "stored st = filter_mset (\<lambda>x. row_path x \<in> path_str ` set tree) (stored st)"
      using all empty by simp
    ultimately show ?thesis using assms(2) empty paths by auto
  next
    case False
    then obtain st1 st2 fp where del: "delete_files_chunks E (sorted_list_of_set ?gone) st = (Inr (), st1)"
      and com: "commit_bm25 E st1 = (Inr (), st2)"
      and fp: "forget_paths (en_gate E) (sorted_list_of_set ?gone) (ix_fp st2) = (Inr (), fp)"
      and res: "gone = sorted_list_of_set ?gone" "st' = st2\<lparr>ix_fp := fp\<rparr>"
      using assms(1) ind by (auto simp: drop_files_outside_def Let_def split: prod.splits sum.splits)
    note d = delete_files_chunks_ok[OF del assms(2)]
    note c = commit_bm25_ok[OF com d[THEN conjunct1]]
    have set_gone: "set gone = ?gone" using res(1) fin by simp
    have st2: "stored st' = stored st2" "in_sync st' = in_sync st2" "ix_bm25 st' = ix_bm25 st2"
      by (simp_all add: res(2) stored_def in_sync_def)
    have "kv (fp_cache (ix_fp st')) (cache_key (fp_salt (ix_fp st)) [s]) = None" if "s \<in> set gone" for s
      using forget_paths_kv[OF fp] c d that set_gone fin by (simp add: res(2))
    moreover have "committed (ix_bm25 st') = docs_of (stored st')" using c d st2 by (simp add: in_sync_def)
    ultimately show ?thesis using c d st2 all set_gone paths fin res(1) by simp
  qed
qed

lemma clear_all_data_ok:
  assumes "clear_all_data E st = (Inr (), st')"
  shows "in_sync st' \<and> stored st' = {#} \<and> committed (ix_bm25 st') = {#} \<and> kv (fp_cache (ix_fp st')) = Map.empty"
proof -
  obtain fp w w1 t where fp: "clear_metadata_cache (en_gate E) (ix_fp st) = (Inr (), fp)"
    and w: "bm25_delete_all (en_tantivy E) (ix_bm25 st) = (Inr (), w)" and w1: "bm25_commit (en_tantivy E) w = (Inr (), w1)"
    and t: "store_clear (en_lance E) (ix_store st) = (Inr (), t)"
    and st': "st' = st\<lparr>ix_fp := fp, ix_bm25 := w1, ix_store := t\<rparr>"
    using assms by (auto simp: clear_all_data_def split: prod.splits sum.splits)
  have "kv (fp_cache fp) = Map.empty"
    using fp by (auto simp: clear_metadata_cache_def cache_clear_def dest!: mc.clear_ok split: prod.splits)
  then show ?thesis
    using kw.delete_all_pending[OF w] kw.commit_publishes[OF w1] vs.clear_view[OF t]
    by (simp add: st' in_sync_def stored_def docs_of_def)
qed

lemma forget_files_without_vectors_ok:
  assumes "forget_files_without_vectors E st = (Inr stale, st')" and "vs.inv (ix_store st)"
    and "cached_paths (en_gate E) (ix_fp st') = Inr cached'" and "fp_salt (ix_fp st) \<noteq> []"
  shows "cached' \<subseteq> row_path ` set_mset (stored st') \<and> stored st' = stored st \<and> ix_bm25 st' = ix_bm25 st"
proof -
  obtain cached indexed fp where ca: "cached_paths (en_gate E) (ix_fp st) = Inr cached"
    and ind: "indexed_file_paths (en_lance E) (ix_store st) = Inr indexed"
    and fp: "forget_paths (en_gate E) (sorted_list_of_set (cached - indexed)) (ix_fp st) = (Inr (), fp)"
    and st': "st' = st\<lparr>ix_fp := fp\<rparr>"
    using assms(1) by (auto simp: forget_files_without_vectors_def Let_def split: prod.splits sum.splits)
  have salt: "fp_salt fp = fp_salt (ix_fp st)" using forget_paths_keeps[OF fp] .
  have mem: "s \<in> paths_for_salt ks salt \<longleftrightarrow> salt @ ''::'' @ s \<in> set ks" if "salt \<noteq> []" for s ks salt
    using that by (simp add: paths_for_salt_def strip_prefix_mem)
  have cached_kv: "\<And>s. s \<in> c \<longleftrightarrow> cache_key (fp_salt q) [s] \<in> dom (kv (fp_cache q))"
    if "cached_paths (en_gate E) q = Inr c" "fp_salt q \<noteq> []" for q c
    using that mem mc.list_files_dom by (fastforce simp: cached_paths_def and_then_Inr cache_key_def)
  have fin: "finite cached" using ca by (auto simp: cached_paths_def and_then_Inr paths_for_salt_def)
  have "cached' \<subseteq> indexed"
  proof
    fix s assume "s \<in> cached'"
    then have "cache_key (fp_salt fp) [s] \<in> dom (kv (fp_cache fp))"
      using cached_kv[of fp cached'] assms(3,4) salt by (simp add: st')
    then have "s \<in> cached" "s \<notin> cached - indexed"
      using forget_paths_kv[OF fp] salt cached_kv[OF ca assms(4)] fin by (auto simp: dom_def image_iff split: if_splits)
    then show "s \<in> indexed" by simp
  qed
  moreover have "indexed = row_path ` set_mset (stored st)"
    using vs.paths_view[OF assms(2) ind] by (simp add: stored_def row_path_def case_prod_unfold)
  ultimately show ?thesis by (simp add: st' stored_def)
qed

end

subsection \<open>Rebuilding the keyword index\<close>

lemma try_collect_Inr [simp]: "try_collect (map Inr xs) = Inr xs"
  by (induction xs) auto

context engine_laws
begin

lemma scan_loop_ok:
  "scan_loop (en_lance E) (\<lambda>w chunks. index_chunks (en_tantivy E) chunks w) bs n w = (Inr m, w') \<Longrightarrow>
   \<exists>xs ys. bs = map Inr xs \<and> decode_batches (en_lance E) xs = Inr ys \<and> m = n + length ys \<and>
     pending w' = pending w + image_mset (document (tw_id_str (en_tantivy E))) (mset (map snd ys))"
proof (induction bs arbitrary: n w)
  case Nil
  then show ?case by (intro exI[of _ "[]"]) auto
next
  case (Cons b bs)
  then obtain rs zs w1 where b: "b = Inr rs" "decode_chunk_rows (en_lance E) rs = Inr zs"
    and ix: "index_chunks (en_tantivy E) (map snd zs) w = (Inr (), w1)"
    and rest: "scan_loop (en_lance E) (\<lambda>w chunks. index_chunks (en_tantivy E) chunks w) bs (n + length zs) w1 = (Inr m, w')"
    by (cases b) (auto split: sum.splits prod.splits)
  from Cons.IH[OF rest] obtain xs ys where "bs = map Inr xs" "decode_batches (en_lance E) xs = Inr ys"
    "m = n + length zs + length ys"
    "pending w' = pending w1 + image_mset (document (tw_id_str (en_tantivy E))) (mset (map snd ys))"
    by blast
  with b kw.index_pending[OF ix] show ?case
    by (intro exI[of _ "rs # xs"] exI[of _ "zs @ ys"]) (simp add: ac_simps)
qed

lemma rebuild_ok:
  assumes "rebuild_bm25_if_empty (en_lance E) (en_tantivy E) t w = (Inr r, w')" and "vs.inv t"
    and "pending w = committed w"
  shows "case r of
           None \<Rightarrow> w' = w \<and> (committed w \<noteq> {#} \<or> vs.view t = {#})
         | Some n \<Rightarrow> committed w = {#} \<and> n = size (vs.view t) \<and> committed w' = docs_of (vs.view t) \<and>
                     pending w' = docs_of (vs.view t)"
proof -
  obtain n where n: "committed_doc_count (en_tantivy E) w = Inr n"
    using assms(1) by (auto simp: rebuild_bm25_if_empty_def split: sum.splits)
  have size: "n = size (committed w)" by (rule kw.count_committed[OF n])
  show ?thesis
  proof (cases "0 < n")
    case True
    then show ?thesis using assms(1) n size by (auto simp: rebuild_bm25_if_empty_def)
  next
    case False
    then obtain k where k: "store_count (en_lance E) t = Inr k"
      using assms(1) n by (auto simp: rebuild_bm25_if_empty_def split: sum.splits)
    have k_size: "k = size (vs.view t)" by (rule vs.count_view[OF k])
    show ?thesis
    proof (cases "k = 0")
      case True
      then show ?thesis using assms(1) n False k k_size by (auto simp: rebuild_bm25_if_empty_def)
    next
      case k0: False
      then obtain m w1 where sc: "scan_chunks (en_lance E) (\<lambda>w chunks. index_chunks (en_tantivy E) chunks w) t w = (Inr m, w1)"
        and com: "bm25_commit (en_tantivy E) w1 = (Inr (), w')" and r: "r = Some m"
        using assms(1) n False k by (auto simp: rebuild_bm25_if_empty_def split: prod.splits sum.splits)
      then obtain bs where bs: "lt_query (en_lance E) t None = Inr bs"
        and loop: "scan_loop (en_lance E) (\<lambda>w chunks. index_chunks (en_tantivy E) chunks w) bs 0 w = (Inr m, w1)"
        by (auto simp: scan_chunks_def split: sum.splits)
      from scan_loop_ok[OF loop] obtain xs ys where xs: "bs = map Inr xs" "decode_batches (en_lance E) xs = Inr ys" "m = length ys"
        and pend: "pending w1 = pending w + image_mset (document (tw_id_str (en_tantivy E))) (mset (map snd ys))"
        by auto
      have rows: "mset (concat xs) = rows t" using vs.query_all[OF bs] xs(1) by simp
      then have "\<forall>r \<in> set (concat xs). vs.row_ok r" using assms(2) unfolding vs.inv_def by (metis set_mset_mset)
      from vs.decode_batches_ok[OF this] have ys: "map snd ys = map (\<lambda>r. snd (snd (vs.row_entry r))) (concat xs)"
        using xs(2) by auto
      have "image_mset (document (tw_id_str (en_tantivy E))) (mset (map snd ys)) = docs_of (vs.view t)"
        unfolding ys docs_of_def vs.view_def rows[symmetric] by (simp add: image_mset.compositionality comp_def)
      moreover have "m = size (vs.view t)"
        using xs(3) arg_cong[OF ys, of length] rows by (metis length_map size_mset size_image_mset vs.view_def)
      ultimately show ?thesis using r pend assms(3) size False kw.commit_publishes[OF com] by simp
    qed
  qed
qed

end

subsection \<open>Batches of the parallel run\<close>

lemma split_embeddings_rows:
  "split_embeddings fs es = (ps, rest) \<Longrightarrow> length es = length (concat (map pf_chunks fs)) \<Longrightarrow>
   rest = [] \<and> map pp_path ps = map pf_path fs \<and> map pp_chunks ps = map pf_chunks fs \<and> map pp_content ps = map pf_content fs \<and>
   (\<forall>p \<in> set ps. length (pp_chunks p) = length (pp_embeddings p)) \<and>
   concat (map file_rows ps) = map (\<lambda>(c, e). (chunk_id c, e, c)) (zip (concat (map pf_chunks fs)) es)"
proof (induction fs arbitrary: es ps)
  case (Cons f fs)
  obtain qs where qs: "split_embeddings fs (drop (length (pf_chunks f)) es) = (qs, rest)"
    and ps: "ps = \<lparr>pp_path = pf_path f, pp_content = pf_content f, pp_chunks = pf_chunks f,
                   pp_embeddings = take (length (pf_chunks f)) es\<rparr> # qs"
    using Cons.prems(1) by (auto split: prod.splits)
  have len: "length (drop (length (pf_chunks f)) es) = length (concat (map pf_chunks fs))" using Cons.prems(2) by simp
  have "zip (pf_chunks f @ concat (map pf_chunks fs)) es =
      zip (pf_chunks f) (take (length (pf_chunks f)) es) @ zip (concat (map pf_chunks fs)) (drop (length (pf_chunks f)) es)"
    by (simp add: zip_append1)
  then show ?case using Cons.IH[OF qs len] Cons.prems(2) ps by (simp add: file_rows_def)
qed simp

text \<open>The parallel run gives every chunk its own embedding. The embeddings of a whole batch, cut file by
  file, pair chunk \<open>i\<close> of the batch with embedding \<open>i\<close>; so the assertions that guard the cut never fire:
  a batch panics only if the embedder does or the write does.\<close>

theorem parallel_batch_pairs_chunks_and_embeddings:
  assumes "core_generate_embeddings E (concat (map pf_chunks processed)) (ix_calls st) = Some (Inr es, k)"
  shows "\<exists>files. split_embeddings processed es = (files, []) \<and>
     concat (map file_rows files) =
       map (\<lambda>(c, e). (chunk_id c, e, c)) (zip (concat (map pf_chunks processed)) es) \<and>
     map pp_path files = map pf_path processed \<and>
     process_and_index_batch E processed stats st =
       (case write_files E files [] (st\<lparr>ix_calls := k\<rparr>) of
          None \<Rightarrow> None
        | Some (Inl e, st1) \<Rightarrow> Some (Inl e, st1)
        | Some (Inr _, st1) \<Rightarrow>
            Some (Inr (stats\<lparr>indexed_files := indexed_files stats + length processed,
                             total_chunks := total_chunks stats + length (concat (map pf_chunks processed))\<rparr>), st1))"
proof -
  have "length es = length (concat (map pf_chunks processed))"
  proof (cases "en_batcher E")
    case (Inr b)
    then have "generate_embeddings_batched b (embed_documents (en_raw E) (batcher_runtime b))
        (concat (map pf_chunks processed)) (ix_calls st) = Some (Inr es, k)"
      using assms by (simp add: core_generate_embeddings_def)
    from list_all2_lengthD[OF gated.generate_ok[OF this]] show ?thesis by simp
  qed (use assms in \<open>simp add: core_generate_embeddings_def\<close>)
  moreover obtain files rest where sp: "split_embeddings processed es = (files, rest)" by force
  ultimately have cut: "rest = []" "map pp_path files = map pf_path processed"
    "concat (map file_rows files) = map (\<lambda>(c, e). (chunk_id c, e, c)) (zip (concat (map pf_chunks processed)) es)"
    using split_embeddings_rows[OF sp] by auto
  then show ?thesis using sp assms
    by (intro exI[of _ files]) (auto simp: process_and_index_batch_def Let_def split: option.split)
qed

subsection \<open>Properties of the operations on both stores\<close>

text \<open>C20: Dropping the files outside a tree removes from both stores exactly the rows of the files the tree does
  not list, answers with those files in order, publishes the result to readers, and forgets the files in
  the metadata cache so that they are embedded again if they come back.\<close>

theorem drop_files_outside_exact:
  assumes "engine_laws E rows committed pending kv"
    and "drop_files_outside E tree st = (Inr gone, st')" and "engine_laws.in_sync E rows pending st"
  shows "engine_laws.in_sync E rows pending st' \<and>
    engine_laws.stored E rows st' =
      filter_mset (\<lambda>x. row_path x \<in> path_str ` set tree) (engine_laws.stored E rows st) \<and>
    set gone = row_path ` set_mset (engine_laws.stored E rows st) - path_str ` set tree \<and> sorted gone \<and>
    (gone \<noteq> [] \<longrightarrow> committed (ix_bm25 st') = engine_laws.docs_of E (engine_laws.stored E rows st')) \<and>
    (\<forall>s \<in> set gone. kv (fp_cache (ix_fp st')) (cache_key (fp_salt (ix_fp st)) [s]) = None)"
  by (rule engine_laws.drop_files_outside_ok[OF assms])

text \<open>Clearing leaves nothing anywhere: no row, no pending or published document, no cache entry of any salt.\<close>

theorem clear_all_data_empties_everything:
  assumes "engine_laws E rows committed pending kv" and "clear_all_data E st = (Inr (), st')"
  shows "engine_laws.in_sync E rows pending st' \<and> engine_laws.stored E rows st' = {#} \<and>
         committed (ix_bm25 st') = {#} \<and> kv (fp_cache (ix_fp st')) = Map.empty"
  by (rule engine_laws.clear_all_data_ok[OF assms])

text \<open>The coverage repair ends the state in which a file is cached as done but has no vectors: afterwards
  every path the cache knows has rows in the vector store, and the stores are untouched.\<close>

theorem repair_leaves_no_stale_entry:
  assumes "engine_laws E rows committed pending kv"
    and "forget_files_without_vectors E st = (Inr stale, st')"
    and "lance_table.inv (en_lance E) rows (ix_store st)"
    and "cached_paths (en_gate E) (ix_fp st') = Inr cached" and "fp_salt (ix_fp st) \<noteq> []"
  shows "cached \<subseteq> row_path ` set_mset (engine_laws.stored E rows st') \<and>
         engine_laws.stored E rows st' = engine_laws.stored E rows st \<and> ix_bm25 st' = ix_bm25 st"
  by (rule engine_laws.forget_files_without_vectors_ok[OF assms])

text \<open>The keyword index is rebuilt from the vector store exactly when its last commit is empty and the store
  is not; the rebuilt index then holds, published, exactly the documents of the stored chunks, and the
  number reported is the number of rows.\<close>

theorem rebuild_bm25_restores_sync:
  assumes "engine_laws E rows committed pending kv"
    and "rebuild_bm25_if_empty (en_lance E) (en_tantivy E) t w = (Inr r, w')"
    and "lance_table.inv (en_lance E) rows t" and "pending w = committed w"
  shows "case r of
           None \<Rightarrow> w' = w \<and> (committed w \<noteq> {#} \<or> lance_table.view (en_lance E) rows t = {#})
         | Some n \<Rightarrow> committed w = {#} \<and> n = size (lance_table.view (en_lance E) rows t) \<and>
             committed w' = engine_laws.docs_of E (lance_table.view (en_lance E) rows t) \<and>
             pending w' = engine_laws.docs_of E (lance_table.view (en_lance E) rows t)"
  by (rule engine_laws.rebuild_ok[OF assms])

lemma index_file_Indexed:
  assumes "index_file E p st = Some (Inr (Indexed n), st')"
  obtains f st1 where "prepare_file E p True st = Some (Inr (Ready f), st1)" and "write_files E [f] [] st1 = Some (Inr (), st')"
    and "pp_chunks f \<noteq> []" and "n = length (pp_chunks f)"
  using assms
  by (auto simp: index_file_def index_file_impl_def split: option.splits prod.splits sum.splits preparation.splits if_splits)

text \<open>Indexing a file twice does the work once. After a file was indexed, indexing it again while it stays
  the same answers ``unchanged'' and leaves the indexer exactly as it is.\<close>

theorem indexing_twice_is_unchanged:
  assumes "engine_laws E rows committed pending kv"
    and "index_file E p st = Some (Inr (Indexed n), st')" and "is_ok (has_stat_changed (en_gate E) (ix_fp st') p)"
  shows "index_file E p st' = Some (Inr Unchanged, st')"
proof -
  obtain f st1 where prep: "prepare_file E p True st = Some (Inr (Ready f), st1)"
    and wr: "write_files E [f] [] st1 = Some (Inr (), st')" and ne: "pp_chunks f \<noteq> []"
    by (rule index_file_Indexed[OF assms(2)])
  have path: "pp_path f = p" using process_and_embed_ready[OF prepare_file_ready[OF prep]] by blast
  have up: "update_file_metadata (en_gate E) (ix_fp st1) p (pp_content f) = (Inr (), ix_fp st')"
    using engine_laws.write_files_recorded[OF assms(1) wr] ne path by (auto split: prod.splits sum.splits)
  have sled: "sled_store (g_sled (en_gate E)) kv" using assms(1) by (simp add: engine_laws_def)
  have stat: "has_stat_changed (en_gate E) (ix_fp st') p = Inr False"
    by (rule recorded_stat_unchanged[OF sled up assms(3)])
  have room: "ensure_index_disk_headroom E (en_root E) = Inr ()"
    and ok: "should_process_file (en_gate E) (ix_fp st) p = Inr True"
    using prep by (auto simp: prepare_file_def split: sum.splits bool.splits)
  have "ix_fp st1 = ix_fp st" using prepare_file_state[OF prep] by simp
  moreover have "fp_filter (ix_fp st') = fp_filter (ix_fp st1)" "fp_max_file_size (ix_fp st') = fp_max_file_size (ix_fp st1)"
    using update_file_metadata_keeps[of "en_gate E" "ix_fp st1" p "pp_content f"] by (simp_all add: up)
  ultimately have "should_process_file (en_gate E) (ix_fp st') p = Inr True"
    using ok by (auto simp: should_process_file_def split: if_splits sum.splits)
  then show ?thesis using room stat by (simp add: index_file_def index_file_impl_def prepare_file_def)
qed

lemma saturating_mul_unat: "unat (saturating_mul a b :: 'a::len word) = min (unat a * unat b) (2 ^ LENGTH('a) - 1)"
proof (cases "unat a * unat b < 2 ^ LENGTH('a)")
  case True
  then have "unat (a * b) = unat a * unat b" by (simp add: unat_mult_lem)
  then show ?thesis using True by (simp add: saturating_mul_def)
next
  case False
  then show ?thesis by (simp add: saturating_mul_def unsigned_minus_1_eq_mask mask_eq_exp_minus_1)
qed

text \<open>The headroom check compares true sizes: it holds iff the check is disabled or the free bytes reach the
  configured mebibytes, where a threshold beyond 64 bits is the largest 64-bit number and never wraps
  around to a small one.\<close>

theorem has_disk_headroom_exact:
  "has_disk_headroom available minimum_mb \<longleftrightarrow>
     minimum_mb = 0 \<or> min (unat minimum_mb * 2 ^ 20) (2 ^ 64 - 1) \<le> unat available"
  by (simp add: has_disk_headroom_def word_le_nat_alt saturating_mul_unat)

text \<open>A file that cannot be read is retried, whatever the reason. The reason is wrapped in a context, and the
  classifier reads the context only, so that even ``permission denied'' is a transient failure here.\<close>

theorem read_failure_is_transient:
  assumes "ensure_index_disk_headroom E (en_root E) = Inr ()"
    and "should_process_file (en_gate E) (ix_fp st) [''src'', ''a.rs''] = Inr True"
    and "fs_read_to_string (g_fs (en_gate E)) [''src'', ''a.rs''] = Inl reason"
  shows "\<exists>e. reindex_file E [''src'', ''a.rs''] st = Some (Inl e, st) \<and>
             retry_files (record_error stats [''src'', ''a.rs''] e) = retry_files stats @ [[''src'', ''a.rs'']]"
proof -
  let ?e = "with_context (''Failed to read file: '' @ path_str [''src'', ''a.rs'']) [reason]"
  have "reindex_file E [''src'', ''a.rs''] st = Some (Inl ?e, st)"
    using assms by (simp add: reindex_file_def index_file_impl_def prepare_file_def)
  moreover have "categorize_error (''Failed to read file: '' @ path_str [''src'', ''a.rs'']) = Transient" by code_simp
  then have "retry_files (record_error stats [''src'', ''a.rs''] ?e) = retry_files stats @ [[''src'', ''a.rs'']]"
    by (simp add: record_error_retry with_context_def anyhow_str_def)
  ultimately show ?thesis by blast
qed

subsection \<open>An engine at work\<close>

text \<open>Two files of one line each, a model of one component, all stores in memory.\<close>

definition demo_engine ::
  "((string \<times> file_metadata) list, file_metadata, code_chunk row list, code_chunk, bm25_doc list \<times> bm25_doc list) engine" where
  "demo_engine =
     \<lparr>en_gate = demo_gate demo_files 5000000000, en_lance = mem_lance, en_tantivy = mem_tantivy, en_dim = 1,
      en_split = demo_config, en_batcher = Inr demo_batcher, en_raw = demo_raw, en_min_free = 0,
      en_free = (\<lambda>_. Inl ''unsupported''), en_root = [''idx''], en_memory = 1000, en_cpus = 4\<rparr>"

definition demo_indexer :: "((string \<times> file_metadata) list, code_chunk row list, bm25_doc list \<times> bm25_doc list) indexer" where
  "demo_indexer = \<lparr>ix_fp = demo_processor, ix_store = [], ix_bm25 = ([], []), ix_ids = 0, ix_calls = 1\<rparr>"

interpretation demo_laws: engine_laws demo_engine mset "\<lambda>w. mset (fst w)" "\<lambda>w. mset (snd w)" map_of
proof (rule engine_laws.intro)
  show "lance_table (en_lance demo_engine) (en_dim demo_engine) mset"
    using mem_table.lance_table_axioms by (simp add: demo_engine_def)
  show "tantivy_index (en_tantivy demo_engine) (\<lambda>w. mset (fst w)) (\<lambda>w. mset (snd w))"
    using mem_bm25.tantivy_index_axioms by (simp add: demo_engine_def)
  show "sled_store (g_sled (en_gate demo_engine)) map_of"
    using demo_store by (simp add: demo_engine_def)
qed

lemma demo_in_sync: "demo_laws.in_sync demo_indexer"
  by (simp add: demo_laws.in_sync_def demo_laws.stored_def demo_laws.docs_of_def demo_indexer_def
      demo_laws.vs.inv_def demo_laws.vs.view_def)

definition demo_prepared :: prepared_file where
  "demo_prepared =
     \<lparr>pp_path = [''src'', ''a.rs''], pp_content = ''fn a() {}'',
      pp_chunks = [\<lparr>chunk_id = 0, content = ''fn a() {}'',
          ctx = \<lparr>file_path = [''src'', ''a.rs''], module_path = [''crate'', ''a''], symbol_name = ''f'',
                 symbol_kind = ''function'', docstring = None, file_imports = [], outgoing_calls = [],
                 parent_symbol_name = None, split_part = None, split_total = None, line_start = 1, line_end = 1\<rparr>\<rparr>],
      pp_embeddings = [[Finite 95]]\<rparr>"

definition demo_written ::
  "((string \<times> file_metadata) list, code_chunk row list, bm25_doc list \<times> bm25_doc list) indexer" where
  "demo_written = snd (the (write_files demo_engine [demo_prepared] [] demo_indexer))"

definition demo_done ::
  "((string \<times> file_metadata) list, code_chunk row list, bm25_doc list \<times> bm25_doc list) indexer" where
  "demo_done = demo_written\<lparr>ix_ids := 1, ix_calls := 2\<rparr>"

lemma demo_prepare:
  "prepare_file demo_engine [''src'', ''a.rs''] True demo_indexer =
     Some (Inr (Ready demo_prepared), demo_indexer\<lparr>ix_ids := 1, ix_calls := 2\<rparr>)"
  by code_simp

lemma demo_write: "write_files demo_engine [demo_prepared] [] demo_indexer = Some (Inr (), demo_written)"
  by code_simp

lemma demo_index: "index_file demo_engine [''src'', ''a.rs''] demo_indexer = Some (Inr (Indexed 1), demo_done)"
  by code_simp

lemma demo_prepared_ok: "list_all (prepared_ok (en_dim demo_engine)) [demo_prepared]"
  by (simp add: prepared_ok_def demo_prepared_def demo_engine_def)

lemma demo_written_in_sync: "demo_laws.in_sync demo_written"
  using demo_laws.write_files_ok[OF demo_write demo_in_sync] demo_prepared_ok by simp

lemma demo_stored: "demo_laws.stored demo_written = mset (file_rows demo_prepared)"
  using demo_laws.write_files_ok[OF demo_write demo_in_sync] demo_prepared_ok
  by (simp add: demo_laws.stored_def demo_indexer_def demo_laws.vs.view_def)

lemmas demo_axioms = demo_laws.engine_laws_axioms

theorem prepared_file_is_complete_witness:
  "pp_chunks demo_prepared \<noteq> [] \<and> length (pp_embeddings demo_prepared) = length (pp_chunks demo_prepared)"
  using prepared_file_is_complete[OF demo_prepare] by blast

theorem prepare_file_writes_nothing_witness:
  "ix_store (demo_indexer\<lparr>ix_ids := 1, ix_calls := 2\<rparr>) = ix_store demo_indexer"
  using prepare_file_writes_nothing[OF demo_prepare] by blast

theorem reindex_still_consults_the_cache_witness:
  "reindex_file demo_engine [''src'', ''a.rs''] demo_done = Some (Inl (to_anyhow (Parser OUTCOME_FILE_UNCHANGED)), demo_done)"
proof (rule reindex_still_consults_the_cache)
  show "ensure_index_disk_headroom demo_engine (en_root demo_engine) = Inr ()" by code_simp
  show "should_process_file (en_gate demo_engine) (ix_fp demo_done) [''src'', ''a.rs''] = Inr True" by code_simp
  show "fs_read_to_string (g_fs (en_gate demo_engine)) [''src'', ''a.rs''] = Inr ''fn a() {}''" by code_simp
  show "has_stat_changed (en_gate demo_engine) (ix_fp demo_done) [''src'', ''a.rs''] = Inr False" by code_simp
qed

theorem write_files_replaces_witness:
  "demo_laws.in_sync demo_written \<and> committed_doc_count (en_tantivy demo_engine) (ix_bm25 demo_written) = Inr 0"
proof -
  have "demo_laws.in_sync demo_written"
    using write_files_replaces[OF demo_axioms demo_write demo_in_sync] demo_prepared_ok by simp
  moreover have "committed_doc_count (en_tantivy demo_engine) (ix_bm25 demo_written) = Inr 0" by code_simp
  ultimately show ?thesis by blast
qed

theorem index_directory_accounts_for_every_file_witness:
  "length (fst (collect_project_rust_files (g_fs (en_gate demo_engine)) [''src''])) = 2"
proof -
  have "map_option (map_prod (map_sum id total_files) (\<lambda>_. ())) (index_directory demo_engine [''src''] demo_indexer) = Some (Inr 2, ())"
    by code_simp
  then obtain stats st where "index_directory demo_engine [''src''] demo_indexer = Some (Inr stats, st)" "total_files stats = 2"
    by (auto elim!: map_sum_InrE)
  with index_directory_accounts_for_every_file[OF this(1)] show ?thesis by simp
qed

theorem index_directory_of_empty_tree_keeps_everything_witness:
  "index_directory (demo_engine\<lparr>en_gate := demo_gate [] 5000000000\<rparr>) [''src''] demo_done = Some (Inr IndexStats_unchanged, demo_done)"
  by (rule index_directory_of_empty_tree_keeps_everything) code_simp

theorem parallel_batch_pairs_chunks_and_embeddings_witness:
  "\<exists>files. map pp_path files = [[''src'', ''a.rs'']] \<and>
     concat (map file_rows files) = file_rows demo_prepared"
proof -
  let ?f = "\<lparr>pf_path = pp_path demo_prepared, pf_content = pp_content demo_prepared, pf_chunks = pp_chunks demo_prepared\<rparr>"
  have "core_generate_embeddings demo_engine (concat (map pf_chunks [?f])) (ix_calls demo_indexer) = Some (Inr [[Finite 95]], 2)"
    by code_simp
  from parallel_batch_pairs_chunks_and_embeddings[OF this] obtain files where
    "map pp_path files = map pf_path [?f]"
    "concat (map file_rows files) = map (\<lambda>(c, e). (chunk_id c, e, c)) (zip (concat (map pf_chunks [?f])) [[Finite 95]])"
    by blast
  then show ?thesis by (intro exI[of _ files]) (simp add: demo_prepared_def file_rows_def)
qed

theorem drop_files_outside_exact_witness:
  "demo_laws.stored (snd (drop_files_outside demo_engine [[''src'', ''b.rs'']] demo_written)) = {#}"
proof -
  have "drop_files_outside demo_engine [[''src'', ''b.rs'']] demo_written =
      (Inr [''src/a.rs''], snd (drop_files_outside demo_engine [[''src'', ''b.rs'']] demo_written))" by code_simp
  from drop_files_outside_exact[OF demo_axioms this demo_written_in_sync] show ?thesis
    by (simp add: demo_stored file_rows_def demo_prepared_def path_str_def)
qed

theorem clear_all_data_empties_everything_witness:
  "demo_laws.stored (snd (clear_all_data demo_engine demo_written)) = {#}"
proof -
  have "clear_all_data demo_engine demo_written = (Inr (), snd (clear_all_data demo_engine demo_written))" by code_simp
  from clear_all_data_empties_everything[OF demo_axioms this] show ?thesis by blast
qed

theorem repair_leaves_no_stale_entry_witness:
  "cached_paths (en_gate demo_engine) (ix_fp (snd (forget_files_without_vectors demo_engine (demo_written\<lparr>ix_store := []\<rparr>)))) = Inr {}"
proof -
  let ?st = "demo_written\<lparr>ix_store := []\<rparr>"
  let ?r = "forget_files_without_vectors demo_engine ?st"
  have run: "?r = (Inr [''src/a.rs''], snd ?r)" by code_simp
  have inv: "demo_laws.vs.inv (ix_store ?st)" by (simp add: demo_laws.vs.inv_def)
  have "is_ok (cached_paths (en_gate demo_engine) (ix_fp (snd ?r)))" by code_simp
  then obtain cached where c: "cached_paths (en_gate demo_engine) (ix_fp (snd ?r)) = Inr cached"
    by (cases "cached_paths (en_gate demo_engine) (ix_fp (snd ?r))") auto
  have "fp_salt (ix_fp ?st) \<noteq> []" by code_simp
  from repair_leaves_no_stale_entry[OF demo_axioms run inv c this]
  have "cached \<subseteq> row_path ` set_mset (demo_laws.stored ?st)" by (elim conjE) simp
  then have "cached = {}" by (simp add: demo_laws.stored_def demo_laws.vs.view_def)
  with c show ?thesis by simp
qed

theorem rebuild_bm25_restores_sync_witness:
  "mset (snd (ix_bm25 demo_written)) = demo_laws.docs_of (demo_laws.stored demo_written)"
proof -
  have run: "rebuild_bm25_if_empty (en_lance demo_engine) (en_tantivy demo_engine) (ix_store demo_written) ([], []) =
      (Inr (Some 1), (snd (ix_bm25 demo_written), snd (ix_bm25 demo_written)))" by code_simp
  have inv: "demo_laws.vs.inv (ix_store demo_written)" using demo_written_in_sync by (simp add: demo_laws.in_sync_def)
  from rebuild_bm25_restores_sync[OF demo_axioms run inv] show ?thesis by (simp add: demo_laws.stored_def)
qed

theorem indexing_twice_is_unchanged_witness:
  "index_file demo_engine [''src'', ''a.rs''] demo_done = Some (Inr Unchanged, demo_done)"
proof (rule indexing_twice_is_unchanged[OF demo_axioms demo_index])
  show "is_ok (has_stat_changed (en_gate demo_engine) (ix_fp demo_done) [''src'', ''a.rs''])" by code_simp
qed

text \<open>A vector store that refuses every row.\<close>

theorem failed_store_write_records_nothing_witness:
  "\<exists>e st. write_files (demo_engine\<lparr>en_dim := 2\<rparr>) [demo_prepared] [] demo_indexer = Some (Inl e, st) \<and>
     ix_fp st = ix_fp demo_indexer"
proof -
  let ?w = "write_files (demo_engine\<lparr>en_dim := 2\<rparr>) [demo_prepared] [] demo_indexer"
  have fail: "map_option (\<lambda>(r, st). is_ok r) ?w = Some False" by code_simp
  then obtain r st where r: "?w = Some (r, st)" "\<not> is_ok r" by auto
  then obtain e where w: "?w = Some (Inl e, st)" by (cases r) auto
  have "fst (record_files (en_gate (demo_engine\<lparr>en_dim := 2\<rparr>)) [demo_prepared] (ix_fp demo_indexer)) = Inr ()" by code_simp
  with failed_store_write_records_nothing[OF w] have "ix_fp st = ix_fp demo_indexer" by auto
  with w show ?thesis by blast
qed

theorem read_failure_is_transient_witness:
  "\<exists>e. retry_files (record_error IndexStats_unchanged [''src'', ''a.rs''] e) = [[''src'', ''a.rs'']]"
proof -
  let ?fs = "(demo_fs demo_files 5000000000)\<lparr>fs_read_to_string := \<lambda>_. Inl ''Permission denied (os error 13)''\<rparr>"
  let ?E = "demo_engine\<lparr>en_gate := (demo_gate demo_files 5000000000)\<lparr>g_fs := ?fs\<rparr>\<rparr>"
  have "ensure_index_disk_headroom ?E (en_root ?E) = Inr ()" by code_simp
  moreover have "should_process_file (en_gate ?E) (ix_fp demo_indexer) [''src'', ''a.rs''] = Inr True" by code_simp
  moreover have "fs_read_to_string (g_fs (en_gate ?E)) [''src'', ''a.rs''] = Inl ''Permission denied (os error 13)''" by simp
  ultimately show ?thesis using read_failure_is_transient[of ?E demo_indexer _ IndexStats_unchanged]
    by (auto simp: IndexStats_unchanged_def)
qed

end
