(* ===== verification/Incremental.thy ===== *)
theory Incremental
  imports Unified_Indexer Merkle
begin

text \<open>
  The incremental run (\<open>crates/rmc-indexing/src/indexing/incremental.rs\<close>, \<open>incremental_service.rs\<close>, and the
  construction of the indexer in \<open>unified.rs\<close>): the change detection of \<open>Merkle\<close> decides what the indexer
  of \<open>Unified_Indexer\<close> prepares and writes, and the snapshot that is saved at the end keeps what failed.

  The record \<open>sync_env\<close> collects what a run is given: the engines, the hash and encoding of snapshots, the
  outcome of opening the parts of an indexer, and what dropping a Tantivy writer leaves. The record \<open>sync_state\<close>
  is the state of an \<open>IncrementalIndexer\<close> together with what it finds on disk: while it is not opened,
  \<open>sy_ix\<close> stands for the contents of the stores. \<open>sy_trace\<close> records, in order, when readers are kept out and let
  in and when the stores are written; nothing depends on it.
\<close>

subsection \<open>State and environment\<close>

datatype reader_exclusion = HeldByCaller | AroundPublish

datatype sync_event = ReadersOut | StoreWrite | Bm25Commit | ReadersIn

record ('d, 'b, 't, 'j, 'w, 'h) sync_env =
  se_engine :: "('d, 'b, 't, 'j, 'w) engine"
  se_sha :: "string \<Rightarrow> 'h"
  se_mroot :: "'h list \<Rightarrow> 'h option"
  se_zero :: 'h
  se_ser :: "'h merkle_snapshot \<Rightarrow> string"
  se_de :: "string \<Rightarrow> (string, 'h merkle_snapshot) result"
  se_io :: save_io
  se_pid :: nat
  se_now :: int
  se_snapshot :: string
  se_cache_path :: path
  se_core :: "(indexing_error, unit) result"          \<comment> \<open>\<open>IndexerCore::with_backend\<close>\<close>
  se_writer :: "(anyhow, unit) result"                \<comment> \<open>\<open>TantivyAdapter::new\<close>\<close>
  se_table :: "(vector_store_error, unit) result"     \<comment> \<open>directory, connection and table of the store\<close>
  se_metadata :: "(vector_store_error, unit) result"  \<comment> \<open>writing its metadata file\<close>
  se_clock :: string
  se_identity :: string
  se_meta_exists :: bool                              \<comment> \<open>\<open>meta.json\<close> of the keyword index\<close>
  se_index_opens :: "(anyhow, unit) result"
  se_drop_writer :: "'w \<Rightarrow> 'w"                       \<comment> \<open>the index a dropped writer leaves\<close>
  se_remove :: "(string, unit) result"                \<comment> \<open>\<open>std::fs::remove_file\<close>\<close>

record ('d, 't, 'w) sync_state =
  sy_ix :: "('d, 't, 'w) indexer"
  sy_opened :: bool
  sy_store_disk :: store_disk
  sy_disk :: disk
  sy_trace :: "sync_event list"

record publishing =
  pb_exclusion :: reader_exclusion
  pb_entered :: bool
  pb_guard :: bool

definition exclude :: "reader_exclusion \<Rightarrow> sync_event list \<Rightarrow> bool \<times> sync_event list" where
  "exclude x tr = (case x of HeldByCaller \<Rightarrow> (False, tr) | AroundPublish \<Rightarrow> (True, tr @ [ReadersOut]))"

definition drop_guard :: "bool \<Rightarrow> sync_event list \<Rightarrow> sync_event list" where
  "drop_guard guard tr = (if guard then tr @ [ReadersIn] else tr)"

definition Publishing_new :: "reader_exclusion \<Rightarrow> publishing" where
  "Publishing_new x = \<lparr>pb_exclusion = x, pb_entered = False, pb_guard = False\<rparr>"

definition before_write :: "publishing \<Rightarrow> sync_event list \<Rightarrow> publishing \<times> sync_event list" where
  "before_write pb tr =
     (if pb_entered pb then (pb, tr)
      else case exclude (pb_exclusion pb) tr of (g, tr') \<Rightarrow> (pb\<lparr>pb_guard := g, pb_entered := True\<rparr>, tr'))"

subsection \<open>Opening the indexer\<close>

definition for_embedded_with_backend ::
  "('d, 'b, 't, 'j, 'w, 'h) sync_env \<Rightarrow> ('d, 't, 'w) sync_state \<Rightarrow> (anyhow, unit) result \<times> ('d, 't, 'w) sync_state" where
  "for_embedded_with_backend Y s =
     (case se_core Y of
        Inl e \<Rightarrow> (Inl (to_anyhow e), s)
      | Inr _ \<Rightarrow>
     (case se_writer Y of
        Inl e \<Rightarrow> (Inl e, s)
      | Inr _ \<Rightarrow>
     (case LanceDbBackend_new (se_table Y) (se_metadata Y) (se_clock Y) (se_identity Y) (sy_store_disk s) of
        (Inl e, d) \<Rightarrow>
          (Inl [''Failed to initialize VectorStore: '' @ vector_store_error_str e], s\<lparr>sy_store_disk := d\<rparr>)
      | (Inr _, d) \<Rightarrow>
          (let ix = sy_ix s; E = se_engine Y in
           case rebuild_bm25_if_empty (en_lance E) (en_tantivy E) (ix_store ix) (ix_bm25 ix) of
             (Inl e, w) \<Rightarrow> (Inl e, s\<lparr>sy_store_disk := d, sy_ix := ix\<lparr>ix_bm25 := se_drop_writer Y w\<rparr>\<rparr>)
           | (Inr _, w) \<Rightarrow> (Inr (), s\<lparr>sy_store_disk := d, sy_ix := ix\<lparr>ix_bm25 := w\<rparr>, sy_opened := True\<rparr>)))))"

definition ensure_indexer ::
  "('d, 'b, 't, 'j, 'w, 'h) sync_env \<Rightarrow> ('d, 't, 'w) sync_state \<Rightarrow> (anyhow, unit) result \<times> ('d, 't, 'w) sync_state" where
  "ensure_indexer Y s = (if sy_opened s then (Inr (), s) else for_embedded_with_backend Y s)"

definition rebuild_bm25_from_existing_store ::
  "('d, 'b, 't, 'j, 'w, 'h) sync_env \<Rightarrow> ('d, 't, 'w) sync_state \<Rightarrow>
   (anyhow, nat option) result \<times> ('d, 't, 'w) sync_state" where
  "rebuild_bm25_from_existing_store Y s =
     (case LanceDbBackend_open_existing (se_identity Y) (sy_store_disk s) of
        Inl (NotFound _) \<Rightarrow> (Inr None, s)
      | Inl e \<Rightarrow> (Inl [''Failed to open the vector store: '' @ vector_store_error_str e], s)
      | Inr _ \<Rightarrow>
          (case se_writer Y of
             Inl e \<Rightarrow> (Inl e, s)
           | Inr _ \<Rightarrow>
               (let ix = sy_ix s; E = se_engine Y in
                case rebuild_bm25_if_empty (en_lance E) (en_tantivy E) (ix_store ix) (ix_bm25 ix) of
                  (r, w) \<Rightarrow> (r, s\<lparr>sy_ix := ix\<lparr>ix_bm25 := se_drop_writer Y w\<rparr>\<rparr>))))"

definition bm25_empty_at :: "('d, 'b, 't, 'j, 'w, 'h) sync_env \<Rightarrow> 'w \<Rightarrow> (anyhow, bool) result" where
  "bm25_empty_at Y w =
     is_empty_at (se_meta_exists Y)
       (and_then (se_index_opens Y) (\<lambda>_.
          ctx_err ''Failed to read Tantivy segment metas'' (tw_segment_docs (en_tantivy (se_engine Y)) w)))"

subsection \<open>Pending writes\<close>

definition WRITE_BATCH_ROWS :: nat where
  "WRITE_BATCH_ROWS = 20000"

record pending_write =
  pw_files :: "prepared_file list"
  pw_rows :: nat
  pw_gone :: "path list"
  pw_cleared :: "path list"

definition PendingWrite_default :: pending_write where
  "PendingWrite_default = \<lparr>pw_files = [], pw_rows = 0, pw_gone = [], pw_cleared = []\<rparr>"

definition retry_path :: "index_stats \<Rightarrow> path \<Rightarrow> index_stats" where
  "retry_path stats p = stats\<lparr>failed_files := failed_files stats + 1, retry_files := retry_files stats @ [p]\<rparr>"

definition count_written :: "index_stats \<Rightarrow> nat \<Rightarrow> index_stats" where
  "count_written stats chunks =
     (if chunks = 0 then stats\<lparr>skipped_files := skipped_files stats + 1\<rparr>
      else stats\<lparr>indexed_files := indexed_files stats + 1, total_chunks := total_chunks stats + chunks\<rparr>)"

fun forget_gone ::
  "('d, 'b) gate \<Rightarrow> path list \<Rightarrow> index_stats \<Rightarrow> 'd file_processor \<Rightarrow> index_stats \<times> 'd file_processor" where
  "forget_gone G [] stats fp = (stats, fp)"
| "forget_gone G (p # ps) stats fp =
     (case forget_file G fp p of
        (Inl _, fp') \<Rightarrow> forget_gone G ps (retry_path stats p) fp'
      | (Inr _, fp') \<Rightarrow> forget_gone G ps (stats\<lparr>skipped_files := skipped_files stats + 1\<rparr>) fp')"

definition flush ::
  "('d, 'b, 't, 'j, 'w) engine \<Rightarrow> pending_write \<Rightarrow> index_stats \<Rightarrow> ('d, 't, 'w) indexer \<Rightarrow>
   (index_stats \<times> ('d, 't, 'w) indexer) option" where
  "flush E pw stats st =
     (let removed = pw_gone pw @ pw_cleared pw in
      case write_files E (pw_files pw) removed st of
        None \<Rightarrow> None
      | Some (Inl _, st1) \<Rightarrow> Some (foldl retry_path stats (map pp_path (pw_files pw) @ removed), st1)
      | Some (Inr _, st1) \<Rightarrow>
          (let stats1 = stats\<lparr>skipped_files := skipped_files stats + length (pw_cleared pw)\<rparr>;
               stats2 = foldl count_written stats1 (map (length \<circ> pp_chunks) (pw_files pw))
           in case forget_gone (en_gate E) (pw_gone pw) stats2 (ix_fp st1) of
                (stats3, fp) \<Rightarrow> Some (stats3, st1\<lparr>ix_fp := fp\<rparr>)))"

subsection \<open>Processing changes\<close>

text \<open>The \<open>match\<close> on a preparation; \<open>consult\<close> is false for modified files.\<close>

definition take_preparation ::
  "path \<Rightarrow> bool \<Rightarrow> (anyhow, preparation) result \<Rightarrow> pending_write \<Rightarrow> index_stats \<Rightarrow> pending_write \<times> index_stats" where
  "take_preparation p consult r pw stats =
     (case r of
        Inr (Ready f) \<Rightarrow>
          (pw\<lparr>pw_rows := pw_rows pw + length (pp_chunks f), pw_files := pw_files pw @ [f]\<rparr>, stats)
      | Inr PrepSkipped \<Rightarrow>
          if \<not> consult then (pw\<lparr>pw_cleared := pw_cleared pw @ [p]\<rparr>, stats)
          else (pw, stats\<lparr>skipped_files := skipped_files stats + 1\<rparr>)
      | Inr PrepUnchanged \<Rightarrow> (pw, stats\<lparr>skipped_files := skipped_files stats + 1\<rparr>)
      | Inl e \<Rightarrow> (pw, record_error stats p e))"

type_synonym ('d, 't, 'w) run = "pending_write \<times> index_stats \<times> publishing \<times> sync_event list \<times> ('d, 't, 'w) indexer"

definition write_out ::
  "('d, 'b, 't, 'j, 'w) engine \<Rightarrow> ('d, 't, 'w) run \<Rightarrow> ('d, 't, 'w) run option" where
  "write_out E run =
     (case run of (pw, stats, pb, tr, st) \<Rightarrow>
        (case before_write pb tr of (pb', tr') \<Rightarrow>
           (case flush E pw stats st of
              None \<Rightarrow> None
            | Some (stats', st') \<Rightarrow> Some (PendingWrite_default, stats', pb', tr' @ [StoreWrite], st'))))"

fun prepare_changes ::
  "('d, 'b, 't, 'j, 'w) engine \<Rightarrow> (path \<times> bool) list \<Rightarrow> ('d, 't, 'w) run \<Rightarrow> ('d, 't, 'w) run option" where
  "prepare_changes E [] run = Some run"
| "prepare_changes E ((p, consult) # todo) (pw, stats, pb, tr, st) =
     (case prepare_file E p consult st of
        None \<Rightarrow> None
      | Some (r, st1) \<Rightarrow>
          (case take_preparation p consult r pw stats of (pw1, stats1) \<Rightarrow>
             if WRITE_BATCH_ROWS \<le> pw_rows pw1
             then case write_out E (pw1, stats1, pb, tr, st1) of
                    None \<Rightarrow> None
                  | Some run \<Rightarrow> prepare_changes E todo run
             else prepare_changes E todo (pw1, stats1, pb, tr, st1)))"

definition to_prepare :: "change_set \<Rightarrow> (path \<times> bool) list" where
  "to_prepare changes = map (\<lambda>p. (p, False)) (modified changes) @ map (\<lambda>p. (p, True)) (added changes)"

definition process_changes ::
  "('d, 'b, 't, 'j, 'w, 'h) sync_env \<Rightarrow> change_set \<Rightarrow> reader_exclusion \<Rightarrow> ('d, 't, 'w) sync_state \<Rightarrow>
   ((anyhow, index_stats) result \<times> ('d, 't, 'w) sync_state) option" where
  "process_changes Y changes x s =
     (case ensure_indexer Y s of
        (Inl e, s1) \<Rightarrow> Some (Inl e, s1)
      | (Inr _, s1) \<Rightarrow>
     (let E = se_engine Y in
      case ensure_index_disk_headroom E (se_cache_path Y) of
        Inl e \<Rightarrow> Some (Inl e, s1)
      | Inr _ \<Rightarrow>
     (case prepare_changes E (to_prepare changes)
             (PendingWrite_default\<lparr>pw_gone := deleted changes\<rparr>, IndexStats_unchanged, Publishing_new x,
              sy_trace s1, sy_ix s1) of
        None \<Rightarrow> None
      | Some run \<Rightarrow>
     (case write_out E run of
        None \<Rightarrow> None
      | Some (pw, stats, pb, tr, st) \<Rightarrow>
     (case commit_bm25 E st of
        (Inl e, st') \<Rightarrow> Some (Inl e, s1\<lparr>sy_ix := st', sy_trace := drop_guard (pb_guard pb) tr\<rparr>)
      | (Inr _, st') \<Rightarrow>
          Some (Inr (if 0 < indexed_files stats \<or> 0 < length (deleted changes)
                     then stats\<lparr>needs_maintenance := True\<rparr> else stats),
                s1\<lparr>sy_ix := st', sy_trace := drop_guard (pb_guard pb) (tr @ [Bm25Commit])\<rparr>))))))"

subsection \<open>The run\<close>

definition unchanged_stats :: "'h fs_merkle \<Rightarrow> index_stats" where
  "unchanged_stats new = IndexStats_unchanged\<lparr>unchanged_files := file_count new, total_files := file_count new\<rparr>"

definition incremental_update ::
  "('d, 'b, 't, 'j, 'w, 'h) sync_env \<Rightarrow> 'h fs_merkle \<Rightarrow> 'h fs_merkle \<Rightarrow> reader_exclusion \<Rightarrow> ('d, 't, 'w) sync_state \<Rightarrow>
   ((anyhow, index_stats) result \<times> ('d, 't, 'w) sync_state) option" where
  "incremental_update Y old new x s =
     (if \<not> has_changes (se_mroot Y) new old then Some (Inr (unchanged_stats new), s)
      else
        let changes = detect_changes (se_mroot Y) new old in
        if ChangeSet_is_empty changes then Some (Inr (unchanged_stats new), s)
        else case process_changes Y changes x s of
               None \<Rightarrow> None
             | Some (Inl e, s1) \<Rightarrow> Some (Inl e, s1)
             | Some (Inr stats, s1) \<Rightarrow> Some (Inr (stats\<lparr>total_files := file_count new\<rparr>), s1))"

text \<open>The first run: the readers stay out for all of the parallel pass, which the trace shows as one write.\<close>

definition full_index ::
  "('d, 'b, 't, 'j, 'w, 'h) sync_env \<Rightarrow> path \<Rightarrow> reader_exclusion \<Rightarrow> ('d, 't, 'w) sync_state \<Rightarrow>
   ((anyhow, index_stats) result \<times> ('d, 't, 'w) sync_state) option" where
  "full_index Y dir x s =
     (case exclude x (sy_trace s) of (g, tr) \<Rightarrow>
        (case ensure_indexer Y (s\<lparr>sy_trace := tr\<rparr>) of
           (Inl e, s1) \<Rightarrow> Some (Inl e, s1\<lparr>sy_trace := drop_guard g (sy_trace s1)\<rparr>)
         | (Inr _, s1) \<Rightarrow>
             (case index_directory_parallel (se_engine Y) dir (sy_ix s1) of
                None \<Rightarrow> None
              | Some (r, st) \<Rightarrow>
                  Some (r, s1\<lparr>sy_ix := st, sy_trace := drop_guard g (sy_trace s1 @ [StoreWrite, Bm25Commit])\<rparr>))))"

text \<open>The refill of an empty keyword index below an existing snapshot.\<close>

definition refill_bm25 ::
  "('d, 'b, 't, 'j, 'w, 'h) sync_env \<Rightarrow> 'h fs_merkle option \<Rightarrow> ('d, 't, 'w) sync_state \<Rightarrow>
   (anyhow, unit) result \<times> ('d, 't, 'w) sync_state" where
  "refill_bm25 Y old s =
     (if old = None \<or> sy_opened s then (Inr (), s)
      else case bm25_empty_at Y (ix_bm25 (sy_ix s)) of
             Inl e \<Rightarrow> (Inl e, s)
           | Inr False \<Rightarrow> (Inr (), s)
           | Inr True \<Rightarrow>
               (case rebuild_bm25_from_existing_store Y s of
                  (Inl e, s1) \<Rightarrow> (Inl e, s1)
                | (Inr _, s1) \<Rightarrow> (Inr (), s1)))"

definition index_with_change_detection ::
  "('d, 'b, 't, 'j, 'w, 'h) sync_env \<Rightarrow> path \<Rightarrow> reader_exclusion \<Rightarrow> ('d, 't, 'w) sync_state \<Rightarrow>
   ((anyhow, index_stats) result \<times> ('d, 't, 'w) sync_state) option" where
  "index_with_change_detection Y dir x s =
     (case ensure_index_disk_headroom (se_engine Y) (se_cache_path Y) of
        Inl e \<Rightarrow> Some (Inl e, s)
      | Inr _ \<Rightarrow>
     (case load_snapshot (se_de Y) (se_snapshot Y) (sy_disk s) of
        Inl e \<Rightarrow> Some (Inl [e], s)
      | Inr old \<Rightarrow>
     (case from_directory (se_sha Y) (g_fs (en_gate (se_engine Y))) dir of
        Inl e \<Rightarrow> Some (Inl [e], s)
      | Inr new \<Rightarrow>
     (case refill_bm25 Y old s of
        (Inl e, s1) \<Rightarrow> Some (Inl e, s1)
      | (Inr _, s1) \<Rightarrow>
     (case (case old of Some prev \<Rightarrow> incremental_update Y prev new x s1 | None \<Rightarrow> full_index Y dir x s1) of
        None \<Rightarrow> None
      | Some (Inl e, s2) \<Rightarrow> Some (Inl e, s2)
      | Some (Inr stats, s2) \<Rightarrow>
     (case snapshot_with_retries new old (retry_files stats) of
        None \<Rightarrow> None
      | Some final \<Rightarrow>
     (case save_snapshot (se_ser Y) (se_mroot Y) (se_zero Y) (se_io Y) (se_pid Y) (se_now Y) final
             (se_snapshot Y) (sy_disk s2) of
        (d, Inl e) \<Rightarrow> Some (Inl [e], s2\<lparr>sy_disk := d\<rparr>)
      | (d, Inr _) \<Rightarrow> Some (Inr stats, s2\<lparr>sy_disk := d\<rparr>))))))))"

subsection \<open>The service\<close>

definition sync_clear_all_data ::
  "('d, 'b, 't, 'j, 'w, 'h) sync_env \<Rightarrow> ('d, 't, 'w) sync_state \<Rightarrow> (anyhow, unit) result \<times> ('d, 't, 'w) sync_state" where
  "sync_clear_all_data Y s =
     (case ensure_indexer Y s of
        (Inl e, s1) \<Rightarrow> (Inl e, s1)
      | (Inr _, s1) \<Rightarrow> (case clear_all_data (se_engine Y) (sy_ix s1) of (r, st) \<Rightarrow> (r, s1\<lparr>sy_ix := st\<rparr>)))"

definition sync_forget_files_without_vectors ::
  "('d, 'b, 't, 'j, 'w, 'h) sync_env \<Rightarrow> ('d, 't, 'w) sync_state \<Rightarrow>
   (anyhow, string list) result \<times> ('d, 't, 'w) sync_state" where
  "sync_forget_files_without_vectors Y s =
     (case ensure_indexer Y s of
        (Inl e, s1) \<Rightarrow> (Inl e, s1)
      | (Inr _, s1) \<Rightarrow>
          (case forget_files_without_vectors (se_engine Y) (sy_ix s1) of (r, st) \<Rightarrow> (r, s1\<lparr>sy_ix := st\<rparr>)))"

definition drop_files_outside_tree ::
  "('d, 'b, 't, 'j, 'w, 'h) sync_env \<Rightarrow> path \<Rightarrow> ('d, 't, 'w) sync_state \<Rightarrow>
   (anyhow, string list) result \<times> ('d, 't, 'w) sync_state" where
  "drop_files_outside_tree Y dir s =
     (case collect_project_rust_files (g_fs (en_gate (se_engine Y))) dir of (tree, walk_errors) \<Rightarrow>
        if 0 < walk_errors then (Inr [], s)
        else case ensure_indexer Y s of
               (Inl e, s1) \<Rightarrow> (Inl e, s1)
             | (Inr _, s1) \<Rightarrow>
                 (case drop_files_outside (se_engine Y) tree (sy_ix s1) of (r, st) \<Rightarrow> (r, s1\<lparr>sy_ix := st\<rparr>)))"

definition remove_snapshot ::
  "('d, 'b, 't, 'j, 'w, 'h) sync_env \<Rightarrow> string option \<Rightarrow> ('d, 't, 'w) sync_state \<Rightarrow>
   (anyhow, unit) result \<times> ('d, 't, 'w) sync_state" where
  "remove_snapshot Y name s =
     (case name of
        None \<Rightarrow> (Inr (), s)
      | Some n \<Rightarrow>
          if sy_disk s n = None then (Inr (), s)
          else case se_remove Y of
                 Inl e \<Rightarrow> (Inl (with_context (''Failed to delete snapshot at '' @ n) [e]), s)
               | Inr _ \<Rightarrow> (Inr (), s\<lparr>sy_disk := (sy_disk s)(n := None)\<rparr>))"

record index_request =
  rq_path :: path
  rq_snapshot :: "string option"
  rq_force :: bool
  rq_repair :: bool
  rq_exclusion :: reader_exclusion

record index_outcome =
  oc_stats :: index_stats
  oc_repaired :: "string list"
  oc_dropped :: "string list"
  oc_maintenance :: bool

text \<open>The repair step, its two lists empty when it does not apply.\<close>

definition repair_coverage ::
  "('d, 'b, 't, 'j, 'w, 'h) sync_env \<Rightarrow> index_request \<Rightarrow> ('d, 't, 'w) sync_state \<Rightarrow>
   (anyhow, string list \<times> string list) result \<times> ('d, 't, 'w) sync_state" where
  "repair_coverage Y rq s =
     (if \<not> (rq_repair rq \<and> \<not> rq_force rq) then (Inr ([], []), s)
      else case sync_forget_files_without_vectors Y s of
             (Inl e, s1) \<Rightarrow> (Inl e, s1)
           | (Inr repaired, s1) \<Rightarrow>
               (case drop_files_outside_tree Y (rq_path rq) s1 of
                  (Inl e, s2) \<Rightarrow> (Inl e, s2)
                | (Inr dropped, s2) \<Rightarrow>
                    if repaired = [] then (Inr (repaired, dropped), s2)
                    else case remove_snapshot Y (rq_snapshot rq) s2 of
                           (Inl e, s3) \<Rightarrow> (Inl e, s3)
                         | (Inr _, s3) \<Rightarrow> (Inr (repaired, dropped), s3)))"

definition prepare_run ::
  "('d, 'b, 't, 'j, 'w, 'h) sync_env \<Rightarrow> index_request \<Rightarrow> ('d, 't, 'w) sync_state \<Rightarrow>
   (anyhow, string list \<times> string list) result \<times> ('d, 't, 'w) sync_state" where
  "prepare_run Y rq s =
     (if \<not> rq_force rq then repair_coverage Y rq s
      else case remove_snapshot Y (rq_snapshot rq) s of
             (Inl e, s1) \<Rightarrow> (Inl e, s1)
           | (Inr _, s1) \<Rightarrow>
               (case sync_clear_all_data Y s1 of
                  (Inl e, s2) \<Rightarrow> (Inl e, s2)
                | (Inr _, s2) \<Rightarrow> repair_coverage Y rq s2))"

definition index_project_incrementally ::
  "('d, 'b, 't, 'j, 'w, 'h) sync_env \<Rightarrow> index_request \<Rightarrow> ('d, 't, 'w) sync_state \<Rightarrow>
   ((anyhow, index_outcome) result \<times> ('d, 't, 'w) sync_state) option" where
  "index_project_incrementally Y rq s =
     (let early = rq_force rq \<or> rq_repair rq in
      case (if early then exclude (rq_exclusion rq) (sy_trace s) else (False, sy_trace s)) of (g, tr) \<Rightarrow>
      let done = (\<lambda>s. s\<lparr>sy_trace := drop_guard g (sy_trace s)\<rparr>) in
      case prepare_run Y rq (s\<lparr>sy_trace := tr\<rparr>) of
        (Inl e, s1) \<Rightarrow> Some (Inl e, done s1)
      | (Inr (repaired, dropped), s1) \<Rightarrow>
          (case index_with_change_detection Y (rq_path rq)
                  (if early then HeldByCaller else rq_exclusion rq) s1 of
             None \<Rightarrow> None
           | Some (Inl e, s2) \<Rightarrow> Some (Inl e, done s2)
           | Some (Inr stats, s2) \<Rightarrow>
               Some (Inr \<lparr>oc_stats = stats, oc_repaired = repaired, oc_dropped = dropped,
                          oc_maintenance = ((needs_maintenance stats \<or> rq_force rq \<or> dropped \<noteq> []) \<and> sy_opened s2)\<rparr>,
                     done s2)))"

end
