(* ===== verification/Prepare_Laws.thy ===== *)
theory Prepare_Laws
  imports Incremental Unified_Laws
begin

text \<open>
  What preparing a file may answer, said from the file and its entry in the metadata cache: when a file is
  refused, when it is settled, which errors end it, and that every other file is prepared anew. Stated
  for a cache that may have moved on since the start of a run, as long as it still holds the same entry
  for this file.
\<close>

subsection \<open>The state of a file\<close>

text \<open>A path is refused when an exclusion pattern matches it or the file is larger than the limit, and accepted
  when no pattern does and it is not.\<close>

definition refused :: "('d, 'b) gate \<Rightarrow> 'd file_processor \<Rightarrow> path \<Rightarrow> bool" where
  "refused G fp p \<longleftrightarrow> \<not> should_index G (fp_filter fp) p \<or>
     (\<exists>md. fs_metadata (g_fs G) p = Inr md \<and> fp_max_file_size fp < md_len md)"

definition accepted :: "('d, 'b) gate \<Rightarrow> 'd file_processor \<Rightarrow> path \<Rightarrow> bool" where
  "accepted G fp p \<longleftrightarrow> should_index G (fp_filter fp) p \<and>
     (\<exists>md. fs_metadata (g_fs G) p = Inr md \<and> md_len md \<le> fp_max_file_size fp)"

text \<open>The cache knows the file as it is: its entry has the size and the time of the file, or the digest of its
  text.\<close>

definition known :: "('d, 'b) gate \<Rightarrow> ('d \<Rightarrow> string \<rightharpoonup> 'b) \<Rightarrow> 'd file_processor \<Rightarrow> path \<Rightarrow> bool" where
  "known G kv fp p \<longleftrightarrow> (\<exists>m. fp_entry G kv fp p = Some m \<and>
     ((\<exists>st. FileStat_from_path (g_fs G) p = Inr st \<and> fm_last_modified m = st_last_modified st \<and> fm_size m = st_size st) \<or>
      (\<exists>text. fs_read_to_string (g_fs G) p = Inr text \<and> fm_hash m = g_hash G text)))"

definition secret :: "('d, 'b) gate \<Rightarrow> 'd file_processor \<Rightarrow> path \<Rightarrow> bool" where
  "secret G fp p \<longleftrightarrow> (\<exists>text. fs_read_to_string (g_fs G) p = Inr text \<and>
     (\<exists>(name, pattern) \<in> set (fp_scanner fp). \<exists>line \<in> set (str_lines text). g_regex_matches G pattern line))"

definition settled :: "('d, 'b) gate \<Rightarrow> ('d \<Rightarrow> string \<rightharpoonup> 'b) \<Rightarrow> 'd file_processor \<Rightarrow> path \<Rightarrow> bool" where
  "settled G kv fp p \<longleftrightarrow> accepted G fp p \<and> (known G kv fp p \<or> secret G fp p)"

text \<open>A cache that still has the settings and the entry of this file.\<close>

definition same_gate :: "'d file_processor \<Rightarrow> 'd file_processor \<Rightarrow> bool" where
  "same_gate fp fp' \<longleftrightarrow> fp_filter fp' = fp_filter fp \<and> fp_scanner fp' = fp_scanner fp \<and>
     fp_max_file_size fp' = fp_max_file_size fp \<and> fp_salt fp' = fp_salt fp"

definition same_for :: "('d, 'b) gate \<Rightarrow> ('d \<Rightarrow> string \<rightharpoonup> 'b) \<Rightarrow> 'd file_processor \<Rightarrow> path \<Rightarrow> 'd file_processor \<Rightarrow> bool" where
  "same_for G kv fp p fp' \<longleftrightarrow> same_gate fp fp' \<and> fp_entry G kv fp' p = fp_entry G kv fp p"

lemma same_gate_refl [simp]: "same_gate fp fp"
  by (simp add: same_gate_def)

lemma same_gate_trans: "same_gate a b \<Longrightarrow> same_gate b c \<Longrightarrow> same_gate a c"
  by (simp add: same_gate_def)

text \<open>Everything that can go wrong with a file: no room for the index, no metadata, a database of the cache that
  fails, a file that cannot be read, a text that cannot be parsed or has nothing to index, and a model that
  fails on its chunks.\<close>

inductive breaks ::
  "('d, 'b, 't, 'j, 'w) engine \<Rightarrow> ('d \<Rightarrow> string \<rightharpoonup> 'b) \<Rightarrow> 'd file_processor \<Rightarrow> path \<Rightarrow> anyhow \<Rightarrow> bool"
  for E :: "('d, 'b, 't, 'j, 'w) engine" and kv :: "'d \<Rightarrow> string \<rightharpoonup> 'b" and fp :: "'d file_processor" and p :: path where
  no_room: "ensure_index_disk_headroom E (en_root E) = Inl e \<Longrightarrow> breaks E kv fp p e"
| no_metadata: "fs_metadata (g_fs (en_gate E)) p = Inl e \<Longrightarrow> breaks E kv fp p (to_anyhow (Io e))"
| no_stat: "same_for (en_gate E) kv fp p fp' \<Longrightarrow> has_stat_changed (en_gate E) fp' p = Inl e \<Longrightarrow>
    breaks E kv fp p (to_anyhow e)"
| unreadable: "fs_read_to_string (g_fs (en_gate E)) p = Inl e \<Longrightarrow>
    breaks E kv fp p (with_context (''Failed to read file: '' @ path_str p) [e])"
| no_lookup: "same_for (en_gate E) kv fp p fp' \<Longrightarrow> fs_read_to_string (g_fs (en_gate E)) p = Inr text \<Longrightarrow>
    has_file_changed (en_gate E) fp' p text = Inl e \<Longrightarrow> breaks E kv fp p (to_anyhow e)"
| no_chunks: "fs_read_to_string (g_fs (en_gate E)) p = Inr text \<Longrightarrow>
    parse_and_chunk (en_gate E) (en_split E) p text n = Some (Inl e, n') \<Longrightarrow> breaks E kv fp p (to_anyhow e)"
| no_embedding: "fs_read_to_string (g_fs (en_gate E)) p = Inr text \<Longrightarrow>
    parse_and_chunk (en_gate E) (en_split E) p text n = Some (Inr f, n') \<Longrightarrow>
    core_generate_embeddings E (pf_chunks f) k = Some (Inl e, k') \<Longrightarrow> breaks E kv fp p (to_anyhow e)"

text \<open>The chunks of a prepared file are those the parser and the splitter make of its text.\<close>

definition chunked :: "('d, 'b, 't, 'j, 'w) engine \<Rightarrow> prepared_file \<Rightarrow> bool" where
  "chunked E f \<longleftrightarrow> (\<exists>n n'. parse_and_chunk (en_gate E) (en_split E) (pp_path f) (pp_content f) n =
     Some (Inr \<lparr>pf_path = pp_path f, pf_content = pp_content f, pf_chunks = pp_chunks f\<rparr>, n'))"

text \<open>Given up: an error that no later run retries.\<close>

definition given_up :: "('d, 'b, 't, 'j, 'w) engine \<Rightarrow> ('d \<Rightarrow> string \<rightharpoonup> 'b) \<Rightarrow> 'd file_processor \<Rightarrow> path \<Rightarrow> bool" where
  "given_up E kv fp p \<longleftrightarrow> (\<exists>e. breaks E kv fp p e \<and> categorize_error (anyhow_str e) = Permanent)"

subsection \<open>The answers\<close>

lemma should_process_refused: "should_process_file G fp p = Inr False \<Longrightarrow> refused G fp p"
  by (auto simp: should_process_file_def refused_def split: if_splits sum.splits)

lemma should_process_accepted: "should_process_file G fp p = Inr True \<Longrightarrow> accepted G fp p"
  by (auto simp: should_process_file_def accepted_def split: if_splits sum.splits)

lemma should_process_breaks:
  "should_process_file G fp p = Inl e \<Longrightarrow> \<exists>e'. e = Io e' \<and> fs_metadata (g_fs G) p = Inl e'"
  by (auto simp: should_process_file_def split: if_splits sum.splits)

lemma should_exclude_secret:
  "fs_read_to_string (g_fs G) p = Inr text \<Longrightarrow> should_exclude G (fp_scanner fp) text \<longleftrightarrow> secret G fp p"
  by (auto simp: should_exclude_def scan_empty_iff secret_def)

lemma has_stat_changed_known:
  assumes "sled_store (g_sled G) kv" and "has_stat_changed G fp p = Inr b"
  shows "\<exists>st. FileStat_from_path (g_fs G) p = Inr st \<and>
    (b \<longleftrightarrow> \<not> (\<exists>m. fp_entry G kv fp p = Some m \<and> fm_last_modified m = st_last_modified st \<and> fm_size m = st_size st))"
proof -
  obtain st where st: "FileStat_from_path (g_fs G) p = Inr st"
    using assms(2) by (auto simp: has_stat_changed_def and_then_Inr)
  from has_stat_changed_Inr[OF assms st] st show ?thesis by (auto split: option.splits)
qed

lemma has_file_changed_known:
  assumes "sled_store (g_sled G) kv" and "has_file_changed G fp p t = Inr b"
  shows "b \<longleftrightarrow> \<not> (\<exists>m. fp_entry G kv fp p = Some m \<and> fm_hash m = g_hash G t)"
  using assms(2) sled_store.has_changed_entry[OF assms(1)]
  by (fastforce simp: has_file_changed_def split: option.splits)

lemma same_stat_known:
  "sled_store (g_sled G) kv \<Longrightarrow> has_stat_changed G fp p = Inr False \<Longrightarrow> known G kv fp p"
  using has_stat_changed_known[of G kv fp p False] unfolding known_def by blast

lemma same_text_known:
  "sled_store (g_sled G) kv \<Longrightarrow> fs_read_to_string (g_fs G) p = Inr t \<Longrightarrow> has_file_changed G fp p t = Inr False \<Longrightarrow>
   known G kv fp p"
  using has_file_changed_known[of G kv fp p t False] unfolding known_def by blast

lemma changed_not_known:
  assumes "sled_store (g_sled G) kv" and "has_stat_changed G fp p = Inr True"
    and "fs_read_to_string (g_fs G) p = Inr t" and "has_file_changed G fp p t = Inr True"
  shows "\<not> known G kv fp p"
  using has_stat_changed_known[OF assms(1,2)] has_file_changed_known[OF assms(1,4)] assms(3)
  unfolding known_def by auto

lemma same_for_facts:
  assumes "same_for G kv fp p fp'"
  shows "refused G fp' p = refused G fp p" and "accepted G fp' p = accepted G fp p"
    and "known G kv fp' p = known G kv fp p" and "secret G fp' p = secret G fp p"
  using assms
  unfolding same_for_def same_gate_def refused_def accepted_def known_def secret_def
  by (elim conjE, simp only:)+

lemma process_file_sync_Inl:
  assumes "process_file_sync G cfg fp p n = Some (Inl e, n')" and "should_process_file G fp p = Inr True"
    and "fs_read_to_string (g_fs G) p = Inr text"
  shows "has_stat_changed G fp p = Inl e \<or> has_stat_changed G fp p = Inr False \<or> should_exclude G (fp_scanner fp) text \<or>
    has_file_changed G fp p text = Inl e \<or> has_file_changed G fp p text = Inr False \<or>
    parse_and_chunk G cfg p text n = Some (Inl e, n')"
  using assms by (auto simp: process_file_sync_def check_secrets_def split: sum.splits bool.splits if_splits)

lemma process_and_embed_Inl:
  assumes "process_and_embed E p st = Some (Inl e, st')"
  obtains (sync) e' n where "process_file_sync (en_gate E) (en_split E) (ix_fp st) p (ix_ids st) = Some (Inl e', n)" "e = to_anyhow e'"
    | (embed) f n k k' e' where "process_file_sync (en_gate E) (en_split E) (ix_fp st) p (ix_ids st) = Some (Inr f, n)"
        "core_generate_embeddings E (pf_chunks f) k = Some (Inl e', k')" "e = to_anyhow e'"
  using assms
  by (auto simp: process_and_embed_def embed_processed_def split: option.splits prod.splits sum.splits if_splits)

lemma process_and_embed_Inr:
  assumes "process_and_embed E p st = Some (Inr q, st')"
  obtains f n pf where "process_file_sync (en_gate E) (en_split E) (ix_fp st) p (ix_ids st) = Some (Inr f, n)" "q = Ready pf"
  using assms
  by (auto simp: process_and_embed_def embed_processed_def split: option.splits prod.splits sum.splits if_splits)

text \<open>How far preparing gets: stopped by the headroom or by the gate, stopped by its own look at the cache or at
  the file, or handed over to \<open>process_and_embed\<close>.\<close>

lemma prepare_file_stages:
  assumes "prepare_file E p consult st = Some (r, st')"
  obtains (no_room) e where "ensure_index_disk_headroom E (en_root E) = Inl e" "r = Inl e"
    | (gate) e where "should_process_file (en_gate E) (ix_fp st) p = Inl e" "r = Inl (to_anyhow e)"
    | (skipped) "should_process_file (en_gate E) (ix_fp st) p = Inr False" "r = Inr PrepSkipped"
    | (no_stat) e where "should_process_file (en_gate E) (ix_fp st) p = Inr True"
        "has_stat_changed (en_gate E) (ix_fp st) p = Inl e" "r = Inl (to_anyhow e)"
    | (same_stat) "should_process_file (en_gate E) (ix_fp st) p = Inr True"
        "has_stat_changed (en_gate E) (ix_fp st) p = Inr False" "r = Inr PrepUnchanged"
    | (unreadable) e where "should_process_file (en_gate E) (ix_fp st) p = Inr True"
        "fs_read_to_string (g_fs (en_gate E)) p = Inl e" "r = Inl (with_context (''Failed to read file: '' @ path_str p) [e])"
    | (no_lookup) t e where "should_process_file (en_gate E) (ix_fp st) p = Inr True"
        "fs_read_to_string (g_fs (en_gate E)) p = Inr t"
        "has_file_changed (en_gate E) (ix_fp st) p t = Inl e" "r = Inl (to_anyhow e)"
    | (same_text) t where "should_process_file (en_gate E) (ix_fp st) p = Inr True"
        "fs_read_to_string (g_fs (en_gate E)) p = Inr t"
        "has_file_changed (en_gate E) (ix_fp st) p t = Inr False" "r = Inr PrepUnchanged"
    | (processed) t where "should_process_file (en_gate E) (ix_fp st) p = Inr True"
        "fs_read_to_string (g_fs (en_gate E)) p = Inr t" "process_and_embed E p st = Some (r, st')"
  using assms
  by (auto simp: prepare_file_def split: sum.splits bool.splits if_splits)

lemma processed_answers:
  assumes "sled_store (g_sled (en_gate E)) kv" and same: "same_for (en_gate E) kv fp p (ix_fp st)"
    and acc: "accepted (en_gate E) fp p" and sp: "should_process_file (en_gate E) (ix_fp st) p = Inr True"
    and read: "fs_read_to_string (g_fs (en_gate E)) p = Inr text" and run: "process_and_embed E p st = Some (Inl e, st')"
  shows "settled (en_gate E) kv fp p \<or> breaks E kv fp p e"
  using run
proof (cases rule: process_and_embed_Inl)
  case (sync e' n)
  let ?G = "en_gate E" and ?fp = "ix_fp st"
  have settled: "settled ?G kv fp p" if "known ?G kv ?fp p \<or> secret ?G ?fp p"
    using that acc same_for_facts[OF same] by (simp add: settled_def)
  from process_file_sync_Inl[OF sync(1) sp read] consider
    "has_stat_changed ?G ?fp p = Inl e'" | "has_stat_changed ?G ?fp p = Inr False"
    | "should_exclude ?G (fp_scanner ?fp) text" | "has_file_changed ?G ?fp p text = Inl e'"
    | "has_file_changed ?G ?fp p text = Inr False" | "parse_and_chunk ?G (en_split E) p text (ix_ids st) = Some (Inl e', n)"
    by blast
  then show ?thesis
  proof cases
    case 1
    then show ?thesis using breaks.no_stat[OF same] sync by blast
  next
    case 2
    then show ?thesis using same_stat_known[OF assms(1)] settled by blast
  next
    case 3
    then show ?thesis using should_exclude_secret[OF read] settled by blast
  next
    case 4
    then show ?thesis using breaks.no_lookup[OF same read] sync by blast
  next
    case 5
    then show ?thesis using same_text_known[OF assms(1) read] settled by blast
  next
    case 6
    then show ?thesis using breaks.no_chunks[OF read] sync by blast
  qed
next
  case (embed f n k k' e')
  from process_file_sync_Inr[OF embed(1)] read have "parse_and_chunk (en_gate E) (en_split E) p text (ix_ids st) = Some (Inr f, n)"
    by auto
  from breaks.no_embedding[OF read this embed(2)] embed(3) show ?thesis by blast
qed

lemma prepare_file_chunked:
  assumes "prepare_file E p consult st = Some (Inr (Ready f), st')"
  shows "chunked E f"
proof -
  obtain g n where g: "process_file_sync (en_gate E) (en_split E) (ix_fp st) p (ix_ids st) = Some (Inr g, n)"
    and f: "pp_path f = p" "pp_content f = pf_content g" "pp_chunks f = pf_chunks g"
    using process_and_embed_ready[OF prepare_file_ready[OF assms]] by blast
  have run: "parse_and_chunk (en_gate E) (en_split E) p (pf_content g) (ix_ids st) = Some (Inr g, n)"
    using process_file_sync_Inr[OF g] by blast
  moreover have "g = \<lparr>pf_path = p, pf_content = pf_content g, pf_chunks = pf_chunks g\<rparr>"
    using parse_and_chunk_Inr[OF run] by simp
  ultimately show ?thesis using f unfolding chunked_def by metis
qed

text \<open>Every answer of \<open>prepare_file\<close> has its reason in the file: a file is handed over only if it is accepted, new
  to the cache and clean, skipped only if it is refused, left as unchanged only if it is settled, and an error
  is one that breaks it or a settled file.\<close>

theorem prepare_file_answers:
  assumes "sled_store (g_sled (en_gate E)) kv" and "prepare_file E p consult st = Some (r, st')"
    and "same_for (en_gate E) kv fp p (ix_fp st)"
  shows "case r of
      Inr (Ready f) \<Rightarrow> accepted (en_gate E) fp p \<and> \<not> known (en_gate E) kv fp p \<and> \<not> secret (en_gate E) fp p
    | Inr PrepSkipped \<Rightarrow> refused (en_gate E) fp p
    | Inr PrepUnchanged \<Rightarrow> settled (en_gate E) kv fp p
    | Inl e \<Rightarrow> settled (en_gate E) kv fp p \<or> breaks E kv fp p e"
proof -
  let ?G = "en_gate E" and ?fp = "ix_fp st"
  note same = same_for_facts[OF assms(3)]
  have acc: "accepted ?G fp p" if "should_process_file ?G ?fp p = Inr True"
    using should_process_accepted[OF that] same by simp
  from assms(2) show ?thesis
  proof (cases rule: prepare_file_stages)
    case (no_room e)
    then show ?thesis using breaks.no_room[OF no_room(1)] by simp
  next
    case (gate e)
    obtain e' where "e = Io e'" "fs_metadata (g_fs ?G) p = Inl e'" using should_process_breaks[OF gate(1)] by blast
    then show ?thesis using breaks.no_metadata[of E p e' kv fp] gate(2) by simp
  next
    case skipped
    then show ?thesis using should_process_refused[OF skipped(1)] same by simp
  next
    case (no_stat e)
    then show ?thesis using breaks.no_stat[OF assms(3) no_stat(2)] by simp
  next
    case same_stat
    have "known ?G kv ?fp p" by (rule same_stat_known[OF assms(1) same_stat(2)])
    then show ?thesis using acc same_stat same by (simp add: settled_def)
  next
    case (unreadable e)
    then show ?thesis using breaks.unreadable[OF unreadable(2)] by simp
  next
    case (no_lookup t e)
    then show ?thesis using breaks.no_lookup[OF assms(3) no_lookup(2,3)] by simp
  next
    case (same_text t)
    have "known ?G kv ?fp p" by (rule same_text_known[OF assms(1) same_text(2,3)])
    then show ?thesis using acc same_text same by (simp add: settled_def)
  next
    case (processed t)
    show ?thesis
    proof (cases r)
      case (Inl e)
      then show ?thesis using processed_answers[OF assms(1,3) acc[OF processed(1)] processed(1,2)] processed(3) by simp
    next
      case (Inr q)
      obtain f n pf where f: "process_file_sync ?G (en_split E) ?fp p (ix_ids st) = Some (Inr f, n)" and q: "q = Ready pf"
        using process_and_embed_Inr processed(3)[unfolded Inr] by metis
      note ok = process_file_sync_Inr[OF f]
      have "\<not> secret ?G ?fp p" using ok should_exclude_secret[of ?G p "pf_content f" ?fp] by blast
      moreover have "\<not> known ?G kv ?fp p"
        using changed_not_known[OF assms(1)] ok by blast
      ultimately show ?thesis using acc[OF processed(1)] same Inr q by simp
    qed
  qed
qed

end
