(* ===== verification/Sync_Log.thy ===== *)
theory Sync_Log
  imports Prepare_Laws
begin

text \<open>
  The log of an incremental run: the calls it made to the indexer, in order, each with the answer it got. A log
  is valid if replaying its calls on the indexer gives these very answers. What a log says of a path (that it
  failed, was skipped, was indexed) is read off its answers, without the counters of the run; the lemmas show
  that the run's statistics are these readings, and that the run answers every change it was given.
\<close>

subsection \<open>Logs\<close>

datatype sync_step =
    Prepared path bool "(anyhow, preparation) result"
  | Wrote "prepared_file list" "path list" "path list" "(anyhow, unit) result"
  | Forgot path "(indexing_error, unit) result"

fun replay :: "('d, 'b, 't, 'j, 'w) engine \<Rightarrow> sync_step list \<Rightarrow> ('d, 't, 'w) indexer \<Rightarrow> ('d, 't, 'w) indexer option" where
  "replay E [] st = Some st"
| "replay E (Prepared p consult r # H) st =
     (case prepare_file E p consult st of
        None \<Rightarrow> None
      | Some (r', st') \<Rightarrow> if r' = r then replay E H st' else None)"
| "replay E (Wrote files gone cleared r # H) st =
     (case write_files E files (gone @ cleared) st of
        None \<Rightarrow> None
      | Some (r', st') \<Rightarrow> if r' = r then replay E H st' else None)"
| "replay E (Forgot p r # H) st =
     (case forget_file (en_gate E) (ix_fp st) p of
        (r', fp) \<Rightarrow> if r' = r then replay E H (st\<lparr>ix_fp := fp\<rparr>) else None)"

definition logged :: "(sync_step \<Rightarrow> 'a list) \<Rightarrow> sync_step list \<Rightarrow> 'a list" where
  "logged f H = concat (map f H)"

lemma logged_simps [simp]: "logged f [] = []" "logged f (h # H) = f h @ logged f H"
  "logged f (H @ H') = logged f H @ logged f H'"
  by (simp_all add: logged_def)

text \<open>The three fates of a path. A transient error of a file, a write that fails, and a cache entry that cannot be
  removed are failures; a permanent error, a file left alone and a path that only had to go are skips.\<close>

fun failed_in :: "sync_step \<Rightarrow> path list" where
  "failed_in (Prepared p consult r) =
     (case r of Inl e \<Rightarrow> if categorize_error (anyhow_str e) = Transient then [p] else [] | Inr _ \<Rightarrow> [])"
| "failed_in (Wrote files gone cleared r) = (case r of Inl _ \<Rightarrow> map pp_path files @ gone @ cleared | Inr _ \<Rightarrow> [])"
| "failed_in (Forgot p r) = (case r of Inl _ \<Rightarrow> [p] | Inr _ \<Rightarrow> [])"

fun skipped_in :: "sync_step \<Rightarrow> path list" where
  "skipped_in (Prepared p consult r) =
     (case r of Inl e \<Rightarrow> if categorize_error (anyhow_str e) = Permanent then [p] else []
              | Inr PrepUnchanged \<Rightarrow> [p] | Inr PrepSkipped \<Rightarrow> if consult then [p] else [] | Inr (Ready _) \<Rightarrow> [])"
| "skipped_in (Wrote files gone cleared r) =
     (case r of Inl _ \<Rightarrow> [] | Inr _ \<Rightarrow> cleared @ map pp_path (filter (\<lambda>f. pp_chunks f = []) files))"
| "skipped_in (Forgot p r) = (case r of Inl _ \<Rightarrow> [] | Inr _ \<Rightarrow> [p])"

fun indexed_in :: "sync_step \<Rightarrow> path list" where
  "indexed_in (Wrote files gone cleared r) =
     (case r of Inl _ \<Rightarrow> [] | Inr _ \<Rightarrow> map pp_path (filter (\<lambda>f. pp_chunks f \<noteq> []) files))"
| "indexed_in _ = []"

text \<open>What was asked for, and what came of it: the files prepared and then written, the modified files refused and then
  cleared, the files that are gone, and the entries to remove once their rows are.\<close>

fun prepared_in :: "sync_step \<Rightarrow> (path \<times> bool) list" where
  "prepared_in (Prepared p consult r) = [(p, consult)]"
| "prepared_in _ = []"

fun ready_in :: "sync_step \<Rightarrow> prepared_file list" where
  "ready_in (Prepared p consult (Inr (Ready f))) = [f]"
| "ready_in _ = []"

fun refused_in :: "sync_step \<Rightarrow> path list" where
  "refused_in (Prepared p False (Inr PrepSkipped)) = [p]"
| "refused_in _ = []"

fun written_in :: "sync_step \<Rightarrow> prepared_file list" where
  "written_in (Wrote files gone cleared r) = files"
| "written_in _ = []"

fun cleared_in :: "sync_step \<Rightarrow> path list" where
  "cleared_in (Wrote files gone cleared r) = cleared"
| "cleared_in _ = []"

fun gone_in :: "sync_step \<Rightarrow> path list" where
  "gone_in (Wrote files gone cleared r) = gone"
| "gone_in _ = []"

fun to_forget_in :: "sync_step \<Rightarrow> path list" where
  "to_forget_in (Wrote files gone cleared (Inr _)) = gone"
| "to_forget_in _ = []"

fun forgotten_in :: "sync_step \<Rightarrow> path list" where
  "forgotten_in (Forgot p r) = [p]"
| "forgotten_in _ = []"

text \<open>A log that deals with a change set: every modified and added file is prepared, every file that came out ready is
  written, every refused one cleared, every deleted one removed and then forgotten.\<close>

definition deals_with :: "change_set \<Rightarrow> sync_step list \<Rightarrow> bool" where
  "deals_with changes H \<longleftrightarrow> logged prepared_in H = to_prepare changes \<and> logged written_in H = logged ready_in H \<and>
     logged cleared_in H = logged refused_in H \<and> logged gone_in H = deleted changes \<and>
     logged forgotten_in H = logged to_forget_in H"

text \<open>The statistics are what the log says.\<close>

definition tells :: "sync_step list \<Rightarrow> index_stats \<Rightarrow> bool" where
  "tells H s \<longleftrightarrow> retry_files s = logged failed_in H \<and> failed_files s = length (logged failed_in H) \<and>
     skipped_files s = length (logged skipped_in H) \<and> indexed_files s = length (logged indexed_in H)"

lemma replay_append: "replay E (H @ H') st = (case replay E H st of None \<Rightarrow> None | Some st' \<Rightarrow> replay E H' st')"
  by (induction E H st rule: replay.induct) (auto split: option.splits prod.splits)

subsection \<open>The statistics of a step\<close>

lemma retry_path_simps [simp]:
  "failed_files (retry_path s p) = Suc (failed_files s)" "retry_files (retry_path s p) = retry_files s @ [p]"
  "indexed_files (retry_path s p) = indexed_files s" "skipped_files (retry_path s p) = skipped_files s"
  "total_chunks (retry_path s p) = total_chunks s"
  by (simp_all add: retry_path_def)

lemma foldl_retry [simp]:
  "failed_files (foldl retry_path s ps) = failed_files s + length ps"
  "retry_files (foldl retry_path s ps) = retry_files s @ ps"
  "indexed_files (foldl retry_path s ps) = indexed_files s" "skipped_files (foldl retry_path s ps) = skipped_files s"
  by (induction ps arbitrary: s) simp_all

lemma foldl_count_written [simp]:
  "failed_files (foldl count_written s ns) = failed_files s" "retry_files (foldl count_written s ns) = retry_files s"
  "indexed_files (foldl count_written s ns) = indexed_files s + length (filter (\<lambda>n. n \<noteq> 0) ns)"
  "skipped_files (foldl count_written s ns) = skipped_files s + length (filter (\<lambda>n. n = 0) ns)"
  "total_chunks (foldl count_written s ns) = total_chunks s + sum_list ns"
  by (induction ns arbitrary: s) (simp_all add: count_written_def)

lemma filter_chunk_counts:
  "length (filter (\<lambda>n. n \<noteq> 0) (map (length \<circ> pp_chunks) files)) = length (filter (\<lambda>f. pp_chunks f \<noteq> []) files)"
  "length (filter (\<lambda>n. n = 0) (map (length \<circ> pp_chunks) files)) = length (filter (\<lambda>f. pp_chunks f = []) files)"
  by (induction files) simp_all

text \<open>The entries of one write are forgotten one after the other.\<close>

definition forgets :: "(path \<times> (indexing_error, unit) result) list \<Rightarrow> sync_step list" where
  "forgets prs = map (\<lambda>(p, r). Forgot p r) prs"

lemma forgets_simps [simp]: "forgets [] = []" "forgets ((p, r) # prs) = Forgot p r # forgets prs"
  by (simp_all add: forgets_def)

lemma logged_forgets [simp]:
  "logged prepared_in (forgets prs) = []" "logged ready_in (forgets prs) = []" "logged refused_in (forgets prs) = []"
  "logged written_in (forgets prs) = []" "logged cleared_in (forgets prs) = []" "logged gone_in (forgets prs) = []"
  "logged to_forget_in (forgets prs) = []" "logged indexed_in (forgets prs) = []" "logged forgotten_in (forgets prs) = map fst prs"
  by (induction prs) auto

lemma forgets_fates: "mset (logged failed_in (forgets prs)) + mset (logged skipped_in (forgets prs)) = mset (map fst prs)"
  by (induction prs) (auto split: sum.split)

lemma forget_gone_log:
  "forget_gone (en_gate E) ps s (ix_fp st) = (s', fp') \<Longrightarrow>
   \<exists>prs. map fst prs = ps \<and> replay E (forgets prs) st = Some (st\<lparr>ix_fp := fp'\<rparr>) \<and>
     retry_files s' = retry_files s @ logged failed_in (forgets prs) \<and>
     failed_files s' = failed_files s + length (logged failed_in (forgets prs)) \<and>
     skipped_files s' = skipped_files s + length (logged skipped_in (forgets prs)) \<and> indexed_files s' = indexed_files s"
proof (induction ps arbitrary: s st)
  case Nil
  then show ?case by (intro exI[of _ "[]"]) simp
next
  case (Cons p ps)
  obtain r fp1 where f: "forget_file (en_gate E) (ix_fp st) p = (r, fp1)" by force
  let ?s = "case r of Inl _ \<Rightarrow> retry_path s p | Inr _ \<Rightarrow> s\<lparr>skipped_files := skipped_files s + 1\<rparr>"
  have "forget_gone (en_gate E) ps ?s (ix_fp (st\<lparr>ix_fp := fp1\<rparr>)) = (s', fp')" using Cons.prems f by (auto split: sum.splits)
  from Cons.IH[OF this] obtain prs where ih: "map fst prs = ps"
    "replay E (forgets prs) (st\<lparr>ix_fp := fp1\<rparr>) = Some (st\<lparr>ix_fp := fp'\<rparr>)"
    "retry_files s' = retry_files ?s @ logged failed_in (forgets prs)"
    "failed_files s' = failed_files ?s + length (logged failed_in (forgets prs))"
    "skipped_files s' = skipped_files ?s + length (logged skipped_in (forgets prs))" "indexed_files s' = indexed_files ?s"
    by auto
  then show ?case using f by (intro exI[of _ "(p, r) # prs"]) (auto split: sum.split)
qed

lemma mset_split_chunks:
  "mset (map pp_path (filter (\<lambda>f. pp_chunks f = []) files)) + mset (map pp_path (filter (\<lambda>f. pp_chunks f \<noteq> []) files)) =
   mset (map pp_path files)"
  by (induction files) simp_all

definition pending_paths :: "pending_write \<Rightarrow> path list" where
  "pending_paths pw = map pp_path (pw_files pw) @ pw_cleared pw @ pw_gone pw"

lemma flush_log:
  assumes "flush E pw s st = Some (s', st')"
  shows "\<exists>r prs. (let H = Wrote (pw_files pw) (pw_gone pw) (pw_cleared pw) r # forgets prs in
     replay E H st = Some st' \<and> map fst prs = logged to_forget_in H \<and>
     retry_files s' = retry_files s @ logged failed_in H \<and> failed_files s' = failed_files s + length (logged failed_in H) \<and>
     skipped_files s' = skipped_files s + length (logged skipped_in H) \<and>
     indexed_files s' = indexed_files s + length (logged indexed_in H) \<and>
     mset (logged failed_in H) + mset (logged skipped_in H) + mset (logged indexed_in H) = mset (pending_paths pw))"
proof -
  obtain r st1 where w: "write_files E (pw_files pw) (pw_gone pw @ pw_cleared pw) st = Some (r, st1)"
    using assms by (auto simp: flush_def Let_def split: option.splits)
  show ?thesis
  proof (cases r)
    case (Inl e)
    then have "s' = foldl retry_path s (map pp_path (pw_files pw) @ pw_gone pw @ pw_cleared pw)" "st' = st1"
      using assms w by (simp_all add: flush_def Let_def)
    then show ?thesis using w Inl
      by (intro exI[of _ r] exI[of _ "[]"]) (simp add: pending_paths_def Let_def)
  next
    case (Inr u)
    let ?s1 = "s\<lparr>skipped_files := skipped_files s + length (pw_cleared pw)\<rparr>"
    define s2 where "s2 = foldl count_written ?s1 (map (length \<circ> pp_chunks) (pw_files pw))"
    have counts: "retry_files s2 = retry_files s" "failed_files s2 = failed_files s"
      "skipped_files s2 = skipped_files s + length (pw_cleared pw) + length (filter (\<lambda>f. pp_chunks f = []) (pw_files pw))"
      "indexed_files s2 = indexed_files s + length (filter (\<lambda>f. pp_chunks f \<noteq> []) (pw_files pw))"
      unfolding s2_def foldl_count_written filter_chunk_counts by simp_all
    obtain fp where "forget_gone (en_gate E) (pw_gone pw) s2 (ix_fp st1) = (s', fp)" and st': "st' = st1\<lparr>ix_fp := fp\<rparr>"
      using assms w Inr by (auto simp: flush_def Let_def s2_def split: prod.splits)
    from forget_gone_log[OF this(1)] obtain prs where g: "map fst prs = pw_gone pw"
      "replay E (forgets prs) st1 = Some st'" "retry_files s' = retry_files s2 @ logged failed_in (forgets prs)"
      "failed_files s' = failed_files s2 + length (logged failed_in (forgets prs))"
      "skipped_files s' = skipped_files s2 + length (logged skipped_in (forgets prs))" "indexed_files s' = indexed_files s2"
      unfolding st' by blast
    show ?thesis
      using w Inr g counts forgets_fates[of prs] mset_split_chunks[of "pw_files pw"]
      by (intro exI[of _ r] exI[of _ prs]) (simp add: Let_def pending_paths_def ac_simps)
  qed
qed

subsection \<open>The log of a run\<close>

text \<open>A run with its log so far: what is still pending is what was prepared and not yet written.\<close>

definition log_inv ::
  "('d, 'b, 't, 'j, 'w) engine \<Rightarrow> change_set \<Rightarrow> ('d, 't, 'w) indexer \<Rightarrow> (path \<times> bool) list \<Rightarrow> sync_step list \<Rightarrow>
   ('d, 't, 'w) run \<Rightarrow> bool" where
  "log_inv E changes st0 todo H run =
     (case run of (pw, s, pb, tr, st) \<Rightarrow>
        replay E H st0 = Some st \<and> logged prepared_in H @ todo = to_prepare changes \<and>
        logged ready_in H = logged written_in H @ pw_files pw \<and> logged refused_in H = logged cleared_in H @ pw_cleared pw \<and>
        deleted changes = logged gone_in H @ pw_gone pw \<and> logged forgotten_in H = logged to_forget_in H \<and> tells H s \<and>
        mset (logged failed_in H) + mset (logged skipped_in H) + mset (logged indexed_in H) + mset (pending_paths pw) =
          mset (map fst (logged prepared_in H)) + mset (deleted changes))"

lemma write_out_log:
  assumes "log_inv E changes st0 todo H run" and "write_out E run = Some run'"
  shows "\<exists>H. log_inv E changes st0 todo H run' \<and> fst run' = PendingWrite_default"
proof -
  obtain pw s pb tr st where run: "run = (pw, s, pb, tr, st)" by (cases run) auto
  obtain s' pb' tr' st' where fl: "flush E pw s st = Some (s', st')"
    and run': "run' = (PendingWrite_default, s', pb', tr', st')"
    using assms(2) run by (auto simp: write_out_def split: prod.splits option.splits)
  note i = assms(1)[unfolded log_inv_def run prod.case tells_def]
  from flush_log[OF fl] obtain r prs where f:
    "replay E (Wrote (pw_files pw) (pw_gone pw) (pw_cleared pw) r # forgets prs) st = Some st'"
    "map fst prs = to_forget_in (Wrote (pw_files pw) (pw_gone pw) (pw_cleared pw) r)"
    and counts: "let H' = Wrote (pw_files pw) (pw_gone pw) (pw_cleared pw) r # forgets prs in
      retry_files s' = retry_files s @ logged failed_in H' \<and> failed_files s' = failed_files s + length (logged failed_in H') \<and>
      skipped_files s' = skipped_files s + length (logged skipped_in H') \<and>
      indexed_files s' = indexed_files s + length (logged indexed_in H') \<and>
      mset (logged failed_in H') + mset (logged skipped_in H') + mset (logged indexed_in H') = mset (pending_paths pw)"
    unfolding Let_def by auto
  define H' where "H' = Wrote (pw_files pw) (pw_gone pw) (pw_cleared pw) r # forgets prs"
  have parts: "logged prepared_in H' = []" "logged ready_in H' = []" "logged refused_in H' = []"
    "logged written_in H' = pw_files pw" "logged cleared_in H' = pw_cleared pw" "logged gone_in H' = pw_gone pw"
    "logged forgotten_in H' = logged to_forget_in H'"
    by (simp_all add: H'_def f(2))
  note c = counts[folded H'_def, unfolded Let_def]
  have "mset (logged failed_in (H @ H')) + mset (logged skipped_in (H @ H')) + mset (logged indexed_in (H @ H')) =
      mset (logged failed_in H) + mset (logged skipped_in H) + mset (logged indexed_in H) +
      (mset (logged failed_in H') + mset (logged skipped_in H') + mset (logged indexed_in H'))"
    by (simp add: ac_simps)
  also have "\<dots> = mset (map fst (logged prepared_in H)) + mset (deleted changes)" using i c by presburger
  finally have fates: "mset (logged failed_in (H @ H')) + mset (logged skipped_in (H @ H')) + mset (logged indexed_in (H @ H')) =
      mset (map fst (logged prepared_in H)) + mset (deleted changes)" .
  have "log_inv E changes st0 todo (H @ H') run'"
    unfolding log_inv_def run' prod.case tells_def PendingWrite_default_def pending_write.simps
    by (intro conjI) (use i f(1)[folded H'_def] c parts fates in \<open>simp_all add: replay_append pending_paths_def\<close>)
  then show ?thesis unfolding run' by auto
qed

lemma take_preparation_log:
  assumes inv: "log_inv E changes st0 ((p, consult) # todo) H (pw, s, pb, tr, st)"
    and prep: "prepare_file E p consult st = Some (r, st1)" and t: "take_preparation p consult r pw s = (pw1, s1)"
  shows "log_inv E changes st0 todo (H @ [Prepared p consult r]) (pw1, s1, pb, tr, st1)"
proof -
  note i = inv[unfolded log_inv_def prod.case tells_def]
  show ?thesis
  proof (cases r)
    case (Inl e)
    show ?thesis using i prep t Inl
      by (cases "categorize_error (anyhow_str e)")
        (auto simp: log_inv_def replay_append take_preparation_def record_error_def tells_def)
  next
    case (Inr q)
    show ?thesis
    proof (cases q)
      case (Ready f)
      then have "pp_path f = p" using prepare_file_complete prep Inr by blast
      then show ?thesis using i prep t Inr Ready
        by (auto simp: log_inv_def replay_append take_preparation_def tells_def pending_paths_def)
    qed (use i prep t Inr in \<open>cases consult; auto simp: log_inv_def replay_append take_preparation_def tells_def pending_paths_def\<close>)+
  qed
qed

lemma prepare_changes_step:
  assumes "prepare_changes E ((p, consult) # todo) (pw, s, pb, tr, st) = Some run'"
  obtains r st1 pw1 s1 run where "prepare_file E p consult st = Some (r, st1)"
    and "take_preparation p consult r pw s = (pw1, s1)" and "prepare_changes E todo run = Some run'"
    and "run = (pw1, s1, pb, tr, st1) \<or> write_out E (pw1, s1, pb, tr, st1) = Some run"
  using assms by (auto split: option.splits prod.splits if_splits)

lemma prepare_changes_log:
  "prepare_changes E todo run = Some run' \<Longrightarrow> log_inv E changes st0 todo H run \<Longrightarrow> \<exists>H. log_inv E changes st0 [] H run'"
proof (induction todo arbitrary: run H)
  case (Cons change todo)
  obtain p consult where change: "change = (p, consult)" by force
  obtain pw s pb tr st where run: "run = (pw, s, pb, tr, st)" by (cases run) auto
  from Cons.prems(1)[unfolded change run] obtain r st1 pw1 s1 run1 where
    prep: "prepare_file E p consult st = Some (r, st1)" and t: "take_preparation p consult r pw s = (pw1, s1)"
    and rest: "prepare_changes E todo run1 = Some run'"
    and step: "run1 = (pw1, s1, pb, tr, st1) \<or> write_out E (pw1, s1, pb, tr, st1) = Some run1"
    by (rule prepare_changes_step)
  note l = take_preparation_log[OF Cons.prems(2)[unfolded change run] prep t]
  obtain H1 where "log_inv E changes st0 todo H1 run1" using step l write_out_log[OF l] by blast
  from Cons.IH[OF rest this] show ?case .
qed auto

end
