(* ===== verification/Sync_Laws.thy ===== *)
theory Sync_Laws
  imports Sync_Log
begin

text \<open>
  The properties of the incremental run: what it does to both stores and to the metadata cache, which paths
  it keeps for the next run, when readers are kept out, and that a second run has nothing to do.
\<close>

subsection \<open>Laws of the environment\<close>

text \<open>Beyond the laws of the engines: a dropped writer loses what it had not committed, the model answers with
  one vector of the store's width per text, and a decoded snapshot is the encoded one.\<close>

locale sync_laws = engine_laws "se_engine Y" rows committed pending kv
  for Y :: "('d, 'b, 't, 'j, 'w, 'h) sync_env" and rows :: "'t \<Rightarrow> 'j row multiset"
    and committed :: "'w \<Rightarrow> bm25_doc multiset" and pending :: "'w \<Rightarrow> bm25_doc multiset"
    and kv :: "'d \<Rightarrow> string \<rightharpoonup> 'b" +
  assumes dropped_writer: "committed (se_drop_writer Y w) = committed w \<and> pending (se_drop_writer Y w) = committed w"
    and model_width: "text_model (en_raw (se_engine Y)) (\<lambda>_ _ e. length e = en_dim (se_engine Y))"
    and codec: "se_de Y (se_ser Y snap) = Inr snap"

lemma generate_width:
  assumes "text_model (en_raw E) (\<lambda>_ _ e. length e = en_dim E)"
    and "core_generate_embeddings E chunks k = Some (Inr es, k')"
  shows "length es = length chunks \<and> (\<forall>e \<in> set es. length e = en_dim E)"
proof (cases "en_batcher E")
  case (Inr b)
  then have "generate_embeddings_batched b (embed_documents (en_raw E) (batcher_runtime b)) chunks k = Some (Inr es, k')"
    using assms(2) by (simp add: core_generate_embeddings_def)
  from text_model.generate_aligned[OF assms(1) this] show ?thesis
    by (auto simp: list_all2_conv_all_nth in_set_conv_nth)
qed (use assms(2) in \<open>simp add: core_generate_embeddings_def\<close>)

lemma prepared_width:
  assumes "text_model (en_raw E) (\<lambda>_ _ e. length e = en_dim E)"
    and "prepare_file E p consult st = Some (Inr (Ready f), st')"
  shows "prepared_ok (en_dim E) f"
proof -
  have c: "pp_chunks f \<noteq> []" "pp_path f = p" "\<forall>c \<in> set (pp_chunks f). file_path (ctx c) = p"
    using prepare_file_complete[OF assms(2)] by auto
  from prepare_file_ready[OF assms(2)] obtain g n where
    "embed_processed E g (st\<lparr>ix_ids := n\<rparr>) = Some (Inr (Ready f), st')"
    by (auto simp: process_and_embed_def split: option.splits prod.splits sum.splits)
  then obtain k k' where "core_generate_embeddings E (pp_chunks f) k = Some (Inr (pp_embeddings f), k')"
    using c(1) by (auto simp: embed_processed_def split: option.splits prod.splits sum.splits if_splits)
  from generate_width[OF assms(1) this] c show ?thesis by (simp add: prepared_ok_def)
qed

subsection \<open>Failures only accumulate\<close>

lemma forget_gone_stats:
  "forget_gone G ps s fp = (s', fp') \<Longrightarrow>
   failed_files s \<le> failed_files s' \<and> indexed_files s' = indexed_files s \<and> total_chunks s' = total_chunks s \<and>
   skipped_files s' + failed_files s' = skipped_files s + failed_files s + length ps \<and>
   (\<exists>new. retry_files s' = retry_files s @ new \<and> set new \<subseteq> set ps \<and> length new = failed_files s' - failed_files s)"
proof (induction ps arbitrary: s fp)
  case (Cons p ps)
  obtain r fp1 where f: "forget_file G fp p = (r, fp1)" by force
  let ?s = "case r of Inl _ \<Rightarrow> retry_path s p | Inr _ \<Rightarrow> s\<lparr>skipped_files := skipped_files s + 1\<rparr>"
  have "forget_gone G ps ?s fp1 = (s', fp')" using Cons.prems f by (auto split: sum.splits)
  from Cons.IH[OF this] obtain new where ih: "failed_files ?s \<le> failed_files s'" "indexed_files s' = indexed_files ?s"
    "total_chunks s' = total_chunks ?s" "skipped_files s' + failed_files s' = skipped_files ?s + failed_files ?s + length ps"
    "retry_files s' = retry_files ?s @ new" "set new \<subseteq> set ps" "length new = failed_files s' - failed_files ?s" by blast
  show ?case
  proof (cases r)
    case (Inl e)
    then show ?thesis using ih by (auto intro!: exI[of _ "p # new"])
  next
    case (Inr u)
    then show ?thesis using ih by (auto intro!: exI[of _ new])
  qed
qed auto

lemma flush_failures: "flush E pw s st = Some (s', st') \<Longrightarrow> failed_files s \<le> failed_files s'"
  by (auto simp: flush_def Let_def split: option.splits prod.splits sum.splits dest!: forget_gone_stats)

lemma take_preparation_failures:
  "take_preparation p consult r pw s = (pw', s') \<Longrightarrow> failed_files s \<le> failed_files s'"
  by (auto simp: take_preparation_def record_error_def split: sum.splits preparation.splits if_splits error_category.splits)

abbreviation run_stats :: "('d, 't, 'w) run \<Rightarrow> index_stats" where
  "run_stats run \<equiv> fst (snd run)"

lemma write_out_failures: "write_out E run = Some run' \<Longrightarrow> failed_files (run_stats run) \<le> failed_files (run_stats run')"
  by (auto simp: write_out_def split: prod.splits option.splits dest: flush_failures)

text \<open>Without a new failure a preparation is taken over, clears a modified file, or is counted as skipped.\<close>

lemma take_preparation_cases:
  assumes "take_preparation p consult r pw s = (pw1, s1)" and "failed_files s1 = failed_files s"
  obtains (ready) f where "r = Inr (Ready f)"
    | (cleared) "r = Inr PrepSkipped" "\<not> consult"
    | (skipped) "pw1 = pw" "skipped_files s1 = Suc (skipped_files s)" "indexed_files s1 = indexed_files s"
        "total_chunks s1 = total_chunks s"
proof (cases r)
  case (Inl e)
  then show ?thesis using assms record_error_accounts[of s p e]
    by (intro skipped) (auto simp: take_preparation_def)
next
  case (Inr q)
  then show ?thesis using assms by (cases q) (auto simp: take_preparation_def intro: that split: if_splits)
qed

lemma prepare_changes_failures:
  "prepare_changes E todo run = Some run' \<Longrightarrow> failed_files (run_stats run) \<le> failed_files (run_stats run')"
proof (induction todo arbitrary: run)
  case (Cons change todo)
  obtain p consult where change: "change = (p, consult)" by force
  obtain pw s pb tr st where run: "run = (pw, s, pb, tr, st)" by (cases run) auto
  from Cons.prems[unfolded change run] obtain r st1 pw1 s1 run1 where t: "take_preparation p consult r pw s = (pw1, s1)"
    and rest: "prepare_changes E todo run1 = Some run'"
    and step: "run1 = (pw1, s1, pb, tr, st1) \<or> write_out E (pw1, s1, pb, tr, st1) = Some run1"
    by (rule prepare_changes_step)
  have "failed_files s1 \<le> failed_files (run_stats run1)" using step write_out_failures by fastforce
  with take_preparation_failures[OF t] Cons.IH[OF rest] show ?case by (simp add: run)
qed simp

subsection \<open>A write of a run\<close>

lemma foldl_counts:
  assumes "\<forall>f \<in> set files. pp_chunks f \<noteq> []"
  shows "filter (\<lambda>n. n \<noteq> 0) (map (length \<circ> pp_chunks) files) = map (length \<circ> pp_chunks) files"
    and "filter (\<lambda>n. n = 0) (map (length \<circ> pp_chunks) files) = []"
  using assms by (induction files) simp_all

lemma filter_mset_keep: "(\<And>x. x \<in># M \<Longrightarrow> Q x) \<Longrightarrow> filter_mset Q M = M"
  by (simp add: filter_mset_eq_conv)

lemma distinct_insert_middle:
  "distinct (map f (a @ (b @ c @ [x]) @ d)) \<longleftrightarrow> distinct (map f (a @ (b @ c) @ d)) \<and> f x \<notin> f ` set (a @ (b @ c) @ d)"
  "distinct (map f (a @ (b @ c) @ d @ [x])) \<longleftrightarrow> distinct (map f (a @ (b @ c) @ d)) \<and> f x \<notin> f ` set (a @ (b @ c) @ d)"
  by auto

text \<open>The paths of a run, sorted by what is still pending.\<close>

lemma distinct_regroup:
  "distinct ((a @ b) @ (c @ d) @ (e @ f)) \<longleftrightarrow> distinct ((a @ c @ e) @ (b @ d @ f))"
  by auto

lemma forget_gone_gate: "forget_gone G ps s fp = (s', fp') \<Longrightarrow> same_gate fp fp'"
proof (induction ps arbitrary: s fp)
  case (Cons p ps)
  obtain r fp1 where f: "forget_file G fp p = (r, fp1)" by force
  then have "same_gate fp fp1" by (auto simp: forget_file_def same_gate_def split: prod.splits)
  moreover have "same_gate fp1 fp'" using Cons f by (auto split: sum.splits)
  ultimately show ?case by (rule same_gate_trans)
qed simp

context engine_laws
begin

lemma forget_gone_entries:
  assumes "forget_gone (en_gate E) ps s fp = (s', fp')" and "failed_files s' = failed_files s"
  shows "fp_salt fp' = fp_salt fp \<and>
         (\<forall>q. entry_of fp' q = (if path_str q \<in> path_str ` set ps then None else entry_of fp q))"
  using assms
proof (induction ps arbitrary: s fp)
  case (Cons p ps)
  obtain r fp1 where f: "forget_file (en_gate E) fp p = (r, fp1)" by force
  have ok: "r = Inr ()"
  proof (cases r)
    case (Inl e)
    then have "failed_files (retry_path s p) \<le> failed_files s'"
      using Cons.prems(1) f forget_gone_stats[of "en_gate E" ps "retry_path s p" fp1] by auto
    then show ?thesis using Cons.prems(2) by simp
  qed simp
  then have rest: "forget_gone (en_gate E) ps (s\<lparr>skipped_files := skipped_files s + 1\<rparr>) fp1 = (s', fp')"
    using Cons.prems(1) f by simp
  have ih: "fp_salt fp' = fp_salt fp1 \<and>
      (\<forall>q. entry_of fp' q = (if path_str q \<in> path_str ` set ps then None else entry_of fp1 q))"
    by (rule Cons.IH[OF rest]) (use Cons.prems(2) in simp)
  obtain db where db: "cache_remove (g_sled (en_gate E)) (fp_cache fp) (cache_key (fp_salt fp) p) = (Inr (), db)"
    and fp1: "fp1 = fp\<lparr>fp_cache := db\<rparr>"
    using f ok by (auto simp: forget_file_def map_err_def split: prod.splits sum.splits)
  have "entry_of fp1 q = (if path_str q = path_str p then None else entry_of fp q)" for q
    using mc.cache_remove_entry[OF db] fp1 by simp
  then show ?case using ih fp1 by auto
qed simp

lemma flush_ok:
  assumes fl: "flush E pw s st = Some (s', st')" and none: "failed_files s' = failed_files s" and sync: "in_sync st"
    and ok: "\<forall>f \<in> set (pw_files pw). prepared_ok (en_dim E) f \<and> pp_chunks f \<noteq> []"
    and dist: "distinct (map path_str (pw_gone pw @ pw_cleared pw @ map pp_path (pw_files pw)))"
  shows "in_sync st' \<and>
    stored st' = filter_mset (\<lambda>x. row_path x \<notin> path_str ` set (pw_gone pw @ pw_cleared pw @ map pp_path (pw_files pw)))
        (stored st) + mset (concat (map file_rows (pw_files pw))) \<and>
    committed (ix_bm25 st') = committed (ix_bm25 st) \<and>
    (\<forall>f \<in> set (pw_files pw). \<exists>m. entry_of (ix_fp st') (pp_path f) = Some m \<and> fm_hash m = g_hash (en_gate E) (pp_content f)) \<and>
    (\<forall>p \<in> set (pw_gone pw). entry_of (ix_fp st') p = None) \<and>
    (\<forall>q. path_str q \<notin> path_str ` set (pw_gone pw @ map pp_path (pw_files pw)) \<longrightarrow>
       entry_of (ix_fp st') q = entry_of (ix_fp st) q) \<and>
    indexed_files s' = indexed_files s + length (pw_files pw) \<and>
    total_chunks s' = total_chunks s + sum_list (map (length \<circ> pp_chunks) (pw_files pw)) \<and>
    skipped_files s' = skipped_files s + length (pw_cleared pw) + length (pw_gone pw) \<and>
    same_gate (ix_fp st) (ix_fp st')"
proof -
  let ?removed = "pw_gone pw @ pw_cleared pw" and ?files = "pw_files pw"
  obtain r st1 where w: "write_files E ?files ?removed st = Some (r, st1)"
    using fl by (auto simp: flush_def Let_def split: option.splits)
  have r: "r = Inr ()"
  proof (cases r)
    case (Inl e)
    then have "s' = foldl retry_path s (map pp_path ?files @ ?removed)" using fl w by (simp add: flush_def Let_def)
    then have "?files = [] \<and> ?removed = []" using none by simp
    then show ?thesis using w by (simp add: write_files_def)
  qed simp
  let ?s1 = "s\<lparr>skipped_files := skipped_files s + length (pw_cleared pw)\<rparr>"
  let ?s2 = "foldl count_written ?s1 (map (length \<circ> pp_chunks) ?files)"
  obtain fp where fg: "forget_gone (en_gate E) (pw_gone pw) ?s2 (ix_fp st1) = (s', fp)" and st': "st' = st1\<lparr>ix_fp := fp\<rparr>"
    using fl w r by (auto simp: flush_def Let_def split: prod.splits)
  have counts: "indexed_files ?s2 = indexed_files s + length ?files" "failed_files ?s2 = failed_files s"
    "skipped_files ?s2 = skipped_files s + length (pw_cleared pw)"
    "total_chunks ?s2 = total_chunks s + sum_list (map (length \<circ> pp_chunks) ?files)"
    using ok foldl_counts[of ?files] by simp_all
  note g = forget_gone_stats[OF fg]
  have same: "failed_files s' = failed_files ?s2" using none counts(2) by simp
  have entries: "entry_of fp q = (if path_str q \<in> path_str ` set (pw_gone pw) then None else entry_of (ix_fp st1) q)" for q
    using forget_gone_entries[OF fg same] by blast
  have wr: "in_sync st1" "stored st1 = filter_mset (\<lambda>x. row_path x \<notin> path_str ` set ?removed \<union> path_str ` pp_path ` set ?files) (stored st) +
      mset (concat (map file_rows ?files))" "committed (ix_bm25 st1) = committed (ix_bm25 st)"
    using write_files_ok[OF w[unfolded r] sync] ok by auto
  have rec: "record_files (en_gate E) ?files (ix_fp st) = (Inr (), ix_fp st1)" by (rule write_files_recorded[OF w[unfolded r]])
  have gate: "same_gate (ix_fp st) fp"
    using record_files_keeps[OF rec] forget_gone_gate[OF fg] by (auto simp: same_gate_def)
  have df: "distinct (map (path_str \<circ> pp_path) ?files)" using dist by simp
  note re = record_files_entry[OF rec df]
  have apart: "path_str (pp_path f) \<notin> path_str ` set (pw_gone pw)" if "f \<in> set ?files" for f
    using dist that by auto
  have "path_str ` set (pw_gone pw @ pw_cleared pw @ map pp_path ?files) =
      path_str ` set ?removed \<union> path_str ` pp_path ` set ?files" by (simp add: image_Un Un_assoc)
  moreover have "\<forall>f \<in> set ?files. \<exists>m. entry_of fp (pp_path f) = Some m \<and> fm_hash m = g_hash (en_gate E) (pp_content f)"
    using re ok apart entries by simp
  moreover have "entry_of fp q = entry_of (ix_fp st) q"
    if "path_str q \<notin> path_str ` set (pw_gone pw @ map pp_path ?files)" for q
  proof -
    have "path_str (pp_path f) \<in> path_str ` set (pw_gone pw @ map pp_path ?files)" if "f \<in> set ?files" for f
      using that by simp
    with that have "\<forall>f \<in> set ?files. pp_chunks f \<noteq> [] \<longrightarrow> path_str (pp_path f) \<noteq> path_str q" by metis
    then show ?thesis using re that entries by (simp add: image_Un)
  qed
  ultimately show ?thesis
    using wr entries g counts none gate by (simp add: st' in_sync_def stored_def)
qed

text \<open>A prepared file as \<open>prepare_file\<close> hands it over.\<close>

definition complete :: "prepared_file \<Rightarrow> bool" where
  "complete f \<longleftrightarrow> prepared_ok (en_dim E) f \<and> pp_chunks f \<noteq> [] \<and> length (pp_embeddings f) = length (pp_chunks f) \<and>
     fs_read_to_string (g_fs (en_gate E)) (pp_path f) = Inr (pp_content f)"

definition recorded :: "'d file_processor \<Rightarrow> prepared_file \<Rightarrow> bool" where
  "recorded fp f \<longleftrightarrow> (\<exists>m. entry_of fp (pp_path f) = Some m \<and> fm_hash m = g_hash (en_gate E) (pp_content f))"

text \<open>
  The state of a run without failures that started in \<open>st0\<close> and has looked at the changes \<open>seen\<close>: \<open>F\<close>, \<open>C\<close> and
  \<open>G\<close> are the files written, cleared and forgotten so far.
\<close>

definition run_inv ::
  "('d, 't, 'w) indexer \<Rightarrow> path list \<Rightarrow> (path \<times> bool) list \<Rightarrow> prepared_file list \<Rightarrow> path list \<Rightarrow> path list \<Rightarrow>
   ('d, 't, 'w) run \<Rightarrow> bool" where
  "run_inv st0 goners seen F C G run =
     (case run of (pw, s, pb, tr, st) \<Rightarrow>
        in_sync st \<and> committed (ix_bm25 st) = committed (ix_bm25 st0) \<and>
        stored st = filter_mset (\<lambda>x. row_path x \<notin> path_str ` set (G @ C @ map pp_path F)) (stored st0) +
          mset (concat (map file_rows F)) \<and>
        (\<forall>f \<in> set F. recorded (ix_fp st) f) \<and> (\<forall>p \<in> set G. entry_of (ix_fp st) p = None) \<and>
        (\<forall>f \<in> set (F @ pw_files pw). complete f) \<and> G @ pw_gone pw = goners \<and>
        distinct (map path_str (goners @ (C @ pw_cleared pw) @ map pp_path (F @ pw_files pw))) \<and>
        set (C @ pw_cleared pw) \<subseteq> {p. (p, False) \<in> set seen} \<and> set (map pp_path (F @ pw_files pw)) \<subseteq> fst ` set seen \<and>
        failed_files s = 0 \<and> indexed_files s = length F \<and> total_chunks s = sum_list (map (length \<circ> pp_chunks) F) \<and>
        skipped_files s + length (F @ pw_files pw) + length (pw_cleared pw) + length (pw_gone pw) =
          length seen + length goners)"

text \<open>
  Why each change of such a run ended as it did, said from the metadata cache \<open>fp\<close> of its start: the prepared
  files are accepted, new to the cache and clean, the cleared ones are refused, and every other change was
  refused as an addition, settled, or given up.
\<close>

definition reasoned :: "'d file_processor \<Rightarrow> (path \<times> bool) list \<Rightarrow> prepared_file list \<Rightarrow> path list \<Rightarrow> bool" where
  "reasoned fp seen F C \<longleftrightarrow>
     (\<forall>f \<in> set F. accepted (en_gate E) fp (pp_path f) \<and> \<not> known (en_gate E) kv fp (pp_path f) \<and>
        \<not> secret (en_gate E) fp (pp_path f) \<and> chunked E f) \<and>
     (\<forall>p \<in> set C. refused (en_gate E) fp p) \<and>
     (\<forall>(p, consult) \<in> set seen. p \<in> pp_path ` set F \<or> p \<in> set C \<or> (consult \<and> refused (en_gate E) fp p) \<or>
        settled (en_gate E) kv fp p \<or> given_up E kv fp p)"

text \<open>The cache changed only for the files that were forgotten or written.\<close>

definition run_reasons ::
  "('d, 't, 'w) indexer \<Rightarrow> (path \<times> bool) list \<Rightarrow> prepared_file list \<Rightarrow> path list \<Rightarrow> path list \<Rightarrow>
   ('d, 't, 'w) run \<Rightarrow> bool" where
  "run_reasons st0 seen F C G run =
     (case run of (pw, s, pb, tr, st) \<Rightarrow>
        reasoned (ix_fp st0) seen (F @ pw_files pw) (C @ pw_cleared pw) \<and> same_gate (ix_fp st0) (ix_fp st) \<and>
        (\<forall>q. path_str q \<notin> path_str ` set (G @ map pp_path F) \<longrightarrow> entry_of (ix_fp st) q = entry_of (ix_fp st0) q))"

lemma file_rows_paths: "complete f \<Longrightarrow> x \<in> set (file_rows f) \<Longrightarrow> row_path x = path_str (pp_path f)"
  using file_rows_ok[of "en_dim E" f] by (cases x) (auto simp: complete_def)

lemma write_out_inv:
  assumes inv: "run_inv st0 goners seen F C G (pw, s, pb, tr, st)"
    and w: "write_out E (pw, s, pb, tr, st) = Some run'" and none: "failed_files (run_stats run') = 0"
  shows "run_inv st0 goners seen (F @ pw_files pw) (C @ pw_cleared pw) (G @ pw_gone pw) run'"
proof -
  obtain s' pb' tr' st' where fl: "flush E pw s st = Some (s', st')"
    and run': "run' = (PendingWrite_default, s', pb', tr', st')"
    using w by (auto simp: write_out_def split: prod.splits option.splits)
  note i = inv[unfolded run_inv_def prod.case]
  have sync: "in_sync st" and zero: "failed_files s' = failed_files s" using i none run' by simp_all
  have ok: "\<forall>f \<in> set (pw_files pw). prepared_ok (en_dim E) f \<and> pp_chunks f \<noteq> []" using i by (auto simp: complete_def)
  have goners: "goners = G @ pw_gone pw" using i by simp
  have dist: "distinct (map path_str ((G @ C @ map pp_path F) @ (pw_gone pw @ pw_cleared pw @ map pp_path (pw_files pw))))"
    using i unfolding goners map_append distinct_regroup by blast
  let ?new = "path_str ` set (pw_gone pw @ pw_cleared pw @ map pp_path (pw_files pw))"
  let ?old = "path_str ` set (G @ C @ map pp_path F)"
  have apart: "?old \<inter> ?new = {}" using dist unfolding map_append[of path_str "G @ _"] distinct_append set_map by blast
  have d2: "distinct (map path_str (pw_gone pw @ pw_cleared pw @ map pp_path (pw_files pw)))" using dist by simp
  note f = flush_ok[OF fl zero sync ok d2]
  have keep: "row_path x \<notin> ?new" if "x \<in># mset (concat (map file_rows F))" for x
  proof -
    from that obtain g where g: "g \<in> set F" "x \<in> set (file_rows g)" by auto
    then have "row_path x = path_str (pp_path g)" using i file_rows_paths by simp
    then show ?thesis using apart g(1) by auto
  qed
  have old: "stored st = filter_mset (\<lambda>x. row_path x \<notin> ?old) (stored st0) + mset (concat (map file_rows F))"
    using i by blast
  have "stored st' = filter_mset (\<lambda>x. row_path x \<notin> ?new) (stored st) + mset (concat (map file_rows (pw_files pw)))"
    using f by blast
  also have "\<dots> = filter_mset (\<lambda>x. row_path x \<notin> ?new) (filter_mset (\<lambda>x. row_path x \<notin> ?old) (stored st0)) +
      filter_mset (\<lambda>x. row_path x \<notin> ?new) (mset (concat (map file_rows F))) + mset (concat (map file_rows (pw_files pw)))"
    unfolding old by (simp only: filter_union_mset)
  also have "filter_mset (\<lambda>x. row_path x \<notin> ?new) (mset (concat (map file_rows F))) = mset (concat (map file_rows F))"
    using keep by (rule filter_mset_keep)
  also have "filter_mset (\<lambda>x. row_path x \<notin> ?new) (filter_mset (\<lambda>x. row_path x \<notin> ?old) (stored st0)) =
      filter_mset (\<lambda>x. row_path x \<notin> ?old \<union> ?new) (stored st0)"
    unfolding filter_filter_mset by (rule filter_mset_cong) auto
  finally have stored: "stored st' = filter_mset (\<lambda>x. row_path x \<notin> ?old \<union> ?new) (stored st0) +
      mset (concat (map file_rows F)) + mset (concat (map file_rows (pw_files pw)))" .
  have union: "path_str ` set ((G @ pw_gone pw) @ (C @ pw_cleared pw) @ map pp_path (F @ pw_files pw)) = ?old \<union> ?new"
    by (auto simp: image_Un)
  have entries: "entry_of (ix_fp st') q = entry_of (ix_fp st) q" if "path_str q \<in> ?old" for q
  proof -
    have "path_str q \<notin> path_str ` set (pw_gone pw @ map pp_path (pw_files pw))"
      using that apart unfolding set_append image_Un by blast
    then show ?thesis using f by blast
  qed
  have "\<forall>g \<in> set F. recorded (ix_fp st') g"
    using i entries by (auto simp: recorded_def image_Un)
  moreover have "\<forall>p \<in> set goners. entry_of (ix_fp st') p = None"
    using i entries f unfolding goners by (auto simp: image_Un)
  moreover have "skipped_files s' + length (F @ pw_files pw) = length seen + length goners"
    "indexed_files s' = length (F @ pw_files pw)"
    "total_chunks s' = sum_list (map (length \<circ> pp_chunks) (F @ pw_files pw))"
    using i f by (simp_all add: goners)
  moreover have "\<forall>f \<in> set (F @ pw_files pw). complete f"
    "distinct (map path_str (goners @ (C @ pw_cleared pw) @ map pp_path (F @ pw_files pw)))"
    "set (C @ pw_cleared pw) \<subseteq> {p. (p, False) \<in> set seen}" "set (map pp_path (F @ pw_files pw)) \<subseteq> fst ` set seen"
    "committed (ix_bm25 st) = committed (ix_bm25 st0)"
    using i by blast+
  moreover have "stored st' = filter_mset (\<lambda>x. row_path x \<notin> path_str `
      set ((G @ pw_gone pw) @ (C @ pw_cleared pw) @ map pp_path (F @ pw_files pw))) (stored st0) +
      mset (concat (map file_rows (F @ pw_files pw)))"
    unfolding union stored by simp
  moreover have "in_sync st'" "committed (ix_bm25 st') = committed (ix_bm25 st)"
    "\<forall>f \<in> set (pw_files pw). recorded (ix_fp st') f"
    using f unfolding recorded_def by blast+
  moreover have "failed_files s' = 0" using none run' by simp
  ultimately show ?thesis
    unfolding run_inv_def run' prod.case PendingWrite_default_def pending_write.simps append_Nil2 list.size(3) add_0_right
      goners[symmetric]
    by (simp only: set_append ball_Un)
qed

lemma take_preparation_inv:
  assumes inv: "run_inv st0 goners seen F C G (pw, s, pb, tr, st)"
    and width: "text_model (en_raw E) (\<lambda>_ _ e. length e = en_dim E)"
    and prep: "prepare_file E p consult st = Some (r, st1)"
    and t: "take_preparation p consult r pw s = (pw1, s1)" and none: "failed_files s1 = 0"
    and fresh: "path_str p \<notin> path_str ` (set goners \<union> fst ` set seen)"
  shows "run_inv st0 goners (seen @ [(p, consult)]) F C G (pw1, s1, pb, tr, st1)"
proof -
  note i = inv[unfolded run_inv_def prod.case]
  have st1: "ix_fp st1 = ix_fp st" "stored st1 = stored st" "ix_bm25 st1 = ix_bm25 st" "in_sync st1"
    using prepare_file_state[OF prep] i by (simp_all add: stored_def in_sync_def)
  have sub: "set (C @ pw_cleared pw) \<subseteq> {p. (p, False) \<in> set seen}" "set (map pp_path (F @ pw_files pw)) \<subseteq> fst ` set seen"
    using i by blast+
  have "set (C @ pw_cleared pw) \<subseteq> fst ` set seen"
  proof
    fix q assume "q \<in> set (C @ pw_cleared pw)"
    then have "(q, False) \<in> set seen" using sub(1) by blast
    then show "q \<in> fst ` set seen" by (rule image_eqI[rotated]) simp
  qed
  then have old: "path_str p \<notin> path_str ` set (goners @ (C @ pw_cleared pw) @ map pp_path (F @ pw_files pw))"
    using fresh sub(2) unfolding set_append[of goners] set_append[of "C @ pw_cleared pw"] image_Un by blast
  have dist: "distinct (map path_str (goners @ (C @ pw_cleared pw @ [p]) @ map pp_path (F @ pw_files pw)))"
    "distinct (map path_str (goners @ (C @ pw_cleared pw) @ map pp_path (F @ pw_files pw) @ [p]))"
    using i old unfolding distinct_insert_middle by blast+
  have same: "failed_files s1 = failed_files s" using i none by simp
  from t same show ?thesis
  proof (cases rule: take_preparation_cases)
    case (ready f)
    then have pw1: "pw1 = pw\<lparr>pw_rows := pw_rows pw + length (pp_chunks f), pw_files := pw_files pw @ [f]\<rparr>" and s1: "s1 = s"
      using t by (auto simp: take_preparation_def)
    have f: "complete f" "pp_path f = p"
      using prepare_file_complete[OF prep[unfolded ready]] prepared_width[OF width prep[unfolded ready]]
      by (auto simp: complete_def)
    have "distinct (map path_str (goners @ C @ pw_cleared pw @ map pp_path (F @ pw_files pw @ [f])))"
      using dist(2) f(2) by (simp only: map_append list.map append_assoc)
    then show ?thesis using i st1 f none unfolding run_inv_def prod.case pw1 s1 pending_write.simps
      by (elim conjE, intro conjI) (simp_all del: map_append distinct_append add: image_iff subset_iff)
  next
    case cleared
    then have pw1: "pw1 = pw\<lparr>pw_cleared := pw_cleared pw @ [p]\<rparr>" and s1: "s1 = s"
      using t by (auto simp: take_preparation_def)
    show ?thesis using i st1 cleared dist(1) none unfolding run_inv_def prod.case pw1 s1 pending_write.simps
      by (elim conjE, intro conjI) (simp_all del: map_append distinct_append add: image_iff subset_iff)
  next
    case skipped
    show ?thesis using i st1 skipped none unfolding run_inv_def prod.case
      by (elim conjE, intro conjI) (simp_all del: map_append distinct_append add: image_iff subset_iff)
  qed
qed

lemma write_out_reasons:
  assumes inv: "run_inv st0 goners seen F C G (pw, s, pb, tr, st)"
    and why: "run_reasons st0 seen F C G (pw, s, pb, tr, st)"
    and w: "write_out E (pw, s, pb, tr, st) = Some run'" and none: "failed_files (run_stats run') = 0"
  shows "run_reasons st0 seen (F @ pw_files pw) (C @ pw_cleared pw) (G @ pw_gone pw) run'"
proof -
  obtain s' pb' tr' st' where fl: "flush E pw s st = Some (s', st')"
    and run': "run' = (PendingWrite_default, s', pb', tr', st')"
    using w by (auto simp: write_out_def split: prod.splits option.splits)
  note i = inv[unfolded run_inv_def prod.case]
  have sync: "in_sync st" and zero: "failed_files s' = failed_files s" using i none run' by simp_all
  have ok: "\<forall>f \<in> set (pw_files pw). prepared_ok (en_dim E) f \<and> pp_chunks f \<noteq> []" using i by (auto simp: complete_def)
  have goners: "goners = G @ pw_gone pw" using i by simp
  have "distinct (map path_str ((G @ C @ map pp_path F) @ (pw_gone pw @ pw_cleared pw @ map pp_path (pw_files pw))))"
    using i unfolding goners map_append distinct_regroup by blast
  then have "distinct (map path_str (pw_gone pw @ pw_cleared pw @ map pp_path (pw_files pw)))" by simp
  note f = flush_ok[OF fl zero sync ok this]
  note y = why[unfolded run_reasons_def prod.case]
  have "same_gate (ix_fp st0) (ix_fp st')" using y f same_gate_trans by blast
  moreover have "entry_of (ix_fp st') q = entry_of (ix_fp st0) q"
    if "path_str q \<notin> path_str ` set ((G @ pw_gone pw) @ map pp_path (F @ pw_files pw))" for q
  proof -
    have "path_str q \<notin> path_str ` set (pw_gone pw @ map pp_path (pw_files pw))" "path_str q \<notin> path_str ` set (G @ map pp_path F)"
      using that unfolding set_append map_append image_Un by blast+
    then show ?thesis using f y by metis
  qed
  ultimately show ?thesis using y unfolding run_reasons_def run' prod.case PendingWrite_default_def pending_write.simps
    by simp
qed

lemma take_preparation_reasons:
  assumes inv: "run_inv st0 goners seen F C G (pw, s, pb, tr, st)"
    and why: "run_reasons st0 seen F C G (pw, s, pb, tr, st)"
    and prep: "prepare_file E p consult st = Some (r, st1)"
    and t: "take_preparation p consult r pw s = (pw1, s1)" and none: "failed_files s1 = failed_files s"
    and fresh: "path_str p \<notin> path_str ` (set goners \<union> fst ` set seen)"
  shows "run_reasons st0 (seen @ [(p, consult)]) F C G (pw1, s1, pb, tr, st1)"
proof -
  note i = inv[unfolded run_inv_def prod.case] and y = why[unfolded run_reasons_def prod.case]
  have st1: "ix_fp st1 = ix_fp st" using prepare_file_state[OF prep] by simp
  have "set (map pp_path (F @ pw_files pw)) \<subseteq> fst ` set seen" "G @ pw_gone pw = goners" using i by blast+
  then have "set (G @ map pp_path F) \<subseteq> set goners \<union> fst ` set seen" by auto
  then have "path_str p \<notin> path_str ` set (G @ map pp_path F)" using fresh by blast
  then have "same_for (en_gate E) kv (ix_fp st0) p (ix_fp st)" using y by (simp add: same_for_def)
  note answer = prepare_file_answers[OF sled prep this]
  show ?thesis
  proof (cases r)
    case (Inl e)
    then have "categorize_error (anyhow_str e) = Permanent"
      using t none by (auto simp: take_preparation_def record_error_def split: error_category.splits)
    then have "settled (en_gate E) kv (ix_fp st0) p \<or> given_up E kv (ix_fp st0) p"
      using answer Inl by (auto simp: given_up_def)
    then show ?thesis using y t Inl st1 unfolding run_reasons_def prod.case
      by (auto simp: take_preparation_def reasoned_def)
  next
    case (Inr q)
    then show ?thesis
    proof (cases q)
      case (Ready f)
      then have "pp_path f = p" "chunked E f" using prepare_file_complete prepare_file_chunked prep Inr by blast+
      then show ?thesis using y t Inr Ready st1 answer unfolding run_reasons_def prod.case
        by (auto simp: take_preparation_def reasoned_def)
    qed (use y t Inr st1 answer in \<open>auto simp: run_reasons_def take_preparation_def reasoned_def split: if_splits\<close>)
  qed
qed

lemma prepare_changes_inv:
  assumes "prepare_changes E todo run = Some run'" and "failed_files (run_stats run') = 0"
    and "text_model (en_raw E) (\<lambda>_ _ e. length e = en_dim E)" and "run_inv st0 goners seen F C G run"
    and "distinct (map path_str (goners @ map fst (seen @ todo)))" and "run_reasons st0 seen F C G run"
  shows "\<exists>F C G. run_inv st0 goners (seen @ todo) F C G run' \<and> run_reasons st0 (seen @ todo) F C G run'"
  using assms(1,4,5,6)
proof (induction todo arbitrary: run seen F C G)
  case Nil
  then show ?case by auto
next
  case (Cons change todo)
  obtain p consult where change: "change = (p, consult)" by force
  obtain pw s pb tr st where run: "run = (pw, s, pb, tr, st)" by (cases run) auto
  from Cons.prems(1)[unfolded change run] obtain r st1 pw1 s1 run1 where
    prep: "prepare_file E p consult st = Some (r, st1)" and t: "take_preparation p consult r pw s = (pw1, s1)"
    and rest: "prepare_changes E todo run1 = Some run'"
    and step: "run1 = (pw1, s1, pb, tr, st1) \<or> write_out E (pw1, s1, pb, tr, st1) = Some run1"
    by (rule prepare_changes_step)
  have none1: "failed_files (run_stats run1) = 0" using prepare_changes_failures[OF rest] assms(2) by simp
  have none: "failed_files s1 = 0" using step none1 write_out_failures[of E "(pw1, s1, pb, tr, st1)" run1] by fastforce
  have fresh: "path_str p \<notin> path_str ` (set goners \<union> fst ` set seen)"
    using Cons.prems(3) change by (auto simp: image_Un)
  have inv: "run_inv st0 goners (seen @ [(p, consult)]) F C G (pw1, s1, pb, tr, st1)"
    by (rule take_preparation_inv[OF Cons.prems(2)[unfolded run] assms(3) prep t none fresh])
  have "failed_files s = 0" using Cons.prems(2) run by (simp add: run_inv_def)
  then have why: "run_reasons st0 (seen @ [(p, consult)]) F C G (pw1, s1, pb, tr, st1)"
    by (intro take_preparation_reasons[OF Cons.prems(2)[unfolded run] Cons.prems(4)[unfolded run] prep t _ fresh])
      (simp add: none)
  have "\<exists>F C G. run_inv st0 goners (seen @ [(p, consult)]) F C G run1 \<and> run_reasons st0 (seen @ [(p, consult)]) F C G run1"
    using step inv why write_out_inv[OF inv _ none1] write_out_reasons[OF inv why _ none1] by blast
  then obtain F1 C1 G1 where "run_inv st0 goners (seen @ [(p, consult)]) F1 C1 G1 run1"
    and "run_reasons st0 (seen @ [(p, consult)]) F1 C1 G1 run1" by blast
  from Cons.IH[OF rest this(1) _ this(2)] Cons.prems(3) show ?case by (simp add: change)
qed

lemma run_inv_start:
  assumes "in_sync st" and "distinct (map path_str goners)"
  shows "run_inv st goners [] [] [] [] (PendingWrite_default\<lparr>pw_gone := goners\<rparr>, IndexStats_unchanged, pb, tr, st)"
  using assms by (simp add: run_inv_def PendingWrite_default_def IndexStats_unchanged_def)

lemma run_reasons_start: "run_reasons st [] [] [] [] (PendingWrite_default\<lparr>pw_gone := goners\<rparr>, s, pb, tr, st)"
  by (simp add: run_reasons_def reasoned_def PendingWrite_default_def)

end

subsection \<open>What a full pass retries\<close>

lemma concat_chunks_of: "0 < n \<Longrightarrow> concat (chunks_of n xs) = xs"
  by (induction n xs rule: chunks_of.induct) auto

lemma batch_errors_retry:
  "set (retry_files (process_batch_errors es s)) \<subseteq> set (retry_files s) \<union> err_path ` set es"
  by (induction es arbitrary: s) (fastforce split: error_category.splits)+

lemma parse_batch_errors:
  "parallel_parse_batch G cfg fp ps n = Some (files, errs, n') \<Longrightarrow> err_path ` set errs \<subseteq> set ps"
proof (induction ps arbitrary: n files errs)
  case (Cons p ps)
  from Cons.prems obtain r n1 files1 errs1 where "parallel_parse_batch G cfg fp ps n1 = Some (files1, errs1, n')"
    and "err_path ` set errs \<subseteq> insert p (err_path ` set errs1)"
    by (fastforce split: option.splits prod.splits sum.splits)
  with Cons.IH show ?case by fastforce
qed simp

lemma index_batches_retry:
  "index_batches E batches s st = Some (Inr s', st') \<Longrightarrow>
   set (retry_files s') \<subseteq> set (retry_files s) \<union> set (concat batches)"
proof (induction batches arbitrary: s st)
  case (Cons batch batches)
  obtain processed errs n where pb: "parallel_parse_batch (en_gate E) (en_split E) (ix_fp st) batch (ix_ids st) = Some (processed, errs, n)"
    using Cons.prems by (auto split: sum.splits option.splits)
  let ?s = "process_batch_errors errs s"
  obtain s1 st1 st2 where mid: "(if processed = [] then Some (Inr ?s, st\<lparr>ix_ids := n\<rparr>)
      else process_and_index_batch E processed ?s (st\<lparr>ix_ids := n\<rparr>)) = Some (Inr s1, st1)"
    and rest: "index_batches E batches s1 st2 = Some (Inr s', st')"
    using Cons.prems pb by (auto split: sum.splits option.splits prod.splits)
  have "retry_files s1 = retry_files ?s"
    using mid by (auto simp: process_and_index_batch_def Let_def split: if_splits option.splits prod.splits sum.splits)
  then have "set (retry_files s1) \<subseteq> set (retry_files s) \<union> set batch"
    using batch_errors_retry[of errs s] parse_batch_errors[OF pb] by (metis Un_mono order_trans subset_refl)
  with Cons.IH[OF rest] show ?case unfolding concat.simps set_append by blast
qed simp

lemma parallel_retry:
  assumes "index_directory_parallel E dir st = Some (Inr stats, st')"
  shows "set (retry_files stats) \<subseteq> set (fst (collect_project_rust_files (g_fs (en_gate E)) dir))"
proof -
  obtain tree errs where col: "collect_project_rust_files (g_fs (en_gate E)) dir = (tree, errs)" by force
  show ?thesis
  proof (cases "tree = []")
    case True
    then show ?thesis using assms col
      by (auto simp: index_directory_parallel_def collect_rust_files_def IndexStats_unchanged_def)
  next
    case False
    obtain n s1 st1 where n: "0 < n"
      and b: "index_batches E (chunks_of n tree) (IndexStats_unchanged\<lparr>total_files := length tree\<rparr>) st = Some (Inr s1, st1)"
      and fin: "finish_directory E tree errs s1 st1 = (Inr stats, st')"
      using assms col False
      by (auto simp: index_directory_parallel_def collect_rust_files_def Let_def split: sum.splits option.splits prod.splits if_splits)
    from index_batches_retry[OF b] finish_directory_stats[OF fin] col show ?thesis
      by (simp add: concat_chunks_of[OF n] IndexStats_unchanged_def)
  qed
qed

subsection \<open>The log of a run over changes\<close>

lemma process_changes_log:
  assumes "process_changes Y changes x s = Some (Inr stats, s')"
  shows "\<exists>s1 st H. ensure_indexer Y s = (Inr (), s1) \<and> replay (se_engine Y) H (sy_ix s1) = Some st \<and>
    commit_bm25 (se_engine Y) st = (Inr (), sy_ix s') \<and> deals_with changes H \<and>
    mset (logged failed_in H @ logged skipped_in H @ logged indexed_in H) =
      mset (deleted changes @ modified changes @ added changes) \<and>
    retry_files stats = logged failed_in H \<and> failed_files stats = length (logged failed_in H) \<and>
    skipped_files stats = length (logged skipped_in H) \<and> indexed_files stats = length (logged indexed_in H) \<and>
    indexed_files stats + skipped_files stats + failed_files stats = total_changes changes"
proof -
  let ?E = "se_engine Y"
  obtain s1 where en: "ensure_indexer Y s = (Inr (), s1)"
    using assms by (auto simp: process_changes_def split: prod.splits sum.splits)
  let ?run0 = "(PendingWrite_default\<lparr>pw_gone := deleted changes\<rparr>, IndexStats_unchanged, Publishing_new x, sy_trace s1, sy_ix s1)"
  obtain run1 run2 st' where prep: "prepare_changes ?E (to_prepare changes) ?run0 = Some run1"
    and wo: "write_out ?E run1 = Some run2" and com: "commit_bm25 ?E (snd (snd (snd (snd run2)))) = (Inr (), sy_ix s')"
    and counts: "tells H stats = tells H (run_stats run2)" for H
    using assms en by (auto simp: process_changes_def Let_def tells_def split: sum.splits option.splits prod.splits)
  have "log_inv ?E changes (sy_ix s1) (to_prepare changes) [] ?run0"
    by (simp add: log_inv_def tells_def IndexStats_unchanged_def PendingWrite_default_def pending_paths_def)
  from prepare_changes_log[OF prep this] obtain H1 where "log_inv ?E changes (sy_ix s1) [] H1 run1" by blast
  from write_out_log[OF this wo] obtain H where l: "log_inv ?E changes (sy_ix s1) [] H run2"
    and pw: "fst run2 = PendingWrite_default" by blast
  obtain q pb tr st where run2: "run2 = (PendingWrite_default, q, pb, tr, st)" using pw by (cases run2) auto
  note i = l[unfolded log_inv_def run2 prod.case PendingWrite_default_def pending_paths_def pending_write.simps append_Nil2]
  have deals: "deals_with changes H" using i by (simp add: deals_with_def)
  have "map fst (to_prepare changes) = modified changes @ added changes" by (simp add: to_prepare_def comp_def)
  from arg_cong[OF this, of mset]
  have todo: "image_mset fst (mset (to_prepare changes)) = mset (modified changes) + mset (added changes)" by simp
  have fates: "mset (logged failed_in H @ logged skipped_in H @ logged indexed_in H) =
      mset (deleted changes @ modified changes @ added changes)"
    using i todo by (simp add: ac_simps)
  have t: "tells H stats" using counts[of H] i run2 by simp
  have "length (logged failed_in H) + length (logged skipped_in H) + length (logged indexed_in H) = total_changes changes"
    using arg_cong[OF fates, of size] by (simp add: total_changes_def)
  moreover have "replay ?E H (sy_ix s1) = Some st" using i by blast
  moreover have "commit_bm25 ?E st = (Inr (), sy_ix s')" using com run2 by simp
  ultimately show ?thesis
    using en deals fates t unfolding tells_def
    by (intro exI[of _ s1] exI[of _ st] exI[of _ H] conjI) simp_all
qed

subsection \<open>Opening\<close>

context sync_laws
begin

text \<open>What a run may start from: open and in step, or closed with a keyword index that is in step or still empty.\<close>

definition startable :: "('d, 't, 'w) sync_state \<Rightarrow> bool" where
  "startable s \<longleftrightarrow>
     (if sy_opened s then in_sync (sy_ix s)
      else vs.inv (ix_store (sy_ix s)) \<and> pending (ix_bm25 (sy_ix s)) = committed (ix_bm25 (sy_ix s)) \<and>
           (committed (ix_bm25 (sy_ix s)) = {#} \<or> committed (ix_bm25 (sy_ix s)) = docs_of (stored (sy_ix s))))"

lemma ensure_indexer_ok:
  assumes "ensure_indexer Y s = (Inr (), s')" and "startable s"
  shows "sy_opened s' \<and> in_sync (sy_ix s') \<and> stored (sy_ix s') = stored (sy_ix s) \<and> ix_fp (sy_ix s') = ix_fp (sy_ix s) \<and>
         sy_disk s' = sy_disk s \<and> sy_trace s' = sy_trace s"
proof (cases "sy_opened s")
  case True
  then show ?thesis using assms by (simp add: ensure_indexer_def startable_def)
next
  case False
  let ?ix = "sy_ix s"
  obtain r w d where w: "rebuild_bm25_if_empty (en_lance (se_engine Y)) (en_tantivy (se_engine Y)) (ix_store ?ix) (ix_bm25 ?ix) = (Inr r, w)"
    and s': "s' = s\<lparr>sy_store_disk := d, sy_ix := ?ix\<lparr>ix_bm25 := w\<rparr>, sy_opened := True\<rparr>"
    using assms(1) False
    by (auto simp: ensure_indexer_def for_embedded_with_backend_def Let_def split: sum.splits prod.splits)
  have inv: "vs.inv (ix_store ?ix)" "pending (ix_bm25 ?ix) = committed (ix_bm25 ?ix)"
    "committed (ix_bm25 ?ix) = {#} \<or> committed (ix_bm25 ?ix) = docs_of (vs.view (ix_store ?ix))"
    using assms(2) False by (auto simp: startable_def stored_def)
  have "pending w = docs_of (vs.view (ix_store ?ix))"
    using rebuild_ok[OF w inv(1,2)] inv by (auto simp: docs_of_def split: option.splits)
  then show ?thesis using inv(1) by (simp add: s' in_sync_def stored_def)
qed

lemma refill_bm25_ok:
  assumes "refill_bm25 Y old s = (Inr (), s')" and "startable s"
  shows "startable s' \<and> stored (sy_ix s') = stored (sy_ix s) \<and> ix_fp (sy_ix s') = ix_fp (sy_ix s) \<and>
         sy_disk s' = sy_disk s \<and> sy_trace s' = sy_trace s \<and> sy_opened s' = sy_opened s"
proof (cases "s' = s")
  case False
  let ?ix = "sy_ix s"
  obtain r w where w: "rebuild_bm25_if_empty (en_lance (se_engine Y)) (en_tantivy (se_engine Y)) (ix_store ?ix) (ix_bm25 ?ix) = (Inr r, w)"
    and closed: "\<not> sy_opened s" and s': "s' = s\<lparr>sy_ix := ?ix\<lparr>ix_bm25 := se_drop_writer Y w\<rparr>\<rparr>"
    using assms(1) False
    by (auto simp: refill_bm25_def rebuild_bm25_from_existing_store_def Let_def
        split: if_splits sum.splits prod.splits bool.splits vector_store_error.splits)
  have inv: "vs.inv (ix_store ?ix)" "pending (ix_bm25 ?ix) = committed (ix_bm25 ?ix)"
    "committed (ix_bm25 ?ix) = {#} \<or> committed (ix_bm25 ?ix) = docs_of (vs.view (ix_store ?ix))"
    using assms(2) closed by (auto simp: startable_def stored_def)
  have "committed w = {#} \<or> committed w = docs_of (vs.view (ix_store ?ix))"
    using rebuild_ok[OF w inv(1,2)] inv(3) by (auto split: option.splits)
  then show ?thesis using inv(1) closed dropped_writer by (simp add: s' startable_def stored_def)
qed (use assms in simp)

lemma process_changes_ok:
  assumes run: "process_changes Y changes x s = Some (Inr stats, s')" and none: "failed_files stats = 0"
    and start: "startable s" and dist: "distinct (map path_str (deleted changes @ modified changes @ added changes))"
  shows "\<exists>F C. in_sync (sy_ix s') \<and> committed (ix_bm25 (sy_ix s')) = docs_of (stored (sy_ix s')) \<and>
    stored (sy_ix s') =
      filter_mset (\<lambda>r. row_path r \<notin> path_str ` (set (deleted changes) \<union> set C \<union> pp_path ` set F)) (stored (sy_ix s)) +
      mset (concat (map file_rows F)) \<and>
    set C \<subseteq> set (modified changes) \<and> pp_path ` set F \<subseteq> set (modified changes) \<union> set (added changes) \<and>
    (\<forall>f \<in> set F. complete f \<and> recorded (ix_fp (sy_ix s')) f) \<and>
    (\<forall>p \<in> set (deleted changes). entry_of (ix_fp (sy_ix s')) p = None) \<and>
    indexed_files stats = length F \<and> total_chunks stats = sum_list (map (length \<circ> pp_chunks) F) \<and>
    indexed_files stats + skipped_files stats = total_changes changes \<and>
    distinct (map pp_path F) \<and> reasoned (ix_fp (sy_ix s)) (to_prepare changes) F C"
proof -
  let ?E = "se_engine Y" and ?goners = "deleted changes"
  obtain s1 where en: "ensure_indexer Y s = (Inr (), s1)"
    using run by (auto simp: process_changes_def split: prod.splits sum.splits)
  let ?run0 = "(PendingWrite_default\<lparr>pw_gone := ?goners\<rparr>, IndexStats_unchanged, Publishing_new x, sy_trace s1, sy_ix s1)"
  obtain run1 run2 st' where prep: "prepare_changes ?E (to_prepare changes) ?run0 = Some run1"
    and wo: "write_out ?E run1 = Some run2" and com: "commit_bm25 ?E (snd (snd (snd (snd run2)))) = (Inr (), st')"
    and st': "sy_ix s' = st'" and stats: "failed_files (run_stats run2) = failed_files stats"
      "indexed_files (run_stats run2) = indexed_files stats" "skipped_files (run_stats run2) = skipped_files stats"
      "total_chunks (run_stats run2) = total_chunks stats"
    using run en
    by (auto simp: process_changes_def Let_def split: option.splits prod.splits sum.splits)
  have en_ok: "in_sync (sy_ix s1)" "stored (sy_ix s1) = stored (sy_ix s)" "ix_fp (sy_ix s1) = ix_fp (sy_ix s)" using ensure_indexer_ok[OF en start] by simp_all
  have none2: "failed_files (run_stats run2) = 0" using none stats by simp
  then have none1: "failed_files (run_stats run1) = 0" using write_out_failures[OF wo] by simp
  have d: "distinct (map path_str (?goners @ map fst ([] @ to_prepare changes)))"
    using dist by (simp add: to_prepare_def comp_def)
  obtain F1 C1 G1 where inv1: "run_inv (sy_ix s1) ?goners (to_prepare changes) F1 C1 G1 run1"
    and why1: "run_reasons (sy_ix s1) (to_prepare changes) F1 C1 G1 run1"
    using prepare_changes_inv[OF prep none1 model_width run_inv_start d run_reasons_start] en_ok dist by auto
  obtain pw q1 pb tr st where run1: "run1 = (pw, q1, pb, tr, st)" by (cases run1) auto
  obtain q2 pb2 tr2 st2 where run2: "run2 = (PendingWrite_default, q2, pb2, tr2, st2)"
    using wo run1 by (auto simp: write_out_def split: prod.splits option.splits)
  let ?F = "F1 @ pw_files pw" and ?C = "C1 @ pw_cleared pw" and ?G = "G1 @ pw_gone pw"
  have inv: "run_inv (sy_ix s1) ?goners (to_prepare changes) ?F ?C ?G (PendingWrite_default, q2, pb2, tr2, st2)"
    using write_out_inv[OF inv1[unfolded run1] wo[unfolded run1] none2] run2 by simp
  have "run_reasons (sy_ix s1) (to_prepare changes) ?F ?C ?G (PendingWrite_default, q2, pb2, tr2, st2)"
    using write_out_reasons[OF inv1[unfolded run1] why1[unfolded run1] wo[unfolded run1] none2] run2 by simp
  then have why: "reasoned (ix_fp (sy_ix s)) (to_prepare changes) ?F ?C"
    using en_ok by (simp add: run_reasons_def PendingWrite_default_def)
  have "distinct (map path_str (map pp_path ?F))" using inv by (auto simp: run_inv_def)
  then have distF: "distinct (map pp_path ?F)" by (rule distinct_map[THEN iffD1, THEN conjunct1])
  have G: "?G = ?goners" using inv1 unfolding run1 run_inv_def prod.case by blast
  note i = inv[unfolded run_inv_def prod.case PendingWrite_default_def pending_write.simps append_Nil2 G]
  have com2: "commit_bm25 ?E st2 = (Inr (), st')" and sync: "in_sync st2" using com run2 i by simp_all
  have c: "in_sync st'" "stored st' = stored st2" "committed (ix_bm25 st') = pending (ix_bm25 st2)" "ix_fp st' = ix_fp st2"
    using commit_bm25_ok[OF com2 sync] by simp_all
  have stored: "stored st' = filter_mset (\<lambda>r. row_path r \<notin> path_str ` (set ?goners \<union> set ?C \<union> pp_path ` set ?F)) (stored (sy_ix s)) +
      mset (concat (map file_rows ?F))"
    using i c en_ok by (simp add: image_Un Un_assoc)
  have sets: "set ?C \<subseteq> set (modified changes)" "pp_path ` set ?F \<subseteq> set (modified changes) \<union> set (added changes)"
    using i by (auto simp: to_prepare_def)
  have "indexed_files stats = length ?F" "total_chunks stats = sum_list (map (length \<circ> pp_chunks) ?F)"
    "indexed_files stats + skipped_files stats = total_changes changes"
    using i stats run2 by (simp_all add: total_changes_def to_prepare_def)
  moreover have "committed (ix_bm25 st') = docs_of (stored st')" using c sync by (simp add: in_sync_def)
  moreover have "\<forall>f \<in> set ?F. complete f \<and> recorded (ix_fp st') f" "\<forall>p \<in> set ?goners. entry_of (ix_fp st') p = None"
    using i c by simp_all
  ultimately show ?thesis using c stored sets st' distF why
    by (intro exI[of _ ?F] exI[of _ ?C]) (simp del: map_append distinct_append)
qed

text \<open>The steps of a successful run.\<close>

lemma index_with_change_detection_Inr:
  assumes "index_with_change_detection Y dir x s = Some (Inr stats, s')"
  obtains old new s1 s2 final d where
    "ensure_index_disk_headroom (se_engine Y) (se_cache_path Y) = Inr ()"
    "load_snapshot (se_de Y) (se_snapshot Y) (sy_disk s) = Inr old"
    "from_directory (se_sha Y) (g_fs (en_gate (se_engine Y))) dir = Inr new"
    "refill_bm25 Y old s = (Inr (), s1)"
    "(case old of Some prev \<Rightarrow> incremental_update Y prev new x s1 | None \<Rightarrow> full_index Y dir x s1) = Some (Inr stats, s2)"
    "snapshot_with_retries new old (retry_files stats) = Some final"
    "save_snapshot (se_ser Y) (se_mroot Y) (se_zero Y) (se_io Y) (se_pid Y) (se_now Y) final (se_snapshot Y) (sy_disk s2) = (d, Inr ())"
    "s' = s2\<lparr>sy_disk := d\<rparr>"
  using assms unfolding index_with_change_detection_def
  by (auto split: sum.splits option.splits prod.splits)

lemma has_changes_some_change:
  assumes "merkle_wf new" and "merkle_wf old" and "has_changes mroot new old"
  shows "\<not> ChangeSet_is_empty (detect_changes mroot new old)"
proof
  assume e: "ChangeSet_is_empty (detect_changes mroot new old)"
  then have "set (added (detect_changes mroot new old)) = {}" "set (modified (detect_changes mroot new old)) = {}"
    "set (deleted (detect_changes mroot new old)) = {}" by (simp_all add: ChangeSet_is_empty_def)
  then have "hash_of new p = hash_of old p" for p unfolding detect_changes_sets[OF assms] by (simp only: Collect_empty_eq) metis
  from same_hashes_same_leaves[OF assms(1,2) this] assms(3) show False
    by (simp add: has_changes_def root_hash_def)
qed

lemma sync_ok:
  assumes run: "index_with_change_detection Y dir x s = Some (Inr stats, s')"
    and load: "load_snapshot (se_de Y) (se_snapshot Y) (sy_disk s) = Inr (Some old)" and wf: "merkle_wf old"
    and new: "from_directory (se_sha Y) (g_fs (en_gate (se_engine Y))) dir = Inr new" and wf': "merkle_wf new"
    and ch: "has_changes (se_mroot Y) new old" and none: "failed_files stats = 0" and start: "startable s"
    and inj: "inj_on path_str (set (file_paths old) \<union> set (file_paths new))"
    and G: "G = {p. hash_of new p = None \<and> hash_of old p \<noteq> None}"
    and M: "M = {p. hash_of new p \<noteq> None \<and> hash_of old p \<noteq> None \<and> hash_of new p \<noteq> hash_of old p}"
    and A: "A = {p. hash_of new p \<noteq> None \<and> hash_of old p = None}"
  shows "\<exists>F C. in_sync (sy_ix s') \<and> committed (ix_bm25 (sy_ix s')) = docs_of (stored (sy_ix s')) \<and>
    stored (sy_ix s') =
      filter_mset (\<lambda>r. row_path r \<notin> path_str ` (G \<union> set C \<union> pp_path ` set F)) (stored (sy_ix s)) +
      mset (concat (map file_rows F)) \<and>
    set C \<subseteq> M \<and> pp_path ` set F \<subseteq> M \<union> A \<and>
    (\<forall>f \<in> set F. complete f \<and> recorded (ix_fp (sy_ix s')) f) \<and>
    (\<forall>p \<in> G. entry_of (ix_fp (sy_ix s')) p = None) \<and>
    indexed_files stats = length F \<and> indexed_files stats + skipped_files stats = card (G \<union> M \<union> A) \<and>
    distinct (map pp_path F) \<and>
    (\<forall>f \<in> set F. accepted (en_gate (se_engine Y)) (ix_fp (sy_ix s)) (pp_path f) \<and>
       \<not> known (en_gate (se_engine Y)) kv (ix_fp (sy_ix s)) (pp_path f) \<and>
       \<not> secret (en_gate (se_engine Y)) (ix_fp (sy_ix s)) (pp_path f) \<and> chunked (se_engine Y) f) \<and>
    (\<forall>p \<in> set C. refused (en_gate (se_engine Y)) (ix_fp (sy_ix s)) p) \<and>
    (\<forall>p \<in> M \<union> A. p \<in> pp_path ` set F \<or> (if p \<in> M then p \<in> set C else refused (en_gate (se_engine Y)) (ix_fp (sy_ix s)) p) \<or>
       settled (en_gate (se_engine Y)) kv (ix_fp (sy_ix s)) p \<or> given_up (se_engine Y) kv (ix_fp (sy_ix s)) p)"
proof -
  let ?c = "detect_changes (se_mroot Y) new old"
  obtain s1 s2 d where refill: "refill_bm25 Y (Some old) s = (Inr (), s1)"
    and up: "incremental_update Y old new x s1 = Some (Inr stats, s2)" and s': "s' = s2\<lparr>sy_disk := d\<rparr>"
    by (rule index_with_change_detection_Inr[OF run]) (use load new in auto)
  obtain st where pc: "process_changes Y ?c x s1 = Some (Inr st, s2)"
    and stats: "stats = st\<lparr>total_files := file_count new\<rparr>"
    using up ch has_changes_some_change[OF wf' wf ch]
    by (auto simp: incremental_update_def Let_def split: option.splits prod.splits sum.splits)
  have r: "startable s1" "stored (sy_ix s1) = stored (sy_ix s)" "ix_fp (sy_ix s1) = ix_fp (sy_ix s)"
    using refill_bm25_ok[OF refill start] by simp_all
  note sets = detect_changes_sets[OF wf' wf ch]
  have dist: "distinct (deleted ?c @ modified ?c @ added ?c)" using detect_changes_distinct[OF wf' wf, of "se_mroot Y"] by auto
  have "hash_of m p \<noteq> None \<longleftrightarrow> p \<in> set (file_paths m)" for m :: "'h fs_merkle" and p
    by (simp add: hash_of_None_iff file_paths_def)
  then have "set (deleted ?c @ modified ?c @ added ?c) \<subseteq> set (file_paths old) \<union> set (file_paths new)"
    using sets by auto
  then have d: "distinct (map path_str (deleted ?c @ modified ?c @ added ?c))"
    unfolding distinct_map using dist inj_on_subset[OF inj] by blast
  have "card (G \<union> M \<union> A) = card (set (deleted ?c @ modified ?c @ added ?c))"
    using sets by (simp add: G M A Un_assoc)
  also have "\<dots> = total_changes ?c" using distinct_card[OF dist] by (simp add: total_changes_def)
  finally have card: "card (G \<union> M \<union> A) = total_changes ?c" .
  have "failed_files st = 0" using none stats by simp
  have todo: "set (to_prepare ?c) = (\<lambda>p. (p, False)) ` M \<union> (\<lambda>p. (p, True)) ` A"
    using sets by (simp add: to_prepare_def M A)
  have apart: "M \<inter> A = {}" by (auto simp: M A)
  obtain F C where res: "in_sync (sy_ix s2) \<and> committed (ix_bm25 (sy_ix s2)) = docs_of (stored (sy_ix s2)) \<and>
      stored (sy_ix s2) = filter_mset (\<lambda>r. row_path r \<notin> path_str ` (G \<union> set C \<union> pp_path ` set F)) (stored (sy_ix s1)) +
        mset (concat (map file_rows F)) \<and>
      set C \<subseteq> M \<and> pp_path ` set F \<subseteq> M \<union> A \<and> (\<forall>f \<in> set F. complete f \<and> recorded (ix_fp (sy_ix s2)) f) \<and>
      (\<forall>p \<in> G. entry_of (ix_fp (sy_ix s2)) p = None) \<and>
      indexed_files st = length F \<and> indexed_files st + skipped_files st = card (G \<union> M \<union> A) \<and> distinct (map pp_path F)"
    and why: "reasoned (ix_fp (sy_ix s1)) (to_prepare ?c) F C"
    using process_changes_ok[OF pc \<open>failed_files st = 0\<close> r(1) d]
    unfolding sets G[symmetric] M[symmetric] A[symmetric] card by blast
  from why have "(\<forall>f \<in> set F. accepted (en_gate (se_engine Y)) (ix_fp (sy_ix s)) (pp_path f) \<and>
       \<not> known (en_gate (se_engine Y)) kv (ix_fp (sy_ix s)) (pp_path f) \<and>
       \<not> secret (en_gate (se_engine Y)) (ix_fp (sy_ix s)) (pp_path f) \<and> chunked (se_engine Y) f) \<and>
    (\<forall>p \<in> set C. refused (en_gate (se_engine Y)) (ix_fp (sy_ix s)) p) \<and>
    (\<forall>p \<in> M \<union> A. p \<in> pp_path ` set F \<or> (if p \<in> M then p \<in> set C else refused (en_gate (se_engine Y)) (ix_fp (sy_ix s)) p) \<or>
       settled (en_gate (se_engine Y)) kv (ix_fp (sy_ix s)) p \<or> given_up (se_engine Y) kv (ix_fp (sy_ix s)) p)"
    using apart unfolding reasoned_def r(3) todo by (auto 0 3 simp: image_iff)
  with res show ?thesis unfolding s' stats r(2) by (intro exI[of _ F] exI[of _ C]) simp
qed

subsection \<open>The snapshot a run leaves\<close>

lemma save_snapshot_result:
  "snd (save_snapshot ser mroot zero io pid now m name d) = snd (save_snapshot ser mroot zero io pid now m' name d')"
  by (simp add: save_snapshot_def write_snapshot_def Let_def split: sum.split prod.split)

text \<open>Only changed files are put on the retry list.\<close>

lemma run_retries_differ:
  assumes up: "(case old of Some prev \<Rightarrow> incremental_update Y prev new x s | None \<Rightarrow> full_index Y dir x s) = Some (Inr stats, s')"
    and new: "from_directory (se_sha Y) (g_fs (en_gate (se_engine Y))) dir = Inr new"
    and walk: "distinct (fst (collect_project_rust_files (g_fs (en_gate (se_engine Y))) dir))"
    and p: "p \<in> set (retry_files stats)"
  shows "hash_of new p \<noteq> prev_hash old p"
proof (cases old)
  case None
  then obtain st ix where "index_directory_parallel (se_engine Y) dir ix = Some (Inr stats, st)"
    using up by (auto simp: full_index_def split: prod.splits sum.splits option.splits)
  from parallel_retry[OF this] p from_directory_walked[OF new walk, of p] show ?thesis
    by (auto simp: None prev_hash_def)
next
  case (Some prev)
  have wf: "merkle_wf new" using from_directory_Inr[OF new walk] by simp
  let ?c = "detect_changes (se_mroot Y) new prev"
  have "retry_files stats \<noteq> []" using p by auto
  then obtain st s1 where pc: "process_changes Y ?c x s = Some (Inr st, s1)"
    and stats: "stats = st\<lparr>total_files := file_count new\<rparr>"
    using up Some
    by (auto simp: incremental_update_def unchanged_stats_def IndexStats_unchanged_def Let_def
        split: if_splits option.splits prod.splits sum.splits)
  from process_changes_log[OF pc] obtain H where
    fates: "mset (logged failed_in H @ logged skipped_in H @ logged indexed_in H) = mset (deleted ?c @ modified ?c @ added ?c)"
    and retry: "retry_files st = logged failed_in H" by blast
  have "set (retry_files st) \<subseteq> set (logged failed_in H @ logged skipped_in H @ logged indexed_in H)"
    using retry by simp
  also note mset_eq_setD[OF fates]
  finally have "set (retry_files st) \<subseteq> set (added ?c @ modified ?c @ deleted ?c)" by (simp only: set_append Un_ac)
  with p stats have "p \<in> set (added ?c @ modified ?c @ deleted ?c)" by auto
  from detect_changes_differ[OF wf this] show ?thesis by (simp add: Some prev_hash_def)
qed

lemma sync_saves_snapshot:
  assumes run: "index_with_change_detection Y dir x s = Some (Inr stats, s')"
    and walk: "distinct (fst (collect_project_rust_files (g_fs (en_gate (se_engine Y))) dir))"
    and tmp: "temporary_name (se_snapshot Y) (se_pid Y) \<noteq> se_snapshot Y"
  obtains old new final where "load_snapshot (se_de Y) (se_snapshot Y) (sy_disk s) = Inr old"
    and "from_directory (se_sha Y) (g_fs (en_gate (se_engine Y))) dir = Inr new" and "merkle_wf new"
    and "load_snapshot (se_de Y) (se_snapshot Y) (sy_disk s') = Inr (Some final)" and "merkle_wf final"
    and "\<And>p. hash_of final p = (if p \<in> set (retry_files stats) then prev_hash old p else hash_of new p)"
    and "snd (save_snapshot (se_ser Y) (se_mroot Y) (se_zero Y) (se_io Y) (se_pid Y) (se_now Y) final (se_snapshot Y) (sy_disk s')) = Inr ()"
    and "\<And>p. p \<in> set (retry_files stats) \<Longrightarrow> hash_of new p \<noteq> prev_hash old p"
proof -
  obtain old new s1 s2 final d where f: "load_snapshot (se_de Y) (se_snapshot Y) (sy_disk s) = Inr old"
    "from_directory (se_sha Y) (g_fs (en_gate (se_engine Y))) dir = Inr new"
    and sw: "snapshot_with_retries new old (retry_files stats) = Some final"
    and sv: "save_snapshot (se_ser Y) (se_mroot Y) (se_zero Y) (se_io Y) (se_pid Y) (se_now Y) final (se_snapshot Y) (sy_disk s2) = (d, Inr ())"
    and up: "(case old of Some prev \<Rightarrow> incremental_update Y prev new x s1 | None \<Rightarrow> full_index Y dir x s1) = Some (Inr stats, s2)"
    and s': "s' = s2\<lparr>sy_disk := d\<rparr>"
    by (rule index_with_change_detection_Inr[OF run]) auto
  have wf: "merkle_wf new" using from_directory_Inr[OF f(2) walk] by simp
  have fin: "merkle_wf final" "\<And>p. hash_of final p = (if p \<in> set (retry_files stats) then prev_hash old p else hash_of new p)"
    using snapshot_with_retries_Some[OF wf, of old "retry_files stats"] sw by auto
  have "load_snapshot (se_de Y) (se_snapshot Y) (sy_disk s') = Inr (Some final)"
    using save_load[where de = "se_de Y" and ser = "se_ser Y", OF fin(1) codec tmp sv] by (simp add: s')
  moreover have "snd (save_snapshot (se_ser Y) (se_mroot Y) (se_zero Y) (se_io Y) (se_pid Y) (se_now Y) final (se_snapshot Y) (sy_disk s')) = Inr ()"
    using sv save_snapshot_result by (metis snd_conv)
  ultimately show thesis using f wf fin run_retries_differ[OF up f(2) walk] by (rule_tac that) auto
qed

lemma saved_snapshot_ok:
  assumes "index_with_change_detection Y dir x s = Some (Inr stats, s')"
    and "distinct (fst (collect_project_rust_files (g_fs (en_gate (se_engine Y))) dir))"
    and "temporary_name (se_snapshot Y) (se_pid Y) \<noteq> se_snapshot Y"
  shows "\<exists>old new final. load_snapshot (se_de Y) (se_snapshot Y) (sy_disk s) = Inr old \<and>
    from_directory (se_sha Y) (g_fs (en_gate (se_engine Y))) dir = Inr new \<and>
    load_snapshot (se_de Y) (se_snapshot Y) (sy_disk s') = Inr (Some final) \<and> merkle_wf final \<and>
    (\<forall>p. hash_of final p = (if p \<in> set (retry_files stats) then prev_hash old p else hash_of new p)) \<and>
    {p. hash_of new p \<noteq> hash_of final p} = set (retry_files stats) \<and>
    set (added (detect_changes (se_mroot Y) new final) @ modified (detect_changes (se_mroot Y) new final) @
         deleted (detect_changes (se_mroot Y) new final)) =
      (if has_changes (se_mroot Y) new final then set (retry_files stats) else {})"
proof -
  obtain old new final where s: "load_snapshot (se_de Y) (se_snapshot Y) (sy_disk s) = Inr old"
    "from_directory (se_sha Y) (g_fs (en_gate (se_engine Y))) dir = Inr new" "merkle_wf new"
    "load_snapshot (se_de Y) (se_snapshot Y) (sy_disk s') = Inr (Some final)" "merkle_wf final"
    and h: "\<And>p. hash_of final p = (if p \<in> set (retry_files stats) then prev_hash old p else hash_of new p)"
    and d: "\<And>p. p \<in> set (retry_files stats) \<Longrightarrow> hash_of new p \<noteq> prev_hash old p"
    by (rule sync_saves_snapshot[OF assms]) blast
  have diff: "{p. hash_of new p \<noteq> hash_of final p} = set (retry_files stats)" using h d by auto
  have "set (added (detect_changes (se_mroot Y) new final) @ modified (detect_changes (se_mroot Y) new final) @
      deleted (detect_changes (se_mroot Y) new final)) = {p. hash_of new p \<noteq> hash_of final p}"
    if "has_changes (se_mroot Y) new final"
    unfolding set_append detect_changes_sets[OF s(3,5) that] by auto
  then have "set (added (detect_changes (se_mroot Y) new final) @ modified (detect_changes (se_mroot Y) new final) @
      deleted (detect_changes (se_mroot Y) new final)) =
      (if has_changes (se_mroot Y) new final then set (retry_files stats) else {})"
    unfolding diff by (simp add: detect_changes_no_root_change ChangeSet_empty_def)
  with s h diff show ?thesis by blast
qed

lemma second_sync_ok:
  assumes run: "index_with_change_detection Y dir x s = Some (Inr stats, s')" and none: "retry_files stats = []"
    and walk: "distinct (fst (collect_project_rust_files (g_fs (en_gate (se_engine Y))) dir))"
    and tmp: "temporary_name (se_snapshot Y) (se_pid Y) \<noteq> se_snapshot Y" and op: "sy_opened s'"
  shows "\<exists>stats' s''. index_with_change_detection Y dir x' s' = Some (Inr stats', s'') \<and> indexed_files stats' = 0 \<and>
     retry_files stats' = [] \<and> unchanged_files stats' = total_files stats' \<and> sy_ix s'' = sy_ix s' \<and> sy_trace s'' = sy_trace s'"
proof -
  obtain old new final where new: "from_directory (se_sha Y) (g_fs (en_gate (se_engine Y))) dir = Inr new" "merkle_wf new"
    and fin: "load_snapshot (se_de Y) (se_snapshot Y) (sy_disk s') = Inr (Some final)" "merkle_wf final"
    and h: "\<And>p. hash_of final p = hash_of new p"
    and sv: "snd (save_snapshot (se_ser Y) (se_mroot Y) (se_zero Y) (se_io Y) (se_pid Y) (se_now Y) final (se_snapshot Y) (sy_disk s')) = Inr ()"
    by (rule sync_saves_snapshot[OF run walk tmp]) (auto simp: none)
  have room: "ensure_index_disk_headroom (se_engine Y) (se_cache_path Y) = Inr ()"
    by (rule index_with_change_detection_Inr[OF run])
  have "\<not> has_changes (se_mroot Y) new final"
    using same_hashes_same_leaves[OF new(2) fin(2)] h by (simp add: has_changes_def root_hash_def)
  then have up: "incremental_update Y final new x' s' = Some (Inr (unchanged_stats new), s')"
    by (simp add: incremental_update_def)
  have refill: "refill_bm25 Y (Some final) s' = (Inr (), s')" using op by (simp add: refill_bm25_def)
  obtain final2 where f2: "snapshot_with_retries new (Some final) [] = Some final2"
    using snapshot_with_retries_Some[OF new(2)] by blast
  obtain d where "save_snapshot (se_ser Y) (se_mroot Y) (se_zero Y) (se_io Y) (se_pid Y) (se_now Y) final2 (se_snapshot Y) (sy_disk s') = (d, Inr ())"
    using sv save_snapshot_result by (metis prod.collapse)
  then have "index_with_change_detection Y dir x' s' = Some (Inr (unchanged_stats new), s'\<lparr>sy_disk := d\<rparr>)"
    using room fin(1) new(1) refill up f2
    by (simp add: index_with_change_detection_def unchanged_stats_def IndexStats_unchanged_def)
  then show ?thesis by (simp add: unchanged_stats_def IndexStats_unchanged_def)
qed

end

subsection \<open>Readers\<close>

text \<open>Before the first write the trace is untouched; from then on the readers are out, if the run keeps them out.\<close>

definition publishing_inv :: "reader_exclusion \<Rightarrow> sync_event list \<Rightarrow> publishing \<Rightarrow> sync_event list \<Rightarrow> bool" where
  "publishing_inv x tr0 pb tr \<longleftrightarrow>
     pb_exclusion pb = x \<and>
     (if pb_entered pb
      then pb_guard pb = (x = AroundPublish) \<and>
           (\<exists>n. tr = tr0 @ (if x = AroundPublish then [ReadersOut] else []) @ replicate (Suc n) StoreWrite)
      else \<not> pb_guard pb \<and> tr = tr0)"

lemma write_out_trace:
  assumes "write_out E (pw, s, pb, tr, st) = Some (pw', s', pb', tr', st')" and "publishing_inv x tr0 pb tr"
  shows "publishing_inv x tr0 pb' tr' \<and> pb_entered pb'"
proof (cases "pb_entered pb")
  case True
  with assms(2) obtain n where "tr = tr0 @ (if x = AroundPublish then [ReadersOut] else []) @ replicate (Suc n) StoreWrite"
    "pb_guard pb = (x = AroundPublish)" "pb_exclusion pb = x" by (auto simp: publishing_inv_def)
  with True assms(1) show ?thesis
    by (auto simp: write_out_def before_write_def publishing_inv_def replicate_append_same
        intro!: exI[of _ "Suc n"] split: option.splits)
next
  case False
  with assms show ?thesis
    by (auto simp: write_out_def before_write_def publishing_inv_def exclude_def intro!: exI[of _ 0]
        split: option.splits reader_exclusion.splits)
qed

lemma prepare_changes_trace:
  "prepare_changes E todo (pw, s, pb, tr, st) = Some (pw', s', pb', tr', st') \<Longrightarrow> publishing_inv x tr0 pb tr \<Longrightarrow>
   publishing_inv x tr0 pb' tr'"
proof (induction todo arbitrary: pw s pb tr st)
  case (Cons change todo)
  obtain p consult where change: "change = (p, consult)" by force
  from Cons.prems(1)[unfolded change] obtain st1 pw1 s1 run1 where
    rest: "prepare_changes E todo run1 = Some (pw', s', pb', tr', st')"
    and step: "run1 = (pw1, s1, pb, tr, st1) \<or> write_out E (pw1, s1, pb, tr, st1) = Some run1"
    by (rule prepare_changes_step)
  obtain pw2 s2 pb2 tr2 st2 where run1: "run1 = (pw2, s2, pb2, tr2, st2)" by (cases run1) auto
  have "publishing_inv x tr0 pb2 tr2" using step run1 Cons.prems(2) write_out_trace[of E pw1 s1 pb tr st1] by auto
  then show ?case by (rule Cons.IH[OF rest[unfolded run1]])
qed simp

lemma ensure_indexer_trace: "sy_trace (snd (ensure_indexer Y s)) = sy_trace s"
  by (auto simp: ensure_indexer_def for_embedded_with_backend_def Let_def split: sum.splits prod.splits)

text \<open>C5: Readers never see a half-written run. A run over changes either touches no store, or it keeps the readers
  out exactly once: they leave before the first write of either store and come back after the last one, when
  the keyword index has been committed or the commit has failed. With the lock held by the caller the run itself
  neither takes nor releases it.\<close>

theorem readers_are_out_while_stores_change:
  assumes "process_changes Y changes x s = Some (r, s')"
  shows "sy_trace s' = sy_trace s \<or>
    (\<exists>n. sy_trace s' = sy_trace s @ (if x = AroundPublish then [ReadersOut] else []) @ replicate (Suc n) StoreWrite @
       (if is_ok r then [Bm25Commit] else []) @ (if x = AroundPublish then [ReadersIn] else []))"
proof -
  obtain r1 s1 where en: "ensure_indexer Y s = (r1, s1)" by force
  have tr1: "sy_trace s1 = sy_trace s" using ensure_indexer_trace[of Y s] en by simp
  have start: "publishing_inv x (sy_trace s) (Publishing_new x) (sy_trace s1)"
    by (simp add: publishing_inv_def Publishing_new_def tr1)
  show ?thesis
  proof (cases "sy_trace s' = sy_trace s")
    case False
    then obtain pw q ix pw1 q1 pb1 t1 st1 pw2 q2 pb2 t2 st2 where
      prep: "prepare_changes (se_engine Y) (to_prepare changes) (pw, q, Publishing_new x, sy_trace s1, ix) =
        Some (pw1, q1, pb1, t1, st1)"
      and wo: "write_out (se_engine Y) (pw1, q1, pb1, t1, st1) = Some (pw2, q2, pb2, t2, st2)"
      and tr': "sy_trace s' = drop_guard (pb_guard pb2) (t2 @ (if is_ok r then [Bm25Commit] else []))"
      using assms en tr1
      by (fastforce simp: process_changes_def Let_def split: sum.splits option.splits prod.splits)
    have "publishing_inv x (sy_trace s) pb2 t2 \<and> pb_entered pb2"
      by (rule write_out_trace[OF wo prepare_changes_trace[OF prep start]])
    then show ?thesis using tr' by (auto simp: publishing_inv_def drop_guard_def split: if_splits)
  qed simp
qed

subsection \<open>Accounting\<close>

text \<open>C6: A run over changes loses none of them. The calls the run made, with the answers they got, form a log: the
  log replays on the opened indexer up to the commit that ends the run, it prepares exactly the modified and
  added files in order, writes exactly the files that came out ready, clears exactly the modified files that were
  refused, and removes and forgets exactly the deleted ones. By the answers of this log every change has exactly
  one fate, failed, skipped or indexed, and the statistics are these fates: the retry list is exactly the list of
  the paths that failed, in order, whatever fails.\<close>

theorem sync_accounts_for_every_change:
  assumes "process_changes Y changes x s = Some (Inr stats, s')"
  shows "\<exists>s1 st H. ensure_indexer Y s = (Inr (), s1) \<and> replay (se_engine Y) H (sy_ix s1) = Some st \<and>
    commit_bm25 (se_engine Y) st = (Inr (), sy_ix s') \<and> deals_with changes H \<and>
    mset (logged failed_in H @ logged skipped_in H @ logged indexed_in H) =
      mset (deleted changes @ modified changes @ added changes) \<and>
    retry_files stats = logged failed_in H \<and> failed_files stats = length (logged failed_in H) \<and>
    skipped_files stats = length (logged skipped_in H) \<and> indexed_files stats = length (logged indexed_in H) \<and>
    indexed_files stats + skipped_files stats + failed_files stats = total_changes changes"
  by (rule process_changes_log[OF assms])

end
