(* ===== verification/Sync_Service.thy ===== *)
theory Sync_Service
  imports Sync_Laws "HOL-Library.Countable"
begin

text \<open>
  The full pass over a tree and the service on top of the incremental run: what a parallel pass and a forced
  reindex leave in the stores; then the properties of the incremental run as a whole, with an environment in
  memory on which they are exercised.
\<close>

subsection \<open>The parallel pass\<close>

lemma parallel_parse_batch_ok:
  assumes "parallel_parse_batch G cfg fp ps n = Some (processed, errs, n')" and "distinct (map path_str ps)"
  shows "distinct (map (path_str \<circ> pf_path) processed) \<and> pf_path ` set processed \<subseteq> set ps \<and>
    (\<forall>f \<in> set processed. pf_chunks f \<noteq> [] \<and> (\<forall>c \<in> set (pf_chunks f). file_path (ctx c) = pf_path f) \<and>
       fs_read_to_string (g_fs G) (pf_path f) = Inr (pf_content f))"
  using assms
proof (induction ps arbitrary: n processed errs)
  case (Cons p ps)
  from Cons.prems(1) obtain r n1 parsed errs1 where r: "process_file_sync G cfg fp p n = Some (r, n1)"
    and rest: "parallel_parse_batch G cfg fp ps n1 = Some (parsed, errs1, n')"
    and res: "processed = (case r of Inr f \<Rightarrow> f # parsed | Inl _ \<Rightarrow> parsed)"
    by (auto split: option.splits prod.splits sum.splits)
  from Cons.prems(2) have dist: "distinct (map path_str ps)" and new: "path_str p \<notin> path_str ` set ps" by simp_all
  note ih = Cons.IH[OF rest dist]
  show ?case
  proof (cases r)
    case (Inl e)
    then show ?thesis using ih res by auto
  next
    case (Inr f)
    note f = process_file_sync_Inr[OF r[unfolded Inr]]
    have "pf_path f = p" "pf_chunks f \<noteq> []" "\<forall>c \<in> set (pf_chunks f). file_path (ctx c) = p"
      using f parse_and_chunk_Inr by blast+
    moreover have "path_str p \<notin> (path_str \<circ> pf_path) ` set parsed" using ih new by (auto simp: image_comp[symmetric])
    ultimately show ?thesis using ih f res Inr by auto
  qed
qed simp

lemma split_embeddings_width:
  "split_embeddings fs es = (ps, rest) \<Longrightarrow> \<forall>e \<in> set es. length e = n \<Longrightarrow> \<forall>p \<in> set ps. \<forall>e \<in> set (pp_embeddings p). length e = n"
proof (induction fs arbitrary: es ps)
  case (Cons f fs)
  obtain qs where qs: "split_embeddings fs (drop (length (pf_chunks f)) es) = (qs, rest)"
    and ps: "ps = \<lparr>pp_path = pf_path f, pp_content = pf_content f, pp_chunks = pf_chunks f,
      pp_embeddings = take (length (pf_chunks f)) es\<rparr> # qs"
    using Cons.prems(1) by (auto split: prod.splits)
  have "\<forall>e \<in> set (drop (length (pf_chunks f)) es). length e = n" using Cons.prems(2) by (meson in_set_dropD)
  from Cons.IH[OF qs this] Cons.prems(2) show ?case unfolding ps by (auto dest: in_set_takeD)
qed simp

lemma split_embeddings_files:
  assumes "split_embeddings fs es = (ps, rest)" and "length es = length (concat (map pf_chunks fs))" and "p \<in> set ps"
  shows "\<exists>f \<in> set fs. pp_path p = pf_path f \<and> pp_content p = pf_content f \<and> pp_chunks p = pf_chunks f \<and>
           length (pp_embeddings p) = length (pp_chunks p)"
proof -
  note r = split_embeddings_rows[OF assms(1,2)]
  from assms(3) obtain i where i: "i < length ps" "p = ps ! i" by (auto simp: in_set_conv_nth)
  have len: "length ps = length fs" using r by (metis length_map)
  then have "pp_path p = pf_path (fs ! i)" "pp_chunks p = pf_chunks (fs ! i)" "pp_content p = pf_content (fs ! i)"
    using r i by (metis nth_map)+
  moreover have "length (pp_embeddings p) = length (pp_chunks p)" using r assms(3) by simp
  ultimately show ?thesis using i len by (intro bexI[of _ "fs ! i"]) auto
qed

lemma process_batch_errors_counts [simp]: "indexed_files (process_batch_errors es s) = indexed_files s"
  by (induction es arbitrary: s) (simp_all split: error_category.split)

context engine_laws
begin

text \<open>The state of a pass that started in \<open>st0\<close>, has looked at the paths \<open>seen\<close> and has written the files \<open>F\<close>.\<close>

definition pass_inv :: "('d, 't, 'w) indexer \<Rightarrow> path list \<Rightarrow> prepared_file list \<Rightarrow> ('d, 't, 'w) indexer \<Rightarrow> bool" where
  "pass_inv st0 seen F st \<longleftrightarrow>
     in_sync st \<and>
     stored st = filter_mset (\<lambda>x. row_path x \<notin> path_str ` pp_path ` set F) (stored st0) + mset (concat (map file_rows F)) \<and>
     (\<forall>f \<in> set F. complete f) \<and> pp_path ` set F \<subseteq> set seen \<and> distinct (map (path_str \<circ> pp_path) F)"

lemma pass_inv_write:
  assumes inv: "pass_inv st0 seen F st" and w: "write_files E files [] st = Some (Inr (), st')"
    and ok: "\<forall>f \<in> set files. complete f" and dist: "distinct (map (path_str \<circ> pp_path) files)"
    and new: "path_str ` pp_path ` set files \<inter> path_str ` set seen = {}" and sub: "pp_path ` set files \<subseteq> set batch"
  shows "pass_inv st0 (seen @ batch) (F @ files) st'"
proof -
  note i = inv[unfolded pass_inv_def]
  have prep: "\<forall>f \<in> set files. prepared_ok (en_dim E) f" using ok by (simp add: complete_def)
  let ?old = "path_str ` pp_path ` set F" and ?new = "path_str ` pp_path ` set files"
  have sync: "in_sync st" and old: "stored st = filter_mset (\<lambda>x. row_path x \<notin> ?old) (stored st0) + mset (concat (map file_rows F))"
    using i by blast+
  have wr: "in_sync st'" "stored st' = filter_mset (\<lambda>x. row_path x \<notin> ?new) (stored st) + mset (concat (map file_rows files))"
    using write_files_ok[OF w sync prep] by simp_all
  have apart: "?old \<inter> ?new = {}" using i new by blast
  have keep: "row_path x \<notin> ?new" if "x \<in># mset (concat (map file_rows F))" for x
  proof -
    from that obtain g where g: "g \<in> set F" "x \<in> set (file_rows g)" by auto
    then have "row_path x = path_str (pp_path g)" using i file_rows_paths by blast
    then show ?thesis using apart g(1) by auto
  qed
  have "stored st' = filter_mset (\<lambda>x. row_path x \<notin> ?new) (filter_mset (\<lambda>x. row_path x \<notin> ?old) (stored st0)) +
      filter_mset (\<lambda>x. row_path x \<notin> ?new) (mset (concat (map file_rows F))) + mset (concat (map file_rows files))"
    unfolding wr(2) old by (simp only: filter_union_mset)
  also have "filter_mset (\<lambda>x. row_path x \<notin> ?new) (mset (concat (map file_rows F))) = mset (concat (map file_rows F))"
    using keep by (rule filter_mset_keep)
  also have "filter_mset (\<lambda>x. row_path x \<notin> ?new) (filter_mset (\<lambda>x. row_path x \<notin> ?old) (stored st0)) =
      filter_mset (\<lambda>x. row_path x \<notin> path_str ` pp_path ` set (F @ files)) (stored st0)"
    unfolding filter_filter_mset by (rule filter_mset_cong) (auto simp: image_Un)
  finally have "stored st' = filter_mset (\<lambda>x. row_path x \<notin> path_str ` pp_path ` set (F @ files)) (stored st0) +
      mset (concat (map file_rows (F @ files)))" by simp
  moreover have "distinct (map (path_str \<circ> pp_path) (F @ files))"
    using i dist apart by (simp add: image_image)
  ultimately show ?thesis using i ok wr(1) sub by (auto simp: pass_inv_def)
qed

lemma process_and_index_batch_ok:
  assumes inv: "pass_inv st0 seen F st" and width: "text_model (en_raw E) (\<lambda>_ _ e. length e = en_dim E)"
    and run: "process_and_index_batch E processed s st = Some (Inr s', st')"
    and parsed: "distinct (map (path_str \<circ> pf_path) processed)" "pf_path ` set processed \<subseteq> set batch"
      "\<forall>f \<in> set processed. pf_chunks f \<noteq> [] \<and> (\<forall>c \<in> set (pf_chunks f). file_path (ctx c) = pf_path f) \<and>
       fs_read_to_string (g_fs (en_gate E)) (pf_path f) = Inr (pf_content f)"
    and new: "path_str ` set batch \<inter> path_str ` set seen = {}"
  shows "\<exists>files. pass_inv st0 (seen @ batch) (F @ files) st' \<and> indexed_files s' = indexed_files s + length files"
proof -
  obtain es k files where gen: "core_generate_embeddings E (concat (map pf_chunks processed)) (ix_calls st) = Some (Inr es, k)"
    and sp: "split_embeddings processed es = (files, [])"
    and w: "write_files E files [] (st\<lparr>ix_calls := k\<rparr>) = Some (Inr (), st')"
    and s': "indexed_files s' = indexed_files s + length processed"
    using run by (auto simp: process_and_index_batch_def Let_def split: option.splits prod.splits sum.splits if_splits)
  note g = generate_width[OF width gen]
  note r = split_embeddings_rows[OF sp g[THEN conjunct1]]
  have files: "\<forall>f \<in> set files. complete f"
  proof
    fix f assume f: "f \<in> set files"
    from split_embeddings_files[OF sp g[THEN conjunct1] f] parsed(3) split_embeddings_width[OF sp g[THEN conjunct2]] f
    show "complete f" by (fastforce simp: complete_def prepared_ok_def)
  qed
  have map_path: "map pp_path files = map pf_path processed" using r by blast
  then have dist: "distinct (map (path_str \<circ> pp_path) files)" and set: "pp_path ` set files = pf_path ` set processed"
    using parsed(1) by (metis map_map) (metis image_set map_path)
  have len: "length files = length processed" using map_path by (metis length_map)
  have inv': "pass_inv st0 seen F (st\<lparr>ix_calls := k\<rparr>)" using inv by (simp add: pass_inv_def in_sync_def stored_def)
  have "path_str ` pp_path ` set files \<inter> path_str ` set seen = {}" "pp_path ` set files \<subseteq> set batch"
    using parsed(2) new unfolding set by blast+
  from pass_inv_write[OF inv' w files dist this] s' len show ?thesis by auto
qed

lemma commit_pass:
  assumes "pass_inv st0 seen F st" and "commit_bm25 E st = (Inr (), st')"
  shows "pass_inv st0 seen F st' \<and> committed (ix_bm25 st') = docs_of (stored st')"
proof -
  have sync: "in_sync st" using assms(1) by (simp add: pass_inv_def)
  from commit_bm25_ok[OF assms(2) sync] assms(1) show ?thesis by (simp add: pass_inv_def in_sync_def)
qed

lemma index_batches_ok:
  assumes "text_model (en_raw E) (\<lambda>_ _ e. length e = en_dim E)"
    and "index_batches E batches s st = Some (Inr s', st')" and "pass_inv st0 seen F st"
    and "distinct (map path_str (seen @ concat batches))"
  shows "\<exists>files. pass_inv st0 (seen @ concat batches) (F @ files) st' \<and> indexed_files s' = indexed_files s + length files \<and>
    (batches \<noteq> [] \<longrightarrow> committed (ix_bm25 st') = docs_of (stored st'))"
  using assms(2-4)
proof (induction batches arbitrary: s st seen F)
  case (Cons batch batches)
  obtain processed errs n where pb: "parallel_parse_batch (en_gate E) (en_split E) (ix_fp st) batch (ix_ids st) = Some (processed, errs, n)"
    using Cons.prems(1) by (auto split: sum.splits option.splits)
  let ?s = "process_batch_errors errs s" and ?st = "st\<lparr>ix_ids := n\<rparr>"
  obtain s1 st1 st2 where mid: "(if processed = [] then Some (Inr ?s, ?st) else process_and_index_batch E processed ?s ?st) = Some (Inr s1, st1)"
    and com: "commit_bm25 E st1 = (Inr (), st2)" and rest: "index_batches E batches s1 st2 = Some (Inr s', st')"
    using Cons.prems(1) pb by (auto split: sum.splits option.splits prod.splits)
  have dist: "distinct (map path_str batch)" and new: "path_str ` set batch \<inter> path_str ` set seen = {}"
    and more: "distinct (map path_str ((seen @ batch) @ concat batches))"
    using Cons.prems(3) by auto
  note parsed = parallel_parse_batch_ok[OF pb dist]
  have inv: "pass_inv st0 seen F ?st" using Cons.prems(2) by (simp add: pass_inv_def in_sync_def stored_def)
  have "\<exists>files. pass_inv st0 (seen @ batch) (F @ files) st1 \<and> indexed_files s1 = indexed_files s + length files"
  proof (cases "processed = []")
    case True
    then show ?thesis using mid inv by (intro exI[of _ "[]"]) (auto simp: pass_inv_def)
  next
    case False
    then show ?thesis using process_and_index_batch_ok[OF inv assms(1) _ _ _ _ new, of processed ?s s1 st1] mid parsed by simp
  qed
  then obtain fs1 where f1: "pass_inv st0 (seen @ batch) (F @ fs1) st1" "indexed_files s1 = indexed_files s + length fs1" by blast
  note c = commit_pass[OF f1(1) com]
  from Cons.IH[OF rest c[THEN conjunct1] more] obtain fs2 where
    f2: "pass_inv st0 ((seen @ batch) @ concat batches) ((F @ fs1) @ fs2) st'" "indexed_files s' = indexed_files s1 + length fs2"
      "batches \<noteq> [] \<longrightarrow> committed (ix_bm25 st') = docs_of (stored st')" by blast
  have "committed (ix_bm25 st') = docs_of (stored st')"
    using f2(3) c rest by (cases "batches = []") auto
  then show ?case using f1(2) f2(1,2) by (intro exI[of _ "fs1 @ fs2"]) simp
qed (auto intro!: exI[of _ "[]"])

lemma full_pass_ok:
  assumes width: "text_model (en_raw E) (\<lambda>_ _ e. length e = en_dim E)"
    and run: "index_directory_parallel E dir st = Some (Inr stats, st')" and sync: "in_sync st"
    and walk: "collect_project_rust_files (g_fs (en_gate E)) dir = (tree, 0)" and ne: "tree \<noteq> []"
    and dist: "distinct (map path_str tree)"
  shows "\<exists>F. in_sync st' \<and> committed (ix_bm25 st') = docs_of (stored st') \<and>
    stored st' = filter_mset (\<lambda>x. row_path x \<in> path_str ` (set tree - pp_path ` set F)) (stored st) +
      mset (concat (map file_rows F)) \<and>
    (\<forall>f \<in> set F. complete f) \<and> pp_path ` set F \<subseteq> set tree \<and> indexed_files stats = length F"
proof -
  obtain n s1 st1 where n: "0 < n"
    and b: "index_batches E (chunks_of n tree) (IndexStats_unchanged\<lparr>total_files := length tree\<rparr>) st = Some (Inr s1, st1)"
    and fin: "finish_directory E tree 0 s1 st1 = (Inr stats, st')"
    using run walk ne
    by (auto simp: index_directory_parallel_def collect_rust_files_def Let_def split: sum.splits option.splits prod.splits if_splits)
  have "pass_inv st [] [] st" using sync by (simp add: pass_inv_def)
  moreover have "chunks_of n tree \<noteq> []" using ne by (cases tree) simp_all
  ultimately obtain F where F: "pass_inv st tree F st1" "indexed_files s1 = length F"
    and com: "committed (ix_bm25 st1) = docs_of (stored st1)"
    using index_batches_ok[OF width b] dist unfolding concat_chunks_of[OF n]
    by (fastforce simp: IndexStats_unchanged_def concat_chunks_of[OF n])
  obtain gone where gone: "drop_files_outside E tree st1 = (Inr gone, st')" and s: "indexed_files stats = indexed_files s1"
    using fin by (auto simp: finish_directory_def drop_files_outside_walk_def split: prod.splits sum.splits if_splits)
  note i = F(1)[unfolded pass_inv_def] and d = drop_files_outside_ok[OF gone i[THEN conjunct1]]
  have inj: "inj_on path_str (set tree)" using dist by (simp add: distinct_map)
  have "committed (ix_bm25 st') = docs_of (stored st')"
  proof (cases "gone = []")
    case True
    then have "st' = st1"
      using gone by (auto simp: drop_files_outside_def Let_def split: sum.splits prod.splits if_splits)
    then show ?thesis using com by simp
  qed (use d in simp)
  moreover have "stored st' = filter_mset (\<lambda>x. row_path x \<in> path_str ` (set tree - pp_path ` set F)) (stored st) +
      mset (concat (map file_rows F))"
  proof -
    have keep: "row_path x \<in> path_str ` set tree" if x: "x \<in># mset (concat (map file_rows F))" for x
    proof -
      from x obtain g where "g \<in> set F" "x \<in> set (file_rows g)" by auto
      then show ?thesis using i file_rows_paths by (metis image_eqI subsetD)
    qed
    have "path_str ` (set tree - pp_path ` set F) = path_str ` set tree - path_str ` pp_path ` set F"
      using inj i by (intro inj_on_image_set_diff) auto
    then have "filter_mset (\<lambda>x. row_path x \<in> path_str ` set tree) (filter_mset (\<lambda>x. row_path x \<notin> path_str ` pp_path ` set F) (stored st)) =
        filter_mset (\<lambda>x. row_path x \<in> path_str ` (set tree - pp_path ` set F)) (stored st)"
      unfolding filter_filter_mset by (intro filter_mset_cong) auto
    moreover have "filter_mset (\<lambda>x. row_path x \<in> path_str ` set tree) (mset (concat (map file_rows F))) = mset (concat (map file_rows F))"
      using keep by (rule filter_mset_keep)
    moreover have "stored st' = filter_mset (\<lambda>x. row_path x \<in> path_str ` set tree)
        (filter_mset (\<lambda>x. row_path x \<notin> path_str ` pp_path ` set F) (stored st) + mset (concat (map file_rows F)))"
      using d i by simp
    ultimately show ?thesis by (simp only: filter_union_mset)
  qed
  ultimately show ?thesis using d i F(2) s by (intro exI[of _ F]) auto
qed

end

subsection \<open>A forced reindex\<close>

lemma ensure_indexer_keeps:
  assumes "ensure_indexer Y s = (r, s')"
  shows "sy_disk s' = sy_disk s \<and> (is_ok r \<longrightarrow> sy_opened s')"
proof (cases "\<exists>e. r = Inl e")
  case True
  then show ?thesis using assms
    by (auto simp: ensure_indexer_def for_embedded_with_backend_def Let_def split: if_splits sum.splits prod.splits)
next
  case False
  then have "r = Inr ()" by (cases r) auto
  then show ?thesis using assms
    by (auto simp: ensure_indexer_def for_embedded_with_backend_def Let_def split: if_splits sum.splits prod.splits)
qed

context sync_laws
begin

lemma force_prepare_ok:
  assumes "prepare_run Y rq s = (Inr out, s')" and "rq_force rq" and "rq_snapshot rq = Some (se_snapshot Y)"
  shows "in_sync (sy_ix s') \<and> stored (sy_ix s') = {#} \<and> committed (ix_bm25 (sy_ix s')) = {#} \<and> sy_opened s' \<and>
         sy_disk s' (se_snapshot Y) = None"
proof -
  obtain s1 s2 st where rm: "remove_snapshot Y (Some (se_snapshot Y)) s = (Inr (), s1)"
    and en: "ensure_indexer Y s1 = (Inr (), s2)" and cl: "clear_all_data (se_engine Y) (sy_ix s2) = (Inr (), st)"
    and s': "s' = s2\<lparr>sy_ix := st\<rparr>"
    using assms by (auto simp: prepare_run_def repair_coverage_def sync_clear_all_data_def split: prod.splits sum.splits)
  have "sy_disk s1 (se_snapshot Y) = None" using rm by (auto simp: remove_snapshot_def split: if_splits sum.splits)
  then show ?thesis using clear_all_data_ok[OF cl] ensure_indexer_keeps[OF en] by (simp add: s')
qed

lemma force_reindex_ok:
  assumes run: "index_project_incrementally Y rq s = Some (Inr out, s')"
    and rq: "rq_force rq" "rq_snapshot rq = Some (se_snapshot Y)"
    and walk: "collect_project_rust_files (g_fs (en_gate (se_engine Y))) (rq_path rq) = (tree, 0)"
    and dist: "distinct (map path_str tree)"
  shows "\<exists>F. in_sync (sy_ix s') \<and> committed (ix_bm25 (sy_ix s')) = docs_of (stored (sy_ix s')) \<and>
    stored (sy_ix s') = mset (concat (map file_rows F)) \<and> (\<forall>f \<in> set F. complete f) \<and> pp_path ` set F \<subseteq> set tree \<and>
    indexed_files (oc_stats out) = length F"
proof -
  obtain tr s1 s2 p where prep: "prepare_run Y rq (s\<lparr>sy_trace := tr\<rparr>) = (Inr p, s1)"
    and ix: "index_with_change_detection Y (rq_path rq) HeldByCaller s1 = Some (Inr (oc_stats out), s2)"
    and s': "sy_ix s' = sy_ix s2"
    using run rq(1)
    by (auto simp: index_project_incrementally_def Let_def split: prod.splits sum.splits option.splits)
  note c = force_prepare_ok[OF prep rq]
  obtain s3 where full: "full_index Y (rq_path rq) HeldByCaller s1 = Some (Inr (oc_stats out), s3)" and s2: "sy_ix s2 = sy_ix s3"
  proof (rule index_with_change_detection_Inr[OF ix], goal_cases)
    case (1 old new t1 t2 final d)
    then have "old = None" using c by (simp add: load_snapshot_def)
    moreover from this 1 have "t1 = s1" by (simp add: refill_bm25_def)
    ultimately show ?case using 1 by simp
  qed
  obtain st where par: "index_directory_parallel (se_engine Y) (rq_path rq) (sy_ix s1) = Some (Inr (oc_stats out), st)"
    and s3: "sy_ix s3 = st"
    using full c by (auto simp: full_index_def exclude_def ensure_indexer_def split: prod.splits option.splits)
  have ix': "sy_ix s' = st" using s' s2 s3 by simp
  show ?thesis
  proof (cases "tree = []")
    case True
    then have "oc_stats out = IndexStats_unchanged \<and> st = sy_ix s1"
      using par walk by (auto simp: index_directory_parallel_def collect_rust_files_def IndexStats_unchanged_def)
    then show ?thesis using c ix' by (intro exI[of _ "[]"]) (simp add: docs_of_def IndexStats_unchanged_def)
  next
    case False
    from full_pass_ok[OF model_width par _ walk False dist] c ix' show ?thesis by auto
  qed
qed

end

subsection \<open>Properties of the run\<close>

text \<open>C2: An incremental run that fails on nothing applies exactly the changes of the tree. Let \<open>G\<close>, \<open>M\<close> and \<open>A\<close> be the
  paths that are gone, modified and added between the saved snapshot and the tree. Then the stores lose the rows of
  \<open>G\<close>, of the modified files \<open>C\<close> that the gate now refuses, and of the prepared files \<open>F\<close>, and gain the rows of
  \<open>F\<close>; every other row stays. \<open>F\<close> is all that had to be prepared: each changed file is in \<open>F\<close>, unless it is refused
  (then it is in \<open>C\<close> when it was modified), or settled (its entry in the metadata cache at the start already
  describes it, or it holds a secret), or given up with an error that is never retried; and no file of \<open>F\<close> was
  known or holds a secret. The prepared files are changed files with the chunks of the text that is on disk,
  complete, and recorded in the metadata cache; the gone files are forgotten there. Both stores hold the same
  chunks, and the keyword index has published them. Every change is counted once, as indexed or as skipped.\<close>

theorem sync_applies_exactly_the_changes:
  assumes "sync_laws Y rows committed pending kv"
    and "index_with_change_detection Y dir x s = Some (Inr stats, s')" and "failed_files stats = 0"
    and "load_snapshot (se_de Y) (se_snapshot Y) (sy_disk s) = Inr (Some old)" and "merkle_wf old"
    and "from_directory (se_sha Y) (g_fs (en_gate (se_engine Y))) dir = Inr new" and "merkle_wf new"
    and "has_changes (se_mroot Y) new old" and "sync_laws.startable Y rows committed pending s"
    and "inj_on path_str (set (file_paths old) \<union> set (file_paths new))"
    and "G = {p. hash_of new p = None \<and> hash_of old p \<noteq> None}"
    and "M = {p. hash_of new p \<noteq> None \<and> hash_of old p \<noteq> None \<and> hash_of new p \<noteq> hash_of old p}"
    and "A = {p. hash_of new p \<noteq> None \<and> hash_of old p = None}"
  shows "\<exists>F C. engine_laws.in_sync (se_engine Y) rows pending (sy_ix s') \<and>
    committed (ix_bm25 (sy_ix s')) = engine_laws.docs_of (se_engine Y) (engine_laws.stored (se_engine Y) rows (sy_ix s')) \<and>
    engine_laws.stored (se_engine Y) rows (sy_ix s') =
      filter_mset (\<lambda>r. row_path r \<notin> path_str ` (G \<union> set C \<union> pp_path ` set F)) (engine_laws.stored (se_engine Y) rows (sy_ix s)) +
      mset (concat (map file_rows F)) \<and>
    set C \<subseteq> M \<and> pp_path ` set F \<subseteq> M \<union> A \<and>
    (\<forall>f \<in> set F. engine_laws.complete (se_engine Y) f \<and> engine_laws.recorded (se_engine Y) kv (ix_fp (sy_ix s')) f) \<and>
    (\<forall>p \<in> G. fp_entry (en_gate (se_engine Y)) kv (ix_fp (sy_ix s')) p = None) \<and>
    indexed_files stats = length F \<and> indexed_files stats + skipped_files stats = card (G \<union> M \<union> A) \<and>
    distinct (map pp_path F) \<and>
    (\<forall>f \<in> set F. accepted (en_gate (se_engine Y)) (ix_fp (sy_ix s)) (pp_path f) \<and>
       \<not> known (en_gate (se_engine Y)) kv (ix_fp (sy_ix s)) (pp_path f) \<and>
       \<not> secret (en_gate (se_engine Y)) (ix_fp (sy_ix s)) (pp_path f) \<and> chunked (se_engine Y) f) \<and>
    (\<forall>p \<in> set C. refused (en_gate (se_engine Y)) (ix_fp (sy_ix s)) p) \<and>
    (\<forall>p \<in> M \<union> A. p \<in> pp_path ` set F \<or> (if p \<in> M then p \<in> set C else refused (en_gate (se_engine Y)) (ix_fp (sy_ix s)) p) \<or>
       settled (en_gate (se_engine Y)) kv (ix_fp (sy_ix s)) p \<or> given_up (se_engine Y) kv (ix_fp (sy_ix s)) p)"
  by (rule sync_laws.sync_ok[OF assms(1,2,4-8,3,9-13)])


text \<open>A run is followed by nothing to do. After a run without failures, a second run over the same tree finds no
  change: it prepares and writes nothing, keeps no reader out, and leaves both stores and the cache as they are.\<close>

theorem second_sync_has_nothing_to_do:
  assumes "sync_laws Y rows committed pending kv"
    and "index_with_change_detection Y dir x s = Some (Inr stats, s')" and "retry_files stats = []" and "sy_opened s'"
    and "distinct (fst (collect_project_rust_files (g_fs (en_gate (se_engine Y))) dir))"
    and "temporary_name (se_snapshot Y) (se_pid Y) \<noteq> se_snapshot Y"
  shows "\<exists>stats' s''. index_with_change_detection Y dir x' s' = Some (Inr stats', s'') \<and> indexed_files stats' = 0 \<and>
     retry_files stats' = [] \<and> unchanged_files stats' = total_files stats' \<and> sy_ix s'' = sy_ix s' \<and> sy_trace s'' = sy_trace s'"
  by (rule sync_laws.second_sync_ok[OF assms(1-3,5,6,4)])

text \<open>C7: A forced reindex starts from nothing. Whatever the stores held before, afterwards they hold exactly the rows
  of the files the run indexed, which are files of the tree with the text on disk, and the keyword index has
  published the same chunks.\<close>

theorem force_reindex_holds_exactly_the_run:
  assumes "sync_laws Y rows committed pending kv"
    and "index_project_incrementally Y rq s = Some (Inr out, s')" and "rq_force rq"
    and "rq_snapshot rq = Some (se_snapshot Y)"
    and "collect_project_rust_files (g_fs (en_gate (se_engine Y))) (rq_path rq) = (tree, 0)"
    and "distinct (map path_str tree)"
  shows "\<exists>F. engine_laws.in_sync (se_engine Y) rows pending (sy_ix s') \<and>
    committed (ix_bm25 (sy_ix s')) = engine_laws.docs_of (se_engine Y) (engine_laws.stored (se_engine Y) rows (sy_ix s')) \<and>
    engine_laws.stored (se_engine Y) rows (sy_ix s') = mset (concat (map file_rows F)) \<and>
    (\<forall>f \<in> set F. engine_laws.complete (se_engine Y) f) \<and> pp_path ` set F \<subseteq> set tree \<and>
    indexed_files (oc_stats out) = length F"
  by (rule sync_laws.force_reindex_ok[OF assms])

subsection \<open>An environment in memory\<close>

text \<open>A digest is the text itself, a root the concatenation of the leaves, and a snapshot is encoded as the number
  of its fields in unary.\<close>

definition demo_ser :: "string merkle_snapshot \<Rightarrow> string" where
  "demo_ser m = replicate (to_nat (ms_root_hash m,
     map (\<lambda>(p, n). (p, content_hash n, leaf_index n, last_modified n)) (ms_file_to_node m),
     ms_snapshot_version m, ms_timestamp m)) (CHR ''x'')"

definition demo_de :: "string \<Rightarrow> (string, string merkle_snapshot) result" where
  "demo_de s = (case from_nat (length s) of (r, ns, v, t) \<Rightarrow>
     Inr \<lparr>ms_root_hash = r,
          ms_file_to_node = map (\<lambda>(p, h, i, l). (p, \<lparr>content_hash = h, leaf_index = i, last_modified = l\<rparr>)) ns,
          ms_snapshot_version = v, ms_timestamp = t\<rparr>)"

lemma demo_codec: "demo_de (demo_ser m) = Inr m"
proof -
  have "map (\<lambda>x. (fst x, \<lparr>content_hash = content_hash (snd x), leaf_index = leaf_index (snd x),
      last_modified = last_modified (snd x)\<rparr>)) (ms_file_to_node m) = ms_file_to_node m"
    by (rule map_idI) (simp add: prod_eq_iff)
  then show ?thesis by (simp add: demo_de_def demo_ser_def comp_def case_prod_unfold)
qed

definition demo_root :: "string list \<Rightarrow> string option" where
  "demo_root ls = (if ls = [] then None else Some (concat ls))"

definition demo_node :: "string \<Rightarrow> nat \<Rightarrow> string file_node" where
  "demo_node h i = \<lparr>content_hash = h, leaf_index = i, last_modified = 0\<rparr>"

text \<open>The snapshot of an earlier tree: \<open>a.rs\<close> has another text there, \<open>b.rs\<close> is missing and \<open>c.rs\<close> is gone since.\<close>

definition demo_old :: "string fs_merkle" where
  "demo_old = \<lparr>tree_leaves = [''old'', ''c''],
     file_to_node = [([''src'', ''a.rs''], demo_node ''old'' 0), ([''src'', ''c.rs''], demo_node ''c'' 1)], snapshot_version = 1\<rparr>"

definition demo_new :: "string fs_merkle" where
  "demo_new = projr (from_directory id (demo_fs demo_files 5000000000) [''src''])"

definition demo_sync :: "((string \<times> file_metadata) list, file_metadata, code_chunk row list, code_chunk,
    bm25_doc list \<times> bm25_doc list, string) sync_env" where
  "demo_sync = \<lparr>se_engine = demo_engine, se_sha = id, se_mroot = demo_root, se_zero = [], se_ser = demo_ser, se_de = demo_de,
     se_io = io_ok, se_pid = 7, se_now = 3, se_snapshot = ''ab.snapshot'', se_cache_path = [''idx''], se_core = Inr (),
     se_writer = Inr (), se_table = Inr (), se_metadata = Inr (), se_clock = ''0'', se_identity = ''m'', se_meta_exists = True,
     se_index_opens = Inr (), se_drop_writer = (\<lambda>w. (fst w, fst w)), se_remove = Inr ()\<rparr>"

definition demo_disk :: disk where
  "demo_disk = [''ab.snapshot'' \<mapsto> Inr (demo_ser (snapshot_of demo_root [] 3 demo_old))]"

definition demo_state :: "((string \<times> file_metadata) list, code_chunk row list, bm25_doc list \<times> bm25_doc list) sync_state" where
  "demo_state = \<lparr>sy_ix = demo_indexer, sy_opened = True, sy_store_disk = \<lparr>sd_dir = True, sd_metadata = None, sd_table = True\<rparr>,
     sy_disk = demo_disk, sy_trace = []\<rparr>"

interpretation demo_sync_laws: sync_laws demo_sync mset "\<lambda>w. mset (fst w)" "\<lambda>w. mset (snd w)" map_of
proof (rule sync_laws.intro)
  show "engine_laws (se_engine demo_sync) mset (\<lambda>w. mset (fst w)) (\<lambda>w. mset (snd w)) map_of"
    using demo_axioms by (simp add: demo_sync_def)
  show "sync_laws_axioms demo_sync (\<lambda>w. mset (fst w)) (\<lambda>w. mset (snd w))"
  proof (rule sync_laws_axioms.intro)
    show "text_model (en_raw (se_engine demo_sync)) (\<lambda>_ _ e. length e = en_dim (se_engine demo_sync))"
      by unfold_locales (auto simp: demo_sync_def demo_engine_def demo_raw_def list_all2_conv_all_nth)
  qed (simp_all add: demo_sync_def demo_codec)
qed

definition demo_stats :: index_stats where
  "demo_stats = IndexStats_unchanged\<lparr>total_files := 2, indexed_files := 2, skipped_files := 1, total_chunks := 2, needs_maintenance := True\<rparr>"

definition demo_changes :: change_set where
  "demo_changes = \<lparr>added = [[''src'', ''b.rs'']], modified = [[''src'', ''a.rs'']], deleted = [[''src'', ''c.rs'']]\<rparr>"

lemma demo_changes_run:
  "map_option (\<lambda>(r, s). (r, sy_trace s, sy_opened s)) (process_changes demo_sync demo_changes AroundPublish demo_state) =
     Some (Inr (demo_stats\<lparr>total_files := 0\<rparr>), [ReadersOut, StoreWrite, Bm25Commit, ReadersIn], True)"
  by code_simp

lemma demo_processed:
  obtains s where "process_changes demo_sync demo_changes AroundPublish demo_state = Some (Inr (demo_stats\<lparr>total_files := 0\<rparr>), s)"
    and "sy_trace s = [ReadersOut, StoreWrite, Bm25Commit, ReadersIn]" and "sy_opened s"
  using demo_changes_run by (auto split: prod.splits)

lemma demo_detected:
  "detect_changes demo_root demo_new demo_old = demo_changes" "has_changes demo_root demo_new demo_old"
  "from_directory id (demo_fs demo_files 5000000000) [''src''] = Inr demo_new" "merkle_wf demo_old" "merkle_wf demo_new"
  "file_count demo_new = 2"
  by code_simp+

lemma demo_updated:
  assumes "process_changes demo_sync demo_changes AroundPublish demo_state = Some (Inr (demo_stats\<lparr>total_files := 0\<rparr>), s)"
  shows "incremental_update demo_sync demo_old demo_new AroundPublish demo_state = Some (Inr demo_stats, s)"
proof -
  have "\<not> ChangeSet_is_empty demo_changes" "demo_stats\<lparr>total_files := 2\<rparr> = demo_stats" by code_simp+
  then show ?thesis using assms demo_detected
    by (simp add: incremental_update_def demo_sync_def)
qed

lemma demo_loaded: "load_snapshot demo_de ''ab.snapshot'' demo_disk = Inr (Some demo_old)"
proof -
  have "map fst (sort_key snd (map (\<lambda>(p, node). (content_hash node, p)) (file_to_node demo_old))) = tree_leaves demo_old"
    by code_simp
  then show ?thesis by (simp add: load_snapshot_def demo_disk_def demo_codec snapshot_of_def Let_def)
qed

lemma demo_run:
  obtains s where "index_with_change_detection demo_sync [''src''] AroundPublish demo_state = Some (Inr demo_stats, s)"
    and "sy_opened s"
proof -
  obtain s where pc: "process_changes demo_sync demo_changes AroundPublish demo_state = Some (Inr (demo_stats\<lparr>total_files := 0\<rparr>), s)"
    and op: "sy_opened s" by (rule demo_processed)
  have "ensure_index_disk_headroom demo_engine [''idx''] = Inr ()" by code_simp
  moreover obtain final where "snapshot_with_retries demo_new (Some demo_old) [] = Some final"
    using snapshot_with_retries_Some[OF demo_detected(5)] by blast
  moreover have "retry_files demo_stats = []" by code_simp
  moreover obtain d where "save_snapshot demo_ser demo_root [] io_ok 7 3 final ''ab.snapshot'' (sy_disk s) = (d, Inr ())"
    by (simp add: save_snapshot_def write_snapshot_def io_ok_def Let_def)
  ultimately have "index_with_change_detection demo_sync [''src''] AroundPublish demo_state = Some (Inr demo_stats, s\<lparr>sy_disk := d\<rparr>)"
    using demo_updated[OF pc] demo_loaded demo_detected(3)
    by (simp add: index_with_change_detection_def demo_sync_def demo_state_def refill_bm25_def demo_engine_def demo_gate_def)
  then show thesis by (rule that) (simp add: op)
qed

lemma demo_walk:
  "collect_project_rust_files (g_fs (en_gate (se_engine demo_sync))) [''src''] = ([[''src'', ''a.rs''], [''src'', ''b.rs'']], 0)"
  "temporary_name (se_snapshot demo_sync) (se_pid demo_sync) \<noteq> se_snapshot demo_sync"
  by code_simp+

lemma demo_startable: "demo_sync_laws.startable demo_state"
proof -
  have e: "se_engine demo_sync = demo_engine" by (simp add: demo_sync_def)
  show ?thesis using demo_in_sync unfolding demo_sync_laws.startable_def e by (simp add: demo_state_def)
qed

theorem readers_are_out_while_stores_change_witness:
  "\<exists>n. [ReadersOut, StoreWrite, Bm25Commit, ReadersIn] = [ReadersOut] @ replicate (Suc n) StoreWrite @ [Bm25Commit, ReadersIn]"
proof -
  obtain s where pc: "process_changes demo_sync demo_changes AroundPublish demo_state = Some (Inr (demo_stats\<lparr>total_files := 0\<rparr>), s)"
    and tr: "sy_trace s = [ReadersOut, StoreWrite, Bm25Commit, ReadersIn]" by (rule demo_processed)
  have "sy_trace demo_state = []" by (simp add: demo_state_def)
  with readers_are_out_while_stores_change[OF pc] tr show ?thesis by simp
qed

theorem sync_accounts_for_every_change_witness:
  "indexed_files demo_stats + skipped_files demo_stats + failed_files demo_stats = total_changes demo_changes"
proof -
  obtain s where pc: "process_changes demo_sync demo_changes AroundPublish demo_state = Some (Inr (demo_stats\<lparr>total_files := 0\<rparr>), s)"
    by (rule demo_processed)
  have "indexed_files (demo_stats\<lparr>total_files := 0\<rparr>) + skipped_files (demo_stats\<lparr>total_files := 0\<rparr>) +
      failed_files (demo_stats\<lparr>total_files := 0\<rparr>) = total_changes demo_changes"
    using sync_accounts_for_every_change[OF pc] by blast
  then show ?thesis by simp
qed

theorem sync_applies_exactly_the_changes_witness:
  "\<exists>s. index_with_change_detection demo_sync [''src''] AroundPublish demo_state = Some (Inr demo_stats, s) \<and>
     demo_sync_laws.in_sync (sy_ix s) \<and> mset (fst (ix_bm25 (sy_ix s))) = demo_sync_laws.docs_of (demo_sync_laws.stored (sy_ix s))"
proof -
  obtain s where run: "index_with_change_detection demo_sync [''src''] AroundPublish demo_state = Some (Inr demo_stats, s)"
    by (rule demo_run)
  have none: "failed_files demo_stats = 0" by code_simp
  have load: "load_snapshot (se_de demo_sync) (se_snapshot demo_sync) (sy_disk demo_state) = Inr (Some demo_old)"
    using demo_loaded by (simp add: demo_sync_def demo_state_def)
  have new: "from_directory (se_sha demo_sync) (g_fs (en_gate (se_engine demo_sync))) [''src''] = Inr demo_new"
    using demo_detected(3) by (simp add: demo_sync_def demo_engine_def demo_gate_def)
  have ch: "has_changes (se_mroot demo_sync) demo_new demo_old" using demo_detected(2) by (simp add: demo_sync_def)
  have "distinct (map path_str (remdups (file_paths demo_old @ file_paths demo_new)))" by code_simp
  then have "inj_on path_str (set (file_paths demo_old) \<union> set (file_paths demo_new))" by (simp add: distinct_map)
  from sync_applies_exactly_the_changes[OF demo_sync_laws.sync_laws_axioms run none load demo_detected(4) new demo_detected(5) ch
      demo_startable this refl refl refl] run show ?thesis by blast
qed


theorem second_sync_has_nothing_to_do_witness:
  "\<exists>s stats s'. index_with_change_detection demo_sync [''src''] AroundPublish demo_state = Some (Inr demo_stats, s) \<and>
     index_with_change_detection demo_sync [''src''] AroundPublish s = Some (Inr stats, s') \<and> sy_ix s' = sy_ix s"
proof -
  obtain s where run: "index_with_change_detection demo_sync [''src''] AroundPublish demo_state = Some (Inr demo_stats, s)"
    and op: "sy_opened s" by (rule demo_run)
  have none: "retry_files demo_stats = []" by code_simp
  have "distinct (fst (collect_project_rust_files (g_fs (en_gate (se_engine demo_sync))) [''src'']))" unfolding demo_walk by simp
  from second_sync_has_nothing_to_do[OF demo_sync_laws.sync_laws_axioms run none op this demo_walk(2)] run show ?thesis by blast
qed

definition demo_request :: index_request where
  "demo_request = \<lparr>rq_path = [''src''], rq_snapshot = Some ''ab.snapshot'', rq_force = True, rq_repair = False, rq_exclusion = AroundPublish\<rparr>"

definition demo_cleared :: "((string \<times> file_metadata) list, code_chunk row list, bm25_doc list \<times> bm25_doc list) sync_state" where
  "demo_cleared = snd (prepare_run demo_sync demo_request (demo_state\<lparr>sy_trace := [ReadersOut]\<rparr>))"

lemma demo_prepared_run:
  "fst (prepare_run demo_sync demo_request (demo_state\<lparr>sy_trace := [ReadersOut]\<rparr>)) = Inr ([], [])"
  "sy_disk demo_cleared ''ab.snapshot'' = None"
  by code_simp+

lemma demo_cleared_parts: "sy_ix demo_cleared = demo_indexer" "sy_opened demo_cleared" by code_simp+

text \<open>The memory of the engine allows batches of one file.\<close>

lemma demo_batch_size: "calculate_safe_batch_size 1000 4 = 1"
  by (simp add: calculate_safe_batch_size_def)

lemma demo_parallel_run:
  "collect_rust_files (demo_fs demo_files 5000000000) [''src''] IndexStats_unchanged =
     (([[''src'', ''a.rs''], [''src'', ''b.rs'']], 0), IndexStats_unchanged\<lparr>total_files := 2\<rparr>)"
  "map_option (\<lambda>(r, st). (case r of Inl e \<Rightarrow> Inl e | Inr stats \<Rightarrow>
       map_sum id retry_files (fst (finish_directory demo_engine [[''src'', ''a.rs''], [''src'', ''b.rs'']] 0 stats st))))
     (index_batches demo_engine [[[''src'', ''a.rs'']], [[''src'', ''b.rs'']]] (IndexStats_unchanged\<lparr>total_files := 2\<rparr>) demo_indexer) =
   Some (Inr [])"
  by code_simp+

lemma not_Inl_Inr: "\<not> isl r \<Longrightarrow> (\<And>x. r = Inr x \<Longrightarrow> thesis) \<Longrightarrow> thesis"
  by (cases r) simp_all

lemma demo_full:
  obtains stats s where "full_index demo_sync [''src''] HeldByCaller demo_cleared = Some (Inr stats, s)" and "retry_files stats = []"
proof -
  let ?files = "[[''src'', ''a.rs''], [''src'', ''b.rs'']]"
  obtain stats1 st1 where batches: "index_batches demo_engine [[[''src'', ''a.rs'']], [[''src'', ''b.rs'']]]
      (IndexStats_unchanged\<lparr>total_files := 2\<rparr>) demo_indexer = Some (Inr stats1, st1)"
    and fin: "map_sum id retry_files (fst (finish_directory demo_engine ?files 0 stats1 st1)) = Inr []"
    using demo_parallel_run(2) by (auto simp del: index_batches.simps simp: sum.case_eq_if split: if_split_asm elim!: not_Inl_Inr)
  obtain stats st where f: "finish_directory demo_engine ?files 0 stats1 st1 = (Inr stats, st)" and r: "retry_files stats = []"
    using fin by (cases "finish_directory demo_engine ?files 0 stats1 st1"; cases "fst (finish_directory demo_engine ?files 0 stats1 st1)") auto
  have e: "en_gate demo_engine = demo_gate demo_files 5000000000" "g_fs (demo_gate demo_files 5000000000) = demo_fs demo_files 5000000000"
    "en_batcher demo_engine = Inr demo_batcher" "en_memory demo_engine = 1000" "en_cpus demo_engine = 4"
    by (simp_all add: demo_engine_def demo_gate_def)
  have "index_directory_parallel demo_engine [''src''] demo_indexer = Some (Inr stats, st)"
    by (simp add: index_directory_parallel_def e demo_parallel_run(1) demo_batch_size batches f del: index_batches.simps)
  then have "\<exists>s. full_index demo_sync [''src''] HeldByCaller demo_cleared = Some (Inr stats, s)"
    using demo_cleared_parts by (simp add: full_index_def ensure_indexer_def exclude_def demo_sync_def split: prod.splits)
  then show thesis using that r by blast
qed

theorem force_reindex_holds_exactly_the_run_witness:
  "\<exists>out s F. index_project_incrementally demo_sync demo_request demo_state = Some (Inr out, s) \<and>
     demo_sync_laws.stored (sy_ix s) = mset (concat (map file_rows F)) \<and> indexed_files (oc_stats out) = length F"
proof -
  obtain stats s where full: "full_index demo_sync [''src''] HeldByCaller demo_cleared = Some (Inr stats, s)" and r: "retry_files stats = []"
    by (rule demo_full)
  have load: "load_snapshot demo_de ''ab.snapshot'' (sy_disk demo_cleared) = Inr None"
    using demo_prepared_run(2) by (simp add: load_snapshot_def)
  have room: "ensure_index_disk_headroom demo_engine [''idx''] = Inr ()" by code_simp
  obtain final where fin: "snapshot_with_retries demo_new None [] = Some final"
    using snapshot_with_retries_Some[OF demo_detected(5)] by blast
  obtain d where "save_snapshot demo_ser demo_root [] io_ok 7 3 final ''ab.snapshot'' (sy_disk s) = (d, Inr ())"
    by (simp add: save_snapshot_def write_snapshot_def io_ok_def Let_def)
  then have "index_with_change_detection demo_sync [''src''] HeldByCaller demo_cleared = Some (Inr stats, s\<lparr>sy_disk := d\<rparr>)"
    using room load demo_detected(3) full fin r
    by (simp add: index_with_change_detection_def demo_sync_def refill_bm25_def demo_engine_def demo_gate_def)
  moreover have "prepare_run demo_sync demo_request (demo_state\<lparr>sy_trace := [ReadersOut]\<rparr>) = (Inr ([], []), demo_cleared)"
    by (metis demo_cleared_def demo_prepared_run(1) prod.collapse)
  moreover have "rq_path demo_request = [''src'']" "rq_force demo_request" "rq_exclusion demo_request = AroundPublish"
    "rq_snapshot demo_request = Some (se_snapshot demo_sync)" "sy_trace demo_state = []"
    by (simp_all add: demo_request_def demo_sync_def demo_state_def)
  moreover from calculation obtain out s' where
    run: "index_project_incrementally demo_sync demo_request demo_state = Some (Inr out, s')"
    by (simp add: index_project_incrementally_def exclude_def)
  moreover have "distinct (map path_str [[''src'', ''a.rs''], [''src'', ''b.rs'']])" by code_simp
  ultimately show ?thesis
    using force_reindex_holds_exactly_the_run[OF demo_sync_laws.sync_laws_axioms run, of "[[''src'', ''a.rs''], [''src'', ''b.rs'']]"]
      demo_walk(1) by auto
qed

end
