(* ===== verification/Gpu_Broker.thy ===== *)
theory Gpu_Broker
  imports Index_Errors "HOL-Library.Word"
begin

text \<open>
  The lending of GPU embedding sessions (\<open>embeddings/gpu_broker.rs\<close>). Each critical section of the broker is one
  function on the list of slots; \<open>broker_step\<close> interleaves the threads of a process over them, one critical section
  at a time, with the condition variable as the flag of each waiter and \<open>notify_all\<close> as a step of its own, because
  the code notifies after it has let go of the mutex. \<open>None\<close> stands for the panic of an arithmetic overflow. The
  session is an opaque value, its creation a parameter of the step, time a number of the step. The admission of a new
  session (\<open>VramBudget\<close>, \<open>room_on_card\<close>) follows at the width of the code's integers.
\<close>

subsection \<open>Owners and slots\<close>

datatype embedding_owner = OwnerIndex | OwnerSearch | OwnerGraphCache | OwnerCodemapRerank | OwnerProviderCensus | OwnerTool

datatype broker_priority = Interactive | PriorityIndex | PriorityGraph

definition PRIORITIES :: nat where
  "PRIORITIES = 3"

definition priority_of :: "embedding_owner \<Rightarrow> broker_priority" where
  "priority_of owner =
     (case owner of
        OwnerSearch \<Rightarrow> Interactive | OwnerCodemapRerank \<Rightarrow> Interactive
      | OwnerIndex \<Rightarrow> PriorityIndex | OwnerTool \<Rightarrow> PriorityIndex
      | OwnerGraphCache \<Rightarrow> PriorityGraph | OwnerProviderCensus \<Rightarrow> PriorityGraph)"

definition rank_of :: "embedding_owner \<Rightarrow> nat" where
  "rank_of owner = (case priority_of owner of Interactive \<Rightarrow> 0 | PriorityIndex \<Rightarrow> 1 | PriorityGraph \<Rightarrow> 2)"

datatype 's slot_state = Empty | Creating embedding_owner | Idle 's nat | Granted embedding_owner nat

record ('k, 's) slot =
  sl_key :: 'k
  sl_state :: "'s slot_state"
  sl_waiting :: "nat list"
  sl_created :: nat
  sl_grants :: nat

definition new_slot :: "'k \<Rightarrow> ('k, 's) slot" where
  "new_slot k = \<lparr>sl_key = k, sl_state = Empty, sl_waiting = replicate PRIORITIES 0, sl_created = 0, sl_grants = 0\<rparr>"

fun key_position :: "'k \<Rightarrow> ('k, 's) slot list \<Rightarrow> nat option" where
  "key_position k [] = None"
| "key_position k (s # ss) = (if sl_key s = k then Some 0 else map_option Suc (key_position k ss))"

definition slot_index :: "'k \<Rightarrow> ('k, 's) slot list \<Rightarrow> ('k, 's) slot list \<times> nat" where
  "slot_index k slots =
     (case key_position k slots of
        Some i \<Rightarrow> (slots, i)
      | None \<Rightarrow> (slots @ [new_slot k], length slots))"

subsection \<open>Critical sections\<close>

text \<open>The counts of waiters are 32-bit.\<close>

definition waiting_add :: "nat \<Rightarrow> nat list \<Rightarrow> nat list option" where
  "waiting_add r w = (if int (w ! r) + 1 < 4294967296 then Some (w[r := w ! r + 1]) else None)"

definition waiting_sub :: "nat \<Rightarrow> nat list \<Rightarrow> nat list option" where
  "waiting_sub r w = (if w ! r = 0 then None else Some (w[r := w ! r - 1]))"

datatype 's pass = Got 's | Build | Sleep

text \<open>One turn of the loop of \<open>grant\<close>.\<close>

definition grant_pass ::
  "embedding_owner \<Rightarrow> nat \<Rightarrow> nat \<Rightarrow> ('k, 's) slot list \<Rightarrow> ('s pass \<times> ('k, 's) slot list) option" where
  "grant_pass owner now i slots =
     (let slot = slots ! i; rank = rank_of owner; outranked = list_ex (\<lambda>n. 0 < n) (take rank (sl_waiting slot)) in
      if outranked then Some (Sleep, slots)
      else case sl_state slot of
             Idle session _ \<Rightarrow>
               map_option (\<lambda>w. (Got session, slots[i := slot\<lparr>sl_waiting := w, sl_grants := sl_grants slot + 1,
                                                          sl_state := Granted owner now\<rparr>]))
                 (waiting_sub rank (sl_waiting slot))
           | Empty \<Rightarrow>
               map_option (\<lambda>w. (Build, slots[i := slot\<lparr>sl_waiting := w, sl_state := Creating owner\<rparr>]))
                 (waiting_sub rank (sl_waiting slot))
           | _ \<Rightarrow> Some (Sleep, slots))"

text \<open>The head of \<open>grant\<close>, up to and including the first turn: one critical section.\<close>

definition grant_enter ::
  "'k \<Rightarrow> embedding_owner \<Rightarrow> nat \<Rightarrow> ('k, 's) slot list \<Rightarrow> (nat \<times> 's pass \<times> ('k, 's) slot list) option" where
  "grant_enter k owner now slots =
     (case slot_index k slots of (slots1, i) \<Rightarrow>
        (case waiting_add (rank_of owner) (sl_waiting (slots1 ! i)) of
           None \<Rightarrow> None
         | Some w \<Rightarrow>
             map_option (\<lambda>(p, slots2). (i, p, slots2))
               (grant_pass owner now i (slots1[i := (slots1 ! i)\<lparr>sl_waiting := w\<rparr>]))))"

definition create_finish :: "nat \<Rightarrow> embedding_owner \<Rightarrow> nat \<Rightarrow> ('k, 's) slot list \<Rightarrow> ('k, 's) slot list" where
  "create_finish i owner now slots =
     slots[i := (slots ! i)\<lparr>sl_created := sl_created (slots ! i) + 1, sl_grants := sl_grants (slots ! i) + 1,
                           sl_state := Granted owner now\<rparr>]"

definition creation_guard_drop :: "nat \<Rightarrow> ('k, 's) slot list \<Rightarrow> ('k, 's) slot list" where
  "creation_guard_drop i slots = slots[i := (slots ! i)\<lparr>sl_state := Empty\<rparr>]"

definition grant_drop :: "nat \<Rightarrow> 's \<Rightarrow> bool \<Rightarrow> nat \<Rightarrow> ('k, 's) slot list \<Rightarrow> ('k, 's) slot list" where
  "grant_drop i session panicking now slots =
     slots[i := (slots ! i)\<lparr>sl_state := (if panicking then Empty else Idle session now)\<rparr>]"

text \<open>The three sections of \<open>ensure\<close>: marking the slot, finishing the creation (as above), taking the grant out of
  the count.\<close>

definition ensure_enter :: "'k \<Rightarrow> embedding_owner \<Rightarrow> ('k, 's) slot list \<Rightarrow> nat option \<times> ('k, 's) slot list" where
  "ensure_enter k owner slots =
     (case slot_index k slots of (slots1, i) \<Rightarrow>
        case sl_state (slots1 ! i) of
          Empty \<Rightarrow> (Some i, slots1[i := (slots1 ! i)\<lparr>sl_state := Creating owner\<rparr>])
        | _ \<Rightarrow> (None, slots1))"

definition ensure_uncount :: "nat \<Rightarrow> ('k, 's) slot list \<Rightarrow> ('k, 's) slot list option" where
  "ensure_uncount i slots =
     (if sl_grants (slots ! i) = 0 then None
      else Some (slots[i := (slots ! i)\<lparr>sl_grants := sl_grants (slots ! i) - 1\<rparr>]))"

definition release_slot :: "nat \<Rightarrow> nat \<Rightarrow> ('k, 's) slot \<Rightarrow> ('k \<times> 's) list \<times> ('k, 's) slot" where
  "release_slot max_idle now slot =
     (case sl_state slot of
        Idle session since \<Rightarrow>
          if max_idle \<le> now - since then ([(sl_key slot, session)], slot\<lparr>sl_state := Empty\<rparr>) else ([], slot)
      | _ \<Rightarrow> ([], slot))"

definition take_idle :: "nat \<Rightarrow> nat \<Rightarrow> ('k, 's) slot list \<Rightarrow> ('k \<times> 's) list \<times> ('k, 's) slot list" where
  "take_idle max_idle now slots =
     (concat (map (fst \<circ> release_slot max_idle now) slots), map (snd \<circ> release_slot max_idle now) slots)"

subsection \<open>Threads\<close>

text \<open>Where a thread stands between two critical sections: not in the broker; waiting on a slot (the flag: notified,
  hence competing for the mutex); building a session outside the lock (the flag: on behalf of \<open>ensure\<close>); holding the
  grant that \<open>ensure\<close> made and has not yet uncounted; holding a grant; about to call \<open>notify_all\<close>.\<close>

datatype 's broker_thread =
    Away
  | Waits nat embedding_owner bool
  | Builds nat embedding_owner bool
  | Ensured nat 's
  | Holds nat 's
  | Notifies

record ('k, 's) broker =
  br_slots :: "('k, 's) slot list"
  br_threads :: "'s broker_thread list"

definition after_pass :: "nat \<Rightarrow> embedding_owner \<Rightarrow> 's pass \<Rightarrow> 's broker_thread" where
  "after_pass i owner p =
     (case p of Got s \<Rightarrow> Holds i s | Build \<Rightarrow> Builds i owner False | Sleep \<Rightarrow> Waits i owner False)"

fun wake :: "'s broker_thread \<Rightarrow> 's broker_thread" where
  "wake (Waits i owner _) = Waits i owner True"
| "wake th = th"

inductive broker_step :: "('k, 's) broker \<Rightarrow> ('k, 's) broker \<Rightarrow> bool" where
  grant_begins: "t < length (br_threads B) \<Longrightarrow> br_threads B ! t = Away \<Longrightarrow>
    grant_enter k owner now (br_slots B) = Some (i, p, slots) \<Longrightarrow>
    broker_step B \<lparr>br_slots = slots, br_threads = (br_threads B)[t := after_pass i owner p]\<rparr>"
| grant_turns: "t < length (br_threads B) \<Longrightarrow> br_threads B ! t = Waits i owner True \<Longrightarrow>
    grant_pass owner now i (br_slots B) = Some (p, slots) \<Longrightarrow>
    broker_step B \<lparr>br_slots = slots, br_threads = (br_threads B)[t := after_pass i owner p]\<rparr>"
| wakes_unasked: "t < length (br_threads B) \<Longrightarrow> br_threads B ! t = Waits i owner False \<Longrightarrow>
    broker_step B (B\<lparr>br_threads := (br_threads B)[t := Waits i owner True]\<rparr>)"
| creation_ends: "t < length (br_threads B) \<Longrightarrow> br_threads B ! t = Builds i owner ensuring \<Longrightarrow>
    broker_step B \<lparr>br_slots = create_finish i owner now (br_slots B),
                   br_threads = (br_threads B)[t := if ensuring then Ensured i s else Holds i s]\<rparr>"
| creation_fails: "t < length (br_threads B) \<Longrightarrow> br_threads B ! t = Builds i owner ensuring \<Longrightarrow>
    broker_step B \<lparr>br_slots = creation_guard_drop i (br_slots B), br_threads = (br_threads B)[t := Notifies]\<rparr>"
| ensure_finds: "t < length (br_threads B) \<Longrightarrow> br_threads B ! t = Away \<Longrightarrow>
    ensure_enter k owner (br_slots B) = (None, slots) \<Longrightarrow> broker_step B (B\<lparr>br_slots := slots\<rparr>)"
| ensure_begins: "t < length (br_threads B) \<Longrightarrow> br_threads B ! t = Away \<Longrightarrow>
    ensure_enter k owner (br_slots B) = (Some i, slots) \<Longrightarrow>
    broker_step B \<lparr>br_slots = slots, br_threads = (br_threads B)[t := Builds i owner True]\<rparr>"
| ensure_uncounts: "t < length (br_threads B) \<Longrightarrow> br_threads B ! t = Ensured i s \<Longrightarrow>
    ensure_uncount i (br_slots B) = Some slots \<Longrightarrow>
    broker_step B \<lparr>br_slots = slots, br_threads = (br_threads B)[t := Holds i s]\<rparr>"
| grant_ends: "t < length (br_threads B) \<Longrightarrow> br_threads B ! t = Holds i s \<Longrightarrow>
    broker_step B \<lparr>br_slots = grant_drop i s panicking now (br_slots B), br_threads = (br_threads B)[t := Notifies]\<rparr>"
| notifies: "t < length (br_threads B) \<Longrightarrow> br_threads B ! t = Notifies \<Longrightarrow>
    broker_step B (B\<lparr>br_threads := map wake ((br_threads B)[t := Away])\<rparr>)"
| watchdog: "broker_step B (B\<lparr>br_slots := snd (take_idle max_idle now (br_slots B))\<rparr>)"

inductive broker_reachable :: "nat \<Rightarrow> ('k, 's) broker \<Rightarrow> bool" where
  start: "broker_reachable n \<lparr>br_slots = [], br_threads = replicate n Away\<rparr>"
| step: "broker_reachable n B \<Longrightarrow> broker_step B B' \<Longrightarrow> broker_reachable n B'"

subsection \<open>The invariant\<close>

fun waits_on :: "nat \<Rightarrow> nat \<Rightarrow> 's broker_thread \<Rightarrow> bool" where
  "waits_on i r (Waits j owner _) = (j = i \<and> rank_of owner = r)"
| "waits_on i r _ = False"

fun asleep_on :: "nat \<Rightarrow> nat \<Rightarrow> 's broker_thread \<Rightarrow> bool" where
  "asleep_on i r (Waits j owner notified) = (j = i \<and> rank_of owner = r \<and> \<not> notified)"
| "asleep_on i r _ = False"

fun awake_on :: "nat \<Rightarrow> nat \<Rightarrow> 's broker_thread \<Rightarrow> bool" where
  "awake_on i r (Waits j owner notified) = (j = i \<and> rank_of owner = r \<and> notified)"
| "awake_on i r _ = False"

fun builds_on :: "nat \<Rightarrow> 's broker_thread \<Rightarrow> bool" where
  "builds_on i (Builds j _ _) = (j = i)"
| "builds_on i _ = False"

fun ensured_on :: "nat \<Rightarrow> 's broker_thread \<Rightarrow> bool" where
  "ensured_on i (Ensured j _) = (j = i)"
| "ensured_on i _ = False"

fun holds_on :: "nat \<Rightarrow> 's broker_thread \<Rightarrow> bool" where
  "holds_on i (Ensured j _) = (j = i)"
| "holds_on i (Holds j _) = (j = i)"
| "holds_on i _ = False"

fun thread_slot :: "'s broker_thread \<Rightarrow> nat option" where
  "thread_slot (Waits i _ _) = Some i"
| "thread_slot (Builds i _ _) = Some i"
| "thread_slot (Ensured i _) = Some i"
| "thread_slot (Holds i _) = Some i"
| "thread_slot _ = None"

definition how_many :: "('a \<Rightarrow> bool) \<Rightarrow> 'a list \<Rightarrow> nat" where
  "how_many P xs = length (filter P xs)"

fun is_free :: "'s slot_state \<Rightarrow> bool" where
  "is_free Empty = True" | "is_free (Idle _ _) = True" | "is_free _ = False"

fun is_creating :: "'s slot_state \<Rightarrow> bool" where
  "is_creating (Creating _) = True" | "is_creating _ = False"

fun is_granted :: "'s slot_state \<Rightarrow> bool" where
  "is_granted (Granted _ _) = True" | "is_granted _ = False"

text \<open>A slot agrees with the threads: the counts of waiters are exact, a slot is being created or lent out exactly
  when one thread builds or holds its session, and the grants cover what \<open>ensure\<close> has yet to uncount.\<close>

definition slot_ok :: "'s broker_thread list \<Rightarrow> nat \<Rightarrow> ('k, 's) slot \<Rightarrow> bool" where
  "slot_ok ths i sl \<longleftrightarrow>
     length (sl_waiting sl) = PRIORITIES \<and>
     (\<forall>r < PRIORITIES. sl_waiting sl ! r = how_many (waits_on i r) ths) \<and>
     how_many (builds_on i) ths = of_bool (is_creating (sl_state sl)) \<and>
     how_many (holds_on i) ths = of_bool (is_granted (sl_state sl)) \<and>
     how_many (ensured_on i) ths \<le> sl_grants sl"

text \<open>No waiter of a free slot is forgotten: it is awake, or a waiter of higher priority is, or a notification is on
  its way.\<close>

definition wake_ok :: "'s broker_thread list \<Rightarrow> nat \<Rightarrow> ('k, 's) slot \<Rightarrow> bool" where
  "wake_ok ths i sl \<longleftrightarrow>
     (is_free (sl_state sl) \<longrightarrow> Notifies \<notin> set ths \<longrightarrow>
        (\<forall>r. (\<exists>th \<in> set ths. asleep_on i r th) \<longrightarrow> (\<exists>r' < r. \<exists>th \<in> set ths. awake_on i r' th)))"

definition broker_ok :: "('k, 's) broker \<Rightarrow> bool" where
  "broker_ok B \<longleftrightarrow>
     (\<forall>i < length (br_slots B). slot_ok (br_threads B) i (br_slots B ! i) \<and> wake_ok (br_threads B) i (br_slots B ! i)) \<and>
     (\<forall>th \<in> set (br_threads B). \<forall>i. thread_slot th = Some i \<longrightarrow> i < length (br_slots B)) \<and>
     distinct (map sl_key (br_slots B))"

subsection \<open>Counting threads\<close>

lemma rank_bound [simp]: "rank_of owner < PRIORITIES"
  by (auto simp: rank_of_def PRIORITIES_def split: broker_priority.splits)

lemma how_many_simps [simp]: "how_many P [] = 0" "how_many P (x # xs) = of_bool (P x) + how_many P xs"
  by (simp_all add: how_many_def)

lemma how_many_update:
  "t < length xs \<Longrightarrow> how_many P (xs[t := y]) + of_bool (P (xs ! t)) = how_many P xs + of_bool (P y)"
proof (induction xs arbitrary: t)
  case (Cons x xs)
  show ?case
  proof (cases t)
    case (Suc m)
    with Cons.IH[of m] Cons.prems show ?thesis by simp
  qed simp
qed simp

lemma how_many_eq_0: "how_many P xs = 0 \<longleftrightarrow> (\<forall>x \<in> set xs. \<not> P x)"
  by (induction xs) auto

lemma how_many_pos: "0 < how_many P xs \<longleftrightarrow> (\<exists>x \<in> set xs. P x)"
  using how_many_eq_0[of P xs] by auto

lemma how_many_replicate: "\<not> P x \<Longrightarrow> how_many P (replicate n x) = 0"
  by (induction n) simp_all

lemma how_many_map: "(\<And>x. P (f x) = P x) \<Longrightarrow> how_many P (map f xs) = how_many P xs"
  by (induction xs) simp_all

lemma how_many_le: "how_many P xs \<le> length xs"
  by (simp add: how_many_def)


lemma wake_views [simp]:
  "waits_on i r (wake th) = waits_on i r th" "builds_on i (wake th) = builds_on i th"
  "holds_on i (wake th) = holds_on i th" "ensured_on i (wake th) = ensured_on i th"
  "thread_slot (wake th) = thread_slot th" "\<not> asleep_on i r (wake th)"
  by (cases th; simp)+

lemma waits_on_cases: "waits_on i r th \<longleftrightarrow> asleep_on i r th \<or> awake_on i r th"
  by (cases th) auto

lemma elsewhere:
  assumes "thread_slot th \<noteq> Some i"
  shows "\<not> waits_on i r th" "\<not> builds_on i th" "\<not> holds_on i th" "\<not> ensured_on i th" "\<not> asleep_on i r th" "\<not> awake_on i r th"
  using assms by (cases th; simp)+

text \<open>A thread that has nothing to do with a slot, before and after its step, leaves the slot's view as it is.\<close>

lemma how_many_elsewhere:
  assumes "t < length ths" "\<not> P (ths ! t)" "\<not> P th"
  shows "how_many P (ths[t := th]) = how_many P ths"
  using how_many_update[OF assms(1), of P th] assms(2,3) by simp

lemma slot_ok_elsewhere:
  assumes "t < length ths" "thread_slot (ths ! t) \<noteq> Some j" "thread_slot th \<noteq> Some j" "slot_ok ths j sl"
  shows "slot_ok (ths[t := th]) j sl"
  using assms by (simp add: slot_ok_def how_many_elsewhere elsewhere)

lemma stays_in: "x \<in> set xs \<Longrightarrow> x \<noteq> xs ! t \<Longrightarrow> x \<in> set (xs[t := y])"
  by (metis in_set_conv_nth length_list_update nth_list_update_neq)

lemma comes_from: "x \<in> set (xs[t := y]) \<Longrightarrow> x = y \<or> x \<in> set xs"
  using set_update_subset_insert by fastforce

lemma notifier_stays: "ths ! t \<noteq> Notifies \<Longrightarrow> Notifies \<notin> set (ths[t := th]) \<Longrightarrow> Notifies \<notin> set ths"
  by (metis stays_in)

lemma wake_ok_elsewhere:
  assumes "ths ! t \<noteq> Notifies" "thread_slot (ths ! t) \<noteq> Some j" "thread_slot th \<noteq> Some j" "wake_ok ths j sl"
  shows "wake_ok (ths[t := th]) j sl"
  unfolding wake_ok_def
proof (intro impI allI)
  fix r
  assume free: "is_free (sl_state sl)" and quiet: "Notifies \<notin> set (ths[t := th])"
    and "\<exists>x \<in> set (ths[t := th]). asleep_on j r x"
  then have "\<exists>x \<in> set ths. asleep_on j r x" using comes_from elsewhere(5)[OF assms(3)] by metis
  with free notifier_stays[OF assms(1) quiet] assms(4)
  obtain r' x where "r' < r" "x \<in> set ths" "awake_on j r' x" by (auto simp: wake_ok_def)
  moreover have "x \<noteq> ths ! t" using calculation elsewhere(6)[OF assms(2)] by blast
  ultimately show "\<exists>r' < r. \<exists>x \<in> set (ths[t := th]). awake_on j r' x" using stays_in by metis
qed

text \<open>A step of one thread at one slot keeps the invariant when it keeps it at that slot.\<close>

lemma broker_ok_update:
  assumes ok: "broker_ok B" and t: "t < length (br_threads B)" and i: "i < length (br_slots B)"
    and before: "br_threads B ! t \<noteq> Notifies" "thread_slot (br_threads B ! t) \<in> {None, Some i}"
    and after: "thread_slot th \<in> {None, Some i}" and key: "sl_key sl = sl_key (br_slots B ! i)"
    and here: "slot_ok ((br_threads B)[t := th]) i sl" "wake_ok ((br_threads B)[t := th]) i sl"
  shows "broker_ok \<lparr>br_slots = (br_slots B)[i := sl], br_threads = (br_threads B)[t := th]\<rparr>"
proof -
  let ?ths = "(br_threads B)[t := th]"
  have "slot_ok ?ths j ((br_slots B)[i := sl] ! j) \<and> wake_ok ?ths j ((br_slots B)[i := sl] ! j)"
    if j: "j < length (br_slots B)" for j
  proof (cases "j = i")
    case True
    with here i show ?thesis by simp
  next
    case False
    then have "thread_slot (br_threads B ! t) \<noteq> Some j" "thread_slot th \<noteq> Some j" using before(2) after by auto
    moreover have "slot_ok (br_threads B) j (br_slots B ! j)" "wake_ok (br_threads B) j (br_slots B ! j)"
      using ok j by (auto simp: broker_ok_def)
    ultimately show ?thesis using False t before(1) by (simp add: slot_ok_elsewhere wake_ok_elsewhere)
  qed
  moreover have "thread_slot x = Some j \<Longrightarrow> j < length (br_slots B)" if "x \<in> set ?ths" for x j
    using comes_from[OF that] ok after i by (auto simp: broker_ok_def)
  moreover have "map sl_key ((br_slots B)[i := sl]) = map sl_key (br_slots B)"
    using i key by (metis list_update_id map_update nth_map length_map)
  then have "distinct (map sl_key ((br_slots B)[i := sl]))" using ok by (simp add: broker_ok_def)
  ultimately show ?thesis by (simp add: broker_ok_def)
qed

lemma broker_ok_slot:
  assumes "broker_ok B" "t < length (br_threads B)" "thread_slot (br_threads B ! t) = Some i"
  shows "i < length (br_slots B)" "slot_ok (br_threads B) i (br_slots B ! i)" "wake_ok (br_threads B) i (br_slots B ! i)"
proof -
  show i: "i < length (br_slots B)" using assms by (auto simp: broker_ok_def)
  show "slot_ok (br_threads B) i (br_slots B ! i)" "wake_ok (br_threads B) i (br_slots B ! i)"
    using assms(1) i by (auto simp: broker_ok_def)
qed

subsection \<open>Every step keeps it\<close>

lemma key_position_Some: "key_position k slots = Some i \<Longrightarrow> i < length slots"
  by (induction slots arbitrary: i) (auto split: if_splits)

lemma key_position_None: "key_position k slots = None \<Longrightarrow> k \<notin> sl_key ` set slots"
  by (induction slots) (auto split: if_splits)

lemma slot_index_ok:
  assumes ok: "broker_ok B" and "slot_index k (br_slots B) = (slots, i)"
  shows "broker_ok (B\<lparr>br_slots := slots\<rparr>)" "i < length slots"
proof -
  consider "slots = br_slots B" "i < length (br_slots B)"
    | "slots = br_slots B @ [new_slot k]" "i = length (br_slots B)" "k \<notin> sl_key ` set (br_slots B)"
    using assms(2) by (auto simp: slot_index_def key_position_Some key_position_None split: option.splits)
  then show "broker_ok (B\<lparr>br_slots := slots\<rparr>)"
  proof cases
    case 1
    with ok show ?thesis by simp
  next
    case 2
    have away: "thread_slot th \<noteq> Some (length (br_slots B))" if "th \<in> set (br_threads B)" for th
      using ok that by (auto simp: broker_ok_def)
    have "how_many P (br_threads B) = 0" if "\<And>th. thread_slot th \<noteq> Some (length (br_slots B)) \<Longrightarrow> \<not> P th" for P
      using that away by (auto simp: how_many_eq_0)
    then have "slot_ok (br_threads B) (length (br_slots B)) (new_slot k)"
      by (simp add: slot_ok_def new_slot_def elsewhere PRIORITIES_def)
    moreover have "wake_ok (br_threads B) (length (br_slots B)) (new_slot k)"
      using away elsewhere(5) by (fastforce simp: wake_ok_def)
    ultimately show ?thesis using ok 2
      by (auto simp: broker_ok_def nth_append less_Suc_eq new_slot_def)
  qed
  show "i < length slots"
    using assms(2) by (auto simp: slot_index_def key_position_Some split: option.splits)
qed

lemma broker_start: "broker_ok \<lparr>br_slots = [], br_threads = replicate n Away\<rparr>"
  by (auto simp: broker_ok_def)

text \<open>The counts at the slot of the moving thread.\<close>

lemma slot_counts:
  assumes "t < length ths"
  shows "how_many P (ths[t := th]) = how_many P ths + of_bool (P th) - of_bool (P (ths ! t))"
    and "of_bool (P (ths ! t)) \<le> how_many P ths"
proof -
  show "how_many P (ths[t := th]) = how_many P ths + of_bool (P th) - of_bool (P (ths ! t))"
    using how_many_update[OF assms, of P th] by simp
  have "P (ths ! t) \<Longrightarrow> 0 < how_many P ths" using assms by (auto simp: how_many_pos)
  then show "of_bool (P (ths ! t)) \<le> how_many P ths" by (cases "P (ths ! t)") auto
qed

lemma slot_ok_move:
  assumes "slot_ok ths i sl" "t < length ths" "length w = PRIORITIES"
    and "\<And>r. r < PRIORITIES \<Longrightarrow> w ! r + of_bool (waits_on i r (ths ! t)) = sl_waiting sl ! r + of_bool (waits_on i r th)"
    and "of_bool (is_creating (sl_state sl')) + of_bool (builds_on i (ths ! t)) = (of_bool (is_creating (sl_state sl)) + of_bool (builds_on i th) :: nat)"
    and "of_bool (is_granted (sl_state sl')) + of_bool (holds_on i (ths ! t)) = (of_bool (is_granted (sl_state sl)) + of_bool (holds_on i th) :: nat)"
    and "sl_grants sl + of_bool (ensured_on i th) \<le> sl_grants sl' + of_bool (ensured_on i (ths ! t))"
    and "sl_waiting sl' = w"
  shows "slot_ok (ths[t := th]) i sl'"
proof -
  have upd: "how_many P (ths[t := th]) + of_bool (P (ths ! t)) = how_many P ths + of_bool (P th)" for P
    by (rule how_many_update[OF assms(2)])
  have "w ! r = how_many (waits_on i r) (ths[t := th])" if "r < PRIORITIES" for r
    using upd[of "waits_on i r"] assms(1) assms(4)[OF that] that by (simp add: slot_ok_def)
  moreover have "how_many (builds_on i) (ths[t := th]) = of_bool (is_creating (sl_state sl'))"
    using upd[of "builds_on i"] assms(1,5) by (simp add: slot_ok_def)
  moreover have "how_many (holds_on i) (ths[t := th]) = of_bool (is_granted (sl_state sl'))"
    using upd[of "holds_on i"] assms(1,6) by (simp add: slot_ok_def)
  moreover have "how_many (ensured_on i) (ths[t := th]) \<le> sl_grants sl'"
    using upd[of "ensured_on i"] assms(1,7) by (simp add: slot_ok_def)
  ultimately show ?thesis using assms(3,8) by (simp add: slot_ok_def)
qed

lemma wake_ok_busy: "\<not> is_free (sl_state sl) \<Longrightarrow> wake_ok ths i sl"
  by (simp add: wake_ok_def)

lemma wake_ok_notified: "Notifies \<in> set ths \<Longrightarrow> wake_ok ths i sl"
  by (simp add: wake_ok_def)

text \<open>Some thread that is awake comes before any rank at which a free slot has waiters.\<close>

lemma some_awake:
  assumes "wake_ok ths i sl" "is_free (sl_state sl)" "Notifies \<notin> set ths" "th \<in> set ths" "waits_on i r th"
  obtains r' u where "r' \<le> r" "u \<in> set ths" "awake_on i r' u"
proof (cases "awake_on i r th")
  case True
  with assms(4) show thesis by (rule that[OF order_refl])
next
  case False
  with assms(5) have "asleep_on i r th" by (simp add: waits_on_cases)
  with assms(1-4) obtain r' u where "r' < r" "u \<in> set ths" "awake_on i r' u" unfolding wake_ok_def by blast
  then show thesis by (intro that[of r' u]) simp_all
qed

lemma wake_ok_sleep:
  assumes wk: "wake_ok ths i sl" and t: "t < length ths" "ths ! t = Waits i owner True"
    and out: "is_free (sl_state sl) \<Longrightarrow> \<exists>r' < rank_of owner. \<exists>u \<in> set ths. waits_on i r' u"
  shows "wake_ok (ths[t := Waits i owner False]) i sl"
  unfolding wake_ok_def
proof (intro impI allI)
  let ?ths = "ths[t := Waits i owner False]"
  fix r
  assume free: "is_free (sl_state sl)" and quiet: "Notifies \<notin> set ?ths" and "\<exists>x \<in> set ?ths. asleep_on i r x"
  have quiet': "Notifies \<notin> set ths" using notifier_stays[OF _ quiet] t by simp
  obtain r1 u1 where "r1 < rank_of owner" "u1 \<in> set ths" "waits_on i r1 u1" using out[OF free] by blast
  then obtain r2 w where w: "r2 < rank_of owner" "w \<in> set ths" "awake_on i r2 w"
    using some_awake[OF wk free quiet'] by (metis le_less_trans)
  have w_in: "w \<in> set ?ths" using w t by (intro stays_in) auto
  from \<open>\<exists>x \<in> set ?ths. asleep_on i r x\<close>
  consider "r = rank_of owner" | "\<exists>x \<in> set ths. asleep_on i r x" using comes_from by force
  then show "\<exists>r' < r. \<exists>x \<in> set ?ths. awake_on i r' x"
  proof cases
    case 1
    with w w_in show ?thesis by blast
  next
    case 2
    with wk free quiet' obtain r3 v where v: "r3 < r" "v \<in> set ths" "awake_on i r3 v" unfolding wake_ok_def by blast
    show ?thesis
    proof (cases "v = ths ! t")
      case True
      with v t w have "r2 < r" by simp
      with w w_in show ?thesis by blast
    next
      case False
      with v stays_in show ?thesis by metis
    qed
  qed
qed

lemma waiting_sub_Some:
  "waiting_sub r w = Some w' \<Longrightarrow> 0 < w ! r \<and> w' = w[r := w ! r - 1]"
  by (simp add: waiting_sub_def split: if_splits)

lemma outranked_iff:
  assumes "slot_ok ths i sl"
  shows "list_ex (\<lambda>n. 0 < n) (take (rank_of owner) (sl_waiting sl)) \<longleftrightarrow> (\<exists>r < rank_of owner. \<exists>u \<in> set ths. waits_on i r u)"
proof -
  have counts: "sl_waiting sl ! r = how_many (waits_on i r) ths" if "r < rank_of owner" for r
    using assms less_trans[OF that rank_bound] by (simp add: slot_ok_def)
  have "length (sl_waiting sl) = PRIORITIES" using assms by (simp add: slot_ok_def)
  then have "list_ex (\<lambda>n. 0 < n) (take (rank_of owner) (sl_waiting sl)) \<longleftrightarrow> (\<exists>r < rank_of owner. 0 < sl_waiting sl ! r)"
    using less_imp_le[OF rank_bound[of owner]] by (auto simp: list_ex_length min_def)
  also have "\<dots> \<longleftrightarrow> (\<exists>r < rank_of owner. 0 < how_many (waits_on i r) ths)"
    using counts by auto
  finally show ?thesis by (simp add: how_many_pos)
qed

lemma grant_pass_cases:
  assumes "grant_pass owner now i slots = Some (p, slots')"
  obtains (sleep) "p = Sleep" "slots' = slots"
      "is_free (sl_state (slots ! i)) \<Longrightarrow> list_ex (\<lambda>n. 0 < n) (take (rank_of owner) (sl_waiting (slots ! i)))"
  | (got) s since w where "sl_state (slots ! i) = Idle s since" "p = Got s"
      "\<not> list_ex (\<lambda>n. 0 < n) (take (rank_of owner) (sl_waiting (slots ! i)))"
      "waiting_sub (rank_of owner) (sl_waiting (slots ! i)) = Some w"
      "slots' = slots[i := (slots ! i)\<lparr>sl_waiting := w, sl_grants := sl_grants (slots ! i) + 1, sl_state := Granted owner now\<rparr>]"
  | (build) w where "sl_state (slots ! i) = Empty" "p = Build"
      "\<not> list_ex (\<lambda>n. 0 < n) (take (rank_of owner) (sl_waiting (slots ! i)))"
      "waiting_sub (rank_of owner) (sl_waiting (slots ! i)) = Some w"
      "slots' = slots[i := (slots ! i)\<lparr>sl_waiting := w, sl_state := Creating owner\<rparr>]"
proof (cases "list_ex (\<lambda>n. 0 < n) (take (rank_of owner) (sl_waiting (slots ! i)))")
  case True
  with assms sleep show thesis by (simp add: grant_pass_def Let_def)
next
  case False
  show thesis
  proof (cases "sl_state (slots ! i)")
    case Empty
    with False assms obtain w where "waiting_sub (rank_of owner) (sl_waiting (slots ! i)) = Some w" "p = Build"
      "slots' = slots[i := (slots ! i)\<lparr>sl_waiting := w, sl_state := Creating owner\<rparr>]"
      by (auto simp: grant_pass_def Let_def)
    with build Empty False show thesis by blast
  next
    case (Idle s since)
    with False assms obtain w where "waiting_sub (rank_of owner) (sl_waiting (slots ! i)) = Some w" "p = Got s"
      "slots' = slots[i := (slots ! i)\<lparr>sl_waiting := w, sl_grants := sl_grants (slots ! i) + 1, sl_state := Granted owner now\<rparr>]"
      by (auto simp: grant_pass_def Let_def)
    with got Idle False show thesis by blast
  qed (use False assms sleep in \<open>simp_all add: grant_pass_def Let_def\<close>)
qed

lemma grant_pass_ok:
  assumes ok: "broker_ok B" and t: "t < length (br_threads B)" "br_threads B ! t = Waits i owner True"
    and pass: "grant_pass owner now i (br_slots B) = Some (p, slots)"
  shows "broker_ok \<lparr>br_slots = slots, br_threads = (br_threads B)[t := after_pass i owner p]\<rparr>"
proof -
  let ?sl = "br_slots B ! i"
  note here = broker_ok_slot[OF ok t(1), of i, unfolded t(2) thread_slot.simps, OF refl]
  note upd = broker_ok_update[OF ok t(1) here(1), unfolded t(2)]
  have len: "length (sl_waiting ?sl) = PRIORITIES" using here(2) by (simp add: slot_ok_def)
  from pass show ?thesis
  proof (cases rule: grant_pass_cases)
    case sleep
    have "slot_ok ((br_threads B)[t := Waits i owner False]) i ?sl"
      by (rule slot_ok_move[OF here(2) t(1) len]) (simp_all add: t)
    moreover have "wake_ok ((br_threads B)[t := Waits i owner False]) i ?sl"
      by (rule wake_ok_sleep[OF here(3) t]) (use sleep(3) outranked_iff[OF here(2)] in simp)
    ultimately show ?thesis using upd[of "Waits i owner False" ?sl] sleep by (simp add: after_pass_def)
  next
    case got
    note w = waiting_sub_Some[OF got(4)]
    show ?thesis unfolding got after_pass_def pass.case
      by (rule upd, simp_all add: wake_ok_busy, rule slot_ok_move[OF here(2) t(1)])
         (use w t len got(1) in \<open>auto simp: nth_list_update\<close>)
  next
    case build
    note w = waiting_sub_Some[OF build(4)]
    show ?thesis unfolding build after_pass_def pass.case
      by (rule upd, simp_all add: wake_ok_busy, rule slot_ok_move[OF here(2) t(1)])
         (use w t len build(1) in \<open>auto simp: nth_list_update\<close>)
  qed
qed

text \<open>Entering a grant is joining the waiters, awake, and then taking a turn.\<close>

lemma grant_enter_ok:
  assumes ok: "broker_ok B" and t: "t < length (br_threads B)" "br_threads B ! t = Away"
    and enter: "grant_enter k owner now (br_slots B) = Some (i, p, slots)"
  shows "broker_ok \<lparr>br_slots = slots, br_threads = (br_threads B)[t := after_pass i owner p]\<rparr>"
proof -
  obtain slots1 w where idx: "slot_index k (br_slots B) = (slots1, i)"
    and w: "waiting_add (rank_of owner) (sl_waiting (slots1 ! i)) = Some w"
    and pass: "grant_pass owner now i (slots1[i := (slots1 ! i)\<lparr>sl_waiting := w\<rparr>]) = Some (p, slots)"
    using enter by (auto simp: grant_enter_def split: prod.splits option.splits)
  let ?B = "B\<lparr>br_slots := slots1\<rparr>"
  note ok1 = slot_index_ok[OF ok idx]
  have here: "slot_ok (br_threads B) i (slots1 ! i)" "wake_ok (br_threads B) i (slots1 ! i)"
    using ok1 by (auto simp: broker_ok_def)
  have w': "w = (sl_waiting (slots1 ! i))[rank_of owner := sl_waiting (slots1 ! i) ! rank_of owner + 1]"
    using w by (simp add: waiting_add_def split: if_splits)
  have len: "length (sl_waiting (slots1 ! i)) = PRIORITIES" using here(1) by (simp add: slot_ok_def)
  have "slot_ok ((br_threads B)[t := Waits i owner True]) i ((slots1 ! i)\<lparr>sl_waiting := w\<rparr>)"
    by (rule slot_ok_move[OF here(1) t(1)]) (use len in \<open>auto simp: t w' nth_list_update\<close>)
  moreover have "wake_ok ((br_threads B)[t := Waits i owner True]) i ((slots1 ! i)\<lparr>sl_waiting := w\<rparr>)"
    unfolding wake_ok_def
  proof (intro impI allI)
    fix r
    assume "is_free (sl_state ((slots1 ! i)\<lparr>sl_waiting := w\<rparr>))" "Notifies \<notin> set ((br_threads B)[t := Waits i owner True])"
      "\<exists>x \<in> set ((br_threads B)[t := Waits i owner True]). asleep_on i r x"
    moreover from this have "Notifies \<notin> set (br_threads B)" using notifier_stays t(2) by (metis broker_thread.distinct(9))
    moreover from calculation have "\<exists>x \<in> set (br_threads B). asleep_on i r x" using comes_from by force
    ultimately obtain r' x where "r' < r" "x \<in> set (br_threads B)" "awake_on i r' x"
      using here(2) by (auto simp: wake_ok_def)
    moreover from this have "x \<noteq> br_threads B ! t" using t(2) by auto
    ultimately show "\<exists>r' < r. \<exists>x \<in> set ((br_threads B)[t := Waits i owner True]). awake_on i r' x" using stays_in by metis
  qed
  ultimately have "broker_ok \<lparr>br_slots = slots1[i := (slots1 ! i)\<lparr>sl_waiting := w\<rparr>], br_threads = (br_threads B)[t := Waits i owner True]\<rparr>"
    using broker_ok_update[of ?B t i "Waits i owner True" "(slots1 ! i)\<lparr>sl_waiting := w\<rparr>"] ok1 t by simp
  from grant_pass_ok[OF this, of t i owner now p slots] t pass show ?thesis by simp
qed

lemma broker_ok_set_slot:
  assumes ok: "broker_ok B" and t: "t < length (br_threads B)" "thread_slot (br_threads B ! t) = Some i" "br_threads B ! t \<noteq> Notifies"
    and th: "thread_slot th \<in> {None, Some i}" and sl: "sl_key sl = sl_key (br_slots B ! i)" "sl_waiting sl = sl_waiting (br_slots B ! i)"
    and wait: "\<And>r. \<not> waits_on i r (br_threads B ! t) \<and> \<not> waits_on i r th"
    and "of_bool (is_creating (sl_state sl)) + of_bool (builds_on i (br_threads B ! t)) = (of_bool (is_creating (sl_state (br_slots B ! i))) + of_bool (builds_on i th) :: nat)"
    and "of_bool (is_granted (sl_state sl)) + of_bool (holds_on i (br_threads B ! t)) = (of_bool (is_granted (sl_state (br_slots B ! i))) + of_bool (holds_on i th) :: nat)"
    and "sl_grants (br_slots B ! i) + of_bool (ensured_on i th) \<le> sl_grants sl + of_bool (ensured_on i (br_threads B ! t))"
    and "\<not> is_free (sl_state sl) \<or> th = Notifies"
  shows "broker_ok \<lparr>br_slots = (br_slots B)[i := sl], br_threads = (br_threads B)[t := th]\<rparr>"
proof -
  note here = broker_ok_slot[OF ok t(1,2)]
  have "slot_ok ((br_threads B)[t := th]) i sl"
    by (rule slot_ok_move[OF here(2) t(1) _ _ assms(9,10,11) sl(2)]) (use here(2) wait in \<open>auto simp: slot_ok_def\<close>)
  moreover have "wake_ok ((br_threads B)[t := th]) i sl"
    using assms(12) t(1) by (auto intro: wake_ok_busy wake_ok_notified set_update_memI)
  ultimately show ?thesis using broker_ok_update[OF ok t(1) here(1) t(3) _ th sl(1)] t(2) by simp
qed

lemma builder_slot:
  assumes "broker_ok B" "t < length (br_threads B)" "br_threads B ! t = Builds i owner e"
  shows "is_creating (sl_state (br_slots B ! i))" "\<not> is_granted (sl_state (br_slots B ! i))" "i < length (br_slots B)"
proof -
  note here = broker_ok_slot[OF assms(1,2), of i, unfolded assms(3) thread_slot.simps, OF refl]
  have "builds_on i (br_threads B ! t)" using assms(3) by simp
  then have "0 < how_many (builds_on i) (br_threads B)" using assms(2) nth_mem by (fastforce simp: how_many_pos)
  then show "is_creating (sl_state (br_slots B ! i))" using here(2) by (cases "is_creating (sl_state (br_slots B ! i))") (simp_all add: slot_ok_def)
  then show "\<not> is_granted (sl_state (br_slots B ! i))" by (cases "sl_state (br_slots B ! i)") simp_all
  show "i < length (br_slots B)" by (rule here(1))
qed

lemma holder_slot:
  assumes "broker_ok B" "t < length (br_threads B)" "holds_on i (br_threads B ! t)"
  shows "is_granted (sl_state (br_slots B ! i))" "\<not> is_creating (sl_state (br_slots B ! i))" "i < length (br_slots B)"
proof -
  have "thread_slot (br_threads B ! t) = Some i" using assms(3) by (cases "br_threads B ! t") auto
  note here = broker_ok_slot[OF assms(1,2) this]
  have "0 < how_many (holds_on i) (br_threads B)" using assms(2,3) by (auto simp: how_many_pos)
  then show "is_granted (sl_state (br_slots B ! i))" using here(2) by (cases "is_granted (sl_state (br_slots B ! i))") (simp_all add: slot_ok_def)
  then show "\<not> is_creating (sl_state (br_slots B ! i))" by (cases "sl_state (br_slots B ! i)") simp_all
  show "i < length (br_slots B)" by (rule here(1))
qed

lemma create_finish_ok:
  assumes ok: "broker_ok B" and t: "t < length (br_threads B)" "br_threads B ! t = Builds i owner e"
  shows "broker_ok \<lparr>br_slots = create_finish i owner now (br_slots B), br_threads = (br_threads B)[t := if e then Ensured i s else Holds i s]\<rparr>"
  unfolding create_finish_def by (rule broker_ok_set_slot[OF ok t(1)]) (simp_all add: t builder_slot[OF ok t])

lemma creation_guard_drop_ok:
  assumes ok: "broker_ok B" and t: "t < length (br_threads B)" "br_threads B ! t = Builds i owner e"
  shows "broker_ok \<lparr>br_slots = creation_guard_drop i (br_slots B), br_threads = (br_threads B)[t := Notifies]\<rparr>"
  unfolding creation_guard_drop_def by (rule broker_ok_set_slot[OF ok t(1)]) (simp_all add: t builder_slot[OF ok t])

lemma grant_drop_ok:
  assumes ok: "broker_ok B" and t: "t < length (br_threads B)" "br_threads B ! t = Holds i s"
  shows "broker_ok \<lparr>br_slots = grant_drop i s panicking now (br_slots B), br_threads = (br_threads B)[t := Notifies]\<rparr>"
proof -
  have "holds_on i (br_threads B ! t)" using t by simp
  from holder_slot[OF ok t(1) this] show ?thesis
    unfolding grant_drop_def by (intro broker_ok_set_slot[OF ok t(1)]) (simp_all add: t)
qed

lemma ensure_uncount_ok:
  assumes ok: "broker_ok B" and t: "t < length (br_threads B)" "br_threads B ! t = Ensured i s"
    and "ensure_uncount i (br_slots B) = Some slots"
  shows "broker_ok \<lparr>br_slots = slots, br_threads = (br_threads B)[t := Holds i s]\<rparr>"
proof -
  have "holds_on i (br_threads B ! t)" using t by simp
  note h = holder_slot[OF ok t(1) this]
  have s: "slots = (br_slots B)[i := (br_slots B ! i)\<lparr>sl_grants := sl_grants (br_slots B ! i) - 1\<rparr>]" "sl_grants (br_slots B ! i) \<noteq> 0"
    using assms(4) by (auto simp: ensure_uncount_def split: if_splits)
  have "\<not> is_free (sl_state (br_slots B ! i))" using h(1) by (cases "sl_state (br_slots B ! i)") simp_all
  then show ?thesis unfolding s(1) by (intro broker_ok_set_slot[OF ok t(1)]) (use s(2) in \<open>simp_all add: t\<close>)
qed

lemma ensure_enter_ok:
  assumes ok: "broker_ok B" and t: "t < length (br_threads B)" "br_threads B ! t = Away"
    and enter: "ensure_enter k owner (br_slots B) = (r, slots)"
  shows "case r of None \<Rightarrow> broker_ok (B\<lparr>br_slots := slots\<rparr>)
         | Some i \<Rightarrow> broker_ok \<lparr>br_slots = slots, br_threads = (br_threads B)[t := Builds i owner True]\<rparr>"
proof -
  obtain slots1 i where idx: "slot_index k (br_slots B) = (slots1, i)" by fastforce
  note ok1 = slot_index_ok[OF ok idx]
  show ?thesis
  proof (cases "sl_state (slots1 ! i)")
    case Empty
    let ?sl = "(slots1 ! i)\<lparr>sl_state := Creating owner\<rparr>"
    have here: "slot_ok (br_threads B) i (slots1 ! i)" using ok1 by (simp add: broker_ok_def)
    have "slot_ok ((br_threads B)[t := Builds i owner True]) i ?sl"
      by (rule slot_ok_move[OF here t(1)]) (use here Empty in \<open>auto simp: t slot_ok_def\<close>)
    then have "broker_ok \<lparr>br_slots = slots1[i := ?sl], br_threads = (br_threads B)[t := Builds i owner True]\<rparr>"
      using broker_ok_update[of "B\<lparr>br_slots := slots1\<rparr>" t i "Builds i owner True" ?sl] ok1 t by (simp add: wake_ok_busy)
    with Empty idx enter show ?thesis by (auto simp: ensure_enter_def)
  qed (use idx enter ok1 in \<open>auto simp: ensure_enter_def\<close>)
qed

lemma notify_ok:
  assumes ok: "broker_ok B" and t: "t < length (br_threads B)" "br_threads B ! t = Notifies"
  shows "broker_ok (B\<lparr>br_threads := map wake ((br_threads B)[t := Away])\<rparr>)"
proof -
  have eq: "how_many P (map wake ((br_threads B)[t := Away])) = how_many P (br_threads B)"
    if "\<And>th. P (wake th) = P th" "\<not> P Away" "\<not> P Notifies" for P
    using that t by (simp add: how_many_map how_many_elsewhere)
  have "slot_ok (map wake ((br_threads B)[t := Away])) i (br_slots B ! i)" if "i < length (br_slots B)" for i
    using ok that by (simp add: broker_ok_def slot_ok_def eq)
  moreover have "wake_ok (map wake ((br_threads B)[t := Away])) i sl" for i and sl :: "('a, 'b) slot" by (auto simp: wake_ok_def)
  moreover have "thread_slot x = Some i \<Longrightarrow> i < length (br_slots B)" if "x \<in> set ((br_threads B)[t := Away])" for x i
    using comes_from[OF that] ok by (auto simp: broker_ok_def)
  ultimately show ?thesis using ok by (auto simp: broker_ok_def)
qed

lemma release_slot_snd:
  "sl_key (snd (release_slot m now sl)) = sl_key sl" "slot_ok ths i (snd (release_slot m now sl)) = slot_ok ths i sl"
  "wake_ok ths i (snd (release_slot m now sl)) = wake_ok ths i sl"
  by (auto simp: release_slot_def slot_ok_def wake_ok_def split: slot_state.splits)

lemma take_idle_ok: "broker_ok B \<Longrightarrow> broker_ok (B\<lparr>br_slots := snd (take_idle m now (br_slots B))\<rparr>)"
  by (simp add: broker_ok_def take_idle_def release_slot_snd comp_def)

lemma wakes_unasked_ok:
  assumes ok: "broker_ok B" and t: "t < length (br_threads B)" "br_threads B ! t = Waits i owner False"
  shows "broker_ok (B\<lparr>br_threads := (br_threads B)[t := Waits i owner True]\<rparr>)"
proof -
  note here = broker_ok_slot[OF ok t(1), of i, unfolded t(2) thread_slot.simps, OF refl]
  let ?ths = "(br_threads B)[t := Waits i owner True]"
  have "slot_ok ?ths i (br_slots B ! i)"
    by (rule slot_ok_move[OF here(2) t(1)]) (use here(2) in \<open>auto simp: t slot_ok_def\<close>)
  moreover have "wake_ok ?ths i (br_slots B ! i)"
    unfolding wake_ok_def
  proof (intro impI allI)
    fix r
    assume free: "is_free (sl_state (br_slots B ! i))" and quiet: "Notifies \<notin> set ?ths" and "\<exists>x \<in> set ?ths. asleep_on i r x"
    then have "\<exists>x \<in> set (br_threads B). asleep_on i r x" using comes_from by force
    moreover have "Notifies \<notin> set (br_threads B)" using notifier_stays[OF _ quiet] t by simp
    ultimately obtain r' x where "r' < r" "x \<in> set (br_threads B)" "awake_on i r' x"
      using here(3) free by (auto simp: wake_ok_def)
    moreover from this have "x \<noteq> br_threads B ! t" using t by auto
    ultimately show "\<exists>r' < r. \<exists>x \<in> set ?ths. awake_on i r' x" using stays_in by metis
  qed
  ultimately show ?thesis
    using broker_ok_update[OF ok t(1) here(1), of "Waits i owner True" "br_slots B ! i"] t
    by (simp add: broker_ok_def)
qed

lemma broker_step_ok: "broker_step B B' \<Longrightarrow> broker_ok B \<Longrightarrow> broker_ok B'"
proof (induction rule: broker_step.induct)
  case (ensure_finds t B k owner slots)
  from ensure_enter_ok[OF ensure_finds.prems ensure_finds.hyps] show ?case by simp
next
  case (ensure_begins t B k owner i slots)
  from ensure_enter_ok[OF ensure_begins.prems ensure_begins.hyps] show ?case by simp
qed (simp_all only: grant_enter_ok grant_pass_ok wakes_unasked_ok create_finish_ok creation_guard_drop_ok ensure_uncount_ok
    grant_drop_ok notify_ok take_idle_ok)

lemma broker_step_threads: "broker_step B B' \<Longrightarrow> length (br_threads B') = length (br_threads B)"
  by (induction rule: broker_step.induct) simp_all

lemma broker_reachable_ok: "broker_reachable n B \<Longrightarrow> broker_ok B \<and> length (br_threads B) = n"
  by (induction rule: broker_reachable.induct) (auto simp: broker_start broker_step_ok broker_step_threads)

lemma how_many_card: "how_many P xs = card {t. t < length xs \<and> P (xs ! t)}"
  by (simp add: how_many_def length_filter_conv_card)

lemma pass_of_free_slot:
  assumes "slot_ok ths i (slots ! i)" "Waits i owner notified \<in> set ths" "is_free (sl_state (slots ! i))"
    and "\<not> list_ex (\<lambda>n. 0 < n) (take (rank_of owner) (sl_waiting (slots ! i)))"
  shows "\<exists>p slots'. grant_pass owner now i slots = Some (p, slots') \<and> p \<noteq> Sleep"
proof -
  have "0 < how_many (waits_on i (rank_of owner)) ths" using assms(2) by (force simp: how_many_pos)
  then have "sl_waiting (slots ! i) ! rank_of owner \<noteq> 0" using assms(1) by (simp add: slot_ok_def)
  then show ?thesis using assms(3,4)
    by (cases "sl_state (slots ! i)") (simp_all add: grant_pass_def Let_def waiting_sub_def)
qed

lemma grant_pass_total:
  assumes "slot_ok ths i (slots ! i)" "Waits i owner notified \<in> set ths"
  shows "grant_pass owner now i slots \<noteq> None"
proof (cases "is_free (sl_state (slots ! i)) \<and> \<not> list_ex (\<lambda>n. 0 < n) (take (rank_of owner) (sl_waiting (slots ! i)))")
  case True
  with pass_of_free_slot[OF assms, of now] show ?thesis by auto
next
  case False
  then show ?thesis by (cases "sl_state (slots ! i)") (auto simp: grant_pass_def Let_def)
qed

subsection \<open>Properties of the lending\<close>

text \<open>C19: One session per backend. In every reachable state of any number of threads, no two slots have the same key,
  and for every slot the number of threads that hold its session is one if the slot says it is lent out and zero
  otherwise; likewise for the threads that build it.\<close>

theorem one_session_per_backend:
  assumes "broker_reachable n B" and "i < length (br_slots B)"
  shows "distinct (map sl_key (br_slots B)) \<and>
    card {t. t < n \<and> holds_on i (br_threads B ! t)} = of_bool (is_granted (sl_state (br_slots B ! i))) \<and>
    card {t. t < n \<and> builds_on i (br_threads B ! t)} = of_bool (is_creating (sl_state (br_slots B ! i)))"
proof -
  have ok: "broker_ok B" "length (br_threads B) = n" using broker_reachable_ok[OF assms(1)] by simp_all
  then have "slot_ok (br_threads B) i (br_slots B ! i)" "distinct (map sl_key (br_slots B))"
    using assms(2) by (auto simp: broker_ok_def)
  then show ?thesis using ok(2) by (simp add: slot_ok_def how_many_card)
qed

text \<open>C18: No waiter is forgotten. In a reachable state where a thread waits on a slot whose session is free (idle or
  not there), a notification is on its way, or some waiter of that slot is awake and its next turn succeeds: it takes
  the session, or goes to build it.\<close>

theorem free_session_reaches_a_waiter:
  assumes "broker_reachable n B" and "t < n" and "waits_on i r (br_threads B ! t)" and "is_free (sl_state (br_slots B ! i))"
  shows "Notifies \<in> set (br_threads B) \<or>
    (\<exists>u owner p slots. u < n \<and> br_threads B ! u = Waits i owner True \<and>
       grant_pass owner now i (br_slots B) = Some (p, slots) \<and> p \<noteq> Sleep)"
proof (cases "Notifies \<in> set (br_threads B)")
  case quiet: False
  have ok: "broker_ok B" and n: "length (br_threads B) = n" using broker_reachable_ok[OF assms(1)] by simp_all
  have "thread_slot (br_threads B ! t) = Some i" using assms(3) by (cases "br_threads B ! t") auto
  note here = broker_ok_slot[OF ok _ this, unfolded n, OF assms(2)]
  define A where "A = {r. \<exists>u \<in> set (br_threads B). awake_on i r u}"
  have "br_threads B ! t \<in> set (br_threads B)" using assms(2) n by simp
  from some_awake[OF here(3) assms(4) quiet this assms(3)] obtain r0 where "r0 \<in> A" unfolding A_def by blast
  then obtain m where m: "m \<in> A" "\<And>r. r \<in> A \<Longrightarrow> m \<le> r" using exists_least_iff[of "\<lambda>r. r \<in> A"] by (metis not_le)
  then obtain u where u: "u \<in> set (br_threads B)" "awake_on i m u" unfolding A_def by blast
  from u(2) obtain owner where o: "u = Waits i owner True" "rank_of owner = m" by (cases u) auto
  have "\<not> (\<exists>r < rank_of owner. \<exists>v \<in> set (br_threads B). waits_on i r v)"
  proof
    assume "\<exists>r < rank_of owner. \<exists>v \<in> set (br_threads B). waits_on i r v"
    then obtain r v where v: "r < m" "v \<in> set (br_threads B)" "waits_on i r v" using o(2) by blast
    from some_awake[OF here(3) assms(4) quiet v(2,3)] obtain r' w where "r' \<le> r" "w \<in> set (br_threads B)" "awake_on i r' w" .
    then have "m \<le> r'" using m(2) unfolding A_def by blast
    with \<open>r' \<le> r\<close> v(1) show False by simp
  qed
  then have "\<not> list_ex (\<lambda>n. 0 < n) (take (rank_of owner) (sl_waiting (br_slots B ! i)))"
    using outranked_iff[OF here(2)] by simp
  from pass_of_free_slot[OF here(2) u(1)[unfolded o(1)] assms(4) this] obtain p slots where
    "grant_pass owner now i (br_slots B) = Some (p, slots)" "p \<noteq> Sleep" by blast
  moreover obtain x where "x < n" "br_threads B ! x = Waits i owner True" using u(1) o(1) n by (metis in_set_conv_nth)
  ultimately show ?thesis by blast
qed simp

text \<open>The state of a slot, empty before the slot is there; for whom a slot is taken.\<close>

definition state_at :: "('k, 's) slot list \<Rightarrow> nat \<Rightarrow> 's slot_state" where
  "state_at slots i = (if i < length slots then sl_state (slots ! i) else Empty)"


lemma state_at_update [simp]:
  "state_at (slots[i := sl]) j = (if j = i \<and> i < length slots then sl_state sl else state_at slots j)"
  by (auto simp: state_at_def)
















text \<open>The counters stay in range. With fewer than \<open>2\<^sup>3\<^sup>2\<close> threads no critical section of a reachable state
  overflows or underflows: every waiter's turn, every new grant and every uncounting of \<open>ensure\<close> goes through.\<close>

theorem broker_never_overflows:
  assumes "broker_reachable n B" and "n < 4294967296" and "t < n"
  shows "(\<forall>i owner b. br_threads B ! t = Waits i owner b \<longrightarrow> grant_pass owner now i (br_slots B) \<noteq> None) \<and>
    (br_threads B ! t = Away \<longrightarrow> grant_enter k owner now (br_slots B) \<noteq> None) \<and>
    (\<forall>i s. br_threads B ! t = Ensured i s \<longrightarrow> ensure_uncount i (br_slots B) \<noteq> None)"
proof (intro conjI allI impI)
  have ok: "broker_ok B" and n: "length (br_threads B) = n" using broker_reachable_ok[OF assms(1)] by simp_all
  have mem: "br_threads B ! t \<in> set (br_threads B)" using assms(3) n by simp
  show "grant_pass o' now i (br_slots B) \<noteq> None" if "br_threads B ! t = Waits i o' b" for i o' b
    using grant_pass_total[OF broker_ok_slot(2)[OF ok], of t i o' b now] that mem assms(3) n by simp
  show "ensure_uncount i (br_slots B) \<noteq> None" if "br_threads B ! t = Ensured i s" for i s
  proof -
    have "0 < how_many (ensured_on i) (br_threads B)" using that mem by (force simp: how_many_pos)
    then show ?thesis using broker_ok_slot(2)[OF ok, of t i] that assms(3) n
      by (simp add: slot_ok_def ensure_uncount_def)
  qed
  assume away: "br_threads B ! t = Away"
  obtain slots1 i where idx: "slot_index k (br_slots B) = (slots1, i)" by fastforce
  note ok1 = slot_index_ok[OF ok idx]
  let ?r = "rank_of owner" and ?sl = "slots1 ! i"
  have sl: "slot_ok (br_threads B) i ?sl" using ok1 by (simp add: broker_ok_def)
  have "how_many (waits_on i ?r) (br_threads B) < n"
    using slot_counts(1)[of t "br_threads B" "waits_on i ?r" "Waits i owner True"] how_many_le[of "waits_on i ?r" "(br_threads B)[t := Waits i owner True]"]
      away assms(3) n by simp
  then have "waiting_add ?r (sl_waiting ?sl) = Some ((sl_waiting ?sl)[?r := sl_waiting ?sl ! ?r + 1])"
    using sl assms(2) by (simp add: waiting_add_def slot_ok_def)
  moreover have "slot_ok ((br_threads B)[t := Waits i owner True]) i (?sl\<lparr>sl_waiting := (sl_waiting ?sl)[?r := sl_waiting ?sl ! ?r + 1]\<rparr>)"
    by (rule slot_ok_move[OF sl]) (use sl assms(3) n in \<open>auto simp: away nth_list_update slot_ok_def\<close>)
  then have "grant_pass owner now i (slots1[i := ?sl\<lparr>sl_waiting := (sl_waiting ?sl)[?r := sl_waiting ?sl ! ?r + 1]\<rparr>]) \<noteq> None"
    using ok1(2) assms(3) n by (intro grant_pass_total) (auto intro: set_update_memI)
  ultimately show "grant_enter k owner now (br_slots B) \<noteq> None" using idx by (auto simp: grant_enter_def)
qed

subsection \<open>A run of three threads\<close>

text \<open>The index builds and holds the session while a search and the graph cache wait; it gives the session back and
  wakes both.\<close>

definition demo_lent :: "(string, nat) broker" where
  "demo_lent = \<lparr>br_slots = [\<lparr>sl_key = ''bge'', sl_state = Granted OwnerIndex 2, sl_waiting = [1, 0, 1], sl_created = 1, sl_grants = 1\<rparr>],
     br_threads = [Holds 0 7, Waits 0 OwnerSearch False, Waits 0 OwnerGraphCache False]\<rparr>"

definition demo_back :: "(string, nat) broker" where
  "demo_back = \<lparr>br_slots = [\<lparr>sl_key = ''bge'', sl_state = Idle 7 5, sl_waiting = [1, 0, 1], sl_created = 1, sl_grants = 1\<rparr>],
     br_threads = [Away, Waits 0 OwnerSearch True, Waits 0 OwnerGraphCache True]\<rparr>"

lemma demo_lent_reachable: "broker_reachable 3 demo_lent"
proof -
  let ?sl = "\<lambda>st w c. \<lparr>sl_key = ''bge'', sl_state = st, sl_waiting = w, sl_created = c, sl_grants = c\<rparr> :: (string, nat) slot"
  have th: "replicate 3 Away = [Away, Away, Away :: nat broker_thread]" by (simp add: numeral_eq_Suc)
  have enter1: "grant_enter ''bge'' OwnerIndex 1 [] = Some (0, Build, [?sl (Creating OwnerIndex) [0, 0, 0] 0])" by code_simp
  have fin: "create_finish 0 OwnerIndex 2 [?sl (Creating OwnerIndex) [0, 0, 0] 0] = [?sl (Granted OwnerIndex 2) [0, 0, 0] 1]" by code_simp
  have enter2: "grant_enter ''bge'' OwnerSearch 3 [?sl (Granted OwnerIndex 2) [0, 0, 0] 1] = Some (0, Sleep, [?sl (Granted OwnerIndex 2) [1, 0, 0] 1])" by code_simp
  have enter3: "grant_enter ''bge'' OwnerGraphCache 4 [?sl (Granted OwnerIndex 2) [1, 0, 0] 1] = Some (0, Sleep, [?sl (Granted OwnerIndex 2) [1, 0, 1] 1])" by code_simp
  have "broker_reachable 3 \<lparr>br_slots = [] :: (string, nat) slot list, br_threads = [Away, Away, Away]\<rparr>"
    unfolding th[symmetric] by (rule broker_reachable.start)
  from broker_reachable.step[OF this, OF grant_begins[of 0 _ "''bge''" OwnerIndex 1]] enter1
  have "broker_reachable 3 \<lparr>br_slots = [?sl (Creating OwnerIndex) [0, 0, 0] 0], br_threads = [Builds 0 OwnerIndex False, Away, Away]\<rparr>"
    by (simp add: after_pass_def)
  from broker_reachable.step[OF this, OF creation_ends[of 0 _ 0 OwnerIndex False 2 7]] fin
  have "broker_reachable 3 \<lparr>br_slots = [?sl (Granted OwnerIndex 2) [0, 0, 0] 1], br_threads = [Holds 0 7, Away, Away]\<rparr>" by simp
  from broker_reachable.step[OF this, OF grant_begins[of 1 _ "''bge''" OwnerSearch 3]] enter2
  have "broker_reachable 3 \<lparr>br_slots = [?sl (Granted OwnerIndex 2) [1, 0, 0] 1], br_threads = [Holds 0 7, Waits 0 OwnerSearch False, Away]\<rparr>"
    by (simp add: after_pass_def)
  from broker_reachable.step[OF this, OF grant_begins[of 2 _ "''bge''" OwnerGraphCache 4]] enter3
  show ?thesis by (simp add: after_pass_def demo_lent_def)
qed

lemma demo_back_reachable: "broker_reachable 3 demo_back"
proof -
  from broker_reachable.step[OF demo_lent_reachable, OF grant_ends[of 0 _ 0 7 False 5]]
  have "broker_reachable 3 \<lparr>br_slots = br_slots demo_back, br_threads = [Notifies, Waits 0 OwnerSearch False, Waits 0 OwnerGraphCache False]\<rparr>"
    by (simp add: demo_lent_def demo_back_def grant_drop_def)
  from broker_reachable.step[OF this, OF notifies[of 0]] show ?thesis by (simp add: demo_back_def)
qed

theorem one_session_per_backend_witness: "card {t. t < 3 \<and> holds_on 0 (br_threads demo_lent ! t)} = 1"
  using one_session_per_backend[OF demo_lent_reachable, of 0] by (simp add: demo_lent_def)

theorem free_session_reaches_a_waiter_witness:
  "\<exists>u owner p slots. u < 3 \<and> br_threads demo_back ! u = Waits 0 owner True \<and>
     grant_pass owner 6 0 (br_slots demo_back) = Some (p, slots) \<and> p \<noteq> Sleep"
proof -
  have "(1 :: nat) < 3" "waits_on 0 (rank_of OwnerSearch) (br_threads demo_back ! 1)" "is_free (sl_state (br_slots demo_back ! 0))"
    "Notifies \<notin> set (br_threads demo_back)"
    by (simp_all add: demo_back_def)
  with free_session_reaches_a_waiter[OF demo_back_reachable, of 1] show ?thesis by blast
qed


text \<open>\<open>ensure\<close> passes a query: a build for the index fails while a search waits for the session; before the search has its
  turn, a second index generator is constructed, and its \<open>ensure\<close> takes the empty slot. The search waits for a build that is not
  its own, although it outranks the index.\<close>

theorem ensure_passes_a_waiting_search:
  "\<exists>B B' :: (string, nat) broker. broker_reachable 3 B \<and> broker_step B B' \<and> waits_on 0 (rank_of OwnerSearch) (br_threads B ! 1) \<and>
     waits_on 0 (rank_of OwnerSearch) (br_threads B' ! 1) \<and> state_at (br_slots B) 0 = Empty \<and>
     state_at (br_slots B') 0 = Creating OwnerIndex \<and> rank_of OwnerSearch < rank_of OwnerIndex"
proof -
  let ?sl = "\<lambda>st w. \<lparr>sl_key = ''bge'', sl_state = st, sl_waiting = w, sl_created = 0, sl_grants = 0\<rparr> :: (string, nat) slot"
  have th: "replicate 3 Away = [Away, Away, Away :: nat broker_thread]" by (simp add: numeral_eq_Suc)
  have enter1: "grant_enter ''bge'' OwnerIndex 1 [] = Some (0, Build, [?sl (Creating OwnerIndex) [0, 0, 0]])" by code_simp
  have enter2: "grant_enter ''bge'' OwnerSearch 3 [?sl (Creating OwnerIndex) [0, 0, 0]] = Some (0, Sleep, [?sl (Creating OwnerIndex) [1, 0, 0]])"
    by code_simp
  have undone: "creation_guard_drop 0 [?sl (Creating OwnerIndex) [1, 0, 0]] = [?sl Empty [1, 0, 0]]" by code_simp
  have ens: "ensure_enter ''bge'' OwnerIndex [?sl Empty [1, 0, 0]] = (Some 0, [?sl (Creating OwnerIndex) [1, 0, 0]])" by code_simp
  have "broker_reachable 3 \<lparr>br_slots = [] :: (string, nat) slot list, br_threads = [Away, Away, Away]\<rparr>"
    unfolding th[symmetric] by (rule broker_reachable.start)
  from broker_reachable.step[OF this, OF grant_begins[of 0 _ "''bge''" OwnerIndex 1]] enter1
  have "broker_reachable 3 \<lparr>br_slots = [?sl (Creating OwnerIndex) [0, 0, 0]], br_threads = [Builds 0 OwnerIndex False, Away, Away]\<rparr>"
    by (simp add: after_pass_def)
  from broker_reachable.step[OF this, OF grant_begins[of 1 _ "''bge''" OwnerSearch 3]] enter2
  have waits: "broker_reachable 3 \<lparr>br_slots = [?sl (Creating OwnerIndex) [1, 0, 0]], br_threads = [Builds 0 OwnerIndex False, Waits 0 OwnerSearch False, Away]\<rparr>"
    by (simp add: after_pass_def)
  define B where "B = \<lparr>br_slots = [?sl Empty [1, 0, 0]], br_threads = [Notifies, Waits 0 OwnerSearch False, Away :: nat broker_thread]\<rparr>"
  define B' where "B' = \<lparr>br_slots = [?sl (Creating OwnerIndex) [1, 0, 0]],
    br_threads = [Notifies, Waits 0 OwnerSearch False, Builds 0 OwnerIndex True :: nat broker_thread]\<rparr>"
  from broker_reachable.step[OF waits, OF creation_fails[of 0 _ 0 OwnerIndex False]] undone
  have "broker_reachable 3 B" by (simp add: B_def)
  moreover have "broker_step B B'" using ensure_begins[of 2 B "''bge''" OwnerIndex 0] ens by (simp add: B_def B'_def)
  moreover have "rank_of OwnerSearch < rank_of OwnerIndex" by (simp add: rank_of_def priority_of_def)
  ultimately show ?thesis by (intro exI[of _ B] exI[of _ B']) (simp add: B_def B'_def state_at_def)
qed

theorem broker_never_overflows_witness: "grant_pass OwnerSearch 6 0 (br_slots demo_lent) \<noteq> None"
proof -
  have "(3 :: nat) < 4294967296" "(1 :: nat) < 3" "br_threads demo_lent ! 1 = Waits 0 OwnerSearch False" by (simp_all add: demo_lent_def)
  with broker_never_overflows[OF demo_lent_reachable, of 1] show ?thesis by blast
qed

end
