(* ===== verification/Texts.thy ===== *)
theory Texts
  imports Prelude "HOL-Library.Word"
begin

text \<open>
  Numbers read from texts, as environment knobs, kernel counters and small files hold them: \<open>trim\<close>,
  \<open>split_whitespace\<close>, \<open>split_once\<close>, \<open>split\<close> and \<open>u64::from_str\<close> of the Rust standard library. Texts are
  ASCII, so white space is that of ASCII.
\<close>

subsection \<open>Reading numbers\<close>

definition is_whitespace :: "char \<Rightarrow> bool" where
  "is_whitespace c = (let n = (of_char c :: nat) in n = 32 \<or> (9 \<le> n \<and> n \<le> 13))"

definition trim :: "string \<Rightarrow> string" where
  "trim s = rev (dropWhile is_whitespace (rev (dropWhile is_whitespace s)))"

fun words_loop :: "string \<Rightarrow> string \<Rightarrow> string list" where
  "words_loop acc [] = (if acc = [] then [] else [rev acc])"
| "words_loop acc (c # cs) =
     (if is_whitespace c then (if acc = [] then words_loop [] cs else rev acc # words_loop [] cs) else words_loop (c # acc) cs)"

definition split_whitespace :: "string \<Rightarrow> string list" where
  "split_whitespace s = words_loop [] s"

fun split_once :: "char \<Rightarrow> string \<Rightarrow> (string \<times> string) option" where
  "split_once d [] = None"
| "split_once d (c # cs) = (if c = d then Some ([], cs) else map_option (map_prod ((#) c) id) (split_once d cs))"

fun split_on :: "char \<Rightarrow> string \<Rightarrow> string list" where
  "split_on d [] = [[]]"
| "split_on d (c # cs) =
     (if c = d then [] # split_on d cs else (case split_on d cs of w # ws \<Rightarrow> (c # w) # ws | [] \<Rightarrow> [[c]]))"

definition digit_value :: "char \<Rightarrow> nat option" where
  "digit_value c = (let n = (of_char c :: nat) in if 48 \<le> n \<and> n \<le> 57 then Some (n - 48) else None)"

fun digits_value :: "nat \<Rightarrow> string \<Rightarrow> nat option" where
  "digits_value acc [] = Some acc"
| "digits_value acc (c # cs) = (case digit_value c of None \<Rightarrow> None | Some d \<Rightarrow> digits_value (acc * 10 + d) cs)"

text \<open>\<open>u64::from_str\<close>: a plus sign is allowed, no digit at all is not, and the value must fit.\<close>

definition parse_u64 :: "string \<Rightarrow> 64 word option" where
  "parse_u64 s =
     (let ds = (case s of [] \<Rightarrow> [] | c # cs \<Rightarrow> if c = CHR ''+'' then cs else s) in
      if ds = [] then None
      else case digits_value 0 ds of
             None \<Rightarrow> None
           | Some n \<Rightarrow> if int n < 18446744073709551616 then Some (of_nat n) else None)"

subsection \<open>Numbers read back\<close>

definition digit :: "nat \<Rightarrow> char" where
  "digit d = char_of (48 + d)"

lemma of_char_digit: "d < 10 \<Longrightarrow> of_char (digit d) = 48 + d"
  by (simp add: digit_def)

lemma digit_props: "d < 10 \<Longrightarrow> digit_value (digit d) = Some d" "d < 10 \<Longrightarrow> \<not> is_whitespace (digit d)"
  by (simp_all add: digit_value_def is_whitespace_def of_char_digit)

lemma digit_not_plus: "d < 10 \<Longrightarrow> digit d \<noteq> CHR ''+''"
proof
  assume "d < 10" "digit d = CHR ''+''"
  then have "of_char (digit d) = (43 :: nat)" by simp
  with of_char_digit[OF \<open>d < 10\<close>] show False by simp
qed

lemma nat_str_digits: "\<exists>ds. nat_str n = map digit ds \<and> ds \<noteq> [] \<and> (\<forall>d \<in> set ds. d < 10)"
proof (induction n rule: nat_str.induct)
  case (1 n)
  show ?case
  proof (cases "n < 10")
    case True
    then show ?thesis by (intro exI[of _ "[n]"]) (simp add: nat_str.simps[of n] digit_def)
  next
    case False
    with 1 obtain ds where "nat_str (n div 10) = map digit ds" "ds \<noteq> []" "\<forall>d \<in> set ds. d < 10" by blast
    with False show ?thesis by (intro exI[of _ "ds @ [n mod 10]"]) (auto simp: nat_str.simps[of n] digit_def)
  qed
qed

lemma digits_value_append: "digits_value acc (s @ [c]) = (case digits_value acc s of None \<Rightarrow> None | Some v \<Rightarrow> map_option (\<lambda>d. v * 10 + d) (digit_value c))"
  by (induction s arbitrary: acc) (auto split: option.splits)

lemma digits_value_nat_str: "digits_value 0 (nat_str n) = Some n"
proof (induction n rule: nat_str.induct)
  case (1 n)
  show ?case
  proof (cases "n < 10")
    case True
    then show ?thesis using digit_props(1)[of n] by (simp add: nat_str.simps[of n] digit_def[symmetric])
  next
    case False
    with 1 have "digits_value 0 (nat_str (n div 10)) = Some (n div 10)" by simp
    with False show ?thesis using digit_props(1)[of "n mod 10"]
      by (simp add: nat_str.simps[of n] digits_value_append digit_def[symmetric])
  qed
qed

lemma trim_digits: "(\<forall>d \<in> set ds. d < 10) \<Longrightarrow> trim (map digit ds) = map digit ds"
proof -
  assume small: "\<forall>d \<in> set ds. d < 10"
  have keep: "dropWhile is_whitespace s = s" if "\<forall>c \<in> set s. \<not> is_whitespace c" for s using that by (cases s) simp_all
  have "\<forall>c \<in> set (map digit ds). \<not> is_whitespace c" using small by (simp add: digit_props(2))
  then show ?thesis using keep[of "map digit ds"] keep[of "rev (map digit ds)"] by (simp add: trim_def)
qed

lemma parse_printed: "parse_u64 (trim (nat_str (unat b))) = Some b"
proof -
  obtain ds where ds: "nat_str (unat b) = map digit ds" "ds \<noteq> []" "\<forall>d \<in> set ds. d < 10" using nat_str_digits by blast
  have "hd ds < 10" using ds(2,3) by simp
  from digit_not_plus[OF this] ds(2) have "(case map digit ds of [] \<Rightarrow> [] | c # cs \<Rightarrow> if c = CHR ''+'' then cs else map digit ds) = map digit ds"
    by (cases ds) simp_all
  moreover have "digits_value 0 (map digit ds) = Some (unat b)" using digits_value_nat_str[of "unat b"] ds(1) by simp
  moreover have "int (unat b) < 18446744073709551616" using uint_lt2p[of b] by simp
  ultimately show ?thesis using ds trim_digits[OF ds(3)] by (simp add: parse_u64_def)
qed

end
