(* ===== verification/Vram_Ledger.thy ===== *)
theory Vram_Ledger
  imports Gpu_Broker Chunking Texts
begin

text \<open>
  The account of video memory (\<open>embeddings/vram_ledger.rs\<close>) and the admission of a new session against it
  (\<open>VramBudget\<close>, \<open>room_on_card\<close> and \<open>admit\<close> of \<open>embeddings/gpu_broker.rs\<close>). Memory is counted in 64-bit words, with
  the wrap-around of the code's unchecked arithmetic; a signed count is the word read by \<open>sint\<close>. What the kernel's
  meters show is an argument of every operation that reads them, and the files that keep the prices between processes
  are a map from the profile to the text.
\<close>

subsection \<open>Counters of the kernel\<close>

definition parse_kib :: "string \<Rightarrow> 64 word option" where
  "parse_kib v =
     (case split_whitespace v of
        [] \<Rightarrow> None
      | n # rest \<Rightarrow>
          (case parse_u64 n of
             None \<Rightarrow> None
           | Some number \<Rightarrow>
               (case rest of
                  [] \<Rightarrow> Some number
                | unit # _ \<Rightarrow>
                    if unit = ''KiB'' then Some (number * 1024)
                    else if unit = ''MiB'' then Some (number * 1024 * 1024)
                    else None)))"

fun fdinfo_lines ::
  "string list \<Rightarrow> string option \<times> 64 word option \<times> 64 word option \<Rightarrow> string option \<times> 64 word option \<times> 64 word option" where
  "fdinfo_lines [] acc = acc"
| "fdinfo_lines (l # ls) (client, tot, legacy) =
     (case split_once CHR '':'' l of
        None \<Rightarrow> fdinfo_lines ls (client, tot, legacy)
      | Some (key, val) \<Rightarrow>
          (let v = trim val; k = trim key in
           if k = ''drm-client-id'' then fdinfo_lines ls (Some v, tot, legacy)
           else if k = ''drm-total-vram'' then fdinfo_lines ls (client, parse_kib v, legacy)
           else if k = ''drm-memory-vram'' then fdinfo_lines ls (client, tot, parse_kib v)
           else fdinfo_lines ls (client, tot, legacy)))"

definition parse_drm_fdinfo :: "string \<Rightarrow> (string \<times> 64 word) option" where
  "parse_drm_fdinfo text =
     (case fdinfo_lines (str_lines text) (None, None, None) of (client, tot, legacy) \<Rightarrow>
        (case (client, if tot \<noteq> None then tot else legacy) of
           (Some c, Some b) \<Rightarrow> Some (c, b)
         | _ \<Rightarrow> None))"

fun kfd_property_lines :: "string list \<Rightarrow> string \<Rightarrow> 64 word option" where
  "kfd_property_lines [] key = None"
| "kfd_property_lines (l # ls) key =
     (case split_once CHR '' '' l of
        None \<Rightarrow> kfd_property_lines ls key
      | Some (k, v) \<Rightarrow>
          (case (if k = key then parse_u64 (trim v) else None) of
             None \<Rightarrow> kfd_property_lines ls key
           | Some n \<Rightarrow> Some n))"

definition kfd_property :: "string \<Rightarrow> string \<Rightarrow> 64 word option" where
  "kfd_property properties key = kfd_property_lines (str_lines properties) key"

text \<open>\<open>collect\<close> on options: the first item that is not an index of the list makes the answer \<open>None\<close>.\<close>

definition select_visible :: "'a list \<Rightarrow> string \<Rightarrow> 'a list option" where
  "select_visible agents list =
     those (map (\<lambda>i. case parse_u64 (trim i) of
                       None \<Rightarrow> None
                     | Some n \<Rightarrow> if unat n < length agents then Some (agents ! unat n) else None)
                (split_on CHR '','' list))"

subsection \<open>Readings and charges\<close>

record vram_reading =
  vr_process_bytes :: "64 word option"
  vr_process_drm_bytes :: "64 word option"
  vr_card_used_bytes :: "64 word option"

record vram_delta =
  vd_process_bytes :: "64 word option"
  vd_process_drm_bytes :: "64 word option"
  vd_card_bytes :: "64 word option"

definition VramDelta_ZERO :: vram_delta where
  "VramDelta_ZERO = \<lparr>vd_process_bytes = Some 0, vd_process_drm_bytes = Some 0, vd_card_bytes = Some 0\<rparr>"

fun both :: "(64 word \<Rightarrow> 64 word \<Rightarrow> 64 word) \<Rightarrow> 64 word option \<Rightarrow> 64 word option \<Rightarrow> 64 word option" where
  "both f (Some a) (Some b) = Some (f a b)"
| "both f _ _ = None"

definition delta_between :: "vram_reading \<Rightarrow> vram_reading \<Rightarrow> vram_delta" where
  "delta_between before after =
     (let diff = (\<lambda>b a. both (\<lambda>x y. x - y) a b) in
      \<lparr>vd_process_bytes = diff (vr_process_bytes before) (vr_process_bytes after),
       vd_process_drm_bytes = diff (vr_process_drm_bytes before) (vr_process_drm_bytes after),
       vd_card_bytes = diff (vr_card_used_bytes before) (vr_card_used_bytes after)\<rparr>)"

definition delta_plus :: "vram_delta \<Rightarrow> vram_delta \<Rightarrow> vram_delta" where
  "delta_plus a b =
     \<lparr>vd_process_bytes = both (+) (vd_process_bytes a) (vd_process_bytes b),
      vd_process_drm_bytes = both (+) (vd_process_drm_bytes a) (vd_process_drm_bytes b),
      vd_card_bytes = both (+) (vd_card_bytes a) (vd_card_bytes b)\<rparr>"

definition delta_negated :: "vram_delta \<Rightarrow> vram_delta" where
  "delta_negated a =
     \<lparr>vd_process_bytes = map_option uminus (vd_process_bytes a),
      vd_process_drm_bytes = map_option uminus (vd_process_drm_bytes a),
      vd_card_bytes = map_option uminus (vd_card_bytes a)\<rparr>"

subsection \<open>The ledger\<close>

record live_session =
  ls_id :: nat
  ls_owner :: embedding_owner
  ls_profile :: string
  ls_created_unix_s :: nat
  ls_at_creation :: vram_delta
  ls_at_first_run :: "vram_delta option"

definition session_charge :: "live_session \<Rightarrow> vram_delta" where
  "session_charge s = delta_plus (ls_at_creation s) (case ls_at_first_run s of None \<Rightarrow> VramDelta_ZERO | Some d \<Rightarrow> d)"

record owner_totals =
  ot_created :: nat
  ot_released :: nat
  ot_released_charge :: vram_delta
  ot_released_returned :: vram_delta
  ot_grants :: nat
  ot_grant_wait_ms :: nat

definition NONE_YET :: owner_totals where
  "NONE_YET = \<lparr>ot_created = 0, ot_released = 0, ot_released_charge = VramDelta_ZERO, ot_released_returned = VramDelta_ZERO,
     ot_grants = 0, ot_grant_wait_ms = 0\<rparr>"

record vram_ledger =
  lg_next_id :: nat
  lg_live :: "live_session list"
  lg_owners :: "embedding_owner \<rightharpoonup> owner_totals"
  lg_prices :: "string \<rightharpoonup> 64 word"

definition owner_entry :: "vram_ledger \<Rightarrow> embedding_owner \<Rightarrow> owner_totals" where
  "owner_entry L owner = (case lg_owners L owner of None \<Rightarrow> NONE_YET | Some t \<Rightarrow> t)"

record vram_ticket =
  tk_id :: nat
  tk_owner :: embedding_owner
  tk_first_run_done :: bool
  tk_before_release :: "vram_reading option"

definition ticket_open ::
  "embedding_owner \<Rightarrow> string \<Rightarrow> vram_reading \<Rightarrow> vram_reading \<Rightarrow> nat \<Rightarrow> vram_ledger \<Rightarrow> vram_ticket \<times> vram_ledger" where
  "ticket_open owner profile before after now L =
     (let t = owner_entry L owner in
      (\<lparr>tk_id = lg_next_id L, tk_owner = owner, tk_first_run_done = False, tk_before_release = None\<rparr>,
       L\<lparr>lg_next_id := lg_next_id L + 1,
         lg_live := lg_live L @ [\<lparr>ls_id = lg_next_id L, ls_owner = owner, ls_profile = profile, ls_created_unix_s = now,
                                 ls_at_creation = delta_between before after, ls_at_first_run = None\<rparr>],
         lg_owners := (lg_owners L)(owner \<mapsto> t\<lparr>ot_created := ot_created t + 1\<rparr>)\<rparr>))"

fun session_position :: "nat \<Rightarrow> live_session list \<Rightarrow> nat option" where
  "session_position i [] = None"
| "session_position i (s # ss) = (if ls_id s = i then Some 0 else map_option Suc (session_position i ss))"

text \<open>The price that a first run shows: the whole process for its only session, the charge otherwise; a negative
  amount is no price.\<close>

definition first_run_price :: "bool \<Rightarrow> 64 word option \<Rightarrow> 64 word option \<Rightarrow> 64 word option" where
  "first_run_price only charge process =
     (let price = (case (charge, process) of
                     (Some c, Some p) \<Rightarrow> if only then Some (if sint c \<le> sint p then p else c) else Some c
                   | (c, _) \<Rightarrow> c)
      in case price of Some b \<Rightarrow> if 0 \<le> sint b then Some b else None | None \<Rightarrow> None)"

text \<open>The largest price of a profile; the second component is what has to be written down.\<close>

definition raise_price :: "string \<Rightarrow> 64 word \<Rightarrow> (string \<rightharpoonup> 64 word) \<Rightarrow> (string \<rightharpoonup> 64 word) \<times> 64 word option" where
  "raise_price profile bytes prices =
     (let known = (case prices profile of None \<Rightarrow> 0 | Some k \<Rightarrow> k) in
      if known < bytes then (prices(profile \<mapsto> bytes), Some bytes) else (prices(profile \<mapsto> known), None))"

definition first_run_finished ::
  "vram_reading \<Rightarrow> vram_reading \<Rightarrow> vram_ticket \<Rightarrow> vram_ledger \<Rightarrow> (vram_ticket \<times> vram_ledger \<times> (string \<times> 64 word) option) option" where
  "first_run_finished before after tk L =
     (case session_position (tk_id tk) (lg_live L) of
        None \<Rightarrow> None
      | Some i \<Rightarrow>
          (let s = (lg_live L ! i)\<lparr>ls_at_first_run := Some (delta_between before after)\<rparr>;
               L1 = L\<lparr>lg_live := (lg_live L)[i := s]\<rparr>;
               tk1 = tk\<lparr>tk_first_run_done := True\<rparr>
           in case first_run_price (length (lg_live L1) = 1) (vd_process_bytes (session_charge s)) (vr_process_bytes after) of
                None \<Rightarrow> Some (tk1, L1, None)
              | Some bytes \<Rightarrow>
                  (case raise_price (ls_profile s) bytes (lg_prices L1) of (prices, grew) \<Rightarrow>
                     Some (tk1, L1\<lparr>lg_prices := prices\<rparr>, map_option (Pair (ls_profile s)) grew))))"

definition release_starting :: "vram_reading \<Rightarrow> vram_ticket \<Rightarrow> vram_ticket" where
  "release_starting r tk = tk\<lparr>tk_before_release := Some r\<rparr>"

definition swap_remove :: "nat \<Rightarrow> 'a list \<Rightarrow> 'a list" where
  "swap_remove i xs = butlast (xs[i := last xs])"

definition ticket_drop :: "vram_reading \<Rightarrow> vram_ticket \<Rightarrow> vram_ledger \<Rightarrow> vram_ledger option" where
  "ticket_drop after tk L =
     (case tk_before_release tk of
        None \<Rightarrow> None
      | Some before \<Rightarrow>
     (case session_position (tk_id tk) (lg_live L) of
        None \<Rightarrow> None
      | Some i \<Rightarrow>
          (let s = lg_live L ! i in
           case lg_owners L (ls_owner s) of
             None \<Rightarrow> None
           | Some t \<Rightarrow>
               Some (L\<lparr>lg_live := swap_remove i (lg_live L),
                       lg_owners := (lg_owners L)(ls_owner s \<mapsto>
                         t\<lparr>ot_released := ot_released t + 1,
                           ot_released_charge := delta_plus (ot_released_charge t) (session_charge s),
                           ot_released_returned :=
                             delta_plus (ot_released_returned t) (delta_negated (delta_between before after))\<rparr>)\<rparr>))))"

definition record_grant :: "embedding_owner \<Rightarrow> nat \<Rightarrow> vram_ledger \<Rightarrow> vram_ledger" where
  "record_grant owner waited_ms L =
     (let t = owner_entry L owner in
      L\<lparr>lg_owners := (lg_owners L)(owner \<mapsto>
          t\<lparr>ot_grants := ot_grants t + 1, ot_grant_wait_ms := ot_grant_wait_ms t + waited_ms\<rparr>)\<rparr>)"

definition observe_after_run ::
  "string \<Rightarrow> 64 word option \<Rightarrow> vram_ledger \<Rightarrow> vram_ledger \<times> (string \<times> 64 word) option" where
  "observe_after_run profile process L =
     (case process of
        None \<Rightarrow> (L, None)
      | Some p \<Rightarrow>
          if length (lg_live L) \<noteq> 1 then (L, None)
          else case raise_price profile p (lg_prices L) of
                 (prices, grew) \<Rightarrow> (L\<lparr>lg_prices := prices\<rparr>, map_option (Pair profile) grew))"

subsection \<open>Prices between processes\<close>

definition remembered_price :: "bool \<Rightarrow> (string \<rightharpoonup> string) \<Rightarrow> string \<Rightarrow> 64 word option" where
  "remembered_price has_dir files profile =
     (if \<not> has_dir then None
      else case files profile of None \<Rightarrow> None | Some text \<Rightarrow> parse_u64 (trim text))"

definition remember_price ::
  "bool \<Rightarrow> (string, unit) result \<Rightarrow> string \<Rightarrow> 64 word \<Rightarrow> (string \<rightharpoonup> string) \<Rightarrow> (string \<rightharpoonup> string)" where
  "remember_price has_dir io profile bytes files =
     (if \<not> has_dir then files
      else if bytes = 0 \<or> (case remembered_price has_dir files profile of None \<Rightarrow> False | Some known \<Rightarrow> bytes \<le> known)
      then files
      else case io of Inl _ \<Rightarrow> files | Inr _ \<Rightarrow> files(profile \<mapsto> nat_str (unat bytes)))"

fun option_max :: "64 word option \<Rightarrow> 64 word option \<Rightarrow> 64 word option" where
  "option_max None b = b"
| "option_max (Some a) None = Some a"
| "option_max (Some a) (Some b) = Some (max a b)"

definition known_session_charge :: "bool \<Rightarrow> (string \<rightharpoonup> string) \<Rightarrow> vram_ledger \<Rightarrow> string \<Rightarrow> 64 word option" where
  "known_session_charge has_dir files L profile =
     option_max (lg_prices L profile) (remembered_price has_dir files profile)"

subsection \<open>Admission\<close>

datatype vram_budget = Disabled | Explicit "64 word" | HalfCard "64 word" | NoCardMeter

definition VRAM_BUDGET_ENV :: string where
  "VRAM_BUDGET_ENV = ''RMC_VRAM_BUDGET_MB''"

definition budget_resolve :: "string option \<Rightarrow> 64 word option \<Rightarrow> (embedding_error, vram_budget) result" where
  "budget_resolve raw card_total =
     (let unset = Inr (case card_total of Some tot \<Rightarrow> HalfCard (tot div 2) | None \<Rightarrow> NoCardMeter) in
      case map_option trim raw of
        None \<Rightarrow> unset
      | Some text \<Rightarrow>
          if text = [] then unset
          else case parse_u64 text of
                 None \<Rightarrow> Inl (ModelInit (VRAM_BUDGET_ENV @ ''='' @ text @ '' is not a number of MiB''))
               | Some mb \<Rightarrow> Inr (if mb = 0 then Disabled else Explicit (push_bit 20 mb)))"

fun budget_bytes :: "vram_budget \<Rightarrow> 64 word option" where
  "budget_bytes (Explicit b) = Some b"
| "budget_bytes (HalfCard b) = Some b"
| "budget_bytes Disabled = None"
| "budget_bytes NoCardMeter = None"

fun budget_debug :: "vram_budget \<Rightarrow> string" where
  "budget_debug Disabled = ''Disabled''"
| "budget_debug (Explicit b) = ''Explicit { bytes: '' @ nat_str (unat b) @ '' }''"
| "budget_debug (HalfCard b) = ''HalfCard { bytes: '' @ nat_str (unat b) @ '' }''"
| "budget_debug NoCardMeter = ''NoCardMeter''"

definition mib_str :: "64 word \<Rightarrow> string" where
  "mib_str b = nat_str (unat (drop_bit 20 b))"

definition budget_admit ::
  "vram_budget \<Rightarrow> string \<Rightarrow> 64 word option \<Rightarrow> 64 word option \<Rightarrow> (embedding_error, unit) result" where
  "budget_admit b profile process expected =
     (case budget_bytes b of
        None \<Rightarrow> Inr ()
      | Some budget \<Rightarrow>
          (case process of
             None \<Rightarrow>
               (case b of
                  Explicit _ \<Rightarrow>
                    Inl (ModelInit (VRAM_BUDGET_ENV @ '' is set, but this process's VRAM cannot be read (no KFD meter)''))
                | _ \<Rightarrow> Inr ())
           | Some p \<Rightarrow>
               (let e = (case expected of None \<Rightarrow> 0 | Some e \<Rightarrow> e) in
                if p + e \<le> budget then Inr ()
                else Inl (ModelInit (''GPU embedding session for `'' @ profile @ ''` refused: this process holds '' @ mib_str p @
                       '' MiB of VRAM, a session costs '' @ mib_str e @ '' MiB, the budget is '' @ mib_str budget @
                       '' MiB ('' @ VRAM_BUDGET_ENV @ ''; '' @ budget_debug b @ '')'')))))"

record device_card =
  dc_ordinal :: nat
  dc_gpu_id :: "32 word"
  dc_pci :: string
  dc_total_bytes :: "64 word"
  dc_used_bytes :: "64 word"

text \<open>\<open>saturating_sub\<close>.\<close>

definition free_bytes :: "device_card \<Rightarrow> 64 word" where
  "free_bytes c = (if dc_used_bytes c \<le> dc_total_bytes c then dc_total_bytes c - dc_used_bytes c else 0)"

definition room_on_card :: "string \<Rightarrow> device_card option \<Rightarrow> 64 word option \<Rightarrow> (embedding_error, unit) result" where
  "room_on_card profile dev price =
     (case dev of
        None \<Rightarrow> Inr ()
      | Some c \<Rightarrow>
          (case price of
             None \<Rightarrow> Inr ()
           | Some p \<Rightarrow>
               if p \<le> free_bytes c then Inr ()
               else Inl (ModelInit (''GPU embedding session for `'' @ profile @ ''` refused: the card '' @ dc_pci c @ '' has '' @
                      mib_str (free_bytes c) @ '' MiB free ('' @ mib_str (dc_used_bytes c) @ '' of '' @ mib_str (dc_total_bytes c) @
                      '' MiB used, by every process on it), a session costs '' @ mib_str p @ '' MiB''))))"

text \<open>\<open>admit\<close>: the knob, the sum over the cards, the process meter, the known price and the card are what it reads.\<close>

definition admit ::
  "string \<Rightarrow> string option \<Rightarrow> 64 word option \<Rightarrow> 64 word option \<Rightarrow> 64 word option \<Rightarrow> device_card option \<Rightarrow>
   (embedding_error, device_card option) result" where
  "admit profile raw card_total process price dev =
     and_then (budget_resolve raw card_total) (\<lambda>b.
     and_then (budget_admit b profile process price) (\<lambda>_.
     and_then (room_on_card profile dev price) (\<lambda>_. Inr dev)))"

subsection \<open>The ledger over a run\<close>

inductive ledger_step :: "vram_ledger \<times> vram_ticket list \<Rightarrow> vram_ledger \<times> vram_ticket list \<Rightarrow> bool" where
  opens: "ticket_open owner profile before after now L = (tk, L') \<Longrightarrow> ledger_step (L, tks) (L', tks @ [tk])"
| runs_first: "j < length tks \<Longrightarrow> first_run_finished before after (tks ! j) L = Some (tk, L', grew) \<Longrightarrow>
    ledger_step (L, tks) (L', tks[j := tk])"
| releases: "j < length tks \<Longrightarrow> ticket_drop after (release_starting before (tks ! j)) L = Some L' \<Longrightarrow>
    ledger_step (L, tks) (L', take j tks @ drop (Suc j) tks)"
| grants: "ledger_step (L, tks) (record_grant owner waited L, tks)"
| observes: "ledger_step (L, tks) (fst (observe_after_run profile process L), tks)"

inductive ledger_reachable :: "vram_ledger \<times> vram_ticket list \<Rightarrow> bool" where
  first: "ledger_reachable (\<lparr>lg_next_id = 0, lg_live = [], lg_owners = Map.empty, lg_prices = Map.empty\<rparr>, [])"
| step: "ledger_reachable s \<Longrightarrow> ledger_step s s' \<Longrightarrow> ledger_reachable s'"

definition live_of :: "embedding_owner \<Rightarrow> vram_ledger \<Rightarrow> live_session list" where
  "live_of owner L = filter (\<lambda>s. ls_owner s = owner) (lg_live L)"

definition owner_charge :: "embedding_owner \<Rightarrow> vram_ledger \<Rightarrow> vram_delta" where
  "owner_charge owner L = fold (\<lambda>s. delta_plus (session_charge s)) (live_of owner L) (ot_released_charge (owner_entry L owner))"

definition ledger_ok :: "vram_ledger \<Rightarrow> vram_ticket list \<Rightarrow> bool" where
  "ledger_ok L tks \<longleftrightarrow>
     mset (map tk_id tks) = mset (map ls_id (lg_live L)) \<and> distinct (map ls_id (lg_live L)) \<and>
     (\<forall>s \<in> set (lg_live L). ls_id s < lg_next_id L \<and> lg_owners L (ls_owner s) \<noteq> None) \<and>
     (\<forall>owner. ot_created (owner_entry L owner) = ot_released (owner_entry L owner) + length (live_of owner L))"

lemma mset_swap_remove:
  assumes "i < length xs"
  shows "mset (swap_remove i xs) = mset xs - {#xs ! i#}"
proof -
  let ?ys = "xs[i := last xs]"
  have ne: "?ys \<noteq> []" "xs \<noteq> []" using assms by auto
  have "last ?ys = last xs" using assms ne by (simp add: last_conv_nth nth_list_update)
  then have "mset ?ys = add_mset (last xs) (mset (butlast ?ys))" using append_butlast_last_id[OF ne(1)] by (metis mset.simps(2) mset_append union_mset_add_mset_right add.right_neutral mset.simps(1))
  moreover have "mset ?ys = add_mset (last xs) (mset xs - {#xs ! i#})" using assms by (rule mset_update)
  ultimately show ?thesis by (simp add: swap_remove_def)
qed

lemma session_position_Some: "session_position i ss = Some n \<Longrightarrow> n < length ss \<and> ls_id (ss ! n) = i"
  by (induction ss arbitrary: n) (auto split: if_splits)

lemma session_position_None: "session_position i ss = None \<longleftrightarrow> i \<notin> set (map ls_id ss)"
  by (induction ss) auto

lemma ledger_ok_ticket:
  assumes "ledger_ok L tks" "tk_id tk \<in> set (map tk_id tks)"
  obtains n where "session_position (tk_id tk) (lg_live L) = Some n" "n < length (lg_live L)" "ls_id (lg_live L ! n) = tk_id tk"
proof -
  have "tk_id tk \<in> set (map ls_id (lg_live L))" using assms by (metis ledger_ok_def set_mset_mset)
  then obtain n where "session_position (tk_id tk) (lg_live L) = Some n"
    using session_position_None[of "tk_id tk" "lg_live L"] by (cases "session_position (tk_id tk) (lg_live L)") auto
  with session_position_Some show thesis by (intro that) blast+
qed

lemma owner_entry_update: "lg_owners L' = (lg_owners L)(o' \<mapsto> t) \<Longrightarrow> owner_entry L' owner = (if owner = o' then t else owner_entry L owner)"
  by (simp add: owner_entry_def)

lemma owner_entry_Some: "lg_owners L owner = Some t \<Longrightarrow> owner_entry L owner = t"
  by (simp add: owner_entry_def)

lemma ledger_okD:
  assumes "ledger_ok L tks"
  shows "mset (map tk_id tks) = mset (map ls_id (lg_live L))" "distinct (map ls_id (lg_live L))"
    "\<And>s. s \<in> set (lg_live L) \<Longrightarrow> ls_id s < lg_next_id L" "\<And>s. s \<in> set (lg_live L) \<Longrightarrow> lg_owners L (ls_owner s) \<noteq> None"
    "\<And>owner. ot_created (owner_entry L owner) = ot_released (owner_entry L owner) + length (live_of owner L)"
  using assms by (auto simp: ledger_ok_def)

lemma ledger_okI:
  assumes "mset (map tk_id tks) = mset (map ls_id (lg_live L))" "distinct (map ls_id (lg_live L))"
    "\<And>s. s \<in> set (lg_live L) \<Longrightarrow> ls_id s < lg_next_id L \<and> lg_owners L (ls_owner s) \<noteq> None"
    "\<And>owner. ot_created (owner_entry L owner) = ot_released (owner_entry L owner) + length (live_of owner L)"
  shows "ledger_ok L tks"
  using assms by (simp add: ledger_ok_def)

lemma ticket_open_ok:
  assumes ok: "ledger_ok L tks" and op: "ticket_open owner profile before after now L = (tk, L')"
  shows "ledger_ok L' (tks @ [tk])"
proof (rule ledger_okI)
  note D = ledger_okD[OF ok]
  obtain s where L': "lg_live L' = lg_live L @ [s]" "ls_id s = lg_next_id L" "ls_owner s = owner" "tk_id tk = lg_next_id L"
      "lg_next_id L' = Suc (lg_next_id L)"
      "lg_owners L' = (lg_owners L)(owner \<mapsto> (owner_entry L owner)\<lparr>ot_created := ot_created (owner_entry L owner) + 1\<rparr>)"
    using op by (auto simp: ticket_open_def Let_def)
  show "mset (map tk_id (tks @ [tk])) = mset (map ls_id (lg_live L'))" using D(1) by (simp add: L')
  have "lg_next_id L \<notin> ls_id ` set (lg_live L)" using D(3) by (metis imageE less_irrefl)
  then show "distinct (map ls_id (lg_live L'))" using D(2) by (simp add: L')
  show "ls_id x < lg_next_id L' \<and> lg_owners L' (ls_owner x) \<noteq> None" if "x \<in> set (lg_live L')" for x
  proof (cases "x \<in> set (lg_live L)")
    case True
    then show ?thesis using D(3,4)[OF True] L'(5,6) by simp
  next
    case False
    then show ?thesis using that L'(1-3,5,6) by simp
  qed
  show "ot_created (owner_entry L' o') = ot_released (owner_entry L' o') + length (live_of o' L')" for o'
    using D(5)[of o'] by (auto simp: owner_entry_update[OF L'(6)] live_of_def L')
qed

lemma live_update:
  assumes "i < length xs" "ls_id y = ls_id (xs ! i)" "ls_owner y = ls_owner (xs ! i)"
  shows "map ls_id (xs[i := y]) = map ls_id xs" "map ls_owner (xs[i := y]) = map ls_owner xs"
  using assms by (simp_all add: map_update list_update_same_conv)

lemma live_count: "length (live_of owner L) = count_list (map ls_owner (lg_live L)) owner"
  unfolding live_of_def by (induction "lg_live L") (auto simp: count_list_eq_length_filter filter_map comp_def eq_commute)

lemma ledger_ok_same_sessions:
  assumes "ledger_ok L tks" "map tk_id tks' = map tk_id tks" "map ls_id (lg_live L') = map ls_id (lg_live L)"
    "map ls_owner (lg_live L') = map ls_owner (lg_live L)" "lg_owners L' = lg_owners L" "lg_next_id L' = lg_next_id L"
  shows "ledger_ok L' tks'"
proof (rule ledger_okI)
  note D = ledger_okD[OF assms(1)]
  show "mset (map tk_id tks') = mset (map ls_id (lg_live L'))" "distinct (map ls_id (lg_live L'))"
    using D(1,2) assms(2,3) by simp_all
  show "ls_id x < lg_next_id L' \<and> lg_owners L' (ls_owner x) \<noteq> None" if "x \<in> set (lg_live L')" for x
  proof -
    have "ls_id x \<in> ls_id ` set (lg_live L)" "ls_owner x \<in> ls_owner ` set (lg_live L)"
      using that assms(3,4) by (metis image_eqI set_map)+
    then show ?thesis using D(3,4) assms(5,6) by auto
  qed
  show "ot_created (owner_entry L' o') = ot_released (owner_entry L' o') + length (live_of o' L')" for o'
    using D(5)[of o'] assms(4,5) by (simp add: live_count owner_entry_def)
qed

lemma first_run_live:
  assumes "first_run_finished before after tk L = Some (tk', L', grew)"
  obtains i s where "session_position (tk_id tk) (lg_live L) = Some i" "lg_live L' = (lg_live L)[i := s]" "ls_id s = ls_id (lg_live L ! i)"
    "ls_owner s = ls_owner (lg_live L ! i)" "lg_owners L' = lg_owners L" "lg_next_id L' = lg_next_id L" "tk_id tk' = tk_id tk"
  using assms by (auto simp: first_run_finished_def Let_def split: option.splits prod.splits)

lemma first_run_ok:
  assumes ok: "ledger_ok L tks" and "j < length tks" and "first_run_finished before after (tks ! j) L = Some (tk, L', grew)"
  shows "ledger_ok L' (tks[j := tk])"
proof -
  from assms(3) obtain i s where fr: "session_position (tk_id (tks ! j)) (lg_live L) = Some i" "lg_live L' = (lg_live L)[i := s]"
    "ls_id s = ls_id (lg_live L ! i)" "ls_owner s = ls_owner (lg_live L ! i)" "lg_owners L' = lg_owners L" "lg_next_id L' = lg_next_id L"
    "tk_id tk = tk_id (tks ! j)" by (rule first_run_live)
  have "i < length (lg_live L)" using session_position_Some[OF fr(1)] by simp
  note same = live_update[OF this fr(3,4)]
  have "map tk_id (tks[j := tk]) = map tk_id tks" using assms(2) fr(7) by (simp add: map_update list_update_same_conv)
  then show ?thesis by (rule ledger_ok_same_sessions[OF ok]) (simp_all add: fr same)
qed

lemma ticket_drop_Some:
  assumes "ticket_drop after tk L = Some L'"
  obtains i t b where "session_position (tk_id tk) (lg_live L) = Some i" "tk_before_release tk = Some b"
    "lg_owners L (ls_owner (lg_live L ! i)) = Some t" "lg_live L' = swap_remove i (lg_live L)" "lg_next_id L' = lg_next_id L"
    "lg_owners L' = (lg_owners L)(ls_owner (lg_live L ! i) \<mapsto>
       t\<lparr>ot_released := ot_released t + 1, ot_released_charge := delta_plus (ot_released_charge t) (session_charge (lg_live L ! i)),
         ot_released_returned := delta_plus (ot_released_returned t) (delta_negated (delta_between b after))\<rparr>)"
  using assms by (auto simp: ticket_drop_def Let_def split: option.splits)

lemma mset_by_swap_remove:
  assumes "i < length xs"
  shows "mset xs = add_mset (xs ! i) (mset (swap_remove i xs))"
  using assms by (simp add: mset_swap_remove)

lemma mset_filter_swap_remove:
  assumes "i < length xs"
  shows "mset (filter P xs) = (if P (xs ! i) then add_mset (xs ! i) (mset (filter P (swap_remove i xs))) else mset (filter P (swap_remove i xs)))"
  unfolding mset_filter by (subst mset_by_swap_remove[OF assms]) simp

lemma length_filter_swap_remove:
  assumes "i < length xs"
  shows "length (filter P xs) = length (filter P (swap_remove i xs)) + of_bool (P (xs ! i))"
  using arg_cong[OF mset_filter_swap_remove[OF assms, of P], of size] by (auto simp: size_mset[symmetric] simp del: size_mset mset_filter)

lemma set_swap_remove:
  assumes "i < length xs"
  shows "set (swap_remove i xs) \<subseteq> set xs"
  using arg_cong[OF mset_by_swap_remove[OF assms], of set_mset] by auto

lemma remove_nth_mset: "j < length xs \<Longrightarrow> mset xs = add_mset (xs ! j) (mset (take j xs @ drop (Suc j) xs))"
  by (metis id_take_nth_drop mset.simps(2) mset_append union_mset_add_mset_right)

lemma ticket_drop_ok:
  assumes ok: "ledger_ok L tks" and j: "j < length tks" and drp: "ticket_drop after tk L = Some L'" "tk_id tk = tk_id (tks ! j)"
  shows "ledger_ok L' (take j tks @ drop (Suc j) tks)"
proof (rule ledger_okI)
  note D = ledger_okD[OF ok]
  from drp(1) obtain i t b where dr: "session_position (tk_id tk) (lg_live L) = Some i" "lg_owners L (ls_owner (lg_live L ! i)) = Some t"
    "lg_live L' = swap_remove i (lg_live L)" "lg_next_id L' = lg_next_id L"
    "lg_owners L' = (lg_owners L)(ls_owner (lg_live L ! i) \<mapsto>
       t\<lparr>ot_released := ot_released t + 1, ot_released_charge := delta_plus (ot_released_charge t) (session_charge (lg_live L ! i)),
         ot_released_returned := delta_plus (ot_released_returned t) (delta_negated (delta_between b after))\<rparr>)"
    by (rule ticket_drop_Some)
  have i: "i < length (lg_live L)" "ls_id (lg_live L ! i) = tk_id (tks ! j)" using session_position_Some[OF dr(1)] drp(2) by simp_all
  have live: "mset (map ls_id (lg_live L)) = add_mset (tk_id (tks ! j)) (mset (map ls_id (lg_live L')))"
    using mset_by_swap_remove[OF i(1)] i(2) dr(3) by simp
  have "mset (map tk_id tks) = add_mset (tk_id (tks ! j)) (mset (map tk_id (take j tks @ drop (Suc j) tks)))"
    using remove_nth_mset[OF j] by simp
  with D(1) live show "mset (map tk_id (take j tks @ drop (Suc j) tks)) = mset (map ls_id (lg_live L'))" by simp
  have "distinct (tk_id (tks ! j) # map ls_id (lg_live L'))"
    using D(2) live by (metis mset.simps(2) mset_eq_imp_distinct_iff)
  then show "distinct (map ls_id (lg_live L'))" by simp
  have "set (lg_live L') \<subseteq> set (lg_live L)" using set_swap_remove[OF i(1)] dr(3) by simp
  then show "ls_id x < lg_next_id L' \<and> lg_owners L' (ls_owner x) \<noteq> None" if "x \<in> set (lg_live L')" for x
    using that D(3,4)[of x] dr(4,5) by auto
  show "ot_created (owner_entry L' o') = ot_released (owner_entry L' o') + length (live_of o' L')" for o'
  proof -
    have "length (live_of o' L) = length (live_of o' L') + of_bool (ls_owner (lg_live L ! i) = o')"
      using length_filter_swap_remove[OF i(1), of "\<lambda>s. ls_owner s = o'"] dr(3) by (simp add: live_of_def)
    with D(5)[of o'] show ?thesis using owner_entry_Some[OF dr(2)] by (auto simp: owner_entry_update[OF dr(5)])
  qed
qed

lemma record_grant_ok: "ledger_ok L tks \<Longrightarrow> ledger_ok (record_grant owner w L) tks"
  by (auto simp: ledger_ok_def record_grant_def Let_def owner_entry_def live_of_def split: option.splits)

lemma observe_keeps:
  "lg_live (fst (observe_after_run profile p L)) = lg_live L" "lg_owners (fst (observe_after_run profile p L)) = lg_owners L"
  "lg_next_id (fst (observe_after_run profile p L)) = lg_next_id L"
  by (simp_all add: observe_after_run_def raise_price_def Let_def split: option.splits)

lemma ledger_step_ok: "ledger_step s s' \<Longrightarrow> ledger_ok (fst s) (snd s) \<Longrightarrow> ledger_ok (fst s') (snd s')"
proof (induction rule: ledger_step.induct)
  case (releases j tks after before L L')
  then show ?case using ticket_drop_ok[of L tks j after "release_starting before (tks ! j)" L'] by (simp add: release_starting_def)
next
  case (observes L tks profile process)
  then show ?case using ledger_ok_same_sessions[of L tks] by (simp add: observe_keeps)
qed (simp_all add: ticket_open_ok first_run_ok record_grant_ok)

lemma ledger_start: "ledger_ok \<lparr>lg_next_id = 0, lg_live = [], lg_owners = Map.empty, lg_prices = Map.empty\<rparr> []"
  by (simp add: ledger_ok_def owner_entry_def NONE_YET_def live_of_def)

lemma ledger_reachable_ok: "ledger_reachable s \<Longrightarrow> ledger_ok (fst s) (snd s)"
  by (induction rule: ledger_reachable.induct) (simp_all add: ledger_step_ok ledger_start)

subsection \<open>Charges\<close>

lemma both_plus_ac: "both (+) a b = both (+) b a" "both (+) a (both (+) b c) = both (+) b (both (+) a c)"
  by (cases a; cases b; simp add: add.commute) (cases a; cases b; cases c; simp add: add.left_commute)

lemma delta_plus_commute: "delta_plus a b = delta_plus b a"
  by (simp add: delta_plus_def both_plus_ac(1))

lemma delta_plus_left_commute: "delta_plus a (delta_plus b c) = delta_plus b (delta_plus a c)"
  by (simp add: delta_plus_def both_plus_ac(2))

lemma fold_charges:
  assumes "mset xs = mset ys"
  shows "fold (\<lambda>s. delta_plus (session_charge s)) xs a = fold (\<lambda>s. delta_plus (session_charge s)) ys a"
proof -
  have "fold (\<lambda>s. delta_plus (session_charge s)) xs = fold (\<lambda>s. delta_plus (session_charge s)) ys"
    by (rule fold_multiset_equiv[OF _ assms]) (simp add: fun_eq_iff delta_plus_left_commute)
  then show ?thesis by simp
qed

lemma ticket_drop_charge:
  assumes "ticket_drop after tk L = Some L'"
  shows "owner_charge owner L' = owner_charge owner L"
proof -
  from assms obtain i t b where dr: "session_position (tk_id tk) (lg_live L) = Some i" "lg_owners L (ls_owner (lg_live L ! i)) = Some t"
    "lg_live L' = swap_remove i (lg_live L)"
    "lg_owners L' = (lg_owners L)(ls_owner (lg_live L ! i) \<mapsto>
       t\<lparr>ot_released := ot_released t + 1, ot_released_charge := delta_plus (ot_released_charge t) (session_charge (lg_live L ! i)),
         ot_released_returned := delta_plus (ot_released_returned t) (delta_negated (delta_between b after))\<rparr>)"
    by (rule ticket_drop_Some)
  have i: "i < length (lg_live L)" using session_position_Some[OF dr(1)] by simp
  note m = mset_filter_swap_remove[OF i, of "\<lambda>s. ls_owner s = owner"]
  show ?thesis
  proof (cases "ls_owner (lg_live L ! i) = owner")
    case True
    then have "mset (live_of owner L) = mset (lg_live L ! i # live_of owner L')" using m dr(3) by (simp add: live_of_def)
    from fold_charges[OF this] True show ?thesis
      using owner_entry_Some[OF dr(2)] owner_entry_update[OF dr(4), of owner] by (simp add: owner_charge_def delta_plus_commute)
  next
    case False
    then have "mset (live_of owner L) = mset (live_of owner L')" using m dr(3) by (simp add: live_of_def)
    from fold_charges[OF this] False show ?thesis
      using owner_entry_update[OF dr(4), of owner] by (simp add: owner_charge_def)
  qed
qed

subsection \<open>Prices\<close>

lemma remembered_after:
  "remembered_price True (remember_price True io profile bytes files) profile =
      (if bytes = 0 \<or> \<not> is_ok io then remembered_price True files profile
       else option_max (Some bytes) (remembered_price True files profile))"
proof (cases "remembered_price True files profile")
  case None
  then show ?thesis by (cases io) (auto simp: remember_price_def remembered_price_def parse_printed)
next
  case (Some known)
  then show ?thesis by (cases io) (auto simp: remember_price_def remembered_price_def parse_printed max_def)
qed

lemma raise_price_grows: "m profile = Some a \<Longrightarrow> \<exists>b. fst (raise_price q x m) profile = Some b \<and> a \<le> b"
  by (auto simp: raise_price_def Let_def)

lemma first_run_prices:
  assumes "first_run_finished before after tk L = Some (tk', L', grew)"
  shows "lg_prices L' = lg_prices L \<or> (\<exists>q x. lg_prices L' = fst (raise_price q x (lg_prices L)))"
proof -
  obtain i where "session_position (tk_id tk) (lg_live L) = Some i" using assms by (auto simp: first_run_finished_def split: option.splits)
  then show ?thesis using assms unfolding first_run_finished_def Let_def
    by (auto split: option.splits prod.splits) (metis fst_conv)
qed

lemma ledger_step_prices:
  assumes "ledger_step s s'" "lg_prices (fst s) profile = Some a"
  shows "\<exists>b. lg_prices (fst s') profile = Some b \<and> a \<le> b"
  using assms(1)
proof cases
  case (opens owner q before after now L tk L' tks)
  then show ?thesis using assms(2) by (auto simp: ticket_open_def Let_def)
next
  case (runs_first j tks before after L tk L' grew)
  from first_run_prices[OF runs_first(4)] show ?thesis
    using assms(2) runs_first(1,2) raise_price_grows by auto
next
  case (releases j tks after before L L')
  then show ?thesis using assms(2) by (auto simp: ticket_drop_def Let_def split: option.splits)
next
  case (grants L tks owner waited)
  then show ?thesis using assms(2) by (auto simp: record_grant_def Let_def)
next
  case (observes L tks q process)
  show ?thesis
  proof (cases "process = None \<or> length (lg_live L) \<noteq> 1")
    case True
    then have "fst (observe_after_run q process L) = L" by (cases process) (auto simp: observe_after_run_def)
    then show ?thesis using observes assms(2) by simp
  next
    case False
    then obtain x where "process = Some x" "length (lg_live L) = 1" by auto
    then have "lg_prices (fst s') = fst (raise_price q x (lg_prices L))"
      using observes by (simp add: observe_after_run_def split: prod.splits)
    then show ?thesis using raise_price_grows assms(2) observes(1) by simp
  qed
qed

subsection \<open>Properties of the account\<close>

text \<open>C31: The ledger balances. After any sequence of openings, first runs, releases, grants and observations, every owner
  has created as many sessions as it has released and still holds, the identifiers of the live sessions are distinct, and
  every ticket that is out finds its session: neither its first run nor its release can panic.\<close>

theorem ledger_balances:
  assumes "ledger_reachable (L, tks)"
  shows "ot_created (owner_entry L owner) = ot_released (owner_entry L owner) + length (live_of owner L) \<and>
    distinct (map ls_id (lg_live L)) \<and> length tks = length (lg_live L) \<and>
    (\<forall>tk \<in> set tks. first_run_finished before after tk L \<noteq> None \<and> ticket_drop after (release_starting before tk) L \<noteq> None)"
proof (intro conjI ballI)
  have ok: "ledger_ok L tks" using ledger_reachable_ok[OF assms] by simp
  note D = ledger_okD[OF ok]
  show "ot_created (owner_entry L owner) = ot_released (owner_entry L owner) + length (live_of owner L)" by (rule D(5))
  show "distinct (map ls_id (lg_live L))" by (rule D(2))
  show "length tks = length (lg_live L)" using arg_cong[OF D(1), of size] by simp
  fix tk
  assume "tk \<in> set tks"
  then have "tk_id tk \<in> set (map tk_id tks)" by simp
  from ledger_ok_ticket[OF ok this] obtain n where n: "session_position (tk_id tk) (lg_live L) = Some n" "n < length (lg_live L)" by blast
  show "first_run_finished before after tk L \<noteq> None"
    using n(1) by (simp add: first_run_finished_def Let_def split: option.splits prod.splits)
  have "lg_owners L (ls_owner (lg_live L ! n)) \<noteq> None" using D(4) n(2) by simp
  then show "ticket_drop after (release_starting before tk) L \<noteq> None"
    using n(1) by (auto simp: ticket_drop_def release_starting_def Let_def split: option.splits)
qed

text \<open>A release moves a charge, it does not lose one. For every owner the sum, meter by meter, of the charges of its
  live sessions and of its released ones is the same before and after a release; a missing meter makes the sum missing.\<close>

theorem release_moves_the_charge:
  assumes "ticket_drop after tk L = Some L'"
  shows "fold (\<lambda>s. delta_plus (session_charge s)) (live_of owner L') (ot_released_charge (owner_entry L' owner)) =
         fold (\<lambda>s. delta_plus (session_charge s)) (live_of owner L) (ot_released_charge (owner_entry L owner))"
  using ticket_drop_charge[OF assms] by (simp add: owner_charge_def)

text \<open>The price of a profile never drops, neither in the ledger, whatever it records, nor in the file that keeps it
  for the next process: what is read back after writing a price is the larger of it and the price that was there, a
  price of zero and a failed write leaving the file alone.\<close>

theorem prices_never_drop:
  "(ledger_step s s' \<longrightarrow> lg_prices (fst s) profile = Some a \<longrightarrow> (\<exists>b. lg_prices (fst s') profile = Some b \<and> a \<le> b)) \<and>
   remembered_price True (remember_price True io profile bytes files) profile =
     (if bytes = 0 \<or> \<not> is_ok io then remembered_price True files profile
      else option_max (Some bytes) (remembered_price True files profile))"
  using ledger_step_prices remembered_after by blast

text \<open>C32: An admitted session fits. If a session is admitted while the process meter shows \<open>p\<close> bytes and such a session
  costs \<open>c\<close>, and their sum does not wrap around, then a budget of \<open>mb\<close> MiB that was set (below \<open>2\<^sup>4\<^sup>4\<close>, so
  that the shift keeps it) covers both, a budget derived from the cards covers both by half their memory, and the card,
  where it was located, has \<open>c\<close> bytes free.\<close>

theorem admitted_session_fits:
  assumes "admit profile raw card_total (Some p) (Some c) dev = Inr d" and "unat p + unat c < 2 ^ 64"
  shows "(\<forall>text mb. raw = Some text \<longrightarrow> parse_u64 (trim text) = Some mb \<longrightarrow> mb \<noteq> 0 \<longrightarrow> unat mb < 2 ^ 44 \<longrightarrow>
            unat p + unat c \<le> unat mb * 2 ^ 20) \<and>
    (\<forall>tot. raw = None \<longrightarrow> card_total = Some tot \<longrightarrow> 2 * (unat p + unat c) \<le> unat tot) \<and>
    (\<forall>k. dev = Some k \<longrightarrow> unat (dc_used_bytes k) + unat c \<le> unat (dc_total_bytes k) \<or> unat c = 0)"
proof -
  have sum: "unat (p + c) = unat p + unat c" using assms(2) by (simp add: unat_plus_if_size word_size)
  obtain b where b: "budget_resolve raw card_total = Inr b" "budget_admit b profile (Some p) (Some c) = Inr ()"
    "room_on_card profile dev (Some c) = Inr ()"
    using assms(1) by (auto simp: admit_def and_then_Inr)
  have within: "unat p + unat c \<le> unat limit" if "budget_bytes b = Some limit" for limit
    using b(2) that sum by (simp add: budget_admit_def word_le_nat_alt split: if_splits)
  have "unat p + unat c \<le> unat mb * 2 ^ 20"
    if "raw = Some str" "parse_u64 (trim str) = Some mb" "mb \<noteq> 0" "unat mb < 2 ^ 44" for str mb
  proof -
    have "trim str \<noteq> []" using that(2) by (auto simp: parse_u64_def)
    with b(1) that have "b = Explicit (push_bit 20 mb)" by (simp add: budget_resolve_def)
    moreover have "unat (push_bit 20 mb) = unat mb * 2 ^ 20"
    proof -
      have "unat (mb * 2 ^ 20) = unat mb * unat (2 ^ 20 :: 64 word)"
        using that(4) by (intro unat_mult_lem[THEN iffD1]) simp
      then show ?thesis by (simp add: push_bit_eq_mult)
    qed
    ultimately show ?thesis using within[of "push_bit 20 mb"] by simp
  qed
  moreover have "2 * (unat p + unat c) \<le> unat tot" if "raw = None" "card_total = Some tot" for tot
  proof -
    have "b = HalfCard (tot div 2)" using b(1) that by (simp add: budget_resolve_def)
    then have "unat p + unat c \<le> unat tot div 2" using within[of "tot div 2"] by (simp add: unat_div)
    then show ?thesis by simp
  qed
  moreover have "unat (dc_used_bytes k) + unat c \<le> unat (dc_total_bytes k) \<or> unat c = 0" if "dev = Some k" for k
  proof -
    have "c \<le> free_bytes k" using b(3) that by (simp add: room_on_card_def split: if_splits)
    then show ?thesis by (cases "dc_used_bytes k \<le> dc_total_bytes k") (auto simp: free_bytes_def word_le_nat_alt unat_sub)
  qed
  ultimately show ?thesis by blast
qed

text \<open>A budget of \<open>2\<^sup>4\<^sup>4\<close> MiB is shifted out of the word: it becomes a budget of no bytes, under which nothing is
  admitted, instead of one that nothing exceeds.\<close>

lemma huge_budget_wraps: "budget_resolve (Some ''17592186044416'') total_bytes = Inr (Explicit 0)"
  by (simp add: budget_resolve_def trim_def is_whitespace_def parse_u64_def digit_value_def Let_def)

subsection \<open>An account at work\<close>

definition demo_reading :: "64 word \<Rightarrow> vram_reading" where
  "demo_reading b = \<lparr>vr_process_bytes = Some b, vr_process_drm_bytes = None, vr_card_used_bytes = Some b\<rparr>"

definition demo_opened :: "vram_ticket \<times> vram_ledger" where
  "demo_opened = ticket_open OwnerIndex ''bge'' (demo_reading 0) (demo_reading 900) 5
     \<lparr>lg_next_id = 0, lg_live = [], lg_owners = Map.empty, lg_prices = Map.empty\<rparr>"

lemma demo_opened_reachable: "ledger_reachable (snd demo_opened, [fst demo_opened])"
proof -
  have "ledger_step (\<lparr>lg_next_id = 0, lg_live = [], lg_owners = Map.empty, lg_prices = Map.empty\<rparr>, []) (snd demo_opened, [] @ [fst demo_opened])"
    by (rule opens) (simp add: demo_opened_def)
  from ledger_reachable.step[OF ledger_reachable.first this] show ?thesis by simp
qed

theorem ledger_balances_witness:
  "ot_created (owner_entry (snd demo_opened) OwnerIndex) = 1 \<and>
   ticket_drop (demo_reading 0) (release_starting (demo_reading 900) (fst demo_opened)) (snd demo_opened) \<noteq> None"
proof -
  have "length (live_of OwnerIndex (snd demo_opened)) = 1" "ot_released (owner_entry (snd demo_opened) OwnerIndex) = 0"
    by (simp_all add: demo_opened_def ticket_open_def live_of_def owner_entry_def NONE_YET_def Let_def)
  with ledger_balances[OF demo_opened_reachable, of OwnerIndex "demo_reading 900" "demo_reading 0"] show ?thesis by simp
qed

theorem release_moves_the_charge_witness:
  "\<exists>L. ticket_drop (demo_reading 0) (release_starting (demo_reading 900) (fst demo_opened)) (snd demo_opened) = Some L \<and>
     vd_process_bytes (ot_released_charge (owner_entry L OwnerIndex)) = Some 900"
proof -
  obtain L where drp: "ticket_drop (demo_reading 0) (release_starting (demo_reading 900) (fst demo_opened)) (snd demo_opened) = Some L"
    and gone: "live_of OwnerIndex L = []"
    by (auto simp: demo_opened_def ticket_open_def ticket_drop_def release_starting_def swap_remove_def live_of_def Let_def)
  have "vd_process_bytes (fold (\<lambda>s. delta_plus (session_charge s)) (live_of OwnerIndex (snd demo_opened))
      (ot_released_charge (owner_entry (snd demo_opened) OwnerIndex))) = Some 900"
    by (simp add: demo_opened_def ticket_open_def live_of_def owner_entry_def NONE_YET_def session_charge_def delta_plus_def
        VramDelta_ZERO_def delta_between_def demo_reading_def Let_def)
  with release_moves_the_charge[OF drp, of OwnerIndex] drp gone show ?thesis by simp
qed

theorem prices_never_drop_witness:
  "remembered_price True (remember_price True (Inr ()) ''bge'' 7 [''bge'' \<mapsto> ''5'']) ''bge'' = Some 7"
proof -
  have "remembered_price True [''bge'' \<mapsto> ''5''] ''bge'' = Some 5"
    by (simp add: remembered_price_def trim_def is_whitespace_def parse_u64_def digit_value_def)
  with prices_never_drop[where io = "Inr ()" and profile = "''bge''" and bytes = 7 and files = "[''bge'' \<mapsto> ''5'']"]
  show ?thesis by simp
qed

theorem admitted_session_fits_witness: "unat (1048576 :: 64 word) + unat (1048576 :: 64 word) \<le> unat (3 :: 64 word) * 2 ^ 20"
proof -
  have run: "admit ''bge'' (Some ''3'') None (Some 1048576) (Some 1048576) None = Inr None"
    by (simp add: admit_def budget_resolve_def budget_admit_def room_on_card_def trim_def is_whitespace_def parse_u64_def digit_value_def push_bit_eq_mult)
  have parsed: "parse_u64 (trim ''3'') = Some 3" by (simp add: trim_def is_whitespace_def parse_u64_def digit_value_def)
  from admitted_session_fits[OF run] show ?thesis by (simp add: parsed)
qed

end
