(* ===== verification/Floats.thy ===== *)
theory Floats
  imports Prelude "HOL-Library.Log_Nat"
begin

text \<open>
  The floating-point arithmetic of the search scores. A finite \<open>f32\<close> or \<open>f64\<close> is the rational number it denotes, and
  an operation is the exact one followed by the rounding of IEEE 754 to the nearest number of the format, ties to even,
  with the format's gradual underflow. Overflow to infinity and NaN are outside of the model: the scores that are
  computed with these operations lie between zero and two.
\<close>

definition round_even :: "rat \<Rightarrow> int" where
  "round_even y =
     (let f = \<lfloor>y\<rfloor>; d = y - of_int f in
      if d < 1 / 2 then f else if 1 / 2 < d then f + 1 else if even f then f else f + 1)"

text \<open>The exponent of the binary order of magnitude of a positive number.\<close>

definition binade :: "rat \<Rightarrow> int" where
  "binade x = (case quotient_of x of (a, b) \<Rightarrow> let e = bitlen a - bitlen b in if 2 powi e \<le> x then e else e - 1)"

definition float_round :: "nat \<Rightarrow> int \<Rightarrow> rat \<Rightarrow> rat" where
  "float_round p emin x =
     (if x = 0 then 0
      else let e = max (binade \<bar>x\<bar> - (int p - 1)) emin in of_int (round_even (x / 2 powi e)) * 2 powi e)"

definition f32_round :: "rat \<Rightarrow> rat" where
  "f32_round = float_round 24 (- 149)"

definition f64_round :: "rat \<Rightarrow> rat" where
  "f64_round = float_round 53 (- 1074)"

definition f32_add :: "rat \<Rightarrow> rat \<Rightarrow> rat" where "f32_add a b = f32_round (a + b)"
definition f32_mul :: "rat \<Rightarrow> rat \<Rightarrow> rat" where "f32_mul a b = f32_round (a * b)"
definition f32_div :: "rat \<Rightarrow> rat \<Rightarrow> rat" where "f32_div a b = f32_round (a / b)"
definition f64_add :: "rat \<Rightarrow> rat \<Rightarrow> rat" where "f64_add a b = f64_round (a + b)"
definition f64_div :: "rat \<Rightarrow> rat \<Rightarrow> rat" where "f64_div a b = f64_round (a / b)"

subsection \<open>Rounding to an integer\<close>

lemma round_even_bounds: "\<lfloor>y\<rfloor> \<le> round_even y" "round_even y \<le> \<lfloor>y\<rfloor> + 1"
  by (simp_all add: round_even_def Let_def)

lemma round_even_of_int [simp]: "round_even (of_int n) = n"
  by (simp add: round_even_def)

lemma round_even_mono:
  assumes "y \<le> z"
  shows "round_even y \<le> round_even z"
proof (cases "\<lfloor>y\<rfloor> = \<lfloor>z\<rfloor>")
  case True
  with assms show ?thesis by (auto simp: round_even_def Let_def)
next
  case False
  with floor_mono[OF assms] have "\<lfloor>y\<rfloor> + 1 \<le> \<lfloor>z\<rfloor>" by simp
  with round_even_bounds(2)[of y] round_even_bounds(1)[of z] show ?thesis by linarith
qed

lemma round_even_le: "y \<le> of_int n \<Longrightarrow> round_even y \<le> n"
  using round_even_mono[of y "of_int n"] by simp

lemma le_round_even: "of_int n \<le> y \<Longrightarrow> n \<le> round_even y"
  using round_even_mono[of "of_int n" y] by simp

subsection \<open>Orders of magnitude\<close>

lemma powi_le_iff: "(2 :: rat) powi m \<le> 2 powi n \<longleftrightarrow> m \<le> n"
proof
  assume "m \<le> n"
  then show "(2 :: rat) powi m \<le> 2 powi n" by (rule power_int_increasing) simp
next
  assume "(2 :: rat) powi m \<le> 2 powi n"
  then show "m \<le> n" using power_int_strict_increasing[of n m "2 :: rat"] by (metis not_le one_less_numeral_iff semiring_norm(76))
qed

lemma powi_less_iff: "(2 :: rat) powi m < 2 powi n \<longleftrightarrow> m < n"
  using powi_le_iff[of n m] by (simp add: not_le[symmetric])

lemma powi_pos [simp]: "(0 :: rat) < 2 powi n"
  by (simp add: zero_less_power_int)

lemma powi_div: "m \<le> n \<Longrightarrow> (2 :: rat) powi n / 2 powi m = of_int (2 ^ nat (n - m))"
  by (simp add: power_int_diff[symmetric] power_int_nonneg_exp)

lemma bitlen_frac:
  assumes "0 < a"
  shows "(2 :: rat) powi (bitlen a - 1) \<le> of_int a" "of_int a < (2 :: rat) powi bitlen a"
proof -
  have "1 \<le> bitlen a" using assms bitlen_nonneg[of a] bitlen_eq_zero_iff[of a] by linarith
  then have e: "(2 :: rat) powi (bitlen a - 1) = of_int (2 ^ nat (bitlen a - 1))" "(2 :: rat) powi bitlen a = of_int (2 ^ nat (bitlen a))"
    by (simp_all add: power_int_nonneg_exp)
  show "(2 :: rat) powi (bitlen a - 1) \<le> of_int a" "of_int a < (2 :: rat) powi bitlen a"
    unfolding e using bitlen_bounds[OF assms] by (simp_all only: of_int_le_iff of_int_less_iff)
qed

lemma binade_bounds:
  assumes "0 < x"
  shows "2 powi binade x \<le> x" "x < 2 powi (binade x + 1)"
proof -
  obtain a b where q: "quotient_of x = (a, b)" by fastforce
  then have b: "0 < b" and x: "x = of_int a / of_int b" using quotient_of_denom_pos quotient_of_div by blast+
  then have a: "0 < a" using assms by (simp add: zero_less_divide_iff)
  have "x < 2 powi bitlen a / 2 powi (bitlen b - 1)"
    unfolding x using bitlen_frac[OF a] bitlen_frac[OF b] b a by (intro frac_less) auto
  then have up: "x < 2 powi (bitlen a - bitlen b + 1)" by (simp add: power_int_diff[symmetric] algebra_simps)
  have "2 powi (bitlen a - 1) / 2 powi bitlen b \<le> x"
    unfolding x using bitlen_frac[OF a] bitlen_frac[OF b] b a by (intro frac_le) auto
  then have lo: "2 powi (bitlen a - bitlen b - 1) \<le> x" by (simp add: power_int_diff[symmetric] algebra_simps)
  show "2 powi binade x \<le> x" using lo by (simp add: binade_def q Let_def)
  show "x < 2 powi (binade x + 1)" using up by (simp add: binade_def q Let_def)
qed

lemma binade_mono:
  assumes "0 < x" "x \<le> y"
  shows "binade x \<le> binade y"
proof -
  have "(2 :: rat) powi binade x < 2 powi (binade y + 1)"
    using binade_bounds(1)[OF assms(1)] binade_bounds(2)[of y] assms by linarith
  then show ?thesis by (simp add: powi_less_iff)
qed

subsection \<open>Rounding to a format\<close>

lemma float_round_0 [simp]: "float_round p emin 0 = 0"
  by (simp add: float_round_def)

lemma float_round_nonneg: "0 \<le> x \<Longrightarrow> 0 \<le> float_round p emin x"
  using le_round_even[of 0 "x / 2 powi max (binade \<bar>x\<bar> - (int p - 1)) emin"]
  by (simp add: float_round_def Let_def)

lemma scaled_mono:
  assumes "x \<le> (y :: rat)"
  shows "of_int (round_even (x / 2 powi e)) * 2 powi e \<le> (of_int (round_even (y / 2 powi e)) * 2 powi e :: rat)"
proof -
  have "x / 2 powi e \<le> y / 2 powi e" using assms by (simp add: divide_right_mono)
  from round_even_mono[OF this] show ?thesis by (simp add: mult_right_mono)
qed

lemma scaled_power: "e \<le> m \<Longrightarrow> of_int (round_even (2 powi m / 2 powi e)) * 2 powi e = (2 powi m :: rat)"
proof -
  assume "e \<le> m"
  then have "of_int (round_even (2 powi m / 2 powi e)) = (2 powi m / 2 powi e :: rat)" by (simp only: powi_div round_even_of_int)
  then show ?thesis by simp
qed

lemma float_round_mono:
  assumes "0 \<le> x" "x \<le> y" "0 < p"
  shows "float_round p emin x \<le> float_round p emin y"
proof (cases "x = 0")
  case True
  with assms float_round_nonneg[of y p emin] show ?thesis by simp
next
  case False
  define e where "e = max (binade x - (int p - 1)) emin"
  define e' where "e' = max (binade y - (int p - 1)) emin"
  have pos: "0 < x" "0 < y" using False assms by auto
  have rx: "float_round p emin x = of_int (round_even (x / 2 powi e)) * 2 powi e"
    and ry: "float_round p emin y = of_int (round_even (y / 2 powi e')) * 2 powi e'"
    using pos by (simp_all add: float_round_def e_def e'_def Let_def)
  have b: "binade x \<le> binade y" using binade_mono[OF pos(1) assms(2)] .
  show ?thesis
  proof (cases "e = e'")
    case True
    then show ?thesis using scaled_mono[OF assms(2)] by (simp add: rx ry)
  next
    case False
    then have "e < e'" "e' = binade y - (int p - 1)" "binade x < binade y" using b by (auto simp: e_def e'_def max_def split: if_splits)
    then have le: "e \<le> binade y" "e' \<le> binade y" using assms(3) by auto
    have "x < 2 powi (binade x + 1)" by (rule binade_bounds(2)[OF pos(1)])
    also have "\<dots> \<le> 2 powi binade y" using \<open>binade x < binade y\<close> by (simp add: powi_le_iff)
    finally have "float_round p emin x \<le> 2 powi binade y"
      using scaled_mono[of x "2 powi binade y" e] scaled_power[OF le(1)] by (simp add: rx)
    also have "\<dots> \<le> float_round p emin y"
      using scaled_mono[OF binade_bounds(1)[OF pos(2)], of e'] scaled_power[OF le(2)] by (simp add: ry)
    finally show ?thesis .
  qed
qed

text \<open>Rounding a number of the format changes nothing.\<close>

lemma float_round_exact:
  assumes "0 < p" "n \<le> 2 ^ p" "emin \<le> e"
  shows "float_round p emin (of_nat n * 2 powi e) = of_nat n * 2 powi e"
proof (cases "n = 0")
  case False
  define v :: rat where "v = of_nat n * 2 powi e"
  define e' where "e' = max (binade v - (int p - 1)) emin"
  have pos: "0 < v" using False by (simp add: v_def)
  have "(2 :: rat) powi binade v \<le> v" by (rule binade_bounds(1)[OF pos])
  also have "of_nat n \<le> (2 :: rat) ^ p" using assms(2) by (metis of_nat_le_iff of_nat_numeral of_nat_power)
  then have "v \<le> 2 ^ p * 2 powi e" unfolding v_def by (intro mult_right_mono) simp_all
  also have "\<dots> = 2 powi (int p + e)" by (simp add: power_int_add)
  finally have b: "binade v \<le> int p + e" by (simp only: powi_le_iff)
  have "\<exists>k :: int. v / 2 powi e' = of_int k"
  proof (cases "e' \<le> e")
    case True
    then have "v / 2 powi e' = of_int (int n * 2 ^ nat (e - e'))" using powi_div[OF True] by (simp add: v_def times_divide_eq_right[symmetric] del: times_divide_eq_right)
    then show ?thesis by blast
  next
    case False
    then have e': "e' = e + 1" "binade v = int p + e" using b assms(3) by (auto simp: e'_def max_def split: if_splits)
    have "(2 :: rat) ^ p * 2 powi e \<le> of_nat n * 2 powi e"
      using binade_bounds(1)[OF pos] unfolding e'(2) by (simp add: power_int_add v_def)
    then have "(2 :: rat) ^ p \<le> of_nat n" by simp
    then have "2 ^ p \<le> n" by (metis of_nat_le_iff of_nat_numeral of_nat_power)
    then have "n = 2 * 2 ^ (p - 1)" using assms(1,2) by (simp flip: power_Suc)
    then have "v / 2 powi e' = of_int (2 ^ (p - 1))" by (simp add: v_def e'(1) power_int_add)
    then show ?thesis by blast
  qed
  then obtain k where k: "v / 2 powi e' = of_int k" by blast
  have "float_round p emin v = of_int (round_even (v / 2 powi e')) * 2 powi e'"
    using pos by (simp add: float_round_def e'_def Let_def)
  also have "\<dots> = v / 2 powi e' * 2 powi e'" by (simp only: k round_even_of_int)
  finally show ?thesis by (simp add: v_def)
qed simp

lemma float_round_idem:
  assumes "0 \<le> x" "0 < p"
  shows "float_round p emin (float_round p emin x) = float_round p emin x"
proof (cases "x = 0")
  case False
  define e where "e = max (binade x - (int p - 1)) emin"
  have pos: "0 < x" using False assms(1) by simp
  have r: "float_round p emin x = of_int (round_even (x / 2 powi e)) * 2 powi e"
    using pos by (simp add: float_round_def e_def Let_def)
  have "x < 2 powi (binade x + 1)" by (rule binade_bounds(2)[OF pos])
  also have "\<dots> \<le> 2 powi (int p + e)" by (simp only: powi_le_iff) (simp add: e_def)
  also have "\<dots> = of_int (2 ^ p) * 2 powi e" by (simp add: power_int_add)
  finally have "x / 2 powi e \<le> of_int (2 ^ p)" by (simp add: pos_divide_le_eq)
  then have up: "round_even (x / 2 powi e) \<le> 2 ^ p" by (rule round_even_le)
  have lo: "0 \<le> round_even (x / 2 powi e)" using le_round_even[of 0 "x / 2 powi e"] pos by simp
  then obtain n where n: "round_even (x / 2 powi e) = int n" by (rule nonneg_int_cases)
  with up have "n \<le> 2 ^ p" by (metis of_nat_le_iff of_nat_numeral of_nat_power)
  moreover have "emin \<le> e" by (simp add: e_def)
  ultimately show ?thesis using float_round_exact[OF assms(2)] by (simp only: r n of_int_of_nat_eq)
qed simp

text \<open>Small whole numbers are exact.\<close>

lemma float_round_nat:
  assumes "n < 2 ^ p" "0 < p" "emin \<le> 0"
  shows "float_round p emin (of_nat n) = of_nat n"
proof (cases "n = 0")
  case False
  then have pos: "(0 :: rat) < of_nat n" by simp
  have "(2 :: rat) powi binade (of_nat n) < 2 powi int p"
    using binade_bounds(1)[OF pos] assms(1) by (metis le_less_trans of_nat_less_iff of_nat_numeral of_nat_power power_int_of_nat)
  then have "binade (of_nat n) < int p" by (simp only: powi_less_iff)
  then have "binade (of_nat n) - (int p - 1) \<le> 0" by simp
  define e where "e = max (binade (of_nat n) - (int p - 1)) emin"
  have "e = - int (nat (- e))" using \<open>binade (of_nat n) - (int p - 1) \<le> 0\<close> assms(3) by (simp add: e_def)
  then obtain k where e: "e = - int k" by blast
  have d: "of_nat n / (2 :: rat) powi e = of_int (int n * 2 ^ k)" unfolding e by (simp add: power_int_minus divide_inverse)
  have "float_round p emin (of_nat n) = of_int (round_even (of_nat n / 2 powi e)) * 2 powi e"
    using False by (simp add: float_round_def e_def Let_def)
  also have "\<dots> = of_nat n / 2 powi e * 2 powi e" by (simp only: d round_even_of_int)
  finally show ?thesis by simp
qed simp

lemmas f32_round_mono = float_round_mono[of _ _ 24 "- 149", folded f32_round_def, simplified]
lemmas f64_round_mono = float_round_mono[of _ _ 53 "- 1074", folded f64_round_def, simplified]
lemmas f32_round_nonneg = float_round_nonneg[of _ 24 "- 149", folded f32_round_def]
lemmas f64_round_nonneg = float_round_nonneg[of _ 53 "- 1074", folded f64_round_def]
lemmas f32_round_idem = float_round_idem[of _ 24 "- 149", folded f32_round_def, simplified]
lemmas f32_round_nat = float_round_nat[of _ 24 "- 149", folded f32_round_def, simplified]
lemmas f64_round_nat = float_round_nat[of _ 53 "- 1074", folded f64_round_def, simplified]

end
