(* ===== verification/Hybrid_Search.thy ===== *)
theory Hybrid_Search
  imports Vector_Store Floats Texts
begin

text \<open>
  Hybrid search: the nearest-neighbour search of the vector store (\<open>LanceDbBackend::search\<close>), the fusion of its hits
  with those of the keyword index by reciprocal rank (\<open>search/mod.rs\<close>), and the search that falls back to the engine
  that works (\<open>search/resilient.rs\<close>). Scores are \<open>f32\<close> as in the theory \<open>Floats\<close>. The embedding model, LanceDB's
  nearest neighbours and Tantivy's query are parameters; the order in which a hash map yields its values is a parameter
  too, a permutation.
\<close>

subsection \<open>Hits\<close>

record vector_hit =
  vh_chunk_id :: chunk_id
  vh_score :: rat
  vh_chunk :: code_chunk

record rrf_score =
  rs_chunk_id :: chunk_id
  rs_rrf_score :: rat
  rs_vector_score :: "rat option"
  rs_vector_rank :: "nat option"
  rs_bm25_score :: "rat option"
  rs_bm25_rank :: "nat option"

record search_result =
  sr_chunk_id :: chunk_id
  sr_score :: rat
  sr_bm25_score :: "rat option"
  sr_vector_score :: "rat option"
  sr_bm25_rank :: "nat option"
  sr_vector_rank :: "nat option"
  sr_chunk :: code_chunk

record hybrid_config =
  hc_bm25_weight :: rat
  hc_vector_weight :: rat
  hc_rrf_k :: rat
  hc_candidate_count :: nat

definition HybridSearchConfig_default :: hybrid_config where
  "HybridSearchConfig_default = \<lparr>hc_bm25_weight = 1 / 2, hc_vector_weight = 1 / 2, hc_rrf_k = 60, hc_candidate_count = 100\<rparr>"

datatype search_error =
    SearchEmbedding embedding_error
  | SearchVectorStore vector_store_error
  | SearchBm25 string

subsection \<open>Nearest neighbours\<close>

text \<open>A numeric knob of the environment, as read for the search. The error quotes the value, here for a value without
  characters that Rust's debug format escapes.\<close>

definition knob :: "string \<Rightarrow> string option \<Rightarrow> nat \<Rightarrow> (vector_store_error, nat) result" where
  "knob name env dflt =
     (case env of
        None \<Rightarrow> Inr dflt
      | Some val \<Rightarrow>
          (case parse_u64 (trim val) of
             None \<Rightarrow> Inl (Backend (name @ ''='' @ [CHR 0x22] @ val @ [CHR 0x22] @ '' is not a valid number''))
           | Some n \<Rightarrow> Inr (unat n)))"

text \<open>Cosine distance to similarity.\<close>

definition similarity :: "rat \<Rightarrow> rat" where
  "similarity distance = f32_round (1 - f32_div distance 2)"

fun decode_hits :: "('t, 'j) lance \<Rightarrow> ('j row \<times> rat) list \<Rightarrow> (vector_store_error, vector_hit list) result" where
  "decode_hits L [] = Inr []"
| "decode_hits L ((r, distance) # rs) =
     (case uuid_parse L (row_id r) of
        Inl e \<Rightarrow> Inl (Serialization (''Invalid chunk ID: '' @ e))
      | Inr i \<Rightarrow>
          (case json_read L (row_json r) of
             Inl e \<Rightarrow> Inl (Serialization (''Failed to deserialize chunk: '' @ e))
           | Inr c \<Rightarrow>
               and_then (decode_hits L rs) (\<lambda>hs. Inr (\<lparr>vh_chunk_id = i, vh_score = similarity distance, vh_chunk = c\<rparr> # hs))))"

record ('t, 'j) search_engines =
  hs_lance :: "('t, 'j) lance"
  hs_nearest :: "'t \<Rightarrow> embedding \<Rightarrow> nat \<Rightarrow> nat \<Rightarrow> nat \<Rightarrow> (string, (string, ('j row \<times> rat) list) result list) result"
    \<comment> \<open>probes, refine factor and limit\<close>
  hs_nprobes :: "string option"
  hs_rerank :: "string option"
  hs_embed_queries :: "string list \<Rightarrow> (embedding_error, embedding list) result"
  hs_bm25 :: "string \<Rightarrow> nat \<Rightarrow> (string, (chunk_id \<times> rat) list) result"
  hs_order :: "rrf_score list \<Rightarrow> rrf_score list"

definition store_search ::
  "('t, 'j) search_engines \<Rightarrow> 't \<Rightarrow> embedding \<Rightarrow> nat \<Rightarrow> (vector_store_error, vector_hit list) result" where
  "store_search S t query_vector limit =
     and_then (get_table (hs_lance S) t) (\<lambda>_.
     and_then (knob ''RMC_VECTOR_ANN_NPROBES'' (hs_nprobes S) 40) (\<lambda>nprobes.
     and_then (knob ''RMC_VECTOR_ANN_RERANK'' (hs_rerank S) 2000) (\<lambda>rerank.
       case hs_nearest S t query_vector nprobes (refine_factor rerank limit) limit of
         Inl e \<Rightarrow> Inl (Query (''Search failed: '' @ e))
       | Inr stream \<Rightarrow>
           (case try_collect stream of
              Inl e \<Rightarrow> Inl (Query (''Failed to collect results: '' @ e))
            | Inr bs \<Rightarrow> decode_hits (hs_lance S) (concat bs)))))"

text \<open>\<open>VectorSearch::search\<close>; \<open>pop\<close> takes the last vector.\<close>

definition vector_search ::
  "('t, 'j) search_engines \<Rightarrow> 't \<Rightarrow> string \<Rightarrow> nat \<Rightarrow> (search_error, vector_hit list) result" where
  "vector_search S t query limit =
     (case hs_embed_queries S [query] of
        Inl e \<Rightarrow> Inl (SearchEmbedding e)
      | Inr vs \<Rightarrow>
          if vs = [] then Inl (SearchEmbedding NoEmbeddingGenerated)
          else (case store_search S t (last vs) limit of
                  Inl e \<Rightarrow> Inl (SearchVectorStore e)
                | Inr hits \<Rightarrow> Inr hits))"

subsection \<open>Fusion\<close>

definition new_entry :: "chunk_id \<Rightarrow> rrf_score" where
  "new_entry i = \<lparr>rs_chunk_id = i, rs_rrf_score = 0, rs_vector_score = None, rs_vector_rank = None,
     rs_bm25_score = None, rs_bm25_rank = None\<rparr>"

text \<open>\<open>1.0 / (k + (rank + 1) as f32)\<close>.\<close>

definition rrf_share :: "rat \<Rightarrow> nat \<Rightarrow> rat" where
  "rrf_share k rank = f32_div 1 (f32_add k (f32_round (of_nat (rank + 1))))"

definition take_vector :: "rat \<Rightarrow> rat \<Rightarrow> nat \<Rightarrow> rat \<Rightarrow> rrf_score \<Rightarrow> rrf_score" where
  "take_vector k weight rank score e =
     e\<lparr>rs_rrf_score := f32_add (rs_rrf_score e) (f32_mul (rrf_share k rank) weight),
       rs_vector_score := Some score, rs_vector_rank := Some (rank + 1)\<rparr>"

definition take_bm25 :: "rat \<Rightarrow> rat \<Rightarrow> nat \<Rightarrow> rat \<Rightarrow> rrf_score \<Rightarrow> rrf_score" where
  "take_bm25 k weight rank score e =
     e\<lparr>rs_rrf_score := f32_add (rs_rrf_score e) (f32_mul (rrf_share k rank) weight),
       rs_bm25_score := Some score, rs_bm25_rank := Some (rank + 1)\<rparr>"

text \<open>\<open>entry(id).or_insert(new)\<close>, then the change.\<close>

fun upsert :: "chunk_id \<Rightarrow> (rrf_score \<Rightarrow> rrf_score) \<Rightarrow> (chunk_id \<times> rrf_score) list \<Rightarrow> (chunk_id \<times> rrf_score) list" where
  "upsert i f [] = [(i, f (new_entry i))]"
| "upsert i f ((j, e) # m) = (if j = i then (j, f e) # m else (j, e) # upsert i f m)"

fun fuse_list ::
  "(nat \<Rightarrow> rat \<Rightarrow> rrf_score \<Rightarrow> rrf_score) \<Rightarrow> nat \<Rightarrow> (chunk_id \<times> rat) list \<Rightarrow> (chunk_id \<times> rrf_score) list \<Rightarrow>
   (chunk_id \<times> rrf_score) list" where
  "fuse_list g rank [] m = m"
| "fuse_list g rank ((i, score) # hits) m = fuse_list g (rank + 1) hits (upsert i (g rank score) m)"

definition reciprocal_rank_fusion_core ::
  "(rrf_score list \<Rightarrow> rrf_score list) \<Rightarrow> (chunk_id \<times> rat) list \<Rightarrow> (chunk_id \<times> rat) list \<Rightarrow> rat \<Rightarrow> rat \<Rightarrow> rat \<Rightarrow> rrf_score list" where
  "reciprocal_rank_fusion_core order vector_results bm25_results k vector_weight bm25_weight =
     sort_key (\<lambda>e. - rs_rrf_score e)
       (order (map snd (fuse_list (take_bm25 k bm25_weight) 0 bm25_results
                          (fuse_list (take_vector k vector_weight) 0 vector_results []))))"

text \<open>The chunks leave the map as they are attached; the second component counts the hits without one.\<close>

fun attach_chunks :: "rrf_score list \<Rightarrow> (chunk_id \<rightharpoonup> code_chunk) \<Rightarrow> search_result list \<times> nat" where
  "attach_chunks [] chunks = ([], 0)"
| "attach_chunks (hit # hits) chunks =
     (case chunks (rs_chunk_id hit) of
        None \<Rightarrow> (case attach_chunks hits chunks of (rs, n) \<Rightarrow> (rs, n + 1))
      | Some c \<Rightarrow>
          (case attach_chunks hits (chunks(rs_chunk_id hit := None)) of
             (rs, n) \<Rightarrow>
               (\<lparr>sr_chunk_id = rs_chunk_id hit, sr_score = rs_rrf_score hit, sr_bm25_score = rs_bm25_score hit,
                 sr_vector_score = rs_vector_score hit, sr_bm25_rank = rs_bm25_rank hit,
                 sr_vector_rank = rs_vector_rank hit, sr_chunk = c\<rparr> # rs, n)))"

definition chunks_of_hits :: "vector_hit list \<Rightarrow> chunk_id \<rightharpoonup> code_chunk" where
  "chunks_of_hits hits = map_of (rev (map (\<lambda>h. (vh_chunk_id h, vh_chunk h)) hits))"

definition search_with_k ::
  "('t, 'j) search_engines \<Rightarrow> hybrid_config \<Rightarrow> bool \<Rightarrow> 't \<Rightarrow> string \<Rightarrow> nat \<Rightarrow> rat \<Rightarrow>
   (search_error, search_result list \<times> nat) result" where
  "search_with_k S cfg has_bm25 t query limit k =
     and_then (vector_search S t query (hc_candidate_count cfg)) (\<lambda>vector_results.
     and_then (if \<not> has_bm25 then Inr []
               else case hs_bm25 S query (hc_candidate_count cfg) of Inl e \<Rightarrow> Inl (SearchBm25 e) | Inr hits \<Rightarrow> Inr hits)
       (\<lambda>bm25_results.
        let vector_hits = map (\<lambda>h. (vh_chunk_id h, vh_score h)) vector_results;
            fused = take limit (reciprocal_rank_fusion_core (hs_order S) vector_hits bm25_results k
                                  (hc_vector_weight cfg) (hc_bm25_weight cfg));
            chunks = chunks_of_hits vector_results;
            missing = filter (\<lambda>i. chunks i = None) (map rs_chunk_id fused)
        in if missing = [] then Inr (attach_chunks fused chunks)
           else case chunks_by_ids (hs_lance S) missing t of
                  Inl e \<Rightarrow> Inl (SearchVectorStore e)
                | Inr found \<Rightarrow> Inr (attach_chunks fused (chunks ++ found))))"

definition hybrid_search ::
  "('t, 'j) search_engines \<Rightarrow> hybrid_config \<Rightarrow> bool \<Rightarrow> 't \<Rightarrow> string \<Rightarrow> nat \<Rightarrow>
   (search_error, search_result list \<times> nat) result" where
  "hybrid_search S cfg has_bm25 t query limit = search_with_k S cfg has_bm25 t query limit (hc_rrf_k cfg)"

text \<open>Results of one engine alone, ranked from one.\<close>

definition vector_results :: "vector_hit list \<Rightarrow> search_result list" where
  "vector_results hits =
     map (\<lambda>(rank, h). \<lparr>sr_chunk_id = vh_chunk_id h, sr_score = vh_score h, sr_bm25_score = None,
                       sr_vector_score = Some (vh_score h), sr_bm25_rank = None, sr_vector_rank = Some (rank + 1),
                       sr_chunk = vh_chunk h\<rparr>)
       (enumerate 0 hits)"

definition vector_only_search ::
  "('t, 'j) search_engines \<Rightarrow> 't \<Rightarrow> string \<Rightarrow> nat \<Rightarrow> (search_error, search_result list) result" where
  "vector_only_search S t query limit = and_then (vector_search S t query limit) (\<lambda>hits. Inr (vector_results hits))"

definition unwrap_or :: "'a option \<Rightarrow> 'a \<Rightarrow> 'a" where
  "unwrap_or x d = (case x of None \<Rightarrow> d | Some a \<Rightarrow> a)"

definition reciprocal_rank_fusion_static ::
  "(rrf_score list \<Rightarrow> rrf_score list) \<Rightarrow> search_result list \<Rightarrow> search_result list \<Rightarrow> rat \<Rightarrow> search_result list \<times> nat" where
  "reciprocal_rank_fusion_static order bm25_results vec_results k =
     (let bm25 = map (\<lambda>r. (sr_chunk_id r, unwrap_or (sr_bm25_score r) (sr_score r))) bm25_results;
          vec = map (\<lambda>r. (sr_chunk_id r, unwrap_or (sr_vector_score r) (sr_score r))) vec_results;
          fused = reciprocal_rank_fusion_core order vec bm25 k (1 / 2) (1 / 2);
          chunks = map_of (rev (map (\<lambda>r. (sr_chunk_id r, sr_chunk r)) (bm25_results @ vec_results)))
      in attach_chunks fused chunks)"

subsection \<open>Falling back\<close>

datatype resilient_error =
    Bm25NotConfigured
  | Bm25Failed string
  | Bm25NeedsStore
  | Bm25ChunksUnreadable vector_store_error
  | StoreNotConfigured
  | EmbedderNotConfigured
  | QueryEmbeddingFailed embedding_error
  | NoQueryVector
  | VectorSearchFailed vector_store_error
  | BothFailed resilient_error resilient_error
  | AllUnavailable

record 't resilient =
  rh_bm25 :: bool
  rh_store :: "'t option"
  rh_embedder :: bool
  rh_rrf_k :: rat

fun take_bm25_hits :: "(chunk_id \<times> rat) list \<Rightarrow> (chunk_id \<rightharpoonup> code_chunk) \<Rightarrow> search_result list" where
  "take_bm25_hits [] chunks = []"
| "take_bm25_hits ((i, score) # hits) chunks =
     (case chunks i of
        None \<Rightarrow> take_bm25_hits hits chunks
      | Some c \<Rightarrow>
          \<lparr>sr_chunk_id = i, sr_score = score, sr_bm25_score = Some score, sr_vector_score = None, sr_bm25_rank = None,
            sr_vector_rank = None, sr_chunk = c\<rparr> # take_bm25_hits hits (chunks(i := None)))"

definition resilient_bm25_search ::
  "('t, 'j) search_engines \<Rightarrow> 't resilient \<Rightarrow> string \<Rightarrow> nat \<Rightarrow> (resilient_error, search_result list) result" where
  "resilient_bm25_search S R query limit =
     (if \<not> rh_bm25 R then Inl Bm25NotConfigured
      else case hs_bm25 S query limit of
             Inl e \<Rightarrow> Inl (Bm25Failed e)
           | Inr hits \<Rightarrow>
               (case rh_store R of
                  None \<Rightarrow> Inl Bm25NeedsStore
                | Some t \<Rightarrow>
                    (case chunks_by_ids (hs_lance S) (map fst hits) t of
                       Inl e \<Rightarrow> Inl (Bm25ChunksUnreadable e)
                     | Inr chunks \<Rightarrow> Inr (take_bm25_hits hits chunks))))"

definition resilient_vector_search ::
  "('t, 'j) search_engines \<Rightarrow> 't resilient \<Rightarrow> string \<Rightarrow> nat \<Rightarrow> (resilient_error, search_result list) result" where
  "resilient_vector_search S R query limit =
     (case rh_store R of
        None \<Rightarrow> Inl StoreNotConfigured
      | Some t \<Rightarrow>
          if \<not> rh_embedder R then Inl EmbedderNotConfigured
          else case hs_embed_queries S [query] of
                 Inl e \<Rightarrow> Inl (QueryEmbeddingFailed e)
               | Inr [] \<Rightarrow> Inl NoQueryVector
               | Inr (v # _) \<Rightarrow>
                   (case store_search S t v limit of
                      Inl e \<Rightarrow> Inl (VectorSearchFailed e)
                    | Inr hits \<Rightarrow> Inr (vector_results hits)))"

definition try_hybrid_search ::
  "('t, 'j) search_engines \<Rightarrow> 't resilient \<Rightarrow> string \<Rightarrow> nat \<Rightarrow> (resilient_error, search_result list) result" where
  "try_hybrid_search S R query limit =
     (case (resilient_bm25_search S R query limit, resilient_vector_search S R query limit) of
        (Inr b, Inr v) \<Rightarrow> Inr (fst (reciprocal_rank_fusion_static (hs_order S) b v (rh_rrf_k R)))
      | (Inr b, Inl _) \<Rightarrow> Inr b
      | (Inl _, Inr v) \<Rightarrow> Inr v
      | (Inl b, Inl v) \<Rightarrow> Inl (BothFailed b v))"

definition fallback_search ::
  "('t, 'j) search_engines \<Rightarrow> 't resilient \<Rightarrow> string \<Rightarrow> nat \<Rightarrow> (resilient_error, search_result list) result" where
  "fallback_search S R query limit =
     (case resilient_bm25_search S R query limit of
        Inr rs \<Rightarrow> Inr rs
      | Inl _ \<Rightarrow>
          (case resilient_vector_search S R query limit of
             Inr rs \<Rightarrow> Inr rs
           | Inl _ \<Rightarrow> Inl AllUnavailable))"

text \<open>The answer with the fallback flag that it leaves behind. The engines of the second try are given on their own:
  between the two they may have come up or gone down.\<close>

definition resilient_search ::
  "('t, 'j) search_engines \<Rightarrow> ('t, 'j) search_engines \<Rightarrow> 't resilient \<Rightarrow> string \<Rightarrow> nat \<Rightarrow>
   (resilient_error, search_result list) result \<times> bool" where
  "resilient_search S S' R query limit =
     (case try_hybrid_search S R query limit of
        Inr rs \<Rightarrow> (Inr rs, False)
      | Inl _ \<Rightarrow> (fallback_search S' R query limit, True))"

subsection \<open>The map of scores\<close>

fun hit_position :: "chunk_id \<Rightarrow> (chunk_id \<times> rat) list \<Rightarrow> nat option" where
  "hit_position i [] = None"
| "hit_position i ((j, s) # hits) = (if j = i then Some 0 else map_option Suc (hit_position i hits))"

lemma hit_position_None: "hit_position i hits = None \<longleftrightarrow> i \<notin> fst ` set hits"
  by (induction hits) (auto split: if_splits)

lemma hit_position_Some: "hit_position i hits = Some n \<Longrightarrow> n < length hits \<and> fst (hits ! n) = i"
  by (induction hits arbitrary: n) (auto split: if_splits)

lemma hit_position_nth: "distinct (map fst hits) \<Longrightarrow> n < length hits \<Longrightarrow> hit_position (fst (hits ! n)) hits = Some n"
proof (induction hits arbitrary: n)
  case (Cons h hits)
  obtain j s where h: "h = (j, s)" by fastforce
  show ?case
  proof (cases n)
    case (Suc m)
    with Cons.prems have "fst (hits ! m) \<in> fst ` set hits" by simp
    with Cons Suc show ?thesis by (auto simp: h)
  qed (simp add: h)
qed simp

lemma map_of_upsert:
  "map_of (upsert i f m) j = (if j = i then Some (f (case map_of m i of None \<Rightarrow> new_entry i | Some e \<Rightarrow> e)) else map_of m j)"
  by (induction m) auto

lemma keys_upsert: "fst ` set (upsert i f m) = insert i (fst ` set m)"
proof (induction m)
  case (Cons x m)
  then show ?case by (cases x; cases "fst x = i") (simp_all add: insert_commute)
qed simp

lemma distinct_upsert: "distinct (map fst m) \<Longrightarrow> distinct (map fst (upsert i f m))"
proof (induction m)
  case (Cons x m)
  then show ?case using keys_upsert[of i f m] by (cases x) auto
qed simp

lemma distinct_fuse_list: "distinct (map fst m) \<Longrightarrow> distinct (map fst (fuse_list g r hits m))"
  by (induction hits arbitrary: r m) (auto simp: distinct_upsert)

lemma keys_fuse_list: "fst ` set (fuse_list g r hits m) = fst ` set hits \<union> fst ` set m"
proof (induction hits arbitrary: r m)
  case (Cons h hits)
  then show ?case by (cases h) (simp add: keys_upsert)
qed simp

lemma map_of_fuse_list:
  assumes "distinct (map fst hits)"
  shows "map_of (fuse_list g r hits m) i =
    (case hit_position i hits of
       None \<Rightarrow> map_of m i
     | Some n \<Rightarrow> Some (g (r + n) (snd (hits ! n)) (case map_of m i of None \<Rightarrow> new_entry i | Some e \<Rightarrow> e)))"
  using assms
proof (induction hits arbitrary: r m)
  case (Cons h hits)
  obtain j s where h: "h = (j, s)" by fastforce
  with Cons.prems have d: "distinct (map fst hits)" "j \<notin> fst ` set hits" by auto
  note IH = Cons.IH[OF d(1), of "r + 1" "upsert j (g r s) m"]
  show ?case
  proof (cases "j = i")
    case True
    then have "hit_position i hits = None" using d(2) by (simp add: hit_position_None)
    with True show ?thesis using IH by (simp add: h map_of_upsert)
  next
    case False
    then show ?thesis using IH by (simp add: h map_of_upsert split: option.splits)
  qed
qed simp

text \<open>The entry of an identifier, from its positions in the two lists.\<close>

definition fused_entry ::
  "(chunk_id \<times> rat) list \<Rightarrow> (chunk_id \<times> rat) list \<Rightarrow> rat \<Rightarrow> rat \<Rightarrow> rat \<Rightarrow> chunk_id \<Rightarrow> rrf_score" where
  "fused_entry vec bm25 k vw bw i =
     (let e = (case hit_position i vec of None \<Rightarrow> new_entry i | Some n \<Rightarrow> take_vector k vw n (snd (vec ! n)) (new_entry i)) in
      case hit_position i bm25 of None \<Rightarrow> e | Some n \<Rightarrow> take_bm25 k bw n (snd (bm25 ! n)) e)"

lemma rs_chunk_id_fused [simp]: "rs_chunk_id (fused_entry vec bm25 k vw bw i) = i"
  by (simp add: fused_entry_def Let_def take_vector_def take_bm25_def new_entry_def split: option.splits)

lemma fused_map:
  fixes k vw bw :: rat
  assumes "distinct (map fst vec)" "distinct (map fst bm25)"
  defines "m \<equiv> fuse_list (take_bm25 k bw) 0 bm25 (fuse_list (take_vector k vw) 0 vec [])"
  shows "distinct (map fst m)" "fst ` set m = fst ` set vec \<union> fst ` set bm25"
    and "(i, e) \<in> set m \<Longrightarrow> e = fused_entry vec bm25 k vw bw i"
proof -
  show d: "distinct (map fst m)" unfolding m_def by (intro distinct_fuse_list) simp
  show "fst ` set m = fst ` set vec \<union> fst ` set bm25" unfolding m_def by (auto simp: keys_fuse_list)
  assume "(i, e) \<in> set m"
  with d have i: "map_of m i = Some e" by simp
  show "e = fused_entry vec bm25 k vw bw i"
  proof (cases "hit_position i vec")
    case None
    then show ?thesis using i unfolding m_def map_of_fuse_list[OF assms(2)] map_of_fuse_list[OF assms(1)]
      by (simp add: fused_entry_def split: option.splits)
  next
    case (Some n)
    then show ?thesis using i unfolding m_def map_of_fuse_list[OF assms(2)] map_of_fuse_list[OF assms(1)]
      by (simp add: fused_entry_def split: option.splits)
  qed
qed

lemma core_entries:
  assumes "distinct (map fst vec)" "distinct (map fst bm25)" "\<And>xs. mset (order xs) = mset xs"
  shows "mset (reciprocal_rank_fusion_core order vec bm25 k vw bw) =
    image_mset (fused_entry vec bm25 k vw bw) (mset_set (fst ` set vec \<union> fst ` set bm25))"
proof -
  define m where "m = fuse_list (take_bm25 k bw) 0 bm25 (fuse_list (take_vector k vw) 0 vec [])"
  note f = fused_map[OF assms(1,2), where k = k and bw = bw and vw = vw, folded m_def]
  have "map snd m = map (\<lambda>i. fused_entry vec bm25 k vw bw i) (map fst m)" using f(3) by (auto simp: comp_def)
  then have "mset (map snd m) = image_mset (fused_entry vec bm25 k vw bw) (mset (map fst m))" by (metis mset_map)
  also have "mset (map fst m) = mset_set (fst ` set m)" using f(1) by (metis mset_set_set set_map)
  finally show ?thesis using f(2) assms(3) by (simp add: reciprocal_rank_fusion_core_def m_def[symmetric])
qed

lemma core_facts:
  fixes k vw bw :: rat
  assumes "distinct (map fst vec)" "distinct (map fst bm25)" "\<And>xs. mset (order xs) = mset xs"
  defines "R \<equiv> reciprocal_rank_fusion_core order vec bm25 k vw bw"
  shows "distinct (map rs_chunk_id R)" "rs_chunk_id ` set R = fst ` set vec \<union> fst ` set bm25"
    "\<forall>e \<in> set R. e = fused_entry vec bm25 k vw bw (rs_chunk_id e)" "sorted_wrt (\<lambda>a b. rs_rrf_score b \<le> rs_rrf_score a) R"
proof -
  let ?I = "fst ` set vec \<union> fst ` set bm25"
  have m: "mset R = image_mset (fused_entry vec bm25 k vw bw) (mset_set ?I)" unfolding R_def by (rule core_entries[OF assms(1-3)])
  then have "mset (map rs_chunk_id R) = mset_set ?I" by (simp add: image_mset.compositionality comp_def)
  then have ids: "mset (map rs_chunk_id R) = mset (sorted_list_of_set ?I)" by (metis mset_sorted_list_of_multiset sorted_list_of_mset_set)
  then show "distinct (map rs_chunk_id R)" using mset_eq_imp_distinct_iff[OF ids] by simp
  show "rs_chunk_id ` set R = ?I" using mset_eq_setD[OF ids] by simp
  have "set R = fused_entry vec bm25 k vw bw ` ?I" using arg_cong[OF m, of set_mset] by simp
  then show "\<forall>e \<in> set R. e = fused_entry vec bm25 k vw bw (rs_chunk_id e)" by auto
  have "sorted (map (\<lambda>e. - rs_rrf_score e) R)" unfolding R_def reciprocal_rank_fusion_core_def by (rule sorted_sort_key)
  then show "sorted_wrt (\<lambda>a b. rs_rrf_score b \<le> rs_rrf_score a) R" by (simp add: sorted_map)
qed

subsection \<open>Scores\<close>

text \<open>What a position contributes, and when one position is at least as good as another.\<close>

definition add_share :: "rat \<Rightarrow> rat \<Rightarrow> nat option \<Rightarrow> rat \<Rightarrow> rat" where
  "add_share k w pos s = (case pos of None \<Rightarrow> s | Some n \<Rightarrow> f32_add s (f32_mul (rrf_share k n) w))"

fun no_worse :: "nat option \<Rightarrow> nat option \<Rightarrow> bool" where
  "no_worse (Some m) (Some n) = (m \<le> n)"
| "no_worse _ None = True"
| "no_worse None (Some _) = False"

lemma fused_score:
  "rs_rrf_score (fused_entry vec bm25 k vw bw i) = add_share k bw (hit_position i bm25) (add_share k vw (hit_position i vec) 0)"
  by (simp add: fused_entry_def Let_def add_share_def take_vector_def take_bm25_def new_entry_def split: option.splits)

lemma f32_one: "f32_round 1 = 1"
  using f32_round_nat[of 1] by simp

lemma rrf_divisor: "0 \<le> k \<Longrightarrow> 1 \<le> f32_add k (f32_round (of_nat (n + 1)))"
proof -
  assume k: "0 \<le> k"
  have "f32_round 1 \<le> f32_round (of_nat (n + 1))" by (rule f32_round_mono) simp_all
  then have "1 \<le> k + f32_round (of_nat (n + 1))" using k by (simp add: f32_one)
  then have "f32_round 1 \<le> f32_round (k + f32_round (of_nat (n + 1)))" by (intro f32_round_mono) simp_all
  then show ?thesis by (simp only: f32_one f32_add_def)
qed

lemma rrf_share_nonneg: "0 \<le> k \<Longrightarrow> 0 \<le> rrf_share k n"
  using rrf_divisor[of k n] by (simp add: rrf_share_def f32_div_def f32_round_nonneg)

lemma rrf_share_antimono:
  assumes "0 \<le> k" "m \<le> n"
  shows "rrf_share k n \<le> rrf_share k m"
proof -
  have "f32_round (of_nat (m + 1)) \<le> f32_round (of_nat (n + 1))" using assms(2) by (intro f32_round_mono) simp_all
  moreover have "0 \<le> f32_round (of_nat (m + 1))" by (rule f32_round_nonneg) simp
  ultimately have "f32_add k (f32_round (of_nat (m + 1))) \<le> f32_add k (f32_round (of_nat (n + 1)))"
    unfolding f32_add_def using assms(1) by (intro f32_round_mono) simp_all
  then have "1 / f32_add k (f32_round (of_nat (n + 1))) \<le> 1 / f32_add k (f32_round (of_nat (m + 1)))"
    using rrf_divisor[OF assms(1), of m] by (intro divide_left_mono) simp_all
  then show ?thesis
    unfolding rrf_share_def f32_div_def using rrf_divisor[OF assms(1), of n] by (intro f32_round_mono) simp_all
qed

lemma add_share_nonneg: "0 \<le> k \<Longrightarrow> 0 \<le> w \<Longrightarrow> 0 \<le> s \<Longrightarrow> 0 \<le> add_share k w pos s"
  by (auto simp: add_share_def f32_add_def f32_mul_def rrf_share_nonneg f32_round_nonneg split: option.splits)

lemma add_share_float: "0 \<le> k \<Longrightarrow> 0 \<le> w \<Longrightarrow> 0 \<le> s \<Longrightarrow> f32_round s = s \<Longrightarrow> f32_round (add_share k w pos s) = add_share k w pos s"
  by (auto simp: add_share_def f32_add_def f32_mul_def rrf_share_nonneg f32_round_nonneg f32_round_idem split: option.splits)

lemma add_share_mono:
  assumes "0 \<le> k" "0 \<le> w" "0 \<le> s" "s \<le> s'" "f32_round s = s" "no_worse pos' pos"
  shows "add_share k w pos s \<le> add_share k w pos' s'"
proof -
  have gain: "0 \<le> f32_mul (rrf_share k n) w" for n using assms(1,2) by (simp add: f32_mul_def rrf_share_nonneg f32_round_nonneg)
  consider "pos = None" "pos' = None" | n where "pos = None" "pos' = Some n" | m n where "pos = Some n" "pos' = Some m" "m \<le> n"
    using assms(6) by (cases pos; cases pos') auto
  then show ?thesis
  proof cases
    case 1
    then show ?thesis using assms(4) by (simp add: add_share_def)
  next
    case 2
    have "f32_round s \<le> f32_round (s' + f32_mul (rrf_share k n) w)"
      using assms(3,4) gain[of n] by (intro f32_round_mono) simp_all
    then show ?thesis using 2 assms(5) by (simp add: add_share_def f32_add_def)
  next
    case 3
    have "f32_mul (rrf_share k n) w \<le> f32_mul (rrf_share k m) w"
      unfolding f32_mul_def using rrf_share_antimono[OF assms(1) 3(3)] rrf_share_nonneg[OF assms(1), of n] assms(2)
      by (intro f32_round_mono mult_right_mono mult_nonneg_nonneg)
    then show ?thesis using 3 assms(3,4) gain[of n] by (auto simp: add_share_def f32_add_def intro!: f32_round_mono)
  qed
qed

subsection \<open>Attached chunks\<close>

definition result_of :: "(chunk_id \<rightharpoonup> code_chunk) \<Rightarrow> rrf_score \<Rightarrow> search_result" where
  "result_of chunks hit =
     \<lparr>sr_chunk_id = rs_chunk_id hit, sr_score = rs_rrf_score hit, sr_bm25_score = rs_bm25_score hit,
      sr_vector_score = rs_vector_score hit, sr_bm25_rank = rs_bm25_rank hit, sr_vector_rank = rs_vector_rank hit,
      sr_chunk = the (chunks (rs_chunk_id hit))\<rparr>"

lemma attach_chunks_eq:
  "distinct (map rs_chunk_id hits) \<Longrightarrow>
   attach_chunks hits chunks =
     (map (result_of chunks) (filter (\<lambda>h. chunks (rs_chunk_id h) \<noteq> None) hits), length (filter (\<lambda>h. chunks (rs_chunk_id h) = None) hits))"
proof (induction hits arbitrary: chunks)
  case (Cons hit hits)
  have other: "rs_chunk_id h \<noteq> rs_chunk_id hit" if "h \<in> set hits" for h
    using Cons.prems that by (metis distinct.simps(2) image_eqI list.simps(9) set_map)
  let ?C = "chunks(rs_chunk_id hit := None)" and ?some = "\<lambda>h. chunks (rs_chunk_id h) \<noteq> None"
  have d: "distinct (map rs_chunk_id hits)" using Cons.prems by simp
  have "filter (\<lambda>h. ?C (rs_chunk_id h) \<noteq> None) hits = filter ?some hits"
    "filter (\<lambda>h. ?C (rs_chunk_id h) = None) hits = filter (\<lambda>h. chunks (rs_chunk_id h) = None) hits"
    by (rule filter_cong; simp add: other)+
  moreover have "map (result_of ?C) (filter ?some hits) = map (result_of chunks) (filter ?some hits)"
    by (simp add: result_of_def other)
  ultimately have "attach_chunks hits ?C =
      (map (result_of chunks) (filter ?some hits), length (filter (\<lambda>h. chunks (rs_chunk_id h) = None) hits))"
    using Cons.IH[OF d, of ?C] by (simp only:)
  then show ?case using Cons.IH[OF d, of chunks]
    by (cases "chunks (rs_chunk_id hit)") (simp_all add: result_of_def del: fun_upd_apply)
qed simp

lemma attach_chunks_facts:
  assumes "distinct (map rs_chunk_id hits)" "attach_chunks hits chunks = (rs, n)"
  shows "length rs + n = length hits" "distinct (map sr_chunk_id rs)"
    "\<And>r. r \<in> set rs \<Longrightarrow> chunks (sr_chunk_id r) = Some (sr_chunk r) \<and> (\<exists>h \<in> set hits. r = result_of chunks h)"
    "sorted_wrt (\<lambda>a b. rs_rrf_score b \<le> rs_rrf_score a) hits \<Longrightarrow> sorted_wrt (\<lambda>a b. sr_score b \<le> sr_score a) rs"
proof -
  note eq = attach_chunks_eq[OF assms(1), of chunks, unfolded assms(2)]
  show "length rs + n = length hits" using eq sum_length_filter_compl[of "\<lambda>h. chunks (rs_chunk_id h) \<noteq> None" hits] by simp
  have "map sr_chunk_id rs = map rs_chunk_id (filter (\<lambda>h. chunks (rs_chunk_id h) \<noteq> None) hits)" using eq by (simp add: result_of_def)
  then show "distinct (map sr_chunk_id rs)" using assms(1) by (simp add: distinct_map_filter)
  show "chunks (sr_chunk_id r) = Some (sr_chunk r) \<and> (\<exists>h \<in> set hits. r = result_of chunks h)" if "r \<in> set rs" for r
    using that eq by (auto simp: result_of_def)
  show "sorted_wrt (\<lambda>a b. sr_score b \<le> sr_score a) rs" if "sorted_wrt (\<lambda>a b. rs_rrf_score b \<le> rs_rrf_score a) hits"
    using that eq by (simp add: sorted_wrt_map sorted_wrt_filter result_of_def)
qed

lemma search_with_k_Inr:
  assumes "search_with_k S cfg has_bm25 t query limit k = Inr (rs, n)"
  obtains vs bm25 chunks where "vector_search S t query (hc_candidate_count cfg) = Inr vs"
    "bm25 = (if has_bm25 then projr (hs_bm25 S query (hc_candidate_count cfg)) else [])"
    "attach_chunks (take limit (reciprocal_rank_fusion_core (hs_order S) (map (\<lambda>h. (vh_chunk_id h, vh_score h)) vs) bm25 k
       (hc_vector_weight cfg) (hc_bm25_weight cfg))) chunks = (rs, n)"
    "\<And>i c. chunks i = Some c \<Longrightarrow> (\<exists>h \<in> set vs. vh_chunk_id h = i \<and> vh_chunk h = c) \<or>
       (\<exists>is m. chunks_by_ids (hs_lance S) is t = Inr m \<and> m i = Some c)"
    "\<And>i. i \<in> vh_chunk_id ` set vs \<Longrightarrow> chunks i \<noteq> None"
    "\<And>i. i \<in> rs_chunk_id ` set (take limit (reciprocal_rank_fusion_core (hs_order S) (map (\<lambda>h. (vh_chunk_id h, vh_score h)) vs) bm25 k
       (hc_vector_weight cfg) (hc_bm25_weight cfg))) \<Longrightarrow> chunks i = None \<Longrightarrow>
       \<exists>is m. i \<in> set is \<and> chunks_by_ids (hs_lance S) is t = Inr m \<and> m i = None"
proof -
  obtain vs where vs: "vector_search S t query (hc_candidate_count cfg) = Inr vs"
    using assms by (auto simp: search_with_k_def and_then_Inr)
  define bm25 where "bm25 = (if has_bm25 then projr (hs_bm25 S query (hc_candidate_count cfg)) else [])"
  let ?fused = "take limit (reciprocal_rank_fusion_core (hs_order S) (map (\<lambda>h. (vh_chunk_id h, vh_score h)) vs) bm25 k
       (hc_vector_weight cfg) (hc_bm25_weight cfg))"
  let ?missing = "filter (\<lambda>i. chunks_of_hits vs i = None) (map rs_chunk_id ?fused)"
  have own: "\<exists>h \<in> set vs. vh_chunk_id h = i \<and> vh_chunk h = c" if "chunks_of_hits vs i = Some c" for i c
    using map_of_SomeD[OF that[unfolded chunks_of_hits_def]] by auto
  have hit: "chunks_of_hits vs i \<noteq> None" if "i \<in> vh_chunk_id ` set vs" for i
    using that by (auto simp: chunks_of_hits_def map_of_eq_None_iff image_iff)
  have run: "(if ?missing = [] then Inr (attach_chunks ?fused (chunks_of_hits vs))
      else case chunks_by_ids (hs_lance S) ?missing t of Inl e \<Rightarrow> Inl (SearchVectorStore e)
           | Inr found \<Rightarrow> Inr (attach_chunks ?fused (chunks_of_hits vs ++ found))) = Inr (rs, n)"
  proof -
    from assms obtain b where b: "(if \<not> has_bm25 then Inr []
        else case hs_bm25 S query (hc_candidate_count cfg) of Inl e \<Rightarrow> Inl (SearchBm25 e) | Inr hits \<Rightarrow> Inr hits) = Inr b"
      and body: "(let vector_hits = map (\<lambda>h. (vh_chunk_id h, vh_score h)) vs;
            fused = take limit (reciprocal_rank_fusion_core (hs_order S) vector_hits b k (hc_vector_weight cfg) (hc_bm25_weight cfg));
            chunks = chunks_of_hits vs;
            missing = filter (\<lambda>i. chunks i = None) (map rs_chunk_id fused)
        in if missing = [] then Inr (attach_chunks fused chunks)
           else case chunks_by_ids (hs_lance S) missing t of
                  Inl e \<Rightarrow> Inl (SearchVectorStore e)
                | Inr found \<Rightarrow> Inr (attach_chunks fused (chunks ++ found))) = Inr (rs, n)"
      unfolding search_with_k_def vs and_then_simps and_then_Inr by blast
    have "b = bm25" using b by (cases has_bm25; cases "hs_bm25 S query (hc_candidate_count cfg)") (simp_all add: bm25_def)
    with body show ?thesis by (simp only: Let_def)
  qed
  show thesis
  proof (cases "?missing = []")
    case True
    then have all: "attach_chunks ?fused (chunks_of_hits vs) = (rs, n)" using run by simp
    show thesis
    proof (rule that[OF vs bm25_def all])
      show "(\<exists>h \<in> set vs. vh_chunk_id h = i \<and> vh_chunk h = c) \<or> (\<exists>is m. chunks_by_ids (hs_lance S) is t = Inr m \<and> m i = Some c)"
        if "chunks_of_hits vs i = Some c" for i c using own[OF that] by blast
      show "chunks_of_hits vs i \<noteq> None" if "i \<in> vh_chunk_id ` set vs" for i by (rule hit[OF that])
      show "\<exists>is m. i \<in> set is \<and> chunks_by_ids (hs_lance S) is t = Inr m \<and> m i = None"
        if "i \<in> rs_chunk_id ` set ?fused" "chunks_of_hits vs i = None" for i
        using True that by (auto simp: filter_empty_conv)
    qed
  next
    case False
    then obtain found where found: "chunks_by_ids (hs_lance S) ?missing t = Inr found"
      "attach_chunks ?fused (chunks_of_hits vs ++ found) = (rs, n)"
      using run by (auto split: sum.splits)
    have "(\<exists>h \<in> set vs. vh_chunk_id h = i \<and> vh_chunk h = c) \<or> (\<exists>is m. chunks_by_ids (hs_lance S) is t = Inr m \<and> m i = Some c)"
      if "(chunks_of_hits vs ++ found) i = Some c" for i c
      using that own found(1) by (auto simp: map_add_Some_iff)
    moreover have "(chunks_of_hits vs ++ found) i \<noteq> None" if "i \<in> vh_chunk_id ` set vs" for i
      using hit[OF that] by (auto simp: map_add_None)
    moreover have "\<exists>is m. i \<in> set is \<and> chunks_by_ids (hs_lance S) is t = Inr m \<and> m i = None"
      if "i \<in> rs_chunk_id ` set ?fused" "(chunks_of_hits vs ++ found) i = None" for i
    proof -
      have "found i = None" "i \<in> set ?missing" using that by (auto simp: map_add_None)
      then show ?thesis using found(1) by blast
    qed
    ultimately show thesis by (rule that[OF vs bm25_def found(2)])
  qed
qed

subsection \<open>Properties of the search\<close>

text \<open>C23: The fusion by reciprocal rank. When neither engine names a chunk twice, the fused list names every chunk of
  the two lists exactly once, whatever the order of the hash map; its score is the sum, in the arithmetic of the code,
  of the weighted reciprocals of its ranks, which are recorded with the raw scores; and the list is sorted, best first.\<close>

theorem fusion_is_exact:
  assumes "distinct (map fst vec)" and "distinct (map fst bm25)" and "\<And>xs. mset (order xs) = mset xs"
    and "reciprocal_rank_fusion_core order vec bm25 k vw bw = R"
  shows "distinct (map rs_chunk_id R) \<and> set (map rs_chunk_id R) = fst ` set vec \<union> fst ` set bm25 \<and>
    sorted_wrt (\<lambda>a b. rs_rrf_score b \<le> rs_rrf_score a) R \<and>
    (\<forall>e \<in> set R. \<forall>i. i = rs_chunk_id e \<longrightarrow>
       rs_rrf_score e = add_share k bw (hit_position i bm25) (add_share k vw (hit_position i vec) 0) \<and>
       rs_vector_rank e = map_option Suc (hit_position i vec) \<and> rs_bm25_rank e = map_option Suc (hit_position i bm25))"
proof -
  note f = core_facts[OF assms(1-3), where k = k and vw = vw and bw = bw, unfolded assms(4)]
  have "rs_vector_rank (fused_entry vec bm25 k vw bw i) = map_option Suc (hit_position i vec)"
    "rs_bm25_rank (fused_entry vec bm25 k vw bw i) = map_option Suc (hit_position i bm25)" for i
    by (simp_all add: fused_entry_def Let_def take_vector_def take_bm25_def new_entry_def split: option.splits)
  with f fused_score show ?thesis by (metis (no_types, lifting) set_map)
qed

text \<open>The order of the fused list respects the engines. If a chunk is ranked no worse than another by both engines,
  absence being the worst rank, then its fused score is no lower, for a non-negative \<open>k\<close> and non-negative weights:
  rounding never turns the order of two such chunks around.\<close>

theorem fusion_respects_both_engines:
  assumes "distinct (map fst vec)" and "distinct (map fst bm25)" and "\<And>xs. mset (order xs) = mset xs"
    and "reciprocal_rank_fusion_core order vec bm25 k vw bw = R" and "0 \<le> k" and "0 \<le> vw" and "0 \<le> bw"
    and "a \<in> set R" and "b \<in> set R"
    and "no_worse (hit_position (rs_chunk_id a) vec) (hit_position (rs_chunk_id b) vec)"
    and "no_worse (hit_position (rs_chunk_id a) bm25) (hit_position (rs_chunk_id b) bm25)"
  shows "rs_rrf_score b \<le> rs_rrf_score a"
proof -
  note f = core_facts(3)[OF assms(1-3), where k = k and vw = vw and bw = bw, unfolded assms(4)]
  have score: "rs_rrf_score e = add_share k bw (hit_position (rs_chunk_id e) bm25) (add_share k vw (hit_position (rs_chunk_id e) vec) 0)"
    if "e \<in> set R" for e using f that fused_score by metis
  have z: "f32_round 0 = 0" by (simp add: f32_round_def)
  have "add_share k vw (hit_position (rs_chunk_id b) vec) 0 \<le> add_share k vw (hit_position (rs_chunk_id a) vec) 0"
    by (rule add_share_mono[OF assms(5,6) _ _ z assms(10)]) simp_all
  moreover have "0 \<le> add_share k vw (hit_position (rs_chunk_id b) vec) 0" using assms(5,6) by (simp add: add_share_nonneg)
  moreover have "f32_round (add_share k vw (hit_position (rs_chunk_id b) vec) 0) = add_share k vw (hit_position (rs_chunk_id b) vec) 0"
    by (rule add_share_float[OF assms(5,6) _ z]) simp
  ultimately show ?thesis unfolding score[OF assms(8)] score[OF assms(9)]
    using add_share_mono[OF assms(5,7) _ _ _ assms(11)] by blast
qed

text \<open>The score of a chunk, from its positions in the two lists; the best of them, for a number of places: distinct chunks of
  the two lists, as many as there are places for, best first, with no better chunk left out.\<close>

definition combined_score :: "hybrid_config \<Rightarrow> rat \<Rightarrow> (chunk_id \<times> rat) list \<Rightarrow> (chunk_id \<times> rat) list \<Rightarrow> chunk_id \<Rightarrow> rat" where
  "combined_score cfg k vec bm25 i =
     add_share k (hc_bm25_weight cfg) (hit_position i bm25) (add_share k (hc_vector_weight cfg) (hit_position i vec) 0)"

definition best_of :: "nat \<Rightarrow> (chunk_id \<Rightarrow> rat) \<Rightarrow> chunk_id set \<Rightarrow> chunk_id list \<Rightarrow> bool" where
  "best_of limit score U best \<longleftrightarrow>
     distinct best \<and> set best \<subseteq> U \<and> length best = min limit (card U) \<and>
     sorted_wrt (\<lambda>i j. score j \<le> score i) best \<and> (\<forall>i \<in> set best. \<forall>j \<in> U - set best. score j \<le> score i)"

lemma take_is_best:
  assumes "distinct xs" "sorted_wrt (\<lambda>i j. score j \<le> score i) xs"
  shows "best_of limit score (set xs) (take limit xs)"
proof -
  have "score j \<le> score i" if "i \<in> set (take limit xs)" "j \<in> set xs - set (take limit xs)" for i j
  proof -
    have "j \<in> set (drop limit xs)" using that(2) by (metis Diff_iff Un_iff append_take_drop_id set_append)
    then show ?thesis using that(1) assms(2) by (metis append_take_drop_id sorted_wrt_append)
  qed
  then show ?thesis using assms by (auto simp: best_of_def distinct_card sorted_wrt_take dest: in_set_takeD)
qed

lemma core_is_best:
  assumes "distinct (map fst vec)" "distinct (map fst bm25)" "\<And>xs. mset (order xs) = mset xs"
  shows "best_of limit (combined_score cfg k vec bm25) (fst ` set vec \<union> fst ` set bm25)
    (map rs_chunk_id (take limit (reciprocal_rank_fusion_core order vec bm25 k (hc_vector_weight cfg) (hc_bm25_weight cfg))))"
proof -
  note f = core_facts[OF assms, where k = k and vw = "hc_vector_weight cfg" and bw = "hc_bm25_weight cfg"]
  let ?R = "reciprocal_rank_fusion_core order vec bm25 k (hc_vector_weight cfg) (hc_bm25_weight cfg)"
  have "sorted_wrt (\<lambda>i j. combined_score cfg k vec bm25 j \<le> combined_score cfg k vec bm25 i) (map rs_chunk_id ?R)"
    unfolding sorted_wrt_map combined_score_def fused_score[symmetric]
    by (rule sorted_wrt_mono_rel[OF _ f(4)]) (metis f(3))
  then show ?thesis using take_is_best[OF f(1)] f(2) by (simp add: take_map)
qed

text \<open>C30: The answer of a hybrid search. With engines that name no chunk twice, there is a list of the \<open>limit\<close> best chunks of
  the union of the two lists, or of all of them, by their combined score, best first, such that the answer is exactly the chunks of
  this list whose text is at hand - from their vector hit, or stored under their identifier - in the order of the list, each with
  its score and its own text; the others are counted as dropped.\<close>

theorem hybrid_answer_is_the_best_of_both:
  assumes "lance_table (hs_lance S) vdim rows" and "lance_table.inv (hs_lance S) rows t"
    and "search_with_k S cfg has_bm25 t query limit k = Inr (rs, dropped)"
    and "vector_search S t query (hc_candidate_count cfg) = Inr vs" and "distinct (map vh_chunk_id vs)"
    and "bm25 = (if has_bm25 then projr (hs_bm25 S query (hc_candidate_count cfg)) else [])" and "distinct (map fst bm25)"
    and "\<And>xs. mset (hs_order S xs) = mset xs"
    and "score = combined_score cfg k (map (\<lambda>h. (vh_chunk_id h, vh_score h)) vs) bm25"
    and "known = vh_chunk_id ` set vs \<union> {i. \<exists>e c. (i, e, c) \<in># lance_table.view (hs_lance S) rows t}"
  shows "\<exists>best. best_of limit score (vh_chunk_id ` set vs \<union> fst ` set bm25) best \<and>
    map sr_chunk_id rs = filter (\<lambda>i. i \<in> known) best \<and> dropped = length (filter (\<lambda>i. i \<notin> known) best) \<and>
    (\<forall>r \<in> set rs. sr_score r = score (sr_chunk_id r) \<and>
       ((\<exists>h \<in> set vs. vh_chunk_id h = sr_chunk_id r \<and> vh_chunk h = sr_chunk r) \<or>
        (\<exists>e. (sr_chunk_id r, e, sr_chunk r) \<in># lance_table.view (hs_lance S) rows t)))"
proof -
  let ?vec = "map (\<lambda>h. (vh_chunk_id h, vh_score h)) vs"
  let ?R = "reciprocal_rank_fusion_core (hs_order S) ?vec bm25 k (hc_vector_weight cfg) (hc_bm25_weight cfg)"
  let ?best = "map rs_chunk_id (take limit ?R)"
  obtain vs' bm25' chunks where parts: "vector_search S t query (hc_candidate_count cfg) = Inr vs'"
      "bm25' = (if has_bm25 then projr (hs_bm25 S query (hc_candidate_count cfg)) else [])"
    and run': "attach_chunks (take limit (reciprocal_rank_fusion_core (hs_order S) (map (\<lambda>h. (vh_chunk_id h, vh_score h)) vs') bm25' k
       (hc_vector_weight cfg) (hc_bm25_weight cfg))) chunks = (rs, dropped)"
    and src': "\<And>i c. chunks i = Some c \<Longrightarrow> (\<exists>h \<in> set vs'. vh_chunk_id h = i \<and> vh_chunk h = c) \<or>
       (\<exists>is m. chunks_by_ids (hs_lance S) is t = Inr m \<and> m i = Some c)"
    and hit': "\<And>i. i \<in> vh_chunk_id ` set vs' \<Longrightarrow> chunks i \<noteq> None"
    and miss': "\<And>i. i \<in> rs_chunk_id ` set (take limit (reciprocal_rank_fusion_core (hs_order S) (map (\<lambda>h. (vh_chunk_id h, vh_score h)) vs')
       bm25' k (hc_vector_weight cfg) (hc_bm25_weight cfg))) \<Longrightarrow> chunks i = None \<Longrightarrow>
       \<exists>is m. i \<in> set is \<and> chunks_by_ids (hs_lance S) is t = Inr m \<and> m i = None"
    by (rule search_with_k_Inr[OF assms(3)]) (rule that)
  have "vs' = vs" "bm25' = bm25" using parts assms(4,6) by simp_all
  note run = run'[unfolded this] and src = src'[unfolded this] and hit = hit'[unfolded this] and miss = miss'[unfolded this]
  have vec: "distinct (map fst ?vec)" "fst ` set ?vec = vh_chunk_id ` set vs" using assms(5) by (simp_all add: comp_def image_image)
  note f = core_facts[OF vec(1) assms(7,8), where k = k and vw = "hc_vector_weight cfg" and bw = "hc_bm25_weight cfg"]
  have d: "distinct ?best" using f(1) by (simp add: take_map[symmetric])
  have at_hand: "chunks i \<noteq> None \<longleftrightarrow> i \<in> known" if "i \<in> set ?best" for i
  proof
    assume "chunks i \<noteq> None"
    then obtain c where "chunks i = Some c" by blast
    from src[OF this] show "i \<in> known" unfolding assms(10) using lance_table.chunks_by_ids_view[OF assms(1,2)] by blast
  next
    assume "i \<in> known"
    then show "chunks i \<noteq> None"
      unfolding assms(10) using hit miss[of i] that lance_table.chunks_by_ids_finds[OF assms(1,2)] by fastforce
  qed
  note eq = attach_chunks_eq[OF d, of chunks, unfolded run]
  have "map sr_chunk_id rs = map rs_chunk_id (filter (\<lambda>h. chunks (rs_chunk_id h) \<noteq> None) (take limit ?R))"
    using eq by (simp add: result_of_def)
  also have "\<dots> = filter (\<lambda>i. chunks i \<noteq> None) ?best" by (simp add: filter_map comp_def)
  also have "\<dots> = filter (\<lambda>i. i \<in> known) ?best" by (rule filter_cong[OF refl at_hand])
  finally have ids: "map sr_chunk_id rs = filter (\<lambda>i. i \<in> known) ?best" .
  have "dropped = length (filter (\<lambda>i. chunks i = None) ?best)" using eq by (simp add: filter_map comp_def)
  also have "filter (\<lambda>i. chunks i = None) ?best = filter (\<lambda>i. i \<notin> known) ?best"
    using at_hand by (intro filter_cong refl) blast
  finally have lost: "dropped = length (filter (\<lambda>i. i \<notin> known) ?best)" .
  have each: "sr_score r = score (sr_chunk_id r) \<and> ((\<exists>h \<in> set vs. vh_chunk_id h = sr_chunk_id r \<and> vh_chunk h = sr_chunk r) \<or>
      (\<exists>e. (sr_chunk_id r, e, sr_chunk r) \<in># lance_table.view (hs_lance S) rows t))" if "r \<in> set rs" for r
  proof -
    note r = that
    obtain h where h: "h \<in> set (take limit ?R)" "r = result_of chunks h" "chunks (sr_chunk_id r) = Some (sr_chunk r)"
      using attach_chunks_facts(3)[OF d run r] by blast
    have "h = fused_entry ?vec bm25 k (hc_vector_weight cfg) (hc_bm25_weight cfg) (rs_chunk_id h)" using f(3) h(1) by (blast dest: in_set_takeD)
    then have "rs_rrf_score h = score (rs_chunk_id h)" unfolding assms(9) combined_score_def by (metis fused_score)
    then show ?thesis using src[OF h(3)] lance_table.chunks_by_ids_view[OF assms(1,2)] h(2) by (auto simp: result_of_def)
  qed
  have "best_of limit score (vh_chunk_id ` set vs \<union> fst ` set bm25) ?best"
    using core_is_best[OF vec(1) assms(7,8), of limit cfg k] unfolding vec(2) assms(9) .
  then show ?thesis using ids lost each by blast
qed

text \<open>The resilient search answers as long as one engine does. It fails only if both engines failed on both tries, and
  its flag says whether both failed on the first; if only the embedder is gone, the answer is that of the keyword
  index.\<close>

theorem resilient_search_survives_one_engine:
  assumes "resilient_search S S' R query limit = (res, fallback)"
  shows "fallback = (\<not> is_ok (resilient_bm25_search S R query limit) \<and> \<not> is_ok (resilient_vector_search S R query limit)) \<and>
    (\<not> is_ok res \<longrightarrow> fallback \<and> \<not> is_ok (resilient_bm25_search S' R query limit) \<and> \<not> is_ok (resilient_vector_search S' R query limit)) \<and>
    (\<not> rh_embedder R \<longrightarrow> is_ok (resilient_bm25_search S R query limit) \<longrightarrow> res = resilient_bm25_search S R query limit)"
proof -
  have "\<not> is_ok (resilient_vector_search S R query limit)" if "\<not> rh_embedder R"
    using that by (simp add: resilient_vector_search_def split: option.splits)
  moreover have "res = fst (resilient_search S S' R query limit)" "fallback = snd (resilient_search S S' R query limit)"
    using assms by simp_all
  ultimately show ?thesis
    by (cases "resilient_bm25_search S R query limit"; cases "resilient_vector_search S R query limit";
        cases "resilient_bm25_search S' R query limit"; cases "resilient_vector_search S' R query limit")
       (simp_all add: resilient_search_def try_hybrid_search_def fallback_search_def, blast+)
qed

subsection \<open>A search in memory\<close>

text \<open>Two chunks are stored; the vector engine finds the first, the keyword index both.\<close>

definition demo_found :: code_chunk where
  "demo_found = demo_chunk\<lparr>chunk_id := 3\<rparr>"

definition demo_other :: code_chunk where
  "demo_other = demo_chunk\<lparr>chunk_id := 4\<rparr>"

definition demo_table :: "code_chunk row list" where
  "demo_table = snd (insert_chunks mem_lance 1 [(3, [Finite 1], demo_found), (4, [Finite 1], demo_other)] [])"

definition demo_engines :: "(code_chunk row list, code_chunk) search_engines" where
  "demo_engines =
     \<lparr>hs_lance = mem_lance, hs_nearest = (\<lambda>t _ _ _ limit. Inr [Inr (map (\<lambda>r. (r, 1 / 2)) (take 1 t))]),
      hs_nprobes = None, hs_rerank = Some ''10'', hs_embed_queries = (\<lambda>qs. Inr (map (\<lambda>_. [Finite 1]) qs)),
      hs_bm25 = (\<lambda>_ limit. Inr (take limit [(4, 7), (3, 2)])), hs_order = rev\<rparr>"

lemma demo_table_inv: "mem_table.inv demo_table"
proof -
  have "insert_chunks mem_lance 1 [(3, [Finite 1], demo_found), (4, [Finite 1], demo_other)] [] = (Inr (), demo_table)"
    unfolding demo_table_def by code_simp
  from mem_table.insert_view[OF _ this] show ?thesis by (simp add: mem_table.inv_def demo_found_def demo_other_def)
qed

lemma demo_table_rows: "demo_table = [mk_row mem_lance (3, [Finite 1], demo_found) [Finite 1] demo_found,
    mk_row mem_lance (4, [Finite 1], demo_other) [Finite 1] demo_other]"
  by code_simp

lemma demo_open: "get_table mem_lance t = Inr ()"
  by (simp add: get_table_def mem_lance_def)

lemma demo_knobs: "knob ''RMC_VECTOR_ANN_NPROBES'' None 40 = Inr 40"
    "knob ''RMC_VECTOR_ANN_RERANK'' (Some ''10'') 2000 = Inr 10"
  by code_simp+

lemma demo_vector:
  "vector_search demo_engines demo_table ''fn'' 100 = Inr [\<lparr>vh_chunk_id = 3, vh_score = similarity (1 / 2), vh_chunk = demo_found\<rparr>]"
  by (simp add: vector_search_def store_search_def demo_engines_def demo_knobs demo_open demo_table_rows mk_row_def mem_lance_simps)

definition demo_fused :: "rrf_score list" where
  "demo_fused = reciprocal_rank_fusion_core rev [(3, 3 / 4)] [(3, 7), (4, 2)] 60 (1 / 2) (1 / 2)"

lemma demo_fused_ids: "distinct (map rs_chunk_id demo_fused)" "set (map rs_chunk_id demo_fused) = {3, 4}"
  using core_facts(1,2)[of "[(3, 3 / 4)]" "[(3, 7), (4, 2)]" rev 60 "1 / 2" "1 / 2"] by (simp_all add: demo_fused_def insert_commute)

theorem fusion_is_exact_witness: "set (map rs_chunk_id demo_fused) = {3, 4}"
  using fusion_is_exact[of "[(3, 3 / 4)]" "[(3, 7), (4, 2)]" rev 60 "1 / 2" "1 / 2" demo_fused]
  by (simp add: demo_fused_def insert_commute)

theorem fusion_respects_both_engines_witness:
  "\<exists>a b. {a, b} \<subseteq> set demo_fused \<and> rs_chunk_id a = 3 \<and> rs_chunk_id b = 4 \<and> rs_rrf_score b \<le> rs_rrf_score a"
proof -
  obtain a b where ab: "a \<in> set demo_fused" "b \<in> set demo_fused" "rs_chunk_id a = 3" "rs_chunk_id b = 4"
  proof -
    have "3 \<in> rs_chunk_id ` set demo_fused" "4 \<in> rs_chunk_id ` set demo_fused" using demo_fused_ids(2) by simp_all
    then show thesis by (elim imageE) (rule that; simp)
  qed
  have "rs_rrf_score b \<le> rs_rrf_score a"
    by (rule fusion_respects_both_engines[of "[(3, 3 / 4)]" "[(3, 7), (4, 2)]" rev 60 "1 / 2" "1 / 2" demo_fused])
       (use ab in \<open>simp_all add: demo_fused_def\<close>)
  with ab show ?thesis by blast
qed

lemma demo_lookup: "is_ok (chunks_by_ids mem_lance [4] demo_table)"
  by code_simp

lemma two_orders:
  assumes "distinct xs" "set xs = {a, b}" "a \<noteq> b"
  shows "xs = [a, b] \<or> xs = [b, a]"
proof -
  have "length xs = 2" using distinct_card[OF assms(1)] assms(2,3) by simp
  then obtain x y where "xs = [x, y]" by (auto simp: length_Suc_conv numeral_2_eq_2)
  with assms show ?thesis by (auto simp: doubleton_eq_iff)
qed

lemma demo_answer: "is_ok (search_with_k demo_engines HybridSearchConfig_default True demo_table ''fn'' 2 60)"
proof -
  let ?R = "reciprocal_rank_fusion_core rev [(3, similarity (1 / 2))] [(4, 7), (3, 2)] 60 (1 / 2) (1 / 2)"
  have f: "distinct (map rs_chunk_id ?R)" "set (map rs_chunk_id ?R) = {3, 4}"
    using core_facts(1,2)[of "[(3, similarity (1 / 2))]" "[(4, 7), (3, 2)]" rev 60 "1 / 2" "1 / 2"] by (simp_all add: insert_commute)
  then have ids: "map rs_chunk_id ?R = [3, 4] \<or> map rs_chunk_id ?R = [4, 3]" by (intro two_orders) simp_all
  then have "length (map rs_chunk_id ?R) = 2" by (elim disjE) (simp_all only: list.size)
  then have "take 2 ?R = ?R" by simp
  moreover note ids
  moreover have "chunks_of_hits [\<lparr>vh_chunk_id = 3, vh_score = similarity (1 / 2), vh_chunk = demo_found\<rparr>] = [3 \<mapsto> demo_found]"
    by (simp add: chunks_of_hits_def)
  ultimately have "filter (\<lambda>i. chunks_of_hits [\<lparr>vh_chunk_id = 3, vh_score = similarity (1 / 2), vh_chunk = demo_found\<rparr>] i = None)
      (map rs_chunk_id (take 2 ?R)) = [4]" by auto
  moreover obtain found where "chunks_by_ids mem_lance [4] demo_table = Inr found"
    using demo_lookup by (cases "chunks_by_ids mem_lance [4] demo_table") auto
  moreover have "hs_lance demo_engines = mem_lance" "hs_order demo_engines = rev" "hs_bm25 demo_engines ''fn'' 100 = Inr [(4, 7), (3, 2)]"
    by (simp_all add: demo_engines_def)
  ultimately show ?thesis
    using demo_vector by (simp add: search_with_k_def HybridSearchConfig_default_def Let_def)
qed

theorem hybrid_answer_is_the_best_of_both_witness:
  "\<exists>rs n. search_with_k demo_engines HybridSearchConfig_default True demo_table ''fn'' 2 60 = Inr (rs, n) \<and>
     length rs + n = 2 \<and> distinct (map sr_chunk_id rs)"
proof -
  obtain rs n where run: "search_with_k demo_engines HybridSearchConfig_default True demo_table ''fn'' 2 60 = Inr (rs, n)"
    using demo_answer by (cases "search_with_k demo_engines HybridSearchConfig_default True demo_table ''fn'' 2 60") auto
  have L: "hs_lance demo_engines = mem_lance" by (simp add: demo_engines_def)
  have vec: "vector_search demo_engines demo_table ''fn'' (hc_candidate_count HybridSearchConfig_default) =
      Inr [\<lparr>vh_chunk_id = 3, vh_score = similarity (1 / 2), vh_chunk = demo_found\<rparr>]"
    using demo_vector by (simp add: HybridSearchConfig_default_def)
  have bm: "[(4, 7), (3, 2)] = (if True then projr (hs_bm25 demo_engines ''fn'' (hc_candidate_count HybridSearchConfig_default)) else [])"
    by (simp add: demo_engines_def HybridSearchConfig_default_def)
  have order: "mset (hs_order demo_engines xs) = mset xs" for xs by (simp add: demo_engines_def)
  let ?vs = "[\<lparr>vh_chunk_id = 3, vh_score = similarity (1 / 2), vh_chunk = demo_found\<rparr>]"
  define score where "score = combined_score HybridSearchConfig_default 60 (map (\<lambda>h. (vh_chunk_id h, vh_score h)) ?vs) [(4, 7), (3, 2)]"
  define known where "known = vh_chunk_id ` set ?vs \<union> {i. \<exists>e c. (i, e, c) \<in># lance_table.view (hs_lance demo_engines) mset demo_table}"
  have "distinct (map vh_chunk_id ?vs)" "distinct (map fst [(4 :: chunk_id, 7 :: rat), (3, 2)])" by simp_all
  from hybrid_answer_is_the_best_of_both[OF mem_table.lance_table_axioms[folded L] demo_table_inv[folded L] run vec
      this(1) bm this(2) order score_def known_def]
  obtain best where best: "best_of 2 score (vh_chunk_id ` set ?vs \<union> fst ` set [(4, 7 :: rat), (3, 2)]) best"
    "map sr_chunk_id rs = filter (\<lambda>i. i \<in> known) best" "n = length (filter (\<lambda>i. i \<notin> known) best)" by blast
  have "length rs = length (filter (\<lambda>i. i \<in> known) best)" using arg_cong[OF best(2), of length] by simp
  then have "length rs + n = length best" unfolding best(3) using sum_length_filter_compl by metis
  moreover have "length best = 2" "distinct best" using best(1) by (simp_all add: best_of_def)
  moreover have "distinct (map sr_chunk_id rs)" unfolding best(2) using calculation(3) by simp
  ultimately show ?thesis using run by auto
qed

theorem resilient_search_survives_one_engine_witness:
  "\<exists>rs. resilient_search demo_engines demo_engines \<lparr>rh_bm25 = True, rh_store = Some demo_table, rh_embedder = False, rh_rrf_k = 60\<rparr> ''fn'' 2
     = (Inr rs, False)"
proof -
  let ?R = "\<lparr>rh_bm25 = True, rh_store = Some demo_table, rh_embedder = False, rh_rrf_k = 60\<rparr>"
  have ok: "is_ok (resilient_bm25_search demo_engines ?R ''fn'' 2)" by code_simp
  obtain res fallback where run: "resilient_search demo_engines demo_engines ?R ''fn'' 2 = (res, fallback)" by fastforce
  from resilient_search_survives_one_engine[OF run] ok have "is_ok res" "\<not> fallback" by simp_all
  with run show ?thesis by (cases res) simp_all
qed

end
