(* ===== verification/Graph_Model.thy ===== *)
theory Graph_Model
  imports Prelude "HOL-Library.Word" "HOL-Library.Product_Lexorder"
begin

text \<open>
  The data model of the workspace hypergraph (rmc-graph: graph/ids.rs, graph/model.rs, the table names of
  graph/storage.rs): 32-byte identifiers, nodes, bindings, usages, signatures, the model that the extraction produces,
  and the tables of a snapshot.

  An identifier \<open>[u8; 32]\<close> is a 256-bit word, big end first: the byte-wise order of Rust's arrays, and of the LMDB keys,
  is the numerical order. SHA-256 is a parameter \<open>sha\<close> from strings to identifiers. Byte offsets are 32-bit words.
\<close>

subsection \<open>Identifiers\<close>

type_synonym node_id = "256 word"
type_synonym bytes = "8 word list"

definition ID_LEN :: nat where
  "ID_LEN = 32"

definition as_bytes :: "node_id \<Rightarrow> bytes" where
  "as_bytes w = map (\<lambda>i. word_of_int (uint w div 256 ^ i)) (rev [0..<ID_LEN])"

definition id_of_bytes :: "bytes \<Rightarrow> node_id" where
  "id_of_bytes bs = word_of_int (foldl (\<lambda>a b. a * 256 + uint b) 0 bs)"

definition hex_digit :: "nat \<Rightarrow> char" where
  "hex_digit n = ''0123456789abcdef'' ! n"

definition hex_encode :: "bytes \<Rightarrow> string" where
  "hex_encode bs = concat (map (\<lambda>b. [hex_digit (unat b div 16), hex_digit (unat b mod 16)]) bs)"

definition to_hex :: "node_id \<Rightarrow> string" where
  "to_hex i = hex_encode (as_bytes i)"

definition NUL :: char where
  "NUL = CHR 0x00"

definition from_components :: "(string \<Rightarrow> node_id) \<Rightarrow> string list \<Rightarrow> node_id" where
  "from_components sha parts = sha (join [NUL] parts)"

subsection \<open>Nodes, bindings, usages\<close>

datatype node_kind = KindWorkspace | KindCrate | KindModule | KindItem | KindExternalSymbol

datatype item_kind =
    ItemFunction | ItemStruct | ItemEnum | ItemUnion | ItemTrait | ItemTypeAlias | ItemConst | ItemStatic
  | ItemAssocFunction | ItemAssocConst | ItemAssocType | ItemMethod | ItemEnumVariant | ItemField

fun is_callable :: "item_kind \<Rightarrow> bool" where
  "is_callable ItemFunction = True"
| "is_callable ItemMethod = True"
| "is_callable ItemAssocFunction = True"
| "is_callable _ = False"

fun is_type :: "item_kind \<Rightarrow> bool" where
  "is_type ItemStruct = True"
| "is_type ItemEnum = True"
| "is_type ItemUnion = True"
| "is_type ItemTrait = True"
| "is_type ItemTypeAlias = True"
| "is_type _ = False"

datatype namespace = TypeNs | ValueNs

datatype binding_kind = Declared | NamedImport | GlobImport | ExternCrateImport

datatype binding_visibility = VisPublic | VisCrate node_id | VisRestrictedTo node_id | VisPrivate

record graph_node =
  nd_id :: node_id
  nd_kind :: node_kind
  nd_display_name :: string
  nd_qualified_name :: string
  nd_crate_id :: "node_id option"
  nd_parent_id :: "node_id option"
  nd_item_kind :: "item_kind option"
  nd_file :: "string option"
  nd_span :: "(32 word \<times> 32 word) option"
  nd_visibility :: "string option"
  nd_attributes :: "string list"
  nd_crate_target_kind :: "string option"
  nd_declaration_module :: "node_id option"

record graph_binding =
  bd_from_module :: node_id
  bd_namespace :: namespace
  bd_visible_name :: string
  bd_target :: node_id
  bd_kind :: binding_kind
  bd_visibility :: binding_visibility
  bd_is_explicit_pub_use :: bool

datatype usage_category = UsageRead | UsageWrite | UsageTest | UsageOther

datatype usage_relation =
    RelUnknown | RelCall | RelTraitDispatch | RelFunctionReference | RelTypeRef | RelConstruct | RelRead | RelWrite
  | RelUse | RelImplements

fun is_call :: "usage_relation \<Rightarrow> bool" where
  "is_call RelCall = True"
| "is_call RelTraitDispatch = True"
| "is_call _ = False"

record expansion_site =
  ex_invocation_file :: string
  ex_call_chain :: "(32 word \<times> 32 word) list"
  ex_expanded_span :: "32 word \<times> 32 word"

record graph_usage =
  us_target :: node_id
  us_consumer_module :: node_id
  us_file :: string
  us_start :: "32 word"
  us_end :: "32 word"
  us_category :: usage_category
  us_consumer_function :: "node_id option"
  us_consumer_item :: "node_id option"
  us_relation :: usage_relation
  us_expansion :: "expansion_site option"

datatype unresolved_call_reason = IndirectCallable | TargetOutsideGraph | Unresolved

record unresolved_call =
  uc_consumer_module :: node_id
  uc_consumer_item :: "node_id option"
  uc_file :: string
  uc_start :: "32 word"
  uc_end :: "32 word"
  uc_expression :: string
  uc_reason :: unresolved_call_reason

datatype self_kind = SelfOwned | SelfRef | SelfRefMut

record fn_param =
  pa_name :: string
  pa_ty :: string
  pa_by_ref :: bool
  pa_mutability :: bool

record generic_bound =
  gb_name :: string
  gb_bounds :: "string list"

record function_signature =
  fs_is_async :: bool
  fs_self_param :: "self_kind option"
  fs_params :: "fn_param list"
  fs_return_type :: string
  fs_generics :: "generic_bound list"

record static_metadata =
  sm_type_string :: string
  sm_is_mut :: bool

record usage_counts =
  uc_observations :: nat
  uc_source_sites :: nat
  uc_expanded_observations :: nat

subsection \<open>The extraction model\<close>

text \<open>\<open>nodes\<close> is the \<open>BTreeMap\<close>: an association list in key order.\<close>

record extraction_model =
  em_workspace_id :: node_id
  em_nodes :: "(node_id \<times> graph_node) list"
  em_bindings :: "graph_binding list"
  em_usages :: "graph_usage list"
  em_unresolved_calls :: "unresolved_call list"
  em_contains :: "(node_id \<times> node_id) list"
  em_signatures :: "(node_id \<times> function_signature) list"
  em_statics :: "(node_id \<times> static_metadata) list"

fun btree_insert_new :: "'k::linorder \<Rightarrow> 'v \<Rightarrow> ('k \<times> 'v) list \<Rightarrow> ('k \<times> 'v) list" where
  "btree_insert_new k v [] = [(k, v)]"
| "btree_insert_new k v ((l, w) # m) =
     (if k < l then (k, v) # (l, w) # m else if k = l then (l, w) # m else (l, w) # btree_insert_new k v m)"

definition insert_node :: "graph_node \<Rightarrow> extraction_model \<Rightarrow> extraction_model" where
  "insert_node n M = M\<lparr>em_nodes := btree_insert_new (nd_id n) n (em_nodes M)\<rparr>"

definition insert_contains :: "node_id \<Rightarrow> node_id \<Rightarrow> extraction_model \<Rightarrow> extraction_model" where
  "insert_contains parent child M = M\<lparr>em_contains := em_contains M @ [(parent, child)]\<rparr>"

definition nodes_ok :: "extraction_model \<Rightarrow> bool" where
  "nodes_ok M \<longleftrightarrow> sorted_wrt (<) (map fst (em_nodes M)) \<and> list_all (\<lambda>(k, n). nd_id n = k) (em_nodes M)"

subsection \<open>Identifiers of bindings and usages\<close>

definition namespace_code :: "namespace \<Rightarrow> string" where
  "namespace_code ns = (case ns of TypeNs \<Rightarrow> ''T'' | ValueNs \<Rightarrow> ''V'')"

definition binding_id_for :: "(string \<Rightarrow> node_id) \<Rightarrow> graph_binding \<Rightarrow> node_id" where
  "binding_id_for sha b =
     from_components sha [to_hex (bd_from_module b), namespace_code (bd_namespace b), bd_visible_name b, to_hex (bd_target b)]"

definition category_code :: "usage_category \<Rightarrow> string" where
  "category_code c = (case c of UsageRead \<Rightarrow> ''R'' | UsageWrite \<Rightarrow> ''W'' | UsageTest \<Rightarrow> ''T'' | UsageOther \<Rightarrow> ''O'')"

definition relation_debug :: "usage_relation \<Rightarrow> string" where
  "relation_debug r = (case r of RelUnknown \<Rightarrow> ''Unknown'' | RelCall \<Rightarrow> ''Call'' | RelTraitDispatch \<Rightarrow> ''TraitDispatch''
     | RelFunctionReference \<Rightarrow> ''FunctionReference'' | RelTypeRef \<Rightarrow> ''TypeRef'' | RelConstruct \<Rightarrow> ''Construct''
     | RelRead \<Rightarrow> ''Read'' | RelWrite \<Rightarrow> ''Write'' | RelUse \<Rightarrow> ''Use'' | RelImplements \<Rightarrow> ''Implements'')"

text \<open>\<open>json\<close> is the serialisation of the expansion provenance by serde_json.\<close>

definition usage_id_for :: "(string \<Rightarrow> node_id) \<Rightarrow> (expansion_site option \<Rightarrow> string) \<Rightarrow> graph_usage \<Rightarrow> node_id" where
  "usage_id_for sha json u =
     from_components sha
       [to_hex (us_target u), to_hex (us_consumer_module u), us_file u, nat_str (unat (us_start u)), nat_str (unat (us_end u)),
        category_code (us_category u), relation_debug (us_relation u),
        (case us_consumer_item u of None \<Rightarrow> [] | Some i \<Rightarrow> to_hex i), json (us_expansion u)]"

subsection \<open>Tables\<close>

datatype db_tag =
    NodesById | BindingsById | BindingsByFromModule | BindingsByTarget | ChildrenByParent | UsagesById | UsagesByTarget
  | UsagesByConsumer | UsagesByConsumerFunction | SignaturesByTarget | StaticMetadataByTarget | StubOwners
  | OwnedRowsByCrate | UnresolvedCallsByOwner | UsagesByConsumerItem

definition DbTag_ALL :: "db_tag list" where
  "DbTag_ALL = [NodesById, BindingsById, BindingsByFromModule, BindingsByTarget, ChildrenByParent, UsagesById, UsagesByTarget,
     UsagesByConsumer, UsagesByConsumerFunction, SignaturesByTarget, StaticMetadataByTarget, StubOwners, OwnedRowsByCrate,
     UnresolvedCallsByOwner, UsagesByConsumerItem]"

fun db_name :: "db_tag \<Rightarrow> string" where
  "db_name NodesById = ''nodes_by_id''"
| "db_name BindingsById = ''bindings_by_id''"
| "db_name BindingsByFromModule = ''bindings_by_from_module''"
| "db_name BindingsByTarget = ''bindings_by_target''"
| "db_name ChildrenByParent = ''children_by_parent''"
| "db_name UsagesById = ''usages_by_id''"
| "db_name UsagesByTarget = ''usages_by_target''"
| "db_name UsagesByConsumer = ''usages_by_consumer''"
| "db_name UsagesByConsumerFunction = ''usages_by_consumer_function''"
| "db_name SignaturesByTarget = ''signatures_by_target''"
| "db_name StaticMetadataByTarget = ''static_metadata_by_target''"
| "db_name StubOwners = ''stub_owners''"
| "db_name OwnedRowsByCrate = ''owned_rows_by_crate''"
| "db_name UnresolvedCallsByOwner = ''unresolved_calls_by_owner''"
| "db_name UsagesByConsumerItem = ''usages_by_consumer_item''"

fun is_dup_sort :: "db_tag \<Rightarrow> bool" where
  "is_dup_sort NodesById = False"
| "is_dup_sort BindingsById = False"
| "is_dup_sort UsagesById = False"
| "is_dup_sort SignaturesByTarget = False"
| "is_dup_sort StaticMetadataByTarget = False"
| "is_dup_sort UnresolvedCallsByOwner = False"
| "is_dup_sort _ = True"

fun code :: "db_tag \<Rightarrow> 8 word" where
  "code NodesById = 1"
| "code BindingsById = 2"
| "code BindingsByFromModule = 3"
| "code BindingsByTarget = 4"
| "code ChildrenByParent = 5"
| "code UsagesById = 6"
| "code UsagesByTarget = 7"
| "code UsagesByConsumer = 8"
| "code UsagesByConsumerFunction = 9"
| "code SignaturesByTarget = 10"
| "code StaticMetadataByTarget = 11"
| "code StubOwners = 12"
| "code OwnedRowsByCrate = 13"
| "code UnresolvedCallsByOwner = 14"
| "code UsagesByConsumerItem = 15"

definition from_code :: "8 word \<Rightarrow> db_tag option" where
  "from_code c = find (\<lambda>t. code t = c) DbTag_ALL"

text \<open>The names and flags with which \<open>GraphDatabases::create\<close> opens the tables.\<close>

definition created_tables :: "(string \<times> bool) list" where
  "created_tables =
     [(''unresolved_calls_by_owner'', False), (''usages_by_consumer_item'', True), (''meta_by_key'', False),
      (''nodes_by_id'', False), (''bindings_by_id'', False), (''bindings_by_from_module'', True),
      (''bindings_by_target'', True), (''children_by_parent'', True), (''usages_by_id'', False),
      (''usages_by_target'', True), (''usages_by_consumer'', True), (''usages_by_consumer_function'', True),
      (''signatures_by_target'', False), (''static_metadata_by_target'', False), (''embeddings_by_target'', False),
      (''stub_owners'', True), (''owned_rows_by_crate'', True)]"

text \<open>A row's value: the record that is serialised into it, an identifier, or the bytes of an ownership record. A table
  is a set of rows: with one row for each key unless the table was opened with \<open>DUP_SORT\<close>.\<close>

datatype row_value =
    NodeV graph_node
  | BindingV graph_binding
  | UsageV graph_usage
  | SignatureV function_signature
  | StaticV static_metadata
  | CallsV "unresolved_call list"
  | IdV node_id
  | OwnedV bytes

type_synonym graph_rows = "db_tag \<Rightarrow> (node_id \<times> row_value) set"

definition values_at :: "db_tag \<Rightarrow> node_id \<Rightarrow> graph_rows \<Rightarrow> row_value set" where
  "values_at t k d = snd ` Set.filter (\<lambda>r. fst r = k) (d t)"

definition put :: "db_tag \<Rightarrow> node_id \<Rightarrow> row_value \<Rightarrow> graph_rows \<Rightarrow> graph_rows" where
  "put t k v d = d(t := insert (k, v) (if is_dup_sort t then d t else Set.filter (\<lambda>r. fst r \<noteq> k) (d t)))"

definition delete_key :: "db_tag \<Rightarrow> node_id \<Rightarrow> graph_rows \<Rightarrow> bool \<times> graph_rows" where
  "delete_key t k d = (k \<in> fst ` d t, d(t := Set.filter (\<lambda>r. fst r \<noteq> k) (d t)))"

definition delete_one_duplicate :: "db_tag \<Rightarrow> node_id \<Rightarrow> row_value \<Rightarrow> graph_rows \<Rightarrow> bool \<times> graph_rows" where
  "delete_one_duplicate t k v d = ((k, v) \<in> d t, d(t := d t - {(k, v)}))"


subsection \<open>Identifiers as bytes and as hexadecimal digits\<close>

lemma length_as_bytes [simp]: "length (as_bytes w) = 32"
  by (simp add: as_bytes_def ID_LEN_def)

lemma base_digits: "(\<Sum>i<n. (x div 256 ^ i mod 256) * 256 ^ i) = x mod 256 ^ n" for x :: int
proof (induction n)
  case (Suc n)
  have "x mod 256 ^ Suc n = 256 ^ n * (x div 256 ^ n mod 256) + x mod 256 ^ n"
    by (metis mod_mult2_eq' mult.commute power_Suc zmod_zmult2_eq[of 256 x "256 ^ n"] zero_le_numeral)
  then show ?case using Suc by (simp add: mult.commute)
qed simp

lemma foldl_digits:
  "foldl (\<lambda>a b. a * 256 + f b) c (rev xs) = c * 256 ^ length xs + (\<Sum>i<length xs. f (xs ! i) * 256 ^ i)" for c :: int
proof (induction xs)
  case (Cons x xs)
  have e: "(\<Sum>i<Suc (length xs). f ((x # xs) ! i) * 256 ^ i) = f x + 256 * (\<Sum>i<length xs. f (xs ! i) * 256 ^ i)"
    unfolding sum.lessThan_Suc_shift by (simp add: sum_distrib_left mult.left_commute)
  show ?case unfolding length_Cons e by (simp only: rev.simps foldl_append foldl.simps Cons.IH) (simp add: algebra_simps)
qed simp

lemma id_of_as_bytes [simp]: "id_of_bytes (as_bytes w) = w"
proof -
  have "as_bytes w = rev (map (\<lambda>i. word_of_int (uint w div 256 ^ i)) [0..<ID_LEN])"
    by (simp add: as_bytes_def rev_map)
  then have "foldl (\<lambda>a b. a * 256 + uint b) 0 (as_bytes w) = (\<Sum>i<ID_LEN. (uint w div 256 ^ i mod 256) * 256 ^ i)"
    using foldl_digits[of uint 0 "map (\<lambda>i. word_of_int (uint w div 256 ^ i) :: 8 word) [0..<ID_LEN]"]
    by (simp add: uint_word_of_int)
  also have "\<dots> = uint w mod 2 ^ 256" by (simp add: base_digits ID_LEN_def)
  also have "\<dots> = uint w" using uint_lt2p[of w] by (simp add: mod_pos_pos_trivial)
  finally show ?thesis by (simp add: id_of_bytes_def)
qed

lemma as_bytes_eq_iff [simp]: "as_bytes v = as_bytes w \<longleftrightarrow> v = w"
  by (metis id_of_as_bytes)

lemma hex_digit_cases: "n < 16 \<Longrightarrow> hex_digit n \<noteq> NUL \<and> (m < 16 \<longrightarrow> hex_digit n = hex_digit m \<longrightarrow> n = m)"
  by (simp add: hex_digit_def NUL_def numeral_eq_Suc less_Suc_eq) (elim disjE; simp)

lemma hex_encode_Cons: "hex_encode (b # bs) = hex_digit (unat b div 16) # hex_digit (unat b mod 16) # hex_encode bs"
  by (simp add: hex_encode_def)

lemma length_hex_encode [simp]: "length (hex_encode bs) = 2 * length bs"
  by (induction bs) (simp_all add: hex_encode_def)

lemma byte_div_less: "unat b div 16 < 16" for b :: "8 word"
  using unsigned_less[of b, where 'a = nat] by simp

lemma hex_encode_no_nul: "NUL \<notin> set (hex_encode bs)"
proof (induction bs)
  case (Cons b bs)
  have "hex_digit (unat b div 16) \<noteq> NUL" "hex_digit (unat b mod 16) \<noteq> NUL"
    using hex_digit_cases byte_div_less by simp_all
  then show ?case using Cons by (auto simp: hex_encode_Cons)
qed (simp add: hex_encode_def)

lemma hex_encode_eq_iff: "hex_encode as = hex_encode bs \<longleftrightarrow> as = bs"
proof (induction as bs rule: list_induct2')
  case (4 a as b bs)
  have "a = b" if "hex_digit (unat a div 16) = hex_digit (unat b div 16)" "hex_digit (unat a mod 16) = hex_digit (unat b mod 16)"
  proof -
    have "unat a div 16 = unat b div 16" "unat a mod 16 = unat b mod 16"
      using that hex_digit_cases byte_div_less mod_less_divisor[of 16] by (blast, meson zero_less_numeral)
    then have "unat a = unat b" by (metis div_mult_mod_eq)
    then show ?thesis by (simp add: word_unat_eq_iff)
  qed
  then show ?case using 4 by (auto simp: hex_encode_Cons)
qed (simp_all add: hex_encode_Cons hex_encode_def[of "[]"])

lemma to_hex_eq_iff [simp]: "to_hex i = to_hex j \<longleftrightarrow> i = j"
  by (simp add: to_hex_def hex_encode_eq_iff)

lemma to_hex_no_nul: "NUL \<notin> set (to_hex i)"
  by (simp add: to_hex_def hex_encode_no_nul)

text \<open>The separator keeps the components apart: the first component can be read back, and so can the second.\<close>

lemma join_NUL_first:
  assumes "NUL \<notin> set a" "NUL \<notin> set b" "join [NUL] (a # as) = join [NUL] (b # bs)" "as \<noteq> []" "bs \<noteq> []"
  shows "a = b \<and> join [NUL] as = join [NUL] bs"
proof -
  have "a @ NUL # join [NUL] as = b @ NUL # join [NUL] bs"
    using assms(3-5) by (cases as; cases bs) simp_all
  moreover have "takeWhile (\<lambda>c. c \<noteq> NUL) (a @ NUL # u) = a" if "NUL \<notin> set a" for a u :: string
    using that by (subst takeWhile_append2) auto
  ultimately show ?thesis using assms(1,2) by (metis append_eq_append_conv list.sel(3) same_append_eq)
qed

lemma join_NUL_inject:
  assumes "length as = length bs" "\<forall>a \<in> set as \<union> set bs. NUL \<notin> set a"
  shows "join [NUL] as = join [NUL] bs \<longleftrightarrow> as = bs"
  using assms
proof (induction as bs rule: list_induct2)
  case (Cons a as b bs)
  show ?case
  proof (cases "as = []")
    case True
    then show ?thesis using Cons.hyps by simp
  next
    case False
    then have "bs \<noteq> []" using Cons.hyps by auto
    then show ?thesis using Cons False join_NUL_first[of a b as bs] by auto
  qed
qed simp

subsection \<open>Tables\<close>

lemma from_code_code [simp]: "from_code (code t) = Some t"
  by (cases t) (simp_all add: from_code_def DbTag_ALL_def)

lemma from_code_Some: "from_code c = Some t \<Longrightarrow> code t = c"
  by (auto simp: from_code_def find_Some_iff)

lemma DbTag_ALL_complete: "set DbTag_ALL = UNIV" "distinct DbTag_ALL"
  by (auto simp: DbTag_ALL_def) (metis db_tag.exhaust)

lemma values_at_iff [simp]: "v \<in> values_at t k d \<longleftrightarrow> (k, v) \<in> d t"
  by (force simp: values_at_def)

lemma in_put: "r \<in> put t k v d u \<longleftrightarrow>
    (if u = t then r = (k, v) \<or> r \<in> d t \<and> (is_dup_sort t \<or> fst r \<noteq> k) else r \<in> d u)"
  by (auto simp: put_def)

lemma nodes_ok_lookup: "nodes_ok M \<Longrightarrow> map_of (em_nodes M) k = Some n \<Longrightarrow> nd_id n = k"
  by (auto simp: nodes_ok_def list_all_iff dest: map_of_SomeD)

lemma nodes_ok_distinct: "nodes_ok M \<Longrightarrow> distinct (map fst (em_nodes M))"
  by (simp add: nodes_ok_def strict_sorted_iff)

lemma keys_btree_insert_new: "fst ` set (btree_insert_new k v m) = insert k (fst ` set m)"
  by (induction k v m rule: btree_insert_new.induct) auto

lemma map_of_btree_insert_new:
  "map_of (btree_insert_new k v m) = (case map_of m k of None \<Rightarrow> (map_of m)(k \<mapsto> v) | Some _ \<Rightarrow> map_of m)"
  if "sorted_wrt (<) (map fst m)"
  using that
proof (induction k v m rule: btree_insert_new.induct)
  case (2 k v l w m)
  have "map_of m k = None" if "k < l"
    using 2(2) that by (force simp: map_of_eq_None_iff)
  then show ?case using 2 by (auto split: option.splits)
qed simp

lemma set_btree_insert_new: "set (btree_insert_new k v m) \<subseteq> insert (k, v) (set m)"
  by (induction k v m rule: btree_insert_new.induct) auto

lemma sorted_btree_insert_new: "sorted_wrt (<) (map fst m) \<Longrightarrow> sorted_wrt (<) (map fst (btree_insert_new k v m))"
proof (induction k v m rule: btree_insert_new.induct)
  case (2 k v l w m)
  then show ?case using set_btree_insert_new[of k v m] by fastforce
qed simp

lemma insert_node_ok: "nodes_ok M \<Longrightarrow> nodes_ok (insert_node n M)"
  using set_btree_insert_new sorted_btree_insert_new by (fastforce simp: nodes_ok_def insert_node_def list_all_iff)

end
