(* ===== verification/Ownership.thy ===== *)
theory Ownership
  imports Graph_Model
begin

text \<open>
  Row ownership of a snapshot (rmc-graph: graph/ownership.rs): every row that a build writes is owned by one crate, except
  the workspace node and the external stubs, which are shared; the ownership record lists a crate's rows, so that they can be
  deleted and written again.

  The tables are those of \<open>Graph_Model\<close>. Failures of LMDB itself (a full map, an I/O error) are left out: they abort
  the transaction, as every error here does, and then nothing of it is committed.
\<close>

subsection \<open>Owned rows\<close>

record owned_row =
  ow_tag :: db_tag
  ow_key :: node_id
  ow_dup :: "node_id option"

datatype graph_error =
    NodeHasNoCrate node_kind string
  | NotANode node_id
  | OwnsRowsWithoutCrate node_kind string
  | EmptyOwnedRow
  | UnknownTableCode "8 word"
  | PointsIntoOwnership
  | WrongOwnedRowLength db_tag nat nat
  | OwnedRowMissing node_id owned_row
  | NodesNotWritten string nat nat
  | GraphError string

definition encode :: "owned_row \<Rightarrow> bytes" where
  "encode r = code (ow_tag r) # as_bytes (ow_key r) @ (case ow_dup r of None \<Rightarrow> [] | Some v \<Rightarrow> as_bytes v)"

definition decode :: "bytes \<Rightarrow> (graph_error, owned_row) result" where
  "decode bs =
     (case bs of [] \<Rightarrow> Inl EmptyOwnedRow
      | c # rest \<Rightarrow>
     (case from_code c of None \<Rightarrow> Inl (UnknownTableCode c)
      | Some tag \<Rightarrow>
          if tag = OwnedRowsByCrate then Inl PointsIntoOwnership
          else let expected = (if is_dup_sort tag then 2 * ID_LEN else ID_LEN) in
            if length rest \<noteq> expected then Inl (WrongOwnedRowLength tag (length rest) expected)
            else Inr \<lparr>ow_tag = tag, ow_key = id_of_bytes (take ID_LEN rest),
                      ow_dup = (if is_dup_sort tag then Some (id_of_bytes (drop ID_LEN rest)) else None)\<rparr>))"

definition own :: "node_id \<Rightarrow> owned_row \<Rightarrow> graph_rows \<Rightarrow> graph_rows" where
  "own owner row d = put OwnedRowsByCrate owner (OwnedV (encode row)) d"

definition plain_row :: "db_tag \<Rightarrow> node_id \<Rightarrow> owned_row" where
  "plain_row t k = \<lparr>ow_tag = t, ow_key = k, ow_dup = None\<rparr>"

definition dup_row :: "db_tag \<Rightarrow> node_id \<Rightarrow> node_id \<Rightarrow> owned_row" where
  "dup_row t k v = \<lparr>ow_tag = t, ow_key = k, ow_dup = Some v\<rparr>"

subsection \<open>Loops that may fail\<close>

fun for_each :: "('x \<Rightarrow> 's \<Rightarrow> ('e, 's) result) \<Rightarrow> 'x list \<Rightarrow> 's \<Rightarrow> ('e, 's) result" where
  "for_each f [] s = Inr s"
| "for_each f (x # xs) s = and_then (f x s) (for_each f xs)"

subsection \<open>Writing a model\<close>

record written_counts =
  wc_nodes :: nat
  wc_bindings :: nat
  wc_usages :: nat

record write_state =
  ws_rows :: graph_rows
  ws_stubs :: "node_id set"
  ws_counts :: written_counts

definition owner_of :: "extraction_model \<Rightarrow> node_id \<Rightarrow> (graph_error, node_id) result" where
  "owner_of M i =
     (case map_of (em_nodes M) i of
        None \<Rightarrow> Inl (NotANode i)
      | Some n \<Rightarrow> (case nd_crate_id n of None \<Rightarrow> Inl (OwnsRowsWithoutCrate (nd_kind n) (nd_qualified_name n)) | Some c \<Rightarrow> Inr c))"

definition is_stub :: "extraction_model \<Rightarrow> node_id \<Rightarrow> bool" where
  "is_stub M i = (case map_of (em_nodes M) i of None \<Rightarrow> False | Some n \<Rightarrow> nd_kind n = KindExternalSymbol)"

definition put_node :: "graph_node \<Rightarrow> write_state \<Rightarrow> write_state" where
  "put_node n s = s\<lparr>ws_rows := put NodesById (nd_id n) (NodeV n) (ws_rows s),
                    ws_counts := (ws_counts s)\<lparr>wc_nodes := wc_nodes (ws_counts s) + 1\<rparr>\<rparr>"

definition write_node :: "(node_id \<Rightarrow> bool) \<Rightarrow> graph_node \<Rightarrow> write_state \<Rightarrow> (graph_error, write_state) result" where
  "write_node keep n s =
     (case nd_kind n of
        KindWorkspace \<Rightarrow> Inr (put_node n s)
      | KindExternalSymbol \<Rightarrow> Inr s
      | _ \<Rightarrow> (case nd_crate_id n of
                None \<Rightarrow> Inl (NodeHasNoCrate (nd_kind n) (nd_qualified_name n))
              | Some owner \<Rightarrow>
                  if keep owner
                  then Inr (put_node n (s\<lparr>ws_rows := own owner (plain_row NodesById (nd_id n)) (ws_rows s)\<rparr>))
                  else Inr s))"

text \<open>A binding with its two index rows; and the stub that it names, if it names one.\<close>

definition put_stub :: "graph_node \<Rightarrow> write_state \<Rightarrow> write_state" where
  "put_stub n s = (if nd_id n \<in> ws_stubs s then s else put_node n (s\<lparr>ws_stubs := insert (nd_id n) (ws_stubs s)\<rparr>))"

definition write_binding ::
  "(string \<Rightarrow> node_id) \<Rightarrow> extraction_model \<Rightarrow> (node_id \<Rightarrow> bool) \<Rightarrow> graph_binding \<Rightarrow> write_state \<Rightarrow> (graph_error, write_state) result" where
  "write_binding sha M keep b s =
     and_then (owner_of M (bd_from_module b)) (\<lambda>owner.
       if \<not> keep owner then Inr s
       else
         let bid = binding_id_for sha b;
             d1 = own owner (plain_row BindingsById bid) (put BindingsById bid (BindingV b) (ws_rows s));
             d2 = own owner (dup_row BindingsByFromModule (bd_from_module b) bid)
                    (put BindingsByFromModule (bd_from_module b) (IdV bid) d1);
             d3 = own owner (dup_row BindingsByTarget (bd_target b) bid) (put BindingsByTarget (bd_target b) (IdV bid) d2);
             s1 = s\<lparr>ws_rows := d3, ws_counts := (ws_counts s)\<lparr>wc_bindings := wc_bindings (ws_counts s) + 1\<rparr>\<rparr>
         in case map_of (em_nodes M) (bd_target b) of
              None \<Rightarrow> Inr s1
            | Some stub \<Rightarrow>
                if nd_kind stub \<noteq> KindExternalSymbol then Inr s1
                else let s2 = put_stub stub s1 in
                  Inr (s2\<lparr>ws_rows := own owner (dup_row StubOwners (nd_id stub) owner)
                                      (put StubOwners (nd_id stub) (IdV owner) (ws_rows s2))\<rparr>))"

definition write_contains ::
  "extraction_model \<Rightarrow> (node_id \<Rightarrow> bool) \<Rightarrow> node_id \<times> node_id \<Rightarrow> write_state \<Rightarrow> (graph_error, write_state) result" where
  "write_contains M keep e s =
     (case e of (parent, child) \<Rightarrow>
       and_then (owner_of M child) (\<lambda>owner.
         if \<not> keep owner then Inr s
         else Inr (s\<lparr>ws_rows := own owner (dup_row ChildrenByParent parent child)
                                  (put ChildrenByParent parent (IdV child) (ws_rows s))\<rparr>)))"

definition put_indexed :: "node_id \<Rightarrow> db_tag \<Rightarrow> node_id \<Rightarrow> node_id \<Rightarrow> graph_rows \<Rightarrow> graph_rows" where
  "put_indexed owner t k i d = own owner (dup_row t k i) (put t k (IdV i) d)"

definition write_usage ::
  "(string \<Rightarrow> node_id) \<Rightarrow> (expansion_site option \<Rightarrow> string) \<Rightarrow> extraction_model \<Rightarrow> (node_id \<Rightarrow> bool) \<Rightarrow> graph_usage \<Rightarrow>
   write_state \<Rightarrow> (graph_error, write_state) result" where
  "write_usage sha json M keep u s =
     and_then (owner_of M (us_consumer_module u)) (\<lambda>owner.
       if \<not> keep owner then Inr s
       else
         let uid = usage_id_for sha json u;
             d1 = own owner (plain_row UsagesById uid) (put UsagesById uid (UsageV u) (ws_rows s));
             d2 = put_indexed owner UsagesByTarget (us_target u) uid d1;
             d3 = put_indexed owner UsagesByConsumer (us_consumer_module u) uid d2;
             d4 = (case us_consumer_function u of None \<Rightarrow> d3 | Some f \<Rightarrow> put_indexed owner UsagesByConsumerFunction f uid d3);
             d5 = (case us_consumer_item u of None \<Rightarrow> d4 | Some i \<Rightarrow> put_indexed owner UsagesByConsumerItem i uid d4)
         in Inr (s\<lparr>ws_rows := d5, ws_counts := (ws_counts s)\<lparr>wc_usages := wc_usages (ws_counts s) + 1\<rparr>\<rparr>))"

subsubsection \<open>Unresolved calls\<close>

definition call_item :: "unresolved_call \<Rightarrow> node_id" where
  "call_item c = (case uc_consumer_item c of None \<Rightarrow> uc_consumer_module c | Some i \<Rightarrow> i)"

fun btree_push :: "'k::linorder \<Rightarrow> 'v \<Rightarrow> ('k \<times> 'v list) list \<Rightarrow> ('k \<times> 'v list) list" where
  "btree_push k v [] = [(k, [v])]"
| "btree_push k v ((l, vs) # m) =
     (if k < l then (k, [v]) # (l, vs) # m else if k = l then (l, vs @ [v]) # m else (l, vs) # btree_push k v m)"

definition collect_call ::
  "extraction_model \<Rightarrow> (node_id \<Rightarrow> bool) \<Rightarrow> unresolved_call \<Rightarrow> (node_id \<times> unresolved_call list) list \<Rightarrow>
   (graph_error, (node_id \<times> unresolved_call list) list) result" where
  "collect_call M keep c m =
     and_then (owner_of M (uc_consumer_module c)) (\<lambda>owner. Inr (if keep owner then btree_push (call_item c) c m else m))"

definition call_order :: "unresolved_call \<Rightarrow> string \<times> 32 word \<times> 32 word \<times> string" where
  "call_order c = (uc_file c, uc_start c, uc_end c, uc_expression c)"

definition sorted_calls :: "unresolved_call list \<Rightarrow> unresolved_call list" where
  "sorted_calls calls = remdups_adj (sort_key call_order calls)"

definition write_calls ::
  "extraction_model \<Rightarrow> node_id \<times> unresolved_call list \<Rightarrow> write_state \<Rightarrow> (graph_error, write_state) result" where
  "write_calls M e s =
     (case e of (item, cs) \<Rightarrow>
       let calls = sorted_calls cs in
       and_then (owner_of M (uc_consumer_module (calls ! 0))) (\<lambda>owner.
         Inr (s\<lparr>ws_rows := own owner (plain_row UnresolvedCallsByOwner item)
                             (put UnresolvedCallsByOwner item (CallsV calls) (ws_rows s))\<rparr>)))"

subsubsection \<open>Records of items\<close>

datatype record_owner = OwnerCrate node_id | OwnerStub

definition record_owner_of ::
  "extraction_model \<Rightarrow> node_id \<Rightarrow> node_id set \<Rightarrow> (node_id \<Rightarrow> bool) \<Rightarrow> (graph_error, record_owner option) result" where
  "record_owner_of M target stubs keep =
     (if is_stub M target then Inr (if target \<in> stubs then Some OwnerStub else None)
      else and_then (owner_of M target) (\<lambda>owner. Inr (if keep owner then Some (OwnerCrate owner) else None)))"

definition write_record ::
  "db_tag \<Rightarrow> ('r \<Rightarrow> row_value) \<Rightarrow> extraction_model \<Rightarrow> (node_id \<Rightarrow> bool) \<Rightarrow> node_id \<times> 'r \<Rightarrow> write_state \<Rightarrow>
   (graph_error, write_state) result" where
  "write_record t wrap M keep e s =
     (case e of (target, r) \<Rightarrow>
       and_then (record_owner_of M target (ws_stubs s) keep) (\<lambda>owner.
         case owner of
           None \<Rightarrow> Inr s
         | Some o' \<Rightarrow>
             let d = put t target (wrap r) (ws_rows s) in
             Inr (s\<lparr>ws_rows := (case o' of OwnerCrate c \<Rightarrow> own c (plain_row t target) d | OwnerStub \<Rightarrow> d)\<rparr>)))"

definition write_owned_rows ::
  "(string \<Rightarrow> node_id) \<Rightarrow> (expansion_site option \<Rightarrow> string) \<Rightarrow> extraction_model \<Rightarrow> (node_id \<Rightarrow> bool) \<Rightarrow> graph_rows \<Rightarrow>
   (graph_error, graph_rows \<times> written_counts) result" where
  "write_owned_rows sha json M keep d =
     and_then (for_each (write_node keep) (map snd (em_nodes M))
                 \<lparr>ws_rows = d, ws_stubs = {}, ws_counts = \<lparr>wc_nodes = 0, wc_bindings = 0, wc_usages = 0\<rparr>\<rparr>) (\<lambda>s1.
     and_then (for_each (write_binding sha M keep) (em_bindings M) s1) (\<lambda>s2.
     and_then (for_each (write_contains M keep) (em_contains M) s2) (\<lambda>s3.
     and_then (for_each (write_usage sha json M keep) (em_usages M) s3) (\<lambda>s4.
     and_then (for_each (collect_call M keep) (em_unresolved_calls M) []) (\<lambda>calls.
     and_then (for_each (write_calls M) calls s4) (\<lambda>s5.
     and_then (for_each (write_record SignaturesByTarget SignatureV M keep) (em_signatures M) s5) (\<lambda>s6.
     and_then (for_each (write_record StaticMetadataByTarget StaticV M keep) (em_statics M) s6) (\<lambda>s7.
       Inr (ws_rows s7, ws_counts s7)))))))))"

subsection \<open>Deleting a crate\<close>

record embedding_record =
  er_content_hash :: "128 word"
  er_vector :: "rat list"
  er_embedder_version :: string
  er_generated_at_unix :: "64 word"

record graph_db =
  gd_rows :: graph_rows
  gd_embeddings :: "node_id \<rightharpoonup> embedding_record"
  gd_meta :: "string \<rightharpoonup> string"

fun owned_bytes :: "row_value \<Rightarrow> bytes" where
  "owned_bytes (OwnedV bs) = bs"
| "owned_bytes _ = []"

fun decode_rows :: "bytes list \<Rightarrow> (graph_error, owned_row list) result" where
  "decode_rows [] = Inr []"
| "decode_rows (bs # rest) = and_then (decode bs) (\<lambda>r. and_then (decode_rows rest) (\<lambda>rs. Inr (r # rs)))"

definition rows_of_crate :: "node_id \<Rightarrow> graph_rows \<Rightarrow> (graph_error, owned_row list) result" where
  "rows_of_crate krate d = decode_rows (sorted_list_of_set (owned_bytes ` values_at OwnedRowsByCrate krate d))"

definition delete_row :: "owned_row \<Rightarrow> graph_rows \<Rightarrow> bool \<times> graph_rows" where
  "delete_row r d = (case ow_dup r of None \<Rightarrow> delete_key (ow_tag r) (ow_key r) d
                     | Some v \<Rightarrow> delete_one_duplicate (ow_tag r) (ow_key r) (IdV v) d)"

definition delete_owned_row ::
  "node_id \<Rightarrow> owned_row \<Rightarrow> graph_db \<times> node_id list \<Rightarrow> (graph_error, graph_db \<times> node_id list) result" where
  "delete_owned_row krate r s =
     (case s of (db, stubs) \<Rightarrow>
        (case delete_row r (gd_rows db) of (deleted, d) \<Rightarrow>
           if \<not> deleted then Inl (OwnedRowMissing krate r)
           else Inr (db\<lparr>gd_rows := d,
                        gd_embeddings := (if ow_tag r = NodesById then (gd_embeddings db)(ow_key r := None)
                                          else gd_embeddings db)\<rparr>,
                     if ow_tag r = StubOwners then stubs @ [ow_key r] else stubs)))"

definition delete_stub :: "node_id \<Rightarrow> graph_db \<Rightarrow> graph_db" where
  "delete_stub stub db =
     (if values_at StubOwners stub (gd_rows db) \<noteq> {} then db
      else db\<lparr>gd_rows := snd (delete_key StaticMetadataByTarget stub
                           (snd (delete_key SignaturesByTarget stub (snd (delete_key NodesById stub (gd_rows db)))))),
              gd_embeddings := (gd_embeddings db)(stub := None)\<rparr>)"

definition delete_crate_rows :: "node_id \<Rightarrow> graph_db \<Rightarrow> (graph_error, graph_db \<times> nat) result" where
  "delete_crate_rows krate db =
     and_then (rows_of_crate krate (gd_rows db)) (\<lambda>rows.
     and_then (for_each (delete_owned_row krate) rows (db, [])) (\<lambda>(db1, stubs).
       let db2 = fold delete_stub stubs db1 in
       Inr (db2\<lparr>gd_rows := snd (delete_key OwnedRowsByCrate krate (gd_rows db2))\<rparr>, length rows)))"

subsection \<open>Encoding\<close>

definition row_shape :: "owned_row \<Rightarrow> bool" where
  "row_shape r \<longleftrightarrow> ow_tag r \<noteq> OwnedRowsByCrate \<and> (is_dup_sort (ow_tag r) \<longleftrightarrow> ow_dup r \<noteq> None)"

lemma decode_encode [simp]: "row_shape r \<Longrightarrow> decode (encode r) = Inr r"
  by (cases r) (auto simp: decode_def encode_def row_shape_def ID_LEN_def Let_def)

lemma encode_inject: "row_shape r \<Longrightarrow> row_shape r' \<Longrightarrow> encode r = encode r' \<longleftrightarrow> r = r'"
  by (metis Inr_inject decode_encode)

lemma decode_shape: "decode bs = Inr r \<Longrightarrow> row_shape r"
  by (auto simp: decode_def row_shape_def Let_def split: list.splits option.splits if_splits)

lemma decode_rows_encode: "list_all row_shape rs \<Longrightarrow> decode_rows (map encode rs) = Inr rs"
  by (induction rs) simp_all

end
