(* ===== verification/Ownership_Laws.thy ===== *)
theory Ownership_Laws
  imports Ownership
begin

text \<open>
  What row ownership promises: a snapshot is the disjoint union of what its crates contributed and of the shared rows;
  deleting a crate takes its contribution out and nothing else, writing a crate puts its contribution in, and the rows are
  determined by the contributions. Hence a crate can be taken out and written again, in any order, and the snapshot is the one
  that a build of everything writes.
\<close>

subsection \<open>Contributions\<close>

text \<open>The rows that a model puts under one owner, in the order in which they are written.\<close>

type_synonym row_put = "db_tag \<times> node_id \<times> row_value"

definition owned_node :: "node_id \<Rightarrow> graph_node \<Rightarrow> row_put list" where
  "owned_node c n =
     (if nd_kind n \<notin> {KindWorkspace, KindExternalSymbol} \<and> nd_crate_id n = Some c then [(NodesById, nd_id n, NodeV n)] else [])"

definition named_stub :: "extraction_model \<Rightarrow> graph_binding \<Rightarrow> graph_node option" where
  "named_stub M b = (case map_of (em_nodes M) (bd_target b) of
     None \<Rightarrow> None | Some n \<Rightarrow> if nd_kind n = KindExternalSymbol then Some n else None)"

definition owned_binding :: "(string \<Rightarrow> node_id) \<Rightarrow> extraction_model \<Rightarrow> node_id \<Rightarrow> graph_binding \<Rightarrow> row_put list" where
  "owned_binding sha M c b =
     (if owner_of M (bd_from_module b) = Inr c
      then [(BindingsById, binding_id_for sha b, BindingV b),
            (BindingsByFromModule, bd_from_module b, IdV (binding_id_for sha b)),
            (BindingsByTarget, bd_target b, IdV (binding_id_for sha b))] @
           (case named_stub M b of None \<Rightarrow> [] | Some n \<Rightarrow> [(StubOwners, nd_id n, IdV c)])
      else [])"

definition owned_contains :: "extraction_model \<Rightarrow> node_id \<Rightarrow> node_id \<times> node_id \<Rightarrow> row_put list" where
  "owned_contains M c e = (if owner_of M (snd e) = Inr c then [(ChildrenByParent, fst e, IdV (snd e))] else [])"

definition owned_usage ::
  "(string \<Rightarrow> node_id) \<Rightarrow> (expansion_site option \<Rightarrow> string) \<Rightarrow> extraction_model \<Rightarrow> node_id \<Rightarrow> graph_usage \<Rightarrow> row_put list" where
  "owned_usage sha json M c u =
     (if owner_of M (us_consumer_module u) = Inr c
      then let uid = usage_id_for sha json u in
           [(UsagesById, uid, UsageV u), (UsagesByTarget, us_target u, IdV uid), (UsagesByConsumer, us_consumer_module u, IdV uid)] @
           (case us_consumer_function u of None \<Rightarrow> [] | Some f \<Rightarrow> [(UsagesByConsumerFunction, f, IdV uid)]) @
           (case us_consumer_item u of None \<Rightarrow> [] | Some i \<Rightarrow> [(UsagesByConsumerItem, i, IdV uid)])
      else [])"

definition owned_calls :: "extraction_model \<Rightarrow> node_id \<Rightarrow> unresolved_call list" where
  "owned_calls M c = filter (\<lambda>u. owner_of M (uc_consumer_module u) = Inr c) (em_unresolved_calls M)"

definition owned_call_rows :: "extraction_model \<Rightarrow> node_id \<Rightarrow> row_put list" where
  "owned_call_rows M c =
     map (\<lambda>i. (UnresolvedCallsByOwner, i, CallsV (sorted_calls (filter (\<lambda>u. call_item u = i) (owned_calls M c)))))
       (sorted_list_of_set (call_item ` set (owned_calls M c)))"

definition owned_record ::
  "db_tag \<Rightarrow> ('r \<Rightarrow> row_value) \<Rightarrow> extraction_model \<Rightarrow> node_id \<Rightarrow> node_id \<times> 'r \<Rightarrow> row_put list" where
  "owned_record t wrap M c e =
     (if \<not> is_stub M (fst e) \<and> owner_of M (fst e) = Inr c then [(t, fst e, wrap (snd e))] else [])"

definition owned_rows ::
  "(string \<Rightarrow> node_id) \<Rightarrow> (expansion_site option \<Rightarrow> string) \<Rightarrow> extraction_model \<Rightarrow> node_id \<Rightarrow> row_put list" where
  "owned_rows sha json M c =
     concat (map (owned_node c) (map snd (em_nodes M))) @ concat (map (owned_binding sha M c) (em_bindings M)) @
     concat (map (owned_contains M c) (em_contains M)) @ concat (map (owned_usage sha json M c) (em_usages M)) @
     owned_call_rows M c @
     concat (map (owned_record SignaturesByTarget SignatureV M c) (em_signatures M)) @
     concat (map (owned_record StaticMetadataByTarget StaticV M c) (em_statics M))"

definition no_rows :: graph_rows where
  "no_rows = (\<lambda>_. {})"

fun put_row :: "row_put \<Rightarrow> graph_rows \<Rightarrow> graph_rows" where
  "put_row (t, k, v) d = put t k v d"

definition contribution ::
  "(string \<Rightarrow> node_id) \<Rightarrow> (expansion_site option \<Rightarrow> string) \<Rightarrow> extraction_model \<Rightarrow> node_id \<Rightarrow> graph_rows" where
  "contribution sha json M c = fold put_row (owned_rows sha json M c) no_rows"

subsection \<open>Where a row belongs\<close>

fun id_of :: "row_value \<Rightarrow> node_id" where
  "id_of (IdV i) = i"
| "id_of _ = 0"

definition row_of :: "db_tag \<Rightarrow> node_id \<Rightarrow> row_value \<Rightarrow> owned_row" where
  "row_of t k v = (if is_dup_sort t then dup_row t k (id_of v) else plain_row t k)"

text \<open>Facts about a workspace that all its models agree on: the crate of a node, of a binding id and of a usage id; the
  workspace node; the rows of the stubs.\<close>

record placement =
  pl_crate :: "node_id \<rightharpoonup> node_id"
  pl_binding :: "node_id \<rightharpoonup> node_id"
  pl_usage :: "node_id \<rightharpoonup> node_id"
  pl_workspace :: graph_node
  pl_stubs :: graph_rows

fun home :: "placement \<Rightarrow> db_tag \<Rightarrow> node_id \<Rightarrow> row_value \<Rightarrow> node_id option" where
  "home P BindingsById k v = pl_binding P k"
| "home P BindingsByFromModule k v = pl_binding P (id_of v)"
| "home P BindingsByTarget k v = pl_binding P (id_of v)"
| "home P ChildrenByParent k v = pl_crate P (id_of v)"
| "home P UsagesById k v = pl_usage P k"
| "home P UsagesByTarget k v = pl_usage P (id_of v)"
| "home P UsagesByConsumer k v = pl_usage P (id_of v)"
| "home P UsagesByConsumerFunction k v = pl_usage P (id_of v)"
| "home P UsagesByConsumerItem k v = pl_usage P (id_of v)"
| "home P StubOwners k v = Some (id_of v)"
| "home P t k v = pl_crate P k"

definition stub_ids :: "placement \<Rightarrow> node_id set" where
  "stub_ids P = fst ` pl_stubs P NodesById"

definition placement_ok :: "placement \<Rightarrow> bool" where
  "placement_ok P \<longleftrightarrow>
     pl_crate P (nd_id (pl_workspace P)) = None \<and> nd_id (pl_workspace P) \<notin> stub_ids P \<and>
     (\<forall>i \<in> stub_ids P. pl_crate P i = None) \<and>
     (\<forall>t. t \<notin> {NodesById, SignaturesByTarget, StaticMetadataByTarget} \<longrightarrow> pl_stubs P t = {}) \<and>
     (\<forall>t. fst ` pl_stubs P t \<subseteq> stub_ids P) \<and>
     (\<forall>t i v w. (i, v) \<in> pl_stubs P t \<longrightarrow> (i, w) \<in> pl_stubs P t \<longrightarrow> v = w)"

text \<open>A model that keeps to these facts.\<close>

definition records_fit :: "placement \<Rightarrow> extraction_model \<Rightarrow> db_tag \<Rightarrow> ('r \<Rightarrow> row_value) \<Rightarrow> (node_id \<times> 'r) list \<Rightarrow> bool" where
  "records_fit P M t wrap rs \<longleftrightarrow>
     (\<forall>i. is_stub M i \<longrightarrow> {(i, wrap r) | r. (i, r) \<in> set rs} = {e \<in> pl_stubs P t. fst e = i})"

definition model_fits ::
  "(string \<Rightarrow> node_id) \<Rightarrow> (expansion_site option \<Rightarrow> string) \<Rightarrow> placement \<Rightarrow> extraction_model \<Rightarrow> bool" where
  "model_fits sha json P M \<longleftrightarrow>
     nodes_ok M \<and>
     (\<exists>n \<in> snd ` set (em_nodes M). nd_kind n = KindWorkspace) \<and>
     (\<forall>n \<in> snd ` set (em_nodes M). nd_crate_id n = pl_crate P (nd_id n) \<and>
        (nd_kind n = KindWorkspace \<longrightarrow> n = pl_workspace P) \<and>
        (nd_kind n = KindExternalSymbol \<longrightarrow> (nd_id n, NodeV n) \<in> pl_stubs P NodesById)) \<and>
     (\<forall>b \<in> set (em_bindings M). pl_binding P (binding_id_for sha b) = pl_crate P (bd_from_module b)) \<and>
     (\<forall>u \<in> set (em_usages M). pl_usage P (usage_id_for sha json u) = pl_crate P (us_consumer_module u)) \<and>
     (\<forall>u \<in> set (em_unresolved_calls M). pl_crate P (call_item u) = pl_crate P (uc_consumer_module u)) \<and>
     records_fit P M SignaturesByTarget SignatureV (em_signatures M) \<and>
     records_fit P M StaticMetadataByTarget StaticV (em_statics M)"

subsection \<open>The rows as a disjoint union\<close>

type_synonym contributions = "node_id \<Rightarrow> graph_rows"

definition rows_split :: "graph_rows \<Rightarrow> contributions \<Rightarrow> graph_rows \<Rightarrow> bool" where
  "rows_split d C Z \<longleftrightarrow>
     (\<forall>t. t \<noteq> OwnedRowsByCrate \<longrightarrow> d t = (\<Union>c. C c t) \<union> Z t) \<and>
     d OwnedRowsByCrate = {(c, OwnedV (encode (row_of t k v))) | c t k v. (k, v) \<in> C c t}"

definition owned_ok :: "placement \<Rightarrow> contributions \<Rightarrow> bool" where
  "owned_ok P C \<longleftrightarrow>
     (\<forall>c t k v. (k, v) \<in> C c t \<longrightarrow>
        t \<noteq> OwnedRowsByCrate \<and> home P t k v = Some c \<and> (is_dup_sort t \<longrightarrow> v = IdV (id_of v)) \<and>
        (t = StubOwners \<longrightarrow> k \<in> stub_ids P)) \<and>
     (\<forall>c t k v w. \<not> is_dup_sort t \<longrightarrow> (k, v) \<in> C c t \<longrightarrow> (k, w) \<in> C c t \<longrightarrow> v = w) \<and>
     (\<forall>c t. finite (C c t))"

text \<open>The rows that may be shared, and those that are, given which stubs are named.\<close>

definition shared_rows :: "placement \<Rightarrow> graph_rows" where
  "shared_rows P t = (if t = NodesById then {(nd_id (pl_workspace P), NodeV (pl_workspace P))} else {}) \<union> pl_stubs P t"

definition stub_named :: "contributions \<Rightarrow> node_id \<Rightarrow> bool" where
  "stub_named C i \<longleftrightarrow> (\<exists>c v. (i, v) \<in> C c StubOwners)"

definition shared_of :: "placement \<Rightarrow> bool \<Rightarrow> contributions \<Rightarrow> graph_rows" where
  "shared_of P w C t =
     (if t = NodesById \<and> w then {(nd_id (pl_workspace P), NodeV (pl_workspace P))} else {}) \<union>
     {e \<in> pl_stubs P t. stub_named C (fst e)}"

definition snapshot_of :: "placement \<Rightarrow> bool \<Rightarrow> contributions \<Rightarrow> graph_rows \<Rightarrow> bool" where
  "snapshot_of P w C d \<longleftrightarrow> owned_ok P C \<and> rows_split d C (shared_of P w C)"

lemma rows_split_unique: "rows_split d C Z \<Longrightarrow> rows_split e C Z \<Longrightarrow> d t = e t"
  by (cases "t = OwnedRowsByCrate") (simp_all add: rows_split_def)

lemma snapshot_of_unique: "snapshot_of P w C d \<Longrightarrow> snapshot_of P w C e \<Longrightarrow> d = e"
  unfolding snapshot_of_def by (elim conjE, rule ext, erule (1) rows_split_unique)

lemma row_shape_row_of [simp]: "t \<noteq> OwnedRowsByCrate \<Longrightarrow> row_shape (row_of t k v)"
  by (simp add: row_shape_def row_of_def dup_row_def plain_row_def)

lemma row_of_fields [simp]: "ow_tag (row_of t k v) = t" "ow_key (row_of t k v) = k"
  "ow_dup (row_of t k v) = (if is_dup_sort t then Some (id_of v) else None)"
  by (simp_all add: row_of_def dup_row_def plain_row_def)

lemma row_of_inject: "row_of t k v = row_of u l w \<longleftrightarrow> t = u \<and> k = l \<and> (is_dup_sort t \<longrightarrow> id_of v = id_of w)"
  by (auto simp: row_of_def dup_row_def plain_row_def)

lemma home_cong: "row_of t k v = row_of t k' w \<Longrightarrow> home P t k v = home P t k' w"
  by (cases t) (simp_all add: row_of_inject)

lemma put_other: "t \<noteq> u \<Longrightarrow> put t k v d u = d u"
  by (simp add: put_def)

lemma put_same: "put t k v d t = insert (k, v) (if is_dup_sort t then d t else {r \<in> d t. fst r \<noteq> k})"
  by (auto simp: put_def)

lemma own_commute: "t \<noteq> OwnedRowsByCrate \<Longrightarrow> put t k v (own c r d) = own c r (put t k v d)"
  by (rule ext) (simp add: own_def put_def)


subsection \<open>One row at a time\<close>

definition put_owned :: "node_id \<Rightarrow> row_put \<Rightarrow> graph_rows \<Rightarrow> graph_rows" where
  "put_owned c r d = (case r of (t, k, v) \<Rightarrow> own c (row_of t k v) (put t k v d))"

text \<open>A row that may be put under an owner.\<close>

definition row_fits :: "placement \<Rightarrow> node_id \<Rightarrow> row_put \<Rightarrow> bool" where
  "row_fits P c r = (case r of (t, k, v) \<Rightarrow>
     t \<noteq> OwnedRowsByCrate \<and> home P t k v = Some c \<and> (is_dup_sort t \<longrightarrow> v = IdV (id_of v)) \<and>
     (t = StubOwners \<longrightarrow> k \<in> stub_ids P))"

definition shared_fits :: "placement \<Rightarrow> graph_rows \<Rightarrow> bool" where
  "shared_fits P Z \<longleftrightarrow> (\<forall>t. Z t \<subseteq> shared_rows P t)"

lemma placement_okD:
  assumes "placement_ok P"
  shows "pl_crate P (nd_id (pl_workspace P)) = None" "nd_id (pl_workspace P) \<notin> stub_ids P"
    "i \<in> stub_ids P \<Longrightarrow> pl_crate P i = None"
    "(i, v) \<in> pl_stubs P t \<Longrightarrow> t = NodesById \<or> t = SignaturesByTarget \<or> t = StaticMetadataByTarget"
    "(i, v) \<in> pl_stubs P t \<Longrightarrow> i \<in> stub_ids P"
    "(i, v) \<in> pl_stubs P t \<Longrightarrow> (i, w) \<in> pl_stubs P t \<Longrightarrow> v = w"
proof -
  note d = assms[unfolded placement_ok_def]
  show "pl_crate P (nd_id (pl_workspace P)) = None" "nd_id (pl_workspace P) \<notin> stub_ids P" using d by simp_all
  show "i \<in> stub_ids P \<Longrightarrow> pl_crate P i = None" using d by simp
  show "(i, v) \<in> pl_stubs P t \<Longrightarrow> t = NodesById \<or> t = SignaturesByTarget \<or> t = StaticMetadataByTarget" using d by auto
  show "(i, v) \<in> pl_stubs P t \<Longrightarrow> i \<in> stub_ids P" using d by force
  show "(i, v) \<in> pl_stubs P t \<Longrightarrow> (i, w) \<in> pl_stubs P t \<Longrightarrow> v = w" using d by blast
qed

lemma in_shared_rows: "(k, v) \<in> shared_rows P t \<longleftrightarrow>
    t = NodesById \<and> k = nd_id (pl_workspace P) \<and> v = NodeV (pl_workspace P) \<or> (k, v) \<in> pl_stubs P t"
  by (auto simp: shared_rows_def)

lemma shared_home:
  assumes "placement_ok P" "(k, v) \<in> shared_rows P t"
  shows "home P t k w = None \<and> \<not> is_dup_sort t \<and> t \<in> {NodesById, SignaturesByTarget, StaticMetadataByTarget}"
proof -
  consider "t = NodesById" "k = nd_id (pl_workspace P)" | "(k, v) \<in> pl_stubs P t"
    using assms(2) by (auto simp: in_shared_rows)
  then have t: "t = NodesById \<or> t = SignaturesByTarget \<or> t = StaticMetadataByTarget" and k: "pl_crate P k = None"
    by (cases; use placement_okD[OF assms(1)] in blast)+
  then show ?thesis by auto
qed

lemma shared_unique:
  assumes "placement_ok P" "(k, v) \<in> shared_rows P t" "(k, w) \<in> shared_rows P t"
  shows "v = w"
  using assms(2,3) placement_okD(2)[OF assms(1)] unfolding in_shared_rows
  by (elim disjE conjE) (auto dest: placement_okD(5,6)[OF assms(1)])

lemma owned_okD:
  assumes "owned_ok P C" "(k, v) \<in> C c t"
  shows "row_fits P c (t, k, v)" "t \<noteq> OwnedRowsByCrate" "home P t k v = Some c" "is_dup_sort t \<Longrightarrow> v = IdV (id_of v)"
  using assms by (auto simp: owned_ok_def row_fits_def)

lemma owned_ok_same_row:
  assumes "owned_ok P C" "(k, v) \<in> C c t" "(l, w) \<in> C c' t'" "row_of t k v = row_of t' l w"
  shows "c = c' \<and> t = t' \<and> k = l \<and> v = w"
proof -
  have 1: "t = t'" "k = l" using assms(4) by (simp_all add: row_of_inject)
  have 2: "c = c'" using owned_okD(3)[OF assms(1,2)] owned_okD(3)[OF assms(1,3)] home_cong[of t k v l w P] assms(4) 1 by simp
  have "v = w"
  proof (cases "is_dup_sort t")
    case True
    then show ?thesis using assms(4) owned_okD(4)[OF assms(1)] assms(2,3) 1 by (metis row_of_inject)
  next
    case False
    then show ?thesis using assms(1-3) 1 2 by (auto simp: owned_ok_def)
  qed
  then show ?thesis using 1 2 by simp
qed

lemma owned_ok_put:
  assumes "owned_ok P C" "row_fits P c (t, k, v)"
  shows "owned_ok P (C(c := put t k v (C c)))"
  unfolding owned_ok_def
proof (intro conjI allI impI)
  fix c' t' k' v' assume "(k', v') \<in> (C(c := put t k v (C c))) c' t'"
  then have "(k', v') \<in> C c' t' \<or> c' = c \<and> t' = t \<and> k' = k \<and> v' = v"
    by (auto simp: in_put split: if_splits)
  then have "row_fits P c' (t', k', v')" using assms(2) owned_okD(1)[OF assms(1)] by auto
  then show "t' \<noteq> OwnedRowsByCrate" "home P t' k' v' = Some c'" "is_dup_sort t' \<Longrightarrow> v' = IdV (id_of v')"
    "t' = StubOwners \<Longrightarrow> k' \<in> stub_ids P" by (simp_all add: row_fits_def)
next
  fix c' t' k' v' w'
  assume "\<not> is_dup_sort t'" "(k', v') \<in> (C(c := put t k v (C c))) c' t'" "(k', w') \<in> (C(c := put t k v (C c))) c' t'"
  then show "v' = w'" using assms(1) by (auto simp: in_put owned_ok_def split: if_splits)
next
  fix c' t'
  have "finite (C c' t')" "finite (C c t')" using assms(1) by (auto simp: owned_ok_def)
  then show "finite ((C(c := put t k v (C c))) c' t')" by (auto simp: put_def)
qed

lemma UN_fun_upd: "(\<Union>c'. (C(c := X)) c' t) = X t \<union> (\<Union>c' \<in> - {c}. C c' t)"
  by (auto split: if_splits)

lemma rows_split_put_owned:
  assumes "placement_ok P" "owned_ok P C" "shared_fits P Z" "rows_split d C Z" "row_fits P c (t, k, v)"
  shows "rows_split (put_owned c (t, k, v) d) (C(c := put t k v (C c))) Z"
proof -
  let ?C = "C(c := put t k v (C c))"
  have t: "t \<noteq> OwnedRowsByCrate" "home P t k v = Some c" using assms(5) by (simp_all add: row_fits_def)
  have others: "(k, w) \<notin> C c' t" if "c' \<noteq> c" "\<not> is_dup_sort t" for c' w
    using owned_okD(3)[OF assms(2), of k w c' t] t(2) that home_cong[of t k v k w P] by (auto simp: row_of_inject)
  have shared: "(k, w) \<notin> Z t" if "\<not> is_dup_sort t" for w
    using shared_home[OF assms(1), of k w t v] assms(3) t(2) by (auto simp: shared_fits_def)
  have d: "d u = (\<Union>c. C c u) \<union> Z u" if "u \<noteq> OwnedRowsByCrate" for u using assms(4) that by (simp add: rows_split_def)
  have "put_owned c (t, k, v) d u = (\<Union>c. ?C c u) \<union> Z u" if u: "u \<noteq> OwnedRowsByCrate" for u
  proof (cases "u = t")
    case True
    have "(\<Union>c. ?C c t) = insert (k, v) (if is_dup_sort t then \<Union>c. C c t else {r \<in> \<Union>c. C c t. fst r \<noteq> k})"
    proof (cases "is_dup_sort t")
      case False
      have "C c' t = {r \<in> C c' t. fst r \<noteq> k}" if "c' \<in> - {c}" for c' using others[of c'] that False by auto
      then have "(\<Union>c' \<in> - {c}. C c' t) = (\<Union>c' \<in> - {c}. {r \<in> C c' t. fst r \<noteq> k})" by (rule SUP_cong[OF refl])
      then show ?thesis using False unfolding UN_fun_upd by (auto simp: put_same)
    next
      case True
      then show ?thesis unfolding UN_fun_upd by (auto simp: put_same)
    qed
    moreover have "{r \<in> Z t. fst r \<noteq> k} = Z t" if "\<not> is_dup_sort t" using shared[OF that] by auto
    ultimately have "put t k v d t = (\<Union>c. ?C c t) \<union> Z t"
      using d[OF t(1)] by (simp add: put_same) blast
    then show ?thesis using u True by (simp add: put_owned_def own_def put_other)
  next
    case False
    then have "put t k v X u = X u" for X by (simp add: put_other)
    then have "(\<Union>c. ?C c u) = (\<Union>c. C c u)" unfolding UN_fun_upd by auto
    then show ?thesis using u False d[OF u] by (simp add: put_owned_def own_def put_other)
  qed
  moreover have "put_owned c (t, k, v) d OwnedRowsByCrate =
      insert (c, OwnedV (encode (row_of t k v))) (d OwnedRowsByCrate)"
    using t by (auto simp: put_owned_def own_def put_same put_other)
  moreover have "insert (c, OwnedV (encode (row_of t k v))) {(c, OwnedV (encode (row_of t k v))) | c t k v. (k, v) \<in> C c t} =
      {(c, OwnedV (encode (row_of t k v))) | c t k v. (k, v) \<in> ?C c t}" (is "insert ?e ?A = ?B")
  proof (rule set_eqI, rule iffI)
    fix e assume "e \<in> insert ?e ?A"
    then consider "e = ?e" | c' t' k' v' where "e = (c', OwnedV (encode (row_of t' k' v')))" "(k', v') \<in> C c' t'" by blast
    then show "e \<in> ?B"
    proof cases
      case 1
      then show ?thesis by (intro CollectI exI[of _ c] exI[of _ t] exI[of _ k] exI[of _ v]) (simp add: put_same)
    next
      case (2 c' t' k' v')
      show ?thesis
      proof (cases "(k', v') \<in> ?C c' t'")
        case True
        then show ?thesis using 2(1) by blast
      next
        case False
        then have "c' = c" "t' = t" "k' = k" "\<not> is_dup_sort t" using 2(2) by (auto simp: in_put split: if_splits)
        then have "e = ?e" using 2(1) by (simp add: row_of_def)
        then show ?thesis by (intro CollectI exI[of _ c] exI[of _ t] exI[of _ k] exI[of _ v]) (simp add: put_same)
      qed
    qed
  next
    fix e assume "e \<in> ?B"
    then obtain c' t' k' v' where "e = (c', OwnedV (encode (row_of t' k' v')))" "(k', v') \<in> ?C c' t'" by blast
    then show "e \<in> insert ?e ?A" by (cases "c' = c") (auto simp: in_put split: if_splits)
  qed
  ultimately show ?thesis using assms(4) by (simp add: rows_split_def)
qed

lemma rows_split_put_shared:
  assumes "placement_ok P" "owned_ok P C" "shared_fits P Z" "rows_split d C Z" "(k, v) \<in> shared_rows P t"
  shows "rows_split (put t k v d) C (Z(t := insert (k, v) (Z t)))" "shared_fits P (Z(t := insert (k, v) (Z t)))"
proof -
  have t: "t \<noteq> OwnedRowsByCrate" "\<not> is_dup_sort t" "\<And>w. home P t k w = None"
    using shared_home[OF assms(1,5)] by auto
  have "(k, w) \<notin> C c t" for c w using owned_okD(3)[OF assms(2), of k w c t] t(3) by auto
  moreover have "w = v" if "(k, w) \<in> Z t" for w
    using shared_unique[OF assms(1) _ assms(5)] assms(3) that by (auto simp: shared_fits_def)
  ultimately have "put t k v d t = (\<Union>c. C c t) \<union> insert (k, v) (Z t)"
    using assms(4) t by (auto simp: put_same rows_split_def; blast)
  then show "rows_split (put t k v d) C (Z(t := insert (k, v) (Z t)))"
    using assms(4) t by (auto simp: rows_split_def put_other)
  show "shared_fits P (Z(t := insert (k, v) (Z t)))"
    using assms(3,5) by (auto simp: shared_fits_def)
qed


subsection \<open>Many rows\<close>

definition add_rows :: "(node_id \<Rightarrow> bool) \<Rightarrow> (node_id \<Rightarrow> row_put list) \<Rightarrow> contributions \<Rightarrow> contributions" where
  "add_rows keep acts C = (\<lambda>c. if keep c then fold put_row (acts c) (C c) else C c)"

lemma add_rows_append: "add_rows keep b (add_rows keep a C) = add_rows keep (\<lambda>c. a c @ b c) C"
  by (rule ext) (simp add: add_rows_def)

lemma add_rows_Nil [simp]: "add_rows keep (\<lambda>c. []) C = C"
  by (rule ext) (simp add: add_rows_def)

lemma add_rows_single:
  assumes "\<And>c'. c' \<noteq> c \<Longrightarrow> acts c' = []" "keep c"
  shows "add_rows keep acts C = C(c := fold put_row (acts c) (C c))"
  using assms by (auto simp: add_rows_def)

text \<open>The invariant of the loops that write: the rows so far are those of the contributions and the shared ones.\<close>

definition writing :: "placement \<Rightarrow> graph_rows \<Rightarrow> contributions \<Rightarrow> graph_rows \<Rightarrow> bool" where
  "writing P d C Z \<longleftrightarrow> owned_ok P C \<and> shared_fits P Z \<and> rows_split d C Z"

lemma writing_put_owned:
  assumes "placement_ok P" "writing P d C Z" "row_fits P c r"
  shows "writing P (put_owned c r d) (C(c := put_row r (C c))) Z"
  using assms owned_ok_put[of P C c] rows_split_put_owned[of P C Z d c] by (cases r) (simp add: writing_def)

lemma writing_put_many:
  assumes "placement_ok P" "writing P d C Z" "\<And>r. r \<in> set rs \<Longrightarrow> row_fits P c r"
  shows "writing P (fold (put_owned c) rs d) (C(c := fold put_row rs (C c))) Z"
  using assms(2,3)
proof (induction rs arbitrary: d C)
  case (Cons r rs)
  have "writing P (put_owned c r d) (C(c := put_row r (C c))) Z"
    using writing_put_owned[OF assms(1) Cons.prems(1)] Cons.prems(2) by simp
  from Cons.IH[OF this] Cons.prems(2) show ?case by (simp only: fold_simps fun_upd_same fun_upd_upd) simp
qed simp

lemma writing_put_shared:
  assumes "placement_ok P" "writing P d C Z" "(k, v) \<in> shared_rows P t"
  shows "writing P (put t k v d) C (Z(t := insert (k, v) (Z t)))"
  using assms(2,3) rows_split_put_shared[OF assms(1), of C Z d k v t] unfolding writing_def by blast

text \<open>A loop over a list, with what has been done so far.\<close>

lemma for_each_prefix:
  assumes "for_each f xs s = Inr s'" "I [] s"
    and "\<And>ys x zs s s'. xs = ys @ x # zs \<Longrightarrow> I ys s \<Longrightarrow> f x s = Inr s' \<Longrightarrow> I (ys @ [x]) s'"
  shows "I xs s'"
proof -
  have "for_each f zs s = Inr s' \<Longrightarrow> xs = ys @ zs \<Longrightarrow> I ys s \<Longrightarrow> I xs s'" for ys zs s
  proof (induction zs arbitrary: ys s)
    case (Cons x zs)
    then obtain s1 where 1: "f x s = Inr s1" "for_each f zs s1 = Inr s'" by (auto simp: and_then_Inr)
    then show ?case using Cons.IH[OF 1(2), of "ys @ [x]"] Cons.prems assms(3)[OF Cons.prems(2,3) 1(1)] by simp
  qed simp
  from this[of xs s "[]"] show ?thesis using assms(1,2) by simp
qed

text \<open>The steps of the five loops over owned rows.\<close>

lemma write_contains_step:
  assumes "write_contains M keep e s = Inr s'"
  obtains c where "owner_of M (snd e) = Inr c" "ws_stubs s' = ws_stubs s"
    "ws_rows s' = (if keep c then fold (put_owned c) (owned_contains M c e) (ws_rows s) else ws_rows s)"
proof -
  obtain c where c: "owner_of M (snd e) = Inr c"
    using assms by (cases e) (auto simp: write_contains_def and_then_Inr)
  then show ?thesis
    by (cases "keep c"; intro that[of c]; use assms in \<open>cases e, auto simp: write_contains_def owned_contains_def put_owned_def row_of_def\<close>)
qed

lemma write_usage_step:
  assumes "write_usage sha json M keep u s = Inr s'"
  obtains c where "owner_of M (us_consumer_module u) = Inr c" "ws_stubs s' = ws_stubs s"
    "ws_rows s' = (if keep c then fold (put_owned c) (owned_usage sha json M c u) (ws_rows s) else ws_rows s)"
proof -
  obtain c where c: "owner_of M (us_consumer_module u) = Inr c"
    using assms by (auto simp: write_usage_def and_then_Inr)
  then show ?thesis
    by (cases "keep c"; intro that[of c]; use assms in \<open>auto simp: write_usage_def owned_usage_def put_owned_def row_of_def
      put_indexed_def Let_def split: option.splits\<close>)
qed

lemma write_calls_step:
  assumes "write_calls M (i, cs) s = Inr s'"
  obtains c where "owner_of M (uc_consumer_module (sorted_calls cs ! 0)) = Inr c" "ws_stubs s' = ws_stubs s"
    "ws_rows s' = put_owned c (UnresolvedCallsByOwner, i, CallsV (sorted_calls cs)) (ws_rows s)"
  using assms by (auto simp: write_calls_def and_then_Inr put_owned_def row_of_def Let_def)


lemma write_node_step:
  assumes "write_node keep n s = Inr s'"
  shows "ws_stubs s' = ws_stubs s \<and>
    ((nd_kind n = KindWorkspace \<and> ws_rows s' = put NodesById (nd_id n) (NodeV n) (ws_rows s)) \<or>
     (nd_kind n = KindExternalSymbol \<and> ws_rows s' = ws_rows s) \<or>
     (nd_kind n \<notin> {KindWorkspace, KindExternalSymbol} \<and> (\<exists>c. nd_crate_id n = Some c \<and>
        ws_rows s' = (if keep c then fold (put_owned c) (owned_node c n) (ws_rows s) else ws_rows s))))"
  using assms by (cases "nd_kind n")
    (auto simp: write_node_def put_node_def owned_node_def put_owned_def row_of_def own_commute split: option.splits if_splits)

definition binding_puts :: "(string \<Rightarrow> node_id) \<Rightarrow> graph_binding \<Rightarrow> row_put list" where
  "binding_puts sha b =
     [(BindingsById, binding_id_for sha b, BindingV b), (BindingsByFromModule, bd_from_module b, IdV (binding_id_for sha b)),
      (BindingsByTarget, bd_target b, IdV (binding_id_for sha b))]"

lemma write_binding_step:
  assumes "write_binding sha M keep b s = Inr s'"
  obtains c where "owner_of M (bd_from_module b) = Inr c"
    "\<not> keep c \<Longrightarrow> s' = s"
    "keep c \<Longrightarrow> named_stub M b = None \<Longrightarrow>
       ws_stubs s' = ws_stubs s \<and> ws_rows s' = fold (put_owned c) (binding_puts sha b) (ws_rows s)"
    "\<And>n. keep c \<Longrightarrow> named_stub M b = Some n \<Longrightarrow>
       ws_stubs s' = insert (nd_id n) (ws_stubs s) \<and>
       ws_rows s' = put_owned c (StubOwners, nd_id n, IdV c)
         (if nd_id n \<in> ws_stubs s then fold (put_owned c) (binding_puts sha b) (ws_rows s)
          else put NodesById (nd_id n) (NodeV n) (fold (put_owned c) (binding_puts sha b) (ws_rows s)))"
proof -
  obtain c where c: "owner_of M (bd_from_module b) = Inr c" using assms by (auto simp: write_binding_def and_then_Inr)
  note defs = write_binding_def named_stub_def binding_puts_def put_stub_def put_node_def put_owned_def row_of_def Let_def
  show ?thesis
  proof (rule that[OF c])
    show "\<not> keep c \<Longrightarrow> s' = s" using assms c by (simp add: write_binding_def)
    show "ws_stubs s' = ws_stubs s \<and> ws_rows s' = fold (put_owned c) (binding_puts sha b) (ws_rows s)"
      if "keep c" "named_stub M b = None"
      using assms c that by (cases "map_of (em_nodes M) (bd_target b)") (auto simp: defs split: if_splits)
    show "ws_stubs s' = insert (nd_id n) (ws_stubs s) \<and>
       ws_rows s' = put_owned c (StubOwners, nd_id n, IdV c)
         (if nd_id n \<in> ws_stubs s then fold (put_owned c) (binding_puts sha b) (ws_rows s)
          else put NodesById (nd_id n) (NodeV n) (fold (put_owned c) (binding_puts sha b) (ws_rows s)))"
      if "keep c" "named_stub M b = Some n" for n
      using assms c that by (cases "map_of (em_nodes M) (bd_target b)") (auto simp: defs split: if_splits)
  qed
qed

lemma write_record_step:
  assumes "write_record t wrap M keep e s = Inr s'"
  shows "ws_stubs s' = ws_stubs s \<and>
    (is_stub M (fst e) \<and> ws_rows s' = (if fst e \<in> ws_stubs s then put t (fst e) (wrap (snd e)) (ws_rows s) else ws_rows s) \<or>
     \<not> is_stub M (fst e) \<and> (\<exists>c. owner_of M (fst e) = Inr c) \<and> (\<forall>c. owner_of M (fst e) = Inr c \<longrightarrow> ws_rows s' =
       (if keep c then own c (plain_row t (fst e)) (put t (fst e) (wrap (snd e)) (ws_rows s)) else ws_rows s)))"
  using assms by (cases e) (auto simp: write_record_def record_owner_of_def and_then_Inr Let_def split: if_splits)

subsection \<open>The rows of a model fit\<close>

lemma model_fits_owner:
  assumes "model_fits sha json P M" "owner_of M i = Inr c"
  shows "pl_crate P i = Some c"
proof -
  obtain n where n: "map_of (em_nodes M) i = Some n" "nd_crate_id n = Some c"
    using assms(2) by (auto simp: owner_of_def split: option.splits)
  then have "n \<in> snd ` set (em_nodes M)" by (force dest: map_of_SomeD)
  then show ?thesis using n assms(1) nodes_ok_lookup[of M i n] by (auto simp: model_fits_def)
qed

lemma named_stub_facts:
  assumes "model_fits sha json P M" "named_stub M b = Some n"
  shows "bd_target b = nd_id n" "(nd_id n, NodeV n) \<in> pl_stubs P NodesById" "nd_id n \<in> stub_ids P" "is_stub M (nd_id n)"
proof -
  have n: "map_of (em_nodes M) (bd_target b) = Some n" "nd_kind n = KindExternalSymbol"
    using assms(2) by (auto simp: named_stub_def split: option.splits if_splits)
  then have mem: "n \<in> snd ` set (em_nodes M)" by (force dest: map_of_SomeD)
  show id: "bd_target b = nd_id n" using n assms(1) nodes_ok_lookup[of M _ n] by (auto simp: model_fits_def)
  show "(nd_id n, NodeV n) \<in> pl_stubs P NodesById" using mem n(2) assms(1) by (auto simp: model_fits_def)
  then show "nd_id n \<in> stub_ids P" by (force simp: stub_ids_def)
  show "is_stub M (nd_id n)" using n by (simp add: is_stub_def id)
qed

lemma owned_node_fits: "model_fits sha json P M \<Longrightarrow> n \<in> snd ` set (em_nodes M) \<Longrightarrow> r \<in> set (owned_node c n) \<Longrightarrow> row_fits P c r"
  by (auto simp: owned_node_def row_fits_def model_fits_def split: if_splits)

lemma owned_binding_fits:
  assumes "model_fits sha json P M" "b \<in> set (em_bindings M)" "r \<in> set (owned_binding sha M c b)"
  shows "row_fits P c r"
proof -
  have c: "owner_of M (bd_from_module b) = Inr c" using assms(3) by (auto simp: owned_binding_def split: if_splits)
  then have "pl_binding P (binding_id_for sha b) = Some c"
    using model_fits_owner[OF assms(1) c] assms(1,2) by (simp add: model_fits_def)
  then show ?thesis using assms(3) c named_stub_facts(3)[OF assms(1)]
    by (auto simp: owned_binding_def row_fits_def split: option.splits)
qed

lemma owned_contains_fits: "model_fits sha json P M \<Longrightarrow> r \<in> set (owned_contains M c e) \<Longrightarrow> row_fits P c r"
  by (auto simp: owned_contains_def row_fits_def dest: model_fits_owner split: if_splits)

lemma owned_usage_fits:
  assumes "model_fits sha json P M" "u \<in> set (em_usages M)" "r \<in> set (owned_usage sha json M c u)"
  shows "row_fits P c r"
proof -
  have c: "owner_of M (us_consumer_module u) = Inr c" using assms(3) by (auto simp: owned_usage_def split: if_splits)
  then have "pl_usage P (usage_id_for sha json u) = Some c"
    using model_fits_owner[OF assms(1) c] assms(1,2) by (simp add: model_fits_def)
  then show ?thesis using assms(3) c by (auto simp: owned_usage_def row_fits_def Let_def split: option.splits)
qed

lemma owned_call_rows_fit:
  assumes "model_fits sha json P M" "r \<in> set (owned_call_rows M c)"
  shows "row_fits P c r"
proof -
  obtain u where u: "u \<in> set (em_unresolved_calls M)" "owner_of M (uc_consumer_module u) = Inr c"
    "fst (snd r) = call_item u" "fst r = UnresolvedCallsByOwner"
    using assms(2) by (auto simp: owned_call_rows_def owned_calls_def)
  then have "pl_crate P (call_item u) = Some c"
    using model_fits_owner[OF assms(1) u(2)] assms(1) by (simp add: model_fits_def)
  then show ?thesis using u by (cases r) (simp add: row_fits_def)
qed

lemma owned_record_fits:
  assumes "model_fits sha json P M" "t \<in> {SignaturesByTarget, StaticMetadataByTarget}" "r \<in> set (owned_record t wrap M c e)"
  shows "row_fits P c r"
  using assms by (auto simp: owned_record_def row_fits_def dest: model_fits_owner split: if_splits)


subsection \<open>The loops\<close>

definition so_far :: "(node_id \<Rightarrow> 'x \<Rightarrow> row_put list) \<Rightarrow> 'x list \<Rightarrow> node_id \<Rightarrow> row_put list" where
  "so_far acts xs c = concat (map (acts c) xs)"

lemma so_far_snoc: "so_far acts (xs @ [x]) c = so_far acts xs c @ acts c x"
  by (simp add: so_far_def)

lemma so_far_Nil [simp]: "so_far acts [] = (\<lambda>c. [])"
  by (rule ext) (simp add: so_far_def)

text \<open>A step that puts the rows of one element under its owner.\<close>

lemma add_rows_snoc:
  assumes "\<And>c'. c' \<noteq> c \<Longrightarrow> acts c' x = []"
  shows "add_rows keep (so_far acts (ys @ [x])) C =
    (if keep c then (add_rows keep (so_far acts ys) C)(c := fold put_row (acts c x) (add_rows keep (so_far acts ys) C c))
     else add_rows keep (so_far acts ys) C)"
proof (rule ext)
  fix c'
  show "add_rows keep (so_far acts (ys @ [x])) C c' =
    (if keep c then (add_rows keep (so_far acts ys) C)(c := fold put_row (acts c x) (add_rows keep (so_far acts ys) C c))
     else add_rows keep (so_far acts ys) C) c'"
    using assms[of c'] by (cases "c' = c") (simp_all add: add_rows_def so_far_snoc)
qed

lemma writing_one_owner:
  assumes "placement_ok P" "writing P d (add_rows keep (so_far acts ys) C) Z"
    and "\<And>c'. c' \<noteq> c \<Longrightarrow> acts c' x = []" "\<And>r. r \<in> set (acts c x) \<Longrightarrow> row_fits P c r"
  shows "writing P (if keep c then fold (put_owned c) (acts c x) d else d) (add_rows keep (so_far acts (ys @ [x])) C) Z"
proof -
  have e: "add_rows keep (so_far acts (ys @ [x])) C =
    (if keep c then (add_rows keep (so_far acts ys) C)(c := fold put_row (acts c x) (add_rows keep (so_far acts ys) C c))
     else add_rows keep (so_far acts ys) C)"
    by (rule add_rows_snoc) (rule assms(3))
  show ?thesis unfolding e using writing_put_many[OF assms(1,2), of "acts c x" c] assms(2,4) by simp
qed

lemma writing_no_owner:
  assumes "writing P d (add_rows keep (so_far acts ys) C) Z" "\<And>c. acts c x = []"
  shows "writing P d (add_rows keep (so_far acts (ys @ [x])) C) Z"
proof -
  have "so_far acts (ys @ [x]) = so_far acts ys" using assms(2) by (simp add: so_far_snoc fun_eq_iff)
  then show ?thesis using assms(1) by simp
qed

lemma write_nodes_loop:
  assumes "placement_ok P" "model_fits sha json P M" "for_each (write_node keep) (map snd (em_nodes M)) s = Inr s'"
    and "writing P (ws_rows s) C Z"
  shows "ws_stubs s' = ws_stubs s \<and>
    writing P (ws_rows s') (add_rows keep (so_far owned_node (map snd (em_nodes M))) C)
      (Z(NodesById := insert (nd_id (pl_workspace P), NodeV (pl_workspace P)) (Z NodesById)))"
proof -
  let ?W = "(nd_id (pl_workspace P), NodeV (pl_workspace P))"
  define Zof where "Zof ns = (if \<exists>n \<in> set ns. nd_kind n = KindWorkspace then Z(NodesById := insert ?W (Z NodesById)) else Z)"
    for ns :: "graph_node list"
  let ?xs = "map snd (em_nodes M)"
  have "ws_stubs s' = ws_stubs s \<and> writing P (ws_rows s') (add_rows keep (so_far owned_node ?xs) C) (Zof ?xs)"
    using assms(3)
  proof (rule for_each_prefix)
    show "ws_stubs s = ws_stubs s \<and> writing P (ws_rows s) (add_rows keep (so_far owned_node []) C) (Zof [])"
      using assms(4) by (simp add: Zof_def)
  next
    fix ys n zs t t'
    assume xs: "?xs = ys @ n # zs" and step: "write_node keep n t = Inr t'"
      and I: "ws_stubs t = ws_stubs s \<and> writing P (ws_rows t) (add_rows keep (so_far owned_node ys) C) (Zof ys)"
    have "n \<in> set ?xs" by (simp add: xs)
    then have n: "n \<in> snd ` set (em_nodes M)" by simp
    have w: "writing P (ws_rows t) (add_rows keep (so_far owned_node ys) C) (Zof ys)" using I by simp
    have st: "ws_stubs t' = ws_stubs t" using write_node_step[OF step] by simp
    consider "nd_kind n = KindWorkspace" "ws_rows t' = put NodesById (nd_id n) (NodeV n) (ws_rows t)"
      | "nd_kind n = KindExternalSymbol" "ws_rows t' = ws_rows t"
      | c where "nd_kind n \<noteq> KindWorkspace" "nd_kind n \<noteq> KindExternalSymbol" "nd_crate_id n = Some c"
        "ws_rows t' = (if keep c then fold (put_owned c) (owned_node c n) (ws_rows t) else ws_rows t)"
      using write_node_step[OF step] by auto
    then have "writing P (ws_rows t') (add_rows keep (so_far owned_node (ys @ [n])) C) (Zof (ys @ [n]))"
    proof cases
      case 1
      then have W: "n = pl_workspace P" using assms(2) n unfolding model_fits_def by blast
      have "writing P (ws_rows t') (add_rows keep (so_far owned_node ys) C) ((Zof ys)(NodesById := insert ?W (Zof ys NodesById)))"
        using writing_put_shared[OF assms(1) w, of "nd_id n" "NodeV n" NodesById] 1 by (simp add: in_shared_rows W)
      moreover have "(Zof ys)(NodesById := insert ?W (Zof ys NodesById)) = Zof (ys @ [n])"
        using 1 by (auto simp: Zof_def)
      ultimately show ?thesis using writing_no_owner[of P _ keep owned_node ys C _ n] 1 by (simp add: owned_node_def)
    next
      case 2
      then show ?thesis using writing_no_owner[OF w, of n] by (simp add: owned_node_def Zof_def)
    next
      case (3 c)
      then show ?thesis
        using writing_one_owner[OF assms(1) w, of c n] owned_node_fits[OF assms(2) n] by (simp add: owned_node_def Zof_def)
    qed
    then show "ws_stubs t' = ws_stubs s \<and> writing P (ws_rows t') (add_rows keep (so_far owned_node (ys @ [n])) C) (Zof (ys @ [n]))"
      using I st by simp
  qed
  moreover have "Zof ?xs = Z(NodesById := insert ?W (Z NodesById))"
    using assms(2) by (auto simp: Zof_def model_fits_def)
  ultimately show ?thesis by simp
qed

text \<open>The stubs that a list of bindings names.\<close>

definition stubs_of :: "extraction_model \<Rightarrow> (node_id \<Rightarrow> bool) \<Rightarrow> graph_binding list \<Rightarrow> node_id set" where
  "stubs_of M keep bs = {i. \<exists>b \<in> set bs. \<exists>c n. owner_of M (bd_from_module b) = Inr c \<and> keep c \<and> named_stub M b = Some n \<and> i = nd_id n}"

definition with_stubs :: "placement \<Rightarrow> db_tag \<Rightarrow> node_id set \<Rightarrow> graph_rows \<Rightarrow> graph_rows" where
  "with_stubs P t I Z = Z(t := Z t \<union> {e \<in> pl_stubs P t. fst e \<in> I})"

lemma with_stubs_insert:
  assumes "placement_ok P" "(i, v) \<in> pl_stubs P t"
  shows "(with_stubs P t I Z)(t := insert (i, v) (with_stubs P t I Z t)) = with_stubs P t (insert i I) Z"
proof -
  have "e = (i, v)" if "e \<in> pl_stubs P t \<and> fst e = i" for e
  proof -
    have e: "(i, snd e) = e" using that by (cases e) simp
    then have "snd e = v" using that by (intro placement_okD(6)[OF assms(1) _ assms(2)]) simp
    then show ?thesis using e by simp
  qed
  moreover have "(i, v) \<in> pl_stubs P t \<and> fst (i, v) = i" using assms(2) by simp
  ultimately have "{e \<in> pl_stubs P t. fst e = i} = {(i, v)}" by blast
  then have "{e \<in> pl_stubs P t. fst e \<in> insert i I} = insert (i, v) {e \<in> pl_stubs P t. fst e \<in> I}" by blast
  then show ?thesis by (simp add: with_stubs_def)
qed

lemma with_stubs_member: "placement_ok P \<Longrightarrow> i \<in> I \<Longrightarrow> with_stubs P t (insert i I) Z = with_stubs P t I Z"
  by (simp add: insert_absorb)

lemma write_bindings_loop:
  assumes "placement_ok P" "model_fits sha json P M" "for_each (write_binding sha M keep) (em_bindings M) s = Inr s'"
    and "writing P (ws_rows s) C Z" "ws_stubs s = {}"
  shows "ws_stubs s' = stubs_of M keep (em_bindings M) \<and>
    writing P (ws_rows s') (add_rows keep (so_far (owned_binding sha M) (em_bindings M)) C)
      (with_stubs P NodesById (stubs_of M keep (em_bindings M)) Z)"
  using assms(3)
proof (rule for_each_prefix)
  show "ws_stubs s = stubs_of M keep [] \<and> writing P (ws_rows s) (add_rows keep (so_far (owned_binding sha M) []) C)
      (with_stubs P NodesById (stubs_of M keep []) Z)"
    using assms(4,5) by (simp add: stubs_of_def with_stubs_def)
next
  fix ys b zs t t'
  assume xs: "em_bindings M = ys @ b # zs" and step: "write_binding sha M keep b t = Inr t'"
    and I: "ws_stubs t = stubs_of M keep ys \<and> writing P (ws_rows t) (add_rows keep (so_far (owned_binding sha M) ys) C)
      (with_stubs P NodesById (stubs_of M keep ys) Z)"
  let ?C = "add_rows keep (so_far (owned_binding sha M) ys) C" and ?Z = "with_stubs P NodesById (stubs_of M keep ys) Z"
  have b: "b \<in> set (em_bindings M)" by (simp add: xs)
  obtain c where c: "owner_of M (bd_from_module b) = Inr c" and skip: "\<not> keep c \<Longrightarrow> t' = t"
    and plain: "keep c \<Longrightarrow> named_stub M b = None \<Longrightarrow>
       ws_stubs t' = ws_stubs t \<and> ws_rows t' = fold (put_owned c) (binding_puts sha b) (ws_rows t)"
    and stub: "\<And>n. keep c \<Longrightarrow> named_stub M b = Some n \<Longrightarrow>
       ws_stubs t' = insert (nd_id n) (ws_stubs t) \<and>
       ws_rows t' = put_owned c (StubOwners, nd_id n, IdV c)
         (if nd_id n \<in> ws_stubs t then fold (put_owned c) (binding_puts sha b) (ws_rows t)
          else put NodesById (nd_id n) (NodeV n) (fold (put_owned c) (binding_puts sha b) (ws_rows t)))"
    using write_binding_step[OF step] by metis
  have fits: "row_fits P c r" if "r \<in> set (owned_binding sha M c b)" for r by (rule owned_binding_fits[OF assms(2) b that])
  have none: "owned_binding sha M c' b = []" if "c' \<noteq> c" for c' using c that by (simp add: owned_binding_def)
  have acts: "owned_binding sha M c b = binding_puts sha b @ (case named_stub M b of None \<Rightarrow> [] | Some n \<Rightarrow> [(StubOwners, nd_id n, IdV c)])"
    using c by (simp add: owned_binding_def binding_puts_def)
  have grown: "add_rows keep (so_far (owned_binding sha M) (ys @ [b])) C =
      (if keep c then ?C(c := fold put_row (owned_binding sha M c b) (?C c)) else ?C)"
    by (rule add_rows_snoc[where acts = "owned_binding sha M", OF none])
  have stubs: "stubs_of M keep (ys @ [b]) = (if keep c then (case named_stub M b of None \<Rightarrow> {} | Some n \<Rightarrow> {nd_id n}) else {}) \<union> stubs_of M keep ys"
    using c by (auto simp: stubs_of_def split: option.splits)
  have w: "writing P (ws_rows t) ?C ?Z" using I by simp
  show "ws_stubs t' = stubs_of M keep (ys @ [b]) \<and> writing P (ws_rows t') (add_rows keep (so_far (owned_binding sha M) (ys @ [b])) C)
      (with_stubs P NodesById (stubs_of M keep (ys @ [b])) Z)"
  proof (cases "keep c")
    case False
    then show ?thesis using skip I stubs grown by simp
  next
    case True
    have w1: "writing P (fold (put_owned c) (binding_puts sha b) (ws_rows t)) (?C(c := fold put_row (binding_puts sha b) (?C c))) ?Z"
      by (rule writing_put_many[OF assms(1) w]) (use fits acts in simp)
    show ?thesis
    proof (cases "named_stub M b")
      case None
      then show ?thesis using w1 plain[OF True None] I stubs grown acts True by simp
    next
      case (Some n)
      note nf = named_stub_facts[OF assms(2) Some]
      let ?d = "if nd_id n \<in> ws_stubs t then fold (put_owned c) (binding_puts sha b) (ws_rows t)
          else put NodesById (nd_id n) (NodeV n) (fold (put_owned c) (binding_puts sha b) (ws_rows t))"
      have f: "row_fits P c (StubOwners, nd_id n, IdV c)" using fits acts Some by simp
      have wd: "writing P ?d (?C(c := fold put_row (binding_puts sha b) (?C c))) (with_stubs P NodesById (insert (nd_id n) (stubs_of M keep ys)) Z)"
      proof (cases "nd_id n \<in> ws_stubs t")
        case True
        then show ?thesis using w1 I by (simp add: insert_absorb)
      next
        case False
        then show ?thesis using writing_put_shared[OF assms(1) w1, of "nd_id n" "NodeV n" NodesById] nf(2)
          by (simp add: in_shared_rows with_stubs_insert[OF assms(1) nf(2)])
      qed
      have "writing P (put_owned c (StubOwners, nd_id n, IdV c) ?d)
          ((?C(c := fold put_row (binding_puts sha b) (?C c)))(c := put_row (StubOwners, nd_id n, IdV c) (fold put_row (binding_puts sha b) (?C c))))
          (with_stubs P NodesById (insert (nd_id n) (stubs_of M keep ys)) Z)"
        using writing_put_owned[OF assms(1) wd f] by (simp only: fun_upd_same)
      then show ?thesis using stub[OF True Some] I stubs grown acts Some True by simp
    qed
  qed
qed


lemma write_owned_loop:
  assumes "placement_ok P" "for_each f xs s = Inr s'" "writing P (ws_rows s) C Z"
    and step: "\<And>x t t'. x \<in> set xs \<Longrightarrow> f x t = Inr t' \<Longrightarrow> ws_stubs t' = ws_stubs t \<and>
      (\<exists>c. (\<forall>c'. c' \<noteq> c \<longrightarrow> acts c' x = []) \<and> (\<forall>r \<in> set (acts c x). row_fits P c r) \<and>
        ws_rows t' = (if keep c then fold (put_owned c) (acts c x) (ws_rows t) else ws_rows t))"
  shows "ws_stubs s' = ws_stubs s \<and> writing P (ws_rows s') (add_rows keep (so_far acts xs) C) Z"
  using assms(2)
proof (rule for_each_prefix)
  show "ws_stubs s = ws_stubs s \<and> writing P (ws_rows s) (add_rows keep (so_far acts []) C) Z" using assms(3) by simp
next
  fix ys x zs t t'
  assume xs: "xs = ys @ x # zs" and run: "f x t = Inr t'"
    and I: "ws_stubs t = ws_stubs s \<and> writing P (ws_rows t) (add_rows keep (so_far acts ys) C) Z"
  obtain c where c: "\<And>c'. c' \<noteq> c \<Longrightarrow> acts c' x = []" "\<And>r. r \<in> set (acts c x) \<Longrightarrow> row_fits P c r"
    "ws_rows t' = (if keep c then fold (put_owned c) (acts c x) (ws_rows t) else ws_rows t)" "ws_stubs t' = ws_stubs t"
    using step[OF _ run] xs by auto
  show "ws_stubs t' = ws_stubs s \<and> writing P (ws_rows t') (add_rows keep (so_far acts (ys @ [x])) C) Z"
    using writing_one_owner[OF assms(1) conjunct2[OF I], where c = c and x = x, OF c(1,2)] c(3,4) I by simp
qed

lemma write_contains_loop:
  assumes "placement_ok P" "model_fits sha json P M" "for_each (write_contains M keep) (em_contains M) s = Inr s'"
    and "writing P (ws_rows s) C Z"
  shows "ws_stubs s' = ws_stubs s \<and> writing P (ws_rows s') (add_rows keep (so_far (owned_contains M) (em_contains M)) C) Z"
proof (rule write_owned_loop[OF assms(1,3,4)])
  fix e t t' assume "write_contains M keep e t = Inr t'"
  then obtain c where c: "owner_of M (snd e) = Inr c" "ws_stubs t' = ws_stubs t"
    "ws_rows t' = (if keep c then fold (put_owned c) (owned_contains M c e) (ws_rows t) else ws_rows t)"
    by (rule write_contains_step)
  have "\<forall>c'. c' \<noteq> c \<longrightarrow> owned_contains M c' e = []" using c(1) by (simp add: owned_contains_def)
  then show "ws_stubs t' = ws_stubs t \<and> (\<exists>c. (\<forall>c'. c' \<noteq> c \<longrightarrow> owned_contains M c' e = []) \<and>
      (\<forall>r \<in> set (owned_contains M c e). row_fits P c r) \<and>
      ws_rows t' = (if keep c then fold (put_owned c) (owned_contains M c e) (ws_rows t) else ws_rows t))"
    using c owned_contains_fits[OF assms(2)] by blast
qed

lemma write_usages_loop:
  assumes "placement_ok P" "model_fits sha json P M" "for_each (write_usage sha json M keep) (em_usages M) s = Inr s'"
    and "writing P (ws_rows s) C Z"
  shows "ws_stubs s' = ws_stubs s \<and> writing P (ws_rows s') (add_rows keep (so_far (owned_usage sha json M) (em_usages M)) C) Z"
proof (rule write_owned_loop[OF assms(1,3,4)])
  fix u t t' assume u: "u \<in> set (em_usages M)" and run: "write_usage sha json M keep u t = Inr t'"
  from run obtain c where c: "owner_of M (us_consumer_module u) = Inr c" "ws_stubs t' = ws_stubs t"
    "ws_rows t' = (if keep c then fold (put_owned c) (owned_usage sha json M c u) (ws_rows t) else ws_rows t)"
    by (rule write_usage_step)
  have "\<forall>c'. c' \<noteq> c \<longrightarrow> owned_usage sha json M c' u = []" using c(1) by (simp add: owned_usage_def)
  then show "ws_stubs t' = ws_stubs t \<and> (\<exists>c. (\<forall>c'. c' \<noteq> c \<longrightarrow> owned_usage sha json M c' u = []) \<and>
      (\<forall>r \<in> set (owned_usage sha json M c u). row_fits P c r) \<and>
      ws_rows t' = (if keep c then fold (put_owned c) (owned_usage sha json M c u) (ws_rows t) else ws_rows t))"
    using c owned_usage_fits[OF assms(2) u] by blast
qed

text \<open>Unresolved calls: grouped by item first.\<close>

lemma btree_push_keys: "fst ` set (btree_push k v m) = insert k (fst ` set m)"
  by (induction k v m rule: btree_push.induct) auto

lemma btree_push_sorted: "sorted_wrt (<) (map fst m) \<Longrightarrow> sorted_wrt (<) (map fst (btree_push k v m))"
proof (induction k v m rule: btree_push.induct)
  case (2 k v l vs m)
  have "\<forall>x \<in> fst ` set (btree_push k v m). l < x" if "l < k" using 2(2) that by (auto simp: btree_push_keys)
  then show ?case using 2 by fastforce
qed simp

lemma btree_push_lookup:
  "sorted_wrt (<) (map fst m) \<Longrightarrow>
    map_of (btree_push k v m) = (map_of m)(k \<mapsto> (case map_of m k of None \<Rightarrow> [v] | Some vs \<Rightarrow> vs @ [v]))"
proof (induction k v m rule: btree_push.induct)
  case (2 k v l vs m)
  have "map_of m k = None" if "k < l" using 2(2) that by (force simp: map_of_eq_None_iff)
  then show ?case using 2 by (auto split: option.splits)
qed simp

definition kept_call :: "extraction_model \<Rightarrow> (node_id \<Rightarrow> bool) \<Rightarrow> unresolved_call \<Rightarrow> bool" where
  "kept_call M keep u = (case owner_of M (uc_consumer_module u) of Inl _ \<Rightarrow> False | Inr c \<Rightarrow> keep c)"

lemma collect_calls:
  assumes "for_each (collect_call M keep) us [] = Inr m"
  shows "sorted_wrt (<) (map fst m) \<and> (\<forall>u \<in> set us. \<exists>c. owner_of M (uc_consumer_module u) = Inr c) \<and>
    (\<forall>i. map_of m i = (let cs = filter (\<lambda>u. kept_call M keep u \<and> call_item u = i) us in if cs = [] then None else Some cs))"
  using assms
proof (rule for_each_prefix)
  fix ys u zs m m'
  assume "collect_call M keep u m = Inr m'"
    and I: "sorted_wrt (<) (map fst m) \<and> (\<forall>u \<in> set ys. \<exists>c. owner_of M (uc_consumer_module u) = Inr c) \<and>
      (\<forall>i. map_of m i = (let cs = filter (\<lambda>u. kept_call M keep u \<and> call_item u = i) ys in if cs = [] then None else Some cs))"
  then obtain c where c: "owner_of M (uc_consumer_module u) = Inr c" "m' = (if keep c then btree_push (call_item u) u m else m)"
    by (auto simp: collect_call_def and_then_Inr)
  show "sorted_wrt (<) (map fst m') \<and> (\<forall>u \<in> set (ys @ [u]). \<exists>c. owner_of M (uc_consumer_module u) = Inr c) \<and>
      (\<forall>i. map_of m' i = (let cs = filter (\<lambda>u. kept_call M keep u \<and> call_item u = i) (ys @ [u]) in if cs = [] then None else Some cs))"
    using I c by (auto simp: btree_push_sorted btree_push_lookup kept_call_def Let_def)
qed simp


definition call_act :: "extraction_model \<Rightarrow> node_id \<Rightarrow> node_id \<times> unresolved_call list \<Rightarrow> row_put list" where
  "call_act M c e = (if owner_of M (uc_consumer_module (sorted_calls (snd e) ! 0)) = Inr c
     then [(UnresolvedCallsByOwner, fst e, CallsV (sorted_calls (snd e)))] else [])"

lemma set_sorted_calls [simp]: "set (sorted_calls cs) = set cs"
  by (simp add: sorted_calls_def)

lemma sorted_calls_head: "cs \<noteq> [] \<Longrightarrow> sorted_calls cs ! 0 \<in> set cs"
  using set_sorted_calls[of cs] by (metis length_greater_0_conv nth_mem set_empty)

text \<open>All calls filed under one item belong to one crate: the crate of the item.\<close>

lemma calls_of_item:
  assumes "model_fits sha json P M" "u \<in> set (em_unresolved_calls M)" "owner_of M (uc_consumer_module u) = Inr c"
    and "w \<in> set (em_unresolved_calls M)" "owner_of M (uc_consumer_module w) = Inr c'" "call_item u = call_item w"
  shows "c = c'"
proof -
  have "pl_crate P (call_item u) = Some c" "pl_crate P (call_item w) = Some c'"
    using assms(1-5) model_fits_owner[OF assms(1) assms(3)] model_fits_owner[OF assms(1) assms(5)]
    unfolding model_fits_def by metis+
  then show ?thesis using assms(6) by simp
qed

lemma write_calls_loop:
  assumes "placement_ok P" "model_fits sha json P M" "for_each (collect_call M keep) (em_unresolved_calls M) [] = Inr m"
    and "for_each (write_calls M) m s = Inr s'" "writing P (ws_rows s) C Z"
  shows "ws_stubs s' = ws_stubs s \<and> writing P (ws_rows s') (add_rows keep (owned_call_rows M) C) Z"
proof -
  let ?us = "em_unresolved_calls M"
  note m = collect_calls[OF assms(3)]
  have look: "map_of m i = (let cs = filter (\<lambda>u. kept_call M keep u \<and> call_item u = i) ?us in if cs = [] then None else Some cs)" for i
    using m by simp
  have dist: "distinct (map fst m)" using m strict_sorted_iff by blast
  have entry: "cs \<noteq> [] \<and> cs = filter (\<lambda>u. kept_call M keep u \<and> call_item u = i) ?us" if "(i, cs) \<in> set m" for i cs
    using look[of i] in_alist_iff_lookup[OF dist, of i cs] that by (simp add: Let_def split: if_splits)
  have mine: "filter (\<lambda>u. kept_call M keep u \<and> call_item u = i) ?us = filter (\<lambda>u. call_item u = i) (owned_calls M c)"
    if "u \<in> set ?us" "owner_of M (uc_consumer_module u) = Inr c" "keep c" "call_item u = i" for u c i
    unfolding owned_calls_def filter_filter
  proof (rule filter_cong[OF refl])
    fix w assume w: "w \<in> set ?us"
    obtain c' where c': "owner_of M (uc_consumer_module w) = Inr c'" using m w by blast
    show "(kept_call M keep w \<and> call_item w = i) = (owner_of M (uc_consumer_module w) = Inr c \<and> call_item w = i)"
      using calls_of_item[OF assms(2) that(1,2) w c'] that(3,4) c' by (auto simp: kept_call_def)
  qed
  have head: "\<exists>c. keep c \<and> owner_of M (uc_consumer_module (sorted_calls cs ! 0)) = Inr c \<and>
      (i, cs) \<in> set m \<and> cs = filter (\<lambda>u. call_item u = i) (owned_calls M c)" if "(i, cs) \<in> set m" for i cs
  proof -
    have "sorted_calls cs ! 0 \<in> set cs" using sorted_calls_head entry[OF that] by blast
    then have h: "sorted_calls cs ! 0 \<in> set ?us" "kept_call M keep (sorted_calls cs ! 0)" "call_item (sorted_calls cs ! 0) = i"
      using entry[OF that] by auto
    then obtain c where "owner_of M (uc_consumer_module (sorted_calls cs ! 0)) = Inr c" "keep c"
      by (auto simp: kept_call_def split: sum.splits)
    then show ?thesis using mine[OF h(1) _ _ h(3)] entry[OF that] that by auto
  qed
  have "ws_stubs s' = ws_stubs s \<and> writing P (ws_rows s') (add_rows keep (so_far (call_act M) m) C) Z"
  proof (rule write_owned_loop[OF assms(1,4,5)])
    fix e t t' assume e: "e \<in> set m" and run: "write_calls M e t = Inr t'"
    obtain i cs where ics: "e = (i, cs)" by (cases e)
    obtain c where c: "keep c" "owner_of M (uc_consumer_module (sorted_calls cs ! 0)) = Inr c"
      "cs = filter (\<lambda>u. call_item u = i) (owned_calls M c)" using head e ics by blast
    have u: "sorted_calls cs ! 0 \<in> set ?us" "call_item (sorted_calls cs ! 0) = i"
      using sorted_calls_head[of cs] entry[of i cs] e ics by auto
    have "pl_crate P i = Some c"
      using model_fits_owner[OF assms(2) c(2)] assms(2) u unfolding model_fits_def by metis
    then have "\<forall>r \<in> set (call_act M c e). row_fits P c r" by (simp add: call_act_def row_fits_def ics)
    moreover have "\<forall>c'. c' \<noteq> c \<longrightarrow> call_act M c' e = []" using c(2) by (simp add: call_act_def ics)
    moreover obtain c' where "owner_of M (uc_consumer_module (sorted_calls cs ! 0)) = Inr c'" "ws_stubs t' = ws_stubs t"
      "ws_rows t' = put_owned c' (UnresolvedCallsByOwner, i, CallsV (sorted_calls cs)) (ws_rows t)"
      using write_calls_step[OF run[unfolded ics]] by blast
    ultimately show "ws_stubs t' = ws_stubs t \<and> (\<exists>c. (\<forall>c'. c' \<noteq> c \<longrightarrow> call_act M c' e = []) \<and>
        (\<forall>r \<in> set (call_act M c e). row_fits P c r) \<and>
        ws_rows t' = (if keep c then fold (put_owned c) (call_act M c e) (ws_rows t) else ws_rows t))"
      using c(1,2) by (intro conjI exI[of _ c]) (simp_all add: call_act_def ics)
  qed
  moreover have "so_far (call_act M) m c = owned_call_rows M c" if "keep c" for c
  proof -
    let ?own = "\<lambda>e. owner_of M (uc_consumer_module (sorted_calls (snd e) ! 0)) = Inr c"
    let ?g = "\<lambda>i. (UnresolvedCallsByOwner, i, CallsV (sorted_calls (filter (\<lambda>u. call_item u = i) (owned_calls M c))))"
    have acts: "so_far (call_act M) xs c = map ?g (map fst (filter ?own xs))" if "set xs \<subseteq> set m" for xs
      using that
    proof (induction xs)
      case (Cons e xs)
      have "snd e = filter (\<lambda>u. call_item u = fst e) (owned_calls M c)" if "?own e"
        using head[of "fst e" "snd e"] that Cons.prems by auto
      then show ?case using Cons by (simp add: so_far_def call_act_def)
    qed (simp add: so_far_def)
    have keys: "map fst (filter ?own m) = sorted_list_of_set (call_item ` set (owned_calls M c))"
    proof (rule sorted_distinct_set_unique)
      have "sorted_wrt (<) (map fst (filter ?own m))" using m by (simp add: sorted_wrt_map sorted_wrt_filter)
      then show "sorted (map fst (filter ?own m))" "distinct (map fst (filter ?own m))"
        by (simp_all only: strict_sorted_iff)
      show "set (map fst (filter ?own m)) = set (sorted_list_of_set (call_item ` set (owned_calls M c)))"
      proof (intro set_eqI iffI)
        fix i assume "i \<in> set (map fst (filter ?own m))"
        then obtain cs where cs: "(i, cs) \<in> set m" "?own (i, cs)" by auto
        obtain c' where c': "owner_of M (uc_consumer_module (sorted_calls cs ! 0)) = Inr c'"
          "cs = filter (\<lambda>u. call_item u = i) (owned_calls M c')" using head[OF cs(1)] by blast
        have set_cs: "set cs = {u \<in> set (owned_calls M c'). call_item u = i}" using arg_cong[OF c'(2), of set] by simp
        have "c' = c" using c'(1) cs(2) by simp
        obtain u where "u \<in> set cs" using entry[OF cs(1)] by (metis ex_in_conv set_empty)
        then have "u \<in> set (owned_calls M c)" "call_item u = i" unfolding set_cs \<open>c' = c\<close> by simp_all
        then show "i \<in> set (sorted_list_of_set (call_item ` set (owned_calls M c)))" by auto
      next
        fix i assume "i \<in> set (sorted_list_of_set (call_item ` set (owned_calls M c)))"
        then obtain u where u: "u \<in> set ?us" "owner_of M (uc_consumer_module u) = Inr c" "call_item u = i"
          by (auto simp: owned_calls_def)
        have "kept_call M keep u" using u(2) \<open>keep c\<close> by (simp add: kept_call_def)
        then have "filter (\<lambda>u. kept_call M keep u \<and> call_item u = i) ?us \<noteq> []" using u by (auto simp: filter_empty_conv)
        then obtain cs where cs: "(i, cs) \<in> set m" using look[of i] by (auto simp: Let_def dest: map_of_SomeD)
        obtain c' where c': "owner_of M (uc_consumer_module (sorted_calls cs ! 0)) = Inr c'" using head[OF cs] by blast
        have "sorted_calls cs ! 0 \<in> set ?us" "call_item (sorted_calls cs ! 0) = i"
          using sorted_calls_head[of cs] entry[OF cs] by auto
        then have "c' = c" using calls_of_item[OF assms(2) u(1,2) _ c'] u(3) by simp
        then show "i \<in> set (map fst (filter ?own m))" using cs c' by force
      qed
    qed simp_all
    show ?thesis unfolding owned_call_rows_def keys[symmetric] by (rule acts) (rule order_refl)
  qed
  ultimately show ?thesis by (simp add: add_rows_def cong: if_cong)
qed

lemma write_records_loop:
  assumes "placement_ok P" "model_fits sha json P M" "t \<in> {SignaturesByTarget, StaticMetadataByTarget}"
    and "records_fit P M t wrap rs" "for_each (write_record t wrap M keep) rs s = Inr s'" "writing P (ws_rows s) C Z"
    and "\<And>i. i \<in> ws_stubs s \<Longrightarrow> is_stub M i"
  shows "ws_stubs s' = ws_stubs s \<and> writing P (ws_rows s') (add_rows keep (so_far (owned_record t wrap M) rs) C)
    (with_stubs P t (ws_stubs s) Z)"
proof -
  define Zof where "Zof ys = Z(t := Z t \<union> (\<lambda>e. (fst e, wrap (snd e))) ` {e \<in> set ys. is_stub M (fst e) \<and> fst e \<in> ws_stubs s})"
    for ys :: "(node_id \<times> 'a) list"
  have Zof_skip: "Zof (ys @ [e]) = Zof ys" if "\<not> (is_stub M (fst e) \<and> fst e \<in> ws_stubs s)" for ys e
  proof -
    have "{x \<in> set (ys @ [e]). is_stub M (fst x) \<and> fst x \<in> ws_stubs s} =
        {x \<in> set ys. is_stub M (fst x) \<and> fst x \<in> ws_stubs s}" using that by auto
    then show ?thesis by (simp add: Zof_def)
  qed
  have "ws_stubs s' = ws_stubs s \<and> writing P (ws_rows s') (add_rows keep (so_far (owned_record t wrap M) rs) C) (Zof rs)"
    using assms(5)
  proof (rule for_each_prefix)
    show "ws_stubs s = ws_stubs s \<and> writing P (ws_rows s) (add_rows keep (so_far (owned_record t wrap M) []) C) (Zof [])"
      using assms(6) by (simp add: Zof_def)
  next
    fix ys e zs u u'
    assume xs: "rs = ys @ e # zs" and run: "write_record t wrap M keep e u = Inr u'"
      and I: "ws_stubs u = ws_stubs s \<and> writing P (ws_rows u) (add_rows keep (so_far (owned_record t wrap M) ys) C) (Zof ys)"
    have w: "writing P (ws_rows u) (add_rows keep (so_far (owned_record t wrap M) ys) C) (Zof ys)" using I by simp
    have "writing P (ws_rows u') (add_rows keep (so_far (owned_record t wrap M) (ys @ [e])) C) (Zof (ys @ [e]))"
    proof (cases "is_stub M (fst e)")
      case True
      have none: "owned_record t wrap M c e = []" for c using True by (simp add: owned_record_def)
      show ?thesis
      proof (cases "fst e \<in> ws_stubs s")
        case named: True
        have "(fst e, wrap (snd e)) \<in> {(fst e, wrap r) | r. (fst e, r) \<in> set rs}"
          using xs by (intro CollectI exI[of _ "snd e"]) simp
        then have "(fst e, wrap (snd e)) \<in> pl_stubs P t" using assms(4) True unfolding records_fit_def by blast
        then have "(fst e, wrap (snd e)) \<in> shared_rows P t" by (simp add: in_shared_rows)
        from writing_put_shared[OF assms(1) w this]
        have "writing P (ws_rows u') (add_rows keep (so_far (owned_record t wrap M) ys) C)
            ((Zof ys)(t := insert (fst e, wrap (snd e)) (Zof ys t)))"
          using write_record_step[OF run] True named I by simp
        moreover have "(Zof ys)(t := insert (fst e, wrap (snd e)) (Zof ys t)) = Zof (ys @ [e])"
        proof -
          have "{x \<in> set (ys @ [e]). is_stub M (fst x) \<and> fst x \<in> ws_stubs s} =
              insert e {x \<in> set ys. is_stub M (fst x) \<and> fst x \<in> ws_stubs s}" using True named by auto
          then show ?thesis by (simp add: Zof_def)
        qed
        ultimately show ?thesis using writing_no_owner[of P _ keep "owned_record t wrap M", OF _ none] by simp
      next
        case False
        then have "Zof (ys @ [e]) = Zof ys" by (simp add: Zof_skip)
        then show ?thesis using writing_no_owner[OF w none] write_record_step[OF run] True False I by simp
      qed
    next
      case False
      then have Z: "Zof (ys @ [e]) = Zof ys" by (simp add: Zof_skip)
      obtain c where c: "owner_of M (fst e) = Inr c" "ws_rows u' =
          (if keep c then own c (plain_row t (fst e)) (put t (fst e) (wrap (snd e)) (ws_rows u)) else ws_rows u)"
        using write_record_step[OF run] False by auto
      have "\<not> is_dup_sort t" using assms(3) by auto
      then have rows: "ws_rows u' = (if keep c then fold (put_owned c) (owned_record t wrap M c e) (ws_rows u) else ws_rows u)"
        using c False by (simp add: owned_record_def put_owned_def row_of_def)
      have none: "owned_record t wrap M c' e = []" if "c' \<noteq> c" for c' using c(1) that by (simp add: owned_record_def)
      show ?thesis unfolding Z rows
        by (rule writing_one_owner[where acts = "owned_record t wrap M", OF assms(1) w none owned_record_fits[OF assms(2,3)]])
    qed
    then show "ws_stubs u' = ws_stubs s \<and>
        writing P (ws_rows u') (add_rows keep (so_far (owned_record t wrap M) (ys @ [e])) C) (Zof (ys @ [e]))"
      using write_record_step[OF run] I by simp
  qed
  moreover have "Zof rs = with_stubs P t (ws_stubs s) Z"
  proof -
    have "(\<lambda>e. (fst e, wrap (snd e))) ` {e \<in> set rs. is_stub M (fst e) \<and> fst e \<in> ws_stubs s} =
        {e \<in> pl_stubs P t. fst e \<in> ws_stubs s}"
    proof (rule set_eqI)
      fix x :: "node_id \<times> row_value"
      have "x \<in> (\<lambda>e. (fst e, wrap (snd e))) ` {e \<in> set rs. is_stub M (fst e) \<and> fst e \<in> ws_stubs s} \<longleftrightarrow>
          fst x \<in> ws_stubs s \<and> x \<in> {(fst x, wrap r) | r. (fst x, r) \<in> set rs}"
        using assms(7) by force
      also have "\<dots> \<longleftrightarrow> fst x \<in> ws_stubs s \<and> x \<in> {e \<in> pl_stubs P t. fst e = fst x}"
        using assms(4,7) unfolding records_fit_def by blast
      finally show "x \<in> (\<lambda>e. (fst e, wrap (snd e))) ` {e \<in> set rs. is_stub M (fst e) \<and> fst e \<in> ws_stubs s} \<longleftrightarrow>
          x \<in> {e \<in> pl_stubs P t. fst e \<in> ws_stubs s}" by auto
    qed
    then show ?thesis by (simp add: Zof_def with_stubs_def)
  qed
  ultimately show ?thesis by simp
qed


subsection \<open>Writing a model\<close>

lemma add_rows_so_far: "add_rows keep (so_far acts xs) C = add_rows keep (\<lambda>c. concat (map (acts c) xs)) C"
  by (simp add: add_rows_def so_far_def cong: if_cong)

lemma in_put_row: "r \<in> put_row p d u \<Longrightarrow> r \<in> d u \<or> p = (u, r)"
  by (cases p; cases r) (auto simp: in_put split: if_splits)

lemma in_fold_put_row: "r \<in> fold put_row ps d u \<Longrightarrow> r \<in> d u \<or> (u, r) \<in> set ps"
proof (induction ps arbitrary: d)
  case (Cons p ps)
  then show ?case using in_put_row[of r p d u] by fastforce
qed simp

lemma fold_put_row_dup: "is_dup_sort u \<Longrightarrow> r \<in> fold put_row ps d u \<longleftrightarrow> r \<in> d u \<or> (u, r) \<in> set ps"
proof (induction ps arbitrary: d)
  case (Cons p ps)
  have "r \<in> put_row p d u \<longleftrightarrow> r \<in> d u \<or> p = (u, r)"
    using Cons.prems by (cases p; cases r) (auto simp: in_put)
  then show ?case using Cons by auto
qed simp

text \<open>The stubs named in a contribution are those that the crate's bindings name.\<close>

lemma contribution_stubs:
  "(i, v) \<in> contribution sha json M c StubOwners \<longleftrightarrow>
    v = IdV c \<and> (\<exists>b \<in> set (em_bindings M). \<exists>n. owner_of M (bd_from_module b) = Inr c \<and> named_stub M b = Some n \<and> i = nd_id n)"
proof -
  have "(i, v) \<in> contribution sha json M c StubOwners \<longleftrightarrow> (StubOwners, i, v) \<in> set (owned_rows sha json M c)"
    by (simp add: contribution_def fold_put_row_dup no_rows_def)
  also have "\<dots> \<longleftrightarrow> (\<exists>b \<in> set (em_bindings M). (StubOwners, i, v) \<in> set (owned_binding sha M c b))"
    by (auto simp: owned_rows_def owned_node_def owned_contains_def owned_usage_def owned_call_rows_def owned_record_def Let_def
        split: if_splits option.splits)
  also have "\<dots> \<longleftrightarrow> v = IdV c \<and> (\<exists>b \<in> set (em_bindings M). \<exists>n. owner_of M (bd_from_module b) = Inr c \<and> named_stub M b = Some n \<and> i = nd_id n)"
    by (auto simp: owned_binding_def split: if_splits option.splits intro!: bexI exI dest: sym)
  finally show ?thesis .
qed

text \<open>Writing the crates that \<open>keep\<close> accepts puts their contributions in.\<close>

theorem write_owned_rows_snapshot:
  assumes P: "placement_ok P" and M: "model_fits sha json P M" and C: "snapshot_of P w C d"
    and free: "\<And>c. keep c \<Longrightarrow> C c = no_rows" and run: "write_owned_rows sha json M keep d = Inr (d', n)"
  shows "snapshot_of P True (\<lambda>c. if keep c then contribution sha json M c else C c) d'"
proof -
  let ?s = "\<lparr>ws_rows = d, ws_stubs = {}, ws_counts = \<lparr>wc_nodes = 0, wc_bindings = 0, wc_usages = 0\<rparr>\<rparr>"
  let ?Z = "shared_of P w C" and ?W = "(nd_id (pl_workspace P), NodeV (pl_workspace P))"
  let ?I = "stubs_of M keep (em_bindings M)"
  obtain s1 s2 s3 s4 calls s5 s6 s7 where
    s1: "for_each (write_node keep) (map snd (em_nodes M)) ?s = Inr s1" and
    s2: "for_each (write_binding sha M keep) (em_bindings M) s1 = Inr s2" and
    s3: "for_each (write_contains M keep) (em_contains M) s2 = Inr s3" and
    s4: "for_each (write_usage sha json M keep) (em_usages M) s3 = Inr s4" and
    calls: "for_each (collect_call M keep) (em_unresolved_calls M) [] = Inr calls" and
    s5: "for_each (write_calls M) calls s4 = Inr s5" and
    s6: "for_each (write_record SignaturesByTarget SignatureV M keep) (em_signatures M) s5 = Inr s6" and
    s7: "for_each (write_record StaticMetadataByTarget StaticV M keep) (em_statics M) s6 = Inr s7" and
    d': "d' = ws_rows s7"
    using run unfolding write_owned_rows_def and_then_Inr by auto
  have "shared_fits P ?Z" by (auto simp: shared_fits_def shared_of_def shared_rows_def split: if_splits)
  then have 0: "writing P (ws_rows ?s) C ?Z" using C by (simp add: snapshot_of_def writing_def)
  note 1 = write_nodes_loop[OF P M s1 0]
  have "ws_stubs s1 = {}" using 1 by simp
  note 2 = write_bindings_loop[OF P M s2 conjunct2[OF 1] this]
  note 3 = write_contains_loop[OF P M s3 conjunct2[OF 2]]
  note 4 = write_usages_loop[OF P M s4 conjunct2[OF 3]]
  note 5 = write_calls_loop[OF P M calls s5 conjunct2[OF 4]]
  have stubs: "is_stub M i" if "i \<in> ?I" for i
    using that named_stub_facts(4)[OF M] by (auto simp: stubs_of_def)
  have st5: "ws_stubs s5 = ?I" using 2 3 4 5 by simp
  have rec: "records_fit P M SignaturesByTarget SignatureV (em_signatures M)"
    "records_fit P M StaticMetadataByTarget StaticV (em_statics M)" using M by (simp_all add: model_fits_def)
  have 6: "ws_stubs s6 = ws_stubs s5 \<and> writing P (ws_rows s6)
      (add_rows keep (so_far (owned_record SignaturesByTarget SignatureV M) (em_signatures M))
        (add_rows keep (owned_call_rows M) (add_rows keep (so_far (owned_usage sha json M) (em_usages M))
          (add_rows keep (so_far (owned_contains M) (em_contains M)) (add_rows keep (so_far (owned_binding sha M) (em_bindings M))
            (add_rows keep (so_far owned_node (map snd (em_nodes M))) C))))))
      (with_stubs P SignaturesByTarget ?I (with_stubs P NodesById ?I (?Z(NodesById := insert ?W (?Z NodesById)))))"
    using write_records_loop[OF P M _ rec(1) s6 conjunct2[OF 5]] stubs unfolding st5 by simp
  then have st6: "ws_stubs s6 = ?I" using st5 by simp
  have 7: "writing P d'
      (add_rows keep (so_far (owned_record StaticMetadataByTarget StaticV M) (em_statics M))
      (add_rows keep (so_far (owned_record SignaturesByTarget SignatureV M) (em_signatures M))
        (add_rows keep (owned_call_rows M) (add_rows keep (so_far (owned_usage sha json M) (em_usages M))
          (add_rows keep (so_far (owned_contains M) (em_contains M)) (add_rows keep (so_far (owned_binding sha M) (em_bindings M))
            (add_rows keep (so_far owned_node (map snd (em_nodes M))) C)))))))
      (with_stubs P StaticMetadataByTarget ?I
        (with_stubs P SignaturesByTarget ?I (with_stubs P NodesById ?I (?Z(NodesById := insert ?W (?Z NodesById))))))"
    using write_records_loop[OF P M _ rec(2) s7 conjunct2[OF 6]] stubs unfolding st6 d' by simp
  let ?C = "\<lambda>c. if keep c then contribution sha json M c else C c"
  have C': "add_rows keep (so_far (owned_record StaticMetadataByTarget StaticV M) (em_statics M))
      (add_rows keep (so_far (owned_record SignaturesByTarget SignatureV M) (em_signatures M))
        (add_rows keep (owned_call_rows M) (add_rows keep (so_far (owned_usage sha json M) (em_usages M))
          (add_rows keep (so_far (owned_contains M) (em_contains M)) (add_rows keep (so_far (owned_binding sha M) (em_bindings M))
            (add_rows keep (so_far owned_node (map snd (em_nodes M))) C)))))) = ?C" (is "?L = _")
  proof (rule ext)
    fix c
    show "?L c = ?C c" unfolding add_rows_so_far add_rows_append
      by (cases "keep c") (simp_all add: add_rows_def contribution_def owned_rows_def free so_far_def)
  qed
  have named: "stub_named ?C i \<longleftrightarrow> stub_named C i \<or> i \<in> ?I" for i
  proof -
    have "\<not> keep c" if "(i, v) \<in> C c StubOwners" for c v using free[of c] that by (auto simp: no_rows_def)
    then have "stub_named ?C i \<longleftrightarrow> stub_named C i \<or> (\<exists>c v. keep c \<and> (i, v) \<in> contribution sha json M c StubOwners)"
      unfolding stub_named_def by (auto split: if_splits)
    then show ?thesis unfolding contribution_stubs stubs_of_def by blast
  qed
  have Z: "with_stubs P StaticMetadataByTarget ?I
        (with_stubs P SignaturesByTarget ?I (with_stubs P NodesById ?I (?Z(NodesById := insert ?W (?Z NodesById))))) = shared_of P True ?C"
  proof (rule ext)
    fix t
    have "pl_stubs P t = {}" if "t \<notin> {NodesById, SignaturesByTarget, StaticMetadataByTarget}"
      using P that unfolding placement_ok_def by blast
    then show "with_stubs P StaticMetadataByTarget ?I
        (with_stubs P SignaturesByTarget ?I (with_stubs P NodesById ?I (?Z(NodesById := insert ?W (?Z NodesById))))) t =
      shared_of P True ?C t"
      unfolding shared_of_def named with_stubs_def by (cases "t \<in> {NodesById, SignaturesByTarget, StaticMetadataByTarget}") auto
  qed
  show ?thesis using 7 unfolding C' Z by (simp add: writing_def snapshot_of_def)
qed


subsection \<open>Deleting a crate\<close>

definition rows_under :: "graph_rows \<Rightarrow> owned_row set" where
  "rows_under D = {row_of t k v | t k v. (k, v) \<in> D t}"

lemma finite_db_tags: "finite (UNIV :: db_tag set)"
  using DbTag_ALL_complete(1) by (metis List.finite_set)

lemma finite_rows_under:
  assumes "\<And>t. finite (D t)"
  shows "finite (rows_under D)"
proof -
  have "rows_under D = (\<Union>t. (\<lambda>(k, v). row_of t k v) ` D t)" by (force simp: rows_under_def)
  then show ?thesis using assms finite_db_tags by simp
qed

lemma decode_rows_image:
  assumes "set bs \<subseteq> encode ` R" "\<And>r. r \<in> R \<Longrightarrow> row_shape r"
  obtains rs where "decode_rows bs = Inr rs" "bs = map encode rs" "set rs \<subseteq> R"
  using assms(1)
proof (induction bs arbitrary: thesis)
  case (Cons b bs)
  obtain r where r: "r \<in> R" "b = encode r" using Cons.prems(2) by auto
  obtain rs where "decode_rows bs = Inr rs" "bs = map encode rs" "set rs \<subseteq> R"
    using Cons.IH Cons.prems(2) by auto
  then show ?case using r assms(2)[OF r(1)] Cons.prems(1)[of "r # rs"] by simp
qed simp

lemma rows_of_crate_snapshot:
  assumes "snapshot_of P w C d"
  obtains rs where "rows_of_crate k d = Inr rs" "distinct rs" "set rs = rows_under (C k)"
proof -
  have ok: "owned_ok P C" and split: "rows_split d C (shared_of P w C)" using assms by (simp_all add: snapshot_of_def)
  let ?R = "rows_under (C k)"
  have shape: "row_shape r" if "r \<in> ?R" for r using that owned_okD(2)[OF ok] by (auto simp: rows_under_def)
  have fin: "finite ?R" using ok by (intro finite_rows_under) (simp add: owned_ok_def)
  have "values_at OwnedRowsByCrate k d = OwnedV ` encode ` ?R"
    using split by (auto simp: rows_split_def rows_under_def set_eq_iff image_iff)
  then have bytes: "owned_bytes ` values_at OwnedRowsByCrate k d = encode ` ?R" by (simp add: image_image)
  then have set_bs: "set (sorted_list_of_set (owned_bytes ` values_at OwnedRowsByCrate k d)) = encode ` ?R" using fin by simp
  then obtain rs where rs: "rows_of_crate k d = Inr rs"
    "sorted_list_of_set (owned_bytes ` values_at OwnedRowsByCrate k d) = map encode rs" "set rs \<subseteq> ?R"
    using decode_rows_image[of _ ?R] shape unfolding rows_of_crate_def by (metis order_refl)
  have "distinct (map encode rs)" unfolding rs(2)[symmetric] by simp
  then have "distinct rs" by (simp add: distinct_map)
  moreover have "?R \<subseteq> set rs"
  proof
    fix r assume r: "r \<in> ?R"
    have "encode ` set rs = encode ` ?R" using set_bs rs(2) by simp
    then obtain r' where "r' \<in> set rs" "encode r' = encode r" using r by (metis imageE imageI)
    then show "r \<in> set rs" using encode_inject[of r' r] shape r rs(3) by auto
  qed
  ultimately show ?thesis using that rs by blast
qed

definition without :: "owned_row set \<Rightarrow> graph_rows \<Rightarrow> graph_rows" where
  "without R d = (\<lambda>t. if t = OwnedRowsByCrate then d t else {e \<in> d t. row_of t (fst e) (snd e) \<notin> R})"

lemma delete_row_without:
  assumes "(k, v) \<in> d t" "t \<noteq> OwnedRowsByCrate" "row_of t k v \<notin> R"
    and "\<And>e. is_dup_sort t \<Longrightarrow> e \<in> d t \<Longrightarrow> snd e = IdV (id_of (snd e))"
  shows "delete_row (row_of t k v) (without R d) = (True, without (insert (row_of t k v) R) d)"
proof (cases "is_dup_sort t")
  case True
  have v: "IdV (id_of v) = v" using assms(4)[OF True assms(1)] by simp
  have "(e = (k, v)) = (row_of t (fst e) (snd e) = row_of t k v)" if "e \<in> d t" for e
    using assms(4)[OF True that] v True by (cases e) (auto simp: row_of_inject)
  then show ?thesis using True assms(1-3) v
    by (auto simp: delete_row_def delete_one_duplicate_def without_def fun_eq_iff row_of_inject)
next
  case False
  then show ?thesis using assms(1-3)
    by (force simp: delete_row_def delete_key_def without_def fun_eq_iff row_of_inject)
qed

lemma delete_rows_loop:
  assumes "distinct rs" "\<And>r. r \<in> set rs \<Longrightarrow> \<exists>t k v. r = row_of t k v \<and> (k, v) \<in> d t \<and> t \<noteq> OwnedRowsByCrate"
    and "\<And>t e. is_dup_sort t \<Longrightarrow> t \<noteq> OwnedRowsByCrate \<Longrightarrow> e \<in> d t \<Longrightarrow> snd e = IdV (id_of (snd e))"
    and "set rs \<inter> R = {}"
  shows "for_each (delete_owned_row krate) rs (db\<lparr>gd_rows := without R d\<rparr>, stubs) =
    Inr (db\<lparr>gd_rows := without (R \<union> set rs) d,
            gd_embeddings := (\<lambda>i. if plain_row NodesById i \<in> set rs then None else gd_embeddings db i)\<rparr>,
         stubs @ map ow_key (filter (\<lambda>r. ow_tag r = StubOwners) rs))"
  using assms(1,2,4)
proof (induction rs arbitrary: db stubs R)
  case (Cons r rs)
  obtain t k v where r: "r = row_of t k v" "(k, v) \<in> d t" "t \<noteq> OwnedRowsByCrate" using Cons.prems(2)[of r] by auto
  have "delete_row r (without R d) = (True, without (insert r R) d)"
    unfolding r(1) using Cons.prems(3) r assms(3) by (intro delete_row_without) auto
  then have "delete_owned_row krate r (db\<lparr>gd_rows := without R d\<rparr>, stubs) =
      Inr ((db\<lparr>gd_embeddings := (if t = NodesById then (gd_embeddings db)(k := None) else gd_embeddings db)\<rparr>)\<lparr>gd_rows := without (insert r R) d\<rparr>,
           if t = StubOwners then stubs @ [k] else stubs)"
    by (simp add: delete_owned_row_def r(1))
  moreover have "(\<lambda>i. if plain_row NodesById i \<in> set rs then None
        else (if t = NodesById then (gd_embeddings db)(k := None) else gd_embeddings db) i) =
      (\<lambda>i. if plain_row NodesById i \<in> set (r # rs) then None else gd_embeddings db i)"
    by (rule ext) (auto simp: r(1) row_of_def plain_row_def dup_row_def)
  moreover have "distinct rs" "set rs \<inter> insert r R = {}" using Cons.prems by auto
  ultimately show ?case using Cons.IH[of "insert r R"] Cons.prems(2) r(1) by (simp cong: if_cong)
qed simp

lemma delete_stubs_loop:
  "gd_rows (fold delete_stub js db) =
     (\<lambda>t. if t \<in> {NodesById, SignaturesByTarget, StaticMetadataByTarget}
          then {e \<in> gd_rows db t. \<not> (fst e \<in> set js \<and> values_at StubOwners (fst e) (gd_rows db) = {})} else gd_rows db t) \<and>
   gd_embeddings (fold delete_stub js db) =
     (\<lambda>i. if i \<in> set js \<and> values_at StubOwners i (gd_rows db) = {} then None else gd_embeddings db i)"
proof (induction js arbitrary: db)
  case (Cons i js)
  have 1: "values_at StubOwners j (gd_rows (delete_stub i db)) = values_at StubOwners j (gd_rows db)" for j
    by (simp add: delete_stub_def delete_key_def values_at_def)
  show ?case using Cons[of "delete_stub i db"]
    by (auto simp: 1 fun_eq_iff delete_stub_def delete_key_def)
qed (simp add: fun_eq_iff)


lemma values_at_empty: "values_at t k d = {} \<longleftrightarrow> (\<forall>v. (k, v) \<notin> d t)"
  using values_at_iff[of _ t k d] by blast

lemma owned_ok_without: "owned_ok P C \<Longrightarrow> owned_ok P (C(c := no_rows))"
  by (auto simp: owned_ok_def no_rows_def split: if_splits)

text \<open>Deleting a crate succeeds, takes its contribution out and nothing else, and with it the embeddings cached for its
  nodes and for the stubs that no other crate names.\<close>

theorem delete_crate_rows_snapshot:
  assumes P: "placement_ok P" and S: "snapshot_of P w C (gd_rows db)"
  obtains db' n where "delete_crate_rows k db = Inr (db', n)" "snapshot_of P w (C(k := no_rows)) (gd_rows db')"
    "n = card (rows_under (C k))" "gd_meta db' = gd_meta db"
    "gd_embeddings db' = (\<lambda>i. if i \<in> fst ` C k NodesById \<or> i \<in> fst ` C k StubOwners \<and> \<not> stub_named (C(k := no_rows)) i
       then None else gd_embeddings db i)"
proof -
  let ?d = "gd_rows db" and ?C = "C(k := no_rows)" and ?three = "{NodesById, SignaturesByTarget, StaticMetadataByTarget}"
  have ok: "owned_ok P C" and split: "rows_split ?d C (shared_of P w C)" using S by (simp_all add: snapshot_of_def)
  have d: "?d t = (\<Union>c. C c t) \<union> shared_of P w C t" if "t \<noteq> OwnedRowsByCrate" for t using split that by (simp add: rows_split_def)
  have sh: "(i, v) \<in> shared_rows P t" if "(i, v) \<in> shared_of P w C t" for i v t
    using that by (auto simp: shared_of_def in_shared_rows split: if_splits)
  obtain rs where rs: "rows_of_crate k ?d = Inr rs" "distinct rs" "set rs = rows_under (C k)"
    by (rule rows_of_crate_snapshot[OF S])
  have dup: "snd e = IdV (id_of (snd e))" if t: "is_dup_sort t" "t \<noteq> OwnedRowsByCrate" "e \<in> ?d t" for t e
  proof -
    have "(fst e, snd e) \<notin> shared_of P w C t" using shared_home[OF P sh] t(1) by blast
    then obtain c where "(fst e, snd e) \<in> C c t" using t(3) d[OF t(2)] by auto
    then show ?thesis using owned_okD(4)[OF ok] t(1) by blast
  qed
  have present: "\<exists>t i v. r = row_of t i v \<and> (i, v) \<in> ?d t \<and> t \<noteq> OwnedRowsByCrate" if rr: "r \<in> set rs" for r
  proof -
    obtain t i v where r: "r = row_of t i v" "(i, v) \<in> C k t" using rr[unfolded rs(3) rows_under_def] by blast
    then have "t \<noteq> OwnedRowsByCrate" using owned_okD(2)[OF ok] by blast
    then show ?thesis using r d[of t] by blast
  qed
  have here: "row_of t i v \<in> rows_under (C k) \<longleftrightarrow> c = k" if mem: "(i, v) \<in> C c t" for t i v c
  proof
    assume "row_of t i v \<in> rows_under (C k)"
    then obtain t' i' w where "row_of t i v = row_of t' i' w" "(i', w) \<in> C k t'" unfolding rows_under_def by blast
    then show "c = k" using owned_ok_same_row[OF ok mem] by blast
  next
    assume "c = k"
    then show "row_of t i v \<in> rows_under (C k)" using mem unfolding rows_under_def by blast
  qed
  have nshared: "row_of t i v \<notin> rows_under (C k)" if "(i, v) \<in> shared_of P w C t" for t i v
  proof
    assume "row_of t i v \<in> rows_under (C k)"
    then obtain w' where w': "(i, w') \<in> C k t" by (auto simp: rows_under_def row_of_inject)
    then show False using owned_okD(3)[OF ok w'] shared_home[OF P sh[OF that], of w'] by simp
  qed
  define db1 where "db1 = db\<lparr>gd_rows := without (set rs) ?d,
    gd_embeddings := (\<lambda>i. if plain_row NodesById i \<in> set rs then None else gd_embeddings db i)\<rparr>"
  define stubs where "stubs = map ow_key (filter (\<lambda>r. ow_tag r = StubOwners) rs)"
  have "without {} ?d = ?d" by (rule ext) (simp add: without_def)
  then have loop: "for_each (delete_owned_row k) rs (db, []) = Inr (db1, stubs)"
    using delete_rows_loop[of rs ?d "{}" k db "[]", OF rs(2) present dup] by (simp add: db1_def stubs_def)
  have stub_keys: "set stubs = fst ` C k StubOwners"
    unfolding stubs_def using rs(3) by (force simp: rows_under_def image_iff)
  have d1: "gd_rows db1 t = (\<Union>c. ?C c t) \<union> shared_of P w C t" if t: "t \<noteq> OwnedRowsByCrate" for t
  proof (rule set_eqI)
    fix e :: "node_id \<times> row_value"
    obtain i v where e: "e = (i, v)" by (cases e)
    show "e \<in> gd_rows db1 t \<longleftrightarrow> e \<in> (\<Union>c. ?C c t) \<union> shared_of P w C t"
      using t here nshared d[OF t] by (auto simp: db1_def without_def e rs(3) no_rows_def split: if_splits)
  qed
  have "shared_of P w C StubOwners = {}" by (auto simp: shared_of_def dest: placement_okD(4)[OF P])
  then have orphan: "values_at StubOwners i (gd_rows db1) = {} \<longleftrightarrow> \<not> stub_named ?C i" for i
    using d1[of StubOwners] by (auto simp: stub_named_def values_at_empty)
  define db2 where "db2 = fold delete_stub stubs db1"
  note db2 = delete_stubs_loop[of stubs db1, folded db2_def, unfolded orphan stub_keys]
  have meta: "gd_meta (fold delete_stub js db0) = gd_meta db0" for js db0
    by (induction js arbitrary: db0) (simp_all add: delete_stub_def)
  have owned: "gd_rows db2 OwnedRowsByCrate = ?d OwnedRowsByCrate" using db2 by (simp add: db1_def without_def)
  define db' where "db' = db2\<lparr>gd_rows := snd (delete_key OwnedRowsByCrate k (gd_rows db2))\<rparr>"
  have run: "delete_crate_rows k db = Inr (db', length rs)"
    by (simp add: delete_crate_rows_def rs(1) loop db2_def db'_def Let_def)
  have "gd_rows db' t = (\<Union>c. ?C c t) \<union> shared_of P w ?C t" if t: "t \<noteq> OwnedRowsByCrate" for t
  proof (cases "t \<in> ?three")
    case False
    then have "shared_of P w C t = {}" "shared_of P w ?C t = {}"
      using placement_okD(4)[OF P] by (auto simp: shared_of_def)
    then show ?thesis using False t d1[OF t] db2 by (simp add: db'_def delete_key_def)
  next
    case True
    have 1: "gd_rows db' t = {e \<in> (\<Union>c. ?C c t) \<union> shared_of P w C t. \<not> (fst e \<in> fst ` C k StubOwners \<and> \<not> stub_named ?C (fst e))}"
      using True t d1[OF t] db2 by (simp add: db'_def delete_key_def)
    have stub: "i \<in> stub_ids P" if "i \<in> fst ` C k StubOwners" for i using that ok by (auto simp: owned_ok_def)
    have 2: "fst e \<notin> fst ` C k StubOwners" if "e \<in> ?C c t" for e c
    proof
      assume "fst e \<in> fst ` C k StubOwners"
      then have "pl_crate P (fst e) = None" using placement_okD(3)[OF P] stub by blast
      moreover have "home P t (fst e) (snd e) = Some c"
        using owned_okD(3)[OF owned_ok_without[OF ok], of "fst e" "snd e" k c t] that by simp
      ultimately show False using True by auto
    qed
    have 3: "e \<in> shared_of P w ?C t \<longleftrightarrow> e \<in> shared_of P w C t \<and> \<not> (fst e \<in> fst ` C k StubOwners \<and> \<not> stub_named ?C (fst e))" for e
    proof -
      have "stub_named C i \<longleftrightarrow> stub_named ?C i \<or> i \<in> fst ` C k StubOwners" for i
        by (force simp: stub_named_def no_rows_def)
      moreover have "nd_id (pl_workspace P) \<notin> fst ` C k StubOwners" using placement_okD(2)[OF P] stub by blast
      ultimately show ?thesis unfolding shared_of_def by (cases e) force
    qed
    show ?thesis unfolding 1 using 2 3 by blast
  qed
  moreover have "gd_rows db' OwnedRowsByCrate = {(c, OwnedV (encode (row_of t i v))) | c t i v. (i, v) \<in> ?C c t}"
  proof -
    have "gd_rows db' OwnedRowsByCrate = {r \<in> ?d OwnedRowsByCrate. fst r \<noteq> k}"
      using owned by (auto simp: db'_def delete_key_def)
    moreover have "?d OwnedRowsByCrate = {(c, OwnedV (encode (row_of t i v))) | c t i v. (i, v) \<in> C c t}"
      using split by (simp only: rows_split_def)
    moreover have "(i, v) \<in> ?C c t \<longleftrightarrow> c \<noteq> k \<and> (i, v) \<in> C c t" for i v c t by (simp add: no_rows_def)
    ultimately show ?thesis by (simp only:) fastforce
  qed
  ultimately have "snapshot_of P w ?C (gd_rows db')"
    using owned_ok_without[OF ok] by (simp add: snapshot_of_def rows_split_def)
  moreover have "plain_row NodesById i \<in> set rs \<longleftrightarrow> i \<in> fst ` C k NodesById" for i
    by (force simp: rs(3) rows_under_def row_of_def plain_row_def dup_row_def)
  then have "gd_embeddings db' = (\<lambda>i. if i \<in> fst ` C k NodesById \<or> i \<in> fst ` C k StubOwners \<and> \<not> stub_named ?C i
       then None else gd_embeddings db i)"
    using db2 by (simp add: db'_def db1_def fun_eq_iff)
  moreover have "length rs = card (rows_under (C k))" using rs(2,3) distinct_card by metis
  moreover have "gd_meta db' = gd_meta db" by (simp add: db'_def db2_def meta db1_def)
  ultimately show ?thesis using that run by blast
qed

end
