(* ===== verification/Build_Inputs.thy ===== *)
theory Build_Inputs
  imports Graph_Model
begin

text \<open>
  What a graph build reads from the tree, hashed by package (rmc-graph: graph/storage.rs, \<open>BuildInputs\<close> and
  \<open>compute_build_inputs\<close>), and why an incremental build may trust it: with the global inputs equal, a file of a package
  that did not change has the content it had.

  A tree is the list of its files, each with its path below the root and its content, as \<open>walkdir\<close> finds them; failures of
  reading are left out (they fail the build). SHA-256 is the parameter \<open>sha\<close> from byte strings to 256-bit words. A
  \<open>BTreeMap\<close> is an association list in key order, a \<open>BTreeSet\<close> is a set.
\<close>

subsection \<open>Paths\<close>

definition slashes :: "string \<Rightarrow> string" where
  "slashes s = map (\<lambda>c. if c = CHR 0x5C then CHR ''/'' else c) s"

definition after_last :: "char \<Rightarrow> string \<Rightarrow> string" where
  "after_last c s = rev (takeWhile (\<lambda>x. x \<noteq> c) (rev s))"

definition before_last :: "char \<Rightarrow> string \<Rightarrow> string option" where
  "before_last c s = (if c \<in> set s then Some (rev (tl (dropWhile (\<lambda>x. x \<noteq> c) (rev s)))) else None)"

definition is_source_walk_excluded :: "path \<Rightarrow> bool" where
  "is_source_walk_excluded p = list_ex (\<lambda>c. c = ''target'' \<or> c = ''.git'' \<or> c = ''.skeleton'') p"

definition root_config :: "string \<Rightarrow> bool" where
  "root_config rel \<longleftrightarrow>
     rel \<in> set [''rust-toolchain.toml'', ''rust-toolchain'', ''.cargo/config.toml'', ''.cargo/config'']"

definition is_fingerprinted :: "string \<Rightarrow> bool" where
  "is_fingerprinted rel \<longleftrightarrow>
     suffix ''.rs'' rel \<or> after_last CHR ''/'' rel \<in> set [''Cargo.toml'', ''Cargo.lock''] \<or> root_config rel"

subsection \<open>Build inputs\<close>

record build_inputs =
  bi_global :: string
  bi_packages :: "(string \<times> string) list"

lemma before_last_shorter: "before_last c s = Some d \<Longrightarrow> length d < length s"
proof -
  assume "before_last c s = Some d"
  then have c: "c \<in> set s" and d: "d = rev (tl (dropWhile (\<lambda>x. x \<noteq> c) (rev s)))"
    by (simp_all add: before_last_def split: if_splits)
  have "length (dropWhile (\<lambda>x. x \<noteq> c) (rev s)) \<le> length s" using length_dropWhile_le[of _ "rev s"] by simp
  moreover have "s \<noteq> []" using c by auto
  ultimately show ?thesis unfolding d by (cases s) auto
qed

function package_of_from :: "(string \<times> string) list \<Rightarrow> string \<Rightarrow> string" where
  "package_of_from pk dir =
     (case before_last CHR ''/'' dir of
        None \<Rightarrow> []
      | Some d \<Rightarrow> if map_of pk d \<noteq> None then d else package_of_from pk d)"
  by auto
termination by (relation "measure (\<lambda>(pk, dir). length dir)") (auto dest: before_last_shorter)

declare package_of_from.simps [simp del]

definition package_of :: "build_inputs \<Rightarrow> string \<Rightarrow> string" where
  "package_of I rel = package_of_from (bi_packages I) rel"

definition changed_packages :: "build_inputs \<Rightarrow> build_inputs \<Rightarrow> string set" where
  "changed_packages I other =
     set (map fst (filter (\<lambda>(dir, hash). map_of (bi_packages other) dir \<noteq> Some hash) (bi_packages I))) \<union>
     set (filter (\<lambda>dir. map_of (bi_packages I) dir = None) (map fst (bi_packages other)))"

definition fingerprint :: "(string \<Rightarrow> node_id) \<Rightarrow> build_inputs \<Rightarrow> string" where
  "fingerprint sha I =
     to_hex (sha (''global'' @ [NUL] @ bi_global I @ [NUL] @
       concat (map (\<lambda>(dir, hash). dir @ [NUL] @ hash @ [NUL]) (bi_packages I))))"

subsection \<open>Hashing a tree\<close>

type_synonym source_tree = "(path \<times> string) list"
type_synonym hashed_file = "string \<times> node_id"

definition hashed_files :: "(string \<Rightarrow> node_id) \<Rightarrow> path \<Rightarrow> source_tree \<Rightarrow> hashed_file list" where
  "hashed_files sha ws tree =
     sort_key fst
       (map (\<lambda>(p, content). (slashes (path_str p), sha content))
         (filter (\<lambda>(p, content). \<not> is_source_walk_excluded (ws @ p) \<and> is_fingerprinted (slashes (path_str p))) tree))"

fun btree_put :: "'k::linorder \<Rightarrow> 'v \<Rightarrow> ('k \<times> 'v) list \<Rightarrow> ('k \<times> 'v) list" where
  "btree_put k v [] = [(k, v)]"
| "btree_put k v ((l, w) # m) =
     (if k < l then (k, v) # (l, w) # m else if k = l then (k, v) # m else (l, w) # btree_put k v m)"

definition strip_suffix :: "string \<Rightarrow> string \<Rightarrow> string option" where
  "strip_suffix suf s = (if suffix suf s then Some (take (length s - length suf) s) else None)"

definition trim_end_matches :: "char \<Rightarrow> string \<Rightarrow> string" where
  "trim_end_matches c s = rev (dropWhile (\<lambda>x. x = c) (rev s))"

definition add_package :: "hashed_file \<Rightarrow> (string \<times> string) list \<Rightarrow> (string \<times> string) list" where
  "add_package f pk =
     (case strip_suffix ''Cargo.toml'' (fst f) of
        None \<Rightarrow> pk
      | Some dir \<Rightarrow>
          if dir = [] \<or> suffix ''/'' dir then btree_put (trim_end_matches CHR ''/'' dir) [] pk else pk)"

definition package_shape :: "hashed_file list \<Rightarrow> build_inputs" where
  "package_shape files = \<lparr>bi_global = [], bi_packages = fold add_package files [([], [])]\<rparr>"

definition is_global :: "string \<Rightarrow> bool" where
  "is_global rel \<longleftrightarrow> suffix ''Cargo.toml'' rel \<or> rel = ''Cargo.lock'' \<or> root_config rel"

definition digest_bytes :: "node_id \<Rightarrow> string" where
  "digest_bytes d = map (\<lambda>b. char_of (unat b)) (as_bytes d)"

definition fed :: "hashed_file \<Rightarrow> string" where
  "fed f = fst f @ [NUL] @ digest_bytes (snd f) @ [NUL]"

definition feed_file ::
  "build_inputs \<Rightarrow> hashed_file \<Rightarrow> string \<times> (string \<Rightarrow> string) \<Rightarrow> string \<times> (string \<Rightarrow> string)" where
  "feed_file shape f s =
     (case s of (global, per_package) \<Rightarrow>
        (if is_global (fst f) then global @ fed f else global,
         let p = package_of shape (fst f) in per_package(p := per_package p @ fed f)))"

definition build_inputs_of :: "(string \<Rightarrow> node_id) \<Rightarrow> hashed_file list \<Rightarrow> build_inputs" where
  "build_inputs_of sha files =
     (let shape = package_shape files in
      case fold (feed_file shape) files ([], \<lambda>_. []) of (global, per_package) \<Rightarrow>
        \<lparr>bi_global = to_hex (sha global),
         bi_packages = map (\<lambda>(dir, _). (dir, to_hex (sha (per_package dir)))) (bi_packages shape)\<rparr>)"

definition compute_build_inputs :: "(string \<Rightarrow> node_id) \<Rightarrow> path \<Rightarrow> source_tree \<Rightarrow> build_inputs" where
  "compute_build_inputs sha ws tree = build_inputs_of sha (hashed_files sha ws tree)"

definition SCHEMA_VERSION :: nat where
  "SCHEMA_VERSION = 16"

definition schema_bytes :: string where
  "schema_bytes = map (\<lambda>i. char_of (SCHEMA_VERSION div 256 ^ i mod 256)) [0..<4]"

definition graph_id_for :: "(string \<Rightarrow> node_id) \<Rightarrow> string \<Rightarrow> string \<Rightarrow> string" where
  "graph_id_for sha workspace_hash fp =
     hex_encode (take 16 (as_bytes (sha (workspace_hash @ [NUL] @ fp @ [NUL] @ schema_bytes))))"

subsection \<open>The package of a file\<close>

definition below :: "string \<Rightarrow> string \<Rightarrow> bool" where
  "below dir rel \<longleftrightarrow> (\<exists>rest. rel = dir @ ''/'' @ rest)"

lemma dropWhile_rev_last: "c \<notin> set v \<Longrightarrow> dropWhile (\<lambda>x. x \<noteq> c) (rev (u @ c # v)) = c # rev u"
proof -
  assume "c \<notin> set v"
  then have "dropWhile (\<lambda>x. x \<noteq> c) (rev v @ c # rev u) = dropWhile (\<lambda>x. x \<noteq> c) (c # rev u)"
    by (intro dropWhile_append2) auto
  then show ?thesis by simp
qed

lemma before_last_Some: "before_last c s = Some d \<longleftrightarrow> (\<exists>rest. s = d @ c # rest \<and> c \<notin> set rest)"
proof
  assume "before_last c s = Some d"
  then have c: "c \<in> set s" and d: "d = rev (tl (dropWhile (\<lambda>x. x \<noteq> c) (rev s)))"
    by (simp_all add: before_last_def split: if_splits)
  obtain u v where s: "s = u @ c # v" "c \<notin> set v" using c by (metis split_list_last)
  have "dropWhile (\<lambda>x. x \<noteq> c) (rev s) = c # rev u"
    using s dropWhile_rev_last[of c v] by simp
  then have "d = u" unfolding d by simp
  then show "\<exists>rest. s = d @ c # rest \<and> c \<notin> set rest" using s by blast
next
  assume "\<exists>rest. s = d @ c # rest \<and> c \<notin> set rest"
  then obtain v where s: "s = d @ c # v" "c \<notin> set v" by blast
  have "dropWhile (\<lambda>x. x \<noteq> c) (rev s) = c # rev d" using s dropWhile_rev_last[of c v] by simp
  then show "before_last c s = Some d" using s by (simp add: before_last_def)
qed

lemma before_last_None: "before_last c s = None \<longleftrightarrow> c \<notin> set s"
  by (simp add: before_last_def)

lemma below_before_last:
  assumes "before_last CHR ''/'' rel = Some d"
  shows "below dir rel \<longleftrightarrow> dir = d \<or> below dir d"
proof -
  obtain rest where rel: "rel = d @ CHR ''/'' # rest" "CHR ''/'' \<notin> set rest"
    using assms by (auto simp: before_last_Some)
  show ?thesis
  proof
    assume "below dir rel"
    then obtain r where r: "d @ CHR ''/'' # rest = dir @ CHR ''/'' # r" using rel by (auto simp: below_def)
    then consider us where "d = dir @ us" "us @ CHR ''/'' # rest = CHR ''/'' # r"
      | us where "dir = d @ us" "CHR ''/'' # rest = us @ CHR ''/'' # r"
      using append_eq_append_conv2[of d "CHR ''/'' # rest" dir "CHR ''/'' # r"] by auto
    then show "dir = d \<or> below dir d"
    proof cases
      case 1
      then show ?thesis by (cases us) (auto simp: below_def)
    next
      case 2
      then show ?thesis using rel(2) by (cases us) auto
    qed
  next
    assume "dir = d \<or> below dir d"
    then show "below dir rel" using rel by (auto simp: below_def)
  qed
qed

lemma below_shorter: "below dir rel \<Longrightarrow> length dir < length rel"
  by (auto simp: below_def)

lemma package_of_from_deepest:
  "(package_of_from pk rel = [] \<or> package_of_from pk rel \<in> fst ` set pk \<and> below (package_of_from pk rel) rel) \<and>
   (\<forall>dir \<in> fst ` set pk. below dir rel \<longrightarrow> length dir \<le> length (package_of_from pk rel))"
proof (induction pk rel rule: package_of_from.induct)
  case (1 pk rel)
  show ?case
  proof (cases "before_last CHR ''/'' rel")
    case None
    then have "\<not> below dir rel" for dir by (auto simp: below_def before_last_None)
    moreover have "package_of_from pk rel = []" using None by (subst package_of_from.simps) simp
    ultimately show ?thesis by simp
  next
    case (Some d)
    show ?thesis
    proof (cases "map_of pk d = None")
      case False
      have p: "package_of_from pk rel = d" using Some False by (subst package_of_from.simps) simp
      have "d \<in> fst ` set pk" using False by (auto simp: map_of_eq_None_iff)
      moreover have "below d rel" "\<forall>dir. below dir rel \<longrightarrow> length dir \<le> length d"
        using below_before_last[OF Some] below_shorter by (auto intro: less_imp_le)
      ultimately show ?thesis unfolding p by blast
    next
      case True
      have p: "package_of_from pk rel = package_of_from pk d" using Some True by (subst package_of_from.simps) simp
      have "d \<notin> fst ` set pk" using True by (simp add: map_of_eq_None_iff)
      then show ?thesis using 1[OF Some] True unfolding p below_before_last[OF Some] by auto
    qed
  qed
qed

lemma package_of_from_cong: "fst ` set pk = fst ` set pk' \<Longrightarrow> package_of_from pk rel = package_of_from pk' rel"
proof (induction pk rel rule: package_of_from.induct)
  case (1 pk rel)
  have "map_of pk d = None \<longleftrightarrow> map_of pk' d = None" for d using 1(2) by (simp add: map_of_eq_None_iff)
  then show ?case using 1
    by (subst (1 2) package_of_from.simps) (auto split: option.splits)
qed

subsection \<open>What the hashes say about the files\<close>

definition fed_all :: "hashed_file list \<Rightarrow> string" where
  "fed_all files = concat (map fed files)"

definition files_in :: "hashed_file list \<Rightarrow> string \<Rightarrow> hashed_file list" where
  "files_in files p = filter (\<lambda>f. package_of (package_shape files) (fst f) = p) files"

definition global_files :: "hashed_file list \<Rightarrow> hashed_file list" where
  "global_files files = filter (\<lambda>f. is_global (fst f)) files"

lemma feed_files:
  "fold (feed_file shape) files (g, h) =
     (g @ fed_all (filter (\<lambda>f. is_global (fst f)) files),
      \<lambda>p. h p @ fed_all (filter (\<lambda>f. package_of shape (fst f) = p) files))"
  by (induction files arbitrary: g h) (auto simp: feed_file_def fed_all_def Let_def)

lemma bi_global_of: "bi_global (build_inputs_of sha files) = to_hex (sha (fed_all (global_files files)))"
  by (simp add: build_inputs_of_def feed_files Let_def global_files_def)

lemma bi_packages_of:
  "bi_packages (build_inputs_of sha files) =
     map (\<lambda>(dir, _). (dir, to_hex (sha (fed_all (files_in files dir))))) (bi_packages (package_shape files))"
  by (simp add: build_inputs_of_def feed_files Let_def files_in_def)

lemma bi_packages_lookup:
  "map_of (bi_packages (build_inputs_of sha files)) dir =
     (if dir \<in> fst ` set (bi_packages (package_shape files)) then Some (to_hex (sha (fed_all (files_in files dir)))) else None)"
proof -
  have "map_of (map (\<lambda>(dir, _). (dir, f dir)) pk) dir = (if dir \<in> fst ` set pk then Some (f dir) else None)"
    for f :: "string \<Rightarrow> string" and pk :: "(string \<times> string) list"
    by (induction pk) auto
  then show ?thesis by (simp add: bi_packages_of)
qed

lemma keys_btree_put: "fst ` set (btree_put k v m) = insert k (fst ` set m)"
  by (induction k v m rule: btree_put.induct) auto

lemma sorted_btree_put: "sorted_wrt (<) (map fst m) \<Longrightarrow> sorted_wrt (<) (map fst (btree_put k v m))"
proof (induction k v m rule: btree_put.induct)
  case (2 k v l w m)
  have "fst ` set (btree_put k v m) = insert k (fst ` set m)" by (rule keys_btree_put)
  then show ?case using 2 by fastforce
qed simp

lemma package_shape_sorted: "sorted_wrt (<) (map fst (bi_packages (package_shape files)))"
proof -
  have "sorted_wrt (<) (map fst pk) \<Longrightarrow> sorted_wrt (<) (map fst (fold add_package files pk))" for pk
    by (induction files arbitrary: pk) (auto simp: add_package_def sorted_btree_put split: option.split)
  then show ?thesis by (simp add: package_shape_def)
qed

lemma package_shape_root: "[] \<in> fst ` set (bi_packages (package_shape files))"
proof -
  have "[] \<in> fst ` set pk \<Longrightarrow> [] \<in> fst ` set (fold add_package files pk)" for pk
    by (induction files arbitrary: pk) (auto simp: add_package_def keys_btree_put split: option.split)
  then show ?thesis by (simp add: package_shape_def)
qed

lemma package_shape_global: "package_shape files = package_shape (global_files files)"
proof -
  have "fold add_package files pk = fold add_package (global_files files) pk" for pk
    by (induction files arbitrary: pk) (auto simp: global_files_def add_package_def strip_suffix_def is_global_def)
  then show ?thesis by (simp add: package_shape_def)
qed

lemma package_of_known: "package_of (package_shape files) rel \<in> fst ` set (bi_packages (package_shape files))"
  using package_of_from_deepest[of "bi_packages (package_shape files)" rel] package_shape_root[of files]
  unfolding package_of_def by metis

lemma package_of_build_inputs: "package_of (build_inputs_of sha files) rel = package_of (package_shape files) rel"
  unfolding package_of_def by (rule package_of_from_cong) (force simp: bi_packages_of)

lemma length_digest_bytes [simp]: "length (digest_bytes d) = 32"
  by (simp add: digest_bytes_def)

lemma digest_bytes_inject [simp]: "digest_bytes d = digest_bytes e \<longleftrightarrow> d = e"
proof -
  have "inj (\<lambda>b :: 8 word. char_of (unat b))"
  proof (rule injI)
    fix a b :: "8 word"
    assume "char_of (unat a) = (char_of (unat b) :: char)"
    then have "unat a mod 256 = unat b mod 256" by (simp add: char_of_eq_iff take_bit_eq_mod)
    then show "a = b" using unsigned_less[of a, where 'a = nat] unsigned_less[of b, where 'a = nat]
      by (simp add: word_unat_eq_iff)
  qed
  then show ?thesis by (simp add: digest_bytes_def inj_map_eq_map)
qed

lemma fed_all_inject:
  assumes "\<forall>f \<in> set xs \<union> set ys. NUL \<notin> set (fst f)" "fed_all xs = fed_all ys"
  shows "xs = ys"
  using assms
proof (induction xs arbitrary: ys)
  case Nil
  then show ?case by (cases ys) (simp_all add: fed_all_def fed_def)
next
  case (Cons x xs)
  then obtain y ys' where ys: "ys = y # ys'" by (cases ys) (auto simp: fed_all_def fed_def)
  let ?rest = "\<lambda>f fs. digest_bytes (snd f) @ [NUL] @ fed_all fs"
  have eq: "fst x @ NUL # ?rest x xs = fst y @ NUL # ?rest y ys'"
    using Cons.prems(2) by (simp add: ys fed_all_def fed_def)
  have nul: "NUL \<notin> set (fst x)" "NUL \<notin> set (fst y)" using Cons.prems(1) ys by auto
  have tw: "takeWhile (\<lambda>c. c \<noteq> NUL) (a @ NUL # u) = a" if "NUL \<notin> set a" for a u :: string
    using that by (subst takeWhile_append2) auto
  have "fst x = fst y" using eq tw[OF nul(1)] tw[OF nul(2)] by metis
  moreover have "snd x = snd y \<and> fed_all xs = fed_all ys'" using eq calculation by simp
  moreover have "xs = ys'" using calculation Cons.IH[of ys'] Cons.prems(1) ys by auto
  ultimately show ?case using ys by (simp add: prod_eq_iff)
qed

text \<open>The byte strings that a build hashes.\<close>

definition hashed_strings :: "hashed_file list \<Rightarrow> string set" where
  "hashed_strings files = insert (fed_all (global_files files)) (fed_all ` files_in files ` fst ` set (bi_packages (package_shape files)))"

definition names_ok :: "hashed_file list \<Rightarrow> bool" where
  "names_ok files \<longleftrightarrow> list_all (\<lambda>f. NUL \<notin> set (fst f)) files"

lemma fed_all_inject_sha:
  assumes "inj_on sha S" "fed_all xs \<in> S" "fed_all ys \<in> S" "sha (fed_all xs) = sha (fed_all ys)"
    and "set xs \<subseteq> set F" "set ys \<subseteq> set G" "names_ok F" "names_ok G"
  shows "xs = ys"
proof (rule fed_all_inject)
  show "fed_all xs = fed_all ys" using assms(1-4) by (auto dest: inj_onD)
  show "\<forall>f \<in> set xs \<union> set ys. NUL \<notin> set (fst f)" using assms(5-8) by (auto simp: names_ok_def list_all_iff)
qed

lemma unchanged_package_same_files:
  assumes sha: "inj_on sha (hashed_strings F \<union> hashed_strings G)" and names: "names_ok F" "names_ok G"
    and global: "bi_global (build_inputs_of sha F) = bi_global (build_inputs_of sha G)"
    and unchanged: "package_of (build_inputs_of sha F) rel \<notin> changed_packages (build_inputs_of sha F) (build_inputs_of sha G)"
  shows "package_shape F = package_shape G \<and> (\<forall>d. (rel, d) \<in> set F \<longleftrightarrow> (rel, d) \<in> set G)"
proof -
  let ?p = "package_of (package_shape F) rel"
  have "global_files F = global_files G"
    using global by (intro fed_all_inject_sha[OF sha, where F = F and G = G])
      (auto simp: bi_global_of hashed_strings_def global_files_def names)
  then have shape: "package_shape F = package_shape G" using package_shape_global by metis
  have p: "?p \<in> fst ` set (bi_packages (package_shape F))" by (rule package_of_known)
  have "map_of (bi_packages (build_inputs_of sha G)) ?p = map_of (bi_packages (build_inputs_of sha F)) ?p"
  proof -
    obtain h where h: "(?p, h) \<in> set (bi_packages (build_inputs_of sha F))"
      using p by (force simp: bi_packages_of)
    have "distinct (map fst (bi_packages (build_inputs_of sha F)))"
      using package_shape_sorted[of F] by (simp add: bi_packages_of strict_sorted_iff comp_def case_prod_unfold)
    then have "map_of (bi_packages (build_inputs_of sha F)) ?p = Some h" using h by simp
    moreover have "map_of (bi_packages (build_inputs_of sha G)) ?p = Some h"
      using unchanged h unfolding changed_packages_def package_of_build_inputs by force
    ultimately show ?thesis by simp
  qed
  then have "sha (fed_all (files_in F ?p)) = sha (fed_all (files_in G ?p))"
    using p shape by (simp add: bi_packages_lookup)
  then have "files_in F ?p = files_in G ?p"
    using p by (intro fed_all_inject_sha[OF sha, where F = F and G = G])
      (auto simp: hashed_strings_def files_in_def names shape)
  moreover have "(rel, d) \<in> set F \<longleftrightarrow> (rel, d) \<in> set (files_in F ?p)" for d by (simp add: files_in_def)
  moreover have "(rel, d) \<in> set G \<longleftrightarrow> (rel, d) \<in> set (files_in G ?p)" for d by (simp add: files_in_def shape)
  ultimately show ?thesis using shape by simp
qed

subsection \<open>Trees\<close>

text \<open>The files that decide what a build extracts, said of their paths below the root: Rust sources, manifests, lock files
  and the configuration at the root, outside every build, Git and skeleton directory of the tree.\<close>

definition is_build_input :: "path \<Rightarrow> bool" where
  "is_build_input p \<longleftrightarrow>
     set p \<inter> {''target'', ''.git'', ''.skeleton''} = {} \<and>
     (let rel = slashes (path_str p) in
        suffix ''.rs'' rel \<or>
        rel \<in> {''Cargo.toml'', ''Cargo.lock'', ''rust-toolchain.toml'', ''rust-toolchain'', ''.cargo/config.toml'', ''.cargo/config''} \<or>
        suffix ''/Cargo.toml'' rel \<or> suffix ''/Cargo.lock'' rel)"

text \<open>The contents of the build inputs that are called \<open>rel\<close>; the strings that hashing a tree hashes.\<close>

definition contents_of :: "source_tree \<Rightarrow> string \<Rightarrow> string set" where
  "contents_of tree rel =
     snd ` Set.filter (\<lambda>(p, c). is_build_input p \<and> slashes (path_str p) = rel) (set tree)"

definition tree_strings :: "(string \<Rightarrow> node_id) \<Rightarrow> path \<Rightarrow> source_tree \<Rightarrow> string set" where
  "tree_strings sha ws tree = set (map snd tree) \<union> hashed_strings (hashed_files sha ws tree)"

lemma after_last_eq:
  assumes "c \<notin> set n"
  shows "after_last c s = n \<longleftrightarrow> s = n \<or> suffix (c # n) s"
proof
  assume n: "after_last c s = n"
  show "s = n \<or> suffix (c # n) s"
  proof (cases "c \<in> set s")
    case True
    then obtain x y where s: "s = x @ c # y" "c \<notin> set y" by (metis split_list_last)
    then have "after_last c s = y" by (simp add: after_last_def takeWhile_append)
    then show ?thesis using n s by (auto simp: suffix_def)
  next
    case False
    then have all: "takeWhile (\<lambda>x. x \<noteq> c) (rev s) = rev s" unfolding takeWhile_eq_all_conv by auto
    show ?thesis using n unfolding after_last_def all by simp
  qed
next
  assume "s = n \<or> suffix (c # n) s"
  then show "after_last c s = n"
  proof
    assume "s = n"
    moreover have all: "takeWhile (\<lambda>x. x \<noteq> c) (rev n) = rev n" using assms unfolding takeWhile_eq_all_conv by auto
    ultimately show ?thesis unfolding after_last_def by (simp only: all rev_rev_ident)
  next
    assume "suffix (c # n) s"
    then show ?thesis using assms by (auto simp: suffix_def after_last_def takeWhile_append)
  qed
qed

text \<open>Below a root that lies in no excluded directory, the walk keeps exactly the build inputs.\<close>

lemma walk_keeps_build_inputs:
  assumes "set ws \<inter> {''target'', ''.git'', ''.skeleton''} = {}"
  shows "\<not> is_source_walk_excluded (ws @ p) \<and> is_fingerprinted (slashes (path_str p)) \<longleftrightarrow> is_build_input p"
proof -
  have "is_source_walk_excluded (ws @ p) \<longleftrightarrow> set p \<inter> {''target'', ''.git'', ''.skeleton''} \<noteq> {}"
    using assms by (auto simp: is_source_walk_excluded_def list_ex_iff)
  moreover have "is_fingerprinted rel \<longleftrightarrow> suffix ''.rs'' rel \<or>
      rel \<in> {''Cargo.toml'', ''Cargo.lock'', ''rust-toolchain.toml'', ''rust-toolchain'', ''.cargo/config.toml'', ''.cargo/config''} \<or>
      suffix ''/Cargo.toml'' rel \<or> suffix ''/Cargo.lock'' rel" for rel
    unfolding is_fingerprinted_def root_config_def by (auto simp: after_last_eq)
  ultimately show ?thesis unfolding is_build_input_def Let_def by simp
qed

lemma set_hashed_files:
  assumes "set ws \<inter> {''target'', ''.git'', ''.skeleton''} = {}"
  shows "set (hashed_files sha ws tree) = {(rel, sha c) | rel c. c \<in> contents_of tree rel}"
proof (rule set_eqI)
  fix x :: hashed_file
  have "x \<in> set (hashed_files sha ws tree) \<longleftrightarrow>
      (\<exists>p c. (p, c) \<in> set tree \<and> is_build_input p \<and> x = (slashes (path_str p), sha c))"
    unfolding hashed_files_def walk_keeps_build_inputs[OF assms] by (simp add: image_iff; blast)
  moreover have members: "c \<in> contents_of tree rel \<longleftrightarrow> (\<exists>p. (p, c) \<in> set tree \<and> is_build_input p \<and> slashes (path_str p) = rel)" for c rel
    unfolding contents_of_def by (simp add: image_iff; blast)
  ultimately show "x \<in> set (hashed_files sha ws tree) \<longleftrightarrow> x \<in> {(rel, sha c) | rel c. c \<in> contents_of tree rel}"
    unfolding mem_Collect_eq members by (simp; blast)
qed

lemma contents_in_tree: "c \<in> contents_of tree rel \<Longrightarrow> c \<in> tree_strings sha ws tree"
  by (force simp: contents_of_def tree_strings_def)

text \<open>The package of a file is the deepest package directory above it: it is the root package or a package directory
  above the file, and no package directory above the file is deeper.\<close>

theorem package_of_is_deepest:
  "(package_of I rel = [] \<or> package_of I rel \<in> fst ` set (bi_packages I) \<and> below (package_of I rel) rel) \<and>
   (\<forall>dir. dir \<in> fst ` set (bi_packages I) \<and> below dir rel \<longrightarrow> length dir \<le> length (package_of I rel))"
  using package_of_from_deepest[of "bi_packages I" rel] unfolding package_of_def by blast

theorem package_of_is_deepest_witness:
  "package_of \<lparr>bi_global = [], bi_packages = [([], []), (''a'', []), (''a/b'', [])]\<rparr> ''a/b/src/lib.rs'' = ''a/b''"
proof -
  let ?I = "\<lparr>bi_global = [], bi_packages = [([], []), (''a'', []), (''a/b'', [])]\<rparr>"
  have b: "below ''a/b'' ''a/b/src/lib.rs''" by (simp add: below_def)
  have m: "''a/b'' \<in> fst ` set (bi_packages ?I)" by simp
  note d = package_of_is_deepest[of ?I "''a/b/src/lib.rs''"]
  have "length ''a/b'' \<le> length (package_of ?I ''a/b/src/lib.rs'')" by (rule d[THEN conjunct2, rule_format, OF conjI, OF m b])
  moreover have "package_of ?I ''a/b/src/lib.rs'' \<in> {[], ''a'', ''a/b''}" using d[THEN conjunct1] by (elim disjE conjE) simp_all
  ultimately show ?thesis by (elim insertE) simp_all
qed

text \<open>C35: For a workspace whose root lies below no directory called \<open>target\<close>, \<open>.git\<close> or \<open>.skeleton\<close>, and unless SHA-256
  collides on what the two builds hash, a package that did not change, while the global inputs are the same, holds the build
  inputs that it held, with the contents that they had: so that a crate is rebuilt whenever a file of one
  of its packages was edited, added or removed.\<close>

theorem unchanged_package_unchanged_files:
  assumes root: "set ws \<inter> {''target'', ''.git'', ''.skeleton''} = {}"
    and sha: "inj_on sha (tree_strings sha ws tree \<union> tree_strings sha ws tree')"
    and names: "names_ok (hashed_files sha ws tree)" "names_ok (hashed_files sha ws tree')"
    and global: "bi_global (compute_build_inputs sha ws tree) = bi_global (compute_build_inputs sha ws tree')"
    and unchanged: "package_of (compute_build_inputs sha ws tree) rel
      \<notin> changed_packages (compute_build_inputs sha ws tree) (compute_build_inputs sha ws tree')"
  shows "contents_of tree rel = contents_of tree' rel"
proof -
  let ?F = "hashed_files sha ws tree" and ?G = "hashed_files sha ws tree'"
  have "inj_on sha (hashed_strings ?F \<union> hashed_strings ?G)"
    by (rule inj_on_subset[OF sha]) (auto simp: tree_strings_def)
  then have same: "(rel, d) \<in> set ?F \<longleftrightarrow> (rel, d) \<in> set ?G" for d
    using unchanged_package_same_files[of sha ?F ?G rel] names global unchanged unfolding compute_build_inputs_def by blast
  have incl: "contents_of a rel \<subseteq> contents_of b rel"
    if ab: "\<And>d. (rel, d) \<in> set (hashed_files sha ws a) \<Longrightarrow> (rel, d) \<in> set (hashed_files sha ws b)"
      and inj: "inj_on sha (tree_strings sha ws a \<union> tree_strings sha ws b)" for a b
  proof
    fix c assume c: "c \<in> contents_of a rel"
    then have "(rel, sha c) \<in> set (hashed_files sha ws b)" using ab by (auto simp: set_hashed_files[OF root])
    then obtain c' where c': "c' \<in> contents_of b rel" "sha c = sha c'" by (auto simp: set_hashed_files[OF root])
    then have "c = c'" using c contents_in_tree by (intro inj_onD[OF inj]) auto
    then show "c \<in> contents_of b rel" using c' by simp
  qed
  have "inj_on sha (tree_strings sha ws tree' \<union> tree_strings sha ws tree)" using sha by (simp add: Un_commute)
  then show ?thesis using incl[of tree tree'] incl[of tree' tree] sha same by blast
qed

text \<open>Two trees that differ in a file of the root package, seen from the file of another package; \<open>byte_sum\<close> stands in for
  SHA-256 on the strings that they hash.\<close>

definition byte_sum :: "string \<Rightarrow> node_id" where
  "byte_sum s = word_of_int (sum_list (map of_char s))"

definition tree_a :: source_tree where
  "tree_a = [([''a'', ''Cargo.toml''], ''1''), ([''a'', ''x.rs''], ''2''), ([''y.rs''], ''3'')]"

definition tree_b :: source_tree where
  "tree_b = [([''a'', ''Cargo.toml''], ''1''), ([''a'', ''x.rs''], ''2''), ([''y.rs''], ''4'')]"

lemma hashed_files_ab:
  "hashed_files byte_sum [''w''] tree_a = [(''a/Cargo.toml'', 49), (''a/x.rs'', 50), (''y.rs'', 51)]"
  "hashed_files byte_sum [''w''] tree_b = [(''a/Cargo.toml'', 49), (''a/x.rs'', 50), (''y.rs'', 52)]"
  by code_simp+

lemma packages_ab:
  "package_shape [(''a/Cargo.toml'', i), (''a/x.rs'', j), (''y.rs'', k)] = \<lparr>bi_global = [], bi_packages = [([], []), (''a'', [])]\<rparr>"
  "package_of \<lparr>bi_global = [], bi_packages = [([], []), (''a'', [])]\<rparr> ''a/Cargo.toml'' = ''a''"
  "package_of \<lparr>bi_global = [], bi_packages = [([], []), (''a'', [])]\<rparr> ''a/x.rs'' = ''a''"
  "package_of \<lparr>bi_global = [], bi_packages = [([], []), (''a'', [])]\<rparr> ''y.rs'' = []"
  "is_global ''a/Cargo.toml''" "\<not> is_global ''a/x.rs''" "\<not> is_global ''y.rs''"
  by code_simp+

lemma byte_sum_distinct:
  "distinct (map byte_sum [''1'', ''2'', ''3'', ''4'', fed_all [(''a/Cargo.toml'', 49)],
     fed_all [(''a/Cargo.toml'', 49), (''a/x.rs'', 50)], fed_all [(''y.rs'', 51)], fed_all [(''y.rs'', 52)]])"
  by code_simp

theorem unchanged_package_unchanged_files_witness:
  "contents_of tree_a ''a/x.rs'' = contents_of tree_b ''a/x.rs''"
proof (rule unchanged_package_unchanged_files)
  show "set [''w''] \<inter> {''target'', ''.git'', ''.skeleton''} = {}" by simp
next
  let ?S = "[''1'', ''2'', ''3'', ''4'', fed_all [(''a/Cargo.toml'', 49)],
     fed_all [(''a/Cargo.toml'', 49), (''a/x.rs'', 50)], fed_all [(''y.rs'', 51)], fed_all [(''y.rs'', 52)]]"
  note fs = hashed_files_ab packages_ab files_in_def global_files_def
  have "inj_on byte_sum (set ?S)" using byte_sum_distinct unfolding distinct_map by blast
  moreover have "tree_strings byte_sum [''w''] tree_a \<union> tree_strings byte_sum [''w''] tree_b \<subseteq> set ?S"
  proof -
    have "snd ` set tree_a \<subseteq> set ?S" "snd ` set tree_b \<subseteq> set ?S" by (simp_all add: tree_a_def tree_b_def)
    then show ?thesis by (simp add: tree_strings_def hashed_strings_def fs)
  qed
  ultimately show "inj_on byte_sum (tree_strings byte_sum [''w''] tree_a \<union> tree_strings byte_sum [''w''] tree_b)"
    by (rule inj_on_subset)
  show "names_ok (hashed_files byte_sum [''w''] tree_a)" "names_ok (hashed_files byte_sum [''w''] tree_b)"
    by (simp_all add: fs names_ok_def NUL_def)
  show "bi_global (compute_build_inputs byte_sum [''w''] tree_a) = bi_global (compute_build_inputs byte_sum [''w''] tree_b)"
    by (simp add: compute_build_inputs_def bi_global_of fs)
  show "package_of (compute_build_inputs byte_sum [''w''] tree_a) ''a/x.rs''
      \<notin> changed_packages (compute_build_inputs byte_sum [''w''] tree_a) (compute_build_inputs byte_sum [''w''] tree_b)"
    by (simp add: compute_build_inputs_def package_of_build_inputs changed_packages_def bi_packages_of fs)
qed

text \<open>A workspace that lies below a directory called \<open>target\<close>, \<open>.git\<close> or \<open>.skeleton\<close> is not walked at all: its build
  inputs are those of an empty tree, whatever it holds, so that no edit is seen.\<close>

theorem workspace_under_target_is_not_hashed:
  assumes "list_ex (\<lambda>c. c \<in> set [''target'', ''.git'', ''.skeleton'']) ws"
  shows "compute_build_inputs sha ws tree = compute_build_inputs sha ws []"
proof -
  have "is_source_walk_excluded (ws @ p)" for p
    using assms by (auto simp: is_source_walk_excluded_def list_ex_iff)
  then show ?thesis by (simp add: compute_build_inputs_def hashed_files_def)
qed

theorem workspace_under_target_is_not_hashed_witness:
  "compute_build_inputs byte_sum [''target'', ''w''] tree_a = compute_build_inputs byte_sum [''target'', ''w''] []"
  by (rule workspace_under_target_is_not_hashed) simp

end
