(* ===== verification/Graph_Plan.thy ===== *)
theory Graph_Plan
  imports Build_Inputs
begin

text \<open>
  Which crates a graph build rebuilds, and in which order (rmc-graph: graph/incremental.rs; \<open>crate_groups\<close> and
  \<open>local_dependency_closure\<close> of graph/extract.rs; the manifest of graph/storage.rs; graph/identity.rs).

  What rust-analyzer has loaded is the record \<open>workspace\<close>: the local crates, their dependencies, names, target kinds, root
  files and the files of their modules. A crate is a number. A \<open>HashMap\<close> that is only looked up is an association list.
\<close>

subsection \<open>The loaded workspace\<close>

type_synonym krate = nat

datatype target_kind = TargetLib | TargetBin | TargetExample | TargetTest | TargetBench | TargetBuildScript | TargetOther

fun target_kind_name :: "target_kind \<Rightarrow> string" where
  "target_kind_name TargetLib = ''lib''"
| "target_kind_name TargetBin = ''bin''"
| "target_kind_name TargetExample = ''example''"
| "target_kind_name TargetTest = ''test''"
| "target_kind_name TargetBench = ''bench''"
| "target_kind_name TargetBuildScript = ''build''"
| "target_kind_name TargetOther = ''unknown''"

record workspace =
  lw_root :: path
  lw_local_crates :: "krate list"
  lw_dependencies :: "krate \<Rightarrow> krate list"
  lw_display_name :: "krate \<Rightarrow> string"
  lw_target_kind :: "krate \<Rightarrow> target_kind"
  lw_root_file :: "krate \<Rightarrow> string"
  lw_module_files :: "krate \<Rightarrow> string option list"

definition target_key :: "workspace \<Rightarrow> krate \<Rightarrow> string" where
  "target_key L k = lw_display_name L k @ ''['' @ target_kind_name (lw_target_kind L k) @ '']@'' @ lw_root_file L k"

definition crate_node_id :: "(string \<Rightarrow> node_id) \<Rightarrow> string \<Rightarrow> string \<Rightarrow> node_id" where
  "crate_node_id sha hash key = from_components sha [hash, ''crate'', key]"

definition module_node_id :: "(string \<Rightarrow> node_id) \<Rightarrow> node_id \<Rightarrow> string list \<Rightarrow> node_id" where
  "module_node_id sha crate_id segments = from_components sha (to_hex crate_id # ''module'' # segments)"

definition workspace_hash :: "(string \<Rightarrow> node_id) \<Rightarrow> path \<Rightarrow> string" where
  "workspace_hash sha p = hex_encode (as_bytes (sha (''/'' @ path_str p)))"

subsection \<open>Groups of crates\<close>

record crate_group =
  cg_id :: node_id
  cg_name :: string
  cg_crates :: "krate list"

fun push_crate :: "node_id \<Rightarrow> string \<Rightarrow> krate \<Rightarrow> crate_group list \<Rightarrow> crate_group list" where
  "push_crate i name k [] = [\<lparr>cg_id = i, cg_name = name, cg_crates = [k]\<rparr>]"
| "push_crate i name k (g # gs) =
     (if cg_id g = i then g\<lparr>cg_crates := cg_crates g @ [k]\<rparr> # gs else g # push_crate i name k gs)"

definition all_groups :: "(string \<Rightarrow> node_id) \<Rightarrow> workspace \<Rightarrow> crate_group list" where
  "all_groups sha L =
     sort_key cg_name
       (fold (\<lambda>k gs. let name = target_key L k in push_crate (crate_node_id sha (workspace_hash sha (lw_root L)) name) name k gs)
         (lw_local_crates L) [])"

definition group_index :: "crate_group list \<Rightarrow> (krate \<times> nat) list" where
  "group_index gs = rev (concat (map (\<lambda>(i, g). map (\<lambda>k. (k, i)) (cg_crates g)) (zip [0..<length gs] gs)))"

definition index_dependencies :: "workspace \<Rightarrow> crate_group list \<Rightarrow> nat \<Rightarrow> nat list" where
  "index_dependencies L gs i =
     List.map_filter (map_of (group_index gs)) (concat (map (lw_dependencies L) (cg_crates (gs ! i))))"

text \<open>The depth-first visit, over a list of indices: \<open>seen\<close> is the vector \<open>done\<close>.\<close>

function visits :: "(nat \<Rightarrow> nat list) \<Rightarrow> nat list \<Rightarrow> bool list \<Rightarrow> nat list \<Rightarrow> bool list \<times> nat list" where
  "visits deps [] seen order = (seen, order)"
| "visits deps (i # js) seen order =
     (if i \<ge> length seen \<or> seen ! i then visits deps js seen order
      else case visits deps (deps i) (seen[i := True]) order of
             (seen', order') \<Rightarrow> visits deps js seen' (order' @ [i]))"
  by pat_completeness auto

lemma fewer_unseen: "i < length seen \<Longrightarrow> \<not> seen ! i \<Longrightarrow> length (filter Not (seen[i := True])) < length (filter Not seen)"
  by (subst (2) id_take_nth_drop[of i seen]) (simp_all add: upd_conv_take_nth_drop)

lemma visits_fewer:
  "visits_dom (deps, js, seen, order) \<Longrightarrow>
     length (filter Not (fst (visits deps js seen order))) \<le> length (filter Not seen)"
proof (induction deps js seen order rule: visits.pinduct)
  case (2 deps i js seen order)
  show ?case
  proof (cases "i \<ge> length seen \<or> seen ! i")
    case True
    then show ?thesis using 2(2) by (simp add: visits.psimps(2)[OF 2(1)])
  next
    case False
    obtain s o' where s: "visits deps (deps i) (seen[i := True]) order = (s, o')" by fastforce
    have "length (filter Not s) \<le> length (filter Not (seen[i := True]))" using 2(3)[OF False] s by simp
    moreover have "length (filter Not (fst (visits deps js s (o' @ [i])))) \<le> length (filter Not s)"
      using 2(4)[OF False s[symmetric]] .
    moreover have "visits deps (i # js) seen order = visits deps js s (o' @ [i])"
      using False s by (simp add: visits.psimps(2)[OF 2(1)])
    ultimately show ?thesis using False fewer_unseen[of i seen] by simp
  qed
qed (simp add: visits.psimps)

termination visits
proof (relation "measures [\<lambda>(deps, js, seen, order). length (filter Not seen), \<lambda>(deps, js, seen, order). length js]", goal_cases)
  case (4 deps i js seen order seen' order')
  then have "length (filter Not seen') \<le> length (filter Not (seen[i := True]))" using visits_fewer by (metis fst_conv)
  then show ?case using fewer_unseen[of i seen] 4(1) by simp
qed (auto simp: fewer_unseen)

definition dependency_order :: "workspace \<Rightarrow> crate_group list \<Rightarrow> nat list" where
  "dependency_order L gs = snd (visits (index_dependencies L gs) [0..<length gs] (replicate (length gs) False) [])"

datatype plan_error = NotALocalCrate krate | SplitsAGroup string nat

definition crate_groups :: "(string \<Rightarrow> node_id) \<Rightarrow> workspace \<Rightarrow> krate list \<Rightarrow> (plan_error, crate_group list) result" where
  "crate_groups sha L dirty =
     (case find (\<lambda>k. k \<notin> set (lw_local_crates L)) dirty of
        Some k \<Rightarrow> Inl (NotALocalCrate k)
      | None \<Rightarrow>
     (let gs = all_groups sha L;
          inside = (\<lambda>g. length (filter (\<lambda>k. k \<in> set dirty) (cg_crates g)))
      in case find (\<lambda>g. \<not> (inside g = 0 \<or> inside g = length (cg_crates g))) gs of
           Some g \<Rightarrow> Inl (SplitsAGroup (cg_name g) (length (cg_crates g)))
         | None \<Rightarrow> Inr (filter (\<lambda>g. cg_crates g ! 0 \<in> set dirty) (map (\<lambda>i. gs ! i) (dependency_order L gs)))))"

subsection \<open>Dependents\<close>

definition group_ids :: "crate_group list \<Rightarrow> (krate \<times> node_id) list" where
  "group_ids gs = rev (concat (map (\<lambda>g. map (\<lambda>k. (k, cg_id g)) (cg_crates g)) gs))"

definition push_dependent :: "node_id \<Rightarrow> node_id \<Rightarrow> (node_id \<times> node_id list) list \<Rightarrow> (node_id \<times> node_id list) list" where
  "push_dependent d g m = AList.update d ((case map_of m d of None \<Rightarrow> [] | Some gs \<Rightarrow> gs) @ [g]) m"

definition dependents :: "workspace \<Rightarrow> crate_group list \<Rightarrow> (node_id \<times> node_id list) list" where
  "dependents L gs =
     fold (\<lambda>g m. fold (\<lambda>k m. fold (\<lambda>dep m.
         case map_of (group_ids gs) dep of
           None \<Rightarrow> m
         | Some dep_group \<Rightarrow> if dep_group \<noteq> cg_id g then push_dependent dep_group (cg_id g) m else m)
       (lw_dependencies L k) m) (cg_crates g) m) gs []"

definition dependents_at :: "(node_id \<times> node_id list) list \<Rightarrow> node_id \<Rightarrow> node_id list" where
  "dependents_at m i = (case map_of m i of None \<Rightarrow> [] | Some gs \<Rightarrow> gs)"

function reach_loop :: "(node_id \<times> node_id list) list \<Rightarrow> node_id list \<Rightarrow> node_id list \<Rightarrow> node_id list" where
  "reach_loop m [] reached = reached"
| "reach_loop m (i # stack) reached =
     (if i \<in> set reached then reach_loop m stack reached
      else reach_loop m (rev (dependents_at m i) @ stack) (i # reached))"
  by pat_completeness auto
termination
proof (relation "measures [\<lambda>(m, stack, reached). card (fst ` set m - set reached), \<lambda>(m, stack, reached). length stack]")
  fix m :: "(node_id \<times> node_id list) list" and i :: node_id and stack reached
  assume i: "i \<notin> set reached"
  let ?A = "fst ` set m - set reached" and ?B = "fst ` set m - set (i # reached)"
  show "((m, rev (dependents_at m i) @ stack, i # reached), m, i # stack, reached)
    \<in> measures [\<lambda>(m, stack, reached). card (fst ` set m - set reached), \<lambda>(m, stack, reached). length stack]"
  proof (cases "i \<in> fst ` set m")
    case True
    then have "?B \<subset> ?A" using i by auto
    then have "card ?B < card ?A" by (intro psubset_card_mono) simp_all
    then show ?thesis by simp
  next
    case False
    then have "map_of m i = None" by (simp add: map_of_eq_None_iff)
    moreover have "?B = ?A" using False by auto
    ultimately show ?thesis by (simp add: dependents_at_def)
  qed
qed simp_all

text \<open>The groups that \<open>plan_build\<close> finds directly dirty are pushed in the order of a \<open>HashSet\<close>: here, of \<open>seeds\<close>.\<close>

definition with_dependents :: "workspace \<Rightarrow> crate_group list \<Rightarrow> node_id list \<Rightarrow> node_id set" where
  "with_dependents L gs seeds = set (reach_loop (dependents L gs) (rev seeds) [])"

subsection \<open>The plan\<close>

record graph_manifest =
  gm_graph_id :: string
  gm_workspace_root :: path
  gm_workspace_hash :: string
  gm_fingerprint :: string
  gm_schema_version :: nat
  gm_created_at_unix :: nat
  gm_node_count :: nat
  gm_binding_count :: nat
  gm_usage_count :: nat
  gm_usage_counts :: "usage_counts option"
  gm_inputs :: "build_inputs option"
  gm_crate_packages :: "(string \<times> string set) list"

datatype full_reason =
    NoPublishedSnapshot | NoBuildInputs | GlobalInputsChanged | CrateSetChanged | ForceRebuild | UnfinishedBuild | CannotOpenBase

datatype build_plan = PlanFull full_reason | PlanIncremental "crate_group list" "string set"

definition directly_dirty :: "graph_manifest \<Rightarrow> string set \<Rightarrow> crate_group \<Rightarrow> bool" where
  "directly_dirty base changed g =
     (case map_of (gm_crate_packages base) (cg_name g) of None \<Rightarrow> False | Some ps \<Rightarrow> ps \<inter> changed \<noteq> {})"

definition plan_build ::
  "(string \<Rightarrow> node_id) \<Rightarrow> graph_manifest option \<Rightarrow> build_inputs \<Rightarrow> workspace \<Rightarrow> (plan_error, build_plan) result" where
  "plan_build sha published inputs L =
     (case published of
        None \<Rightarrow> Inr (PlanFull NoPublishedSnapshot)
      | Some base \<Rightarrow>
     (case gm_inputs base of
        None \<Rightarrow> Inr (PlanFull NoBuildInputs)
      | Some base_inputs \<Rightarrow>
          if bi_global base_inputs \<noteq> bi_global inputs then Inr (PlanFull GlobalInputsChanged)
          else and_then (crate_groups sha L (lw_local_crates L)) (\<lambda>gs.
            if set (map cg_name gs) \<noteq> set (map fst (gm_crate_packages base)) then Inr (PlanFull CrateSetChanged)
            else
              let changed = changed_packages inputs base_inputs;
                  direct = map cg_id (filter (directly_dirty base changed) gs);
                  dirty_ids = with_dependents L gs direct
              in Inr (PlanIncremental (filter (\<lambda>g. cg_id g \<in> dirty_ids) gs) changed))))"

definition crate_packages :: "workspace \<Rightarrow> crate_group \<Rightarrow> build_inputs \<Rightarrow> string set" where
  "crate_packages L g inputs =
     set (map (\<lambda>rel. package_of inputs (slashes rel)) (List.map_filter id (concat (map (lw_module_files L) (cg_crates g)))))"

text \<open>The crates that the skeleton of a model covers.\<close>

function closure_loop :: "workspace \<Rightarrow> krate list \<Rightarrow> krate list \<Rightarrow> krate list" where
  "closure_loop L [] reached = reached"
| "closure_loop L (k # stack) reached =
     (if k \<in> set reached then closure_loop L stack reached
      else closure_loop L (rev (filter (\<lambda>d. d \<in> set (lw_local_crates L)) (lw_dependencies L k)) @ stack) (k # reached))"
  by pat_completeness auto
termination
proof (relation "measures [\<lambda>(L, stack, reached). card ((set (lw_local_crates L) \<union> set stack) - set reached),
    \<lambda>(L, stack, reached). length stack]")
  fix L :: workspace and k :: krate and stack reached
  assume k: "k \<notin> set reached"
  let ?deps = "rev (filter (\<lambda>d. d \<in> set (lw_local_crates L)) (lw_dependencies L k))"
  let ?A = "(set (lw_local_crates L) \<union> set (k # stack)) - set reached"
  have "(set (lw_local_crates L) \<union> set (?deps @ stack)) - set (k # reached) \<subset> ?A" using k by auto
  then have "card ((set (lw_local_crates L) \<union> set (?deps @ stack)) - set (k # reached)) < card ?A"
    by (intro psubset_card_mono) simp_all
  then show "((L, ?deps @ stack, k # reached), L, k # stack, reached)
    \<in> measures [\<lambda>(L, stack, reached). card ((set (lw_local_crates L) \<union> set stack) - set reached),
      \<lambda>(L, stack, reached). length stack]" by simp
next
  fix L :: workspace and k :: krate and stack reached
  assume k: "k \<in> set reached"
  then have "(set (lw_local_crates L) \<union> set (k # stack)) - set reached = (set (lw_local_crates L) \<union> set stack) - set reached" by auto
  then show "((L, stack, reached), L, k # stack, reached)
    \<in> measures [\<lambda>(L, stack, reached). card ((set (lw_local_crates L) \<union> set stack) - set reached),
      \<lambda>(L, stack, reached). length stack]" by simp
qed simp_all

definition local_dependency_closure :: "workspace \<Rightarrow> krate list \<Rightarrow> krate list" where
  "local_dependency_closure L crates = filter (\<lambda>k. k \<in> set (closure_loop L (rev crates) [])) (lw_local_crates L)"

subsection \<open>The depth-first visit sorts by dependency\<close>

text \<open>Every index comes after its dependencies, those in \<open>S\<close> and itself aside.\<close>

fun deps_first :: "(nat \<Rightarrow> nat list) \<Rightarrow> nat set \<Rightarrow> nat list \<Rightarrow> bool" where
  "deps_first deps S [] = True"
| "deps_first deps S (k # ks) = (set (deps k) - {k} \<subseteq> S \<and> deps_first deps (insert k S) ks)"

lemma deps_first_append: "deps_first deps S (a @ b) \<longleftrightarrow> deps_first deps S a \<and> deps_first deps (S \<union> set a) b"
  by (induction a arbitrary: S) auto

lemma deps_first_without:
  "deps_first deps (insert i S) ks \<Longrightarrow> (\<And>k. k \<in> set ks \<Longrightarrow> i \<notin> set (deps k) - {k}) \<Longrightarrow> deps_first deps S ks"
proof (induction ks arbitrary: S)
  case (Cons k ks)
  have "deps_first deps (insert i (insert k S)) ks" using Cons.prems(1) by (simp add: insert_commute)
  then have "deps_first deps (insert k S) ks" using Cons.IH Cons.prems(2) by simp
  moreover have "set (deps k) - {k} \<subseteq> S" using Cons.prems(1) Cons.prems(2)[of k] by auto
  ultimately show ?case by simp
qed simp

definition seen_set :: "bool list \<Rightarrow> nat set" where
  "seen_set seen = {k. k < length seen \<and> seen ! k}"

lemma seen_set_update: "i < length seen \<Longrightarrow> seen_set (seen[i := True]) = insert i (seen_set seen)"
  by (auto simp: seen_set_def nth_list_update)

lemma visits_spec:
  assumes "\<And>i j. i < n \<Longrightarrow> j \<in> set (deps i) \<Longrightarrow> j < n \<and> (j \<noteq> i \<longrightarrow> rank j < (rank i :: nat))"
    and "length seen = n" "set js \<subseteq> {..<n}" "visits deps js seen order = (seen', order')"
  shows "length seen' = n \<and> (\<exists>new. order' = order @ new \<and> distinct new \<and> set new \<inter> seen_set seen = {} \<and>
     seen_set seen' = seen_set seen \<union> set new \<and> set js \<subseteq> seen_set seen' \<and>
     (\<forall>k \<in> set new. \<exists>m \<in> set js - seen_set seen. rank k \<le> rank m) \<and> deps_first deps (seen_set seen) new)"
  using assms
proof (induction deps js seen order arbitrary: seen' order' rule: visits.induct)
  case (2 deps i js seen order)
  show ?case
  proof (cases "seen ! i")
    case True
    then have c: "i \<ge> length seen \<or> seen ! i" by simp
    have js: "set js \<subseteq> {..<n}" "visits deps js seen order = (seen', order')" using 2(6,7) c by simp_all
    have "i \<in> seen_set seen" using True 2(5,6) by (simp add: seen_set_def)
    then show ?thesis using 2(1)[OF c 2(4) 2(5) js] by simp blast
  next
    case False
    have i: "i < n" "\<not> (i \<ge> length seen \<or> seen ! i)" "i \<notin> seen_set seen" using 2(5,6) False by (simp_all add: seen_set_def)
    obtain s1 o1 where v1: "visits deps (deps i) (seen[i := True]) order = (s1, o1)" by fastforce
    have v2: "visits deps js s1 (o1 @ [i]) = (seen', order')" using 2(7) False 2(5,6) v1 by simp
    note d = 2(4)[OF i(1)]
    have S1: "seen_set (seen[i := True]) = insert i (seen_set seen)" using i 2(5) by (simp add: seen_set_update)
    obtain a where a: "o1 = order @ a" "distinct a" "set a \<inter> insert i (seen_set seen) = {}"
      "seen_set s1 = insert i (seen_set seen) \<union> set a" "set (deps i) \<subseteq> seen_set s1"
      "\<forall>k \<in> set a. \<exists>m \<in> set (deps i) - insert i (seen_set seen). rank k \<le> rank m" "deps_first deps (insert i (seen_set seen)) a" and l1: "length s1 = n"
    proof -
      have "set (deps i) \<subseteq> {..<n}"
      proof
        fix j assume "j \<in> set (deps i)"
        then show "j \<in> {..<n}" using d[of j] by simp
      qed
      moreover have "length (seen[i := True]) = n" using 2(5) by simp
      ultimately show ?thesis using 2(2)[OF i(2) 2(4) _ _ v1] that unfolding S1 by blast
    qed
    obtain b where b: "order' = (o1 @ [i]) @ b" "distinct b" "set b \<inter> seen_set s1 = {}"
      "seen_set seen' = seen_set s1 \<union> set b" "set js \<subseteq> seen_set seen'"
      "\<forall>k \<in> set b. \<exists>m \<in> set js - seen_set s1. rank k \<le> rank m" "deps_first deps (seen_set s1) b" and l2: "length seen' = n"
      
    proof -
      have "set js \<subseteq> {..<n}" using 2(6) by simp
      from 2(3)[OF i(2) v1[symmetric] 2(4) l1 this v2] show ?thesis using that by blast
    qed
    have low: "rank k < rank i" if "k \<in> set a" for k
    proof -
      obtain m where "m \<in> set (deps i)" "m \<noteq> i" "rank k \<le> rank m" using a(6) \<open>k \<in> set a\<close> by blast
      then show ?thesis using d[of m] by simp
    qed
    have ka: "k < n" if "k \<in> set a" for k using a(4) l1 that by (auto simp: seen_set_def)
    have "deps_first deps (seen_set seen) a"
    proof (rule deps_first_without[OF a(7)])
      fix k assume k: "k \<in> set a"
      show "i \<notin> set (deps k) - {k}" using 2(4)[OF ka[OF k], of i] low[OF k] by auto
    qed
    then have "deps_first deps (seen_set seen) (a @ [i] @ b)"
      using a(4,5) b(7) unfolding deps_first_append by (auto simp: Un_commute insert_commute)
    moreover have "order' = order @ a @ [i] @ b" "distinct (a @ [i] @ b)" "set (a @ [i] @ b) \<inter> seen_set seen = {}"
      "seen_set seen' = seen_set seen \<union> set (a @ [i] @ b)" "set (i # js) \<subseteq> seen_set seen'"
      using a(1-4) b(1-5) i(3) by auto
    moreover have "\<exists>m \<in> set (i # js) - seen_set seen. rank k \<le> rank m" if k: "k \<in> set (a @ [i] @ b)" for k
    proof (cases "k \<in> set b")
      case True
      then show ?thesis using b(6) a(4) by auto
    next
      case False
      then have "rank k \<le> rank i" using k low[of k] by auto
      then show ?thesis using i(3) by auto
    qed
    ultimately show ?thesis using l2 by blast
  qed
qed (simp add: seen_set_def)

subsection \<open>Groups\<close>

definition group_id_of :: "(string \<Rightarrow> node_id) \<Rightarrow> workspace \<Rightarrow> krate \<Rightarrow> node_id" where
  "group_id_of sha L k = crate_node_id sha (workspace_hash sha (lw_root L)) (target_key L k)"

definition groups_ok :: "(string \<Rightarrow> node_id) \<Rightarrow> workspace \<Rightarrow> crate_group list \<Rightarrow> bool" where
  "groups_ok sha L gs \<longleftrightarrow>
     distinct (map cg_id gs) \<and> (\<forall>g \<in> set gs. cg_crates g \<noteq> [] \<and> (\<forall>k \<in> set (cg_crates g). cg_id g = group_id_of sha L k))"

definition members :: "crate_group list \<Rightarrow> krate set" where
  "members gs = (\<Union>g \<in> set gs. set (cg_crates g))"

lemma push_crate_ids: "cg_id ` set (push_crate i name k gs) = insert i (cg_id ` set gs)"
  by (induction gs) auto

lemma push_crate_ok:
  "groups_ok sha L gs \<Longrightarrow> groups_ok sha L (push_crate (group_id_of sha L k) name k gs)"
proof (induction gs)
  case (Cons g gs)
  let ?i = "group_id_of sha L k"
  have g: "cg_id g \<notin> cg_id ` set gs" "cg_crates g \<noteq> []" "\<forall>k' \<in> set (cg_crates g). cg_id g = group_id_of sha L k'"
    and gs: "groups_ok sha L gs" using Cons.prems unfolding groups_ok_def by simp_all
  show ?case
  proof (cases "cg_id g = ?i")
    case True
    have "groups_ok sha L (g\<lparr>cg_crates := cg_crates g @ [k]\<rparr> # gs)"
      using g gs True unfolding groups_ok_def by simp
    then show ?thesis using True by simp
  next
    case False
    have "cg_id g \<notin> cg_id ` set (push_crate ?i name k gs)" unfolding push_crate_ids using False g(1) by simp
    then have "groups_ok sha L (g # push_crate ?i name k gs)"
      using g(2,3) Cons.IH[OF gs] unfolding groups_ok_def by simp
    then show ?thesis using False by simp
  qed
qed (simp add: groups_ok_def)

lemma push_crate_members: "members (push_crate i name k gs) = insert k (members gs)"
  by (induction gs) (auto simp: members_def)

lemma groups_ok_mset: "mset gs = mset hs \<Longrightarrow> groups_ok sha L gs \<longleftrightarrow> groups_ok sha L hs"
proof -
  assume m: "mset gs = mset hs"
  then have "mset (map cg_id gs) = mset (map cg_id hs)" by simp
  then have "distinct (map cg_id gs) \<longleftrightarrow> distinct (map cg_id hs)" by (rule mset_eq_imp_distinct_iff)
  then show ?thesis using mset_eq_setD[OF m] by (simp add: groups_ok_def)
qed

lemma all_groups_ok: "groups_ok sha L (all_groups sha L)" "members (all_groups sha L) = set (lw_local_crates L)"
proof -
  let ?push = "\<lambda>k gs. let name = target_key L k in push_crate (crate_node_id sha (workspace_hash sha (lw_root L)) name) name k gs"
  have "groups_ok sha L gs \<Longrightarrow> groups_ok sha L (fold ?push ks gs) \<and> members (fold ?push ks gs) = members gs \<union> set ks" for ks gs
  proof (induction ks arbitrary: gs)
    case (Cons k ks)
    have "groups_ok sha L (?push k gs)" "members (?push k gs) = insert k (members gs)"
      using push_crate_ok[OF Cons.prems] push_crate_members by (simp_all add: Let_def group_id_of_def)
    then show ?case using Cons.IH[of "?push k gs"] by simp
  qed simp
  from this[of "[]" "lw_local_crates L"]
  have f: "groups_ok sha L (fold ?push (lw_local_crates L) [])" "members (fold ?push (lw_local_crates L) []) = set (lw_local_crates L)"
    by (simp_all add: groups_ok_def members_def)
  have "groups_ok sha L (sort_key cg_name gs) \<longleftrightarrow> groups_ok sha L gs" for gs
    by (rule groups_ok_mset) simp
  then show "groups_ok sha L (all_groups sha L)" using f(1) by (simp add: all_groups_def)
  have "members (sort_key cg_name gs) = members gs" for gs by (simp add: members_def)
  then show "members (all_groups sha L) = set (lw_local_crates L)" using f(2) by (simp add: all_groups_def)
qed

lemma groups_ok_same: "groups_ok sha L gs \<Longrightarrow> i < length gs \<Longrightarrow> j < length gs \<Longrightarrow>
    k \<in> set (cg_crates (gs ! i)) \<Longrightarrow> k \<in> set (cg_crates (gs ! j)) \<Longrightarrow> i = j"
  by (metis groups_ok_def length_map nth_eq_iff_index_eq nth_map nth_mem)

lemma map_of_function: "(\<And>a b c. (a, b) \<in> set m \<Longrightarrow> (a, c) \<in> set m \<Longrightarrow> b = c) \<Longrightarrow> map_of m k = Some v \<longleftrightarrow> (k, v) \<in> set m"
  by (metis map_of_SomeD weak_map_of_SomeI)

lemma group_index_iff:
  assumes "groups_ok sha L gs"
  shows "map_of (group_index gs) k = Some i \<longleftrightarrow> i < length gs \<and> k \<in> set (cg_crates (gs ! i))"
proof -
  have m: "(a, b) \<in> set (group_index gs) \<longleftrightarrow> b < length gs \<and> a \<in> set (cg_crates (gs ! b))" for a b
  proof -
    have "(i, g) \<in> set (zip [0..<length gs] gs) \<longleftrightarrow> i < length gs \<and> g = gs ! i" for i g
      by (force simp: set_zip)
    then show ?thesis unfolding group_index_def by (auto simp: image_iff)
  qed
  show ?thesis
    by (subst map_of_function) (use m groups_ok_same[OF assms] in blast, rule m)
qed

lemma group_ids_iff:
  assumes "groups_ok sha L gs"
  shows "map_of (group_ids gs) k = Some j \<longleftrightarrow> (\<exists>g \<in> set gs. j = cg_id g \<and> k \<in> set (cg_crates g))"
proof -
  have m: "(a, b) \<in> set (group_ids gs) \<longleftrightarrow> (\<exists>g \<in> set gs. b = cg_id g \<and> a \<in> set (cg_crates g))" for a b
    by (auto simp: group_ids_def)
  show ?thesis
    by (subst map_of_function) (use m assms in \<open>auto simp: groups_ok_def\<close>)
qed

text \<open>One group depends on another; the workspace has no cycles of groups.\<close>

definition depends_on :: "workspace \<Rightarrow> crate_group \<Rightarrow> crate_group \<Rightarrow> bool" where
  "depends_on L g h \<longleftrightarrow> cg_id g \<noteq> cg_id h \<and> (\<exists>k \<in> set (cg_crates g). \<exists>d \<in> set (lw_dependencies L k). d \<in> set (cg_crates h))"

definition ranked :: "workspace \<Rightarrow> crate_group list \<Rightarrow> (node_id \<Rightarrow> nat) \<Rightarrow> bool" where
  "ranked L gs rank \<longleftrightarrow> list_all (\<lambda>g. list_all (\<lambda>h. depends_on L g h \<longrightarrow> rank (cg_id h) < rank (cg_id g)) gs) gs"

lemma index_dependencies_iff:
  assumes "groups_ok sha L gs"
  shows "j \<in> set (index_dependencies L gs i) \<longleftrightarrow>
    j < length gs \<and> (\<exists>k \<in> set (cg_crates (gs ! i)). \<exists>d \<in> set (lw_dependencies L k). d \<in> set (cg_crates (gs ! j)))"
proof -
  have "j \<in> set (index_dependencies L gs i) \<longleftrightarrow>
      (\<exists>k \<in> set (cg_crates (gs ! i)). \<exists>d \<in> set (lw_dependencies L k). map_of (group_index gs) d = Some j)"
    by (auto simp: index_dependencies_def List.map_filter_def image_iff) force
  then show ?thesis unfolding group_index_iff[OF assms] by blast
qed

lemma dependency_order_spec:
  assumes ok: "groups_ok sha L gs" and "ranked L gs rank"
  shows "distinct (dependency_order L gs) \<and> set (dependency_order L gs) = {..<length gs} \<and>
    deps_first (index_dependencies L gs) {} (dependency_order L gs)"
proof -
  let ?n = "length gs" and ?seen = "replicate (length gs) False"
  have ids: "cg_id (gs ! i) = cg_id (gs ! j) \<longleftrightarrow> i = j" if "i < ?n" "j < ?n" for i j
    using ok that by (metis groups_ok_def length_map nth_eq_iff_index_eq nth_map)
  have deps: "j < ?n \<and> (j \<noteq> i \<longrightarrow> rank (cg_id (gs ! j)) < rank (cg_id (gs ! i)))"
    if "i < ?n" "j \<in> set (index_dependencies L gs i)" for i j
  proof -
    have j: "j < ?n" using that(2) by (simp add: index_dependencies_iff[OF ok])
    have "depends_on L (gs ! i) (gs ! j)" if "j \<noteq> i"
      using that \<open>j \<in> set (index_dependencies L gs i)\<close> ids[OF \<open>i < ?n\<close> j]
      by (auto simp: index_dependencies_iff[OF ok] depends_on_def)
    then show ?thesis using assms(2) that(1) j by (auto simp: ranked_def list_all_iff)
  qed
  obtain s o' where v: "visits (index_dependencies L gs) [0..<?n] ?seen [] = (s, o')" by fastforce
  have empty: "seen_set ?seen = {}" by (auto simp: seen_set_def)
  have "set [0..<?n] \<subseteq> {..<?n}" "length ?seen = ?n" by auto
  from visits_spec[of ?n "index_dependencies L gs" "\<lambda>i. rank (cg_id (gs ! i))", OF deps this(2,1) v]
  have new: "distinct o'" "seen_set s = set o'" "set [0..<?n] \<subseteq> seen_set s"
    "deps_first (index_dependencies L gs) {} o'" "length s = ?n"
    unfolding empty by auto
  moreover have "seen_set s \<subseteq> {..<?n}" using new(5) by (auto simp: seen_set_def)
  moreover have "set [0..<?n] = {..<?n}" by auto
  ultimately show ?thesis by (simp add: dependency_order_def v)
qed

lemma deps_first_sorted:
  "deps_first deps S ks \<Longrightarrow> set ks \<inter> S = {} \<Longrightarrow> distinct ks \<Longrightarrow> sorted_wrt (\<lambda>i j. j \<notin> set (deps i)) ks"
  by (induction ks arbitrary: S) auto

lemma visits_range:
  "length (fst (visits deps js seen order)) = length seen \<and> set (snd (visits deps js seen order)) \<subseteq> set order \<union> {..<length seen}"
proof (induction deps js seen order rule: visits.induct)
  case (2 deps i js seen order)
  show ?case
  proof (cases "i \<ge> length seen \<or> seen ! i")
    case True
    then show ?thesis using 2(1) by simp
  next
    case False
    obtain s o' where s: "visits deps (deps i) (seen[i := True]) order = (s, o')" by fastforce
    have "visits deps (i # js) seen order = visits deps js s (o' @ [i])" using False s by simp
    then show ?thesis using 2(2)[OF False] 2(3)[OF False s[symmetric]] s False by auto
  qed
qed simp

lemma crate_groups_Inr:
  assumes "crate_groups sha L dirty = Inr gs"
  shows "gs = filter (\<lambda>g. set (cg_crates g) \<subseteq> set dirty) (map (\<lambda>i. all_groups sha L ! i) (dependency_order L (all_groups sha L)))
    \<and> set dirty \<subseteq> set (lw_local_crates L)
    \<and> (\<forall>g \<in> set (all_groups sha L). set (cg_crates g) \<subseteq> set dirty \<or> set (cg_crates g) \<inter> set dirty = {})"
proof -
  let ?A = "all_groups sha L" and ?in = "\<lambda>g. filter (\<lambda>k. k \<in> set dirty) (cg_crates g)"
  have local: "set dirty \<subseteq> set (lw_local_crates L)"
    and whole: "\<forall>g \<in> set ?A. length (?in g) = 0 \<or> length (?in g) = length (cg_crates g)"
    and gs: "gs = filter (\<lambda>g. cg_crates g ! 0 \<in> set dirty) (map (\<lambda>i. ?A ! i) (dependency_order L ?A))"
    using assms by (auto simp: crate_groups_def Let_def find_None_iff split: option.splits)
  have all: "set (cg_crates g) \<subseteq> set dirty \<or> set (cg_crates g) \<inter> set dirty = {}" if g: "g \<in> set ?A" for g
  proof -
    have "?in g = [] \<or> (\<forall>k \<in> set (cg_crates g). k \<in> set dirty)"
      using whole g by (metis filter_id_conv length_0_conv length_filter_less linorder_neq_iff)
    then show ?thesis by (auto simp: filter_empty_conv)
  qed
  have "cg_crates g ! 0 \<in> set dirty \<longleftrightarrow> set (cg_crates g) \<subseteq> set dirty" if g: "g \<in> set ?A" for g
  proof -
    have "cg_crates g \<noteq> []" using all_groups_ok(1)[of sha L] g by (simp add: groups_ok_def)
    then have "cg_crates g ! 0 \<in> set (cg_crates g)" by simp
    then show ?thesis using all[OF g] by blast
  qed
  moreover have "i < length ?A" if "i \<in> set (dependency_order L ?A)" for i
    using that visits_range[of "index_dependencies L ?A" "[0..<length ?A]" "replicate (length ?A) False" "[]"]
    unfolding dependency_order_def by auto
  ultimately have "gs = filter (\<lambda>g. set (cg_crates g) \<subseteq> set dirty) (map (\<lambda>i. ?A ! i) (dependency_order L ?A))"
    unfolding gs by (intro filter_cong refl) auto
  then show ?thesis using local all by blast
qed

lemma crate_groups_order:
  assumes gs: "crate_groups sha L dirty = Inr gs" and rank: "ranked L (all_groups sha L) rank"
  shows "distinct gs \<and> set gs = {g \<in> set (all_groups sha L). set (cg_crates g) \<subseteq> set dirty} \<and>
    sorted_wrt (\<lambda>g h. \<not> depends_on L g h) gs"
proof -
  let ?A = "all_groups sha L" and ?o = "dependency_order L (all_groups sha L)"
  note ok = all_groups_ok(1)[of sha L]
  note o = dependency_order_spec[OF ok rank]
  have distA: "distinct ?A" using ok by (simp add: groups_ok_def distinct_map)
  have "sorted_wrt (\<lambda>i j. j \<notin> set (index_dependencies L ?A i)) ?o"
    using deps_first_sorted[of _ "{}" ?o] o by simp
  then have "sorted_wrt (\<lambda>i j. \<not> depends_on L (?A ! i) (?A ! j)) ?o"
  proof (rule sorted_wrt_mono_rel[rotated])
    fix i j assume "i \<in> set ?o" "j \<in> set ?o" "j \<notin> set (index_dependencies L ?A i)"
    then show "\<not> depends_on L (?A ! i) (?A ! j)" using o by (auto simp: index_dependencies_iff[OF ok] depends_on_def)
  qed
  then have "sorted_wrt (\<lambda>g h. \<not> depends_on L g h) (map (\<lambda>i. ?A ! i) ?o)" by (simp add: sorted_wrt_map)
  moreover have "set (map (\<lambda>i. ?A ! i) ?o) = set ?A" using o by (force simp: in_set_conv_nth)
  moreover have "distinct (map (\<lambda>i. ?A ! i) ?o)"
    using o distA by (auto simp: distinct_map inj_on_def nth_eq_iff_index_eq)
  ultimately show ?thesis
    using crate_groups_Inr[OF gs] by (auto simp: sorted_wrt_filter)
qed

lemma crate_groups_all:
  assumes "crate_groups sha L (lw_local_crates L) = Inr gs" "ranked L (all_groups sha L) rank"
  shows "set gs = set (all_groups sha L)" "groups_ok sha L gs" "distinct gs"
proof -
  have "set (cg_crates g) \<subseteq> set (lw_local_crates L)" if "g \<in> set (all_groups sha L)" for g
    using all_groups_ok(2)[of sha L] that by (auto simp: members_def)
  then show s: "set gs = set (all_groups sha L)" and d: "distinct gs" using crate_groups_order[OF assms] by auto
  have "distinct (all_groups sha L)" using all_groups_ok(1)[of sha L] by (simp add: groups_ok_def distinct_map)
  then have "mset gs = mset (all_groups sha L)" using s d by (metis set_eq_iff_mset_eq_distinct)
  then show "groups_ok sha L gs" using all_groups_ok(1) groups_ok_mset by metis
qed

subsection \<open>Dependents\<close>

definition dependent_edges :: "(node_id \<times> node_id list) list \<Rightarrow> (node_id \<times> node_id) set" where
  "dependent_edges m = {(i, j). j \<in> set (dependents_at m i)}"

lemma reach_loop_spec:
  "(\<And>i. i \<in> set reached \<Longrightarrow> set (dependents_at m i) \<subseteq> set reached \<union> set stack) \<Longrightarrow>
   set (reach_loop m stack reached) = set reached \<union> (dependent_edges m)\<^sup>* `` set stack"
proof (induction m stack reached rule: reach_loop.induct)
  case (2 m i stack reached)
  let ?E = "dependent_edges m"
  show ?case
  proof (cases "i \<in> set reached")
    case True
    have inv: "set (dependents_at m j) \<subseteq> set reached \<union> set stack" if "j \<in> set reached" for j
      using 2(3)[OF that] True by auto
    have "j \<in> set reached \<union> ?E\<^sup>* `` set stack" if "(k, j) \<in> ?E\<^sup>*" "k \<in> set reached" for j k
      using that
    proof (induction rule: rtrancl_induct)
      case (step y z)
      then have "y \<in> set reached \<union> ?E\<^sup>* `` set stack" by simp
      then show ?case
      proof
        assume "y \<in> set reached"
        then show ?thesis using inv[of y] step(2) by (auto simp: dependent_edges_def)
      next
        assume "y \<in> ?E\<^sup>* `` set stack"
        then show ?thesis using step(2) by (auto intro: rtrancl.rtrancl_into_rtrancl)
      qed
    qed simp
    then show ?thesis using 2(1)[OF True inv] True by auto
  next
    case False
    have inv: "set (dependents_at m j) \<subseteq> set (i # reached) \<union> set (rev (dependents_at m i) @ stack)" if "j \<in> set (i # reached)" for j
      using 2(3)[of j] that by auto
    have "?E\<^sup>* `` {i} = insert i (?E\<^sup>* `` set (dependents_at m i))"
      by (auto simp: dependent_edges_def elim: converse_rtranclE intro: converse_rtrancl_into_rtrancl)
    then have "set reached \<union> ?E\<^sup>* `` set (i # stack) = set (i # reached) \<union> ?E\<^sup>* `` set (rev (dependents_at m i) @ stack)"
      by auto
    then show ?thesis using 2(2)[OF False inv] False by simp
  qed
qed simp

lemma in_push_dependent:
  "j \<in> set (dependents_at (push_dependent d g m) i) \<longleftrightarrow> i = d \<and> j = g \<or> j \<in> set (dependents_at m i)"
  by (auto simp: dependents_at_def push_dependent_def map_of_update split: option.splits)

lemma in_fold_dependents:
  assumes "\<And>x m. j \<in> set (dependents_at (f x m) i) \<longleftrightarrow> P x \<or> j \<in> set (dependents_at m i)"
  shows "j \<in> set (dependents_at (fold f xs m) i) \<longleftrightarrow> (\<exists>x \<in> set xs. P x) \<or> j \<in> set (dependents_at m i)"
  by (induction xs arbitrary: m) (auto simp: assms)

lemma in_dependents:
  "j \<in> set (dependents_at (dependents L gs) i) \<longleftrightarrow>
     (\<exists>g \<in> set gs. \<exists>k \<in> set (cg_crates g). \<exists>d \<in> set (lw_dependencies L k). j = cg_id g \<and> i \<noteq> cg_id g \<and> map_of (group_ids gs) d = Some i)"
proof -
  let ?dep = "\<lambda>g dep m. case map_of (group_ids gs) dep of None \<Rightarrow> m
      | Some dg \<Rightarrow> if dg \<noteq> cg_id g then push_dependent dg (cg_id g) m else m"
  let ?D = "\<lambda>g d. j = cg_id g \<and> i \<noteq> cg_id g \<and> map_of (group_ids gs) d = Some i"
  let ?K = "\<lambda>g k. \<exists>d \<in> set (lw_dependencies L k). ?D g d"
  have 1: "j \<in> set (dependents_at (?dep g dep m) i) \<longleftrightarrow> ?D g dep \<or> j \<in> set (dependents_at m i)" for g dep m
    by (auto simp: in_push_dependent split: option.split)
  note 2 = in_fold_dependents[where P = "?D g" for g, OF 1]
  have 3: "j \<in> set (dependents_at (fold (?dep g) (lw_dependencies L k) m) i) \<longleftrightarrow> ?K g k \<or> j \<in> set (dependents_at m i)" for g k m
    using 2 by blast
  note 4 = in_fold_dependents[where f = "\<lambda>k m. fold (?dep g) (lw_dependencies L k) m" and P = "?K g" for g, OF 3]
  have 5: "j \<in> set (dependents_at (fold (\<lambda>k m. fold (?dep g) (lw_dependencies L k) m) (cg_crates g) m) i) \<longleftrightarrow>
      (\<exists>k \<in> set (cg_crates g). ?K g k) \<or> j \<in> set (dependents_at m i)" for g m using 4 by blast
  have "dependents_at [] i = []" by (simp add: dependents_at_def)
  then show ?thesis unfolding dependents_def
    using in_fold_dependents[where f = "\<lambda>g m. fold (\<lambda>k m. fold (?dep g) (lw_dependencies L k) m) (cg_crates g) m"
        and P = "\<lambda>g. \<exists>k \<in> set (cg_crates g). ?K g k", OF 5, of gs "[]"] by simp
qed

text \<open>The groups that depend on a group, directly or through others.\<close>

definition dependency_steps :: "workspace \<Rightarrow> crate_group list \<Rightarrow> (node_id \<times> node_id) set" where
  "dependency_steps L gs = {(cg_id h, cg_id g) | g h. g \<in> set gs \<and> h \<in> set gs \<and> depends_on L g h}"

lemma dependent_edges_dependents:
  assumes "groups_ok sha L gs"
  shows "dependent_edges (dependents L gs) = dependency_steps L gs"
proof -
  let ?pair = "\<lambda>i j g h k d. g \<in> set gs \<and> h \<in> set gs \<and> i = cg_id h \<and> j = cg_id g \<and> i \<noteq> j \<and>
    k \<in> set (cg_crates g) \<and> d \<in> set (lw_dependencies L k) \<and> d \<in> set (cg_crates h)"
  have "(i, j) \<in> dependent_edges (dependents L gs) \<longleftrightarrow> (\<exists>g h k d. ?pair i j g h k d)" for i j
    unfolding dependent_edges_def mem_Collect_eq prod.case in_dependents group_ids_iff[OF assms] by blast
  moreover have "(i, j) \<in> dependency_steps L gs \<longleftrightarrow> (\<exists>g h k d. ?pair i j g h k d)" for i j
  proof
    assume "(i, j) \<in> dependency_steps L gs"
    then obtain g h where "g \<in> set gs" "h \<in> set gs" "i = cg_id h" "j = cg_id g" "depends_on L g h"
      unfolding dependency_steps_def by blast
    then show "\<exists>g h k d. ?pair i j g h k d" unfolding depends_on_def by metis
  next
    assume "\<exists>g h k d. ?pair i j g h k d"
    then show "(i, j) \<in> dependency_steps L gs" unfolding dependency_steps_def depends_on_def by fastforce
  qed
  ultimately show ?thesis by auto
qed

lemma with_dependents_closure:
  assumes "groups_ok sha L gs"
  shows "with_dependents L gs seeds = (dependency_steps L gs)\<^sup>* `` set seeds"
  unfolding with_dependents_def using reach_loop_spec[of "[]" "dependents L gs" "rev seeds"]
  by (simp add: dependent_edges_dependents[OF assms])

lemma plan_build_spec:
  assumes plan: "plan_build sha (Some base) inputs L = Inr (PlanIncremental dirty changed)" and rank: "ranked L (all_groups sha L) rank"
  obtains base_inputs gs where "gm_inputs base = Some base_inputs" "bi_global base_inputs = bi_global inputs"
    "changed = changed_packages inputs base_inputs"
    "crate_groups sha L (lw_local_crates L) = Inr gs" "set gs = set (all_groups sha L)"
    "set (map cg_name gs) = set (map fst (gm_crate_packages base))"
    "dirty = filter (\<lambda>g. \<exists>h \<in> set gs. directly_dirty base changed h \<and> (cg_id h, cg_id g) \<in> (dependency_steps L gs)\<^sup>*) gs"
proof -
  obtain base_inputs gs where b: "gm_inputs base = Some base_inputs" "bi_global base_inputs = bi_global inputs"
    "crate_groups sha L (lw_local_crates L) = Inr gs" "set (map cg_name gs) = set (map fst (gm_crate_packages base))"
    "changed = changed_packages inputs base_inputs"
    "dirty = filter (\<lambda>g. cg_id g \<in> with_dependents L gs (map cg_id (filter (directly_dirty base changed) gs))) gs"
    using plan by (auto simp: plan_build_def and_then_Inr Let_def split: option.splits if_splits)
  note gs = crate_groups_all[OF b(3) rank]
  have "dirty = filter (\<lambda>g. \<exists>h \<in> set gs. directly_dirty base changed h \<and> (cg_id h, cg_id g) \<in> (dependency_steps L gs)\<^sup>*) gs"
    unfolding b(6) with_dependents_closure[OF gs(2)] by (auto intro!: filter_cong)
  then show ?thesis using that b gs(1) by blast
qed

text \<open>C28: The groups to build come out in dependency order: for an acyclic workspace, they are the groups all of whose
  crates are to be built, each once, and no group comes before one that it depends on.\<close>

theorem crate_groups_sorted_by_dependency:
  assumes "crate_groups sha L dirty = Inr gs" "ranked L (all_groups sha L) rank"
  shows "distinct gs \<and> set gs = {g \<in> set (all_groups sha L). set (cg_crates g) \<subseteq> set dirty} \<and>
    sorted_wrt (\<lambda>g h. \<not> depends_on L g h) gs"
  using assms by (rule crate_groups_order)

text \<open>C15: An incremental build is planned only against a base whose global inputs are the same, and rebuilds exactly the groups
  that reach, through their dependencies, a group one of whose packages changed: whatever is left out depends on nothing
  that changed, whatever is rebuilt does.\<close>

theorem plan_rebuilds_dependents_of_changes:
  assumes "plan_build sha (Some base) inputs L = Inr (PlanIncremental dirty changed)" "ranked L (all_groups sha L) rank"
  shows "\<exists>base_inputs. gm_inputs base = Some base_inputs \<and> bi_global base_inputs = bi_global inputs \<and>
    changed = changed_packages inputs base_inputs \<and>
    set dirty = {g \<in> set (all_groups sha L). \<exists>h \<in> set (all_groups sha L). \<exists>packages.
      map_of (gm_crate_packages base) (cg_name h) = Some packages \<and> packages \<inter> changed \<noteq> {} \<and>
      (cg_id h, cg_id g) \<in> (dependency_steps L (all_groups sha L))\<^sup>*}"
proof (rule plan_build_spec[OF assms])
  fix base_inputs gs
  assume base: "gm_inputs base = Some base_inputs" "bi_global base_inputs = bi_global inputs" "changed = changed_packages inputs base_inputs"
    and gs: "set gs = set (all_groups sha L)"
    and dirty: "dirty = filter (\<lambda>g. \<exists>h \<in> set gs. directly_dirty base changed h \<and> (cg_id h, cg_id g) \<in> (dependency_steps L gs)\<^sup>*) gs"
  have "dependency_steps L gs = dependency_steps L (all_groups sha L)" by (simp add: dependency_steps_def gs)
  then have "set dirty = {g \<in> set (all_groups sha L). \<exists>h \<in> set (all_groups sha L). directly_dirty base changed h \<and>
      (cg_id h, cg_id g) \<in> (dependency_steps L (all_groups sha L))\<^sup>*}" using dirty gs by auto
  moreover have "directly_dirty base changed h \<longleftrightarrow>
      (\<exists>packages. map_of (gm_crate_packages base) (cg_name h) = Some packages \<and> packages \<inter> changed \<noteq> {})" for h
    by (simp add: directly_dirty_def split: option.split)
  ultimately show ?thesis using base by auto
qed

text \<open>A workspace of three crates: \<open>app\<close> (0) depends on \<open>lib\<close> (1), which depends on \<open>util\<close> (2).\<close>

definition chain :: workspace where
  "chain = \<lparr>lw_root = [''w''], lw_local_crates = [0, 1, 2],
     lw_dependencies = (\<lambda>k. if k = 0 then [1] else if k = 1 then [2] else []),
     lw_display_name = (\<lambda>k. if k = 0 then ''a'' else if k = 1 then ''l'' else ''u''),
     lw_target_kind = (\<lambda>k. TargetLib), lw_root_file = (\<lambda>k. ''x''),
     lw_module_files = (\<lambda>k. [Some (if k = 0 then ''a/x.rs'' else if k = 1 then ''l/x.rs'' else ''u/x.rs'')])\<rparr>"

definition chain_groups :: "crate_group list" where
  "chain_groups = [\<lparr>cg_id = 4450, cg_name = ''u[lib]@x'', cg_crates = [2]\<rparr>,
     \<lparr>cg_id = 4441, cg_name = ''l[lib]@x'', cg_crates = [1]\<rparr>, \<lparr>cg_id = 4430, cg_name = ''a[lib]@x'', cg_crates = [0]\<rparr>]"

definition chain_rank :: "node_id \<Rightarrow> nat" where
  "chain_rank i = (if i = 4450 then 0 else if i = 4441 then 1 else 2)"

lemma all_groups_chain: "all_groups byte_sum chain = rev chain_groups"
  by code_simp

lemma crate_groups_chain: "crate_groups byte_sum chain [0, 1, 2] = Inr chain_groups"
  by code_simp

lemma ranked_chain: "ranked chain (all_groups byte_sum chain) chain_rank"
  unfolding all_groups_chain by code_simp

theorem crate_groups_sorted_by_dependency_witness:
  "sorted_wrt (\<lambda>g h. \<not> depends_on chain g h) chain_groups"
  using crate_groups_sorted_by_dependency[OF crate_groups_chain ranked_chain] by blast

definition chain_inputs :: "string \<Rightarrow> build_inputs" where
  "chain_inputs h = \<lparr>bi_global = ''0'', bi_packages = [([], ''0''), (''a'', ''1''), (''l'', h), (''u'', ''3'')]\<rparr>"

definition chain_base :: graph_manifest where
  "chain_base = \<lparr>gm_graph_id = ''g'', gm_workspace_root = [''w''], gm_workspace_hash = ''h'', gm_fingerprint = ''f'',
     gm_schema_version = SCHEMA_VERSION, gm_created_at_unix = 0, gm_node_count = 0, gm_binding_count = 0, gm_usage_count = 0,
     gm_usage_counts = None, gm_inputs = Some (chain_inputs ''2''),
     gm_crate_packages = [(''a[lib]@x'', {''a''}), (''l[lib]@x'', {''l''}), (''u[lib]@x'', {''u''})]\<rparr>"

lemma plan_chain:
  "plan_build byte_sum (Some chain_base) (chain_inputs ''4'') chain = Inr (PlanIncremental (tl chain_groups) {''l''})"
  by code_simp

theorem plan_rebuilds_dependents_of_changes_witness:
  "\<exists>h \<in> set (all_groups byte_sum chain). \<exists>packages.
     map_of (gm_crate_packages chain_base) (cg_name h) = Some packages \<and> packages \<inter> {''l''} \<noteq> {} \<and>
     (cg_id h, 4430) \<in> (dependency_steps chain (all_groups byte_sum chain))\<^sup>*"
proof -
  have "\<lparr>cg_id = 4430, cg_name = ''a[lib]@x'', cg_crates = [0]\<rparr> \<in> set (tl chain_groups)" by (simp add: chain_groups_def)
  then show ?thesis using plan_rebuilds_dependents_of_changes[OF plan_chain ranked_chain] by force
qed

end
