(* ===== verification/Graph_Build.thy ===== *)
theory Graph_Build
  imports Ownership_Laws Graph_Plan Texts
begin

text \<open>
  Building and publishing a snapshot of the hypergraph (rmc-graph: graph/snapshot.rs, the manifests of graph/storage.rs and
  graph/input_slice.rs): reuse, staging (empty, or a copy of the published snapshot), one transaction for each group of crates,
  the manifest, the pointer \<open>CURRENT\<close>, and the removal of superseded snapshots.

  The store is the workspace's directory of snapshots. A build runs under \<open>BUILD.lock\<close>, so a build attempt is one operation
  on the store. What it reads from elsewhere is the record \<open>build_world\<close>: the hashed inputs, whether the inputs are still
  the same at each validation, what rust-analyzer loads and extracts, the clock, the process, nonce and serial numbers that a
  fresh identifier is made of, the snapshots that this process holds open. Failures of the file system and of LMDB are left out.
\<close>

subsection \<open>Writing the rows, group by group\<close>

datatype build_error =
    InputChanged | PropagatedPanic | PlanFailed plan_error | RowsFailed graph_error | BuildFailed string

definition lift_error :: "('e \<Rightarrow> 'f) \<Rightarrow> ('e, 'a) result \<Rightarrow> ('f, 'a) result" where
  "lift_error f r = (case r of Inl e \<Rightarrow> Inl (f e) | Inr a \<Rightarrow> Inr a)"

definition expected_node :: "node_id \<Rightarrow> graph_node \<Rightarrow> bool" where
  "expected_node gid n =
     (case nd_kind n of KindWorkspace \<Rightarrow> True | KindExternalSymbol \<Rightarrow> True | _ \<Rightarrow> nd_crate_id n = Some gid)"

definition write_group ::
  "(string \<Rightarrow> node_id) \<Rightarrow> (expansion_site option \<Rightarrow> string) \<Rightarrow> extraction_model \<Rightarrow> crate_group \<Rightarrow> graph_db \<Rightarrow>
   (graph_error, graph_db) result" where
  "write_group sha json M g db =
     and_then (delete_crate_rows (cg_id g) db) (\<lambda>(db1, _).
     and_then (write_owned_rows sha json M (\<lambda>c. c = cg_id g) (gd_rows db1)) (\<lambda>(rows, written).
       let expected = length (filter (expected_node (cg_id g)) (map snd (em_nodes M))) in
       if wc_nodes written \<noteq> expected then Inl (NodesNotWritten (cg_name g) (wc_nodes written) expected)
       else Inr (db1\<lparr>gd_rows := rows\<rparr>)))"

definition le_bytes :: "nat \<Rightarrow> nat \<Rightarrow> string" where
  "le_bytes k n = map (\<lambda>i. char_of (n div 256 ^ i mod 256)) [0..<k]"

definition write_meta :: "string \<Rightarrow> string \<Rightarrow> string \<Rightarrow> nat \<times> nat \<times> nat \<Rightarrow> graph_db \<Rightarrow> graph_db" where
  "write_meta hash fp graph_id counts db =
     (case counts of (nodes, bindings, usages) \<Rightarrow>
       db\<lparr>gd_meta := (gd_meta db)(''workspace_hash'' \<mapsto> hash, ''fingerprint'' \<mapsto> fp, ''graph_id'' \<mapsto> graph_id,
             ''schema_version'' \<mapsto> le_bytes 4 SCHEMA_VERSION, ''node_count'' \<mapsto> le_bytes 8 nodes,
             ''binding_count'' \<mapsto> le_bytes 8 bindings, ''usage_count'' \<mapsto> le_bytes 8 usages)\<rparr>)"

type_synonym extractor = "krate list \<Rightarrow> crate_group \<Rightarrow> (build_error, extraction_model) result"

definition write_by_crate ::
  "(string \<Rightarrow> node_id) \<Rightarrow> (expansion_site option \<Rightarrow> string) \<Rightarrow> extractor \<Rightarrow> workspace \<Rightarrow> krate list \<Rightarrow>
   string \<Rightarrow> string \<Rightarrow> string \<Rightarrow> graph_db \<Rightarrow> (build_error, graph_db \<times> nat \<times> nat \<times> nat) result" where
  "write_by_crate sha json extract L dirty hash fp graph_id db =
     and_then (lift_error PlanFailed (crate_groups sha L dirty)) (\<lambda>groups.
     and_then (for_each (\<lambda>g db. and_then (extract dirty g) (\<lambda>M. lift_error RowsFailed (write_group sha json M g db))) groups db) (\<lambda>db1.
       let counts = (card (gd_rows db1 NodesById), card (gd_rows db1 BindingsById), card (gd_rows db1 UsagesById)) in
       Inr (write_meta hash fp graph_id counts db1, counts)))"

fun usages_of_row :: "row_value \<Rightarrow> graph_usage list" where
  "usages_of_row (UsageV u) = [u]"
| "usages_of_row _ = []"

definition usage_site :: "graph_usage \<Rightarrow> node_id \<times> string \<times> 32 word \<times> 32 word" where
  "usage_site u = (us_consumer_module u, us_file u, us_start u, us_end u)"

definition count_usages :: "graph_rows \<Rightarrow> usage_counts" where
  "count_usages d =
     \<lparr>uc_observations = card (d UsagesById),
      uc_source_sites = card (usage_site ` (\<Union>(k, v) \<in> d UsagesById. set (usages_of_row v))),
      uc_expanded_observations =
        card (Set.filter (\<lambda>(k, v). list_ex (\<lambda>u. us_expansion u \<noteq> None) (usages_of_row v)) (d UsagesById))\<rparr>"

subsection \<open>The store of snapshots\<close>

record snapshot_dir =
  sd_manifest :: "graph_manifest option"
  sd_data :: "graph_db option"

record graph_store =
  gs_current :: "string option"
  gs_snapshots :: "(string \<times> snapshot_dir) list"

definition manifest_at :: "graph_store \<Rightarrow> string \<Rightarrow> graph_manifest option" where
  "manifest_at st i = (case map_of (gs_snapshots st) i of None \<Rightarrow> None | Some d \<Rightarrow> sd_manifest d)"

definition data_at :: "graph_store \<Rightarrow> string \<Rightarrow> graph_db option" where
  "data_at st i = (case map_of (gs_snapshots st) i of None \<Rightarrow> None | Some d \<Rightarrow> sd_data d)"

definition read_manifest :: "graph_manifest \<Rightarrow> (build_error, graph_manifest) result" where
  "read_manifest m = (if gm_schema_version m \<noteq> SCHEMA_VERSION then Inl (BuildFailed ''schema_version'') else Inr m)"

definition read_manifest_compatible :: "graph_manifest \<Rightarrow> graph_manifest option" where
  "read_manifest_compatible m = (if gm_schema_version m \<noteq> SCHEMA_VERSION then None else Some m)"

definition publish_current :: "string \<Rightarrow> graph_store \<Rightarrow> graph_store" where
  "publish_current i st = st\<lparr>gs_current := Some i\<rparr>"

definition publish_current_if_changed :: "string \<Rightarrow> graph_store \<Rightarrow> graph_store" where
  "publish_current_if_changed i st =
     (if trim (case gs_current st of None \<Rightarrow> [] | Some c \<Rightarrow> c) = i then st else publish_current i st)"

definition prune_superseded_snapshots :: "(string \<Rightarrow> bool) \<Rightarrow> string \<Rightarrow> graph_store \<Rightarrow> graph_store" where
  "prune_superseded_snapshots is_open keep st =
     st\<lparr>gs_snapshots := filter (\<lambda>(i, d). i = keep \<or> is_open i) (gs_snapshots st)\<rparr>"

definition open_current :: "graph_store \<Rightarrow> (build_error, (graph_manifest \<times> graph_db) option) result" where
  "open_current st =
     (case gs_current st of
        None \<Rightarrow> Inr None
      | Some c \<Rightarrow>
          let i = trim c in
          if i = [] then Inr None
          else (case manifest_at st i of
             None \<Rightarrow> Inr None
           | Some m \<Rightarrow> (case read_manifest_compatible m of
                None \<Rightarrow> Inr None
              | Some m' \<Rightarrow> (case data_at st i of
                   None \<Rightarrow> Inl (BuildFailed ''data.mdb missing'')
                 | Some db \<Rightarrow> Inr (Some (m', db))))))"

subsection \<open>One attempt\<close>

datatype build_kind = KindReused | KindFull full_reason | KindIncremental "string set" "string list"

record build_result =
  br_graph_id :: string
  br_fingerprint :: string
  br_node_count :: nat
  br_binding_count :: nat
  br_usage_count :: nat
  br_usage_counts :: "usage_counts option"
  br_reused :: bool
  br_kind :: build_kind

record build_world =
  bw_root :: path
  bw_inputs :: build_inputs
  bw_valid :: "nat \<Rightarrow> bool"
  bw_loaded :: "(build_error, workspace) result"
  bw_extract :: extractor
  bw_now :: nat
  bw_process_id :: nat
  bw_nonce :: nat
  bw_serial :: nat
  bw_open :: "string \<Rightarrow> bool"

definition fresh_graph_id :: "(string \<Rightarrow> node_id) \<Rightarrow> build_world \<Rightarrow> string \<Rightarrow> string" where
  "fresh_graph_id sha W own_id =
     to_hex (from_components sha [own_id, nat_str (bw_process_id W), nat_str (bw_nonce W), nat_str (bw_serial W)])"

definition validate :: "build_world \<Rightarrow> nat \<Rightarrow> (build_error, unit) result" where
  "validate W n = (if bw_valid W n then Inr () else Inl InputChanged)"

definition reuse_identity :: "graph_store \<Rightarrow> string \<Rightarrow> string \<Rightarrow> string" where
  "reuse_identity st fp own_id =
     (case gs_current st of
        None \<Rightarrow> own_id
      | Some c \<Rightarrow>
          let i = trim c in
          (case manifest_at st i of
             None \<Rightarrow> own_id
           | Some m \<Rightarrow> (case read_manifest_compatible m of
                None \<Rightarrow> own_id
              | Some m' \<Rightarrow> if gm_fingerprint m' = fp then i else own_id)))"

definition try_reuse_existing_snapshot :: "graph_store \<Rightarrow> string \<Rightarrow> (build_error, build_result option) result" where
  "try_reuse_existing_snapshot st i =
     (case manifest_at st i of
        None \<Rightarrow> Inr None
      | Some m \<Rightarrow> and_then (read_manifest m) (\<lambda>m.
          if data_at st i = None then Inr None
          else Inr (Some \<lparr>br_graph_id = gm_graph_id m, br_fingerprint = gm_fingerprint m, br_node_count = gm_node_count m,
                 br_binding_count = gm_binding_count m, br_usage_count = gm_usage_count m, br_usage_counts = gm_usage_counts m,
                 br_reused = True, br_kind = KindReused\<rparr>)))"

definition choose_plan ::
  "(string \<Rightarrow> node_id) \<Rightarrow> build_world \<Rightarrow> bool \<Rightarrow> workspace \<Rightarrow> string \<Rightarrow> graph_store \<Rightarrow> (build_error, build_plan) result" where
  "choose_plan sha W force L graph_id st =
     (if force then Inr (PlanFull ForceRebuild)
      else case open_current st of
             Inl e \<Rightarrow> Inr (PlanFull CannotOpenBase)
           | Inr None \<Rightarrow> lift_error PlanFailed (plan_build sha None (bw_inputs W) L)
           | Inr (Some (base, _)) \<Rightarrow>
               if gm_graph_id base = graph_id then Inr (PlanFull UnfinishedBuild)
               else lift_error PlanFailed (plan_build sha (Some base) (bw_inputs W) L))"

definition empty_db :: graph_db where
  "empty_db = \<lparr>gd_rows = (\<lambda>_. {}), gd_embeddings = (\<lambda>_. None), gd_meta = (\<lambda>_. None)\<rparr>"

text \<open>What to build and over what: the groups, the rows to start from, the crate packages to keep, the report.\<close>

definition stage ::
  "(string \<Rightarrow> node_id) \<Rightarrow> workspace \<Rightarrow> build_plan \<Rightarrow> graph_store \<Rightarrow>
   (build_error, crate_group list \<times> graph_db \<times> (string \<times> string set) list \<times> build_kind) result" where
  "stage sha L plan st =
     (case plan of
        PlanFull reason \<Rightarrow>
          and_then (lift_error PlanFailed (crate_groups sha L (lw_local_crates L))) (\<lambda>gs. Inr (gs, empty_db, [], KindFull reason))
      | PlanIncremental dirty changed \<Rightarrow>
          (case open_current st of
             Inr (Some (base, db)) \<Rightarrow>
               Inr (dirty, db, filter (\<lambda>(name, _). name \<notin> set (map cg_name dirty)) (gm_crate_packages base),
                    KindIncremental changed (map cg_name dirty))
           | _ \<Rightarrow> Inl (BuildFailed ''no base'')))"

definition build_snapshot ::
  "(string \<Rightarrow> node_id) \<Rightarrow> (expansion_site option \<Rightarrow> string) \<Rightarrow> build_world \<Rightarrow> bool \<Rightarrow> workspace \<Rightarrow> string \<Rightarrow> string \<Rightarrow>
   graph_store \<Rightarrow> (build_error, graph_manifest \<times> graph_db \<times> build_kind) result" where
  "build_snapshot sha json W force L fp graph_id st =
     and_then (choose_plan sha W force L graph_id st) (\<lambda>plan.
     and_then (stage sha L plan st) (\<lambda>(groups, db, packages, kind).
       let hash = workspace_hash sha (bw_root W) in
     and_then (write_by_crate sha json (bw_extract W) L (concat (map cg_crates groups)) hash fp graph_id db)
       (\<lambda>(db', nodes, bindings, usages).
     and_then (validate W 3) (\<lambda>_.
       Inr (\<lparr>gm_graph_id = graph_id, gm_workspace_root = lw_root L, gm_workspace_hash = hash, gm_fingerprint = fp,
             gm_schema_version = SCHEMA_VERSION, gm_created_at_unix = bw_now W, gm_node_count = nodes,
             gm_binding_count = bindings, gm_usage_count = usages, gm_usage_counts = Some (count_usages (gd_rows db')),
             gm_inputs = Some (bw_inputs W),
             gm_crate_packages = fold (\<lambda>g m. btree_put (cg_name g) (crate_packages L g (bw_inputs W)) m) groups packages\<rparr>,
            db', kind)))))"

text \<open>A rejected attempt removes what it staged (\<open>StagedSnapshot\<close>), so that the store is the one it found.\<close>

definition build_fresh ::
  "(string \<Rightarrow> node_id) \<Rightarrow> (expansion_site option \<Rightarrow> string) \<Rightarrow> build_world \<Rightarrow> bool \<Rightarrow> string \<Rightarrow> string \<Rightarrow> graph_store \<Rightarrow>
   (build_error, build_result) result \<times> graph_store" where
  "build_fresh sha json W force fp own_id st =
     (case and_then (bw_loaded W) (\<lambda>L. and_then (validate W 2) (\<lambda>_.
             let graph_id = (if own_id \<in> set (keys (gs_snapshots st)) then fresh_graph_id sha W own_id else own_id) in
             if graph_id \<in> set (keys (gs_snapshots st)) then Inl (BuildFailed ''snapshot directory exists'')
             else build_snapshot sha json W force L fp graph_id st)) of
        Inl e \<Rightarrow> (Inl e, st)
      | Inr (m, db, kind) \<Rightarrow>
          let i = gm_graph_id m;
              st1 = st\<lparr>gs_snapshots := (i, \<lparr>sd_manifest = Some m, sd_data = Some db\<rparr>) # gs_snapshots st\<rparr>
          in (Inr \<lparr>br_graph_id = i, br_fingerprint = fp, br_node_count = gm_node_count m, br_binding_count = gm_binding_count m,
                   br_usage_count = gm_usage_count m, br_usage_counts = gm_usage_counts m, br_reused = False, br_kind = kind\<rparr>,
              prune_superseded_snapshots (bw_open W) i (publish_current i st1)))"

definition build_attempt ::
  "(string \<Rightarrow> node_id) \<Rightarrow> (expansion_site option \<Rightarrow> string) \<Rightarrow> build_world \<Rightarrow> bool \<Rightarrow> graph_store \<Rightarrow>
   (build_error, build_result) result \<times> graph_store" where
  "build_attempt sha json W force st =
     (let fp = fingerprint sha (bw_inputs W);
          own_id = graph_id_for sha (workspace_hash sha (bw_root W)) fp
      in case validate W 0 of
           Inl e \<Rightarrow> (Inl e, st)
         | Inr _ \<Rightarrow>
           if force then build_fresh sha json W force fp own_id st
           else
             let reusable = reuse_identity st fp own_id in
             case try_reuse_existing_snapshot st reusable of
               Inl e \<Rightarrow> (Inl e, st)
             | Inr (Some r) \<Rightarrow>
                 (case validate W 1 of
                    Inl e \<Rightarrow> (Inl e, st)
                  | Inr _ \<Rightarrow> (Inr r, publish_current_if_changed reusable st))
             | Inr None \<Rightarrow> build_fresh sha json W force fp own_id st)"

text \<open>At most three attempts, each with what it sees of the world.\<close>

definition is_retryable :: "build_error \<Rightarrow> bool" where
  "is_retryable e \<longleftrightarrow> (case e of InputChanged \<Rightarrow> True | PropagatedPanic \<Rightarrow> True | _ \<Rightarrow> False)"

fun retry_from :: "nat \<Rightarrow> (nat \<Rightarrow> 's \<Rightarrow> (build_error, 'a) result \<times> 's) \<Rightarrow> nat \<Rightarrow> 's \<Rightarrow> (build_error, 'a) result \<times> 's" where
  "retry_from 0 build attempt st = build attempt st"
| "retry_from (Suc left) build attempt st =
     (case build attempt st of
        (Inl e, st') \<Rightarrow> if is_retryable e then retry_from left build (Suc attempt) st' else (Inl e, st')
      | (Inr r, st') \<Rightarrow> (Inr r, st'))"

definition retry_build :: "(nat \<Rightarrow> 's \<Rightarrow> (build_error, 'a) result \<times> 's) \<Rightarrow> 's \<Rightarrow> (build_error, 'a) result \<times> 's" where
  "retry_build build st = retry_from 2 build 0 st"

definition build_and_persist ::
  "(string \<Rightarrow> node_id) \<Rightarrow> (expansion_site option \<Rightarrow> string) \<Rightarrow> (nat \<Rightarrow> build_world) \<Rightarrow> bool \<Rightarrow> graph_store \<Rightarrow>
   (build_error, build_result) result \<times> graph_store" where
  "build_and_persist sha json world force st =
     retry_build (\<lambda>attempt st. build_attempt sha json (world attempt) force st) st"

end
