(* ===== verification/Build_Laws.thy ===== *)
theory Build_Laws
  imports Graph_Build
begin

text \<open>
  What a graph build guarantees: writing a group succeeds when its model is complete, the rows of a snapshot are the
  contributions of its crates whatever was written when, an incremental build gives the rows of a full one, and the store
  always serves a published snapshot.
\<close>

subsection \<open>A complete model is written\<close>

definition owners_known :: "extraction_model \<Rightarrow> bool" where
  "owners_known M \<longleftrightarrow>
     list_all (\<lambda>n. nd_kind n \<in> set [KindWorkspace, KindExternalSymbol] \<or> nd_crate_id n \<noteq> None) (map snd (em_nodes M)) \<and>
     list_all (\<lambda>b. is_ok (owner_of M (bd_from_module b))) (em_bindings M) \<and>
     list_all (\<lambda>e. is_ok (owner_of M (snd e))) (em_contains M) \<and>
     list_all (\<lambda>u. is_ok (owner_of M (us_consumer_module u))) (em_usages M) \<and>
     list_all (\<lambda>u. is_ok (owner_of M (uc_consumer_module u))) (em_unresolved_calls M) \<and>
     list_all (\<lambda>e. is_stub M (fst e) \<or> is_ok (owner_of M (fst e))) (em_signatures M) \<and>
     list_all (\<lambda>e. is_stub M (fst e) \<or> is_ok (owner_of M (fst e))) (em_statics M)"

lemma is_ok_iff: "is_ok r \<longleftrightarrow> (\<exists>a. r = Inr a)"
  by (cases r) simp_all

lemma for_each_total:
  assumes "\<And>x s. x \<in> set xs \<Longrightarrow> is_ok (f x s)"
  shows "\<exists>s'. for_each f xs s = Inr s'"
  using assms
proof (induction xs arbitrary: s)
  case (Cons x xs)
  obtain s1 where s1: "f x s = Inr s1" using Cons.prems[of x s] by (auto simp: is_ok_iff)
  have "\<exists>s'. for_each f xs s1 = Inr s'" by (rule Cons.IH) (simp add: Cons.prems)
  then show ?case using s1 by simp
qed simp

lemma for_each_keeps:
  assumes "for_each f xs s = Inr s'" "\<And>x s s'. x \<in> set xs \<Longrightarrow> f x s = Inr s' \<Longrightarrow> Q s' = Q s"
  shows "Q s' = Q s"
  using assms
proof (induction xs arbitrary: s)
  case (Cons x xs)
  then obtain s1 where s1: "f x s = Inr s1" "for_each f xs s1 = Inr s'" by (auto simp: and_then_Inr)
  have "Q s' = Q s1" by (rule Cons.IH[OF s1(2)]) (rule Cons.prems(2), simp_all)
  moreover have "Q s1 = Q s" by (rule Cons.prems(2)[OF _ s1(1)]) simp
  ultimately show ?case by simp
qed simp

lemma write_owned_rows_total:
  assumes M: "owners_known M"
  shows "\<exists>d' n. write_owned_rows sha json M keep d = Inr (d', n)"
proof -
  let ?ok = "\<lambda>f xs. \<forall>s. \<exists>s'. for_each f xs s = Inr s'"
  have 1: "?ok (write_node keep) (map snd (em_nodes M))"
    using M by (intro allI for_each_total)
      (auto simp: owners_known_def list_all_iff write_node_def split: node_kind.splits option.splits)
  have 2: "?ok (write_binding sha M keep) (em_bindings M)"
    using M by (intro allI for_each_total)
      (auto simp: owners_known_def list_all_iff write_binding_def is_ok_iff Let_def split: option.splits)
  have 3: "?ok (write_contains M keep) (em_contains M)"
    using M by (intro allI for_each_total)
      (auto simp: owners_known_def list_all_iff write_contains_def is_ok_iff split: prod.splits)
  have 4: "?ok (write_usage sha json M keep) (em_usages M)"
    using M by (intro allI for_each_total) (auto simp: owners_known_def list_all_iff write_usage_def is_ok_iff Let_def)
  have 5: "?ok (collect_call M keep) (em_unresolved_calls M)"
    using M by (intro allI for_each_total) (auto simp: owners_known_def list_all_iff collect_call_def is_ok_iff)
  have 6: "?ok (write_calls M) m" if m: "for_each (collect_call M keep) (em_unresolved_calls M) [] = Inr m" for m
  proof (intro allI for_each_total)
    fix e s assume e: "e \<in> set m"
    obtain i cs where ics: "e = (i, cs)" by (cases e)
    note c = collect_calls[OF m]
    have "distinct (map fst m)" using c strict_sorted_iff by blast
    then have "map_of m i = Some cs" using e ics by simp
    then have "cs \<noteq> []" "set cs \<subseteq> set (em_unresolved_calls M)" using c by (auto simp: Let_def split: if_splits)
    then have "is_ok (owner_of M (uc_consumer_module (sorted_calls cs ! 0)))"
      using sorted_calls_head[of cs] M by (auto simp: owners_known_def list_all_iff)
    then show "is_ok (write_calls M e s)" by (auto simp: ics write_calls_def is_ok_iff Let_def)
  qed
  have 7: "?ok (write_record t wrap M keep) rs" if "list_all (\<lambda>e. is_stub M (fst e) \<or> is_ok (owner_of M (fst e))) rs"
    for t rs and wrap :: "'r \<Rightarrow> row_value"
    using that by (intro allI for_each_total)
      (auto simp: list_all_iff write_record_def record_owner_of_def is_ok_iff Let_def split: prod.splits option.splits)
  have "list_all (\<lambda>e. is_stub M (fst e) \<or> is_ok (owner_of M (fst e))) (em_signatures M)"
    "list_all (\<lambda>e. is_stub M (fst e) \<or> is_ok (owner_of M (fst e))) (em_statics M)" using M by (simp_all add: owners_known_def)
  note 8 = 7[OF this(1)] and 9 = 7[OF this(2)]
  show ?thesis unfolding write_owned_rows_def and_then_Inr
    using 1 2 3 4 5 6 8 9 by metis
qed

text \<open>The number of nodes written: the workspace, the nodes of the kept crates, the stubs that their bindings name.\<close>

definition kept_node :: "(node_id \<Rightarrow> bool) \<Rightarrow> graph_node \<Rightarrow> bool" where
  "kept_node keep n \<longleftrightarrow> nd_kind n = KindWorkspace \<or>
     nd_kind n \<noteq> KindExternalSymbol \<and> (case nd_crate_id n of None \<Rightarrow> False | Some c \<Rightarrow> keep c)"

definition nodes_written :: "write_state \<Rightarrow> nat" where
  "nodes_written s = wc_nodes (ws_counts s)"

lemma write_nodes_count:
  "for_each (write_node keep) ns s = Inr s' \<Longrightarrow>
     nodes_written s' = nodes_written s + length (filter (kept_node keep) ns) \<and> ws_stubs s' = ws_stubs s"
proof (induction ns arbitrary: s)
  case (Cons n ns)
  then obtain s1 where s1: "write_node keep n s = Inr s1" "for_each (write_node keep) ns s1 = Inr s'" by (auto simp: and_then_Inr)
  have "nodes_written s1 = nodes_written s + (if kept_node keep n then 1 else 0) \<and> ws_stubs s1 = ws_stubs s"
    using s1(1) by (auto simp: write_node_def put_node_def kept_node_def nodes_written_def
        split: node_kind.splits option.splits if_splits)
  then show ?case using Cons.IH[OF s1(2)] by auto
qed simp

lemma write_bindings_count:
  "for_each (write_binding sha M keep) bs s = Inr s' \<Longrightarrow> finite (ws_stubs s) \<Longrightarrow>
     finite (ws_stubs s') \<and> nodes_written s' + card (ws_stubs s) = nodes_written s + card (ws_stubs s')"
proof (induction bs arbitrary: s)
  case (Cons b bs)
  then obtain s1 where s1: "write_binding sha M keep b s = Inr s1" "for_each (write_binding sha M keep) bs s1 = Inr s'"
    by (auto simp: and_then_Inr)
  have "finite (ws_stubs s1) \<and> nodes_written s1 + card (ws_stubs s) = nodes_written s + card (ws_stubs s1)"
    using s1(1) Cons.prems(2)
    by (auto simp: write_binding_def and_then_Inr put_stub_def put_node_def nodes_written_def Let_def
        split: option.splits if_splits)
  then show ?case using Cons.IH[OF s1(2)] by auto
qed simp

lemma keeps_nodes_written:
  "write_contains M keep e s = Inr s' \<Longrightarrow> nodes_written s' = nodes_written s"
  "write_usage sha json M keep u s = Inr s' \<Longrightarrow> nodes_written s' = nodes_written s"
  "write_calls M c s = Inr s' \<Longrightarrow> nodes_written s' = nodes_written s"
  "write_record t wrap M keep r s = Inr s' \<Longrightarrow> nodes_written s' = nodes_written s"
  by (auto simp: write_contains_def write_usage_def write_calls_def write_record_def nodes_written_def and_then_Inr Let_def
      split: prod.splits option.splits if_splits)

lemma write_owned_rows_count:
  assumes "placement_ok P" "model_fits sha json P M" "snapshot_of P w C d" "write_owned_rows sha json M keep d = Inr (d', n)"
  shows "wc_nodes n = length (filter (kept_node keep) (map snd (em_nodes M))) + card (stubs_of M keep (em_bindings M))"
proof -
  let ?s = "\<lparr>ws_rows = d, ws_stubs = {}, ws_counts = \<lparr>wc_nodes = 0, wc_bindings = 0, wc_usages = 0\<rparr>\<rparr>"
  obtain s1 s2 s3 s4 calls s5 s6 s7 where
    s1: "for_each (write_node keep) (map snd (em_nodes M)) ?s = Inr s1" and
    s2: "for_each (write_binding sha M keep) (em_bindings M) s1 = Inr s2" and
    s3: "for_each (write_contains M keep) (em_contains M) s2 = Inr s3" and
    s4: "for_each (write_usage sha json M keep) (em_usages M) s3 = Inr s4" and
    s5: "for_each (write_calls M) calls s4 = Inr s5" and
    s6: "for_each (write_record SignaturesByTarget SignatureV M keep) (em_signatures M) s5 = Inr s6" and
    s7: "for_each (write_record StaticMetadataByTarget StaticV M keep) (em_statics M) s6 = Inr s7" and n: "n = ws_counts s7"
    using assms(4) unfolding write_owned_rows_def and_then_Inr by auto
  have "nodes_written s3 = nodes_written s2" by (rule for_each_keeps[OF s3]) (rule keeps_nodes_written)
  moreover have "nodes_written s4 = nodes_written s3" by (rule for_each_keeps[OF s4]) (rule keeps_nodes_written)
  moreover have "nodes_written s5 = nodes_written s4" by (rule for_each_keeps[OF s5]) (rule keeps_nodes_written)
  moreover have "nodes_written s6 = nodes_written s5" by (rule for_each_keeps[OF s6]) (rule keeps_nodes_written)
  moreover have "nodes_written s7 = nodes_written s6" by (rule for_each_keeps[OF s7]) (rule keeps_nodes_written)
  moreover have 1: "nodes_written s1 = length (filter (kept_node keep) (map snd (em_nodes M)))" "ws_stubs s1 = {}"
    using write_nodes_count[OF s1] by (simp_all add: nodes_written_def)
  moreover have "nodes_written s2 = nodes_written s1 + card (ws_stubs s2)"
    using write_bindings_count[OF s2] 1(2) by simp
  moreover have "ws_stubs s2 = stubs_of M keep (em_bindings M)"
  proof -
    have "shared_fits P (shared_of P w C)" by (auto simp: shared_fits_def shared_of_def shared_rows_def split: if_splits)
    then have "writing P (ws_rows ?s) C (shared_of P w C)" using assms(3) by (simp add: snapshot_of_def writing_def)
    from conjunct2[OF write_nodes_loop[OF assms(1,2) s1 this]]
    show ?thesis using write_bindings_loop[OF assms(1,2) s2 _ 1(2)] by blast
  qed
  ultimately show ?thesis by (simp add: n nodes_written_def)
qed

text \<open>A model is complete for a group when every owner is known and the group's bindings name all its stubs.\<close>

definition model_complete :: "node_id \<Rightarrow> extraction_model \<Rightarrow> bool" where
  "model_complete gid M \<longleftrightarrow> owners_known M \<and>
     list_all (\<lambda>n. nd_kind n \<noteq> KindExternalSymbol \<or> nd_id n \<in> stubs_of M (\<lambda>c. c = gid) (em_bindings M)) (map snd (em_nodes M))"

lemma nodes_ok_ids_inj: "nodes_ok M \<Longrightarrow> distinct (map (nd_id \<circ> snd) (em_nodes M))"
proof -
  assume ok: "nodes_ok M"
  then have eq: "map (nd_id \<circ> snd) (em_nodes M) = map fst (em_nodes M)"
    by (auto simp: nodes_ok_def list_all_iff)
  show ?thesis unfolding eq by (rule nodes_ok_distinct[OF ok])
qed

lemma expected_nodes:
  assumes M: "model_fits sha json P M" "model_complete gid M"
  shows "length (filter (expected_node gid) (map snd (em_nodes M))) =
    length (filter (kept_node (\<lambda>c. c = gid)) (map snd (em_nodes M))) + card (stubs_of M (\<lambda>c. c = gid) (em_bindings M))"
proof -
  let ?ns = "map snd (em_nodes M)" and ?S = "stubs_of M (\<lambda>c. c = gid) (em_bindings M)"
  have split: "expected_node gid n \<longleftrightarrow> kept_node (\<lambda>c. c = gid) n \<or> nd_kind n = KindExternalSymbol" for n
    by (auto simp: expected_node_def kept_node_def split: node_kind.split option.split)
  have "\<not> (kept_node (\<lambda>c. c = gid) n \<and> nd_kind n = KindExternalSymbol)" for n by (auto simp: kept_node_def)
  then have "length (filter (expected_node gid) ns) =
      length (filter (kept_node (\<lambda>c. c = gid)) ns) + length (filter (\<lambda>n. nd_kind n = KindExternalSymbol) ns)" for ns
    unfolding split by (induction ns) auto
  moreover have "length (filter (\<lambda>n. nd_kind n = KindExternalSymbol) ?ns) = card ?S"
  proof -
    let ?X = "filter (\<lambda>n. nd_kind n = KindExternalSymbol) ?ns"
    have ok: "nodes_ok M" using M(1) by (simp add: model_fits_def)
    have "distinct (map nd_id ?ns)" using nodes_ok_ids_inj[OF ok] by (simp add: comp_def)
    then have "distinct (map nd_id ?X)" by (metis distinct_map_filter)
    then have "length ?X = card (set (map nd_id ?X))" by (metis distinct_card length_map)
    moreover have "set (map nd_id ?X) = ?S"
    proof
      show "set (map nd_id ?X) \<subseteq> ?S" using M(2) by (auto simp: model_complete_def list_all_iff)
      show "?S \<subseteq> set (map nd_id ?X)"
      proof
        fix i assume "i \<in> ?S"
        then obtain b n where "b \<in> set (em_bindings M)" "named_stub M b = Some n" "i = nd_id n" by (auto simp: stubs_of_def)
        then have "map_of (em_nodes M) (bd_target b) = Some n" "nd_kind n = KindExternalSymbol" "i = nd_id n"
          by (auto simp: named_stub_def split: option.splits if_splits)
        then show "i \<in> set (map nd_id ?X)" by (force dest: map_of_SomeD)
      qed
    qed
    ultimately show ?thesis by simp
  qed
  ultimately show ?thesis by (simp only:)
qed

subsection \<open>Groups\<close>

lemma lift_error_simps [simp]: "lift_error f (Inr a) = Inr a" "lift_error f (Inl e) = Inl (f e)"
  by (simp_all add: lift_error_def)

lemma contribution_home:
  assumes "snapshot_of P w C d" "(i, v) \<in> C k NodesById" shows "pl_crate P i = Some k"
  using assms owned_okD(3)[of P C i v k NodesById] by (simp add: snapshot_of_def)

lemma contribution_stub:
  assumes "placement_ok P" "snapshot_of P w C d" "(i, v) \<in> C k StubOwners" shows "pl_crate P i = None"
  using assms owned_okD(1)[of P C i v k StubOwners] placement_okD(3)[OF assms(1)] by (auto simp: snapshot_of_def row_fits_def)

definition keeps_embeddings :: "placement \<Rightarrow> node_id set \<Rightarrow> graph_db \<Rightarrow> graph_db \<Rightarrow> bool" where
  "keeps_embeddings P S db db' \<longleftrightarrow>
     (\<forall>i c. pl_crate P i = Some c \<and> c \<notin> S \<longrightarrow> gd_embeddings db' i = gd_embeddings db i)"

lemma deleted_embeddings:
  assumes P: "placement_ok P" and S: "snapshot_of P w C d"
    and e: "gd_embeddings db' = (\<lambda>i. if i \<in> fst ` C k NodesById \<or> i \<in> fst ` C k StubOwners \<and> Q i then None else gd_embeddings db i)"
  shows "keeps_embeddings P {k} db db'"
  unfolding keeps_embeddings_def
proof (intro allI impI)
  fix i c assume c: "pl_crate P i = Some c \<and> c \<notin> {k}"
  have "i \<notin> fst ` C k NodesById" using c contribution_home[OF S, of i _ k] by auto
  moreover have "i \<notin> fst ` C k StubOwners" using c contribution_stub[OF P S, of i _ k] by auto
  ultimately show "gd_embeddings db' i = gd_embeddings db i" by (simp add: e)
qed

lemma write_group_snapshot:
  assumes P: "placement_ok P" and M: "model_fits sha json P M" "model_complete (cg_id g) M" and C: "snapshot_of P w C (gd_rows db)"
  obtains db' where "write_group sha json M g db = Inr db'"
    "snapshot_of P True (C(cg_id g := contribution sha json M (cg_id g))) (gd_rows db')" "gd_meta db' = gd_meta db"
    "keeps_embeddings P {cg_id g} db db'"
proof -
  let ?k = "cg_id g" and ?keep = "\<lambda>c. c = cg_id g"
  obtain db1 m where db1: "delete_crate_rows ?k db = Inr (db1, m)" "snapshot_of P w (C(?k := no_rows)) (gd_rows db1)"
    "m = card (rows_under (C ?k))" "gd_meta db1 = gd_meta db"
    "gd_embeddings db1 = (\<lambda>i. if i \<in> fst ` C ?k NodesById \<or> i \<in> fst ` C ?k StubOwners \<and> \<not> stub_named (C(?k := no_rows)) i
       then None else gd_embeddings db i)"
    by (rule delete_crate_rows_snapshot[OF P C])
  obtain rows n where run: "write_owned_rows sha json M ?keep (gd_rows db1) = Inr (rows, n)"
    using write_owned_rows_total M(2) unfolding model_complete_def by blast
  have "wc_nodes n = length (filter (expected_node ?k) (map snd (em_nodes M)))"
    using write_owned_rows_count[OF P M(1) db1(2) run] expected_nodes[OF M] by simp
  then have "write_group sha json M g db = Inr (db1\<lparr>gd_rows := rows\<rparr>)"
    by (simp add: write_group_def db1(1) run Let_def)
  moreover have "snapshot_of P True (\<lambda>c. if ?keep c then contribution sha json M c else (C(?k := no_rows)) c) rows"
    by (rule write_owned_rows_snapshot[OF P M(1) db1(2) _ run]) simp
  then have "snapshot_of P True (C(?k := contribution sha json M ?k)) rows"
    by (rule back_subst[of "\<lambda>X. snapshot_of P True X rows"]) auto
  moreover have "keeps_embeddings P {?k} db (db1\<lparr>gd_rows := rows\<rparr>)"
    using deleted_embeddings[OF P C db1(5)] by (simp add: keeps_embeddings_def)
  ultimately show ?thesis using that[of "db1\<lparr>gd_rows := rows\<rparr>"] db1(4) by simp
qed

text \<open>The contributions after some groups have been built.\<close>

definition rebuilt :: "(string \<Rightarrow> node_id) \<Rightarrow> (expansion_site option \<Rightarrow> string) \<Rightarrow> (node_id \<Rightarrow> extraction_model) \<Rightarrow>
    crate_group list \<Rightarrow> contributions \<Rightarrow> contributions" where
  "rebuilt sha json M gs C = (\<lambda>c. if c \<in> cg_id ` set gs then contribution sha json (M c) c else C c)"

definition models_ok :: "(string \<Rightarrow> node_id) \<Rightarrow> (expansion_site option \<Rightarrow> string) \<Rightarrow> placement \<Rightarrow> (node_id \<Rightarrow> extraction_model) \<Rightarrow>
    crate_group list \<Rightarrow> bool" where
  "models_ok sha json P M gs \<longleftrightarrow>
     placement_ok P \<and> list_all (\<lambda>g. model_fits sha json P (M (cg_id g)) \<and> model_complete (cg_id g) (M (cg_id g))) gs"

definition extracts :: "extractor \<Rightarrow> krate list \<Rightarrow> crate_group list \<Rightarrow> (node_id \<Rightarrow> extraction_model) \<Rightarrow> bool" where
  "extracts extract dirty gs M \<longleftrightarrow> list_all (\<lambda>g. extract dirty g = Inr (M (cg_id g))) gs"

lemma write_groups_snapshot:
  assumes "models_ok sha json P M gs" "snapshot_of P w C (gd_rows db)" "extracts extract dirty gs M"
  obtains db' where
    "for_each (\<lambda>g db. and_then (extract dirty g) (\<lambda>M. lift_error RowsFailed (write_group sha json M g db))) gs db = Inr db'"
    "snapshot_of P (w \<or> gs \<noteq> []) (rebuilt sha json M gs C) (gd_rows db')" "gd_meta db' = gd_meta db"
    "keeps_embeddings P (cg_id ` set gs) db db'"
  using assms
proof (induction gs arbitrary: db C w thesis)
  case Nil
  then show ?case by (auto simp: rebuilt_def keeps_embeddings_def)
next
  case (Cons g gs)
  have P: "placement_ok P" and M: "model_fits sha json P (M (cg_id g))" "model_complete (cg_id g) (M (cg_id g))"
    and ok: "models_ok sha json P M gs" and ex: "extract dirty g = Inr (M (cg_id g))" "extracts extract dirty gs M"
    using Cons.prems(2,4) by (simp_all add: models_ok_def extracts_def)
  obtain db1 where db1: "write_group sha json (M (cg_id g)) g db = Inr db1"
    "snapshot_of P True (C(cg_id g := contribution sha json (M (cg_id g)) (cg_id g))) (gd_rows db1)" "gd_meta db1 = gd_meta db"
    "keeps_embeddings P {cg_id g} db db1"
    by (rule write_group_snapshot[OF P M Cons.prems(3)])
  obtain db' where db': "for_each (\<lambda>g db. and_then (extract dirty g) (\<lambda>M. lift_error RowsFailed (write_group sha json M g db))) gs db1 = Inr db'"
    "snapshot_of P (True \<or> gs \<noteq> []) (rebuilt sha json M gs (C(cg_id g := contribution sha json (M (cg_id g)) (cg_id g)))) (gd_rows db')"
    "gd_meta db' = gd_meta db1" "keeps_embeddings P (cg_id ` set gs) db1 db'"
    by (rule Cons.IH[OF _ ok db1(2) ex(2)])
  have "rebuilt sha json M gs (C(cg_id g := contribution sha json (M (cg_id g)) (cg_id g))) = rebuilt sha json M (g # gs) C"
    by (auto simp: rebuilt_def fun_eq_iff)
  moreover have "keeps_embeddings P (cg_id ` set (g # gs)) db db'"
    using db1(4) db'(4) by (simp add: keeps_embeddings_def)
  ultimately show ?case using Cons.prems(1)[of db'] db' db1 ex(1) by simp
qed

definition row_counts :: "graph_rows \<Rightarrow> nat \<times> nat \<times> nat" where
  "row_counts d = (card (d NodesById), card (d BindingsById), card (d UsagesById))"

lemma write_by_crate_snapshot:
  assumes "crate_groups sha L dirty = Inr gs" "models_ok sha json P M gs" "snapshot_of P w C (gd_rows db)"
    "extracts extract dirty gs M"
  obtains db' where "write_by_crate sha json extract L dirty hash fp i db = Inr (db', row_counts (gd_rows db'))"
    "snapshot_of P (w \<or> gs \<noteq> []) (rebuilt sha json M gs C) (gd_rows db')"
    "keeps_embeddings P (cg_id ` set gs) db db'"
proof -
  obtain db1 where db1:
    "for_each (\<lambda>g db. and_then (extract dirty g) (\<lambda>M. lift_error RowsFailed (write_group sha json M g db))) gs db = Inr db1"
    "snapshot_of P (w \<or> gs \<noteq> []) (rebuilt sha json M gs C) (gd_rows db1)" "gd_meta db1 = gd_meta db"
    "keeps_embeddings P (cg_id ` set gs) db db1"
    by (rule write_groups_snapshot[OF assms(2-4)])
  let ?db' = "write_meta hash fp i (row_counts (gd_rows db1)) db1"
  have keep: "gd_rows ?db' = gd_rows db1" "gd_embeddings ?db' = gd_embeddings db1"
    by (simp_all add: write_meta_def row_counts_def)
  have "write_by_crate sha json extract L dirty hash fp i db = Inr (?db', row_counts (gd_rows ?db'))"
    unfolding keep by (simp add: write_by_crate_def assms(1) db1(1) row_counts_def Let_def)
  moreover have "keeps_embeddings P (cg_id ` set gs) db ?db'" using db1(4) unfolding keeps_embeddings_def keep .
  ultimately show ?thesis using that[of ?db'] db1(2) keep by simp
qed

subsection \<open>Incremental builds\<close>

lemma empty_snapshot: "placement_ok P \<Longrightarrow> snapshot_of P False (\<lambda>_. no_rows) (gd_rows empty_db)"
  by (simp add: snapshot_of_def owned_ok_def rows_split_def no_rows_def empty_db_def shared_of_def stub_named_def)

text \<open>C1: An incremental build gives the snapshot of a full build. Over a base that holds the contributions of the
  workspace's groups, where a group left out of the build contributes to the new tree what it contributed to the base, and a
  rebuilt one contributes the same whether its model is extracted in the scope of the dirty crates or of all: both builds
  succeed, with the same rows in every table and the same counts.\<close>

theorem incremental_build_equals_full_build:
  assumes full: "crate_groups sha L (lw_local_crates L) = Inr gs" "models_ok sha json P M gs"
      "extracts extract (lw_local_crates L) gs M"
    and inc: "crate_groups sha L dirty = Inr ds" "models_ok sha json P N ds" "extracts extract dirty ds N"
      "cg_id ` set ds \<subseteq> cg_id ` set gs" "gs \<noteq> []"
    and base: "snapshot_of P True B (gd_rows db)"
    and same: "\<And>c. c \<in> cg_id ` set ds \<Longrightarrow> contribution sha json (N c) c = contribution sha json (M c) c"
      "\<And>c. c \<notin> cg_id ` set ds \<Longrightarrow> B c = (if c \<in> cg_id ` set gs then contribution sha json (M c) c else no_rows)"
  shows "\<exists>full_db inc_db counts.
    write_by_crate sha json extract L (lw_local_crates L) hash fp i empty_db = Inr (full_db, counts) \<and>
    write_by_crate sha json extract L dirty hash fp i db = Inr (inc_db, counts) \<and>
    gd_rows inc_db = gd_rows full_db"
proof -
  have P: "placement_ok P" using full(2) by (simp add: models_ok_def)
  obtain f where f: "write_by_crate sha json extract L (lw_local_crates L) hash fp i empty_db = Inr (f, row_counts (gd_rows f))"
    "snapshot_of P (False \<or> gs \<noteq> []) (rebuilt sha json M gs (\<lambda>_. no_rows)) (gd_rows f)"
    "keeps_embeddings P (cg_id ` set gs) empty_db f"
    by (rule write_by_crate_snapshot[OF full(1,2) empty_snapshot[OF P] full(3)])
  obtain d where d: "write_by_crate sha json extract L dirty hash fp i db = Inr (d, row_counts (gd_rows d))"
    "snapshot_of P (True \<or> ds \<noteq> []) (rebuilt sha json N ds B) (gd_rows d)" "keeps_embeddings P (cg_id ` set ds) db d"
    by (rule write_by_crate_snapshot[OF inc(1,2) base inc(3)])
  have "rebuilt sha json N ds B = rebuilt sha json M gs (\<lambda>_. no_rows)"
    using same inc(4) by (auto simp: rebuilt_def fun_eq_iff)
  then have "gd_rows d = gd_rows f" using f(2) d(2) inc(5) by (auto intro: snapshot_of_unique)
  then show ?thesis using f(1) d(1) by simp
qed

lemma write_groups_direct:
  assumes "models_ok sha json P M gs" "snapshot_of P w C (gd_rows db)"
  obtains db' where "for_each (\<lambda>g. write_group sha json (M (cg_id g)) g) gs db = Inr db'"
    "snapshot_of P (w \<or> gs \<noteq> []) (rebuilt sha json M gs C) (gd_rows db')" "keeps_embeddings P (cg_id ` set gs) db db'"
proof -
  let ?models = "\<lambda>_ g. Inr (M (cg_id g))"
  have ex: "extracts ?models [] gs M" by (simp add: extracts_def list_all_iff)
  have lift: "for_each (\<lambda>g db. and_then (?models [] g) (\<lambda>M. lift_error RowsFailed (write_group sha json M g db))) xs db0 =
      lift_error RowsFailed (for_each (\<lambda>g. write_group sha json (M (cg_id g)) g) xs db0)" for xs db0
  proof (induction xs arbitrary: db0)
    case (Cons g xs)
    then show ?case by (cases "write_group sha json (M (cg_id g)) g db0") simp_all
  qed simp
  obtain d where d: "lift_error RowsFailed (for_each (\<lambda>g. write_group sha json (M (cg_id g)) g) gs db) = Inr d"
    "snapshot_of P (w \<or> gs \<noteq> []) (rebuilt sha json M gs C) (gd_rows d)" "gd_meta d = gd_meta db" "keeps_embeddings P (cg_id ` set gs) db d"
    by (rule write_groups_snapshot[OF assms ex, unfolded lift])
  then have "for_each (\<lambda>g. write_group sha json (M (cg_id g)) g) gs db = Inr d"
    by (cases "for_each (\<lambda>g. write_group sha json (M (cg_id g)) g) gs db") simp_all
  then show ?thesis using that d by blast
qed

text \<open>The order in which the groups are written does not matter: any two lists of the same groups are written, and give the
  same rows.\<close>

theorem group_order_does_not_matter:
  assumes "models_ok sha json P M gs" "set gs = set hs" "snapshot_of P w C (gd_rows db)"
  shows "\<exists>a b. for_each (\<lambda>g. write_group sha json (M (cg_id g)) g) gs db = Inr a \<and>
    for_each (\<lambda>g. write_group sha json (M (cg_id g)) g) hs db = Inr b \<and> gd_rows a = gd_rows b"
proof -
  have hs: "models_ok sha json P M hs" using assms(1,2) by (simp add: models_ok_def list_all_iff)
  obtain a where a: "for_each (\<lambda>g. write_group sha json (M (cg_id g)) g) gs db = Inr a"
    "snapshot_of P (w \<or> gs \<noteq> []) (rebuilt sha json M gs C) (gd_rows a)" "keeps_embeddings P (cg_id ` set gs) db a"
    by (rule write_groups_direct[OF assms(1,3)])
  obtain b where b: "for_each (\<lambda>g. write_group sha json (M (cg_id g)) g) hs db = Inr b"
    "snapshot_of P (w \<or> hs \<noteq> []) (rebuilt sha json M hs C) (gd_rows b)" "keeps_embeddings P (cg_id ` set hs) db b"
    by (rule write_groups_direct[OF hs assms(3)])
  have "rebuilt sha json M gs C = rebuilt sha json M hs C" using assms(2) by (simp add: rebuilt_def)
  moreover have "(w \<or> gs \<noteq> []) = (w \<or> hs \<noteq> [])" using assms(2) by (metis set_empty)
  ultimately have "gd_rows a = gd_rows b" using a(2) b(2) by (auto intro: snapshot_of_unique)
  then show ?thesis using a(1) b(1) by blast
qed

text \<open>C16: Deleting a crate leaves the snapshot that a build of the other crates writes, keeps the embeddings of every node of
  another crate, and reports as many rows as the crate owned.\<close>

theorem deleting_a_crate_leaves_the_others:
  assumes "models_ok sha json P M gs" "snapshot_of P True (rebuilt sha json M gs (\<lambda>_. no_rows)) (gd_rows db)"
    and "set rest = {g \<in> set gs. cg_id g \<noteq> k}" "rest \<noteq> []"
  shows "\<exists>db' built. delete_crate_rows k db = Inr (db', card (rows_under (rebuilt sha json M gs (\<lambda>_. no_rows) k))) \<and>
    for_each (\<lambda>g. write_group sha json (M (cg_id g)) g) rest empty_db = Inr built \<and> gd_rows db' = gd_rows built \<and>
    keeps_embeddings P {k} db db'"
proof -
  let ?C = "rebuilt sha json M gs (\<lambda>_. no_rows)"
  have P: "placement_ok P" using assms(1) by (simp add: models_ok_def)
  have rest: "models_ok sha json P M rest" using assms(1,3) by (simp add: models_ok_def list_all_iff)
  obtain db' n where db': "delete_crate_rows k db = Inr (db', n)" "snapshot_of P True (?C(k := no_rows)) (gd_rows db')"
    "n = card (rows_under (?C k))" "gd_meta db' = gd_meta db"
    "gd_embeddings db' = (\<lambda>i. if i \<in> fst ` ?C k NodesById \<or> i \<in> fst ` ?C k StubOwners \<and> \<not> stub_named (?C(k := no_rows)) i
       then None else gd_embeddings db i)"
    by (rule delete_crate_rows_snapshot[OF P assms(2)])
  obtain b where b: "for_each (\<lambda>g. write_group sha json (M (cg_id g)) g) rest empty_db = Inr b"
    "snapshot_of P (False \<or> rest \<noteq> []) (rebuilt sha json M rest (\<lambda>_. no_rows)) (gd_rows b)"
    "keeps_embeddings P (cg_id ` set rest) empty_db b"
    by (rule write_groups_direct[OF rest empty_snapshot[OF P]])
  have "cg_id ` set rest = cg_id ` set gs - {k}" unfolding assms(3) by auto
  then have "?C(k := no_rows) = rebuilt sha json M rest (\<lambda>_. no_rows)"
    unfolding rebuilt_def by (intro ext) simp
  then have "gd_rows db' = gd_rows b" using db'(2) b(2) assms(4) by (auto intro: snapshot_of_unique)
  moreover have "keeps_embeddings P {k} db db'" by (rule deleted_embeddings[OF P assms(2) db'(5)])
  ultimately show ?thesis using db'(1,3) b(1) by blast
qed

text \<open>Rebuilding a crate whose rows have not changed changes no row.\<close>

theorem rebuilding_an_unchanged_crate_changes_nothing:
  assumes "placement_ok P" "model_fits sha json P M" "model_complete (cg_id g) M" "snapshot_of P True C (gd_rows db)"
    and "C (cg_id g) = contribution sha json M (cg_id g)"
  shows "\<exists>db'. write_group sha json M g db = Inr db' \<and> gd_rows db' = gd_rows db \<and> keeps_embeddings P {cg_id g} db db'"
proof -
  obtain db' where db': "write_group sha json M g db = Inr db'"
    "snapshot_of P True (C(cg_id g := contribution sha json M (cg_id g))) (gd_rows db')" "gd_meta db' = gd_meta db"
    "keeps_embeddings P {cg_id g} db db'"
    by (rule write_group_snapshot[OF assms(1-4)])
  have same: "C(cg_id g := contribution sha json M (cg_id g)) = C" by (rule fun_upd_idem) (rule assms(5))
  have "gd_rows db' = gd_rows db" by (rule snapshot_of_unique[OF db'(2)[unfolded same] assms(4)])
  then show ?thesis using db' by blast
qed

subsection \<open>The store\<close>

text \<open>Every snapshot is complete and carries its own name; snapshots of the content-addressed kind carry the name of their
  contents, the others have longer names; \<open>CURRENT\<close> names a snapshot that is there.\<close>

definition snapshot_ok :: "(string \<Rightarrow> node_id) \<Rightarrow> string \<Rightarrow> string \<Rightarrow> snapshot_dir \<Rightarrow> bool" where
  "snapshot_ok sha hash i d \<longleftrightarrow>
     trim i = i \<and> i \<noteq> [] \<and>
     (case (sd_manifest d, sd_data d) of
        (Some m, Some db) \<Rightarrow> gm_graph_id m = i \<and> gm_schema_version m = SCHEMA_VERSION \<and>
          (i = graph_id_for sha hash (gm_fingerprint m) \<or> length i = 64) \<and>
          (gm_node_count m, gm_binding_count m, gm_usage_count m) = row_counts (gd_rows db)
      | _ \<Rightarrow> False)"

definition store_ok :: "(string \<Rightarrow> node_id) \<Rightarrow> string \<Rightarrow> graph_store \<Rightarrow> bool" where
  "store_ok sha hash st \<longleftrightarrow>
     distinct (keys (gs_snapshots st)) \<and> list_all (\<lambda>(i, d). snapshot_ok sha hash i d) (gs_snapshots st) \<and>
     (case gs_current st of None \<Rightarrow> True | Some c \<Rightarrow> c \<in> set (keys (gs_snapshots st)))"

text \<open>The snapshot that \<open>open_current\<close> gives to readers.\<close>

definition serves :: "graph_store \<Rightarrow> build_result \<Rightarrow> bool" where
  "serves st r \<longleftrightarrow>
     (case open_current st of
        Inr (Some (m, db)) \<Rightarrow> gm_graph_id m = br_graph_id r \<and> gm_fingerprint m = br_fingerprint r \<and>
          (br_node_count r, br_binding_count r, br_usage_count r) = row_counts (gd_rows db)
      | _ \<Rightarrow> False)"

lemma snapshot_okD:
  assumes "store_ok sha hash st" "(i, d) \<in> set (gs_snapshots st)"
  obtains m db where "d = \<lparr>sd_manifest = Some m, sd_data = Some db\<rparr>" "trim i = i" "i \<noteq> []" "gm_graph_id m = i"
    "gm_schema_version m = SCHEMA_VERSION" "i = graph_id_for sha hash (gm_fingerprint m) \<or> length i = 64"
    "(gm_node_count m, gm_binding_count m, gm_usage_count m) = row_counts (gd_rows db)"
    "manifest_at st i = Some m" "data_at st i = Some db"
proof -
  have ok: "snapshot_ok sha hash i d" and look: "map_of (gs_snapshots st) i = Some d"
    using assms by (auto simp: store_ok_def list_all_iff)
  from ok obtain m db where "sd_manifest d = Some m" "sd_data d = Some db"
    by (auto simp: snapshot_ok_def split: option.splits)
  then show ?thesis using ok look that[of m db] by (cases d) (simp add: snapshot_ok_def manifest_at_def data_at_def)
qed

lemma store_lookup:
  assumes "store_ok sha hash st" "manifest_at st i = Some m"
  obtains d where "(i, d) \<in> set (gs_snapshots st)" "sd_manifest d = Some m"
  using assms by (auto simp: manifest_at_def split: option.splits dest: map_of_SomeD)

lemma open_current_published:
  assumes "store_ok sha hash st" "gs_current st = Some i" "manifest_at st i = Some m"
  obtains db where "open_current st = Inr (Some (m, db))" "data_at st i = Some db"
    "(gm_node_count m, gm_binding_count m, gm_usage_count m) = row_counts (gd_rows db)"
proof -
  obtain d where d: "(i, d) \<in> set (gs_snapshots st)" "sd_manifest d = Some m" by (rule store_lookup[OF assms(1,3)])
  show ?thesis
  proof (rule snapshot_okD[OF assms(1) d(1)])
    fix m' db assume a: "d = \<lparr>sd_manifest = Some m', sd_data = Some db\<rparr>" "trim i = i" "i \<noteq> []"
      "gm_schema_version m' = SCHEMA_VERSION" "data_at st i = Some db"
      "(gm_node_count m', gm_binding_count m', gm_usage_count m') = row_counts (gd_rows db)"
    then have "m' = m" using d(2) by simp
    then show ?thesis using that[of db] a assms(2,3) by (simp add: open_current_def read_manifest_compatible_def Let_def)
  qed
qed

lemma prune_ok:
  assumes "store_ok sha hash st" "gs_current st = Some keep"
  shows "store_ok sha hash (prune_superseded_snapshots is_open keep st)"
  using assms by (auto simp: store_ok_def prune_superseded_snapshots_def list_all_iff distinct_map_filter)

lemma prune_lookup:
  "map_of (gs_snapshots (prune_superseded_snapshots is_open keep st)) i =
     (if i = keep \<or> is_open i then map_of (gs_snapshots st) i else None)"
proof -
  have "map_of (filter (\<lambda>(i, d). i = keep \<or> is_open i) ds) i = (if i = keep \<or> is_open i then map_of ds i else None)"
    for ds :: "(string \<times> snapshot_dir) list" by (induction ds) auto
  then show ?thesis by (simp add: prune_superseded_snapshots_def)
qed

lemma length_graph_id_for [simp]: "length (graph_id_for sha hash fp) = 32"
  by (simp add: graph_id_for_def)

lemma length_fresh_graph_id [simp]: "length (fresh_graph_id sha W i) = 64"
  by (simp add: fresh_graph_id_def to_hex_def)

lemma hex_digit_not_space: "n < 16 \<Longrightarrow> \<not> is_whitespace (hex_digit n)"
  by (simp add: hex_digit_def is_whitespace_def numeral_eq_Suc less_Suc_eq) (elim disjE; simp)

lemma hex_encode_not_space: "c \<in> set (hex_encode bs) \<Longrightarrow> \<not> is_whitespace c"
proof (induction bs)
  case (Cons b bs)
  have "\<not> is_whitespace (hex_digit (unat b div 16))" "\<not> is_whitespace (hex_digit (unat b mod 16))"
    using hex_digit_not_space byte_div_less by simp_all
  then show ?case using Cons by (auto simp: hex_encode_Cons)
qed (simp add: hex_encode_def)

lemma trim_no_space:
  assumes "\<And>c. c \<in> set s \<Longrightarrow> \<not> is_whitespace c"
  shows "trim s = s"
proof -
  have keep: "dropWhile is_whitespace t = t" if "set t \<subseteq> set s" for t
    using that assms by (cases t) auto
  show ?thesis using keep[of s] keep[of "rev s"] by (simp add: trim_def)
qed

lemma trim_ids [simp]: "trim (graph_id_for sha hash fp) = graph_id_for sha hash fp"
  "trim (fresh_graph_id sha W i) = fresh_graph_id sha W i"
  by (rule trim_no_space, simp add: graph_id_for_def fresh_graph_id_def to_hex_def hex_encode_not_space)+

definition no_id_clash :: "(string \<Rightarrow> node_id) \<Rightarrow> string \<Rightarrow> string \<Rightarrow> graph_store \<Rightarrow> bool" where
  "no_id_clash sha hash fp st \<longleftrightarrow>
     list_all (\<lambda>(i, d). case sd_manifest d of None \<Rightarrow> True
       | Some m \<Rightarrow> graph_id_for sha hash (gm_fingerprint m) \<noteq> graph_id_for sha hash fp \<or> gm_fingerprint m = fp) (gs_snapshots st)"

lemma write_by_crate_counts:
  "write_by_crate sha json extract L dirty hash fp i db = Inr (db', counts) \<Longrightarrow> counts = row_counts (gd_rows db')"
  by (auto simp: write_by_crate_def and_then_Inr Let_def write_meta_def row_counts_def)

lemma build_snapshot_manifest:
  assumes "build_snapshot sha json W force L fp i st = Inr (m, db, kind)"
  shows "gm_graph_id m = i" "gm_fingerprint m = fp" "gm_schema_version m = SCHEMA_VERSION"
    "(gm_node_count m, gm_binding_count m, gm_usage_count m) = row_counts (gd_rows db)"
  using assms by (auto simp: build_snapshot_def and_then_Inr Let_def dest!: write_by_crate_counts)

lemma build_fresh_Inr:
  assumes ok: "store_ok sha hash st" and run: "build_fresh sha json W force fp (graph_id_for sha hash fp) st = (Inr r, st')"
  shows "store_ok sha hash st' \<and> serves st' r \<and> br_fingerprint r = fp \<and>
    (\<forall>i d. bw_open W i \<and> map_of (gs_snapshots st) i = Some d \<longrightarrow> map_of (gs_snapshots st') i = Some d)"
proof -
  let ?own = "graph_id_for sha hash fp"
  let ?id = "if ?own \<in> set (keys (gs_snapshots st)) then fresh_graph_id sha W ?own else ?own"
  obtain m db kind L where
    b: "build_snapshot sha json W force L fp ?id st = Inr (m, db, kind)" and new: "?id \<notin> set (keys (gs_snapshots st))"
    and r: "r = \<lparr>br_graph_id = gm_graph_id m, br_fingerprint = fp, br_node_count = gm_node_count m,
      br_binding_count = gm_binding_count m, br_usage_count = gm_usage_count m, br_usage_counts = gm_usage_counts m,
      br_reused = False, br_kind = kind\<rparr>"
    and st': "st' = prune_superseded_snapshots (bw_open W) (gm_graph_id m) (publish_current (gm_graph_id m)
      (st\<lparr>gs_snapshots := (gm_graph_id m, \<lparr>sd_manifest = Some m, sd_data = Some db\<rparr>) # gs_snapshots st\<rparr>))"
    using run by (auto simp: build_fresh_def and_then_Inr Let_def split: sum.splits if_splits)
  note m = build_snapshot_manifest[OF b]
  let ?st1 = "st\<lparr>gs_snapshots := (?id, \<lparr>sd_manifest = Some m, sd_data = Some db\<rparr>) # gs_snapshots st\<rparr>"
  have id: "trim ?id = ?id" "?id \<noteq> []" "?id = ?own \<or> length ?id = 64"
  proof -
    have "graph_id_for sha hash fp \<noteq> []" "fresh_graph_id sha W ?own \<noteq> []"
      by (metis length_graph_id_for list.size(3) zero_neq_numeral, metis length_fresh_graph_id list.size(3) zero_neq_numeral)
    then show "?id \<noteq> []" by simp
    show "trim ?id = ?id" "?id = ?own \<or> length ?id = 64" by simp_all
  qed
  have "snapshot_ok sha hash ?id \<lparr>sd_manifest = Some m, sd_data = Some db\<rparr>"
    using id m unfolding snapshot_ok_def by simp
  then have ok1: "store_ok sha hash (publish_current ?id ?st1)"
    using ok new unfolding store_ok_def publish_current_def by simp
  have ok': "store_ok sha hash st'" unfolding st' m(1) by (rule prune_ok[OF ok1]) (simp add: publish_current_def)
  have look: "map_of (gs_snapshots st') i =
      (if i = ?id \<or> bw_open W i then map_of ((?id, \<lparr>sd_manifest = Some m, sd_data = Some db\<rparr>) # gs_snapshots st) i else None)" for i
    unfolding st' m(1) prune_lookup by (simp add: publish_current_def)
  have cur: "gs_current st' = Some ?id" unfolding st' m(1) by (simp add: prune_superseded_snapshots_def publish_current_def)
  have at: "manifest_at st' ?id = Some m" "data_at st' ?id = Some db" unfolding manifest_at_def data_at_def look by simp_all
  obtain db' where "open_current st' = Inr (Some (m, db'))" "data_at st' ?id = Some db'"
    "(gm_node_count m, gm_binding_count m, gm_usage_count m) = row_counts (gd_rows db')"
    by (rule open_current_published[OF ok' cur at(1)])
  then have "serves st' r" by (simp add: serves_def r m(2))
  moreover have "map_of (gs_snapshots st') i = Some d" if "bw_open W i" "map_of (gs_snapshots st) i = Some d" for i d
  proof -
    have "i \<in> set (keys (gs_snapshots st))" using that(2) by (metis in_keys_iff_lookup option.distinct(1))
    then have "i \<noteq> ?id" using new by metis
    then show ?thesis unfolding look using that by simp
  qed
  ultimately show ?thesis using ok' by (simp add: r)
qed

lemma publish_if_changed:
  assumes ok: "store_ok sha hash st" and i: "(i, d) \<in> set (gs_snapshots st)" and "trim i = i"
  shows "gs_current (publish_current_if_changed i st) = Some i" "store_ok sha hash (publish_current_if_changed i st)"
proof -
  have "i \<noteq> []" by (rule snapshot_okD[OF ok i])
  have stay: "gs_current st = Some i" if "trim (case gs_current st of None \<Rightarrow> [] | Some c \<Rightarrow> c) = i"
  proof (cases "gs_current st")
    case None
    then show ?thesis using that \<open>i \<noteq> []\<close> by (simp add: trim_def)
  next
    case (Some c)
    then obtain e where "(c, e) \<in> set (gs_snapshots st)" using ok by (force simp: store_ok_def)
    then have "trim c = c" by (rule snapshot_okD[OF ok])
    then show ?thesis using that Some by simp
  qed
  then show "gs_current (publish_current_if_changed i st) = Some i"
    by (simp add: publish_current_if_changed_def publish_current_def)
  have "store_ok sha hash (publish_current i st)"
    using ok i unfolding store_ok_def publish_current_def by force
  then show "store_ok sha hash (publish_current_if_changed i st)"
    using ok by (simp add: publish_current_if_changed_def)
qed

lemma publish_if_changed_lookup [simp]: "gs_snapshots (publish_current_if_changed i st) = gs_snapshots st"
  by (simp add: publish_current_if_changed_def publish_current_def)

lemma build_attempt_Inr:
  assumes ok: "store_ok sha (workspace_hash sha (bw_root W)) st"
    and clash: "no_id_clash sha (workspace_hash sha (bw_root W)) (fingerprint sha (bw_inputs W)) st"
    and run: "build_attempt sha json W force st = (Inr r, st')"
  shows "store_ok sha (workspace_hash sha (bw_root W)) st' \<and> serves st' r \<and> br_fingerprint r = fingerprint sha (bw_inputs W) \<and>
    (\<forall>i d. bw_open W i \<and> map_of (gs_snapshots st) i = Some d \<longrightarrow> map_of (gs_snapshots st') i = Some d)"
proof -
  let ?h = "workspace_hash sha (bw_root W)" and ?fp = "fingerprint sha (bw_inputs W)"
  let ?own = "graph_id_for sha ?h ?fp"
  let ?i = "reuse_identity st ?fp ?own"
  consider "build_fresh sha json W force ?fp ?own st = (Inr r, st')"
    | "try_reuse_existing_snapshot st ?i = Inr (Some r)" "st' = publish_current_if_changed ?i st"
    using run by (auto simp: build_attempt_def Let_def split: sum.splits option.splits if_splits)
  then show ?thesis
  proof cases
    case 1
    then show ?thesis by (rule build_fresh_Inr[OF ok])
  next
    case 2
    obtain m where m: "manifest_at st ?i = Some m" "r = \<lparr>br_graph_id = gm_graph_id m, br_fingerprint = gm_fingerprint m,
        br_node_count = gm_node_count m, br_binding_count = gm_binding_count m, br_usage_count = gm_usage_count m,
        br_usage_counts = gm_usage_counts m, br_reused = True, br_kind = KindReused\<rparr>"
      using 2(1) by (auto simp: try_reuse_existing_snapshot_def read_manifest_def and_then_Inr split: option.splits if_splits)
    obtain d where d: "(?i, d) \<in> set (gs_snapshots st)" "sd_manifest d = Some m" by (rule store_lookup[OF ok m(1)])
    have fp: "gm_fingerprint m = ?fp" and tr: "trim ?i = ?i"
    proof -
      have *: "trim ?i = ?i \<and> (?i = graph_id_for sha ?h (gm_fingerprint m) \<or> length ?i = 64)"
      proof (rule snapshot_okD[OF ok d(1)])
        fix m' db assume "d = \<lparr>sd_manifest = Some m', sd_data = Some db\<rparr>" "trim ?i = ?i"
          "?i = graph_id_for sha ?h (gm_fingerprint m') \<or> length ?i = 64"
        then show ?thesis using d(2) by simp
      qed
      then show "trim ?i = ?i" by simp
      show "gm_fingerprint m = ?fp"
      proof (cases "?i = ?own")
        case True
        then have "graph_id_for sha ?h (gm_fingerprint m) = ?own" using * by auto
        then show ?thesis using clash d by (auto simp: no_id_clash_def list_all_iff)
      next
        case False
        then show ?thesis using m(1) by (auto simp: reuse_identity_def Let_def read_manifest_compatible_def
            split: option.splits if_splits)
      qed
    qed
    have cur: "gs_current st' = Some ?i" and ok': "store_ok sha ?h st'"
      unfolding 2(2) by (rule publish_if_changed[OF ok d(1) tr])+
    have at: "manifest_at st' ?i = Some m" using m(1) by (simp add: manifest_at_def 2(2))
    obtain db where "open_current st' = Inr (Some (m, db))" "data_at st' ?i = Some db"
      "(gm_node_count m, gm_binding_count m, gm_usage_count m) = row_counts (gd_rows db)"
      by (rule open_current_published[OF ok' cur at])
    then have "serves st' r" by (simp add: serves_def m(2))
    then show ?thesis using ok' fp by (simp add: m(2) 2(2))
  qed
qed

lemma build_attempt_Inl: "build_attempt sha json W force st = (Inl e, st') \<Longrightarrow> st' = st"
  by (auto simp: build_attempt_def build_fresh_def Let_def split: sum.splits option.splits if_splits prod.splits)

lemma retry_from_steps:
  assumes "\<And>n e s s'. build n s = (Inl e, s') \<Longrightarrow> s' = s"
  shows "retry_from left build a st = (Inl e, st') \<Longrightarrow> st' = st"
    "retry_from left build a st = (Inr r, st') \<Longrightarrow> \<exists>n \<le> a + left. build n st = (Inr r, st')"
proof (induction left arbitrary: a)
  case 0
  { case 1 then show ?case using assms by auto }
  { case 2 then show ?case by auto }
next
  case (Suc left)
  { case 1
    then show ?case using Suc.IH(1)[of "Suc a"] assms by (auto split: prod.splits sum.splits if_splits) }
  { case 2
    then obtain x s1 where b: "build a st = (x, s1)" by fastforce
    show ?case
    proof (cases x)
      case (Inr r')
      then show ?thesis using 2 b by (auto intro!: exI[of _ a])
    next
      case (Inl e')
      then have "s1 = st" "retry_from left build (Suc a) st = (Inr r, st')" using 2 b assms by (auto split: if_splits)
      then show ?thesis using Suc.IH(2)[of "Suc a"] by auto
    qed }
qed


text \<open>C8: A build that succeeds leaves a sound store, in which \<open>CURRENT\<close> serves the snapshot that it reports, built from the
  tree that one of its at most three attempts hashed, with the counts of its tables; and no snapshot that a reader of this
  process holds open is removed or replaced.\<close>

theorem successful_build_serves_its_tree:
  assumes ok: "store_ok sha (workspace_hash sha ws) st" and root: "\<And>n. bw_root (world n) = ws"
    and clash: "\<And>n. no_id_clash sha (workspace_hash sha ws) (fingerprint sha (bw_inputs (world n))) st"
    and run: "build_and_persist sha json world force st = (Inr r, st')"
  shows "store_ok sha (workspace_hash sha ws) st' \<and> serves st' r \<and>
    (\<exists>n<3. br_fingerprint r = fingerprint sha (bw_inputs (world n)) \<and>
      (\<forall>i d. bw_open (world n) i \<and> map_of (gs_snapshots st) i = Some d \<longrightarrow> map_of (gs_snapshots st') i = Some d))"
proof -
  obtain n where n: "n \<le> 0 + 2" "build_attempt sha json (world n) force st = (Inr r, st')"
    using run unfolding build_and_persist_def retry_build_def
    by (blast dest: retry_from_steps(2)[rotated] intro: build_attempt_Inl)
  then show ?thesis using build_attempt_Inr[of sha "world n" st json force r st'] ok clash[of n] by (auto simp: root intro!: exI[of _ n])
qed

subsection \<open>A build over a tree that stays put succeeds\<close>

lemma crate_groups_total:
  assumes dirty: "set dirty = (\<Union>g \<in> set ds. set (cg_crates g))" "set ds \<subseteq> set (all_groups sha L)"
  shows "\<exists>gs. crate_groups sha L dirty = Inr gs"
proof -
  let ?A = "all_groups sha L"
  note ok = all_groups_ok[of sha L]
  have local: "find (\<lambda>k. k \<notin> set (lw_local_crates L)) dirty = None"
    using dirty ok(2) by (auto simp: find_None_iff members_def)
  have whole: "length (filter (\<lambda>k. k \<in> set dirty) (cg_crates g)) = 0 \<or>
      length (filter (\<lambda>k. k \<in> set dirty) (cg_crates g)) = length (cg_crates g)" if g: "g \<in> set ?A" for g
  proof (cases "g \<in> set ds")
    case True
    then have "filter (\<lambda>k. k \<in> set dirty) (cg_crates g) = cg_crates g" using dirty(1) by (auto intro: filter_True)
    then show ?thesis by simp
  next
    case False
    have "k \<notin> set dirty" if "k \<in> set (cg_crates g)" for k
    proof
      assume "k \<in> set dirty"
      then obtain h where h: "h \<in> set ds" "k \<in> set (cg_crates h)" using dirty(1) by auto
      then have "h \<in> set ?A" using dirty(2) by blast
      then have "cg_id h = cg_id g" using ok(1) g h(2) that by (simp add: groups_ok_def)
      then have "h = g" using ok(1) g \<open>h \<in> set ?A\<close> by (metis distinct_map groups_ok_def inj_onD)
      then show False using False h(1) by blast
    qed
    then show ?thesis by (simp add: filter_empty_conv)
  qed
  then have "find (\<lambda>g. \<not> (length (filter (\<lambda>k. k \<in> set dirty) (cg_crates g)) = 0 \<or>
      length (filter (\<lambda>k. k \<in> set dirty) (cg_crates g)) = length (cg_crates g))) ?A = None"
    by (auto simp: find_None_iff)
  then show ?thesis using local by (simp add: crate_groups_def Let_def)
qed

lemma crate_groups_local: "\<exists>gs. crate_groups sha L (lw_local_crates L) = Inr gs"
  by (rule crate_groups_total[of _ "all_groups sha L"]) (use all_groups_ok(2)[of sha L] in \<open>simp_all add: members_def\<close>)

text \<open>The world keeps still: nothing changes during the build, rust-analyzer loads the tree and extracts a complete model of
  every group, in whichever scope; and the published snapshot is sound.\<close>

definition steady ::
  "(string \<Rightarrow> node_id) \<Rightarrow> (expansion_site option \<Rightarrow> string) \<Rightarrow> build_world \<Rightarrow> workspace \<Rightarrow> placement \<Rightarrow>
   (krate list \<Rightarrow> node_id \<Rightarrow> extraction_model) \<Rightarrow> graph_store \<Rightarrow> bool" where
  "steady sha json W L P M st \<longleftrightarrow>
     (\<forall>n. bw_valid W n) \<and> bw_loaded W = Inr L \<and>
     (\<forall>dirty. models_ok sha json P (M dirty) (all_groups sha L) \<and> extracts (bw_extract W) dirty (all_groups sha L) (M dirty)) \<and>
     (\<forall>m db. open_current st = Inr (Some (m, db)) \<longrightarrow> (\<exists>w C. snapshot_of P w C (gd_rows db)))"

lemma plan_build_groups:
  "plan_build sha base inputs L = Inr (PlanIncremental dirty changed) \<Longrightarrow> ranked L (all_groups sha L) rank \<Longrightarrow>
     set dirty \<subseteq> set (all_groups sha L)"
  using crate_groups_all(1)[of sha L _ rank]
  by (auto simp: plan_build_def and_then_Inr Let_def split: option.splits if_splits)

lemma plan_build_total: "\<exists>plan. plan_build sha base inputs L = Inr plan"
  using crate_groups_local[of sha L] by (auto simp: plan_build_def Let_def split: option.split)

lemma choose_plan_cases:
  obtains reason where "choose_plan sha W force L i st = Inr (PlanFull reason)"
    | b dirty changed where "open_current st = Inr (Some b)" "choose_plan sha W force L i st = Inr (PlanIncremental dirty changed)"
      "plan_build sha (Some (fst b)) (bw_inputs W) L = Inr (PlanIncremental dirty changed)"
proof (cases "open_current st")
  case (Inl e)
  then have "\<exists>reason. choose_plan sha W force L i st = Inr (PlanFull reason)" by (auto simp: choose_plan_def)
  then show ?thesis using that(1) by blast
next
  case (Inr x)
  show ?thesis
  proof (cases x)
    case None
    then have "\<exists>reason. choose_plan sha W force L i st = Inr (PlanFull reason)"
      using Inr by (auto simp: choose_plan_def plan_build_def)
    then show ?thesis using that(1) by blast
  next
    case (Some b)
    obtain plan where plan: "plan_build sha (Some (fst b)) (bw_inputs W) L = Inr plan" using plan_build_total by blast
    have "(\<exists>reason. choose_plan sha W force L i st = Inr (PlanFull reason)) \<or> choose_plan sha W force L i st = Inr plan"
      using Inr Some plan by (cases b) (auto simp: choose_plan_def)
    then show ?thesis using that(1) that(2)[of b] Inr Some plan by (cases plan) auto
  qed
qed

lemma build_snapshot_steady:
  assumes st: "steady sha json W L P M st" and rank: "ranked L (all_groups sha L) rank"
  shows "\<exists>r. build_snapshot sha json W force L fp i st = Inr r"
proof -
  have P: "placement_ok P" using st by (simp add: steady_def models_ok_def)
  have "\<exists>plan ds db packages kind w C. choose_plan sha W force L i st = Inr plan \<and>
      stage sha L plan st = Inr (ds, db, packages, kind) \<and> set ds \<subseteq> set (all_groups sha L) \<and> snapshot_of P w C (gd_rows db)"
  proof (cases rule: choose_plan_cases[of sha W force L i st])
    case (1 reason)
    obtain gs where gs: "crate_groups sha L (lw_local_crates L) = Inr gs" using crate_groups_local by blast
    then have "stage sha L (PlanFull reason) st = Inr (gs, empty_db, [], KindFull reason)" by (simp add: stage_def)
    then show ?thesis using 1 crate_groups_all(1)[OF gs rank] empty_snapshot[OF P] by blast
  next
    case (2 b dirty changed)
    have "set dirty \<subseteq> set (all_groups sha L)" by (rule plan_build_groups[OF 2(3) rank])
    moreover obtain w C where "snapshot_of P w C (gd_rows (snd b))" using st 2(1) by (cases b) (auto simp: steady_def)
    moreover have "\<exists>packages kind. stage sha L (PlanIncremental dirty changed) st = Inr (dirty, snd b, packages, kind)"
      using 2(1) by (cases b) (simp add: stage_def)
    ultimately show ?thesis using 2(2) by blast
  qed
  then obtain plan ds db packages kind w C where plan: "choose_plan sha W force L i st = Inr plan" and stage: "stage sha L plan st = Inr (ds, db, packages, kind)"
    "set ds \<subseteq> set (all_groups sha L)" "snapshot_of P w C (gd_rows db)" by blast
  let ?dirty = "concat (map cg_crates ds)"
  obtain gs where gs: "crate_groups sha L ?dirty = Inr gs" using crate_groups_total[of ?dirty ds sha L] stage(2) by auto
  have sub: "set gs \<subseteq> set (all_groups sha L)" using crate_groups_order[OF gs rank] by auto
  have "models_ok sha json P (M ?dirty) gs" "extracts (bw_extract W) ?dirty gs (M ?dirty)"
    using st sub by (auto simp: steady_def models_ok_def extracts_def list_all_iff)
  from this(1) stage(3) this(2) obtain db' where
    "write_by_crate sha json (bw_extract W) L ?dirty (workspace_hash sha (bw_root W)) fp i db = Inr (db', row_counts (gd_rows db'))"
    by (rule write_by_crate_snapshot[OF gs])
  then show ?thesis using plan stage(1) st
    by (simp add: build_snapshot_def validate_def steady_def row_counts_def Let_def)
qed

lemma steady_build_runs:
  assumes ok: "store_ok sha (workspace_hash sha (bw_root W)) st" and st: "steady sha json W L P M st"
    and rank: "ranked L (all_groups sha L) rank"
    and fresh: "fresh_graph_id sha W (graph_id_for sha (workspace_hash sha (bw_root W)) (fingerprint sha (bw_inputs W)))
      \<notin> set (keys (gs_snapshots st))"
  shows "\<exists>r st'. build_attempt sha json W force st = (Inr r, st')"
proof -
  let ?fp = "fingerprint sha (bw_inputs W)"
  let ?own = "graph_id_for sha (workspace_hash sha (bw_root W)) ?fp"
  have valid: "validate W n = Inr ()" for n using st by (simp add: steady_def validate_def)
  have loaded: "bw_loaded W = Inr L" using st by (simp add: steady_def)
  have build: "\<exists>r st'. build_fresh sha json W f ?fp ?own st = (Inr r, st')" for f
  proof -
    let ?i = "if ?own \<in> set (keys (gs_snapshots st)) then fresh_graph_id sha W ?own else ?own"
    obtain m db kind where "build_snapshot sha json W f L ?fp ?i st = Inr (m, db, kind)"
      using build_snapshot_steady[OF st rank] by (metis prod_cases3)
    moreover have "?i \<notin> set (keys (gs_snapshots st))" using fresh by (simp split: if_splits)
    ultimately show ?thesis by (simp add: build_fresh_def loaded valid Let_def)
  qed
  show ?thesis
  proof (cases force)
    case True
    then show ?thesis using build by (simp add: build_attempt_def valid Let_def)
  next
    case False
    have "read_manifest m = Inr m" if at: "manifest_at st i = Some m" for i m
    proof -
      obtain d where d: "(i, d) \<in> set (gs_snapshots st)" "sd_manifest d = Some m" by (rule store_lookup[OF ok at])
      show ?thesis
      proof (rule snapshot_okD[OF ok d(1)])
        fix m' db assume "d = \<lparr>sd_manifest = Some m', sd_data = Some db\<rparr>" "gm_schema_version m' = SCHEMA_VERSION"
        then show ?thesis using d(2) by (simp add: read_manifest_def)
      qed
    qed
    then have "\<exists>r. try_reuse_existing_snapshot st i = Inr r" for i
      by (cases "manifest_at st i") (simp_all add: try_reuse_existing_snapshot_def)
    then obtain r where "try_reuse_existing_snapshot st (reuse_identity st ?fp ?own) = Inr r" by blast
    then show ?thesis using False build by (cases r) (simp_all add: build_attempt_def valid Let_def)
  qed
qed

text \<open>C27: A build succeeds when the tree stays put: over a sound store, with an acyclic workspace that loads, and with complete
  models, the attempt returns a result, whether it reuses, copies or starts from nothing.\<close>

theorem steady_build_succeeds:
  assumes ok: "store_ok sha (workspace_hash sha (bw_root W)) st" and st: "steady sha json W L P M st"
    and rank: "ranked L (all_groups sha L) rank"
    and fresh: "fresh_graph_id sha W (graph_id_for sha (workspace_hash sha (bw_root W)) (fingerprint sha (bw_inputs W)))
      \<notin> set (keys (gs_snapshots st))"
  shows "\<exists>r st'. build_attempt sha json W force st = (Inr r, st')"
  using assms by (rule steady_build_runs)

subsection \<open>A workspace of three crates\<close>

text \<open>The workspace \<open>chain\<close>, before and after the crate \<open>a\<close> gets a use of an external symbol and a call into \<open>l\<close>.\<close>

definition ex_node :: "node_id \<Rightarrow> node_kind \<Rightarrow> string \<Rightarrow> node_id option \<Rightarrow> graph_node" where
  "ex_node i k name c = \<lparr>nd_id = i, nd_kind = k, nd_display_name = name, nd_qualified_name = name, nd_crate_id = c,
     nd_parent_id = None, nd_item_kind = None, nd_file = None, nd_span = None, nd_visibility = None, nd_attributes = [],
     nd_crate_target_kind = None, nd_declaration_module = None\<rparr>"

definition ex_workspace :: graph_node where
  "ex_workspace = ex_node 1 KindWorkspace ''w'' None"

definition ex_stub :: graph_node where
  "ex_stub = ex_node 7 KindExternalSymbol ''e'' None"

definition ex_signature :: function_signature where
  "ex_signature = \<lparr>fs_is_async = False, fs_self_param = None, fs_params = [], fs_return_type = ''i32'', fs_generics = []\<rparr>"

definition ex_binding :: "string \<Rightarrow> node_id \<Rightarrow> graph_binding" where
  "ex_binding name target = \<lparr>bd_from_module = 4430, bd_namespace = TypeNs, bd_visible_name = name, bd_target = target,
     bd_kind = NamedImport, bd_visibility = VisPrivate, bd_is_explicit_pub_use = False\<rparr>"

definition ex_usage :: graph_usage where
  "ex_usage = \<lparr>us_target = 4441, us_consumer_module = 4430, us_file = ''x'', us_start = 1, us_end = 2, us_category = UsageOther,
     us_consumer_function = None, us_consumer_item = Some 4430, us_relation = RelCall, us_expansion = None\<rparr>"

definition ex_call :: unresolved_call where
  "ex_call = \<lparr>uc_consumer_module = 4430, uc_consumer_item = None, uc_file = ''x'', uc_start = 3, uc_end = 4,
     uc_expression = ''f()'', uc_reason = IndirectCallable\<rparr>"

definition ex_crates :: "(node_id \<times> graph_node) list" where
  "ex_crates = [(4430, ex_node 4430 KindCrate ''a'' (Some 4430)), (4441, ex_node 4441 KindCrate ''l'' (Some 4441)),
     (4450, ex_node 4450 KindCrate ''u'' (Some 4450))]"

definition ex_contains :: "(node_id \<times> node_id) list" where
  "ex_contains = [(1, 4430), (1, 4441), (1, 4450)]"

definition plain_model :: extraction_model where
  "plain_model = \<lparr>em_workspace_id = 1, em_nodes = (1, ex_workspace) # ex_crates, em_bindings = [], em_usages = [],
     em_unresolved_calls = [], em_contains = ex_contains, em_signatures = [], em_statics = []\<rparr>"

definition app_model :: extraction_model where
  "app_model = \<lparr>em_workspace_id = 1, em_nodes = (1, ex_workspace) # (7, ex_stub) # ex_crates,
     em_bindings = [ex_binding ''e'' 7, ex_binding ''l'' 4441], em_usages = [ex_usage], em_unresolved_calls = [ex_call],
     em_contains = ex_contains, em_signatures = [(7, ex_signature)], em_statics = []\<rparr>"

definition old_models :: "node_id \<Rightarrow> extraction_model" where
  "old_models c = plain_model"

definition new_models :: "node_id \<Rightarrow> extraction_model" where
  "new_models c = (if c = 4430 then app_model else plain_model)"

definition ex_json :: "expansion_site option \<Rightarrow> string" where
  "ex_json x = ''null''"

definition ex_placement :: placement where
  "ex_placement =
     \<lparr>pl_crate = (\<lambda>i. if i \<in> {4430, 4441, 4450} then Some i else None),
      pl_binding = (\<lambda>i. Some 4430), pl_usage = (\<lambda>i. Some 4430), pl_workspace = ex_workspace,
      pl_stubs = (\<lambda>t. if t = NodesById then {(7, NodeV ex_stub)}
        else if t = SignaturesByTarget then {(7, SignatureV ex_signature)} else {})\<rparr>"

lemmas ex_defs = ex_node_def ex_workspace_def ex_stub_def ex_binding_def ex_usage_def ex_call_def ex_crates_def ex_contains_def
  plain_model_def app_model_def

lemma ex_placement_ok: "placement_ok ex_placement"
  by (auto simp: placement_ok_def ex_placement_def stub_ids_def ex_defs)

lemma plain_model_fits: "model_fits byte_sum ex_json ex_placement plain_model"
  by (simp add: model_fits_def nodes_ok_def records_fit_def is_stub_def ex_placement_def ex_defs)

lemma app_model_fits: "model_fits byte_sum ex_json ex_placement app_model"
proof -
  have stub: "is_stub app_model i \<longleftrightarrow> i = 7" for i by (simp add: is_stub_def ex_defs)
  have "records_fit ex_placement app_model SignaturesByTarget SignatureV (em_signatures app_model)"
    "records_fit ex_placement app_model StaticMetadataByTarget StaticV (em_statics app_model)"
    unfolding records_fit_def stub by (auto simp: ex_placement_def app_model_def)
  then show ?thesis unfolding model_fits_def
    by (simp add: nodes_ok_def ex_placement_def call_item_def ex_defs)
qed

lemma plain_model_complete: "model_complete c plain_model"
  by (simp add: model_complete_def owners_known_def owner_of_def ex_defs)

lemma app_model_complete: "model_complete 4430 app_model"
  by (simp add: model_complete_def owners_known_def owner_of_def is_stub_def stubs_of_def named_stub_def ex_defs)

lemma ex_models_ok: "models_ok byte_sum ex_json ex_placement new_models chain_groups"
  "models_ok byte_sum ex_json ex_placement old_models chain_groups"
  by (simp_all add: models_ok_def ex_placement_ok chain_groups_def new_models_def old_models_def plain_model_fits app_model_fits
      plain_model_complete app_model_complete)

lemma crate_groups_app: "crate_groups byte_sum chain [0] = Inr [chain_groups ! 2]"
  by code_simp

abbreviation extract_with :: "(node_id \<Rightarrow> extraction_model) \<Rightarrow> extractor" where
  "extract_with M \<equiv> (\<lambda>_ g. Inr (M (cg_id g)))"

lemma extracts_with [simp]: "extracts (extract_with M) dirty gs M"
  by (simp add: extracts_def list_all_iff)

lemma ex_local: "lw_local_crates chain = [0, 1, 2]"
  by (simp add: chain_def)

lemmas ex_empty = empty_snapshot[OF ex_placement_ok]

theorem incremental_build_equals_full_build_witness:
  "\<exists>base old full_db inc_db counts.
    write_by_crate byte_sum ex_json (extract_with old_models) chain [0, 1, 2] ''h'' ''f'' ''i'' empty_db = Inr (base, old) \<and>
    write_by_crate byte_sum ex_json (extract_with new_models) chain [0, 1, 2] ''h'' ''f'' ''i'' empty_db = Inr (full_db, counts) \<and>
    write_by_crate byte_sum ex_json (extract_with new_models) chain [0] ''h'' ''f'' ''i'' base = Inr (inc_db, counts) \<and>
    gd_rows inc_db = gd_rows full_db"
proof -
  obtain base where base:
    "write_by_crate byte_sum ex_json (extract_with old_models) chain [0, 1, 2] ''h'' ''f'' ''i'' empty_db = Inr (base, row_counts (gd_rows base))"
    "snapshot_of ex_placement (False \<or> chain_groups \<noteq> []) (rebuilt byte_sum ex_json old_models chain_groups (\<lambda>_. no_rows)) (gd_rows base)"
    "keeps_embeddings ex_placement (cg_id ` set chain_groups) empty_db base"
    by (rule write_by_crate_snapshot[OF crate_groups_chain ex_models_ok(2) ex_empty extracts_with])
  have full: "crate_groups byte_sum chain (lw_local_crates chain) = Inr chain_groups"
    unfolding ex_local by (rule crate_groups_chain)
  have ok: "models_ok byte_sum ex_json ex_placement new_models [chain_groups ! 2]"
    using ex_models_ok(1) by (simp add: models_ok_def chain_groups_def)
  have snap: "snapshot_of ex_placement True (rebuilt byte_sum ex_json old_models chain_groups (\<lambda>_. no_rows)) (gd_rows base)"
    using base(2) by (simp add: chain_groups_def)
  have sub: "cg_id ` set [chain_groups ! 2] \<subseteq> cg_id ` set chain_groups" "chain_groups \<noteq> []" by (simp_all add: chain_groups_def)
  have "rebuilt byte_sum ex_json old_models chain_groups (\<lambda>_. no_rows) c =
      (if c \<in> cg_id ` set chain_groups then contribution byte_sum ex_json (new_models c) c else no_rows)"
    if "c \<notin> cg_id ` set [chain_groups ! 2]" for c
    using that by (auto simp: rebuilt_def chain_groups_def new_models_def old_models_def)
  note same = this
  show ?thesis
    using incremental_build_equals_full_build[OF full ex_models_ok(1) extracts_with crate_groups_app ok extracts_with sub snap _ same,
        of "''h''" "''f''" "''i''"] base(1) unfolding ex_local by blast
qed

theorem group_order_does_not_matter_witness:
  "\<exists>a b. for_each (\<lambda>g. write_group byte_sum ex_json (new_models (cg_id g)) g) chain_groups empty_db = Inr a \<and>
    for_each (\<lambda>g. write_group byte_sum ex_json (new_models (cg_id g)) g) (rev chain_groups) empty_db = Inr b \<and> gd_rows a = gd_rows b"
  by (rule group_order_does_not_matter[OF ex_models_ok(1) _ ex_empty]) simp

lemma ex_full_build:
  obtains db where "for_each (\<lambda>g. write_group byte_sum ex_json (new_models (cg_id g)) g) chain_groups empty_db = Inr db"
    "snapshot_of ex_placement True (rebuilt byte_sum ex_json new_models chain_groups (\<lambda>_. no_rows)) (gd_rows db)"
proof -
  obtain db where "for_each (\<lambda>g. write_group byte_sum ex_json (new_models (cg_id g)) g) chain_groups empty_db = Inr db"
    "snapshot_of ex_placement (False \<or> chain_groups \<noteq> []) (rebuilt byte_sum ex_json new_models chain_groups (\<lambda>_. no_rows)) (gd_rows db)"
    "keeps_embeddings ex_placement (cg_id ` set chain_groups) empty_db db"
    by (rule write_groups_direct[OF ex_models_ok(1) ex_empty])
  then show ?thesis using that by (simp add: chain_groups_def)
qed

theorem deleting_a_crate_leaves_the_others_witness:
  "\<exists>db db' n built. for_each (\<lambda>g. write_group byte_sum ex_json (new_models (cg_id g)) g) chain_groups empty_db = Inr db \<and>
    delete_crate_rows 4430 db = Inr (db', n) \<and>
    for_each (\<lambda>g. write_group byte_sum ex_json (new_models (cg_id g)) g) (take 2 chain_groups) empty_db = Inr built \<and>
    gd_rows db' = gd_rows built"
proof -
  obtain db where db: "for_each (\<lambda>g. write_group byte_sum ex_json (new_models (cg_id g)) g) chain_groups empty_db = Inr db"
    "snapshot_of ex_placement True (rebuilt byte_sum ex_json new_models chain_groups (\<lambda>_. no_rows)) (gd_rows db)"
    by (rule ex_full_build)
  have "set (take 2 chain_groups) = {g \<in> set chain_groups. cg_id g \<noteq> 4430}" "take 2 chain_groups \<noteq> []"
    by (auto simp: chain_groups_def)
  from deleting_a_crate_leaves_the_others[OF ex_models_ok(1) db(2) this] db(1) show ?thesis by blast
qed

theorem rebuilding_an_unchanged_crate_changes_nothing_witness:
  "\<exists>db db'. for_each (\<lambda>g. write_group byte_sum ex_json (new_models (cg_id g)) g) chain_groups empty_db = Inr db \<and>
    write_group byte_sum ex_json app_model (chain_groups ! 2) db = Inr db' \<and> gd_rows db' = gd_rows db"
proof -
  obtain db where db: "for_each (\<lambda>g. write_group byte_sum ex_json (new_models (cg_id g)) g) chain_groups empty_db = Inr db"
    "snapshot_of ex_placement True (rebuilt byte_sum ex_json new_models chain_groups (\<lambda>_. no_rows)) (gd_rows db)"
    by (rule ex_full_build)
  have g: "cg_id (chain_groups ! 2) = 4430" by (simp add: chain_groups_def)
  have c: "rebuilt byte_sum ex_json new_models chain_groups (\<lambda>_. no_rows) (cg_id (chain_groups ! 2)) =
      contribution byte_sum ex_json app_model (cg_id (chain_groups ! 2))"
    unfolding g by (simp add: rebuilt_def chain_groups_def new_models_def)
  show ?thesis
    using rebuilding_an_unchanged_crate_changes_nothing[OF ex_placement_ok app_model_fits _ db(2) c] app_model_complete db(1)
    unfolding g by blast
qed

text \<open>Worlds in which the tree stays put, and in which it never does.\<close>

definition ex_world :: "(nat \<Rightarrow> bool) \<Rightarrow> build_world" where
  "ex_world valid = \<lparr>bw_root = [''w''], bw_inputs = chain_inputs ''2'', bw_valid = valid, bw_loaded = Inr chain,
     bw_extract = extract_with new_models, bw_now = 0, bw_process_id = 1, bw_nonce = 2, bw_serial = 3, bw_open = (\<lambda>_. False)\<rparr>"

definition ex_store :: graph_store where
  "ex_store = \<lparr>gs_current = None, gs_snapshots = []\<rparr>"

lemma ex_store_ok: "store_ok byte_sum hash ex_store" "no_id_clash byte_sum hash fp ex_store"
  by (simp_all add: store_ok_def no_id_clash_def ex_store_def)

lemma ex_steady: "steady byte_sum ex_json (ex_world (\<lambda>_. True)) chain ex_placement (\<lambda>_. new_models) ex_store"
proof -
  have "set (all_groups byte_sum chain) = set chain_groups" by (simp add: all_groups_chain)
  then have "models_ok byte_sum ex_json ex_placement new_models (all_groups byte_sum chain)"
    using ex_models_ok(1) by (simp add: models_ok_def list_all_iff)
  then show ?thesis by (simp add: steady_def ex_world_def ex_store_def open_current_def)
qed

theorem steady_build_succeeds_witness:
  "\<exists>r st'. build_attempt byte_sum ex_json (ex_world (\<lambda>_. True)) False ex_store = (Inr r, st')"
  by (rule steady_build_succeeds[OF ex_store_ok(1) ex_steady ranked_chain]) (simp add: ex_store_def)


theorem successful_build_serves_its_tree_witness:
  "\<exists>r st'. build_and_persist byte_sum ex_json (\<lambda>_. ex_world (\<lambda>_. True)) False ex_store = (Inr r, st') \<and> serves st' r \<and>
    br_fingerprint r = fingerprint byte_sum (chain_inputs ''2'')"
proof -
  obtain r st' where "build_attempt byte_sum ex_json (ex_world (\<lambda>_. True)) False ex_store = (Inr r, st')"
    using steady_build_runs[OF ex_store_ok(1) ex_steady ranked_chain, of False] by (auto simp: ex_store_def)
  then have run: "build_and_persist byte_sum ex_json (\<lambda>_. ex_world (\<lambda>_. True)) False ex_store = (Inr r, st')"
    by (simp add: build_and_persist_def retry_build_def numeral_2_eq_2)
  then show ?thesis
    using successful_build_serves_its_tree[OF ex_store_ok(1) _ ex_store_ok(2) run, of "[''w'']"] by (auto simp: ex_world_def)
qed

end
