(* ===== verification/Table_Types.thy ===== *)
theory Table_Types
  imports Build_Laws
begin

text \<open>
  The types of the snapshot's tables (\<open>GraphDatabases::create\<close> in graph/storage.rs declares them to LMDB as key and value
  codecs): which values each table holds and under which key, that a table opened without \<open>DUP_SORT\<close> has one row for a key, and
  that every row of the ownership table decodes. Every write of a build keeps them, whatever the extracted models are.
\<close>

subsection \<open>Well-typed tables\<close>

definition row_typed :: "(string \<Rightarrow> node_id) \<Rightarrow> (expansion_site option \<Rightarrow> string) \<Rightarrow> db_tag \<Rightarrow> node_id \<Rightarrow> row_value \<Rightarrow> bool" where
  "row_typed sha json t k v = (case v of
     NodeV n \<Rightarrow> t = NodesById \<and> nd_id n = k
   | BindingV b \<Rightarrow> t = BindingsById \<and> binding_id_for sha b = k
   | UsageV u \<Rightarrow> t = UsagesById \<and> usage_id_for sha json u = k
   | SignatureV _ \<Rightarrow> t = SignaturesByTarget
   | StaticV _ \<Rightarrow> t = StaticMetadataByTarget
   | CallsV cs \<Rightarrow> t = UnresolvedCallsByOwner \<and> sorted (map call_order cs)
   | IdV _ \<Rightarrow> is_dup_sort t \<and> t \<noteq> OwnedRowsByCrate
   | OwnedV bs \<Rightarrow> t = OwnedRowsByCrate \<and> (\<exists>r. row_shape r \<and> bs = encode r))"

definition tables_typed :: "(string \<Rightarrow> node_id) \<Rightarrow> (expansion_site option \<Rightarrow> string) \<Rightarrow> graph_rows \<Rightarrow> bool" where
  "tables_typed sha json d \<longleftrightarrow>
     (\<forall>t k v. (k, v) \<in> d t \<longrightarrow> row_typed sha json t k v) \<and>
     (\<forall>t k v w. \<not> is_dup_sort t \<longrightarrow> (k, v) \<in> d t \<longrightarrow> (k, w) \<in> d t \<longrightarrow> v = w)"

named_theorems typing

lemma typed_empty [typing]: "tables_typed sha json (gd_rows empty_db)"
  by (simp add: tables_typed_def empty_db_def)

lemma typed_put [typing]: "tables_typed sha json d \<Longrightarrow> row_typed sha json t k v \<Longrightarrow> tables_typed sha json (put t k v d)"
  unfolding tables_typed_def put_def by (auto split: if_splits)

lemma typed_own [typing]: "tables_typed sha json d \<Longrightarrow> row_shape r \<Longrightarrow> tables_typed sha json (own c r d)"
  unfolding own_def by (rule typed_put) (auto simp: row_typed_def)

lemma typed_subset: "tables_typed sha json d \<Longrightarrow> (\<And>t. d' t \<subseteq> d t) \<Longrightarrow> tables_typed sha json d'"
  unfolding tables_typed_def by blast

lemma plain_row_shape [typing]: "t \<noteq> OwnedRowsByCrate \<Longrightarrow> \<not> is_dup_sort t \<Longrightarrow> row_shape (plain_row t k)"
  by (simp add: row_shape_def plain_row_def)

lemma dup_row_shape [typing]: "t \<noteq> OwnedRowsByCrate \<Longrightarrow> is_dup_sort t \<Longrightarrow> row_shape (dup_row t k v)"
  by (simp add: row_shape_def dup_row_def)

lemma id_typed [typing]: "is_dup_sort t \<Longrightarrow> t \<noteq> OwnedRowsByCrate \<Longrightarrow> row_typed sha json t k (IdV i)"
  by (simp add: row_typed_def)

lemma typed_put_indexed [typing]:
  "tables_typed sha json d \<Longrightarrow> is_dup_sort t \<Longrightarrow> t \<noteq> OwnedRowsByCrate \<Longrightarrow> tables_typed sha json (put_indexed c t k i d)"
  unfolding put_indexed_def by (intro typing) auto

lemma for_each_invariant:
  assumes "for_each f xs s = Inr s'" "I s" "\<And>x s s'. x \<in> set xs \<Longrightarrow> I s \<Longrightarrow> f x s = Inr s' \<Longrightarrow> I s'"
  shows "I s'"
  using assms
proof (induction xs arbitrary: s)
  case (Cons x xs)
  then obtain s1 where s1: "f x s = Inr s1" "for_each f xs s1 = Inr s'" by (auto simp: and_then_Inr)
  have "I s1" by (rule Cons.prems(3)[OF _ Cons.prems(2) s1(1)]) simp
  then show ?case by (rule Cons.IH[OF s1(2)]) (rule Cons.prems(3), simp_all)
qed simp

subsection \<open>Each write\<close>

abbreviation rows_ok :: "(string \<Rightarrow> node_id) \<Rightarrow> (expansion_site option \<Rightarrow> string) \<Rightarrow> write_state \<Rightarrow> bool" where
  "rows_ok sha json s \<equiv> tables_typed sha json (ws_rows s)"

lemma typed_put_node: "rows_ok sha json s \<Longrightarrow> rows_ok sha json ((put_node n s))"
  by (simp add: put_node_def typed_put row_typed_def)

lemma typed_write_node: "rows_ok sha json s \<Longrightarrow> write_node keep n s = Inr s' \<Longrightarrow> rows_ok sha json s'"
  by (auto simp: write_node_def typed_own plain_row_shape intro!: typed_put_node split: node_kind.splits option.splits if_splits)

lemma typed_put_stub: "rows_ok sha json s \<Longrightarrow> rows_ok sha json ((put_stub n s))"
  by (auto simp: put_stub_def intro!: typed_put_node)

lemma typed_write_binding: "rows_ok sha json s \<Longrightarrow> write_binding sha M keep b s = Inr s' \<Longrightarrow> rows_ok sha json s'"
  by (auto simp: write_binding_def Let_def and_then_Inr row_typed_def split: if_splits option.splits
      intro!: typed_own typed_put typed_put_stub typing)

lemma typed_write_contains: "rows_ok sha json s \<Longrightarrow> write_contains M keep e s = Inr s' \<Longrightarrow> rows_ok sha json s'"
  by (auto simp: write_contains_def and_then_Inr split: prod.splits if_splits intro!: typing)

lemma typed_write_usage: "rows_ok sha json s \<Longrightarrow> write_usage sha json M keep u s = Inr s' \<Longrightarrow> rows_ok sha json s'"
  by (auto simp: write_usage_def Let_def and_then_Inr row_typed_def split: if_splits option.splits
      intro!: typed_put_indexed typed_own typed_put plain_row_shape)

lemma sorted_remdups_adj_map: "sorted (map f xs) \<Longrightarrow> sorted (map f (remdups_adj xs))"
  by (induction xs rule: remdups_adj.induct) auto

lemma typed_write_calls: "rows_ok sha json s \<Longrightarrow> write_calls M e s = Inr s' \<Longrightarrow> rows_ok sha json s'"
  by (auto simp: write_calls_def and_then_Inr Let_def row_typed_def sorted_calls_def sorted_remdups_adj_map
      intro!: typed_own typed_put plain_row_shape split: prod.splits)

lemma typed_write_record:
  assumes "rows_ok sha json s" "write_record t wrap M keep e s = Inr s'" "\<And>k r. row_typed sha json t k (wrap r)"
    "t \<noteq> OwnedRowsByCrate" "\<not> is_dup_sort t"
  shows "rows_ok sha json s'"
proof -
  obtain target r where e: "e = (target, r)" by (cases e)
  obtain owner where o: "record_owner_of M target (ws_stubs s) keep = Inr owner"
    using assms(2) by (auto simp: write_record_def e and_then_Inr)
  show ?thesis
  proof (cases owner)
    case None
    then show ?thesis using assms o by (simp add: write_record_def e)
  next
    case (Some x)
    then show ?thesis using assms o
      by (cases x) (auto simp: write_record_def e Let_def intro!: typed_own typed_put plain_row_shape)
  qed
qed

lemma typed_write_owned_rows:
  assumes "tables_typed sha json d" "write_owned_rows sha json M keep d = Inr (d', c)"
  shows "tables_typed sha json d'"
proof -
  let ?I = "rows_ok sha json"
  obtain s1 s2 s3 s4 calls s5 s6 s7 where w:
    "for_each (write_node keep) (map snd (em_nodes M))
       \<lparr>ws_rows = d, ws_stubs = {}, ws_counts = \<lparr>wc_nodes = 0, wc_bindings = 0, wc_usages = 0\<rparr>\<rparr> = Inr s1"
    "for_each (write_binding sha M keep) (em_bindings M) s1 = Inr s2"
    "for_each (write_contains M keep) (em_contains M) s2 = Inr s3"
    "for_each (write_usage sha json M keep) (em_usages M) s3 = Inr s4"
    "for_each (write_calls M) calls s4 = Inr s5"
    "for_each (write_record SignaturesByTarget SignatureV M keep) (em_signatures M) s5 = Inr s6"
    "for_each (write_record StaticMetadataByTarget StaticV M keep) (em_statics M) s6 = Inr s7"
    "d' = ws_rows s7"
    using assms(2) unfolding write_owned_rows_def by (auto simp: and_then_Inr)
  have "?I s1" by (rule for_each_invariant[OF w(1)]) (simp_all add: assms(1) typed_write_node)
  then have "?I s2" by (rule for_each_invariant[OF w(2)]) (rule typed_write_binding)
  then have "?I s3" by (rule for_each_invariant[OF w(3)]) (rule typed_write_contains)
  then have "?I s4" by (rule for_each_invariant[OF w(4)]) (rule typed_write_usage)
  then have "?I s5" by (rule for_each_invariant[OF w(5)]) (rule typed_write_calls)
  then have "?I s6" by (rule for_each_invariant[OF w(6)]) (erule (1) typed_write_record; simp add: row_typed_def)
  then have "?I s7" by (rule for_each_invariant[OF w(7)]) (erule (1) typed_write_record; simp add: row_typed_def)
  then show ?thesis by (simp add: w(8))
qed

subsection \<open>Deletions\<close>

lemma delete_row_subset: "snd (delete_row r d) t \<subseteq> d t"
  by (auto simp: delete_row_def delete_key_def delete_one_duplicate_def split: option.splits)

lemma delete_owned_row_subset:
  "delete_owned_row k r s = Inr s' \<Longrightarrow> gd_rows (fst s') t \<subseteq> gd_rows (fst s) t"
  using delete_row_subset[of r "gd_rows (fst s)" t]
  by (auto simp: delete_owned_row_def split: prod.splits if_splits)

lemma delete_stub_subset: "gd_rows (delete_stub x db) t \<subseteq> gd_rows db t"
  by (auto simp: delete_stub_def delete_key_def)

lemma delete_crate_rows_subset:
  assumes "delete_crate_rows k db = Inr (db', n)"
  shows "gd_rows db' t \<subseteq> gd_rows db t"
proof -
  obtain rows db1 stubs where w: "for_each (delete_owned_row k) rows (db, []) = Inr (db1, stubs)"
    "gd_rows db' = snd (delete_key OwnedRowsByCrate k (gd_rows (fold delete_stub stubs db1)))"
    using assms unfolding delete_crate_rows_def by (auto simp: and_then_Inr Let_def split: prod.splits)
  have "gd_rows (fst (db1, stubs)) t \<subseteq> gd_rows db t"
    by (rule for_each_invariant[OF w(1), where I = "\<lambda>s. gd_rows (fst s) t \<subseteq> gd_rows db t"])
      (simp, meson delete_owned_row_subset subset_trans)
  moreover have "gd_rows (fold delete_stub stubs x) t \<subseteq> gd_rows x t" for x
    by (induction stubs arbitrary: x) (simp, metis delete_stub_subset fold_simps(2) subset_trans)
  moreover have "gd_rows db' t \<subseteq> gd_rows (fold delete_stub stubs db1) t" unfolding w(2) by (auto simp: delete_key_def)
  ultimately show ?thesis by (metis fst_conv subset_trans)
qed

lemma owned_rows_decode:
  assumes "tables_typed sha json d"
  shows "\<exists>rows. rows_of_crate k d = Inr rows"
proof -
  have "\<exists>rs. decode_rows bss = Inr rs" if "\<And>bs. bs \<in> set bss \<Longrightarrow> \<exists>r. row_shape r \<and> bs = encode r" for bss
    using that
  proof (induction bss)
    case (Cons bs bss)
    obtain r where "row_shape r" "bs = encode r" using Cons.prems[of bs] by auto
    moreover obtain rs where "decode_rows bss = Inr rs" using Cons by auto
    ultimately show ?case by simp
  qed simp
  note decodes = this
  have "\<exists>r. row_shape r \<and> bs = encode r" if "(k, v) \<in> d OwnedRowsByCrate" "bs = owned_bytes v" for v bs
  proof -
    have "row_typed sha json OwnedRowsByCrate k v" using assms that unfolding tables_typed_def by blast
    then show ?thesis using that by (cases v) (auto simp: row_typed_def)
  qed
  then show ?thesis unfolding rows_of_crate_def
    by (cases "finite (owned_bytes ` values_at OwnedRowsByCrate k d)") (auto intro!: decodes simp: values_at_def)
qed

lemma typed_write_group:
  assumes "tables_typed sha json (gd_rows db)" "write_group sha json M g db = Inr db'"
  shows "tables_typed sha json (gd_rows db')"
proof -
  obtain db1 n rows c where w: "delete_crate_rows (cg_id g) db = Inr (db1, n)"
    "write_owned_rows sha json M (\<lambda>c. c = cg_id g) (gd_rows db1) = Inr (rows, c)" "gd_rows db' = rows"
    using assms(2) by (auto simp: write_group_def and_then_Inr Let_def split: prod.splits if_splits)
  have "tables_typed sha json (gd_rows db1)" by (rule typed_subset[OF assms(1) delete_crate_rows_subset[OF w(1)]])
  then show ?thesis using typed_write_owned_rows w(2,3) by blast
qed

lemma lift_error_Inr: "lift_error f r = Inr a \<longleftrightarrow> r = Inr a"
  by (cases r) (simp_all add: lift_error_def)

text \<open>C25: Whatever models the extraction returns, a build that starts from an empty database or from a copy of a well-typed one
  leaves every table well-typed: each holds values of its own record type under their own identifiers, the tables without
  duplicates have one row for a key, lists of unresolved calls are sorted; and the ownership record of every crate decodes, so
  that the next build can always read what to delete.\<close>

theorem builds_keep_tables_typed:
  assumes "tables_typed sha json (gd_rows db)"
    and "write_by_crate sha json extract L dirty hash fp graph_id db = Inr (db', counts)"
  shows "tables_typed sha json (gd_rows db') \<and> (\<forall>c. \<exists>rows. rows_of_crate c (gd_rows db') = Inr rows)"
proof -
  obtain groups db1 where w:
    "for_each (\<lambda>g db. and_then (extract dirty g) (\<lambda>M. lift_error RowsFailed (write_group sha json M g db))) groups db = Inr db1"
    "gd_rows db' = gd_rows db1"
    using assms(2) unfolding write_by_crate_def by (auto simp: and_then_Inr Let_def write_meta_def)
  have "tables_typed sha json (gd_rows db1)"
    by (rule for_each_invariant[OF w(1), where I = "\<lambda>db. tables_typed sha json (gd_rows db)"])
      (auto simp: assms(1) and_then_Inr lift_error_Inr intro: typed_write_group)
  then show ?thesis using w(2) owned_rows_decode by simp
qed

lemma builds_keep_tables_typed_witness:
  "\<exists>db counts. write_by_crate byte_sum ex_json (extract_with new_models) chain [0, 1, 2] ''h'' ''f'' ''i'' empty_db = Inr (db, counts) \<and>
     tables_typed byte_sum ex_json (gd_rows db)"
proof -
  obtain db counts where "write_by_crate byte_sum ex_json (extract_with new_models) chain [0, 1, 2] ''h'' ''f'' ''i'' empty_db = Inr (db, counts)"
    by (rule write_by_crate_snapshot[OF crate_groups_chain ex_models_ok(1) ex_empty extracts_with])
  then show ?thesis using builds_keep_tables_typed[OF typed_empty] by blast
qed

end
