(* ===== verification/Snapshot_Compare.thy ===== *)
theory Snapshot_Compare
  imports Graph_Model
begin

text \<open>
  The comparison of two snapshots, by which incremental builds are judged (rmc-graph: graph/snapshot_compare.rs): a streaming
  merge of the tables' cursors, and its agreement with the comparison of the sets of all rows.

  A snapshot is seen as raw bytes: the names of its sub-databases and, for each table, the set of its rows. An LMDB cursor
  runs through a table in the order of keys and then of values, byte by byte. The rendering of a row for the report is a
  parameter. The unnamed database lists its sub-databases in the order of their names.
\<close>

subsection \<open>Model\<close>

type_synonym raw_row = "bytes \<times> bytes"

record raw_snapshot =
  rs_sub_dbs :: "string set"
  rs_table :: "db_tag \<Rightarrow> raw_row set"

definition EXCLUDED_TABLES :: "string list" where
  "EXCLUDED_TABLES = [''meta_by_key'', ''embeddings_by_target'']"

definition table_iter :: "raw_snapshot \<Rightarrow> db_tag \<Rightarrow> raw_row list" where
  "table_iter s t = sorted_list_of_set (rs_table s t)"

definition check_known_tables :: "raw_snapshot \<Rightarrow> (string, unit) result" where
  "check_known_tables s =
     (case find (\<lambda>name. \<not> (list_ex (\<lambda>t. db_name t = name) DbTag_ALL \<or> name \<in> set EXCLUDED_TABLES))
             (sorted_list_of_set (rs_sub_dbs s)) of
        Some name \<Rightarrow> Inl name
      | None \<Rightarrow> Inr ())"

definition dump_snapshot :: "raw_snapshot \<Rightarrow> (string, (db_tag \<times> raw_row) set) result" where
  "dump_snapshot s =
     and_then (check_known_tables s) (\<lambda>_. Inr (set (concat (map (\<lambda>t. map (\<lambda>r. (t, r)) (table_iter s t)) DbTag_ALL))))"

record table_diff =
  td_table :: db_tag
  td_only_in_left :: nat
  td_only_in_right :: nat
  td_left_samples :: "string list"
  td_right_samples :: "string list"

definition add_left :: "nat \<Rightarrow> string \<Rightarrow> table_diff \<Rightarrow> table_diff" where
  "add_left samples row_text d =
     d\<lparr>td_only_in_left := td_only_in_left d + 1,
       td_left_samples := (if length (td_left_samples d) < samples then td_left_samples d @ [row_text] else td_left_samples d)\<rparr>"

definition add_right :: "nat \<Rightarrow> string \<Rightarrow> table_diff \<Rightarrow> table_diff" where
  "add_right samples row_text d =
     d\<lparr>td_only_in_right := td_only_in_right d + 1,
       td_right_samples := (if length (td_right_samples d) < samples then td_right_samples d @ [row_text] else td_right_samples d)\<rparr>"

fun merge_tables :: "(raw_row \<Rightarrow> string) \<Rightarrow> nat \<Rightarrow> raw_row list \<Rightarrow> raw_row list \<Rightarrow> table_diff \<Rightarrow> table_diff" where
  "merge_tables render samples [] [] d = d"
| "merge_tables render samples (l # ls) (r # rs) d =
     (if l = r then merge_tables render samples ls rs d
      else if l < r then merge_tables render samples ls (r # rs) (add_left samples (render l) d)
      else merge_tables render samples (l # ls) rs (add_right samples (render r) d))"
| "merge_tables render samples (l # ls) [] d = merge_tables render samples ls [] (add_left samples (render l) d)"
| "merge_tables render samples [] (r # rs) d = merge_tables render samples [] rs (add_right samples (render r) d)"

definition compare_table ::
  "(db_tag \<Rightarrow> raw_row \<Rightarrow> string) \<Rightarrow> nat \<Rightarrow> raw_snapshot \<Rightarrow> raw_snapshot \<Rightarrow> db_tag \<Rightarrow> table_diff" where
  "compare_table render samples left right t =
     merge_tables (render t) samples (table_iter left t) (table_iter right t)
       \<lparr>td_table = t, td_only_in_left = 0, td_only_in_right = 0, td_left_samples = [], td_right_samples = []\<rparr>"

definition compare_snapshots ::
  "(db_tag \<Rightarrow> raw_row \<Rightarrow> string) \<Rightarrow> raw_snapshot \<Rightarrow> raw_snapshot \<Rightarrow> nat \<Rightarrow> (string, table_diff list) result" where
  "compare_snapshots render left right samples =
     and_then (check_known_tables left) (\<lambda>_. and_then (check_known_tables right) (\<lambda>_.
       Inr (filter (\<lambda>d. td_only_in_left d + td_only_in_right d > 0)
              (map (compare_table render samples left right) DbTag_ALL))))"

subsection \<open>The merge\<close>

definition only_in :: "'a list \<Rightarrow> 'a list \<Rightarrow> 'a list" where
  "only_in xs ys = filter (\<lambda>x. x \<notin> set ys) xs"

lemma take_step: "length (take n xs) < n \<Longrightarrow> take n (xs @ ys) = take n xs @ take (n - length xs) ys"
  by simp

lemma merge_tables_spec:
  assumes "sorted_wrt (<) ls" "sorted_wrt (<) rs" "td_left_samples d = take samples as" "td_right_samples d = take samples bs"
  shows "merge_tables render samples ls rs d =
    d\<lparr>td_only_in_left := td_only_in_left d + length (only_in ls rs), td_only_in_right := td_only_in_right d + length (only_in rs ls),
      td_left_samples := take samples (as @ map render (only_in ls rs)),
      td_right_samples := take samples (bs @ map render (only_in rs ls))\<rparr>"
  using assms
proof (induction render samples ls rs d arbitrary: as bs rule: merge_tables.induct)
  case (1 render samples d)
  then show ?case by (cases d) (simp add: only_in_def)
next
  case (2 render samples l ls r rs d)
  have l: "l \<notin> set ls" "\<forall>x \<in> set ls. l < x" and r: "r \<notin> set rs" "\<forall>x \<in> set rs. r < x" using 2(4,5) by auto
  consider "l = r" | "l < r" | "r < l" by fastforce
  then show ?case
  proof cases
    case 1
    have "only_in (l # ls) (r # rs) = only_in ls rs" "only_in (r # rs) (l # ls) = only_in rs ls"
      using 1 l r by (auto simp: only_in_def intro: filter_cong)
    then show ?thesis using 1 2(1)[OF 1 _ _ 2(6,7)] 2(4,5) by simp
  next
    case 2
    note lr = this
    have "l \<notin> set (r # rs)" using lr r(2) by fastforce
    then have eqs: "only_in (l # ls) (r # rs) = l # only_in ls (r # rs)" "only_in (r # rs) (l # ls) = only_in (r # rs) ls"
      by (auto simp: only_in_def intro: filter_cong)
    let ?d = "add_left samples (render l) d"
    have "td_left_samples ?d = take samples (as @ [render l])" "td_right_samples ?d = take samples bs"
      using \<open>td_left_samples d = take samples as\<close> \<open>td_right_samples d = take samples bs\<close> by (auto simp: add_left_def)
    from "2.IH"(2)[OF _ lr _ _ this] lr "2.prems"(1,2) show ?thesis by (simp add: eqs add_left_def)
  next
    case 3
    have "r \<notin> set (l # ls)" using 3 l(2) by fastforce
    then have eqs: "only_in (l # ls) (r # rs) = only_in (l # ls) rs" "only_in (r # rs) (l # ls) = r # only_in rs (l # ls)"
      by (auto simp: only_in_def intro: filter_cong)
    let ?d = "add_right samples (render r) d"
    have "td_left_samples ?d = take samples as" "td_right_samples ?d = take samples (bs @ [render r])"
      using \<open>td_left_samples d = take samples as\<close> \<open>td_right_samples d = take samples bs\<close> by (auto simp: add_right_def)
    from "2.IH"(3)[OF _ _ _ _ this] 3 "2.prems"(1,2) show ?thesis by (simp add: eqs add_right_def)
  qed
next
  case (3 render samples l ls d)
  let ?d = "add_left samples (render l) d"
  have "td_left_samples ?d = take samples (as @ [render l])" "td_right_samples ?d = take samples bs"
    using 3(4,5) by (auto simp: add_left_def)
  from 3(1)[OF _ _ this] 3(2,3) show ?case by (simp add: only_in_def add_left_def)
next
  case (4 render samples r rs d)
  let ?d = "add_right samples (render r) d"
  have "td_left_samples ?d = take samples as" "td_right_samples ?d = take samples (bs @ [render r])"
    using 4(4,5) by (auto simp: add_right_def)
  from 4(1)[OF _ _ this] 4(2,3) show ?case by (simp add: only_in_def add_right_def)
qed

lemma only_in_sorted_list:
  assumes "finite A" "finite B"
  shows "only_in (sorted_list_of_set A) (sorted_list_of_set B) = sorted_list_of_set (A - B)"
proof (rule sorted_distinct_set_unique)
  have "sorted (sorted_list_of_set A)" "distinct (sorted_list_of_set A)" by simp_all
  then show "sorted (only_in (sorted_list_of_set A) (sorted_list_of_set B))"
    "distinct (only_in (sorted_list_of_set A) (sorted_list_of_set B))"
    by (simp_all add: only_in_def sorted_wrt_filter)
qed (use assms in \<open>auto simp: only_in_def\<close>)

definition table_differences ::
  "(db_tag \<Rightarrow> raw_row \<Rightarrow> string) \<Rightarrow> nat \<Rightarrow> raw_snapshot \<Rightarrow> raw_snapshot \<Rightarrow> db_tag \<Rightarrow> table_diff" where
  "table_differences render samples left right t =
     (let L = rs_table left t; R = rs_table right t in
      \<lparr>td_table = t, td_only_in_left = card (L - R), td_only_in_right = card (R - L),
       td_left_samples = take samples (map (render t) (sorted_list_of_set (L - R))),
       td_right_samples = take samples (map (render t) (sorted_list_of_set (R - L)))\<rparr>)"

definition finite_tables :: "raw_snapshot \<Rightarrow> bool" where
  "finite_tables s \<longleftrightarrow> finite (rs_sub_dbs s) \<and> list_all (\<lambda>t. finite (rs_table s t)) DbTag_ALL"

lemma finite_tablesD: "finite_tables s \<Longrightarrow> finite (rs_table s t)" "finite_tables s \<Longrightarrow> finite (rs_sub_dbs s)"
  using DbTag_ALL_complete(1) by (auto simp: finite_tables_def list_all_iff)

lemma compare_table_differences:
  assumes "finite_tables left" "finite_tables right"
  shows "compare_table render samples left right t = table_differences render samples left right t"
proof -
  let ?L = "rs_table left t" and ?R = "rs_table right t"
  have fin: "finite ?L" "finite ?R" using assms finite_tablesD(1) by blast+
  have card: "length (sorted_list_of_set (A - B)) = card (A - B)" if "finite A" for A B :: "raw_row set"
    using that by simp
  show ?thesis
    unfolding compare_table_def table_iter_def table_differences_def Let_def
    by (subst merge_tables_spec[where as = "[]" and bs = "[]"])
      (simp_all add: only_in_sorted_list fin card)
qed

lemma check_known_tables_ok:
  assumes "finite (rs_sub_dbs s)"
  shows "check_known_tables s = Inr () \<longleftrightarrow> rs_sub_dbs s \<subseteq> db_name ` UNIV \<union> set EXCLUDED_TABLES"
proof -
  let ?bad = "\<lambda>name. \<not> (list_ex (\<lambda>t. db_name t = name) DbTag_ALL \<or> name \<in> set EXCLUDED_TABLES)"
  have bad: "?bad name \<longleftrightarrow> name \<notin> range db_name \<union> set EXCLUDED_TABLES" for name
    using DbTag_ALL_complete(1) by (auto simp: list_ex_iff)
  have "check_known_tables s = Inr () \<longleftrightarrow> find ?bad (sorted_list_of_set (rs_sub_dbs s)) = None"
    unfolding check_known_tables_def by (cases "find ?bad (sorted_list_of_set (rs_sub_dbs s))") simp_all
  also have "\<dots> \<longleftrightarrow> \<not> (\<exists>name \<in> rs_sub_dbs s. ?bad name)" unfolding find_None_iff using assms by auto
  also have "\<dots> \<longleftrightarrow> rs_sub_dbs s \<subseteq> db_name ` UNIV \<union> set EXCLUDED_TABLES" unfolding bad by blast
  finally show ?thesis .
qed

lemma compare_snapshots_Inr:
  assumes "finite_tables left" "finite_tables right" "compare_snapshots render left right samples = Inr ds"
  shows "ds = map (table_differences render samples left right) (filter (\<lambda>t. rs_table left t \<noteq> rs_table right t) DbTag_ALL)"
proof -
  have fin: "finite (rs_table left t)" "finite (rs_table right t)" for t using assms finite_tablesD(1) by blast+
  have "ds = filter (\<lambda>d. td_only_in_left d + td_only_in_right d > 0) (map (table_differences render samples left right) DbTag_ALL)"
  proof -
    have "compare_table render samples left right = table_differences render samples left right"
      by (rule ext) (rule compare_table_differences[OF assms(1,2)])
    then show ?thesis using assms(3) by (auto simp: compare_snapshots_def and_then_Inr)
  qed
  also have "\<dots> = map (table_differences render samples left right) (filter (\<lambda>t. rs_table left t \<noteq> rs_table right t) DbTag_ALL)"
    unfolding filter_map comp_def
  proof (rule arg_cong[where f = "map _"], rule filter_cong[OF refl])
    fix t
    have "card (rs_table left t - rs_table right t) + card (rs_table right t - rs_table left t) > 0 \<longleftrightarrow> rs_table left t \<noteq> rs_table right t"
      using fin[of t] by (auto simp: card_gt_0_iff)
    then show "(td_only_in_left (table_differences render samples left right t) +
        td_only_in_right (table_differences render samples left right t) > 0) = (rs_table left t \<noteq> rs_table right t)"
      by (simp add: table_differences_def Let_def)
  qed
  finally show ?thesis .
qed

lemma dump_snapshot_Inr:
  "finite_tables s \<Longrightarrow> dump_snapshot s = Inr rows \<Longrightarrow> rows = {(t, r) | t r. r \<in> rs_table s t}"
  using DbTag_ALL_complete(1) finite_tablesD(1)[of s]
  by (auto simp: dump_snapshot_def and_then_Inr table_iter_def)

text \<open>The comparison reports the set differences: exactly the tables whose rows differ, in the order of the tables, each with
  the number of rows on one side only and the first of them in row order, at most as many as asked for.\<close>

theorem comparison_is_set_difference:
  assumes "finite_tables left" "finite_tables right" "compare_snapshots render left right samples = Inr ds"
  shows "ds = map (table_differences render samples left right) (filter (\<lambda>t. rs_table left t \<noteq> rs_table right t) DbTag_ALL)"
  using assms by (rule compare_snapshots_Inr)

text \<open>C29: The streaming comparison agrees with the comparison of all rows as sets: it finds no difference exactly when the dumps
  of the two snapshots are equal.\<close>

theorem no_difference_iff_same_dump:
  assumes "finite_tables left" "finite_tables right" "compare_snapshots render left right samples = Inr ds"
  shows "ds = [] \<longleftrightarrow> dump_snapshot left = dump_snapshot right"
proof -
  have known: "check_known_tables left = Inr ()" "check_known_tables right = Inr ()"
    using assms(3) by (auto simp: compare_snapshots_def and_then_Inr)
  obtain a b where ab: "dump_snapshot left = Inr a" "dump_snapshot right = Inr b" using known by (simp add: dump_snapshot_def)
  have "ds = [] \<longleftrightarrow> (\<forall>t. rs_table left t = rs_table right t)"
    using compare_snapshots_Inr[OF assms] DbTag_ALL_complete(1) by (auto simp: filter_empty_conv)
  also have "\<dots> \<longleftrightarrow> a = b"
    unfolding dump_snapshot_Inr[OF assms(1) ab(1)] dump_snapshot_Inr[OF assms(2) ab(2)] by blast
  finally show ?thesis by (simp add: ab)
qed

text \<open>A sub-database that is neither compared nor excluded is never passed over: the comparison fails exactly when one of the
  snapshots has one.\<close>

theorem unknown_table_is_an_error:
  assumes "finite_tables left" "finite_tables right"
  shows "is_ok (compare_snapshots render left right samples) \<longleftrightarrow>
    rs_sub_dbs left \<union> rs_sub_dbs right \<subseteq> db_name ` UNIV \<union> set EXCLUDED_TABLES"
proof -
  have "is_ok (compare_snapshots render left right samples) \<longleftrightarrow>
      check_known_tables left = Inr () \<and> check_known_tables right = Inr ()"
    by (cases "check_known_tables left"; cases "check_known_tables right") (simp_all add: compare_snapshots_def)
  then show ?thesis using check_known_tables_ok assms finite_tablesD(2) by simp
qed

text \<open>Two snapshots whose tables of nodes differ in a row.\<close>

definition cmp_snapshot :: "raw_row set \<Rightarrow> raw_snapshot" where
  "cmp_snapshot nodes = \<lparr>rs_sub_dbs = set (map fst created_tables), rs_table = (\<lambda>t. if t = NodesById then nodes else {})\<rparr>"

lemma cmp_snapshot_ok: "finite nodes \<Longrightarrow> finite_tables (cmp_snapshot nodes)" "check_known_tables (cmp_snapshot nodes) = Inr ()"
proof -
  show f: "finite nodes \<Longrightarrow> finite_tables (cmp_snapshot nodes)" by (simp add: finite_tables_def cmp_snapshot_def list_all_iff)
  have "fst x \<in> range db_name \<union> set EXCLUDED_TABLES" if "x \<in> set created_tables" for x
    using that unfolding created_tables_def EXCLUDED_TABLES_def
    by (simp add: image_iff) (elim disjE; simp; metis db_name.simps)
  then show "check_known_tables (cmp_snapshot nodes) = Inr ()"
    by (subst check_known_tables_ok) (auto simp: cmp_snapshot_def)
qed

abbreviation cmp_render :: "db_tag \<Rightarrow> raw_row \<Rightarrow> string" where
  "cmp_render \<equiv> (\<lambda>t r. db_name t)"

theorem comparison_is_set_difference_witness:
  "compare_snapshots cmp_render (cmp_snapshot {([1], [2]), ([3], [4])}) (cmp_snapshot {([1], [2])}) 5 =
     Inr [\<lparr>td_table = NodesById, td_only_in_left = 1, td_only_in_right = 0, td_left_samples = [''nodes_by_id''], td_right_samples = []\<rparr>]"
proof -
  let ?L = "cmp_snapshot {([1], [2]), ([3], [4])}" and ?R = "cmp_snapshot {([1], [2])}"
  have fin: "finite_tables ?L" "finite_tables ?R" by (simp_all add: cmp_snapshot_ok)
  obtain ds where ds: "compare_snapshots cmp_render ?L ?R 5 = Inr ds"
    by (simp add: compare_snapshots_def cmp_snapshot_ok)
  have "{([1], [2]), ([3], [4])} - {([1], [2])} = {([3 :: 8 word], [4 :: 8 word])}" by auto
  then have "ds = [\<lparr>td_table = NodesById, td_only_in_left = 1, td_only_in_right = 0, td_left_samples = [''nodes_by_id''], td_right_samples = []\<rparr>]"
    using comparison_is_set_difference[OF fin ds] by (simp add: DbTag_ALL_def cmp_snapshot_def table_differences_def)
  then show ?thesis using ds by simp
qed

theorem no_difference_iff_same_dump_witness:
  "dump_snapshot (cmp_snapshot {([1], [2])}) \<noteq> dump_snapshot (cmp_snapshot {([1], [3])})"
proof -
  let ?L = "cmp_snapshot {([1], [2])}" and ?R = "cmp_snapshot {([1], [3])}"
  have fin: "finite_tables ?L" "finite_tables ?R" by (simp_all add: cmp_snapshot_ok)
  obtain ds where ds: "compare_snapshots cmp_render ?L ?R 5 = Inr ds"
    by (simp add: compare_snapshots_def cmp_snapshot_ok)
  have "ds \<noteq> []" using compare_snapshots_Inr[OF fin ds] by (simp add: DbTag_ALL_def cmp_snapshot_def)
  then show ?thesis using no_difference_iff_same_dump[OF fin ds] by simp
qed

theorem unknown_table_is_an_error_witness:
  "\<not> is_ok (compare_snapshots cmp_render \<lparr>rs_sub_dbs = {''new_table''}, rs_table = (\<lambda>_. {})\<rparr> (cmp_snapshot {}) 5)"
proof -
  let ?L = "\<lparr>rs_sub_dbs = {''new_table''}, rs_table = (\<lambda>_. {})\<rparr>"
  have "finite_tables ?L" "finite_tables (cmp_snapshot {})" by (simp_all add: cmp_snapshot_ok) (simp add: finite_tables_def list_all_iff)
  moreover have "''new_table'' \<notin> range db_name \<union> set EXCLUDED_TABLES"
  proof -
    have "db_name t \<noteq> ''new_table''" for t by (cases t) simp_all
    then show ?thesis by (auto simp: EXCLUDED_TABLES_def) metis
  qed
  ultimately show ?thesis using unknown_table_is_an_error[of ?L "cmp_snapshot {}" cmp_render 5] by simp
qed

end
