(* ===== verification/Recursion_Check.thy ===== *)
theory Recursion_Check
  imports Graph_Model
begin

text \<open>
  Recursion in the call graph (rmc-graph: graph/recursion_check.rs): the bounded depth-first search for simple cycles, their
  canonical rotation, and the report. It finds exactly the simple cycles of bounded length, each once up to rotation.

  A read transaction is a snapshot's tables. A \<open>HashMap\<close> that is only looked up is a function or a map; the order of the
  report does not depend on any of them.
\<close>

subsection \<open>The search\<close>

definition HARD_CAP_CYCLE_LENGTH :: nat where
  "HARD_CAP_CYCLE_LENGTH = 12"

definition DEFAULT_CYCLE_LENGTH :: nat where
  "DEFAULT_CYCLE_LENGTH = 5"

definition clamp_cycle_length :: "nat option \<Rightarrow> nat" where
  "clamp_cycle_length requested =
     max 1 (min HARD_CAP_CYCLE_LENGTH (case requested of None \<Rightarrow> DEFAULT_CYCLE_LENGTH | Some n \<Rightarrow> n))"

text \<open>The loop of \<open>dfs\<close> over the edges that are left at the end of the path; a call on a longer path is the loop over the
  edges of its last node.\<close>

function dfs :: "(node_id \<Rightarrow> node_id list) \<Rightarrow> node_id \<Rightarrow> nat \<Rightarrow> node_id list \<Rightarrow> node_id set \<Rightarrow> node_id list \<Rightarrow> node_id list list" where
  "dfs outgoing start max_depth path on_path [] = []"
| "dfs outgoing start max_depth path on_path (next # rest) =
     (if next = start then path # dfs outgoing start max_depth path on_path rest
      else if next \<in> on_path then dfs outgoing start max_depth path on_path rest
      else if length path \<ge> max_depth then dfs outgoing start max_depth path on_path rest
      else (if length (path @ [next]) > max_depth then []
            else dfs outgoing start max_depth (path @ [next]) (insert next on_path) (outgoing (last (path @ [next])))) @
           dfs outgoing start max_depth path on_path rest)"
  by pat_completeness auto
termination
  by (relation "measures [\<lambda>(outgoing, start, max_depth, path, on_path, rest). max_depth - length path,
    \<lambda>(outgoing, start, max_depth, path, on_path, rest). length rest]") auto

definition find_cycles_from :: "node_id \<Rightarrow> nat \<Rightarrow> (node_id \<Rightarrow> node_id list) \<Rightarrow> node_id list list" where
  "find_cycles_from start max_depth outgoing =
     (if max_depth = 0 then []
      else if length [start] > max_depth then []
      else dfs outgoing start max_depth [start] {start} (outgoing (last [start])))"

text \<open>The index of the smallest identifier: the loop from \<open>i\<close> on, over the rest of the cycle.\<close>

fun min_index :: "node_id list \<Rightarrow> nat \<Rightarrow> nat \<Rightarrow> node_id list \<Rightarrow> nat" where
  "min_index cycle m i [] = m"
| "min_index cycle m i (k # ks) = min_index cycle (if k < cycle ! m then i else m) (Suc i) ks"

definition canonicalize_cycle :: "node_id list \<Rightarrow> node_id list" where
  "canonicalize_cycle cycle =
     (if length cycle \<le> 1 then cycle else rotate (min_index cycle 0 1 (drop 1 cycle)) cycle)"

subsection \<open>The report\<close>

record recursion_opts =
  ro_crate_id_filter :: "node_id option"
  ro_max_cycle_length :: nat

record recursion_cycle =
  rc_fns :: "node_id list"
  rc_cycle_length :: nat
  rc_direct_recursion :: bool

text \<open>The value of a key in a table with one row for each key.\<close>

definition get_row :: "db_tag \<Rightarrow> node_id \<Rightarrow> graph_rows \<Rightarrow> row_value option" where
  "get_row t k d = (let vs = values_at t k d in if vs = {} then None else Some (the_elem vs))"

fun node_of :: "row_value \<Rightarrow> graph_node option" where
  "node_of (NodeV n) = Some n"
| "node_of _ = None"

fun usage_of :: "row_value \<Rightarrow> graph_usage option" where
  "usage_of (UsageV u) = Some u"
| "usage_of _ = None"

fun dup_id :: "row_value \<Rightarrow> node_id option" where
  "dup_id (IdV i) = Some i"
| "dup_id _ = None"

definition get_node :: "graph_rows \<Rightarrow> node_id \<Rightarrow> graph_node option" where
  "get_node d i = Option.bind (get_row NodesById i d) node_of"

definition get_usage :: "graph_rows \<Rightarrow> node_id \<Rightarrow> graph_usage option" where
  "get_usage d i = Option.bind (get_row UsagesById i d) usage_of"

definition get_duplicates :: "db_tag \<Rightarrow> node_id \<Rightarrow> graph_rows \<Rightarrow> node_id list" where
  "get_duplicates t k d = sorted_list_of_set (the ` (dup_id ` values_at t k d - {None}))"

definition function_ids :: "graph_rows \<Rightarrow> node_id list" where
  "function_ids d = filter (\<lambda>i. get_node d i \<noteq> None) (sorted_list_of_set (fst ` d SignaturesByTarget))"

definition scoped :: "graph_rows \<Rightarrow> recursion_opts \<Rightarrow> node_id \<Rightarrow> bool" where
  "scoped d opts i =
     (i \<in> set (function_ids d) \<and>
      (case get_node d i of None \<Rightarrow> False
       | Some n \<Rightarrow> (case ro_crate_id_filter opts of None \<Rightarrow> True | Some c \<Rightarrow> nd_crate_id n = Some c)))"

definition push_callee :: "graph_rows \<Rightarrow> node_id \<Rightarrow> node_id list \<Rightarrow> node_id list" where
  "push_callee d uid callees =
     (case get_usage d uid of
        None \<Rightarrow> callees
      | Some u \<Rightarrow> if is_call (us_relation u) \<and> us_target u \<notin> set callees then callees @ [us_target u] else callees)"

definition callees_of :: "graph_rows \<Rightarrow> node_id \<Rightarrow> node_id list" where
  "callees_of d caller = fold (push_callee d) (get_duplicates UsagesByConsumerFunction caller d) []"

definition adjacency :: "graph_rows \<Rightarrow> node_id \<Rightarrow> node_id list" where
  "adjacency d i = (if i \<in> set (function_ids d) then callees_of d i else [])"

definition push_cycle :: "node_id list \<Rightarrow> node_id list list \<Rightarrow> node_id list list" where
  "push_cycle cycle found = (let c = canonicalize_cycle cycle in if c \<in> set found then found else found @ [c])"

definition canonical_cycles :: "graph_rows \<Rightarrow> nat \<Rightarrow> node_id list list" where
  "canonical_cycles d max_depth =
     fold (\<lambda>start found. fold push_cycle (find_cycles_from start max_depth (adjacency d)) found) (function_ids d) []"

definition first_name :: "graph_rows \<Rightarrow> node_id list \<Rightarrow> string" where
  "first_name d c =
     (case c of [] \<Rightarrow> [] | i # _ \<Rightarrow>
        if i \<in> set (function_ids d) then (case get_node d i of None \<Rightarrow> [] | Some n \<Rightarrow> nd_qualified_name n) else [])"

definition recursion_check :: "graph_rows \<Rightarrow> recursion_opts \<Rightarrow> recursion_cycle list" where
  "recursion_check d opts =
     sort_key (\<lambda>r. (rc_cycle_length r, first_name d (rc_fns r)))
       (map (\<lambda>c. \<lparr>rc_fns = c, rc_cycle_length = length c, rc_direct_recursion = (length c = 1)\<rparr>)
         (filter (\<lambda>c. ro_crate_id_filter opts = None \<or> list_ex (scoped d opts) c)
           (canonical_cycles d (ro_max_cycle_length opts))))"

definition enclosing_fn_qualified_names :: "graph_rows \<Rightarrow> node_id list \<Rightarrow> string list" where
  "enclosing_fn_qualified_names d cycle =
     map (\<lambda>i. case get_node d i of None \<Rightarrow> [] | Some n \<Rightarrow> nd_qualified_name n) cycle"

subsection \<open>The search finds the simple cycles\<close>

fun walks :: "(node_id \<Rightarrow> node_id list) \<Rightarrow> node_id \<Rightarrow> node_id list \<Rightarrow> bool" where
  "walks outgoing i [] = True"
| "walks outgoing i (j # js) = (j \<in> set (outgoing i) \<and> walks outgoing j js)"

text \<open>A simple cycle: a walk along the edges, without repetition, whose last node has an edge to its first.\<close>

fun simple_cycle :: "(node_id \<Rightarrow> node_id list) \<Rightarrow> node_id list \<Rightarrow> bool" where
  "simple_cycle outgoing [] = False"
| "simple_cycle outgoing (i # js) = (distinct (i # js) \<and> walks outgoing i js \<and> i \<in> set (outgoing (last (i # js))))"

definition extends :: "(node_id \<Rightarrow> node_id list) \<Rightarrow> node_id \<Rightarrow> nat \<Rightarrow> node_id list \<Rightarrow> node_id list \<Rightarrow> node_id \<Rightarrow> bool" where
  "extends outgoing start max_depth path c n \<longleftrightarrow>
     (\<exists>js. c = path @ n # js \<and> walks outgoing n js \<and> distinct c \<and> length c \<le> max_depth \<and> start \<in> set (outgoing (last (n # js))))"

lemma extends_deeper:
  assumes "distinct (path @ [n])" "length (path @ [n]) \<le> max_depth"
  shows "c = path @ [n] \<and> start \<in> set (outgoing n) \<or> (\<exists>m \<in> set (outgoing n). extends outgoing start max_depth (path @ [n]) c m)
    \<longleftrightarrow> extends outgoing start max_depth path c n"
proof
  assume "c = path @ [n] \<and> start \<in> set (outgoing n) \<or> (\<exists>m \<in> set (outgoing n). extends outgoing start max_depth (path @ [n]) c m)"
  then consider "c = path @ [n]" "start \<in> set (outgoing n)" | m where "m \<in> set (outgoing n)" "extends outgoing start max_depth (path @ [n]) c m"
    by blast
  then show "extends outgoing start max_depth path c n"
  proof cases
    case 1
    then show ?thesis using assms unfolding extends_def by (intro exI[of _ "[]"]) simp
  next
    case 2
    then obtain js where "c = (path @ [n]) @ m # js" "walks outgoing m js" "distinct c" "length c \<le> max_depth"
      "start \<in> set (outgoing (last (m # js)))" unfolding extends_def by blast
    then show ?thesis using 2(1) unfolding extends_def by (intro exI[of _ "m # js"]) simp
  qed
next
  assume "extends outgoing start max_depth path c n"
  then obtain js where js: "c = path @ n # js" "walks outgoing n js" "distinct c" "length c \<le> max_depth"
    "start \<in> set (outgoing (last (n # js)))" unfolding extends_def by blast
  show "c = path @ [n] \<and> start \<in> set (outgoing n) \<or> (\<exists>m \<in> set (outgoing n). extends outgoing start max_depth (path @ [n]) c m)"
  proof (cases js)
    case Nil
    then show ?thesis using js by simp
  next
    case (Cons m ks)
    then have "m \<in> set (outgoing n) \<and> extends outgoing start max_depth (path @ [n]) c m"
      using js unfolding extends_def by simp
    then show ?thesis by blast
  qed
qed

lemma dfs_finds:
  assumes "path \<noteq> []" "distinct path" "start \<in> set path" "on_path = set path" "length path \<le> max_depth"
  shows "c \<in> set (dfs outgoing start max_depth path on_path ns) \<longleftrightarrow>
    c = path \<and> start \<in> set ns \<or> (\<exists>n \<in> set ns. extends outgoing start max_depth path c n)"
  using assms
proof (induction outgoing start max_depth path on_path ns rule: dfs.induct)
  case (2 outgoing start max_depth path on_path n ns)
  note step = 2(6-)
  let ?ext = "extends outgoing start max_depth path c"
  consider "n = start" | "n \<noteq> start" "n \<in> on_path" | "n \<noteq> start" "n \<notin> on_path" "length path \<ge> max_depth"
    | "n \<noteq> start" "n \<notin> on_path" "\<not> length path \<ge> max_depth" by blast
  then show ?case
  proof cases
    case 1
    have "\<not> ?ext n" using 1 step(3) unfolding extends_def by auto
    then show ?thesis using "2.IH"(1)[OF 1 step] 1 by auto
  next
    case 2
    have "\<not> ?ext n" using 2 step(4) unfolding extends_def by auto
    then show ?thesis using "2.IH"(2)[OF 2 step] 2 by auto
  next
    case 3
    have "\<not> ?ext n" using 3 step(5) unfolding extends_def by auto
    then show ?thesis using "2.IH"(3)[OF 3 step] 3 by auto
  next
    case 4
    then have len: "\<not> length (path @ [n]) > max_depth" by simp
    have p: "path @ [n] \<noteq> []" "distinct (path @ [n])" "start \<in> set (path @ [n])" "insert n on_path = set (path @ [n])"
      "length (path @ [n]) \<le> max_depth" using 4 step by auto
    have "c \<in> set (dfs outgoing start max_depth (path @ [n]) (insert n on_path) (outgoing (last (path @ [n])))) \<longleftrightarrow> ?ext n"
      using "2.IH"(4)[OF 4 len p] extends_deeper[OF p(2,5), of c start outgoing] by simp
    then show ?thesis using "2.IH"(5)[OF 4 step] 4 len by auto
  qed
qed simp

lemma find_cycles_iff:
  "c \<in> set (find_cycles_from start max_depth outgoing) \<longleftrightarrow>
     simple_cycle outgoing c \<and> hd c = start \<and> length c \<le> max_depth"
proof (cases "max_depth = 0")
  case True
  then show ?thesis by (cases c) (auto simp: find_cycles_from_def)
next
  case False
  then have "c \<in> set (find_cycles_from start max_depth outgoing) \<longleftrightarrow>
    c = [start] \<and> start \<in> set (outgoing start) \<or> (\<exists>n \<in> set (outgoing start). extends outgoing start max_depth [start] c n)"
    unfolding find_cycles_from_def by (simp add: dfs_finds)
  also have "\<dots> \<longleftrightarrow> simple_cycle outgoing c \<and> hd c = start \<and> length c \<le> max_depth"
    using False by (cases c; cases "tl c") (auto simp: extends_def)
  finally show ?thesis .
qed

subsection \<open>Canonical rotations\<close>

lemma min_index_spec:
  "m < i \<Longrightarrow> i + length ks = length c \<Longrightarrow> ks = drop i c \<Longrightarrow> \<forall>j<i. c ! m \<le> c ! j \<Longrightarrow>
     min_index c m i ks < length c \<and> (\<forall>j<length c. c ! min_index c m i ks \<le> c ! j)"
proof (induction c m i ks rule: min_index.induct)
  case (2 c m i k ks)
  have k: "k = c ! i" "ks = drop (Suc i) c" using 2(3,4) by (metis Cons_nth_drop_Suc drop_eq_Nil list.distinct(1) list.inject not_less)+
  let ?m = "if k < c ! m then i else m"
  have "\<forall>j<Suc i. c ! ?m \<le> c ! j"
    using 2(5) by (auto simp: k(1) less_Suc_eq intro: order.trans less_imp_le)
  then show ?case using 2(1)[of] 2(2,3) k(2) by (simp split: if_splits)
qed auto

lemma canonicalize_cycle_rotates:
  assumes "c \<noteq> []"
  obtains n where "canonicalize_cycle c = rotate n c" "hd (canonicalize_cycle c) = Min (set c)"
proof (cases "length c \<le> 1")
  case True
  then obtain i where "c = [i]" using assms by (cases c) auto
  then show ?thesis using that[of 0] by (simp add: canonicalize_cycle_def)
next
  case False
  let ?m = "min_index c 0 1 (drop 1 c)"
  have m: "?m < length c" "\<forall>j<length c. c ! ?m \<le> c ! j" using min_index_spec[of 0 1 "drop 1 c" c] False by auto
  have "hd (rotate ?m c) = c ! ?m" using assms m(1) by (simp add: hd_rotate_conv_nth)
  moreover have "Min (set c) = c ! ?m" using m by (intro Min_eqI) (auto simp: in_set_conv_nth)
  ultimately show ?thesis using that[of ?m] False by (simp add: canonicalize_cycle_def)
qed

lemma rotate_same_head:
  assumes "distinct c" "hd (rotate m c) = hd (rotate n c)"
  shows "rotate m c = rotate n c"
proof (cases "c = []")
  case False
  then have "c ! (m mod length c) = c ! (n mod length c)" using assms(2) by (simp add: hd_rotate_conv_nth)
  then have "m mod length c = n mod length c" using assms(1) False by (simp add: nth_eq_iff_index_eq)
  then show ?thesis by (metis rotate_conv_mod)
qed simp

lemma walks_append: "walks outgoing i (js @ [k]) \<longleftrightarrow> walks outgoing i js \<and> k \<in> set (outgoing (last (i # js)))"
  by (induction outgoing i js rule: walks.induct) auto

lemma simple_cycle_rotate1: "simple_cycle outgoing c \<Longrightarrow> simple_cycle outgoing (rotate1 c)"
proof (cases c)
  case (Cons i js)
  assume s: "simple_cycle outgoing c"
  show ?thesis
  proof (cases js)
    case (Cons j ks)
    then show ?thesis using s \<open>c = i # js\<close> by (auto simp: walks_append)
  qed (use s Cons in simp)
qed simp

lemma simple_cycle_rotate: "simple_cycle outgoing c \<Longrightarrow> simple_cycle outgoing (rotate n c)"
  by (induction n) (simp_all add: simple_cycle_rotate1)

lemma simple_cycleD: "simple_cycle outgoing c \<Longrightarrow> c \<noteq> [] \<and> distinct c"
  by (cases c) auto

lemma canonicalize_cycle_spec:
  assumes "simple_cycle outgoing c"
  shows "simple_cycle outgoing (canonicalize_cycle c)" "length (canonicalize_cycle c) = length c"
    "hd (canonicalize_cycle c) = Min (set (canonicalize_cycle c))" "set (canonicalize_cycle c) = set c"
    "\<exists>n. canonicalize_cycle c = rotate n c"
proof -
  have "c \<noteq> []" using simple_cycleD[OF assms] by simp
  then obtain n where n: "canonicalize_cycle c = rotate n c" "hd (canonicalize_cycle c) = Min (set c)"
    by (rule canonicalize_cycle_rotates)
  show "simple_cycle outgoing (canonicalize_cycle c)" unfolding n(1) by (rule simple_cycle_rotate[OF assms])
  show "hd (canonicalize_cycle c) = Min (set (canonicalize_cycle c))" using n by simp
  show "length (canonicalize_cycle c) = length c" "set (canonicalize_cycle c) = set c" by (simp_all add: n(1))
  show "\<exists>n. canonicalize_cycle c = rotate n c" using n(1) by blast
qed

lemma canonicalize_cycle_id:
  assumes "simple_cycle outgoing c" "hd c = Min (set c)"
  shows "canonicalize_cycle c = c"
proof -
  have "c \<noteq> []" using simple_cycleD[OF assms(1)] by simp
  then obtain n where n: "canonicalize_cycle c = rotate n c" "hd (canonicalize_cycle c) = Min (set c)"
    by (rule canonicalize_cycle_rotates)
  then have "hd (rotate n c) = hd (rotate 0 c)" using assms(2) by simp
  then have "rotate n c = rotate 0 c" by (rule rotate_same_head[rotated]) (use simple_cycleD[OF assms(1)] in simp)
  then show ?thesis using n(1) by simp
qed

subsection \<open>The report\<close>

lemma push_cycles:
  "set (fold push_cycle cs found) = set found \<union> canonicalize_cycle ` set cs \<and> (distinct found \<longrightarrow> distinct (fold push_cycle cs found))"
  by (induction cs arbitrary: found) (auto simp: push_cycle_def Let_def)

lemma canonical_cycles_of:
  "set (fold (\<lambda>start found. fold push_cycle (find_cycles_from start n outgoing) found) starts found) =
     set found \<union> canonicalize_cycle ` {c. simple_cycle outgoing c \<and> hd c \<in> set starts \<and> length c \<le> n} \<and>
   (distinct found \<longrightarrow> distinct (fold (\<lambda>start found. fold push_cycle (find_cycles_from start n outgoing) found) starts found))"
proof (induction starts arbitrary: found)
  case (Cons start starts)
  let ?found = "fold push_cycle (find_cycles_from start n outgoing) found"
  have "set (find_cycles_from start n outgoing) = {c. simple_cycle outgoing c \<and> hd c = start \<and> length c \<le> n}"
    using find_cycles_iff by blast
  then have "set ?found = set found \<union> canonicalize_cycle ` {c. simple_cycle outgoing c \<and> hd c = start \<and> length c \<le> n}"
    "distinct found \<longrightarrow> distinct ?found" using push_cycles[of "find_cycles_from start n outgoing" found] by simp_all
  moreover have "{c. simple_cycle outgoing c \<and> hd c \<in> set (start # starts) \<and> length c \<le> n} =
      {c. simple_cycle outgoing c \<and> hd c = start \<and> length c \<le> n} \<union> {c. simple_cycle outgoing c \<and> hd c \<in> set starts \<and> length c \<le> n}"
    by auto
  ultimately show ?case using Cons[of ?found] by (simp add: image_Un Un_assoc)
qed simp

lemma simple_cycle_starts: "simple_cycle (adjacency d) c \<Longrightarrow> hd c \<in> set (function_ids d)"
  by (cases c; cases "tl c") (auto simp: adjacency_def split: if_splits)

lemma set_canonical_cycles:
  "set (canonical_cycles d n) = {c. simple_cycle (adjacency d) c \<and> length c \<le> n \<and> hd c = Min (set c)}"
  "distinct (canonical_cycles d n)"
proof -
  have *: "set (canonical_cycles d n) =
      canonicalize_cycle ` {c. simple_cycle (adjacency d) c \<and> hd c \<in> set (function_ids d) \<and> length c \<le> n}"
    "distinct (canonical_cycles d n)"
    using canonical_cycles_of[of n "adjacency d" "function_ids d" "[]"] by (simp_all add: canonical_cycles_def)
  show "distinct (canonical_cycles d n)" by (rule *(2))
  show "set (canonical_cycles d n) = {c. simple_cycle (adjacency d) c \<and> length c \<le> n \<and> hd c = Min (set c)}" (is "_ = ?R")
  proof
    show "set (canonical_cycles d n) \<subseteq> ?R"
      unfolding *(1) using canonicalize_cycle_spec by fastforce
    show "?R \<subseteq> set (canonical_cycles d n)"
      unfolding *(1) using canonicalize_cycle_id simple_cycle_starts by (force simp: image_iff)
  qed
qed

lemma set_callees_of:
  "set (callees_of d caller) =
     {us_target u | u uid. uid \<in> set (get_duplicates UsagesByConsumerFunction caller d) \<and> get_usage d uid = Some u \<and> is_call (us_relation u)}"
proof -
  have "set (fold (push_callee d) uids cs) =
      set cs \<union> {us_target u | u uid. uid \<in> set uids \<and> get_usage d uid = Some u \<and> is_call (us_relation u)}" for uids cs
    by (induction uids arbitrary: cs) (auto simp: push_callee_def split: option.split)
  then show ?thesis by (simp add: callees_of_def)
qed

definition in_scope :: "graph_rows \<Rightarrow> recursion_opts \<Rightarrow> node_id list \<Rightarrow> bool" where
  "in_scope d opts c \<longleftrightarrow> ro_crate_id_filter opts = None \<or> list_ex (scoped d opts) c"

lemma recursion_check_fns:
  "mset (map rc_fns (recursion_check d opts)) = mset (filter (in_scope d opts) (canonical_cycles d (ro_max_cycle_length opts)))"
proof -
  have "mset (map rc_fns (sort_key k rs)) = mset (map rc_fns rs)" for k :: "recursion_cycle \<Rightarrow> nat \<times> string" and rs by simp
  then show ?thesis unfolding recursion_check_def in_scope_def by (simp add: image_mset.compositionality comp_def)
qed

text \<open>C24: The report is exact: its cycles are the simple cycles of the call graph, up to the length asked for and touching the crate
  asked for, each written once, from its smallest function on; and it is sorted by length and by the name of the first function.\<close>

theorem recursion_report_is_exact:
  "distinct (map rc_fns (recursion_check d opts)) \<and>
   set (map rc_fns (recursion_check d opts)) =
     {c. simple_cycle (adjacency d) c \<and> length c \<le> ro_max_cycle_length opts \<and> hd c = Min (set c) \<and> in_scope d opts c} \<and>
   sorted (map (\<lambda>r. (rc_cycle_length r, first_name d (rc_fns r))) (recursion_check d opts))"
proof (intro conjI)
  let ?cs = "filter (in_scope d opts) (canonical_cycles d (ro_max_cycle_length opts))"
  have m: "mset (map rc_fns (recursion_check d opts)) = mset ?cs" by (rule recursion_check_fns)
  show "distinct (map rc_fns (recursion_check d opts))"
    using mset_eq_imp_distinct_iff[OF m] set_canonical_cycles(2) by simp
  show "set (map rc_fns (recursion_check d opts)) =
     {c. simple_cycle (adjacency d) c \<and> length c \<le> ro_max_cycle_length opts \<and> hd c = Min (set c) \<and> in_scope d opts c}"
    unfolding mset_eq_setD[OF m] by (auto simp: set_canonical_cycles)
  show "sorted (map (\<lambda>r. (rc_cycle_length r, first_name d (rc_fns r))) (recursion_check d opts))"
    unfolding recursion_check_def by (rule sorted_sort_key)
qed

text \<open>No recursion within the bound is missed, and none is reported twice: every simple cycle of the call graph, from whichever
  function it is entered, is in the report of the whole workspace under exactly one of its rotations.\<close>

theorem every_recursion_is_reported_once:
  assumes "simple_cycle (adjacency d) c" "length c \<le> ro_max_cycle_length opts" "ro_crate_id_filter opts = None"
  shows "\<exists>!r. r \<in> set (map rc_fns (recursion_check d opts)) \<and> (\<exists>n. r = rotate n c)"
proof
  have set_r: "set (map rc_fns (recursion_check d opts)) =
      {c. simple_cycle (adjacency d) c \<and> length c \<le> ro_max_cycle_length opts \<and> hd c = Min (set c)}"
    unfolding mset_eq_setD[OF recursion_check_fns] by (auto simp: set_canonical_cycles in_scope_def assms(3))
  show "canonicalize_cycle c \<in> set (map rc_fns (recursion_check d opts)) \<and> (\<exists>n. canonicalize_cycle c = rotate n c)"
    unfolding set_r using canonicalize_cycle_spec[OF assms(1)] assms(2) by simp
  fix r assume r: "r \<in> set (map rc_fns (recursion_check d opts)) \<and> (\<exists>n. r = rotate n c)"
  then obtain n where n: "r = rotate n c" by blast
  obtain m where m: "canonicalize_cycle c = rotate m c" using canonicalize_cycle_spec(5)[OF assms(1)] by blast
  have "hd r = Min (set c)" using r n unfolding set_r by simp
  then have "hd (rotate n c) = hd (rotate m c)"
    using n m canonicalize_cycle_spec(3,4)[OF assms(1)] by simp
  then show "r = canonicalize_cycle c"
    unfolding n m by (rule rotate_same_head[rotated]) (use simple_cycleD[OF assms(1)] in simp)
qed

text \<open>Two functions that call each other.\<close>

definition rec_node :: "node_id \<Rightarrow> string \<Rightarrow> graph_node" where
  "rec_node i name = \<lparr>nd_id = i, nd_kind = KindItem, nd_display_name = name, nd_qualified_name = name, nd_crate_id = Some 9,
     nd_parent_id = None, nd_item_kind = Some ItemFunction, nd_file = None, nd_span = None, nd_visibility = None,
     nd_attributes = [], nd_crate_target_kind = None, nd_declaration_module = None\<rparr>"

definition rec_signature :: function_signature where
  "rec_signature = \<lparr>fs_is_async = False, fs_self_param = None, fs_params = [], fs_return_type = [], fs_generics = []\<rparr>"

definition rec_usage :: "node_id \<Rightarrow> node_id \<Rightarrow> graph_usage" where
  "rec_usage caller callee = \<lparr>us_target = callee, us_consumer_module = 9, us_file = ''x'', us_start = 0, us_end = 1,
     us_category = UsageOther, us_consumer_function = Some caller, us_consumer_item = Some caller, us_relation = RelCall,
     us_expansion = None\<rparr>"

fun rec_rows :: graph_rows where
  "rec_rows NodesById = set [(1, NodeV (rec_node 1 ''f'')), (2, NodeV (rec_node 2 ''g''))]"
| "rec_rows SignaturesByTarget = set [(1, SignatureV rec_signature), (2, SignatureV rec_signature)]"
| "rec_rows UsagesById = set [(11, UsageV (rec_usage 1 2)), (12, UsageV (rec_usage 2 1))]"
| "rec_rows UsagesByConsumerFunction = set [(1, IdV 11), (2, IdV 12)]"
| "rec_rows _ = {}"

lemma rec_adjacency: "adjacency rec_rows 1 = [2]" "adjacency rec_rows 2 = [1]"
  by code_simp+

theorem every_recursion_is_reported_once_witness:
  "\<exists>!r. r \<in> set (map rc_fns (recursion_check rec_rows \<lparr>ro_crate_id_filter = None, ro_max_cycle_length = 5\<rparr>)) \<and>
     (\<exists>n. r = rotate n [2, 1])"
  by (rule every_recursion_is_reported_once) (simp_all add: rec_adjacency)

end
