(* ===== verification/Lock_Protocol.thy ===== *)
theory Lock_Protocol
  imports Prelude
begin

text \<open>
  Tasks that take fair read/write locks in a fixed order: the step relation of a set of tasks with tokio's first-come
  first-served queues, and what follows for every discipline that is kept by the tasks' programs: the locks exclude each
  other, somebody can always go on, and every run ends with every task done.

  \<open>Workspace_Locks\<close> interprets the locale on the guards of the daemon.
\<close>

subsection \<open>Tasks and locks\<close>

datatype mode = Shared | Exclusive

datatype ('l, 'w) action = Acquire 'l mode | Release 'l | Work 'w

text \<open>Who holds a lock, who waits for it (a reader that arrives behind a waiting writer waits too), what is left to do.\<close>

record ('l, 'w) lock_state =
  ls_held :: "'l \<Rightarrow> (nat \<times> mode) set"
  ls_queue :: "'l \<Rightarrow> (nat \<times> mode) list"
  ls_prog :: "nat \<Rightarrow> ('l, 'w) action list"

definition compatible :: "mode \<Rightarrow> (nat \<times> mode) set \<Rightarrow> bool" where
  "compatible m held \<longleftrightarrow> (case m of Shared \<Rightarrow> held \<subseteq> UNIV \<times> {Shared} | Exclusive \<Rightarrow> held = {})"

definition waiting :: "('l, 'w) lock_state \<Rightarrow> nat \<Rightarrow> bool" where
  "waiting s t \<longleftrightarrow> (\<exists>l m. (t, m) \<in> set (ls_queue s l))"

inductive lock_step :: "('l, 'w) lock_state \<Rightarrow> ('l, 'w) lock_state \<Rightarrow> bool" where
  enqueue: "ls_prog s t = Acquire l m # rest \<Longrightarrow> \<not> waiting s t \<Longrightarrow>
    lock_step s (s\<lparr>ls_queue := (ls_queue s)(l := ls_queue s l @ [(t, m)])\<rparr>)"
| grant: "ls_queue s l = (t, m) # q \<Longrightarrow> compatible m (ls_held s l) \<Longrightarrow> ls_prog s t = Acquire l m # rest \<Longrightarrow>
    lock_step s (s\<lparr>ls_queue := (ls_queue s)(l := q), ls_held := (ls_held s)(l := insert (t, m) (ls_held s l)),
                   ls_prog := (ls_prog s)(t := rest)\<rparr>)"
| release: "ls_prog s t = Release l # rest \<Longrightarrow>
    lock_step s (s\<lparr>ls_held := (ls_held s)(l := ls_held s l - {t} \<times> UNIV), ls_prog := (ls_prog s)(t := rest)\<rparr>)"
| work: "ls_prog s t = Work w # rest \<Longrightarrow> lock_step s (s\<lparr>ls_prog := (ls_prog s)(t := rest)\<rparr>)"

inductive_cases lock_stepE: "lock_step s s'"

definition lock_start :: "('l, 'w) action list list \<Rightarrow> ('l, 'w) lock_state" where
  "lock_start progs = \<lparr>ls_held = (\<lambda>_. {}), ls_queue = (\<lambda>_. []), ls_prog = (\<lambda>t. if t < length progs then progs ! t else [])\<rparr>"

definition held_by :: "('l, 'w) lock_state \<Rightarrow> nat \<Rightarrow> ('l \<times> mode) set" where
  "held_by s t = {(l, m). (t, m) \<in> ls_held s l}"

subsection \<open>Disciplines\<close>

text \<open>A program keeps a discipline: locks are taken in increasing rank, what is held is what the work at hand needs, and
  nothing is held at the end.\<close>

fun keeps :: "('l \<Rightarrow> nat) \<Rightarrow> ('w \<Rightarrow> ('l \<times> mode) set) \<Rightarrow> ('l \<times> mode) set \<Rightarrow> ('l, 'w) action list \<Rightarrow> bool" where
  "keeps rank needs H [] \<longleftrightarrow> H = {}"
| "keeps rank needs H (Acquire l m # rest) \<longleftrightarrow> (\<forall>(k, _) \<in> H. rank k < rank l) \<and> keeps rank needs (insert (l, m) H) rest"
| "keeps rank needs H (Release l # rest) \<longleftrightarrow> keeps rank needs (H - {l} \<times> UNIV) rest"
| "keeps rank needs H (Work w # rest) \<longleftrightarrow> H = needs w \<and> keeps rank needs H rest"

locale lock_discipline =
  fixes rank :: "'l \<Rightarrow> nat" and needs :: "'w \<Rightarrow> ('l \<times> mode) set" and progs :: "('l, 'w) action list list"
  assumes disciplined: "prog \<in> set progs \<Longrightarrow> keeps rank needs {} prog"
begin

definition inv :: "('l, 'w) lock_state \<Rightarrow> bool" where
  "inv s \<longleftrightarrow>
     (\<forall>t. keeps rank needs (held_by s t) (ls_prog s t)) \<and>
     (\<forall>l t u m n. (t, m) \<in> ls_held s l \<longrightarrow> (u, n) \<in> ls_held s l \<longrightarrow> t = u \<or> m = Shared \<and> n = Shared) \<and>
     (\<forall>l t m. (t, m) \<in> set (ls_queue s l) \<longrightarrow> (\<exists>rest. ls_prog s t = Acquire l m # rest)) \<and>
     (\<forall>l. distinct (map fst (ls_queue s l))) \<and>
     (\<forall>t. t \<ge> length progs \<longrightarrow> ls_prog s t = [])"

lemma inv_start: "inv (lock_start progs)"
  using disciplined by (auto simp: inv_def lock_start_def held_by_def)

lemma held_by_upd:
  "held_by (s\<lparr>ls_held := (ls_held s)(l := insert (t, m) (ls_held s l)), ls_prog := p\<rparr>) u =
     (if u = t then insert (l, m) (held_by s u) else held_by s u)"
  "held_by (s\<lparr>ls_held := (ls_held s)(l := ls_held s l - {t} \<times> UNIV), ls_prog := p\<rparr>) u =
     (if u = t then held_by s u - {l} \<times> UNIV else held_by s u)"
  by (auto simp: held_by_def split: if_splits)

lemma not_own_holder: "inv s \<Longrightarrow> ls_prog s t = Acquire l m # rest \<Longrightarrow> (t, n) \<notin> ls_held s l"
proof
  assume "inv s" "ls_prog s t = Acquire l m # rest" "(t, n) \<in> ls_held s l"
  then have "keeps rank needs (held_by s t) (Acquire l m # rest)" "(l, n) \<in> held_by s t"
    unfolding inv_def held_by_def by (metis, simp)
  then show False by auto
qed

lemma waits_once:
  assumes "inv s" "(t, m) \<in> set (ls_queue s l)" "(t, n) \<in> set (ls_queue s k)"
  shows "l = k \<and> m = n"
proof -
  obtain r r' where "ls_prog s t = Acquire l m # r" "ls_prog s t = Acquire k n # r'" using assms unfolding inv_def by metis
  then show ?thesis by simp
qed

text \<open>Each kind of step keeps the invariant.\<close>

lemma inv_enqueue:
  assumes i: "inv s" and s': "s' = s\<lparr>ls_queue := (ls_queue s)(l := ls_queue s l @ [(t, m)])\<rparr>"
    and p: "ls_prog s t = Acquire l m # rest" and w: "\<not> waiting s t"
  shows "inv s'"
proof -
  have "held_by s' u = held_by s u" for u by (simp add: s' held_by_def)
  moreover have "t \<notin> fst ` set (ls_queue s l)" using w by (auto simp: waiting_def)
  ultimately show ?thesis using i p unfolding inv_def s' by auto
qed

lemma inv_grant:
  assumes i: "inv s" and q: "ls_queue s l = (t, m) # q" and c: "compatible m (ls_held s l)"
    and p: "ls_prog s t = Acquire l m # rest"
    and s': "s' = s\<lparr>ls_queue := (ls_queue s)(l := q), ls_held := (ls_held s)(l := insert (t, m) (ls_held s l)),
                   ls_prog := (ls_prog s)(t := rest)\<rparr>"
  shows "inv s'"
proof -
  have others: "u \<noteq> t" if "(u, n) \<in> set (ls_queue s' k)" for u n k
  proof
    assume "u = t"
    show False
    proof (cases "k = l")
      case True
      then have "(t, n) \<in> set q" using that \<open>u = t\<close> by (simp add: s')
      moreover have "distinct (map fst ((t, m) # q))" using i q unfolding inv_def by metis
      ultimately show False by force
    next
      case False
      then have "(t, n) \<in> set (ls_queue s k)" using that \<open>u = t\<close> by (simp add: s')
      then show False using waits_once[OF i, of t m l n k] q False by simp
    qed
  qed
  have sub: "set (ls_queue s' k) \<subseteq> set (ls_queue s k)" for k using q by (auto simp: s')
  show ?thesis unfolding inv_def
  proof (intro conjI allI impI)
    fix u
    have "held_by s' u = (if u = t then insert (l, m) (held_by s u) else held_by s u)"
      by (auto simp: s' held_by_def split: if_splits)
    moreover have "keeps rank needs (held_by s u) (ls_prog s u)" using i by (simp add: inv_def)
    ultimately show "keeps rank needs (held_by s' u) (ls_prog s' u)" using p by (auto simp: s')
  next
    fix k u v a b assume h: "(u, a) \<in> ls_held s' k" "(v, b) \<in> ls_held s' k"
    have old: "x = y \<or> c = Shared \<and> d = Shared" if "(x, c) \<in> ls_held s k" "(y, d) \<in> ls_held s k" for x y c d
      using i that unfolding inv_def by blast
    show "u = v \<or> a = Shared \<and> b = Shared"
    proof (cases "k = l")
      case True
      then have "(u, a) = (t, m) \<or> (u, a) \<in> ls_held s l" "(v, b) = (t, m) \<or> (v, b) \<in> ls_held s l" using h by (auto simp: s')
      then show ?thesis using c old[of u a v b] True by (cases m) (auto simp: compatible_def)
    next
      case False
      then show ?thesis using h old by (simp add: s')
    qed
  next
    fix k u n assume "(u, n) \<in> set (ls_queue s' k)"
    then have "(u, n) \<in> set (ls_queue s k)" "u \<noteq> t" using sub others by blast+
    then show "\<exists>rest. ls_prog s' u = Acquire k n # rest" using i by (auto simp: inv_def s')
  next
    fix k
    have "distinct (map fst (ls_queue s k))" using i by (simp add: inv_def)
    then show "distinct (map fst (ls_queue s' k))" using q by (auto simp: s')
  next
    fix u assume "u \<ge> length progs"
    moreover have "u \<noteq> t" using i p calculation unfolding inv_def by (metis list.distinct(1))
    ultimately show "ls_prog s' u = []" using i by (simp add: inv_def s')
  qed
qed

lemma inv_release:
  assumes i: "inv s" and p: "ls_prog s t = Release l # rest"
    and s': "s' = s\<lparr>ls_held := (ls_held s)(l := ls_held s l - {t} \<times> UNIV), ls_prog := (ls_prog s)(t := rest)\<rparr>"
  shows "inv s'"
proof -
  have h: "held_by s' u = (if u = t then held_by s u - {l} \<times> UNIV else held_by s u)" for u
    unfolding s' by (rule held_by_upd(2))
  have "keeps rank needs (held_by s' u) (ls_prog s' u)" for u
  proof -
    have "keeps rank needs (held_by s u) (ls_prog s u)" using i by (simp add: inv_def)
    then show ?thesis using p unfolding h by (auto simp: s')
  qed
  moreover have "u \<noteq> t" if "(u, n) \<in> set (ls_queue s k)" for u n k using i p that by (fastforce simp: inv_def)
  moreover have "t < length progs" using i p unfolding inv_def by (metis list.distinct(1) linorder_not_less)
  ultimately show ?thesis using i unfolding inv_def by (auto simp: s' split: if_splits; blast)
qed

lemma inv_work:
  assumes i: "inv s" and p: "ls_prog s t = Work w # rest" and s': "s' = s\<lparr>ls_prog := (ls_prog s)(t := rest)\<rparr>"
  shows "inv s'"
proof -
  have "keeps rank needs (held_by s' u) (ls_prog s' u)" for u
  proof -
    have "keeps rank needs (held_by s u) (ls_prog s u)" using i by (simp add: inv_def)
    then show ?thesis using p by (auto simp: s' held_by_def)
  qed
  moreover have "u \<noteq> t" if "(u, n) \<in> set (ls_queue s k)" for u n k using i p that by (fastforce simp: inv_def)
  moreover have "t < length progs" using i p unfolding inv_def by (metis list.distinct(1) linorder_not_less)
  ultimately show ?thesis using i unfolding inv_def by (auto simp: s')
qed

lemma inv_step: "lock_step s s' \<Longrightarrow> inv s \<Longrightarrow> inv s'"
  by (erule lock_stepE) (blast intro: inv_enqueue inv_grant inv_release inv_work)+

lemma inv_reachable: "lock_step\<^sup>*\<^sup>* (lock_start progs) s \<Longrightarrow> inv s"
  by (induction rule: rtranclp_induct) (auto intro: inv_start inv_step)

text \<open>Two tasks at work need no lock that one of them needs alone.\<close>

lemma work_excludes:
  assumes "inv s" "t \<noteq> u" "ls_prog s t = Work a # r" "ls_prog s u = Work b # r'" "(l, m) \<in> needs a" "(l, n) \<in> needs b"
  shows "m = Shared \<and> n = Shared"
proof -
  have k: "keeps rank needs (held_by s v) (ls_prog s v)" for v using assms(1) by (simp add: inv_def)
  have "held_by s t = needs a" "held_by s u = needs b" using k[of t] k[of u] assms(3,4) by simp_all
  then have "(t, m) \<in> ls_held s l" "(u, n) \<in> ls_held s l" using assms(5,6) by (auto simp: held_by_def)
  then show ?thesis using assms(1,2) unfolding inv_def by blast
qed

text \<open>Where nothing moves, every task with something left to do waits for a lock.\<close>

lemma stuck_waits:
  assumes i: "inv s" and stuck: "\<nexists>s'. lock_step s s'" and ne: "ls_prog s u \<noteq> []"
  shows "\<exists>l m rest. ls_prog s u = Acquire l m # rest \<and> (u, m) \<in> set (ls_queue s l)"
proof -
  obtain a rest where p: "ls_prog s u = a # rest" using ne by (meson neq_Nil_conv)
  show ?thesis
  proof (cases a)
    case (Acquire l m)
    have "waiting s u" using p Acquire stuck enqueue[of s u l m rest] by auto
    then obtain k n where k: "(u, n) \<in> set (ls_queue s k)" by (auto simp: waiting_def)
    then obtain r where "ls_prog s u = Acquire k n # r" using i unfolding inv_def by metis
    then show ?thesis using k by blast
  next
    case (Release l)
    then show ?thesis using p stuck release[of s u l rest] by auto
  next
    case (Work w)
    then show ?thesis using p stuck work[of s u w rest] by auto
  qed
qed

text \<open>Whoever waits for a lock of the highest rank can be served, so that the tasks never wait for each other in a circle.\<close>

lemma progress:
  assumes i: "inv s" and t: "ls_prog s t \<noteq> []"
  shows "\<exists>s'. lock_step s s'"
proof (rule ccontr)
  assume stuck: "\<nexists>s'. lock_step s s'"
  let ?wait = "\<lambda>t l. \<exists>m rest. ls_prog s t = Acquire l m # rest \<and> (t, m) \<in> set (ls_queue s l)"
  have waits: "\<exists>l. ?wait u l" if "ls_prog s u \<noteq> []" for u using stuck_waits[OF i stuck that] .
  let ?W = "{l. \<exists>t. ?wait t l}"
  have "?W \<subseteq> (\<lambda>t. SOME l. ?wait t l) ` {..<length progs}"
  proof
    fix l assume "l \<in> ?W"
    then obtain u where u: "?wait u l" by blast
    then have "u < length progs" using i unfolding inv_def by (metis linorder_not_less list.distinct(1))
    moreover have "(SOME l. ?wait u l) = l" using u by (intro some_equality) auto
    ultimately show "l \<in> (\<lambda>t. SOME l. ?wait t l) ` {..<length progs}" by (intro image_eqI[where x = u]) simp_all
  qed
  then have "finite ?W" by (rule finite_subset) simp
  moreover obtain l0 where "l0 \<in> ?W" using waits[OF t] by blast
  ultimately have m: "finite (rank ` ?W)" "rank ` ?W \<noteq> {}" by blast+
  have "Max (rank ` ?W) \<in> rank ` ?W" by (rule Max_in[OF m])
  then obtain l where "l \<in> ?W" "rank l = Max (rank ` ?W)" by fastforce
  moreover have "rank k \<le> Max (rank ` ?W)" if "k \<in> ?W" for k using that m(1) by (intro Max_ge) blast+
  ultimately have l: "l \<in> ?W" "\<And>k. k \<in> ?W \<Longrightarrow> rank k \<le> rank l" by simp_all
  obtain u m q where q: "ls_queue s l = (u, m) # q" using l(1) by (cases "ls_queue s l") auto
  obtain rest where u: "ls_prog s u = Acquire l m # rest" using i q unfolding inv_def by (metis list.set_intros(1))
  have "\<not> compatible m (ls_held s l)" using stuck grant[OF q _ u] by blast
  then obtain v n where v: "(v, n) \<in> ls_held s l" by (cases m) (auto simp: compatible_def)
  then have held: "(l, n) \<in> held_by s v" by (simp add: held_by_def)
  have keeps: "keeps rank needs (held_by s v) (ls_prog s v)" using i by (simp add: inv_def)
  then have "ls_prog s v \<noteq> []" using held by auto
  then obtain k k' r where k: "ls_prog s v = Acquire k k' # r" "?wait v k" using waits by blast
  then have "rank l < rank k" using keeps held by auto
  moreover have "k \<in> ?W" using k(2) by blast
  ultimately show False using l(2) by fastforce
qed

text \<open>Every step uses up a part of what is left to do.\<close>

definition left :: "('l, 'w) lock_state \<Rightarrow> nat" where
  "left s = (\<Sum>t<length progs. 2 * length (ls_prog s t) - (if waiting s t then 1 else 0))"

lemma left_decreases:
  assumes i: "inv s" and step: "lock_step s s'"
  shows "left s' < left s"
proof -
  let ?n = "\<lambda>s t. 2 * length (ls_prog s t) - (if waiting s t then 1 else 0)"
  have other: "left s' < left s" if t: "t < length progs" "?n s' t < ?n s t" "\<And>u. u \<noteq> t \<Longrightarrow> ?n s' u = ?n s u" for t
    unfolding left_def
  proof (rule sum_strict_mono_ex1)
    show "\<forall>u\<in>{..<length progs}. ?n s' u \<le> ?n s u"
    proof
      fix u show "?n s' u \<le> ?n s u" using t(2) t(3)[of u] by (cases "u = t") simp_all
    qed
    show "\<exists>u\<in>{..<length progs}. ?n s' u < ?n s u" using t(1,2) by blast
  qed simp
  have here: "t < length progs" if "ls_prog s t = a # rest" for t a rest
    using i that unfolding inv_def by (metis linorder_not_less list.distinct(1))
  from step show ?thesis
  proof (rule lock_stepE)
    fix t l m rest
    assume s': "s' = s\<lparr>ls_queue := (ls_queue s)(l := ls_queue s l @ [(t, m)])\<rparr>"
      and p: "ls_prog s t = Acquire l m # rest" and w: "\<not> waiting s t"
    have "waiting s' u \<longleftrightarrow> u = t \<or> waiting s u" for u
      unfolding waiting_def s' by (auto split: if_splits)
    then show ?thesis using w p by (intro other[OF here[OF p]]) (simp_all add: s')
  next
    fix l t m q rest
    assume q: "ls_queue s l = (t, m) # q" and p: "ls_prog s t = Acquire l m # rest"
      and s': "s' = s\<lparr>ls_queue := (ls_queue s)(l := q), ls_held := (ls_held s)(l := insert (t, m) (ls_held s l)),
                   ls_prog := (ls_prog s)(t := rest)\<rparr>"
    have "(u, n) \<in> set (ls_queue s' k) \<longleftrightarrow> (u, n) \<in> set (ls_queue s k)" if "u \<noteq> t" for u n k using q that by (auto simp: s')
    then have "waiting s' u \<longleftrightarrow> waiting s u" if "u \<noteq> t" for u using that by (simp add: waiting_def)
    moreover have "?n s' t < ?n s t" using p by (auto simp: s')
    ultimately show ?thesis by (intro other[OF here[OF p]]) (simp_all add: s')
  next
    fix t l rest
    assume p: "ls_prog s t = Release l # rest"
      and s': "s' = s\<lparr>ls_held := (ls_held s)(l := ls_held s l - {t} \<times> UNIV), ls_prog := (ls_prog s)(t := rest)\<rparr>"
    have "waiting s' u \<longleftrightarrow> waiting s u" for u by (simp add: waiting_def s')
    moreover have "?n s' t < ?n s t" if "waiting s' t = waiting s t" using p that by (auto simp: s')
    ultimately show ?thesis by (intro other[OF here[OF p]]) (simp_all add: s')
  next
    fix t w rest
    assume p: "ls_prog s t = Work w # rest" and s': "s' = s\<lparr>ls_prog := (ls_prog s)(t := rest)\<rparr>"
    have "waiting s' u \<longleftrightarrow> waiting s u" for u by (simp add: waiting_def s')
    moreover have "?n s' t < ?n s t" if "waiting s' t = waiting s t" using p that by (auto simp: s')
    ultimately show ?thesis by (intro other[OF here[OF p]]) (simp_all add: s')
  qed
qed

lemma runs_are_bounded: "(lock_step ^^ k) (lock_start progs) s \<Longrightarrow> k + left s \<le> left (lock_start progs)"
proof (induction k arbitrary: s)
  case (Suc k)
  then obtain s1 where s1: "(lock_step ^^ k) (lock_start progs) s1" "lock_step s1 s" by auto
  then have "inv s1" using inv_reachable by (metis relpowp_imp_rtranclp)
  then show ?case using Suc.IH[OF s1(1)] left_decreases[OF _ s1(2)] by simp
qed simp

lemma stuck_means_done:
  assumes "lock_step\<^sup>*\<^sup>* (lock_start progs) s" "\<nexists>s'. lock_step s s'"
  shows "ls_prog s t = []"
  using progress[OF inv_reachable[OF assms(1)]] assms(2) by blast

lemma all_runs_finish: "lock_step\<^sup>*\<^sup>* (lock_start progs) s0 \<Longrightarrow> \<exists>s. lock_step\<^sup>*\<^sup>* s0 s \<and> (\<forall>t. ls_prog s t = [])"
proof (induction "left s0" arbitrary: s0 rule: less_induct)
  case less
  show ?case
  proof (cases "\<exists>s1. lock_step s0 s1")
    case True
    then obtain s1 where s1: "lock_step s0 s1" by blast
    have "left s1 < left s0" by (rule left_decreases[OF inv_reachable[OF less.prems] s1])
    moreover have "lock_step\<^sup>*\<^sup>* (lock_start progs) s1" using less.prems s1 by simp
    ultimately show ?thesis using less.hyps s1 by (meson converse_rtranclp_into_rtranclp)
  next
    case False
    then show ?thesis using stuck_means_done[OF less.prems] by blast
  qed
qed

lemma left_start: "left (lock_start progs) \<le> 2 * sum_list (map length progs)"
proof -
  have "left (lock_start progs) \<le> (\<Sum>t<length progs. 2 * length (progs ! t))"
    unfolding left_def by (intro sum_mono) (simp add: lock_start_def)
  also have "\<dots> = 2 * sum_list (map length progs)"
    by (simp add: sum_distrib_left[symmetric] sum_list_sum_nth atLeast0LessThan)
  finally show ?thesis .
qed

text \<open>A task that is done holds nothing.\<close>

lemma done_means_free:
  assumes "inv s" "\<forall>t. ls_prog s t = []"
  shows "ls_held s l = {}"
proof -
  have "keeps rank needs (held_by s t) (ls_prog s t)" for t using assms(1) by (simp add: inv_def)
  then have "held_by s t = {}" for t using assms(2) by simp
  then show ?thesis by (auto simp: held_by_def)
qed

text \<open>Only a task that is letting locks go, or whose work needs it so, holds a lock of the highest rank.\<close>

lemma top_lock_holder:
  assumes "inv s" "(t, m) \<in> ls_held s l" "\<And>k. rank k \<le> rank l" "\<And>k rest. ls_prog s t \<noteq> Release k # rest"
  obtains w rest where "ls_prog s t = Work w # rest" "(l, m) \<in> needs w"
proof -
  have h: "(l, m) \<in> held_by s t" using assms(2) by (simp add: held_by_def)
  have k: "keeps rank needs (held_by s t) (ls_prog s t)" using assms(1) by (simp add: inv_def)
  show thesis
  proof (cases "ls_prog s t")
    case Nil
    then show thesis using h k by simp
  next
    case (Cons a rest)
    then show thesis
    proof (cases a)
      case (Acquire x n)
      then have "rank l < rank x" using h k Cons by auto
      then show thesis using assms(3)[of x] by simp
    next
      case (Release x)
      then show thesis using assms(4) Cons by blast
    next
      case (Work w)
      then show thesis using that h k Cons by simp
    qed
  qed
qed

end

end
