(* ===== verification/Workspace_Locks.thy ===== *)
theory Workspace_Locks
  imports Lock_Protocol
begin

text \<open>
  The daemon's workspace locks (\<open>rmc-server/src/mcp/workspace_locks.rs\<close>): the registry's constructors, the guards with
  their fields in declaration order (Rust drops them in that order), and what the tool calls do under them.

  \<^item> Locks: a tokio mutex is a lock that is only ever taken \<open>Exclusive\<close>; the registry's own \<open>slots\<close> mutex is held for
    one lookup and nothing is taken under it, so it has no part in the order and is left out.
  \<^item> Sessions: the calls of \<open>tools/endpoints\<close>, \<open>tools/graph\<close> and \<open>mcp/sync.rs\<close> as the sequence of what they acquire, do and
    release. What is done under a guard is one \<open>Work\<close> label that names which locks it relies on; that it ends is assumed.
  \<^item> \<open>canonicalize\<close> is the file system's answer and a parameter.
\<close>

subsection \<open>Locks and guards\<close>

datatype workspace_lock = Global_Lock | Graph_Cache path | Maintenance path | Operation path

text \<open>The lock order of the module's table.\<close>

fun lock_rank :: "workspace_lock \<Rightarrow> nat" where
  "lock_rank Global_Lock = 0"
| "lock_rank (Graph_Cache _) = 1"
| "lock_rank (Maintenance _) = 2"
| "lock_rank (Operation _) = 3"

definition workspace_key :: "(path \<Rightarrow> path option) \<Rightarrow> path \<Rightarrow> path" where
  "workspace_key canonicalize dir = (case canonicalize dir of Some p \<Rightarrow> p | None \<Rightarrow> dir)"

datatype workspace_guard =
    Workspace_Read_Guard path
  | Graph_Cache_Writer_Guard path
  | Graph_Cache_Reading_Index_Guard path
  | Index_Writer_Guard path
  | Store_Writer_Guard path
  | Maintenance_Guard path
  | Workspace_Global_Lock_Guard

text \<open>The lock guards of each struct, in the order of its fields.\<close>

fun guard_fields :: "workspace_guard \<Rightarrow> workspace_lock list" where
  "guard_fields (Workspace_Read_Guard p) = [Global_Lock, Operation p]"
| "guard_fields (Graph_Cache_Writer_Guard p) = [Global_Lock, Graph_Cache p]"
| "guard_fields (Graph_Cache_Reading_Index_Guard p) = [Global_Lock, Graph_Cache p, Operation p]"
| "guard_fields (Index_Writer_Guard p) = [Global_Lock, Operation p, Maintenance p]"
| "guard_fields (Store_Writer_Guard p) = [Global_Lock, Maintenance p]"
| "guard_fields (Maintenance_Guard p) = [Global_Lock, Maintenance p]"
| "guard_fields Workspace_Global_Lock_Guard = [Global_Lock]"

definition drop_guard :: "workspace_guard \<Rightarrow> (workspace_lock, 'w) action list" where
  "drop_guard g = map Release (guard_fields g)"

subsection \<open>What is done under the locks\<close>

datatype lock_work =
    Reads_Index path
  | Refills_Keyword_Index path
  | Queries_Unlocked path
  | Writes_Graph_Cache path
  | Writes_Graph_Cache_Reading_Index path
  | Writes_Index path
  | Prepares_Write path
  | Publishes path
  | Maintains path
  | Maintains_Beside_Query path
  | Whole_Cache

text \<open>The locks that are held during each kind of work.\<close>

fun needs :: "lock_work \<Rightarrow> (workspace_lock \<times> mode) set" where
  "needs (Reads_Index p) = {(Global_Lock, Shared), (Operation p, Shared)}"
| "needs (Refills_Keyword_Index p) = {(Global_Lock, Shared), (Operation p, Shared)}"
| "needs (Queries_Unlocked p) = {}"
| "needs (Writes_Graph_Cache p) = {(Global_Lock, Shared), (Graph_Cache p, Exclusive)}"
| "needs (Writes_Graph_Cache_Reading_Index p) =
     {(Global_Lock, Shared), (Graph_Cache p, Exclusive), (Operation p, Shared)}"
| "needs (Writes_Index p) = {(Global_Lock, Shared), (Maintenance p, Exclusive), (Operation p, Exclusive)}"
| "needs (Prepares_Write p) = {(Global_Lock, Shared), (Maintenance p, Exclusive)}"
| "needs (Publishes p) = {(Global_Lock, Shared), (Maintenance p, Exclusive), (Operation p, Exclusive)}"
| "needs (Maintains p) = {(Global_Lock, Shared), (Maintenance p, Exclusive)}"
| "needs (Maintains_Beside_Query p) = {(Global_Lock, Shared), (Maintenance p, Exclusive)}"
| "needs Whole_Cache = {(Global_Lock, Exclusive)}"

type_synonym lock_program = "(workspace_lock, lock_work) action list"

subsection \<open>The registry's constructors\<close>

text \<open>What each waits for, and the guard it returns.\<close>

definition lock_shared :: "(path \<Rightarrow> path option) \<Rightarrow> path \<Rightarrow> lock_program \<times> workspace_guard" where
  "lock_shared canonicalize dir = (let p = workspace_key canonicalize dir in
     ([Acquire Global_Lock Shared, Acquire (Operation p) Shared], Workspace_Read_Guard p))"

definition lock_graph_cache_writer :: "(path \<Rightarrow> path option) \<Rightarrow> path \<Rightarrow> lock_program \<times> workspace_guard" where
  "lock_graph_cache_writer canonicalize dir = (let p = workspace_key canonicalize dir in
     ([Acquire Global_Lock Shared, Acquire (Graph_Cache p) Exclusive], Graph_Cache_Writer_Guard p))"

definition lock_index_writer :: "(path \<Rightarrow> path option) \<Rightarrow> path \<Rightarrow> lock_program \<times> workspace_guard" where
  "lock_index_writer canonicalize dir = (let p = workspace_key canonicalize dir in
     ([Acquire Global_Lock Shared, Acquire (Maintenance p) Exclusive, Acquire (Operation p) Exclusive],
      Index_Writer_Guard p))"

definition lock_store_writer :: "(path \<Rightarrow> path option) \<Rightarrow> path \<Rightarrow> lock_program \<times> workspace_guard" where
  "lock_store_writer canonicalize dir = (let p = workspace_key canonicalize dir in
     ([Acquire Global_Lock Shared, Acquire (Maintenance p) Exclusive], Store_Writer_Guard p))"

definition lock_all :: "lock_program \<times> workspace_guard" where
  "lock_all = ([Acquire Global_Lock Exclusive], Workspace_Global_Lock_Guard)"

text \<open>The guards' own methods. They are methods of one guard type each, so that the other guards have none of them: \<open>None\<close>.\<close>

fun read_index :: "workspace_guard \<Rightarrow> (lock_program \<times> workspace_guard) option" where
  "read_index (Graph_Cache_Writer_Guard p) = Some ([Acquire (Operation p) Shared], Graph_Cache_Reading_Index_Guard p)"
| "read_index _ = None"

fun into_maintenance :: "workspace_guard \<Rightarrow> (lock_program \<times> workspace_guard) option" where
  "into_maintenance (Index_Writer_Guard p) = Some ([Release (Operation p)], Maintenance_Guard p)"
| "into_maintenance (Store_Writer_Guard p) = Some ([], Maintenance_Guard p)"
| "into_maintenance _ = None"

fun guard_operation_lock :: "workspace_guard \<Rightarrow> workspace_lock option" where
  "guard_operation_lock (Store_Writer_Guard p) = Some (Operation p)"
| "guard_operation_lock _ = None"

fun guard_workspace :: "workspace_guard \<Rightarrow> path option" where
  "guard_workspace (Workspace_Read_Guard p) = Some p"
| "guard_workspace (Graph_Cache_Writer_Guard p) = Some p"
| "guard_workspace (Graph_Cache_Reading_Index_Guard p) = None"
| "guard_workspace (Index_Writer_Guard p) = Some p"
| "guard_workspace (Store_Writer_Guard p) = Some p"
| "guard_workspace (Maintenance_Guard p) = Some p"
| "guard_workspace Workspace_Global_Lock_Guard = None"

definition run_outside_operation_lock :: "workspace_guard \<Rightarrow> lock_program \<Rightarrow> lock_program" where
  "run_outside_operation_lock g maintenance = maintenance @ drop_guard g"

text \<open>The pass runs in a task of its own; the guard moves to it, so that the locks see one continued holder.\<close>

definition finish_index_writer :: "workspace_guard \<Rightarrow> bool \<Rightarrow> lock_program" where
  "finish_index_writer g maintenance = (case (maintenance, guard_workspace g) of
     (True, Some p) \<Rightarrow> run_outside_operation_lock g [Work (Maintains p)]
   | _ \<Rightarrow> drop_guard g)"

subsection \<open>Sessions\<close>

text \<open>How a search goes (\<open>tools/endpoints/query.rs\<close>). The index is there, perhaps without its keyword index, which is then refilled
  from the store; or it is missing or corrupt, and under the writer's lock the search finds that another one has built it
  meanwhile, or fails to build it, or builds it. A build leaves maintenance to do or not; where it found no file, the search
  answers at once.\<close>

datatype search_outcome =
    Index_Ready
  | Index_Refilled
  | Built_Meanwhile
  | Build_Fails
  | Built_Empty bool
  | Builds_Index bool

text \<open>The calls. A count says how many times a store writer publishes; an optional flag says whether the run failed
  (\<open>None\<close>: the guard is dropped by the early return) or succeeded, and then whether it left maintenance to do.\<close>

datatype lock_session =
    Search path search_outcome
  | Get_Similar_Code path
  | Semantic_Overlaps path
  | Build_Codemap path bool
  | Sync_Directory path nat "bool option"
  | Index_Codebase path bool nat "bool option"
  | Clear_Workspace path
  | Clear_All

definition via :: "lock_program \<times> workspace_guard \<Rightarrow> (workspace_guard \<Rightarrow> (lock_program \<times> workspace_guard) option) \<Rightarrow>
    lock_program \<times> workspace_guard" where
  "via ag m = (case m (snd ag) of Some (b, g) \<Rightarrow> (fst ag @ b, g) | None \<Rightarrow> ag)"

text \<open>One publish of a store writer: the operation lock around the writes alone.\<close>

definition publish_once :: "workspace_guard \<Rightarrow> lock_program" where
  "publish_once g = (case (guard_operation_lock g, guard_workspace g) of
     (Some l, Some p) \<Rightarrow> [Work (Prepares_Write p), Acquire l Exclusive, Work (Publishes p), Release l, Work (Prepares_Write p)]
   | _ \<Rightarrow> [])"

definition finish_run :: "workspace_guard \<Rightarrow> bool option \<Rightarrow> lock_program" where
  "finish_run g result = (case result of
     None \<Rightarrow> drop_guard g
   | Some m \<Rightarrow> (case via ([], g) into_maintenance of (b, g') \<Rightarrow> b @ finish_index_writer g' m))"

text \<open>A search that has built the index, or found it built, queries it without a lock: a pass that its build left runs beside
  the query, in a task of its own, and the query may outlast it.\<close>

definition querying_beside :: "path \<Rightarrow> lock_program \<Rightarrow> lock_program" where
  "querying_beside p finish =
     map (\<lambda>a. if a = Work (Maintains p) then Work (Maintains_Beside_Query p) else a) finish @ [Work (Queries_Unlocked p)]"

definition search_session :: "(path \<Rightarrow> path option) \<Rightarrow> path \<Rightarrow> search_outcome \<Rightarrow> lock_program" where
  "search_session canonicalize dir found = (
     let p = workspace_key canonicalize dir; (a, g) = lock_shared canonicalize dir;
         reading = a @ [Work (Reads_Index p)] @ drop_guard g;
         (b, w) = lock_index_writer canonicalize dir
     in case found of
          Index_Ready \<Rightarrow> reading
        | Index_Refilled \<Rightarrow> a @ [Work (Refills_Keyword_Index p), Work (Reads_Index p)] @ drop_guard g
        | Built_Meanwhile \<Rightarrow> reading @ b @ [Work (Writes_Index p)] @ querying_beside p (drop_guard w)
        | Build_Fails \<Rightarrow> reading @ b @ [Work (Writes_Index p)] @ finish_run w None
        | Built_Empty maintenance \<Rightarrow> reading @ b @ [Work (Writes_Index p)] @ finish_run w (Some maintenance)
        | Builds_Index maintenance \<Rightarrow>
            reading @ b @ [Work (Writes_Index p)] @ querying_beside p (finish_run w (Some maintenance)))"

definition sync_session :: "(path \<Rightarrow> path option) \<Rightarrow> path \<Rightarrow> nat \<Rightarrow> bool option \<Rightarrow> lock_program" where
  "sync_session canonicalize dir publishes result = (
     let (a, g) = lock_store_writer canonicalize dir in
     a @ concat (replicate publishes (publish_once g)) @
       (case result of
          Some True \<Rightarrow> (case via ([], g) into_maintenance of (b, g') \<Rightarrow>
            b @ run_outside_operation_lock g' [Work (Maintains (workspace_key canonicalize dir))])
        | _ \<Rightarrow> drop_guard g))"

definition index_session :: "(path \<Rightarrow> path option) \<Rightarrow> path \<Rightarrow> bool \<Rightarrow> nat \<Rightarrow> bool option \<Rightarrow> lock_program" where
  "index_session canonicalize dir whole_run publishes result = (
     if whole_run
     then (case lock_index_writer canonicalize dir of (a, g) \<Rightarrow>
       a @ [Work (Writes_Index (workspace_key canonicalize dir))] @ finish_run g result)
     else (case lock_store_writer canonicalize dir of (a, g) \<Rightarrow>
       a @ concat (replicate publishes (publish_once g)) @ finish_run g result))"

fun session :: "(path \<Rightarrow> path option) \<Rightarrow> lock_session \<Rightarrow> lock_program" where
  "session canonicalize (Search dir found) = search_session canonicalize dir found"
| "session canonicalize (Get_Similar_Code dir) = search_session canonicalize dir Index_Ready"
| "session canonicalize (Semantic_Overlaps dir) = (case lock_graph_cache_writer canonicalize dir of (a, g) \<Rightarrow>
     a @ [Work (Writes_Graph_Cache (workspace_key canonicalize dir))] @ drop_guard g)"
| "session canonicalize (Build_Codemap dir compute_missing) = (
     if compute_missing
     then (case via (lock_graph_cache_writer canonicalize dir) read_index of (a, g) \<Rightarrow>
       a @ [Work (Writes_Graph_Cache_Reading_Index (workspace_key canonicalize dir))] @ drop_guard g)
     else search_session canonicalize dir Index_Ready)"
| "session canonicalize (Sync_Directory dir publishes result) = sync_session canonicalize dir publishes result"
| "session canonicalize (Index_Codebase dir whole_run publishes result) =
     index_session canonicalize dir whole_run publishes result"
| "session canonicalize (Clear_Workspace dir) = (case lock_index_writer canonicalize dir of (a, g) \<Rightarrow>
     a @ [Work (Writes_Index (workspace_key canonicalize dir))] @ drop_guard g)"
| "session canonicalize Clear_All = (case lock_all of (a, g) \<Rightarrow> a @ [Work Whole_Cache] @ drop_guard g)"

definition daemon_start :: "(path \<Rightarrow> path option) \<Rightarrow> lock_session list \<Rightarrow> (workspace_lock, lock_work) lock_state" where
  "daemon_start canonicalize calls = lock_start (map (session canonicalize) calls)"

subsection \<open>Every session keeps the lock order\<close>

lemmas session_defs = search_session_def sync_session_def index_session_def via_def publish_once_def finish_run_def
  finish_index_writer_def run_outside_operation_lock_def drop_guard_def lock_shared_def lock_graph_cache_writer_def
  lock_index_writer_def lock_store_writer_def lock_all_def

text \<open>The locks of each guard, as the session holds them.\<close>

fun guard_holds :: "workspace_guard \<Rightarrow> (workspace_lock \<times> mode) set" where
  "guard_holds (Workspace_Read_Guard p) = needs (Reads_Index p)"
| "guard_holds (Graph_Cache_Writer_Guard p) = needs (Writes_Graph_Cache p)"
| "guard_holds (Graph_Cache_Reading_Index_Guard p) = needs (Writes_Graph_Cache_Reading_Index p)"
| "guard_holds (Index_Writer_Guard p) = needs (Writes_Index p)"
| "guard_holds (Store_Writer_Guard p) = needs (Prepares_Write p)"
| "guard_holds (Maintenance_Guard p) = needs (Maintains p)"
| "guard_holds Workspace_Global_Lock_Guard = needs Whole_Cache"

abbreviation keeps_order :: "(workspace_lock \<times> mode) set \<Rightarrow> lock_program \<Rightarrow> bool" where
  "keeps_order \<equiv> keeps lock_rank needs"

lemma keeps_drop: "keeps_order {} rest \<Longrightarrow> keeps_order (guard_holds g) (drop_guard g @ rest)"
  by (cases g) (simp_all add: drop_guard_def insert_Diff_if)

lemma keeps_drop_end: "keeps_order (guard_holds g) (drop_guard g)"
  using keeps_drop[of "[]" g] by simp

lemma keeps_publish: "keeps_order (guard_holds (Store_Writer_Guard p)) rest \<Longrightarrow>
    keeps_order (guard_holds (Store_Writer_Guard p)) (concat (replicate n (publish_once (Store_Writer_Guard p))) @ rest)"
proof (induction n)
  case (Suc n)
  have "{(Global_Lock, Shared), (Maintenance p, Exclusive), (Operation p, Exclusive)} =
      insert (Operation p, Exclusive) {(Global_Lock, Shared), (Maintenance p, Exclusive)}" by blast
  then show ?case using Suc by (simp add: publish_once_def insert_Diff_if)
qed simp

lemma keeps_finish:
  "keeps_order (guard_holds (Index_Writer_Guard p)) (finish_run (Index_Writer_Guard p) r)"
  "keeps_order (guard_holds (Store_Writer_Guard p)) (finish_run (Store_Writer_Guard p) r)"
  by (auto simp: session_defs insert_Diff_if split: option.split bool.split)

lemma keeps_taken:
  "keeps_order {} (fst (lock_shared c d) @ rest) \<longleftrightarrow> keeps_order (guard_holds (snd (lock_shared c d))) rest"
  "keeps_order {} (fst (lock_graph_cache_writer c d) @ rest) \<longleftrightarrow>
     keeps_order (guard_holds (snd (lock_graph_cache_writer c d))) rest"
  "keeps_order {} (fst (lock_index_writer c d) @ rest) \<longleftrightarrow> keeps_order (guard_holds (snd (lock_index_writer c d))) rest"
  "keeps_order {} (fst (lock_store_writer c d) @ rest) \<longleftrightarrow> keeps_order (guard_holds (snd (lock_store_writer c d))) rest"
  "keeps_order {} (fst lock_all @ rest) \<longleftrightarrow> keeps_order (guard_holds (snd lock_all)) rest"
  by (simp_all add: session_defs Let_def insert_commute)

lemma guard_taken:
  "snd (lock_shared c d) = Workspace_Read_Guard (workspace_key c d)"
  "snd (lock_graph_cache_writer c d) = Graph_Cache_Writer_Guard (workspace_key c d)"
  "snd (lock_index_writer c d) = Index_Writer_Guard (workspace_key c d)"
  "snd (lock_store_writer c d) = Store_Writer_Guard (workspace_key c d)"
  "snd lock_all = Workspace_Global_Lock_Guard"
  by (simp_all add: session_defs Let_def)

lemma keeps_reading: "keeps_order {} rest \<Longrightarrow>
    keeps_order {} (fst (lock_shared c d) @ Work (Reads_Index (workspace_key c d)) # drop_guard (snd (lock_shared c d)) @ rest)"
  using keeps_drop[of rest "Workspace_Read_Guard (workspace_key c d)"] by (simp add: keeps_taken guard_taken)

lemma keeps_whole_run: "keeps_order (needs (Writes_Index (workspace_key c d))) rest \<Longrightarrow>
    keeps_order {} (fst (lock_index_writer c d) @ Work (Writes_Index (workspace_key c d)) # rest)"
  by (simp add: keeps_taken guard_taken)

lemma keeps_refilling:
  "keeps_order {} (fst (lock_shared c d) @ Work (Refills_Keyword_Index (workspace_key c d)) # Work (Reads_Index (workspace_key c d)) #
     drop_guard (snd (lock_shared c d)))"
  using keeps_drop_end[of "Workspace_Read_Guard (workspace_key c d)"] by (simp add: keeps_taken guard_taken)

lemma keeps_querying: "keeps_order H finish \<Longrightarrow> keeps_order H (querying_beside p finish)"
  unfolding querying_beside_def
proof (induction finish arbitrary: H)
  case (Cons a finish)
  then show ?case by (cases a) auto
qed simp

lemma search_keeps: "keeps_order {} (search_session c d found)"
proof -
  let ?g = "Index_Writer_Guard (workspace_key c d)"
  have w: "keeps_order (needs (Writes_Index (workspace_key c d))) (drop_guard ?g)" using keeps_drop_end[of ?g] by simp
  have f: "keeps_order (needs (Writes_Index (workspace_key c d))) (finish_run ?g r)" for r
    using keeps_finish(1)[of "workspace_key c d" r] by simp
  note whole = keeps_reading[OF keeps_whole_run]
  show ?thesis
    using keeps_reading[of "[]" c d] keeps_refilling[of c d] whole[OF f] whole[OF keeps_querying[OF w]] whole[OF keeps_querying[OF f]]
    by (auto simp: search_session_def Let_def guard_taken split_beta split: search_outcome.split)
qed

lemma sync_keeps: "keeps_order {} (sync_session c d n r)"
proof -
  let ?g = "Store_Writer_Guard (workspace_key c d)"
  have "keeps_order (guard_holds ?g) (drop_guard ?g)" by (rule keeps_drop_end)
  moreover have "keeps_order (guard_holds ?g) (run_outside_operation_lock (Maintenance_Guard (workspace_key c d))
      [Work (Maintains (workspace_key c d))])"
    using keeps_drop_end[of "Maintenance_Guard (workspace_key c d)"] by (simp add: run_outside_operation_lock_def)
  ultimately show ?thesis
    unfolding sync_session_def Let_def split_beta keeps_taken guard_taken
    by (intro keeps_publish) (simp add: via_def split: option.split bool.split)
qed

lemma index_keeps: "keeps_order {} (index_session c d whole n r)"
proof (cases whole)
  case True
  then show ?thesis
    using keeps_whole_run[of c d "finish_run (Index_Writer_Guard (workspace_key c d)) r"] keeps_finish(1)[of "workspace_key c d" r]
    by (simp add: index_session_def split_beta guard_taken)
next
  case False
  then show ?thesis
    unfolding index_session_def split_beta
    by (simp add: keeps_taken guard_taken del: guard_holds.simps) (intro keeps_publish keeps_finish)
qed

lemma session_keeps: "keeps_order {} (session c call)"
proof (cases call)
  case (Semantic_Overlaps d)
  then show ?thesis using keeps_drop_end[of "Graph_Cache_Writer_Guard (workspace_key c d)"]
    by (simp add: split_beta keeps_taken guard_taken)
next
  case (Build_Codemap d m)
  have "keeps_order {} (fst (via (lock_graph_cache_writer c d) read_index) @ rest) \<longleftrightarrow>
      keeps_order (guard_holds (Graph_Cache_Reading_Index_Guard (workspace_key c d))) rest" for rest
    by (simp add: session_defs Let_def insert_commute)
  moreover have "snd (via (lock_graph_cache_writer c d) read_index) = Graph_Cache_Reading_Index_Guard (workspace_key c d)"
    by (simp add: session_defs Let_def)
  ultimately show ?thesis
    using keeps_drop_end[of "Graph_Cache_Reading_Index_Guard (workspace_key c d)"] search_keeps Build_Codemap by (simp add: split_beta)
next
  case (Clear_Workspace d)
  then show ?thesis
    using keeps_whole_run[of c d "drop_guard (Index_Writer_Guard (workspace_key c d))"]
      keeps_drop_end[of "Index_Writer_Guard (workspace_key c d)"]
    by (simp add: split_beta guard_taken)
next
  case Clear_All
  then show ?thesis using keeps_drop_end[of Workspace_Global_Lock_Guard] by (simp add: split_beta keeps_taken guard_taken)
qed (simp_all add: search_keeps sync_keeps index_keeps)

interpretation ws: lock_discipline lock_rank needs "map (session canonicalize) calls" for canonicalize calls
  by unfold_locales (auto intro: session_keeps)

subsection \<open>The module's table\<close>

text \<open>Who is to keep whom out, as the table says: \<open>global\<close> write keeps out everything; on one workspace, writers of the stores
  (indexing runs, clears, maintenance passes, and a refill, which writes the keyword index) go one at a time, so do writers of the
  graph cache, and a reader of the index is kept off what a writer has half done. Different workspaces, and all other pairs, are
  free of each other.\<close>

fun workspace_of :: "lock_work \<Rightarrow> path option" where
  "workspace_of (Reads_Index p) = Some p"
| "workspace_of (Refills_Keyword_Index p) = Some p"
| "workspace_of (Queries_Unlocked p) = Some p"
| "workspace_of (Writes_Graph_Cache p) = Some p"
| "workspace_of (Writes_Graph_Cache_Reading_Index p) = Some p"
| "workspace_of (Writes_Index p) = Some p"
| "workspace_of (Prepares_Write p) = Some p"
| "workspace_of (Publishes p) = Some p"
| "workspace_of (Maintains p) = Some p"
| "workspace_of (Maintains_Beside_Query p) = Some p"
| "workspace_of Whole_Cache = None"

fun reads_index :: "lock_work \<Rightarrow> bool" where
  "reads_index (Reads_Index _) = True"
| "reads_index (Refills_Keyword_Index _) = True"
| "reads_index (Queries_Unlocked _) = True"
| "reads_index (Maintains_Beside_Query _) = True"
| "reads_index (Writes_Graph_Cache_Reading_Index _) = True"
| "reads_index _ = False"

fun keeps_readers_out :: "lock_work \<Rightarrow> bool" where
  "keeps_readers_out (Writes_Index _) = True"
| "keeps_readers_out (Publishes _) = True"
| "keeps_readers_out _ = False"

fun writes_stores :: "lock_work \<Rightarrow> bool" where
  "writes_stores (Writes_Index _) = True"
| "writes_stores (Refills_Keyword_Index _) = True"
| "writes_stores (Prepares_Write _) = True"
| "writes_stores (Publishes _) = True"
| "writes_stores (Maintains _) = True"
| "writes_stores (Maintains_Beside_Query _) = True"
| "writes_stores _ = False"

fun writes_graph_cache :: "lock_work \<Rightarrow> bool" where
  "writes_graph_cache (Writes_Graph_Cache _) = True"
| "writes_graph_cache (Writes_Graph_Cache_Reading_Index _) = True"
| "writes_graph_cache _ = False"

definition may_overlap :: "lock_work \<Rightarrow> lock_work \<Rightarrow> bool" where
  "may_overlap a b \<longleftrightarrow> a \<noteq> Whole_Cache \<and> b \<noteq> Whole_Cache \<and> (workspace_of a = workspace_of b \<longrightarrow>
     \<not> (writes_stores a \<and> writes_stores b) \<and> \<not> (writes_graph_cache a \<and> writes_graph_cache b) \<and>
     \<not> (reads_index a \<and> keeps_readers_out b) \<and> \<not> (keeps_readers_out a \<and> reads_index b))"

text \<open>What the locks leave open. The query of a search that has just built the index, or waited for it to be built, holds no
  lock: a clear, a rebuild or a publish of its workspace, or a clear of the whole cache, may run beside it. A refill holds the read
  locks only: another refill, or a store writer or a pass that keeps no reader out, may run beside it (the keyword index has a
  lock of its own, of Tantivy, which refuses the second writer).\<close>

fun beside_unlocked_query :: "lock_work \<Rightarrow> path \<Rightarrow> bool" where
  "beside_unlocked_query Whole_Cache p = True"
| "beside_unlocked_query b p = (keeps_readers_out b \<and> workspace_of b = Some p)"

fun beside_refill :: "lock_work \<Rightarrow> path \<Rightarrow> bool" where
  "beside_refill b p = (writes_stores b \<and> \<not> keeps_readers_out b \<and> workspace_of b = Some p)"

fun left_open_from :: "lock_work \<Rightarrow> lock_work \<Rightarrow> bool" where
  "left_open_from (Queries_Unlocked p) b = beside_unlocked_query b p"
| "left_open_from (Refills_Keyword_Index p) b = beside_refill b p"
| "left_open_from _ _ = False"

definition left_open :: "lock_work \<Rightarrow> lock_work \<Rightarrow> bool" where
  "left_open a b \<longleftrightarrow> left_open_from a b \<or> left_open_from b a"


lemma left_open_forbidden: "left_open a b \<Longrightarrow> \<not> may_overlap a b"
  by (cases a; cases b) (auto simp: may_overlap_def left_open_def)

text \<open>A task whose lock is free and unasked for takes it at once.\<close>

lemma take_free:
  assumes "ls_prog s t = Acquire l m # rest" "\<not> waiting s t" "ls_queue s l = []" "compatible m (ls_held s l)"
  shows "lock_step\<^sup>*\<^sup>* s (s\<lparr>ls_held := (ls_held s)(l := insert (t, m) (ls_held s l)), ls_prog := (ls_prog s)(t := rest)\<rparr>)"
proof -
  let ?s = "s\<lparr>ls_queue := (ls_queue s)(l := ls_queue s l @ [(t, m)])\<rparr>"
  have "lock_step s ?s" using assms(1,2) by (rule enqueue)
  moreover have "lock_step ?s (?s\<lparr>ls_queue := (ls_queue ?s)(l := []), ls_held := (ls_held ?s)(l := insert (t, m) (ls_held ?s l)),
      ls_prog := (ls_prog ?s)(t := rest)\<rparr>)"
    by (rule grant[where m = m and l = l]) (use assms in simp_all)
  moreover have "(ls_queue ?s)(l := []) = ls_queue s" using assms(3) by auto
  ultimately show ?thesis by simp
qed

lemma waiting_unqueued [simp]: "ls_queue s = (\<lambda>_. []) \<Longrightarrow> \<not> waiting s t"
  by (simp add: waiting_def)

definition search_and_sync :: "lock_session list" where
  "search_and_sync = [Search [''w''] Index_Ready, Sync_Directory [''w''] 1 (Some True)]"


text \<open>The same run one step earlier: the sync prepares, the search has asked for the operation lock.\<close>

definition search_queued :: "(workspace_lock, lock_work) lock_state" where
  "search_queued = \<lparr>
     ls_held = (\<lambda>l. {})(Global_Lock := {(0, Shared), (1, Shared)}, Maintenance [''w''] := {(1, Exclusive)}),
     ls_queue = (\<lambda>_. [])(Operation [''w''] := [(0, Shared)]),
     ls_prog = (\<lambda>_. [])(0 := drop 1 (session Some (search_and_sync ! 0)), 1 := drop 2 (session Some (search_and_sync ! 1)))\<rparr>"

lemmas search_and_sync_eval = search_and_sync_def session_defs workspace_key_def Let_def compatible_def fun_upd_twist

lemma search_queued_reached: "lock_step\<^sup>*\<^sup>* (daemon_start Some search_and_sync) search_queued"
proof -
  let ?prog = "\<lambda>t. session Some (search_and_sync ! t)"
  let ?st = "\<lambda>h p. \<lparr>ls_held = h, ls_queue = (\<lambda>_. []), ls_prog = p\<rparr> :: (workspace_lock, lock_work) lock_state"
  let ?p0 = "(\<lambda>_. [])(0 := ?prog 0, 1 := ?prog 1)"
  let ?h1 = "(\<lambda>l. {})(Global_Lock := {(0, Shared)})"
  let ?p1 = "?p0(0 := drop 1 (?prog 0))"
  let ?h2 = "?h1(Global_Lock := {(0, Shared), (1, Shared)})"
  let ?p2 = "?p1(1 := drop 1 (?prog 1))"
  let ?h3 = "?h2(Maintenance [''w''] := {(1, Exclusive)})"
  let ?p3 = "?p2(1 := drop 2 (?prog 1))"
  have "daemon_start Some search_and_sync = ?st (\<lambda>l. {}) ?p0"
    by (auto simp: daemon_start_def lock_start_def search_and_sync_def fun_eq_iff)
  moreover have "lock_step\<^sup>*\<^sup>* (?st (\<lambda>l. {}) ?p0) (?st ?h1 ?p1)"
    using take_free[of "?st (\<lambda>l. {}) ?p0" 0 Global_Lock Shared "drop 1 (?prog 0)"] by (simp add: search_and_sync_eval)
  moreover have "lock_step\<^sup>*\<^sup>* (?st ?h1 ?p1) (?st ?h2 ?p2)"
    using take_free[of "?st ?h1 ?p1" 1 Global_Lock Shared "drop 1 (?prog 1)"] by (simp add: search_and_sync_eval insert_commute)
  moreover have "lock_step\<^sup>*\<^sup>* (?st ?h2 ?p2) (?st ?h3 ?p3)"
    using take_free[of "?st ?h2 ?p2" 1 "Maintenance [''w'']" Exclusive "drop 2 (?prog 1)"] by (simp add: search_and_sync_eval)
  moreover have "lock_step (?st ?h3 ?p3) search_queued"
    using enqueue[of "?st ?h3 ?p3" 0 "Operation [''w'']" Shared "drop 2 (?prog 0)"]
    by (simp add: search_and_sync_eval search_queued_def)
  ultimately show ?thesis by simp
qed





subsection \<open>What the locks leave open\<close>

text \<open>A task that finds every lock free runs through its actions without waiting.\<close>

fun held_after :: "nat \<Rightarrow> lock_program \<Rightarrow> (workspace_lock \<Rightarrow> (nat \<times> mode) set) \<Rightarrow> workspace_lock \<Rightarrow> (nat \<times> mode) set" where
  "held_after t [] h = h"
| "held_after t (Acquire l m # as) h = held_after t as (h(l := insert (t, m) (h l)))"
| "held_after t (Release l # as) h = held_after t as (h(l := h l - {t} \<times> UNIV))"
| "held_after t (Work w # as) h = held_after t as h"

fun finds_free :: "nat \<Rightarrow> lock_program \<Rightarrow> (workspace_lock \<Rightarrow> (nat \<times> mode) set) \<Rightarrow> bool" where
  "finds_free t [] h = True"
| "finds_free t (Acquire l m # as) h = (compatible m (h l) \<and> finds_free t as (h(l := insert (t, m) (h l))))"
| "finds_free t (Release l # as) h = finds_free t as (h(l := h l - {t} \<times> UNIV))"
| "finds_free t (Work w # as) h = finds_free t as h"

lemma runs_through:
  assumes "ls_queue s = (\<lambda>_. [])" "ls_prog s t = as @ rest" "finds_free t as (ls_held s)"
  shows "lock_step\<^sup>*\<^sup>* s (s\<lparr>ls_held := held_after t as (ls_held s), ls_prog := (ls_prog s)(t := rest)\<rparr>)"
  using assms
proof (induction as arbitrary: s)
  case Nil
  then have "(ls_prog s)(t := rest) = ls_prog s" by auto
  then show ?case by simp
next
  case (Cons a as)
  show ?case
  proof (cases a)
    case (Acquire l m)
    let ?s = "s\<lparr>ls_held := (ls_held s)(l := insert (t, m) (ls_held s l)), ls_prog := (ls_prog s)(t := as @ rest)\<rparr>"
    have "lock_step\<^sup>*\<^sup>* s ?s" by (rule take_free[where m = m and l = l]) (use Cons.prems Acquire in simp_all)
    moreover have "lock_step\<^sup>*\<^sup>* ?s (?s\<lparr>ls_held := held_after t as (ls_held ?s), ls_prog := (ls_prog ?s)(t := rest)\<rparr>)"
      by (rule Cons.IH) (use Cons.prems Acquire in \<open>simp_all add: fun_upd_same del: fun_upd_apply\<close>)
    ultimately show ?thesis unfolding Acquire by (simp del: fun_upd_apply)
  next
    case (Release l)
    let ?s = "s\<lparr>ls_held := (ls_held s)(l := ls_held s l - {t} \<times> UNIV), ls_prog := (ls_prog s)(t := as @ rest)\<rparr>"
    have "lock_step s ?s" by (rule release) (use Cons.prems Release in simp)
    moreover have "lock_step\<^sup>*\<^sup>* ?s (?s\<lparr>ls_held := held_after t as (ls_held ?s), ls_prog := (ls_prog ?s)(t := rest)\<rparr>)"
      by (rule Cons.IH) (use Cons.prems Release in \<open>simp_all add: fun_upd_same del: fun_upd_apply\<close>)
    ultimately show ?thesis unfolding Release by (simp add: converse_rtranclp_into_rtranclp del: fun_upd_apply)
  next
    case (Work w)
    let ?s = "s\<lparr>ls_prog := (ls_prog s)(t := as @ rest)\<rparr>"
    have "lock_step s ?s" by (rule work[where w = w]) (use Cons.prems Work in simp)
    moreover have "lock_step\<^sup>*\<^sup>* ?s (?s\<lparr>ls_held := held_after t as (ls_held ?s), ls_prog := (ls_prog ?s)(t := rest)\<rparr>)"
      by (rule Cons.IH) (use Cons.prems Work in simp_all)
    ultimately show ?thesis unfolding Work by (simp add: converse_rtranclp_into_rtranclp del: fun_upd_apply)
  qed
qed

text \<open>Two calls, one after the other, each as far as the locks are free.\<close>

lemma two_run_through:
  assumes "session c x = as @ rest" "session c y = bs @ rest'" "finds_free 0 as (\<lambda>_. {})"
    "finds_free 1 bs (held_after 0 as (\<lambda>_. {}))"
  shows "\<exists>s. lock_step\<^sup>*\<^sup>* (daemon_start c [x, y]) s \<and> ls_prog s 0 = rest \<and> ls_prog s 1 = rest'"
proof -
  let ?s = "daemon_start c [x, y]"
  let ?s1 = "?s\<lparr>ls_held := held_after 0 as (ls_held ?s), ls_prog := (ls_prog ?s)(0 := rest)\<rparr>"
  let ?s2 = "?s1\<lparr>ls_held := held_after 1 bs (ls_held ?s1), ls_prog := (ls_prog ?s1)(1 := rest')\<rparr>"
  have "lock_step\<^sup>*\<^sup>* ?s ?s1" by (rule runs_through) (use assms in \<open>simp_all add: daemon_start_def lock_start_def\<close>)
  moreover have "lock_step\<^sup>*\<^sup>* ?s1 ?s2" by (rule runs_through) (use assms in \<open>simp_all add: daemon_start_def lock_start_def\<close>)
  ultimately have "lock_step\<^sup>*\<^sup>* ?s ?s2" by (rule rtranclp_trans)
  moreover have "ls_prog ?s2 0 = rest" "ls_prog ?s2 1 = rest'" by simp_all
  ultimately show ?thesis by blast
qed

text \<open>The query of a search that waited for another one's build meets a clear that deletes the index under it.\<close>

theorem unlocked_query_meets_a_clear:
  "\<exists>s rest. lock_step\<^sup>*\<^sup>* (daemon_start Some [Search [''w''] Built_Meanwhile, Clear_Workspace [''w'']]) s \<and>
     ls_prog s 0 = [Work (Queries_Unlocked [''w''])] \<and> ls_prog s 1 = Work (Writes_Index [''w'']) # rest \<and>
     \<not> may_overlap (Queries_Unlocked [''w'']) (Writes_Index [''w''])"
proof -
  let ?x = "Search [''w''] Built_Meanwhile" and ?y = "Clear_Workspace [''w'']"
  have "session Some ?x = take 12 (session Some ?x) @ [Work (Queries_Unlocked [''w''])]"
    "session Some ?y = take 3 (session Some ?y) @ Work (Writes_Index [''w'']) # drop 4 (session Some ?y)"
    "finds_free 0 (take 12 (session Some ?x)) (\<lambda>_. {})"
    "finds_free 1 (take 3 (session Some ?y)) (held_after 0 (take 12 (session Some ?x)) (\<lambda>_. {}))"
    by (simp_all add: session_defs querying_beside_def workspace_key_def Let_def compatible_def)
  from two_run_through[OF this] show ?thesis by (auto simp: may_overlap_def)
qed

text \<open>A refill of the keyword index under a read lock meets a sync that prepares its write.\<close>

theorem refill_meets_a_store_writer:
  "\<exists>s rest rest'. lock_step\<^sup>*\<^sup>* (daemon_start Some [Search [''w''] Index_Refilled, Sync_Directory [''w''] 1 None]) s \<and>
     ls_prog s 0 = Work (Refills_Keyword_Index [''w'']) # rest \<and> ls_prog s 1 = Work (Prepares_Write [''w'']) # rest' \<and>
     \<not> may_overlap (Refills_Keyword_Index [''w'']) (Prepares_Write [''w''])"
proof -
  let ?x = "Search [''w''] Index_Refilled" and ?y = "Sync_Directory [''w''] 1 None"
  have "session Some ?x = take 2 (session Some ?x) @ Work (Refills_Keyword_Index [''w'']) # drop 3 (session Some ?x)"
    "session Some ?y = take 2 (session Some ?y) @ Work (Prepares_Write [''w'']) # drop 3 (session Some ?y)"
    "finds_free 0 (take 2 (session Some ?x)) (\<lambda>_. {})"
    "finds_free 1 (take 2 (session Some ?y)) (held_after 0 (take 2 (session Some ?x)) (\<lambda>_. {}))"
    by (simp_all add: session_defs workspace_key_def Let_def compatible_def)
  from two_run_through[OF this] show ?thesis by (auto simp: may_overlap_def)
qed

subsection \<open>The calls end\<close>

text \<open>C9: No set of concurrent calls deadlocks or runs for ever: a run takes at most two steps for each action of its calls,
  and wherever it stands it can go on until every call is answered and every lock is free again.\<close>

theorem concurrent_calls_finish:
  assumes "(lock_step ^^ k) (daemon_start canonicalize calls) s"
  shows "k \<le> 2 * (\<Sum>call\<leftarrow>calls. length (session canonicalize call)) \<and>
    (\<exists>s'. lock_step\<^sup>*\<^sup>* s s' \<and> (\<forall>t. ls_prog s' t = []) \<and> (\<forall>l. ls_held s' l = {}))"
proof
  let ?progs = "map (session canonicalize) calls"
  show "k \<le> 2 * (\<Sum>call\<leftarrow>calls. length (session canonicalize call))"
    using ws.runs_are_bounded[of k canonicalize calls s] ws.left_start[of canonicalize calls] assms
    by (simp add: daemon_start_def o_def)
  have r: "lock_step\<^sup>*\<^sup>* (lock_start ?progs) s" using assms unfolding daemon_start_def by (rule relpowp_imp_rtranclp)
  then obtain s' where s': "lock_step\<^sup>*\<^sup>* s s'" "\<forall>t. ls_prog s' t = []" using ws.all_runs_finish by blast
  then have "ws.inv canonicalize calls s'" using r by (intro ws.inv_reachable) simp
  then show "\<exists>s'. lock_step\<^sup>*\<^sup>* s s' \<and> (\<forall>t. ls_prog s' t = []) \<and> (\<forall>l. ls_held s' l = {})"
    using s' ws.done_means_free by blast
qed

lemma concurrent_calls_finish_witness:
  "\<exists>s'. lock_step\<^sup>*\<^sup>* (daemon_start Some search_and_sync) s' \<and> (\<forall>t. ls_prog s' t = []) \<and> (\<forall>l. ls_held s' l = {})"
  using concurrent_calls_finish[of 0 Some search_and_sync "daemon_start Some search_and_sync"] by simp

text \<open>C26: A reader does not wait for what runs beside it: when it is the next in line for its workspace's operation lock, and
  no call is publishing to or rewriting that workspace's stores (or just letting a lock go), it gets the lock in the very
  next step, whatever syncs prepare, passes maintain, caches are written and other workspaces are indexed meanwhile.\<close>

theorem background_work_lets_readers_in:
  assumes r: "lock_step\<^sup>*\<^sup>* (daemon_start canonicalize calls) s" and q: "ls_queue s (Operation p) = (t, Shared) # q"
    and work: "\<And>u w rest. ls_prog s u = Work w # rest \<Longrightarrow> \<not> (keeps_readers_out w \<and> workspace_of w = Some p)"
    and no_drop: "\<And>u l rest. ls_prog s u \<noteq> Release l # rest"
  shows "\<exists>s'. lock_step s s' \<and> (t, Shared) \<in> ls_held s' (Operation p)"
proof -
  have i: "ws.inv canonicalize calls s" using r unfolding daemon_start_def by (rule ws.inv_reachable)
  have "m = Shared" if h: "(u, m) \<in> ls_held s (Operation p)" for u m
  proof -
    have "lock_rank k \<le> lock_rank (Operation p)" for k by (cases k) simp_all
    then obtain w rest where w: "ls_prog s u = Work w # rest" "(Operation p, m) \<in> needs w"
      using ws.top_lock_holder[OF i h _ no_drop] by blast
    then show ?thesis using work[OF w(1)] by (cases w) auto
  qed
  then have "compatible Shared (ls_held s (Operation p))" by (auto simp: compatible_def)
  moreover obtain rest where "ls_prog s t = Acquire (Operation p) Shared # rest"
    using i q unfolding ws.inv_def by (metis list.set_intros(1))
  ultimately show ?thesis using grant[OF q] by fastforce
qed

lemma background_work_lets_readers_in_witness:
  "\<exists>s'. lock_step search_queued s' \<and> (0, Shared) \<in> ls_held s' (Operation [''w''])"
proof (rule background_work_lets_readers_in[OF search_queued_reached])
  show "ls_queue search_queued (Operation [''w'']) = [(0, Shared)]" by (simp add: search_queued_def)
qed (auto simp: search_queued_def search_and_sync_eval split: if_splits)

end
