(* ===== verification/Similarity_Clusters.thy ===== *)
theory Similarity_Clusters
  imports Graph_Model Floats "HOL-Library.Product_Lexorder"
begin

text \<open>
  Clusters of similar items (rmc-graph: \<open>build_clusters\<close> and \<open>page_clusters_by_member_limit\<close> of graph/query/similarity.rs): the
  items of the scored pairs are numbered, united by union-find with path halving, grouped by their root, summarised and sorted.
  The clusters are the connected components of the pairs.

  Scores are finite \<open>f32\<close> numbers (\<open>Floats\<close>). An index that is out of bounds, and a loop that does not end, are \<open>None\<close>; neither
  happens. The iteration order of a \<open>HashMap\<close> is the order of its association list, which decides between clusters that compare equal.
\<close>

subsection \<open>Numbering the items\<close>

type_synonym scored_pair = "node_id \<times> node_id \<times> rat"

definition note_node :: "node_id \<Rightarrow> node_id list \<times> (node_id \<times> nat) list \<Rightarrow> node_id list \<times> (node_id \<times> nat) list" where
  "note_node a s = (case s of (nodes, seen) \<Rightarrow>
     if map_of seen a = None then (nodes @ [a], (a, length nodes) # seen) else (nodes, seen))"

definition number_nodes :: "scored_pair list \<Rightarrow> node_id list \<times> (node_id \<times> nat) list" where
  "number_nodes edges = fold (\<lambda>(a, b, _) s. note_node b (note_node a s)) edges ([], [])"

subsection \<open>Union-find\<close>

text \<open>\<open>find\<close>: the root of \<open>x\<close>, with every node on the way moved to its grandparent.\<close>

partial_function (option) find_root :: "nat list \<Rightarrow> nat \<Rightarrow> (nat \<times> nat list) option" where
  "find_root parent x =
     (if x \<ge> length parent then None
      else if parent ! x = x then Some (x, parent)
      else if parent ! x \<ge> length parent then None
      else let parent' = parent[x := parent ! (parent ! x)] in find_root parent' (parent' ! x))"

declare find_root.simps [code]

fun unite :: "(node_id \<times> nat) list \<Rightarrow> scored_pair list \<Rightarrow> nat list \<Rightarrow> nat list option" where
  "unite seen [] parent = Some parent"
| "unite seen ((a, b, _) # edges) parent =
     Option.bind (map_of seen a) (\<lambda>i. Option.bind (find_root parent i) (\<lambda>(ra, parent1).
     Option.bind (map_of seen b) (\<lambda>j. Option.bind (find_root parent1 j) (\<lambda>(rb, parent2).
       unite seen edges (if ra \<noteq> rb then parent2[ra := rb] else parent2)))))"

fun group_by_root :: "nat list \<Rightarrow> nat list \<Rightarrow> (nat \<times> nat list) list \<Rightarrow> (nat \<times> nat list) list option" where
  "group_by_root [] parent groups = Some groups"
| "group_by_root (i # rest) parent groups =
     Option.bind (find_root parent i) (\<lambda>(root_i, parent1).
       group_by_root rest parent1 (AList.map_default root_i [i] (\<lambda>g. g @ [i]) groups))"

subsection \<open>Clusters\<close>

record 'i cluster =
  cl_members :: "'i list"
  cl_avg_similarity :: rat
  cl_min_similarity :: rat
  cl_size :: nat
  cl_truncated :: bool

definition group_scores :: "(node_id \<times> nat) list \<Rightarrow> scored_pair list \<Rightarrow> nat list \<Rightarrow> rat list" where
  "group_scores seen edges members =
     map (\<lambda>(_, _, score). score)
       (filter (\<lambda>(a, b, _). (\<exists>i \<in> set members. map_of seen a = Some i) \<and> (\<exists>j \<in> set members. map_of seen b = Some j)) edges)"

definition f32_sum :: "rat list \<Rightarrow> rat" where
  "f32_sum scores = foldl f32_add 0 scores"

definition min_score :: "rat list \<Rightarrow> rat" where
  "min_score scores = foldl (\<lambda>m s. if s < m then s else m) (hd scores) (tl scores)"

definition make_cluster ::
  "scored_pair list \<Rightarrow> nat \<Rightarrow> (node_id \<Rightarrow> 'i option) \<Rightarrow> node_id list \<Rightarrow> (node_id \<times> nat) list \<Rightarrow> nat list \<Rightarrow> 'i cluster option" where
  "make_cluster edges max_members lookup nodes seen members =
     (if length members < 2 then None
      else let scores = group_scores seen edges members in
        if scores = [] then None
        else Some \<lparr>cl_members = List.map_filter (\<lambda>i. lookup (nodes ! i)) (take (min max_members (length members)) members),
                   cl_avg_similarity = f32_div (f32_sum scores) (f32_round (of_nat (length scores))),
                   cl_min_similarity = min_score scores,
                   cl_size = length members, cl_truncated = (length members > max_members)\<rparr>)"

definition build_clusters ::
  "scored_pair list \<Rightarrow> nat \<Rightarrow> (node_id \<Rightarrow> 'i option) \<Rightarrow> 'i cluster list option" where
  "build_clusters edges max_members lookup =
     (case number_nodes edges of (nodes, seen) \<Rightarrow>
        if length nodes = 0 then Some []
        else Option.bind (unite seen edges [0..<length nodes]) (\<lambda>parent.
             Option.bind (group_by_root [0..<length nodes] parent []) (\<lambda>groups.
               Some (sort_key (\<lambda>c. (- cl_avg_similarity c, - int (cl_size c), - cl_min_similarity c))
                 (List.map_filter (\<lambda>(_, members). make_cluster edges max_members lookup nodes seen members) groups)))))"

text \<open>Paging counts members: a cluster that exceeds what is left of the limit is cut, and ends the page.\<close>

fun page_loop :: "nat \<Rightarrow> 'i cluster list \<Rightarrow> 'i cluster list" where
  "page_loop remaining [] = []"
| "page_loop remaining (c # cs) =
     (if remaining = 0 then []
      else if length (cl_members c) > remaining
      then [c\<lparr>cl_members := take remaining (cl_members c), cl_truncated := True\<rparr>]
      else c # page_loop (remaining - length (cl_members c)) cs)"

definition page_clusters_by_member_limit :: "'i cluster list \<Rightarrow> nat \<Rightarrow> nat \<Rightarrow> 'i cluster list" where
  "page_clusters_by_member_limit clusters offset member_limit = page_loop member_limit (drop offset clusters)"

subsection \<open>Union-find keeps a forest\<close>

text \<open>\<open>r\<close> gives the root of every node; \<open>h\<close>, which decreases along the parents, keeps the forest free of cycles.\<close>

definition forest :: "nat list \<Rightarrow> (nat \<Rightarrow> nat) \<Rightarrow> bool" where
  "forest p r \<longleftrightarrow>
     (\<exists>h :: nat \<Rightarrow> nat. \<forall>i < length p. p ! i < length p \<and> (p ! i \<noteq> i \<longrightarrow> h (p ! i) < h i)) \<and>
     (\<forall>i < length p. r i < length p \<and> r (r i) = r i \<and> r (p ! i) = r i \<and> (p ! i = i \<longleftrightarrow> r i = i))"

lemma forestD:
  assumes "forest p r"
  shows "\<exists>h :: nat \<Rightarrow> nat. \<forall>i < length p. p ! i < length p \<and> (p ! i \<noteq> i \<longrightarrow> h (p ! i) < h i)"
    "\<forall>i < length p. r i < length p \<and> r (r i) = r i \<and> r (p ! i) = r i \<and> (p ! i = i \<longleftrightarrow> r i = i)"
  using assms unfolding forest_def by blast+

lemma forest_initial: "forest [0..<n] id"
  by (simp add: forest_def)

lemma halve_forest:
  assumes "forest p r" "x < length p" "p ! x \<noteq> x"
  shows "forest (p[x := p ! (p ! x)]) r"
proof -
  from forestD(1)[OF assms(1)] obtain h :: "nat \<Rightarrow> nat"
    where h': "\<forall>i < length p. p ! i < length p \<and> (p ! i \<noteq> i \<longrightarrow> h (p ! i) < h i)" ..
  note h = h'[rule_format]
  have r: "r i < length p" "r (r i) = r i" "r (p ! i) = r i" "p ! i = i \<longleftrightarrow> r i = i" if "i < length p" for i
    using forestD(2)[OF assms(1)] that by blast+
  have px: "p ! x < length p" "p ! (p ! x) < length p" using h assms(2) by blast+
  have "h (p ! (p ! x)) < h x" using h[OF px(1)] h[OF assms(2)] assms(3) by (metis less_trans)
  then have "p ! (p ! x) \<noteq> x" by auto
  have "\<forall>i < length p. p[x := p ! (p ! x)] ! i < length p \<and>
      (p[x := p ! (p ! x)] ! i \<noteq> i \<longrightarrow> h (p[x := p ! (p ! x)] ! i) < h i)"
    using h' px(2) \<open>h (p ! (p ! x)) < h x\<close> assms(2) by (auto simp: nth_list_update)
  moreover have "\<forall>i < length p. r i < length p \<and> r (r i) = r i \<and> r (p[x := p ! (p ! x)] ! i) = r i \<and> (p[x := p ! (p ! x)] ! i = i \<longleftrightarrow> r i = i)"
    using r px(1) assms(2,3) \<open>p ! (p ! x) \<noteq> x\<close> by (simp add: nth_list_update)
  ultimately show ?thesis unfolding forest_def length_list_update by blast
qed

lemma find_root_spec:
  assumes "forest p r" "x < length p"
  shows "\<exists>p'. find_root p x = Some (r x, p') \<and> forest p' r \<and> length p' = length p"
proof -
  have "\<exists>p'. find_root p x = Some (r x, p') \<and> forest p' r \<and> length p' = length p"
    if "\<And>i. i < length p \<Longrightarrow> p ! i < length p \<and> (p ! i \<noteq> i \<longrightarrow> h (p ! i) < h i)" "forest p r" "x < length p"
    for h :: "nat \<Rightarrow> nat"
    using that
  proof (induction "h x" arbitrary: p x rule: less_induct)
    case less
    have r: "r (p ! i) = r i" "p ! i = i \<longleftrightarrow> r i = i" if "i < length p" for i
      using forestD(2)[OF less.prems(2)] that by blast+
    show ?case
    proof (cases "p ! x = x")
      case True
      then show ?thesis using r(2)[OF less.prems(3)] less.prems by (subst find_root.simps) auto
    next
      case False
      let ?p = "p[x := p ! (p ! x)]"
      have px: "p ! x < length p" "p ! (p ! x) < length p" using less.prems(1,3) by blast+
      have down: "h (p ! (p ! x)) < h x" using less.prems(1)[OF px(1)] less.prems(1)[OF less.prems(3)] False by (metis less_trans)
      have "?p ! i < length ?p \<and> (?p ! i \<noteq> i \<longrightarrow> h (?p ! i) < h i)" if "i < length ?p" for i
        using less.prems(1)[of i] less.prems(3) that px(2) down by (cases "i = x") auto
      then obtain p' where p': "find_root ?p (p ! (p ! x)) = Some (r (p ! (p ! x)), p')" "forest p' r" "length p' = length p"
        using less.hyps[OF down, of ?p] halve_forest[OF less.prems(2,3) False] px(2) by auto
      have "find_root p x = find_root ?p (p ! (p ! x))"
        using False less.prems(3) px(1) by (subst find_root.simps) (simp add: Let_def)
      moreover have "r (p ! (p ! x)) = r x" using r(1)[OF px(1)] r(1)[OF less.prems(3)] by simp
      ultimately show ?thesis using p' by simp
    qed
  qed
  note found = this
  from forestD(1)[OF assms(1)] obtain h :: "nat \<Rightarrow> nat"
    where h: "\<forall>i < length p. p ! i < length p \<and> (p ! i \<noteq> i \<longrightarrow> h (p ! i) < h i)" ..
  show ?thesis by (rule found[OF h[rule_format] assms])
qed

lemma union_forest:
  assumes "forest p r" "ra < length p" "rb < length p" "r ra = ra" "r rb = rb" "ra \<noteq> rb"
  shows "forest (p[ra := rb]) (\<lambda>i. if r i = ra then rb else r i)"
proof -
  from forestD(1)[OF assms(1)] obtain h :: "nat \<Rightarrow> nat"
    where h': "\<forall>i < length p. p ! i < length p \<and> (p ! i \<noteq> i \<longrightarrow> h (p ! i) < h i)" ..
  note h = h'[rule_format]
  have r: "r i < length p" "r (r i) = r i" "r (p ! i) = r i" "p ! i = i \<longleftrightarrow> r i = i" if "i < length p" for i
    using forestD(2)[OF assms(1)] that by blast+
  let ?h = "\<lambda>i. if r i = ra then h i + h rb + 1 else h i" and ?r = "\<lambda>i. if r i = ra then rb else r i"
  let ?p = "p[ra := rb]"
  have "\<forall>i < length p. ?p ! i < length p \<and> (?p ! i \<noteq> i \<longrightarrow> ?h (?p ! i) < ?h i)"
    using h' r(3) assms by (auto simp: nth_list_update)
  moreover have "\<forall>i < length p. ?r i < length p \<and> ?r (?r i) = ?r i \<and> ?r (?p ! i) = ?r i \<and> (?p ! i = i \<longleftrightarrow> ?r i = i)"
    using r assms by (auto simp: nth_list_update)
  ultimately show ?thesis unfolding forest_def length_list_update by (intro conjI exI[of _ ?h])
qed

subsection \<open>Numbers stand for items\<close>

definition numbered :: "node_id list \<times> (node_id \<times> nat) list \<Rightarrow> bool" where
  "numbered s \<longleftrightarrow> distinct (fst s) \<and> (\<forall>a k. map_of (snd s) a = Some k \<longleftrightarrow> k < length (fst s) \<and> fst s ! k = a)"

definition items :: "scored_pair list \<Rightarrow> node_id set" where
  "items edges = (\<Union>(a, b, s) \<in> set edges. {a, b})"

lemma note_node_numbered:
  assumes "numbered s"
  shows "numbered (note_node a s) \<and> set (fst (note_node a s)) = insert a (set (fst s))"
proof -
  obtain nodes seen where s: "s = (nodes, seen)" by (cases s)
  have lookup: "map_of seen b = Some k \<longleftrightarrow> k < length nodes \<and> nodes ! k = b" for b k using assms by (simp add: numbered_def s)
  show ?thesis
  proof (cases "map_of seen a")
    case None
    then have "a \<notin> set nodes" using lookup[of a] by (auto simp: in_set_conv_nth)
    then show ?thesis using None assms lookup by (auto simp: note_node_def s numbered_def nth_append less_Suc_eq)
  next
    case (Some k)
    then have "a \<in> set nodes" using lookup[of a k] by auto
    then show ?thesis using Some assms by (auto simp: note_node_def s)
  qed
qed

lemma number_nodes_numbered: "numbered (number_nodes edges)" "set (fst (number_nodes edges)) = items edges"
proof -
  have "numbered s \<Longrightarrow> numbered (fold (\<lambda>(a, b, _) s. note_node b (note_node a s)) edges s) \<and>
      set (fst (fold (\<lambda>(a, b, _) s. note_node b (note_node a s)) edges s)) = set (fst s) \<union> items edges" for s
  proof (induction edges arbitrary: s)
    case (Cons e edges)
    obtain a b w where e: "e = (a, b, w)" by (metis prod.exhaust)
    have "numbered (note_node b (note_node a s))" "set (fst (note_node b (note_node a s))) = {a, b} \<union> set (fst s)"
      using note_node_numbered[OF Cons.prems, of a] note_node_numbered[of "note_node a s" b] by auto
    then show ?case using Cons.IH[of "note_node b (note_node a s)"] by (auto simp: e items_def)
  qed (simp add: items_def)
  from this[of "([], [])"] show "numbered (number_nodes edges)" "set (fst (number_nodes edges)) = items edges"
    by (simp_all add: number_nodes_def numbered_def)
qed

subsection \<open>Linked items\<close>

definition pairs :: "scored_pair list \<Rightarrow> (node_id \<times> node_id) set" where
  "pairs edges = {(a, b). \<exists>s. (a, b, s) \<in> set edges}"

definition linked :: "scored_pair list \<Rightarrow> node_id \<Rightarrow> node_id \<Rightarrow> bool" where
  "linked edges a b \<longleftrightarrow> (a, b) \<in> (pairs edges \<union> (pairs edges)\<inverse>)\<^sup>*"

lemma linked_refl [simp]: "linked edges a a"
  by (simp add: linked_def)

lemma linked_trans: "linked edges a b \<Longrightarrow> linked edges b c \<Longrightarrow> linked edges a c"
  unfolding linked_def by (rule rtrancl_trans)

lemma linked_sym: "linked edges a b \<Longrightarrow> linked edges b a"
  unfolding linked_def by (metis converse_Un converse_converse rtrancl_converseI sup_commute)

lemma linked_pair: "(a, b, s) \<in> set edges \<Longrightarrow> linked edges a b"
  unfolding linked_def pairs_def by blast

lemma linked_mono: "set edges \<subseteq> set edges' \<Longrightarrow> linked edges a b \<Longrightarrow> linked edges' a b"
  unfolding linked_def by (erule rtrancl_mono[THEN subsetD, rotated]) (auto simp: pairs_def)

lemma linked_snoc:
  "linked (edges @ [(a, b, s)]) x y \<longleftrightarrow>
     linked edges x y \<or> linked edges x a \<and> linked edges b y \<or> linked edges x b \<and> linked edges a y" (is "?L \<longleftrightarrow> ?R y")
proof
  assume ?L
  then have "(x, y) \<in> (pairs (edges @ [(a, b, s)]) \<union> (pairs (edges @ [(a, b, s)]))\<inverse>)\<^sup>*" by (simp add: linked_def)
  then show "?R y"
  proof (induction rule: rtrancl_induct)
    case (step y z)
    from step(2) consider "linked edges y z" | "y = a" "z = b" | "y = b" "z = a"
      by (auto simp: pairs_def intro: linked_pair linked_sym)
    then show ?case using step(3) by cases (blast intro: linked_trans linked_refl)+
  qed simp
next
  have old: "linked edges c d \<Longrightarrow> linked (edges @ [(a, b, s)]) c d" for c d by (rule linked_mono) auto
  have new: "linked (edges @ [(a, b, s)]) a b" by (rule linked_pair[of _ _ s]) simp
  assume "?R y"
  then show ?L using old new linked_sym[OF new] by (blast intro: linked_trans)
qed

subsection \<open>The roots are the classes of linked items\<close>

lemma unite_spec:
  assumes "numbered (nodes, seen)" "items edges \<subseteq> set nodes" "forest p r" "length p = length nodes"
    "\<forall>i < length nodes. \<forall>j < length nodes. r i = r j \<longleftrightarrow> linked done (nodes ! i) (nodes ! j)"
  shows "\<exists>p' r'. unite seen edges p = Some p' \<and> forest p' r' \<and> length p' = length nodes \<and>
    (\<forall>i < length nodes. \<forall>j < length nodes. r' i = r' j \<longleftrightarrow> linked (done @ edges) (nodes ! i) (nodes ! j))"
  using assms(2-)
proof (induction edges arbitrary: p r "done")
  case (Cons e edges)
  obtain a b s where e: "e = (a, b, s)" by (metis prod.exhaust)
  have "a \<in> set nodes" "b \<in> set nodes" using Cons.prems(1) by (auto simp: e items_def)
  then obtain i j where i: "i < length nodes" "nodes ! i = a" "j < length nodes" "nodes ! j = b"
    by (auto simp: in_set_conv_nth)
  then have seen: "map_of seen a = Some i" "map_of seen b = Some j" using assms(1) by (auto simp: numbered_def)
  obtain p1 where p1: "find_root p i = Some (r i, p1)" "forest p1 r" "length p1 = length nodes"
    using find_root_spec[OF Cons.prems(2), of i] i(1) Cons.prems(3) by auto
  obtain p2 where p2: "find_root p1 j = Some (r j, p2)" "forest p2 r" "length p2 = length nodes"
    using find_root_spec[OF p1(2), of j] i(3) p1(3) by auto
  have roots: "r i < length p2" "r j < length p2" "r (r i) = r i" "r (r j) = r j"
    using forestD(2)[OF p2(2)] i p2(3) by simp_all
  let ?p = "if r i \<noteq> r j then p2[r i := r j] else p2" and ?r = "\<lambda>x. if r x = r i then r j else r x"
  have "forest ?p ?r"
  proof (cases "r i = r j")
    case True
    then have "?r = r" by auto
    then show ?thesis using p2(2) True by simp
  qed (use union_forest[OF p2(2) roots] in simp)
  moreover have "length ?p = length nodes" by (simp add: p2(3))
  moreover have "\<forall>x < length nodes. \<forall>y < length nodes. ?r x = ?r y \<longleftrightarrow> linked (done @ [(a, b, s)]) (nodes ! x) (nodes ! y)"
  proof (intro allI impI)
    fix x y assume x: "x < length nodes" "y < length nodes"
    have "?r x = ?r y \<longleftrightarrow> r x = r y \<or> r x = r i \<and> r j = r y \<or> r x = r j \<and> r i = r y" by auto
    also have "\<dots> \<longleftrightarrow> linked (done @ [(a, b, s)]) (nodes ! x) (nodes ! y)"
      using Cons.prems(4) x i unfolding linked_snoc by auto
    finally show "?r x = ?r y \<longleftrightarrow> linked (done @ [(a, b, s)]) (nodes ! x) (nodes ! y)" .
  qed
  moreover have "items edges \<subseteq> set nodes" using Cons.prems(1) by (auto simp: items_def)
  ultimately obtain p' r' where "unite seen edges ?p = Some p'" "forest p' r'" "length p' = length nodes"
    "\<forall>x < length nodes. \<forall>y < length nodes. r' x = r' y \<longleftrightarrow> linked ((done @ [(a, b, s)]) @ edges) (nodes ! x) (nodes ! y)"
    using Cons.IH[of ?p ?r "done @ [(a, b, s)]"] by blast
  then show ?case using seen p1(1) p2(1) by (auto simp: e)
qed auto

subsection \<open>Groups\<close>

definition grouped :: "(nat \<Rightarrow> nat) \<Rightarrow> nat list \<Rightarrow> (nat \<times> nat list) list" where
  "grouped r is = fold (\<lambda>i. AList.map_default (r i) [i] (\<lambda>g. g @ [i])) is []"

lemma grouped_spec:
  "distinct (keys (grouped r is)) \<and>
   (\<forall>k. map_of (grouped r is) k = (if k \<in> r ` set is then Some (filter (\<lambda>i. r i = k) is) else None))"
proof (induction "is" rule: rev_induct)
  case (snoc i "is")
  have e: "grouped r (is @ [i]) = AList.map_default (r i) [i] (\<lambda>g. g @ [i]) (grouped r is)" by (simp add: grouped_def)
  have "filter (\<lambda>j. r j = r i) is = []" if "r i \<notin> r ` set is"
    using that by (auto simp: filter_empty_conv) (metis image_eqI)
  then show ?case using snoc unfolding e map_of_map_default by (auto simp: distinct_keys_map_default)
qed (simp add: grouped_def)

lemma group_by_root_spec:
  assumes "forest p r" "set is \<subseteq> {..<length p}"
  shows "group_by_root is p groups = Some (fold (\<lambda>i. AList.map_default (r i) [i] (\<lambda>g. g @ [i])) is groups)"
  using assms
proof (induction "is" arbitrary: p groups)
  case (Cons i "is")
  obtain p1 where "find_root p i = Some (r i, p1)" "forest p1 r" "length p1 = length p"
    using find_root_spec[OF Cons.prems(1), of i] Cons.prems(2) by auto
  then show ?case using Cons.IH[of p1] Cons.prems(2) by simp
qed simp

text \<open>The lists of the groups are the classes of the root function, each in the order of the numbers.\<close>

lemma grouped_entries:
  "distinct (keys (grouped r is))" "set (keys (grouped r is)) = r ` set is"
  "(x, l) \<in> set (grouped r is) \<Longrightarrow> l = filter (\<lambda>i. r i = x) is"
proof -
  have d: "distinct (keys (grouped r is))"
    and m: "\<And>k. map_of (grouped r is) k = (if k \<in> r ` set is then Some (filter (\<lambda>i. r i = k) is) else None)"
    using grouped_spec[of r "is"] by auto
  show "distinct (keys (grouped r is))" by (rule d)
  have "set (keys (grouped r is)) = dom (map_of (grouped r is))" by (simp add: dom_map_of_conv_image_fst)
  also have "\<dots> = r ` set is" using m by (auto simp: dom_def split: if_splits)
  finally show "set (keys (grouped r is)) = r ` set is" .
  show "(x, l) \<in> set (grouped r is) \<Longrightarrow> l = filter (\<lambda>i. r i = x) is"
    using m[of x] map_of_is_SomeI[OF d, of x l] by (auto split: if_splits)
qed

subsection \<open>Clusters are components\<close>

definition components :: "scored_pair list \<Rightarrow> node_id set set" where
  "components edges = {{b. linked edges a b} | a. a \<in> items edges}"

definition scores_within :: "scored_pair list \<Rightarrow> node_id set \<Rightarrow> rat list" where
  "scores_within edges C = map (\<lambda>(_, _, s). s) (filter (\<lambda>(a, b, _). a \<in> C \<and> b \<in> C) edges)"

text \<open>What is said of a component, given the order of its members.\<close>

definition summary_of :: "scored_pair list \<Rightarrow> nat \<Rightarrow> (node_id \<Rightarrow> 'i option) \<Rightarrow> node_id list \<Rightarrow> 'i cluster" where
  "summary_of edges max_members lookup part =
     (let scores = scores_within edges (set part) in
      \<lparr>cl_members = List.map_filter lookup (take max_members part),
       cl_avg_similarity = f32_div (foldl f32_add 0 scores) (f32_round (of_nat (length scores))),
       cl_min_similarity = Min (set scores), cl_size = length part, cl_truncated = (max_members < length part)\<rparr>)"

lemma min_score_Min: "scores \<noteq> [] \<Longrightarrow> min_score scores = Min (set scores)"
proof -
  have "foldl (\<lambda>m s. if s < m then s else m) m ss = Min (insert m (set ss))" for m and ss :: "rat list"
  proof (induction ss arbitrary: m)
    case (Cons s ss)
    have "Min (insert m (set (s # ss))) = Min (insert (min m s) (set ss))"
      by (cases "ss = []") (simp_all add: Min_insert min.assoc)
    then show ?case using Cons by (auto simp: min_def)
  qed simp
  then show "scores \<noteq> [] \<Longrightarrow> min_score scores = Min (set scores)" by (cases scores) (simp_all add: min_score_def)
qed

lemma linked_in_items: "linked edges a b \<Longrightarrow> a \<in> items edges \<Longrightarrow> b \<in> items edges"
  unfolding linked_def by (induction rule: rtrancl_induct) (auto simp: pairs_def items_def)

lemma scores_of_component:
  assumes "linked edges a b" "a \<noteq> b" "{c. linked edges a c} \<subseteq> C"
  shows "scores_within edges C \<noteq> []"
proof -
  obtain c where "(a, c) \<in> pairs edges \<union> (pairs edges)\<inverse>" using assms(1,2) unfolding linked_def by (meson converse_rtranclE)
  then obtain x y s where e: "(x, y, s) \<in> set edges" "(x, y) = (a, c) \<or> (x, y) = (c, a)" by (auto simp: pairs_def)
  then have "linked edges a c" using linked_pair linked_sym by blast
  then have "x \<in> C" "y \<in> C" using e(2) assms(3) by auto
  then show ?thesis using e(1) by (auto simp: scores_within_def filter_empty_conv)
qed

lemma make_cluster_summary:
  assumes "numbered (nodes, seen)" "set members \<subseteq> {..<length nodes}"
    "2 \<le> length members \<Longrightarrow> scores_within edges (set (map ((!) nodes) members)) \<noteq> []"
  shows "make_cluster edges max_members lookup nodes seen members =
    (if 2 \<le> length members then Some (summary_of edges max_members lookup (map ((!) nodes) members)) else None)"
proof -
  have "(\<exists>i \<in> set members. map_of seen a = Some i) \<longleftrightarrow> a \<in> set (map ((!) nodes) members)" for a
    using assms(1,2) by (auto simp: numbered_def)
  then have scores: "group_scores seen edges members = scores_within edges (set (map ((!) nodes) members))"
    unfolding group_scores_def scores_within_def by simp
  have "List.map_filter (\<lambda>i. lookup (nodes ! i)) xs = List.map_filter lookup (map ((!) nodes) xs)" for xs
    by (simp add: map_filter_def filter_map comp_def)
  then show ?thesis
    using assms(3) unfolding make_cluster_def scores
    by (auto simp: summary_of_def Let_def f32_sum_def min_score_Min take_map min_def)
qed

lemma map_filter_Some: "List.map_filter (\<lambda>x. if P x then Some (g x) else None) xs = map g (filter P xs)"
  by (induction xs) (simp_all add: map_filter_simps)

lemma build_clusters_parts:
  obtains r where "\<forall>i < length (fst (number_nodes edges)). \<forall>j < length (fst (number_nodes edges)).
      r i = r j \<longleftrightarrow> linked edges (fst (number_nodes edges) ! i) (fst (number_nodes edges) ! j)"
    "build_clusters edges k lookup = Some (sort_key (\<lambda>c. (- cl_avg_similarity c, - int (cl_size c), - cl_min_similarity c))
      (map (summary_of edges k lookup)
        (filter (\<lambda>part. 2 \<le> length part)
          (map (\<lambda>(_, is). map ((!) (fst (number_nodes edges))) is) (grouped r [0..<length (fst (number_nodes edges))])))))"
proof -
  obtain nodes seen where n: "number_nodes edges = (nodes, seen)" by (cases "number_nodes edges")
  have num: "numbered (nodes, seen)" "set nodes = items edges" using number_nodes_numbered[of edges] by (simp_all add: n)
  have dist: "distinct nodes" using num(1) by (simp add: numbered_def)
  have "\<forall>i < length nodes. \<forall>j < length nodes. id i = id j \<longleftrightarrow> linked [] (nodes ! i) (nodes ! j)"
    using dist by (simp add: linked_def pairs_def nth_eq_iff_index_eq)
  then obtain p r where p: "unite seen edges [0..<length nodes] = Some p" "forest p r" "length p = length nodes"
    and r: "\<forall>i < length nodes. \<forall>j < length nodes. r i = r j \<longleftrightarrow> linked edges (nodes ! i) (nodes ! j)"
    using unite_spec[OF num(1) _ forest_initial, of edges "length nodes" "[]"] num(2) by auto
  let ?groups = "grouped r [0..<length nodes]"
  have groups: "group_by_root [0..<length nodes] p [] = Some ?groups"
    using group_by_root_spec[OF p(2), of "[0..<length nodes]"] p(3) by (simp add: grouped_def lessThan_atLeast0)
  have part: "make_cluster edges k lookup nodes seen is =
      (if 2 \<le> length is then Some (summary_of edges k lookup (map ((!) nodes) is)) else None)"
    if "(x, is) \<in> set ?groups" for x "is"
  proof (rule make_cluster_summary[OF num(1)])
    have "is = filter (\<lambda>i. r i = x) [0..<length nodes]"
      by (rule grouped_entries(3)[OF that])
    note mem = this
    show "set is \<subseteq> {..<length nodes}" unfolding mem by auto
    assume "2 \<le> length is"
    moreover have "distinct is" unfolding mem by simp
    ultimately obtain i j where ij: "i \<in> set is" "j \<in> set is" "i \<noteq> j"
      by (cases "is"; cases "tl is") auto
    then have b: "i < length nodes" "j < length nodes" "r i = x" "r j = x" unfolding mem by auto
    show "scores_within edges (set (map ((!) nodes) is)) \<noteq> []"
    proof (rule scores_of_component[of edges "nodes ! i" "nodes ! j"])
      show "linked edges (nodes ! i) (nodes ! j)" using r[rule_format, OF b(1,2)] b(3,4) by simp
      show "nodes ! i \<noteq> nodes ! j" using ij(3) b dist by (simp add: nth_eq_iff_index_eq)
      show "{c. linked edges (nodes ! i) c} \<subseteq> set (map ((!) nodes) is)"
      proof
        fix c assume "c \<in> {c. linked edges (nodes ! i) c}"
        then have c: "linked edges (nodes ! i) c" by simp
        then have "c \<in> set nodes" using linked_in_items[OF c] num(2) nth_mem[OF b(1)] by simp
        then obtain m where m: "m < length nodes" "c = nodes ! m" by (auto simp: in_set_conv_nth)
        then have "r m = x" using r b c by metis
        then show "c \<in> set (map ((!) nodes) is)" using m unfolding mem by auto
      qed
    qed
  qed
  have "List.map_filter (\<lambda>(_, is). make_cluster edges k lookup nodes seen is) ?groups =
      List.map_filter (\<lambda>part. if 2 \<le> length part then Some (summary_of edges k lookup part) else None)
        (map (\<lambda>(_, is). map ((!) nodes) is) ?groups)"
    using part by (auto simp: map_filter_def filter_map comp_def split_beta intro!: map_cong filter_cong split: if_splits)
  then have "build_clusters edges k lookup = Some (sort_key (\<lambda>c. (- cl_avg_similarity c, - int (cl_size c), - cl_min_similarity c))
      (map (summary_of edges k lookup) (filter (\<lambda>part. 2 \<le> length part) (map (\<lambda>(_, is). map ((!) nodes) is) ?groups))))"
    using p(1) groups by (simp add: build_clusters_def n map_filter_Some grouped_def)
  then show ?thesis using that[of r] r by (simp add: n)
qed

lemma distinct_image_filter:
  "distinct nodes \<Longrightarrow> is = filter P [0..<length nodes] \<Longrightarrow> distinct (map ((!) nodes) is)"
  by (auto simp: distinct_map inj_on_def nth_eq_iff_index_eq)

lemma big_parts:
  "\<forall>part \<in> set ps. distinct part \<Longrightarrow>
     set (map set (filter (\<lambda>part. 2 \<le> length part) ps)) = {C \<in> set ` set ps. 2 \<le> card C}"
  by (auto simp: distinct_card)

text \<open>C38: Building the clusters always ends, and the clusters are the connected components of the scored pairs that have at least two
  items: each component once, with its number of items, the members found for the first of them, the smallest score and the average
  score of the pairs inside; sorted by average score, size and smallest score, the largest first.\<close>

theorem clusters_are_components:
  "\<exists>cs parts. build_clusters edges k lookup = Some cs \<and> mset cs = image_mset (summary_of edges k lookup) (mset parts) \<and>
    distinct (map set parts) \<and> set (map set parts) = {C \<in> components edges. 2 \<le> card C} \<and> list_all distinct parts \<and>
    sorted (map (\<lambda>c. (- cl_avg_similarity c, - int (cl_size c), - cl_min_similarity c)) cs)"
proof (rule build_clusters_parts)
  let ?nodes = "fst (number_nodes edges)"
  let ?n = "length ?nodes"
  fix r :: "nat \<Rightarrow> nat"
  assume r: "\<forall>i < ?n. \<forall>j < ?n. r i = r j \<longleftrightarrow> linked edges (?nodes ! i) (?nodes ! j)"
  let ?part = "\<lambda>x. map ((!) ?nodes) (filter (\<lambda>i. r i = x) [0..<?n])"
  obtain roots where roots_def: "roots = map fst (grouped r [0..<?n])" by simp
  have roots: "distinct roots" "set roots = r ` {..<?n}"
    using grouped_entries(1,2)[of r "[0..<?n]"] unfolding roots_def by (simp_all only: set_upt atLeast0LessThan)
  have groups: "map (\<lambda>(_, is). map ((!) ?nodes) is) (grouped r [0..<?n]) = map ?part roots"
    unfolding roots_def by (auto dest: grouped_entries(3))
  have num: "distinct ?nodes" "set ?nodes = items edges" using number_nodes_numbered[of edges] by (simp_all add: numbered_def)
  have same: "set (?part (r i)) = {b. linked edges (?nodes ! i) b}" if "i < ?n" for i
  proof -
    have "b \<in> set ?nodes" if "linked edges (?nodes ! i) b" for b
      using linked_in_items[OF that] \<open>i < ?n\<close> num(2) by (metis nth_mem)
    then have "{b. linked edges (?nodes ! i) b} = {?nodes ! j | j. j < ?n \<and> linked edges (?nodes ! i) (?nodes ! j)}"
      by (auto simp: in_set_conv_nth)
    also have "\<dots> = {?nodes ! j | j. j < ?n \<and> r j = r i}" using r that by (metis (no_types, lifting))
    finally show ?thesis by auto
  qed
  have dist: "distinct (?part x)" for x by (rule distinct_image_filter[OF num(1) refl])
  have comps: "components edges = (\<lambda>x. set (?part x)) ` set roots"
  proof -
    have "components edges = (\<lambda>i. {b. linked edges (?nodes ! i) b}) ` {..<?n}"
      unfolding components_def num(2)[symmetric] by (auto simp: in_set_conv_nth)
    also have "\<dots> = (\<lambda>x. set (?part x)) ` set roots" unfolding roots(2) image_image using same by (intro image_cong) auto
    finally show ?thesis .
  qed
  let ?parts = "filter (\<lambda>part. 2 \<le> length part) (map ?part roots)"
  have inj: "inj_on (\<lambda>x. set (?part x)) (set roots)"
  proof (rule inj_onI)
    fix x y assume x: "x \<in> set roots" and y: "y \<in> set roots" and eq: "set (?part x) = set (?part y)"
    then obtain i where i: "i < ?n" "x = r i" using roots(2) by auto
    then have "?nodes ! i \<in> set (?part y)" using eq by auto
    then obtain j where "j < ?n" "r j = y" "?nodes ! i = ?nodes ! j" by auto
    then show "x = y" using i num(1) by (simp add: nth_eq_iff_index_eq)
  qed
  have "map set ?parts = map (\<lambda>x. set (?part x)) (filter (\<lambda>x. 2 \<le> length (?part x)) roots)" by (simp add: filter_map comp_def)
  then have "distinct (map set ?parts)"
    using roots(1) inj_on_subset[OF inj filter_is_subset] by (simp only: distinct_map distinct_filter)
  moreover have "set (map set ?parts) = {C \<in> components edges. 2 \<le> card C}"
  proof -
    have "components edges = set ` set (map ?part roots)" unfolding comps by (simp only: set_map image_image)
    moreover have "\<forall>part \<in> set (map ?part roots). distinct part" using dist by (simp only: set_map ball_simps) blast
    ultimately show ?thesis by (simp only: big_parts)
  qed
  moreover assume "build_clusters edges k lookup = Some (sort_key (\<lambda>c. (- cl_avg_similarity c, - int (cl_size c), - cl_min_similarity c))
      (map (summary_of edges k lookup)
        (filter (\<lambda>part. 2 \<le> length part) (map (\<lambda>(_, is). map ((!) ?nodes) is) (grouped r [0..<?n])))))"
  ultimately show ?thesis unfolding groups using dist by (intro exI conjI) (auto simp: list_all_iff simp del: length_map)
qed

text \<open>A page of clusters holds, in order, exactly the next members up to the limit: cutting the last cluster loses none before it and
  adds none after it, and a cluster is marked as truncated when it is cut.\<close>

theorem page_holds_the_next_members:
  "concat (map cl_members (page_clusters_by_member_limit cs offset limit)) = take limit (concat (map cl_members (drop offset cs))) \<and>
   (\<forall>c \<in> set (page_clusters_by_member_limit cs offset limit). \<exists>c' \<in> set (drop offset cs).
      c = c' \<or> (cl_truncated c \<and> strict_prefix (cl_members c) (cl_members c') \<and> cl_size c = cl_size c'))"
proof -
  have "concat (map cl_members (page_loop n cs)) = take n (concat (map cl_members cs)) \<and>
    (\<forall>c \<in> set (page_loop n cs). \<exists>c' \<in> set cs.
      c = c' \<or> (cl_truncated c \<and> strict_prefix (cl_members c) (cl_members c') \<and> cl_size c = cl_size c'))" for n and cs :: "'a cluster list"
  proof (induction n cs rule: page_loop.induct)
    case (2 n c cs)
    consider "n = 0" | "n \<noteq> 0" "length (cl_members c) > n" | "n \<noteq> 0" "\<not> length (cl_members c) > n" by blast
    then show ?case
    proof cases
      case 2
      then have "strict_prefix (take n (cl_members c)) (cl_members c)"
        by (metis length_take less_irrefl min.absorb4 strict_prefix_def take_is_prefix)
      then show ?thesis using 2 by simp
    next
      case 3
      then show ?thesis using "2.IH"[OF 3] by auto
    qed simp
  qed simp
  then show ?thesis by (simp add: page_clusters_by_member_limit_def)
qed

end
