(* ===== verification/Call_Queries.thy ===== *)
theory Call_Queries
  imports Recursion_Check
begin

text \<open>
  Queries over the calls of a snapshot (rmc-graph: graph/query/calls.rs and the index iterators of graph/query/shared.rs): who
  calls a function, what it calls, the bounded call graph, and the count of the functions that reach it.

  A transaction is a snapshot's tables; iterating an index gives a list of entries, an entry without its row is an error that
  the loops pass on. A depth is a natural number: the \<open>u32\<close> counters never exceed the depth that was asked for. A
  \<open>HashSet\<close> that is only inserted into and asked is a set.
\<close>

subsection \<open>Iterating an index\<close>

definition usage_entry :: "string \<Rightarrow> graph_rows \<Rightarrow> node_id \<Rightarrow> (string, graph_usage) result" where
  "usage_entry dangling d uid = (case get_usage d uid of None \<Rightarrow> Inl dangling | Some u \<Rightarrow> Inr u)"

definition usages_for_target :: "graph_rows \<Rightarrow> node_id \<Rightarrow> (string, graph_usage) result list" where
  "usages_for_target d target =
     map (usage_entry ''dangling UsageId in usages_by_target'' d) (get_duplicates UsagesByTarget target d)"

definition usages_for_consumer_function :: "graph_rows \<Rightarrow> node_id \<Rightarrow> (string, graph_usage) result list" where
  "usages_for_consumer_function d f =
     map (usage_entry ''dangling UsageId in usages_by_consumer_function'' d) (get_duplicates UsagesByConsumerFunction f d)"

text \<open>The loop \<open>for entry in \<dots> { let usage = entry?; \<dots> }\<close>: the first error ends it.\<close>

fun all_ok :: "('e, 'a) result list \<Rightarrow> ('e, 'a list) result" where
  "all_ok [] = Inr []"
| "all_ok (r # rs) = and_then r (\<lambda>a. and_then (all_ok rs) (\<lambda>as. Inr (a # as)))"

definition usages_of_target :: "graph_rows \<Rightarrow> node_id \<Rightarrow> (string, graph_usage list) result" where
  "usages_of_target d target = all_ok (usages_for_target d target)"

subsection \<open>Call sites\<close>

record call_site =
  cs_caller :: "string option"
  cs_callee :: string
  cs_file :: string
  cs_start :: "32 word"
  cs_end :: "32 word"
  cs_category :: string
  cs_relation :: usage_relation
  cs_expansion :: "expansion_site option"

fun usage_category_label :: "usage_category \<Rightarrow> string" where
  "usage_category_label UsageRead = ''Read''"
| "usage_category_label UsageWrite = ''Write''"
| "usage_category_label UsageTest = ''Test''"
| "usage_category_label UsageOther = ''Other''"

definition name_of :: "graph_rows \<Rightarrow> node_id \<Rightarrow> string option" where
  "name_of d i = map_option nd_qualified_name (get_node d i)"

definition name_or_empty :: "graph_rows \<Rightarrow> node_id \<Rightarrow> string" where
  "name_or_empty d i = (case name_of d i of None \<Rightarrow> [] | Some n \<Rightarrow> n)"

definition who_calls :: "graph_rows \<Rightarrow> node_id \<Rightarrow> (string, call_site list) result" where
  "who_calls d target =
     and_then (all_ok (usages_for_target d target)) (\<lambda>us.
       Inr (map (\<lambda>u. \<lparr>cs_caller = Option.bind (us_consumer_function u) (name_of d), cs_callee = name_or_empty d target,
                   cs_file = us_file u, cs_start = us_start u, cs_end = us_end u,
                   cs_category = usage_category_label (us_category u), cs_relation = us_relation u,
                   cs_expansion = us_expansion u\<rparr>)
         (filter (\<lambda>u. is_call (us_relation u) \<and> us_consumer_function u \<noteq> None) us)))"

definition calls_from :: "graph_rows \<Rightarrow> node_id \<Rightarrow> (string, call_site list) result" where
  "calls_from d caller =
     and_then (all_ok (usages_for_consumer_function d caller)) (\<lambda>us.
       Inr (map (\<lambda>u. \<lparr>cs_caller = name_of d caller, cs_callee = name_or_empty d (us_target u),
                   cs_file = us_file u, cs_start = us_start u, cs_end = us_end u,
                   cs_category = usage_category_label (us_category u), cs_relation = us_relation u,
                   cs_expansion = us_expansion u\<rparr>)
         (filter (\<lambda>u. is_call (us_relation u)) us)))"

subsection \<open>The bounded call graph\<close>

datatype call_graph_node =
  CallGraphNode (cn_name: string) (cn_crate: "string option") (cn_callees: "call_graph_node list")
    (cn_at_cycle: bool) (cn_at_depth: bool)

definition crate_name_of :: "graph_rows \<Rightarrow> node_id \<Rightarrow> string option" where
  "crate_name_of d f = Option.bind (Option.bind (get_node d f) nd_crate_id) (name_of d)"

definition push_call :: "graph_usage \<Rightarrow> node_id list \<Rightarrow> node_id list" where
  "push_call u callees =
     (if is_call (us_relation u) \<and> us_target u \<notin> set callees then callees @ [us_target u] else callees)"

definition distinct_callees :: "graph_rows \<Rightarrow> node_id \<Rightarrow> (string, node_id list) result" where
  "distinct_callees d f = and_then (all_ok (usages_for_consumer_function d f)) (\<lambda>us. Inr (fold push_call us []))"

text \<open>The loop over the callees, which threads the set of visited functions through the recursive calls.\<close>

fun each_callee ::
  "(node_id \<Rightarrow> node_id set \<Rightarrow> (string, call_graph_node \<times> node_id set) result) \<Rightarrow> node_id list \<Rightarrow> node_id set \<Rightarrow>
   (string, call_graph_node list \<times> node_id set) result" where
  "each_callee descend [] visited = Inr ([], visited)"
| "each_callee descend (i # rest) visited =
     and_then (descend i visited) (\<lambda>(n, visited1).
     and_then (each_callee descend rest visited1) (\<lambda>(ns, visited2). Inr (n # ns, visited2)))"

fun call_graph_rec ::
  "graph_rows \<Rightarrow> nat \<Rightarrow> node_id \<Rightarrow> node_id set \<Rightarrow> (string, call_graph_node \<times> node_id set) result" where
  "call_graph_rec d 0 f visited =
     (if f \<in> visited then Inr (CallGraphNode (name_or_empty d f) (crate_name_of d f) [] True False, visited)
      else and_then (distinct_callees d f) (\<lambda>callees.
        Inr (CallGraphNode (name_or_empty d f) (crate_name_of d f) [] False (callees \<noteq> []), insert f visited)))"
| "call_graph_rec d (Suc depth) f visited =
     (if f \<in> visited then Inr (CallGraphNode (name_or_empty d f) (crate_name_of d f) [] True False, visited)
      else and_then (distinct_callees d f) (\<lambda>callees.
        and_then (each_callee (call_graph_rec d depth) callees (insert f visited)) (\<lambda>(ns, visited1).
          Inr (CallGraphNode (name_or_empty d f) (crate_name_of d f) ns False False, visited1))))"

definition call_graph :: "graph_rows \<Rightarrow> node_id \<Rightarrow> nat \<Rightarrow> (string, call_graph_node) result" where
  "call_graph d root_fn depth = and_then (call_graph_rec d depth root_fn {}) (\<lambda>(n, _). Inr n)"

subsection \<open>Counting the callers\<close>

record callers_count =
  rcc_target :: string
  rcc_depth :: nat
  rcc_direct :: nat
  rcc_transitive :: nat
  rcc_depth_reached :: nat
  rcc_truncated :: bool

text \<open>The callers among the entries that were not visited yet, appended to the next frontier.\<close>

fun visit_callers ::
  "(string, graph_usage) result list \<Rightarrow> node_id set \<Rightarrow> node_id list \<Rightarrow> (string, node_id set \<times> node_id list) result" where
  "visit_callers [] visited next = Inr (visited, next)"
| "visit_callers (Inl e # rest) visited next = Inl e"
| "visit_callers (Inr u # rest) visited next =
     (if \<not> is_call (us_relation u) then visit_callers rest visited next
      else case us_consumer_function u of
             None \<Rightarrow> visit_callers rest visited next
           | Some f \<Rightarrow> if f \<in> visited then visit_callers rest visited next
                       else visit_callers rest (insert f visited) (next @ [f]))"

fun visit_frontier ::
  "graph_rows \<Rightarrow> node_id list \<Rightarrow> node_id set \<Rightarrow> node_id list \<Rightarrow> (string, node_id set \<times> node_id list) result" where
  "visit_frontier d [] visited next = Inr (visited, next)"
| "visit_frontier d (f # fs) visited next =
     and_then (visit_callers (usages_for_target d f) visited next) (\<lambda>(visited1, next1). visit_frontier d fs visited1 next1)"

text \<open>The loop over the hops: its result is what it visited, the last frontier, the hop and the depth it reached.\<close>

function hops ::
  "graph_rows \<Rightarrow> nat \<Rightarrow> nat \<Rightarrow> node_id set \<Rightarrow> node_id list \<Rightarrow> nat \<Rightarrow> (string, node_id set \<times> node_id list \<times> nat \<times> nat) result" where
  "hops d depth hop visited frontier reached =
     (if hop < depth \<and> frontier \<noteq> []
      then and_then (visit_frontier d frontier visited []) (\<lambda>(visited1, next).
        hops d depth (hop + 1) visited1 next (if next \<noteq> [] then hop + 1 else reached))
      else Inr (visited, frontier, hop, reached))"
  by pat_completeness auto
termination
  by (relation "measure (\<lambda>(d, depth, hop, _). depth - hop)") auto

declare hops.simps [simp del]

text \<open>The peek pass: is there a caller that was not visited?\<close>

fun unvisited_caller :: "(string, graph_usage) result list \<Rightarrow> node_id set \<Rightarrow> (string, bool) result" where
  "unvisited_caller [] visited = Inr False"
| "unvisited_caller (Inl e # rest) visited = Inl e"
| "unvisited_caller (Inr u # rest) visited =
     (if \<not> is_call (us_relation u) then unvisited_caller rest visited
      else case us_consumer_function u of
             None \<Rightarrow> unvisited_caller rest visited
           | Some f \<Rightarrow> if f \<notin> visited then Inr True else unvisited_caller rest visited)"

fun peek_frontier :: "graph_rows \<Rightarrow> node_id list \<Rightarrow> node_id set \<Rightarrow> (string, bool) result" where
  "peek_frontier d [] visited = Inr False"
| "peek_frontier d (f # fs) visited =
     and_then (unvisited_caller (usages_for_target d f) visited) (\<lambda>found. if found then Inr True else peek_frontier d fs visited)"

definition recursive_callers_count :: "graph_rows \<Rightarrow> node_id \<Rightarrow> nat \<Rightarrow> (string, callers_count) result" where
  "recursive_callers_count d target depth =
     (if depth = 0
      then Inr \<lparr>rcc_target = name_or_empty d target, rcc_depth = 0, rcc_direct = 0, rcc_transitive = 0,
                rcc_depth_reached = 0, rcc_truncated = False\<rparr>
      else and_then (visit_callers (usages_for_target d target) {} []) (\<lambda>(direct, frontier).
        and_then (hops d depth 1 direct frontier (if card direct > 0 then 1 else 0)) (\<lambda>(visited, last_frontier, hop, reached).
        and_then (if hop = depth \<and> last_frontier \<noteq> [] then peek_frontier d last_frontier visited else Inr False) (\<lambda>truncated.
          Inr \<lparr>rcc_target = name_or_empty d target, rcc_depth = depth, rcc_direct = card direct,
               rcc_transitive = card visited, rcc_depth_reached = reached, rcc_truncated = truncated\<rparr>))))"

subsection \<open>The calls that a snapshot records\<close>

text \<open>The two usage indexes are exactly the index of the usage table, as every write of a usage leaves them.\<close>

definition usages_indexed :: "graph_rows \<Rightarrow> bool" where
  "usages_indexed d \<longleftrightarrow>
     finite (d UsagesById) \<and> (\<forall>i v. (i, v) \<in> d UsagesById \<longrightarrow> (\<exists>u. v = UsageV u)) \<and>
     (\<forall>i v w. (i, v) \<in> d UsagesById \<longrightarrow> (i, w) \<in> d UsagesById \<longrightarrow> v = w) \<and>
     d UsagesByTarget = {(us_target u, IdV i) | i u. (i, UsageV u) \<in> d UsagesById} \<and>
     d UsagesByConsumerFunction =
       {(f, IdV i) | i u f. (i, UsageV u) \<in> d UsagesById \<and> us_consumer_function u = Some f}"

definition calls :: "graph_rows \<Rightarrow> node_id \<Rightarrow> node_id \<Rightarrow> bool" where
  "calls d f g \<longleftrightarrow>
     (\<exists>i u. (i, UsageV u) \<in> d UsagesById \<and> is_call (us_relation u) \<and> us_consumer_function u = Some f \<and> us_target u = g)"

definition call_edges :: "graph_rows \<Rightarrow> (node_id \<times> node_id) set" where
  "call_edges d = {(f, g). calls d f g}"

lemma get_usage_indexed:
  assumes "usages_indexed d" "(i, UsageV u) \<in> d UsagesById"
  shows "get_usage d i = Some u"
proof -
  have "values_at UsagesById i d = {UsageV u}"
    using assms unfolding usages_indexed_def values_at_def by (auto simp: image_iff)
  then show ?thesis by (simp add: get_usage_def get_row_def)
qed

lemma finite_index:
  assumes "usages_indexed d"
  shows "finite {i. \<exists>u. (i, UsageV u) \<in> d UsagesById \<and> P i u}"
proof -
  have "finite (fst ` d UsagesById)" using assms by (simp add: usages_indexed_def)
  then show ?thesis by (rule finite_subset[rotated]) force
qed

lemma duplicates_of_ids:
  assumes "finite A" "values_at t k d = IdV ` A"
  shows "set (get_duplicates t k d) = A"
proof -
  have "the ` (dup_id ` values_at t k d - {None}) = A" unfolding assms(2) by (auto simp: image_iff)
  then show ?thesis using assms(1) by (simp add: get_duplicates_def)
qed

lemma duplicates_by_target:
  assumes "usages_indexed d"
  shows "set (get_duplicates UsagesByTarget t d) = {i. \<exists>u. (i, UsageV u) \<in> d UsagesById \<and> us_target u = t}"
proof (rule duplicates_of_ids[OF finite_index[OF assms]])
  have "d UsagesByTarget = {(us_target u, IdV i) | i u. (i, UsageV u) \<in> d UsagesById}"
    using assms by (simp add: usages_indexed_def)
  then show "values_at UsagesByTarget t d = IdV ` {i. \<exists>u. (i, UsageV u) \<in> d UsagesById \<and> us_target u = t}"
    unfolding values_at_def by (auto simp: image_iff)
qed

lemma duplicates_by_function:
  assumes "usages_indexed d"
  shows "set (get_duplicates UsagesByConsumerFunction f d) =
    {i. \<exists>u. (i, UsageV u) \<in> d UsagesById \<and> us_consumer_function u = Some f}"
proof (rule duplicates_of_ids[OF finite_index[OF assms]])
  have "d UsagesByConsumerFunction = {(f, IdV i) | i u f. (i, UsageV u) \<in> d UsagesById \<and> us_consumer_function u = Some f}"
    using assms by (simp add: usages_indexed_def)
  then show "values_at UsagesByConsumerFunction f d =
      IdV ` {i. \<exists>u. (i, UsageV u) \<in> d UsagesById \<and> us_consumer_function u = Some f}"
    unfolding values_at_def by (auto simp: image_iff)
qed

lemma entries_of_ids:
  assumes "usages_indexed d" "\<And>i. i \<in> set ids \<Longrightarrow> \<exists>u. (i, UsageV u) \<in> d UsagesById"
  obtains us where "map (usage_entry msg d) ids = map Inr us" "set us = {u. \<exists>i \<in> set ids. (i, UsageV u) \<in> d UsagesById}"
proof -
  let ?us = "map (\<lambda>i. the (get_usage d i)) ids"
  have g: "usage_entry msg d i = Inr (the (get_usage d i))" if "i \<in> set ids" for i
    using assms(2)[OF that] get_usage_indexed[OF assms(1)] by (auto simp: usage_entry_def)
  have "set ?us = {u. \<exists>i \<in> set ids. (i, UsageV u) \<in> d UsagesById}"
    using assms(2) get_usage_indexed[OF assms(1)] by (auto simp: image_iff) (metis option.sel)+
  then show ?thesis using that[of ?us] g by simp
qed

lemma target_entries:
  assumes "usages_indexed d"
  obtains us where "usages_for_target d t = map Inr us"
    "set us = {u. \<exists>i. (i, UsageV u) \<in> d UsagesById \<and> us_target u = t}"
proof -
  obtain us where us: "usages_for_target d t = map Inr us"
    "set us = {u. \<exists>i \<in> set (get_duplicates UsagesByTarget t d). (i, UsageV u) \<in> d UsagesById}"
    unfolding usages_for_target_def
    by (rule entries_of_ids[OF assms, of "get_duplicates UsagesByTarget t d"]) (auto simp: duplicates_by_target[OF assms])
  have "(i, UsageV u) \<in> d UsagesById \<Longrightarrow> (i, UsageV w) \<in> d UsagesById \<Longrightarrow> u = w" for i u w
    using assms unfolding usages_indexed_def by blast
  then have "set us = {u. \<exists>i. (i, UsageV u) \<in> d UsagesById \<and> us_target u = t}"
    unfolding us(2) duplicates_by_target[OF assms] by blast
  then show ?thesis using that us(1) by blast
qed

lemma function_entries:
  assumes "usages_indexed d"
  obtains us where "usages_for_consumer_function d f = map Inr us"
    "set us = {u. \<exists>i. (i, UsageV u) \<in> d UsagesById \<and> us_consumer_function u = Some f}"
proof -
  obtain us where us: "usages_for_consumer_function d f = map Inr us"
    "set us = {u. \<exists>i \<in> set (get_duplicates UsagesByConsumerFunction f d). (i, UsageV u) \<in> d UsagesById}"
    unfolding usages_for_consumer_function_def
    by (rule entries_of_ids[OF assms, of "get_duplicates UsagesByConsumerFunction f d"])
      (auto simp: duplicates_by_function[OF assms])
  have "(i, UsageV u) \<in> d UsagesById \<Longrightarrow> (i, UsageV w) \<in> d UsagesById \<Longrightarrow> u = w" for i u w
    using assms unfolding usages_indexed_def by blast
  then have "set us = {u. \<exists>i. (i, UsageV u) \<in> d UsagesById \<and> us_consumer_function u = Some f}"
    unfolding us(2) duplicates_by_function[OF assms] by blast
  then show ?thesis using that us(1) by blast
qed

lemma all_ok_Inr [simp]: "all_ok (map Inr us) = Inr us"
  by (induction us) simp_all

lemma set_push_calls: "set (fold push_call us cs) = set cs \<union> {us_target u | u. u \<in> set us \<and> is_call (us_relation u)}"
  by (induction us arbitrary: cs) (auto simp: push_call_def)

lemma distinct_callees_are_the_calls:
  assumes "usages_indexed d"
  obtains gs where "distinct_callees d f = Inr gs" "set gs = {g. calls d f g}"
proof -
  obtain us where us: "usages_for_consumer_function d f = map Inr us"
    "set us = {u. \<exists>i. (i, UsageV u) \<in> d UsagesById \<and> us_consumer_function u = Some f}" by (rule function_entries[OF assms])
  have "set (fold push_call us []) = {g. calls d f g}" unfolding set_push_calls us(2) calls_def by auto
  then show ?thesis using that[of "fold push_call us []"] by (simp add: distinct_callees_def us(1))
qed

subsection \<open>Counting is exact\<close>

definition callers_within :: "graph_rows \<Rightarrow> nat \<Rightarrow> node_id \<Rightarrow> node_id set" where
  "callers_within d n t = {f. \<exists>k. 1 \<le> k \<and> k \<le> n \<and> (f, t) \<in> call_edges d ^^ k}"

definition preds :: "graph_rows \<Rightarrow> node_id set \<Rightarrow> node_id set" where
  "preds d S = {f. \<exists>g \<in> S. calls d f g}"

lemma callers_within_0 [simp]: "callers_within d 0 t = {}"
  by (simp add: callers_within_def)

lemma callers_within_Suc: "callers_within d (Suc n) t = preds d (insert t (callers_within d n t))"
proof (rule set_eqI)
  fix f
  have "f \<in> callers_within d (Suc n) t \<longleftrightarrow> (\<exists>k \<le> n. (f, t) \<in> call_edges d ^^ Suc k)"
  proof -
    have "f \<in> callers_within d (Suc n) t \<longleftrightarrow> (\<exists>k. 1 \<le> k \<and> k \<le> Suc n \<and> (f, t) \<in> call_edges d ^^ k)"
      by (simp add: callers_within_def)
    also have "\<dots> \<longleftrightarrow> (\<exists>k \<le> n. (f, t) \<in> call_edges d ^^ Suc k)"
    proof
      assume "\<exists>k. 1 \<le> k \<and> k \<le> Suc n \<and> (f, t) \<in> call_edges d ^^ k"
      then obtain k where k: "1 \<le> k" "k \<le> Suc n" "(f, t) \<in> call_edges d ^^ k" by blast
      then obtain j where "k = Suc j" by (cases k) auto
      then show "\<exists>k \<le> n. (f, t) \<in> call_edges d ^^ Suc k" using k(2,3) by blast
    next
      assume "\<exists>k \<le> n. (f, t) \<in> call_edges d ^^ Suc k"
      then obtain k where "k \<le> n" "(f, t) \<in> call_edges d ^^ Suc k" by blast
      then show "\<exists>k. 1 \<le> k \<and> k \<le> Suc n \<and> (f, t) \<in> call_edges d ^^ k" by (intro exI[of _ "Suc k"]) simp
    qed
    finally show ?thesis .
  qed
  also have "\<dots> \<longleftrightarrow> (\<exists>k \<le> n. \<exists>g. calls d f g \<and> (g, t) \<in> call_edges d ^^ k)"
  proof -
    have "(f, t) \<in> call_edges d ^^ Suc k \<longleftrightarrow> (\<exists>g. calls d f g \<and> (g, t) \<in> call_edges d ^^ k)" for k
      using relpow_Suc_I2[of f _ "call_edges d" t k] relpow_Suc_D2[of f t k "call_edges d"]
      by (auto simp: call_edges_def simp del: relpow.simps)
    then show ?thesis by simp
  qed
  also have "\<dots> \<longleftrightarrow> f \<in> preds d (insert t (callers_within d n t))"
  proof -
    have "(\<exists>k \<le> n. (g, t) \<in> call_edges d ^^ k) \<longleftrightarrow> g \<in> insert t (callers_within d n t)" for g
      unfolding callers_within_def by (auto simp: Suc_le_eq) (metis gr0I relpow_0_E)
    then show ?thesis unfolding preds_def by blast
  qed
  finally show "f \<in> callers_within d (Suc n) t \<longleftrightarrow> f \<in> preds d (insert t (callers_within d n t))" .
qed

lemma callers_within_mono: "m \<le> n \<Longrightarrow> callers_within d m t \<subseteq> callers_within d n t"
  unfolding callers_within_def by fastforce

lemma callers_within_step: "callers_within d (Suc (Suc n)) t = callers_within d (Suc n) t \<union> preds d (callers_within d (Suc n) t)"
proof -
  have "preds d (insert t {}) \<subseteq> callers_within d (Suc n) t" unfolding callers_within_Suc preds_def by blast
  moreover have "callers_within d (Suc n) t \<subseteq> callers_within d (Suc (Suc n)) t" by (rule callers_within_mono) simp
  ultimately show ?thesis unfolding callers_within_Suc[of d "Suc n"] preds_def by blast
qed

lemma callers_within_stable:
  assumes "callers_within d (Suc n) t = callers_within d n t" "n \<le> m"
  shows "callers_within d m t = callers_within d n t"
  using assms(2)
proof (induction m rule: dec_induct)
  case (step m)
  then show ?case using assms(1) callers_within_Suc by metis
qed simp

lemma visit_callers_spec:
  "\<exists>next'. visit_callers (map Inr us) visited next =
     Inr (visited \<union> {f. \<exists>u \<in> set us. is_call (us_relation u) \<and> us_consumer_function u = Some f}, next') \<and>
   set next' = set next \<union> ({f. \<exists>u \<in> set us. is_call (us_relation u) \<and> us_consumer_function u = Some f} - visited)"
proof (induction us arbitrary: visited "next")
  case (Cons u us)
  let ?new = "{f. is_call (us_relation u) \<and> us_consumer_function u = Some f}"
  show ?case
  proof (cases "?new \<subseteq> visited")
    case True
    then have "visit_callers (map Inr (u # us)) visited next = visit_callers (map Inr us) visited next"
      by (auto split: option.split)
    then show ?thesis using Cons[of visited "next"] True by auto
  next
    case False
    then obtain f where f: "is_call (us_relation u)" "us_consumer_function u = Some f" "f \<notin> visited" by auto
    then have "visit_callers (map Inr (u # us)) visited next = visit_callers (map Inr us) (insert f visited) (next @ [f])" by simp
    then show ?thesis using Cons[of "insert f visited" "next @ [f]"] f by auto
  qed
qed simp

lemma visit_target:
  assumes "usages_indexed d"
  shows "\<exists>next'. visit_callers (usages_for_target d t) visited next = Inr (visited \<union> preds d {t}, next') \<and>
    set next' = set next \<union> (preds d {t} - visited)"
proof -
  obtain us where us: "usages_for_target d t = map Inr us"
    "set us = {u. \<exists>i. (i, UsageV u) \<in> d UsagesById \<and> us_target u = t}" by (rule target_entries[OF assms])
  have "{f. \<exists>u \<in> set us. is_call (us_relation u) \<and> us_consumer_function u = Some f} = preds d {t}"
    unfolding us(2) preds_def calls_def by auto
  then show ?thesis using visit_callers_spec[of us visited "next"] by (simp add: us(1))
qed

lemma visit_frontier_spec:
  assumes "usages_indexed d"
  shows "\<exists>next'. visit_frontier d fs visited next = Inr (visited \<union> preds d (set fs), next') \<and>
    set next' = set next \<union> (preds d (set fs) - visited)"
proof (induction fs arbitrary: visited "next")
  case (Cons f fs)
  obtain n1 where n1: "visit_callers (usages_for_target d f) visited next = Inr (visited \<union> preds d {f}, n1)"
    "set n1 = set next \<union> (preds d {f} - visited)" using visit_target[OF assms] by blast
  have "preds d (set (f # fs)) = preds d {f} \<union> preds d (set fs)" by (auto simp: preds_def)
  then show ?case using Cons[of "visited \<union> preds d {f}" n1] n1 by auto
qed (simp add: preds_def)

definition reaches_depth :: "graph_rows \<Rightarrow> node_id \<Rightarrow> nat \<Rightarrow> nat \<Rightarrow> bool" where
  "reaches_depth d t n r \<longleftrightarrow>
     r \<le> n \<and> callers_within d r t = callers_within d n t \<and> (\<forall>k < r. callers_within d k t \<subset> callers_within d n t)"

lemma reaches_depth_step:
  assumes "reaches_depth d t n r" "callers_within d (Suc n) t = callers_within d n t \<union> N"
  shows "reaches_depth d t (Suc n) (if N - callers_within d n t \<noteq> {} then Suc n else r)"
proof (cases "N - callers_within d n t = {}")
  case True
  then show ?thesis using assms unfolding reaches_depth_def by (auto simp: Un_absorb2)
next
  case False
  then have "callers_within d n t \<subset> callers_within d (Suc n) t" using assms(2) by blast
  moreover have "callers_within d k t \<subseteq> callers_within d n t" if "k < Suc n" for k
    using that by (intro callers_within_mono) simp
  ultimately have "callers_within d k t \<subset> callers_within d (Suc n) t" if "k < Suc n" for k
    using that by (meson subset_psubset_trans)
  then show ?thesis using False by (simp add: reaches_depth_def)
qed

lemma hops_spec:
  assumes "usages_indexed d" "1 \<le> hop" "hop \<le> depth" "visited = callers_within d hop t"
    "set frontier = callers_within d hop t - callers_within d (hop - 1) t" "reaches_depth d t hop reached"
  shows "\<exists>frontier' hop' reached'. hops d depth hop visited frontier reached = Inr (callers_within d depth t, frontier', hop', reached') \<and>
    reaches_depth d t depth reached' \<and> hop' \<le> depth \<and>
    (hop' = depth \<longrightarrow> set frontier' = callers_within d depth t - callers_within d (depth - 1) t) \<and>
    (hop' < depth \<longrightarrow> callers_within d (Suc depth) t = callers_within d depth t)"
  using assms
proof (induction d depth hop visited frontier reached rule: hops.induct)
  case (1 d depth hop visited frontier reached)
  let ?W = "\<lambda>n. callers_within d n t"
  obtain m where m: "hop = Suc m" using "1.prems"(2) by (cases hop) auto
  have next_level: "?W (Suc hop) = ?W hop \<union> preds d (set frontier)"
  proof -
    have "preds d (?W (hop - 1)) \<subseteq> ?W hop" unfolding m callers_within_Suc by (auto simp: preds_def)
    moreover have "?W hop = set frontier \<union> ?W (hop - 1)"
      using "1.prems"(5) callers_within_mono[of "hop - 1" hop d t] by auto
    moreover have "?W (Suc hop) = ?W hop \<union> preds d (?W hop)" unfolding m by (rule callers_within_step)
    ultimately show ?thesis unfolding preds_def by blast
  qed
  show ?case
  proof (cases "hop < depth \<and> frontier \<noteq> []")
    case True
    obtain n1 where n1: "visit_frontier d frontier visited [] = Inr (visited \<union> preds d (set frontier), n1)"
      "set n1 = preds d (set frontier) - visited" using visit_frontier_spec[OF "1.prems"(1), of frontier visited "[]"] by auto
    have n1_empty: "n1 \<noteq> [] \<longleftrightarrow> preds d (set frontier) - ?W hop \<noteq> {}" using n1(2) "1.prems"(4) by (metis set_empty2)
    let ?r = "if n1 \<noteq> [] then hop + 1 else reached"
    have "hops d depth hop visited frontier reached = hops d depth (hop + 1) (visited \<union> preds d (set frontier)) n1 ?r"
      using True n1(1) by (subst hops.simps) simp
    moreover have "reaches_depth d t (hop + 1) ?r"
      using reaches_depth_step[OF "1.prems"(6) next_level] n1_empty by (simp split: if_splits)
    moreover have "visited \<union> preds d (set frontier) = ?W (hop + 1)" "set n1 = ?W (hop + 1) - ?W (hop + 1 - 1)"
      using next_level n1(2) "1.prems"(4) by auto
    note v = this
    ultimately show ?thesis using "1.IH"[OF True "1.prems"(1) _ _ v] True by simp
  next
    case False
    then have e: "hops d depth hop visited frontier reached = Inr (visited, frontier, hop, reached)" by (subst hops.simps) auto
    show ?thesis
    proof (cases "hop = depth")
      case True
      then show ?thesis using e "1.prems" by simp
    next
      case hop: False
      then have "frontier = []" using False "1.prems"(3) by simp
      then have "?W (Suc hop) = ?W hop" using next_level by (simp add: preds_def)
      note stable = callers_within_stable[OF this]
      have "?W depth = ?W hop" by (rule stable) (rule "1.prems"(3))
      moreover have "?W (Suc depth) = ?W hop" by (rule stable) (use "1.prems"(3) in simp)
      ultimately show ?thesis using e hop "1.prems" by (auto simp: reaches_depth_def)
    qed
  qed
qed

lemma unvisited_caller_spec:
  "unvisited_caller (map Inr us) visited =
     Inr (\<not> {f. \<exists>u \<in> set us. is_call (us_relation u) \<and> us_consumer_function u = Some f} \<subseteq> visited)"
proof (induction us)
  case (Cons u us)
  then show ?case by (cases "us_consumer_function u") auto
qed simp

lemma peek_frontier_spec:
  assumes "usages_indexed d"
  shows "peek_frontier d fs visited = Inr (\<not> preds d (set fs) \<subseteq> visited)"
proof (induction fs)
  case (Cons f fs)
  obtain us where us: "usages_for_target d f = map Inr us"
    "set us = {u. \<exists>i. (i, UsageV u) \<in> d UsagesById \<and> us_target u = f}" by (rule target_entries[OF assms])
  have "{g. \<exists>u \<in> set us. is_call (us_relation u) \<and> us_consumer_function u = Some g} = preds d {f}"
    unfolding us(2) preds_def calls_def by auto
  moreover have "preds d (set (f # fs)) = preds d {f} \<union> preds d (set fs)" by (auto simp: preds_def)
  ultimately show ?case using Cons by (simp add: us(1) unvisited_caller_spec)
qed (simp add: preds_def)

lemma finite_call_edges:
  assumes "usages_indexed d"
  shows "finite (call_edges d)"
proof -
  have "finite (snd ` d UsagesById)" using assms by (simp add: usages_indexed_def)
  then have "finite {u. UsageV u \<in> snd ` d UsagesById}" by (rule finite_vimageI[unfolded vimage_def]) (simp add: inj_def)
  then have "finite ((\<lambda>u. (the (us_consumer_function u), us_target u)) ` {u. UsageV u \<in> snd ` d UsagesById})" by simp
  then show ?thesis by (rule finite_subset[rotated]) (force simp: call_edges_def calls_def image_iff)
qed

lemma finite_callers_within: "usages_indexed d \<Longrightarrow> finite (callers_within d n t)"
proof -
  assume "usages_indexed d"
  then have "finite (fst ` call_edges d)" using finite_call_edges by blast
  moreover have "callers_within d n t \<subseteq> fst ` call_edges d"
  proof
    fix f assume "f \<in> callers_within d n t"
    then obtain m where "f \<in> callers_within d (Suc m) t" by (cases n) auto
    then show "f \<in> fst ` call_edges d" unfolding callers_within_Suc preds_def call_edges_def by force
  qed
  ultimately show ?thesis by (rule finite_subset[rotated])
qed

text \<open>C37: The count of the callers of a function is exact: the transitive callers are the functions that reach it by one to
  \<open>depth\<close> calls (itself, when it is recursive), the direct ones those that call it; the depth reached is the smallest that
  already has them all; and the answer is marked as truncated exactly when one more hop would find another caller.\<close>

theorem callers_count_is_exact:
  assumes "usages_indexed d"
  shows "\<exists>r. recursive_callers_count d t n = Inr r \<and>
    rcc_transitive r = card (callers_within d n t) \<and>
    rcc_direct r = card (callers_within d (min n 1) t) \<and>
    reaches_depth d t n (rcc_depth_reached r) \<and>
    (rcc_truncated r \<longleftrightarrow> 0 < n \<and> callers_within d (Suc n) t \<noteq> callers_within d n t)"
proof (cases "n = 0")
  case True
  then show ?thesis by (simp add: recursive_callers_count_def reaches_depth_def)
next
  case False
  let ?W = "\<lambda>k. callers_within d k t"
  have W1: "preds d {t} = ?W 1" using callers_within_Suc[of d 0 t] by simp
  obtain fs where fs: "visit_callers (usages_for_target d t) {} [] = Inr (?W 1, fs)" "set fs = ?W 1"
    using visit_target[OF assms, of t "{}" "[]"] unfolding W1 by auto
  have "card (?W 1) > 0 \<longleftrightarrow> ?W 1 \<noteq> {}" using finite_callers_within[OF assms, of 1 t] by (simp add: card_gt_0_iff)
  then have r1: "reaches_depth d t 1 (if card (?W 1) > 0 then 1 else 0)" by (auto simp: reaches_depth_def)
  obtain fs' hop' reached' where h: "hops d n 1 (?W 1) fs (if card (?W 1) > 0 then 1 else 0) = Inr (?W n, fs', hop', reached')"
    "reaches_depth d t n reached'" "hop' \<le> n"
    "hop' = n \<longrightarrow> set fs' = ?W n - ?W (n - 1)" "hop' < n \<longrightarrow> ?W (Suc n) = ?W n"
    using hops_spec[OF assms order.refl _ refl _ r1, of n fs] fs(2) False by fastforce
  obtain m where m: "n = Suc m" using False by (cases n) auto
  have peek: "(if hop' = n \<and> fs' \<noteq> [] then peek_frontier d fs' (?W n) else Inr False) = (Inr (?W (Suc n) \<noteq> ?W n) :: (string, bool) result)"
  proof (cases "hop' = n")
    case True
    have "preds d (?W m) \<subseteq> ?W n" unfolding m callers_within_Suc by (auto simp: preds_def)
    moreover have "?W n = set fs' \<union> ?W m" using h(4) True callers_within_mono[of m n d t] by (auto simp: m)
    moreover have "?W (Suc n) = ?W n \<union> preds d (?W n)" unfolding m by (rule callers_within_step)
    ultimately have "?W (Suc n) \<noteq> ?W n \<longleftrightarrow> \<not> preds d (set fs') \<subseteq> ?W n" unfolding preds_def by blast
    then show ?thesis using True by (auto simp: peek_frontier_spec[OF assms] preds_def)
  next
    case False
    then show ?thesis using h(3,5) by simp
  qed
  have "min n 1 = 1" using False by simp
  then show ?thesis using False h(1,2) fs(1) peek by (simp add: recursive_callers_count_def)
qed

subsection \<open>What the call graph lists\<close>

definition hops_from :: "graph_rows \<Rightarrow> nat \<Rightarrow> node_id \<Rightarrow> node_id set" where
  "hops_from d n f = {g. \<exists>k \<le> n. (f, g) \<in> call_edges d ^^ k}"

definition reachable :: "graph_rows \<Rightarrow> node_id \<Rightarrow> node_id set" where
  "reachable d f = {g. (f, g) \<in> (call_edges d)\<^sup>*}"

fun tree_nodes :: "call_graph_node \<Rightarrow> call_graph_node list" where
  "tree_nodes (CallGraphNode name krate callees at_cycle at_depth) =
     CallGraphNode name krate callees at_cycle at_depth # concat (map tree_nodes callees)"

text \<open>The functions that a tree lists in their own right, and not as a reference to another place.\<close>

definition expanded :: "call_graph_node \<Rightarrow> string list" where
  "expanded n = map cn_name (filter (\<lambda>m. \<not> cn_at_cycle m) (tree_nodes n))"

definition lists_new :: "graph_rows \<Rightarrow> node_id set \<Rightarrow> node_id set \<Rightarrow> call_graph_node list \<Rightarrow> bool" where
  "lists_new d v v' ns \<longleftrightarrow> v \<subseteq> v' \<and> finite (v' - v) \<and>
     mset (concat (map expanded ns)) = image_mset (name_or_empty d) (mset_set (v' - v))"

lemma lists_new_Nil [simp]: "lists_new d v v []"
  by (simp add: lists_new_def)

lemma lists_new_Cons:
  assumes "lists_new d v v1 [n]" "lists_new d v1 v2 ns"
  shows "lists_new d v v2 (n # ns)"
proof -
  have e: "v2 - v = (v1 - v) \<union> (v2 - v1)" "(v1 - v) \<inter> (v2 - v1) = {}" using assms by (auto simp: lists_new_def)
  have "mset_set (v2 - v) = mset_set (v1 - v) + mset_set (v2 - v1)"
    unfolding e(1) using assms e(2) by (intro mset_set_Union) (simp_all add: lists_new_def)
  then show ?thesis using assms e(1) by (auto simp: lists_new_def)
qed

lemma each_callee_lists:
  assumes "\<And>i v. i \<in> set is \<Longrightarrow> \<exists>n v'. descend i v = Inr (n, v') \<and> i \<in> v' \<and> v' - v \<subseteq> R \<and> lists_new d v v' [n]"
  shows "\<exists>ns v'. each_callee descend is v = Inr (ns, v') \<and> set is \<subseteq> v' \<and> v' - v \<subseteq> R \<and> lists_new d v v' ns"
  using assms
proof (induction "is" arbitrary: v)
  case (Cons i "is")
  obtain n v1 where n: "descend i v = Inr (n, v1)" "i \<in> v1" "v1 - v \<subseteq> R" "lists_new d v v1 [n]"
    using Cons.prems[of i v] by auto
  obtain ns v2 where ns: "each_callee descend is v1 = Inr (ns, v2)" "set is \<subseteq> v2" "v2 - v1 \<subseteq> R" "lists_new d v1 v2 ns"
    using Cons.IH[of v1] Cons.prems by (metis list.set_intros(2))
  have "v1 \<subseteq> v2" using ns(4) by (simp add: lists_new_def)
  then show ?case using n ns lists_new_Cons[OF n(4) ns(4)] by auto
qed simp

lemma hops_from_self [simp]: "f \<in> hops_from d n f"
  unfolding hops_from_def by (auto intro: exI[of _ 0])

lemma hops_from_step: "calls d f g \<Longrightarrow> hops_from d n g \<subseteq> hops_from d (Suc n) f"
proof
  fix h assume "calls d f g" "h \<in> hops_from d n g"
  then obtain k where "k \<le> n" "(g, h) \<in> call_edges d ^^ k" "(f, g) \<in> call_edges d" by (auto simp: hops_from_def call_edges_def)
  then have "Suc k \<le> Suc n" "(f, h) \<in> call_edges d ^^ Suc k" by (simp_all only: Suc_le_mono relpow_Suc_I2)
  then show "h \<in> hops_from d (Suc n) f" unfolding hops_from_def by blast
qed

lemma expanded_leaf [simp]: "expanded (CallGraphNode name krate [] c t) = (if c then [] else [name])"
  by (simp add: expanded_def)

lemma expanded_node: "expanded (CallGraphNode name krate ns False t) = name # concat (map expanded ns)"
proof -
  have "map cn_name (filter (\<lambda>m. \<not> cn_at_cycle m) (concat (map tree_nodes ns))) = concat (map expanded ns)"
    by (induction ns) (simp_all add: expanded_def)
  then show ?thesis by (simp add: expanded_def)
qed

lemma lists_new_node:
  assumes "f \<notin> v" "lists_new d (insert f v) v' ns"
  shows "lists_new d v v' [CallGraphNode (name_or_empty d f) krate ns False t]"
proof -
  have "v' - v = insert f (v' - insert f v)" using assms by (auto simp: lists_new_def)
  then show ?thesis using assms by (auto simp: lists_new_def expanded_node)
qed

lemma call_graph_rec_lists:
  assumes "usages_indexed d"
  shows "\<exists>n v'. call_graph_rec d depth f v = Inr (n, v') \<and> f \<in> v' \<and> v' - v \<subseteq> hops_from d depth f \<and> lists_new d v v' [n]"
proof (induction depth arbitrary: f v)
  case 0
  obtain gs where gs: "distinct_callees d f = Inr gs" by (rule distinct_callees_are_the_calls[OF assms])
  show ?case
  proof (cases "f \<in> v")
    case False
    then show ?thesis using gs lists_new_node[OF False lists_new_Nil] by auto
  qed (simp add: lists_new_def)
next
  case (Suc depth)
  obtain gs where gs: "distinct_callees d f = Inr gs" "set gs = {g. calls d f g}"
    by (rule distinct_callees_are_the_calls[OF assms])
  show ?case
  proof (cases "f \<in> v")
    case False
    have "\<exists>n v'. call_graph_rec d depth g w = Inr (n, v') \<and> g \<in> v' \<and> v' - w \<subseteq> hops_from d (Suc depth) f \<and> lists_new d w v' [n]"
      if "g \<in> set gs" for g w
      using Suc[of g w] hops_from_step[of d f g depth] that gs(2) by blast
    then obtain ns v' where ns: "each_callee (call_graph_rec d depth) gs (insert f v) = Inr (ns, v')"
      "v' - insert f v \<subseteq> hops_from d (Suc depth) f" "lists_new d (insert f v) v' ns"
      using each_callee_lists[of gs "call_graph_rec d depth" "hops_from d (Suc depth) f" d "insert f v"] by blast
    then have "insert f v \<subseteq> v'" "v' - v \<subseteq> insert f (v' - insert f v)" by (auto simp: lists_new_def)
    then show ?thesis using False gs(1) ns lists_new_node[OF False ns(3)] by auto
  qed (simp add: lists_new_def)
qed

text \<open>Nothing is cut when the depth exceeds the number of functions that are left to visit.\<close>

definition all_listed :: "graph_rows \<Rightarrow> node_id set \<Rightarrow> node_id set \<Rightarrow> call_graph_node list \<Rightarrow> bool" where
  "all_listed d v v' ns \<longleftrightarrow> v \<subseteq> v' \<and> (\<forall>g \<in> v' - v. {h. calls d g h} \<subseteq> v') \<and>
     (\<forall>n \<in> set ns. \<forall>m \<in> set (tree_nodes n). \<not> cn_at_depth m)"

lemma each_callee_complete:
  assumes "each_callee descend is v = Inr (ns, v')" "set is \<subseteq> R" "finite R" "card (R - v) \<le> k"
    "\<And>i v n v'. i \<in> R \<Longrightarrow> card (R - v) \<le> k \<Longrightarrow> descend i v = Inr (n, v') \<Longrightarrow> i \<in> v' \<and> all_listed d v v' [n]"
  shows "set is \<subseteq> v' \<and> all_listed d v v' ns"
  using assms(1,2,4)
proof (induction "is" arbitrary: v ns)
  case (Cons i "is")
  then obtain n v1 ns' where n: "descend i v = Inr (n, v1)" "each_callee descend is v1 = Inr (ns', v')" "ns = n # ns'"
    by (auto simp: and_then_Inr)
  have 1: "i \<in> v1" "all_listed d v v1 [n]" using assms(5)[OF _ Cons.prems(3) n(1)] Cons.prems(2) by auto
  then have "R - v1 \<subseteq> R - v" by (auto simp: all_listed_def)
  then have "card (R - v1) \<le> k" using card_mono[of "R - v" "R - v1"] assms(3) Cons.prems(3) by simp
  then have 2: "set is \<subseteq> v' \<and> all_listed d v1 v' ns'" using Cons.IH[OF n(2)] Cons.prems(2) by simp
  have "{h. calls d g h} \<subseteq> v'" if "g \<in> v' - v" for g
    using that 1 2 unfolding all_listed_def by (cases "g \<in> v1") blast+
  then show ?case using 1 2 n(3) unfolding all_listed_def by auto
qed (simp add: all_listed_def)

lemma call_graph_rec_complete:
  assumes "usages_indexed d" "finite R" "\<And>g h. g \<in> R \<Longrightarrow> calls d g h \<Longrightarrow> h \<in> R"
  shows "f \<in> R \<Longrightarrow> card (R - v) \<le> k \<Longrightarrow> call_graph_rec d k f v = Inr (n, v') \<Longrightarrow> f \<in> v' \<and> all_listed d v v' [n]"
proof (induction k arbitrary: f v n v')
  case 0
  then have "f \<in> v" using assms(2) by auto
  then show ?case using 0 by (auto simp: all_listed_def)
next
  case (Suc k)
  obtain gs where gs: "distinct_callees d f = Inr gs" "set gs = {g. calls d f g}"
    by (rule distinct_callees_are_the_calls[OF assms(1)])
  show ?case
  proof (cases "f \<in> v")
    case True
    then show ?thesis using Suc.prems by (auto simp: all_listed_def)
  next
    case False
    then obtain ns where ns: "each_callee (call_graph_rec d k) gs (insert f v) = Inr (ns, v')"
      "n = CallGraphNode (name_or_empty d f) (crate_name_of d f) ns False False"
      using Suc.prems(3) gs(1) by (auto simp: and_then_Inr)
    have "R - insert f v = (R - v) - {f}" by auto
    then have "card (R - insert f v) \<le> k" using Suc.prems(1,2) False assms(2) by simp
    moreover have "set gs \<subseteq> R" using gs(2) assms(3) Suc.prems(1) by blast
    ultimately have "set gs \<subseteq> v' \<and> all_listed d (insert f v) v' ns"
      using each_callee_complete[OF ns(1) _ assms(2)] Suc.IH by blast
    then show ?thesis using gs(2) unfolding ns(2) all_listed_def by auto
  qed
qed

lemma finite_reachable:
  assumes "usages_indexed d"
  shows "finite (reachable d f)"
proof -
  have "reachable d f \<subseteq> insert f (snd ` call_edges d)"
    unfolding reachable_def by (auto elim: rtranclE simp: image_iff) (metis rtranclE snd_conv)
  then show ?thesis by (rule finite_subset) (simp add: finite_call_edges[OF assms])
qed

lemma hops_from_reachable: "hops_from d n f \<subseteq> reachable d f"
  unfolding hops_from_def reachable_def by (auto intro: relpow_imp_rtrancl)

text \<open>The call graph of a function terminates whatever cycles the calls have: it lists in their own right the function itself and
  functions within the depth, each exactly once (other occurrences are marked references). When the depth is at least the number of
  reachable functions, it lists exactly those, and no part of it is marked as cut by the depth.\<close>

theorem call_graph_lists_each_function_once:
  assumes "usages_indexed d"
  shows "\<exists>n S. call_graph d f depth = Inr n \<and> mset (expanded n) = image_mset (name_or_empty d) (mset_set S) \<and>
    finite S \<and> f \<in> S \<and> S \<subseteq> hops_from d depth f \<and>
    (card (reachable d f) \<le> depth \<longrightarrow> S = reachable d f \<and> (\<forall>m \<in> set (tree_nodes n). \<not> cn_at_depth m))"
proof -
  obtain n S where n: "call_graph_rec d depth f {} = Inr (n, S)" "f \<in> S" "S \<subseteq> hops_from d depth f" "lists_new d {} S [n]"
    using call_graph_rec_lists[OF assms, of depth f "{}"] by auto
  have "S = reachable d f \<and> (\<forall>m \<in> set (tree_nodes n). \<not> cn_at_depth m)" if "card (reachable d f) \<le> depth"
  proof -
    have "all_listed d {} S [n]"
      using call_graph_rec_complete[OF assms finite_reachable[OF assms] _ _ _ n(1)] that
      by (auto simp: reachable_def call_edges_def intro: rtrancl_into_rtrancl)
    then have closed: "\<And>g h. g \<in> S \<Longrightarrow> calls d g h \<Longrightarrow> h \<in> S" "\<forall>m \<in> set (tree_nodes n). \<not> cn_at_depth m"
      by (auto simp: all_listed_def)
    have "(f, g) \<in> (call_edges d)\<^sup>* \<Longrightarrow> g \<in> S" for g
      by (induction rule: rtrancl_induct) (use n(2) closed(1) in \<open>auto simp: call_edges_def\<close>)
    then have "reachable d f \<subseteq> S" by (auto simp: reachable_def)
    then show ?thesis using n(3) hops_from_reachable[of d depth f] closed(2) by blast
  qed
  then show ?thesis using n by (auto simp: call_graph_def lists_new_def)
qed

subsection \<open>Calls on concrete snapshots\<close>

text \<open>Four functions: 1 calls 2 and then 3, 2 calls 3, 3 calls 4. The indexes list their usages in the order of the identifiers.\<close>

definition cut_calls :: "(node_id \<times> graph_usage) list" where
  "cut_calls = [(11, rec_usage 1 2), (12, rec_usage 1 3), (13, rec_usage 2 3), (14, rec_usage 3 4)]"

fun cut_rows :: graph_rows where
  "cut_rows NodesById = set (map (\<lambda>(i, n). (i, NodeV (rec_node i n))) [(1, ''main''), (2, ''a''), (3, ''b''), (4, ''c'')])"
| "cut_rows UsagesById = set (map (\<lambda>(i, u). (i, UsageV u)) cut_calls)"
| "cut_rows UsagesByTarget = set (map (\<lambda>(i, u). (us_target u, IdV i)) cut_calls)"
| "cut_rows UsagesByConsumerFunction = set (map (\<lambda>(i, u). (the (us_consumer_function u), IdV i)) cut_calls)"
| "cut_rows _ = {}"

lemma cut_indexed: "usages_indexed cut_rows"
  unfolding usages_indexed_def by (auto simp: cut_calls_def rec_usage_def)

lemma cut_edges: "calls cut_rows 1 3" "calls cut_rows 3 4"
  unfolding calls_def
  by (rule exI[of _ 12], rule exI[of _ "rec_usage 1 3"], simp add: cut_calls_def, simp add: rec_usage_def)
    (rule exI[of _ 14], rule exI[of _ "rec_usage 3 4"], simp add: cut_calls_def, simp add: rec_usage_def)

lemma cut_values:
  "values_at UsagesByConsumerFunction 1 cut_rows = {IdV 11, IdV 12}" "values_at UsagesByConsumerFunction 2 cut_rows = {IdV 13}"
  "values_at UsagesByConsumerFunction 3 cut_rows = {IdV 14}" "values_at NodesById 1 cut_rows = {NodeV (rec_node 1 ''main'')}"
  "values_at NodesById 2 cut_rows = {NodeV (rec_node 2 ''a'')}" "values_at NodesById 3 cut_rows = {NodeV (rec_node 3 ''b'')}"
  "values_at NodesById 4 cut_rows = {NodeV (rec_node 4 ''c'')}" "values_at NodesById 9 cut_rows = {}"
  unfolding values_at_def by (auto simp: cut_calls_def rec_usage_def image_iff)

lemma cut_usages:
  "get_usage cut_rows 11 = Some (rec_usage 1 2)" "get_usage cut_rows 12 = Some (rec_usage 1 3)"
  "get_usage cut_rows 13 = Some (rec_usage 2 3)" "get_usage cut_rows 14 = Some (rec_usage 3 4)"
  by (rule get_usage_indexed[OF cut_indexed], simp add: cut_calls_def)+

lemma cut_callees:
  "distinct_callees cut_rows 1 = Inr [2, 3]" "distinct_callees cut_rows 2 = Inr [3]" "distinct_callees cut_rows 3 = Inr [4]"
  by (simp_all add: distinct_callees_def usages_for_consumer_function_def get_duplicates_def cut_values usage_entry_def cut_usages
      push_call_def rec_usage_def)

lemmas cut_names = name_or_empty_def name_of_def crate_name_of_def get_node_def get_row_def cut_values rec_node_def

lemma cut_tree:
  "call_graph cut_rows 1 2 = Inr
     (CallGraphNode ''main'' None
       [CallGraphNode ''a'' None [CallGraphNode ''b'' None [] False True] False False,
        CallGraphNode ''b'' None [] True False] False False)"
  by (simp add: call_graph_def numeral_2_eq_2 cut_callees cut_names)

text \<open>A function that is first met at the depth limit is not expanded, and later, where there is depth left, only referred to: the
  graph of depth two of 1 does not list 4, which 1 reaches in two calls, although the reference to 3 says that its callees
  are listed elsewhere.\<close>

theorem call_graph_can_miss_a_callee_within_depth:
  "\<exists>n. call_graph cut_rows 1 2 = Inr n \<and> 4 \<in> hops_from cut_rows 2 1 \<and> name_of cut_rows 4 = Some ''c'' \<and> ''c'' \<notin> set (expanded n)"
proof -
  have "(1, 3) \<in> call_edges cut_rows" "(3, 4) \<in> call_edges cut_rows" by (simp_all add: call_edges_def cut_edges)
  then have "(1, 4) \<in> call_edges cut_rows ^^ Suc (Suc 0)" by (auto simp: relcomp_unfold)
  then have "4 \<in> hops_from cut_rows 2 1" unfolding hops_from_def by (auto simp: numeral_2_eq_2 simp del: relpow.simps)
  moreover have "name_of cut_rows 4 = Some ''c''" by (simp add: cut_names)
  moreover have "\<exists>n. call_graph cut_rows 1 2 = Inr n \<and> expanded n = [''main'', ''a'', ''b'']" by (simp add: cut_tree expanded_def)
  ultimately show ?thesis by auto
qed

theorem call_graph_lists_each_function_once_witness:
  "\<exists>n S. call_graph cut_rows 1 2 = Inr n \<and> mset (expanded n) = image_mset (name_or_empty cut_rows) (mset_set S) \<and>
    finite S \<and> 1 \<in> S \<and> S \<subseteq> hops_from cut_rows 2 1 \<and>
    (card (reachable cut_rows 1) \<le> 2 \<longrightarrow> S = reachable cut_rows 1 \<and> (\<forall>m \<in> set (tree_nodes n). \<not> cn_at_depth m))"
  by (rule call_graph_lists_each_function_once[OF cut_indexed])

theorem callers_count_is_exact_witness:
  "\<exists>r. recursive_callers_count cut_rows 4 1 = Inr r \<and>
    rcc_transitive r = card (callers_within cut_rows 1 4) \<and>
    rcc_direct r = card (callers_within cut_rows (min 1 1) 4) \<and>
    reaches_depth cut_rows 4 1 (rcc_depth_reached r) \<and>
    (rcc_truncated r \<longleftrightarrow> 0 < (1 :: nat) \<and> callers_within cut_rows (Suc 1) 4 \<noteq> callers_within cut_rows 1 4)"
  by (rule callers_count_is_exact[OF cut_indexed])

end
