(* ===== verification/Dependency_Rules.thy ===== *)
theory Dependency_Rules
  imports Call_Queries Texts
begin

text \<open>
  Dependencies between crates (rmc-graph: graph/query/crates.rs, the target labels of graph/query/shared.rs): the edges between
  the crates of a snapshot with the symbols that carry them, and the check of architecture rules against them, with its
  glob patterns.

  A table is iterated in the order of its keys. A \<open>HashMap\<close> is an association list with distinct keys; names are strings of
  characters, and the rest of a text after the cursor stands for the text and the cursor.
\<close>

subsection \<open>Glob patterns\<close>

definition star :: char where
  "star = CHR 0x2A"

fun find_str :: "string \<Rightarrow> string \<Rightarrow> nat option" where
  "find_str part [] = (if part = [] then Some 0 else None)"
| "find_str part (c # cs) = (if prefix part (c # cs) then Some 0 else map_option Suc (find_str part cs))"

fun glob_loop :: "nat \<Rightarrow> string list \<Rightarrow> string \<Rightarrow> bool" where
  "glob_loop i [] name = True"
| "glob_loop i (part # rest) name =
     (if part = [] then (if rest = [] then True else glob_loop (Suc i) rest name)
      else if i = 0 then (if \<not> prefix part name then False else glob_loop (Suc i) rest (drop (length part) name))
      else if rest = [] then suffix part name \<and> length name \<ge> length part
      else case find_str part name of
             None \<Rightarrow> False
           | Some pos \<Rightarrow> glob_loop (Suc i) rest (drop (pos + length part) name))"

definition glob_match :: "string \<Rightarrow> string \<Rightarrow> bool" where
  "glob_match pattern name =
     (if star \<notin> set pattern then pattern = name else glob_loop 0 (split_on star pattern) name)"

text \<open>What a pattern means: a star stands for any run of characters, another character for itself.\<close>

fun pattern_matches :: "string \<Rightarrow> string \<Rightarrow> bool" where
  "pattern_matches [] name = (name = [])"
| "pattern_matches (c # pattern) name =
     (if c = star then \<exists>k \<le> length name. pattern_matches pattern (drop k name)
      else name \<noteq> [] \<and> hd name = c \<and> pattern_matches pattern (tl name))"

text \<open>Texts that the parts match, each after any run of characters.\<close>

fun after_stars :: "string list \<Rightarrow> string \<Rightarrow> bool" where
  "after_stars [] name = (name = [])"
| "after_stars (part # rest) name = (\<exists>u v. name = u @ part @ v \<and> after_stars rest v)"

lemma split_on_nonempty: "split_on c s \<noteq> []"
  by (induction c s rule: split_on.induct) (auto split: list.split)

lemma after_stars_prepend: "parts \<noteq> [] \<Longrightarrow> after_stars parts v \<Longrightarrow> after_stars parts (u @ v)"
  by (cases parts) (auto, metis append_assoc)

lemma find_str_Some: "find_str part name = Some pos \<Longrightarrow> \<exists>u v. name = u @ part @ v \<and> length u = pos"
proof (induction part name arbitrary: pos rule: find_str.induct)
  case (2 part c cs)
  then show ?case
    by (auto split: if_splits simp: prefix_def) (metis append_Cons length_Cons)
qed (auto split: if_splits)

lemma find_str_first: "name = u @ part @ v \<Longrightarrow> \<exists>pos \<le> length u. find_str part name = Some pos"
proof (induction name arbitrary: u)
  case (Cons c cs)
  show ?case
  proof (cases "prefix part (c # cs)")
    case False
    then obtain u' where "u = c # u'" "cs = u' @ part @ v" using Cons.prems by (cases u) auto
    then show ?thesis using Cons.IH[of u'] False by auto
  qed simp
qed simp

lemma find_str_None: "find_str part name = None \<Longrightarrow> name \<noteq> u @ part @ v"
  using find_str_first by fastforce

text \<open>Taking the first occurrence of a part loses nothing: what follows a later one follows the first, with more before it.\<close>

lemma glob_loop_greedy: "0 < i \<Longrightarrow> parts \<noteq> [] \<Longrightarrow> glob_loop i parts name \<longleftrightarrow> after_stars parts name"
proof (induction i parts name rule: glob_loop.induct)
  case (2 i part rest name)
  show ?case
  proof (cases "part = [] \<or> rest = []")
    case True
    show ?thesis
    proof (cases "part = []")
      case True
      have "rest \<noteq> [] \<Longrightarrow> glob_loop (Suc i) rest name \<longleftrightarrow> after_stars rest name" using 2(1)[OF True] by simp
      moreover have "rest \<noteq> [] \<Longrightarrow> (\<exists>u v. name = u @ v \<and> after_stars rest v) \<longleftrightarrow> after_stars rest name"
        using after_stars_prepend by (metis append_Nil)
      ultimately show ?thesis using True by (cases "rest = []") simp_all
    next
      case False
      then show ?thesis using True 2(4) by (auto simp: suffix_def)
    qed
  next
    case False
    show ?thesis
    proof (cases "find_str part name")
      case None
      then show ?thesis using False 2(4) find_str_None[OF None] by auto
    next
      case (Some pos)
      obtain u v where uv: "name = u @ part @ v" "length u = pos" using find_str_Some[OF Some] by blast
      then have v: "drop (pos + length part) name = v" by simp
      have "after_stars rest v" if "name = u' @ part @ v'" "after_stars rest v'" for u' v'
      proof -
        have "pos \<le> length u'" using find_str_first[OF that(1)] Some by auto
        then have "length v' \<le> length v" using arg_cong[OF that(1), of length] arg_cong[OF uv(1), of length] uv(2) by simp
        moreover have "suffix v name" "suffix v' name" using uv(1) that(1) by (auto simp: suffix_def) (metis append_assoc)+
        ultimately have "suffix v' v" by (metis suffix_length_suffix)
        then show ?thesis using that(2) after_stars_prepend False by (auto simp: suffix_def)
      qed
      then have "after_stars (part # rest) name \<longleftrightarrow> after_stars rest v" using uv(1) by auto
      then show ?thesis using 2(3)[OF _ _ _ Some] False 2(4) Some v by auto
    qed
  qed
qed simp

lemma pattern_parts:
  "pattern_matches pattern name \<longleftrightarrow>
     (\<exists>v. name = hd (split_on star pattern) @ v \<and> after_stars (tl (split_on star pattern)) v)"
proof (induction pattern name rule: pattern_matches.induct)
  case (2 c pattern name)
  obtain p ps where ps: "split_on star pattern = p # ps" using split_on_nonempty by (meson neq_Nil_conv)
  show ?case
  proof (cases "c = star")
    case True
    have "pattern_matches (c # pattern) name \<longleftrightarrow> (\<exists>k \<le> length name. \<exists>v. drop k name = p @ v \<and> after_stars ps v)"
      using 2(1) True ps by auto
    also have "\<dots> \<longleftrightarrow> after_stars (p # ps) name"
    proof
      assume "\<exists>k \<le> length name. \<exists>v. drop k name = p @ v \<and> after_stars ps v"
      then obtain k v where "name = take k name @ p @ v" "after_stars ps v" by (metis append_take_drop_id)
      then show "after_stars (p # ps) name" unfolding after_stars.simps by blast
    next
      assume "after_stars (p # ps) name"
      then obtain u v where "name = u @ p @ v" "after_stars ps v" by auto
      then show "\<exists>k \<le> length name. \<exists>v. drop k name = p @ v \<and> after_stars ps v"
        by (intro exI[of _ "length u"]) simp
    qed
    finally show ?thesis using True ps by simp
  next
    case False
    then show ?thesis using 2(2) ps by (cases name) auto
  qed
qed simp

lemma glob_language: "glob_match pattern name \<longleftrightarrow> pattern_matches pattern name"
proof (cases "star \<in> set pattern")
  case False
  then have "pattern_matches pattern name \<longleftrightarrow> pattern = name" for name
  proof (induction pattern arbitrary: name)
    case (Cons c pattern)
    then show ?case by (cases name) auto
  qed auto
  then show ?thesis using False by (simp add: glob_match_def)
next
  case True
  obtain p ps where ps: "split_on star pattern = p # ps" using split_on_nonempty by (meson neq_Nil_conv)
  have "ps \<noteq> []" using True ps by (induction pattern arbitrary: p ps) (auto split: list.splits if_splits simp: split_on_nonempty)
  have "glob_match pattern name \<longleftrightarrow> prefix p name \<and> glob_loop 1 ps (drop (length p) name)"
    using True ps \<open>ps \<noteq> []\<close> by (auto simp: glob_match_def)
  also have "\<dots> \<longleftrightarrow> (\<exists>v. name = p @ v \<and> after_stars ps v)"
    using \<open>ps \<noteq> []\<close> by (auto simp: glob_loop_greedy prefix_def)
  finally show ?thesis by (simp add: pattern_parts ps)
qed

text \<open>The matcher of the architecture rules, which goes through the pattern once and takes the first occurrence of each part, accepts
  exactly the language of the pattern: a star for any run of characters, possibly empty, every other character for itself.\<close>

theorem glob_match_is_the_pattern_language: "glob_match pattern name \<longleftrightarrow> pattern_matches pattern name"
  by (rule glob_language)

subsection \<open>Edges between crates\<close>

fun binding_of :: "row_value \<Rightarrow> graph_binding option" where
  "binding_of (BindingV b) = Some b"
| "binding_of _ = None"

definition get_binding :: "graph_rows \<Rightarrow> node_id \<Rightarrow> graph_binding option" where
  "get_binding d i = Option.bind (get_row BindingsById i d) binding_of"

definition iter_nodes :: "graph_rows \<Rightarrow> (node_id \<times> graph_node) list" where
  "iter_nodes d = List.map_filter (\<lambda>i. map_option (Pair i) (get_node d i)) (sorted_list_of_set (fst ` d NodesById))"

definition iter_bindings :: "graph_rows \<Rightarrow> graph_binding list" where
  "iter_bindings d = List.map_filter (get_binding d) (sorted_list_of_set (fst ` d BindingsById))"

definition iter_usages :: "graph_rows \<Rightarrow> graph_usage list" where
  "iter_usages d = List.map_filter (get_usage d) (sorted_list_of_set (fst ` d UsagesById))"

definition or_else :: "'a option \<Rightarrow> 'a \<Rightarrow> 'a" where
  "or_else x y = (case x of None \<Rightarrow> y | Some z \<Rightarrow> z)"

definition target_labels :: "graph_rows \<Rightarrow> (node_id \<times> string) list" where
  "target_labels d =
     (let crates = filter (\<lambda>n. nd_kind n = KindCrate) (map snd (iter_nodes d)) in
      map (\<lambda>n. (nd_id n,
             if length (filter (\<lambda>m. nd_qualified_name m = nd_qualified_name n) crates) > 1
             then nd_qualified_name n @ ''['' @ or_else (nd_crate_target_kind n) ''unknown'' @ '']@'' @ or_else (nd_file n) ''unknown''
             else nd_qualified_name n)) crates)"

definition label_of :: "graph_rows \<Rightarrow> node_id \<Rightarrow> string option" where
  "label_of d i = map_of (rev (target_labels d)) i"

fun item_kind_short_label :: "item_kind \<Rightarrow> string" where
  "item_kind_short_label ItemFunction = ''Fn''"
| "item_kind_short_label ItemStruct = ''Struct''"
| "item_kind_short_label ItemEnum = ''Enum''"
| "item_kind_short_label ItemUnion = ''Union''"
| "item_kind_short_label ItemTrait = ''Trait''"
| "item_kind_short_label ItemTypeAlias = ''TypeAlias''"
| "item_kind_short_label ItemConst = ''Const''"
| "item_kind_short_label ItemStatic = ''Static''"
| "item_kind_short_label ItemAssocFunction = ''AssocFn''"
| "item_kind_short_label ItemAssocConst = ''AssocConst''"
| "item_kind_short_label ItemAssocType = ''AssocType''"
| "item_kind_short_label ItemMethod = ''Method''"
| "item_kind_short_label ItemEnumVariant = ''EnumVariant''"
| "item_kind_short_label ItemField = ''Field''"

definition node_kind_label :: "graph_node \<Rightarrow> string" where
  "node_kind_label n = (case nd_kind n of
     KindWorkspace \<Rightarrow> ''Workspace'' | KindCrate \<Rightarrow> ''Crate'' | KindModule \<Rightarrow> ''Module''
   | KindItem \<Rightarrow> (case nd_item_kind n of Some k \<Rightarrow> ''Item.'' @ item_kind_short_label k | None \<Rightarrow> ''Item'')
   | KindExternalSymbol \<Rightarrow> ''ExternalSymbol'')"

fun binding_kind_label :: "binding_kind \<Rightarrow> string" where
  "binding_kind_label Declared = ''Declared''"
| "binding_kind_label NamedImport = ''NamedImport''"
| "binding_kind_label GlobImport = ''GlobImport''"
| "binding_kind_label ExternCrateImport = ''ExternCrateImport''"

record edge_symbol =
  es_target_qualified :: string
  es_target_kind :: string
  es_binding_kind :: "string option"
  es_import_count :: nat
  es_usage_count :: nat

record crate_edge =
  ce_consumer :: string
  ce_producer :: string
  ce_unique_symbols :: nat
  ce_refs_via_imports :: nat
  ce_refs_via_usages :: nat
  ce_symbols :: "edge_symbol list"

definition crate_of :: "graph_rows \<Rightarrow> node_id \<Rightarrow> node_id option" where
  "crate_of d i = Option.bind (get_node d i) nd_crate_id"

definition count_import ::
  "graph_rows \<Rightarrow> graph_binding \<Rightarrow> ((node_id \<times> node_id \<times> node_id \<times> binding_kind) \<times> nat) list \<Rightarrow>
   ((node_id \<times> node_id \<times> node_id \<times> binding_kind) \<times> nat) list" where
  "count_import d b acc =
     (if bd_kind b = Declared then acc
      else case crate_of d (bd_from_module b) of
             None \<Rightarrow> acc
           | Some c \<Rightarrow> (case crate_of d (bd_target b) of
                None \<Rightarrow> acc
              | Some p \<Rightarrow> if c = p then acc else AList.map_default (c, p, bd_target b, bd_kind b) 1 Suc acc))"

definition count_usage ::
  "graph_rows \<Rightarrow> graph_usage \<Rightarrow> ((node_id \<times> node_id \<times> node_id) \<times> nat) list \<Rightarrow> ((node_id \<times> node_id \<times> node_id) \<times> nat) list" where
  "count_usage d u acc =
     (case crate_of d (us_consumer_module u) of
        None \<Rightarrow> acc
      | Some c \<Rightarrow> (case crate_of d (us_target u) of
           None \<Rightarrow> acc
         | Some p \<Rightarrow> if c = p then acc else AList.map_default (c, p, us_target u) 1 Suc acc))"

type_synonym symbol_counts = "((node_id \<times> string option) \<times> nat \<times> nat) list"

definition add_counts ::
  "node_id \<times> node_id \<Rightarrow> node_id \<times> string option \<Rightarrow> nat \<Rightarrow> nat \<Rightarrow> ((node_id \<times> node_id) \<times> symbol_counts) list \<Rightarrow>
   ((node_id \<times> node_id) \<times> symbol_counts) list" where
  "add_counts e s ic uc per_edge =
     AList.map_default e [(s, (ic, uc))] (AList.map_default s (ic, uc) (\<lambda>(i, u). (i + ic, u + uc))) per_edge"

text \<open>\<open>BTreeMap::entry(k).or_insert_with(v)\<close>, modified by \<open>f\<close>.\<close>

fun btree_modify :: "'k::linorder \<Rightarrow> 'v \<Rightarrow> ('v \<Rightarrow> 'v) \<Rightarrow> ('k \<times> 'v) list \<Rightarrow> ('k \<times> 'v) list" where
  "btree_modify k v f [] = [(k, f v)]"
| "btree_modify k v f ((l, w) # m) =
     (if k < l then (k, f v) # (l, w) # m else if k = l then (l, f w) # m else (l, w) # btree_modify k v f m)"

definition add_symbol ::
  "graph_rows \<Rightarrow> (node_id \<times> string option) \<times> nat \<times> nat \<Rightarrow> (node_id \<times> edge_symbol) list \<Rightarrow> (node_id \<times> edge_symbol) list" where
  "add_symbol d entry by_target =
     (case entry of ((t, bk), (ic, uc)) \<Rightarrow>
        btree_modify t
          \<lparr>es_target_qualified = name_or_empty d t, es_target_kind = or_else (map_option node_kind_label (get_node d t)) [],
           es_binding_kind = None, es_import_count = 0, es_usage_count = 0\<rparr>
          (\<lambda>s. s\<lparr>es_import_count := es_import_count s + ic, es_usage_count := es_usage_count s + uc,
                 es_binding_kind := (if bk \<noteq> None \<and> es_binding_kind s = None then bk else es_binding_kind s)\<rparr>)
          by_target)"

definition make_edge :: "graph_rows \<Rightarrow> (node_id \<times> node_id) \<times> symbol_counts \<Rightarrow> crate_edge" where
  "make_edge d e =
     (case e of ((c, p), per_symbol) \<Rightarrow>
        let symbols = sort_key (\<lambda>s. (- int (es_import_count s + es_usage_count s), es_target_qualified s))
                        (map snd (fold (add_symbol d) per_symbol []))
        in \<lparr>ce_consumer = or_else (label_of d c) [], ce_producer = or_else (label_of d p) [],
            ce_unique_symbols = length symbols, ce_refs_via_imports = sum_list (map es_import_count symbols),
            ce_refs_via_usages = sum_list (map es_usage_count symbols), ce_symbols = symbols\<rparr>)"

definition per_edge_counts :: "graph_rows \<Rightarrow> ((node_id \<times> node_id) \<times> symbol_counts) list" where
  "per_edge_counts d =
     (let import_acc = fold (count_import d) (iter_bindings d) [];
          usage_acc = fold (count_usage d) (iter_usages d) []
      in fold (\<lambda>((c, p, t), n). add_counts (c, p) (t, None) 0 n) usage_acc
           (fold (\<lambda>((c, p, t, bk), n). add_counts (c, p) (t, Some (binding_kind_label bk)) n 0) import_acc []))"

definition crate_edges :: "graph_rows \<Rightarrow> crate_edge list" where
  "crate_edges d = sort_key (\<lambda>e. (ce_consumer e, ce_producer e)) (map (make_edge d) (per_edge_counts d))"

subsection \<open>Rules\<close>

record forbidden_rule =
  fr_consumer :: string
  fr_producer :: string
  fr_consumer_kinds :: "string list option"
  fr_except :: "string option"
  fr_severity :: "string option"
  fr_message :: "string option"

record forbidden_violation =
  fv_rule_index :: nat
  fv_consumer :: string
  fv_producer :: string
  fv_severity :: "string option"
  fv_message :: "string option"
  fv_sample_symbol :: "string option"
  fv_unique_symbols :: nat
  fv_total_refs :: nat

definition normalize_consumer_kind :: "string \<Rightarrow> string" where
  "normalize_consumer_kind kind = (if trim kind = ''custom-build'' then ''build'' else to_lowercase (trim kind))"

definition rule_allows_consumer_kind :: "forbidden_rule \<Rightarrow> string \<Rightarrow> bool" where
  "rule_allows_consumer_kind rule kind =
     (case fr_consumer_kinds rule of
        Some (k # ks) \<Rightarrow> list_ex (\<lambda>a. normalize_consumer_kind a = ''*'' \<or> normalize_consumer_kind a = kind) (k # ks)
      | _ \<Rightarrow> kind \<in> set [''lib'', ''bin''])"

definition crate_target_kind_by_name :: "graph_rows \<Rightarrow> (string \<times> string) list" where
  "crate_target_kind_by_name d =
     rev (map (\<lambda>n. (or_else (label_of d (nd_id n)) [], or_else (nd_crate_target_kind n) ''lib''))
       (filter (\<lambda>n. nd_kind n = KindCrate) (map snd (iter_nodes d))))"

definition check_rule :: "graph_rows \<Rightarrow> crate_edge \<Rightarrow> nat \<times> forbidden_rule \<Rightarrow> forbidden_violation option" where
  "check_rule d e r =
     (case r of (idx, rule) \<Rightarrow>
        let consumer_kind = or_else (map_of (crate_target_kind_by_name d) (ce_consumer e)) ''lib'' in
        if \<not> rule_allows_consumer_kind rule consumer_kind then None
        else if \<not> glob_match (fr_consumer rule) (ce_consumer e) then None
        else if \<not> glob_match (fr_producer rule) (ce_producer e) then None
        else if (case fr_except rule of None \<Rightarrow> False | Some ex \<Rightarrow> glob_match ex (ce_consumer e)) then None
        else Some \<lparr>fv_rule_index = idx, fv_consumer = ce_consumer e, fv_producer = ce_producer e,
                   fv_severity = fr_severity rule, fv_message = fr_message rule,
                   fv_sample_symbol = (case ce_symbols e of [] \<Rightarrow> None | s # _ \<Rightarrow> Some (es_target_qualified s)),
                   fv_unique_symbols = ce_unique_symbols e,
                   fv_total_refs = ce_refs_via_imports e + ce_refs_via_usages e\<rparr>)"

definition forbidden_dependency_check :: "graph_rows \<Rightarrow> forbidden_rule list \<Rightarrow> forbidden_violation list" where
  "forbidden_dependency_check d rules =
     sort_key (\<lambda>v. (fv_rule_index v, fv_consumer v, fv_producer v))
       (concat (map (\<lambda>e. List.map_filter (check_rule d e) (zip [0..<length rules] rules)) (crate_edges d)))"

subsection \<open>Sums over association lists\<close>

text \<open>The sum of \<open>g\<close> over the values whose keys satisfy \<open>P\<close>.\<close>

definition sum_at :: "('k \<Rightarrow> bool) \<Rightarrow> ('v \<Rightarrow> nat) \<Rightarrow> ('k \<times> 'v) list \<Rightarrow> nat" where
  "sum_at P g m = (\<Sum>(k, v) \<leftarrow> m. if P k then g v else 0)"

named_theorems totals

lemma total_simps [simp]:
  "sum_at P g [] = 0" "sum_at P g ((k, v) # m) = (if P k then g v else 0) + sum_at P g m"
  by (simp_all add: sum_at_def)

lemma total_map_default [totals]:
  assumes "g v = n" "\<And>x. g (f x) = g x + n"
  shows "sum_at P g (AList.map_default k v f m) = sum_at P g m + (if P k then n else 0)"
  using assms by (induction m) (auto simp: split_beta)

lemma total_btree_modify:
  assumes "g v = 0" "\<And>x. g (f x) = g x + n"
  shows "sum_at (\<lambda>_. True) g (btree_modify k v f m) = sum_at (\<lambda>_. True) g m + n"
  using assms by (induction k v f m rule: btree_modify.induct) auto

lemma total_fold:
  assumes "\<And>x m. sum_at P g (f x m) = sum_at P g m + h x"
  shows "sum_at P g (fold f xs m) = sum_at P g m + sum_list (map h xs)"
  using assms by (induction xs arbitrary: m) (simp_all add: add.assoc)

lemma total_at_key:
  assumes "distinct (keys m)" "(k, v) \<in> set m"
  shows "sum_at (\<lambda>x. x = k) g m = g v"
proof -
  have other: "l \<notin> fst ` set n \<Longrightarrow> sum_at (\<lambda>x. x = l) g n = 0" for l n by (induction n) auto
  show ?thesis using assms by (induction m) (auto simp: other image_iff)
qed

lemma sum_indicator: "sum_list (map (\<lambda>x. if P x then 1 else 0) xs) = length (filter P xs)"
  by (induction xs) simp_all

subsection \<open>The edges are exact\<close>

definition import_crosses :: "graph_rows \<Rightarrow> node_id \<Rightarrow> node_id \<Rightarrow> graph_binding \<Rightarrow> bool" where
  "import_crosses d c p b \<longleftrightarrow>
     bd_kind b \<noteq> Declared \<and> crate_of d (bd_from_module b) = Some c \<and> crate_of d (bd_target b) = Some p \<and> c \<noteq> p"

definition usage_crosses :: "graph_rows \<Rightarrow> node_id \<Rightarrow> node_id \<Rightarrow> graph_usage \<Rightarrow> bool" where
  "usage_crosses d c p u \<longleftrightarrow> crate_of d (us_consumer_module u) = Some c \<and> crate_of d (us_target u) = Some p \<and> c \<noteq> p"

abbreviation import_keys :: "node_id \<times> node_id \<Rightarrow> node_id \<times> node_id \<times> node_id \<times> binding_kind \<Rightarrow> bool" where
  "import_keys e k \<equiv> fst k = fst e \<and> fst (snd k) = snd e"

abbreviation usage_keys :: "node_id \<times> node_id \<Rightarrow> node_id \<times> node_id \<times> node_id \<Rightarrow> bool" where
  "usage_keys e k \<equiv> fst k = fst e \<and> fst (snd k) = snd e"

lemma total_imports:
  "sum_at (import_keys (c, p)) id (fold (count_import d) bs []) = length (filter (import_crosses d c p) bs)"
proof -
  have "sum_at (import_keys (c, p)) id (count_import d b acc) =
      sum_at (import_keys (c, p)) id acc + (if import_crosses d c p b then 1 else 0)" for b acc
    by (auto simp: count_import_def import_crosses_def total_map_default[where n = 1] split: option.split)
  then have "sum_at (import_keys (c, p)) id (fold (count_import d) bs []) =
      0 + sum_list (map (\<lambda>b. if import_crosses d c p b then 1 else 0) bs)" by (subst total_fold) (simp_all only: total_simps)
  then show ?thesis unfolding sum_indicator by simp
qed

lemma total_usages:
  "sum_at (usage_keys (c, p)) id (fold (count_usage d) us []) = length (filter (usage_crosses d c p) us)"
proof -
  have "sum_at (usage_keys (c, p)) id (count_usage d u acc) =
      sum_at (usage_keys (c, p)) id acc + (if usage_crosses d c p u then 1 else 0)" for u acc
    by (auto simp: count_usage_def usage_crosses_def total_map_default[where n = 1] split: option.split)
  then have "sum_at (usage_keys (c, p)) id (fold (count_usage d) us []) =
      0 + sum_list (map (\<lambda>u. if usage_crosses d c p u then 1 else 0) us)" by (subst total_fold) (simp_all only: total_simps)
  then show ?thesis unfolding sum_indicator by simp
qed

abbreviation all_imports :: "symbol_counts \<Rightarrow> nat" where
  "all_imports \<equiv> sum_at (\<lambda>_. True) fst"

abbreviation all_usages :: "symbol_counts \<Rightarrow> nat" where
  "all_usages \<equiv> sum_at (\<lambda>_. True) snd"

lemma total_add_counts:
  "sum_at (\<lambda>x. x = e) all_imports (add_counts e' s ic uc m) = sum_at (\<lambda>x. x = e) all_imports m + (if e' = e then ic else 0)"
  "sum_at (\<lambda>x. x = e) all_usages (add_counts e' s ic uc m) = sum_at (\<lambda>x. x = e) all_usages m + (if e' = e then uc else 0)"
  unfolding add_counts_def
  by (rule total_map_default, simp, simp add: total_map_default split_beta)
    (rule total_map_default, simp, simp add: total_map_default split_beta)

lemma total_as_sum: "sum_at P id m = sum_list (map (\<lambda>(k, n). if P k then n else 0) m)"
  by (simp add: sum_at_def split_beta cong: if_cong)

lemma per_edge_totals:
  "sum_at (\<lambda>x. x = (c, p)) all_imports (per_edge_counts d) = length (filter (import_crosses d c p) (iter_bindings d))"
  "sum_at (\<lambda>x. x = (c, p)) all_usages (per_edge_counts d) = length (filter (usage_crosses d c p) (iter_usages d))"
proof -
  let ?imp = "\<lambda>((c, p, t, bk), n). add_counts (c, p) (t, Some (binding_kind_label bk)) n 0"
  let ?use = "\<lambda>((c, p, t), n). add_counts (c, p) (t, None) 0 n"
  let ?e = "\<lambda>x. x = (c, p)"
  have i: "sum_at ?e all_imports (fold ?imp acc m) = sum_at ?e all_imports m + sum_at (import_keys (c, p)) id acc"
    "sum_at ?e all_usages (fold ?imp acc m) = sum_at ?e all_usages m" for acc m
    unfolding total_as_sum
    by (subst total_fold[where h = "\<lambda>(k, n). if import_keys (c, p) k then n else 0"]; simp add: split_beta total_add_counts)
      (subst total_fold[where h = "\<lambda>_. 0"]; simp add: split_beta total_add_counts)
  have u: "sum_at ?e all_usages (fold ?use acc m) = sum_at ?e all_usages m + sum_at (usage_keys (c, p)) id acc"
    "sum_at ?e all_imports (fold ?use acc m) = sum_at ?e all_imports m" for acc m
    unfolding total_as_sum
    by (subst total_fold[where h = "\<lambda>(k, n). if usage_keys (c, p) k then n else 0"]; simp add: split_beta total_add_counts)
      (subst total_fold[where h = "\<lambda>_. 0"]; simp add: split_beta total_add_counts)
  show "sum_at ?e all_imports (per_edge_counts d) = length (filter (import_crosses d c p) (iter_bindings d))"
    "sum_at ?e all_usages (per_edge_counts d) = length (filter (usage_crosses d c p) (iter_usages d))"
    unfolding per_edge_counts_def Let_def by (simp_all add: i u total_imports[of c p, simplified] total_usages[of c p, simplified])
qed

lemma keys_counted:
  "fst ` set (fold (count_import d) bs acc) =
     fst ` set acc \<union> (\<Union>b \<in> set bs. {(c, p, bd_target b, bd_kind b) | c p. import_crosses d c p b})"
  "fst ` set (fold (count_usage d) us acc') =
     fst ` set acc' \<union> (\<Union>u \<in> set us. {(c, p, us_target u) | c p. usage_crosses d c p u})"
proof -
  have i: "fst ` set (count_import d b acc) = fst ` set acc \<union> {(c, p, bd_target b, bd_kind b) | c p. import_crosses d c p b}" for b acc
    unfolding count_import_def import_crosses_def
    by (cases "crate_of d (bd_from_module b)"; cases "crate_of d (bd_target b)"; simp) blast?
  have u: "fst ` set (count_usage d u acc) = fst ` set acc \<union> {(c, p, us_target u) | c p. usage_crosses d c p u}" for u acc
    unfolding count_usage_def usage_crosses_def
    by (cases "crate_of d (us_consumer_module u)"; cases "crate_of d (us_target u)"; simp) blast?
  show "fst ` set (fold (count_import d) bs acc) =
     fst ` set acc \<union> (\<Union>b \<in> set bs. {(c, p, bd_target b, bd_kind b) | c p. import_crosses d c p b})"
    by (induction bs arbitrary: acc) (simp_all only: fold_simps i list.set UN_insert UN_empty Un_empty_right Un_assoc)
  show "fst ` set (fold (count_usage d) us acc') =
     fst ` set acc' \<union> (\<Union>u \<in> set us. {(c, p, us_target u) | c p. usage_crosses d c p u})"
    by (induction us arbitrary: acc') (simp_all only: fold_simps u list.set UN_insert UN_empty Un_empty_right Un_assoc)
qed

lemma keys_per_edge:
  "fst ` set (fold (\<lambda>(k, n). add_counts (edge k) (sy k) (ic k n) (uc k n)) acc m) = fst ` set m \<union> edge ` fst ` set acc"
  "distinct (keys m) \<Longrightarrow> distinct (keys (fold (\<lambda>(k, n). add_counts (edge k) (sy k) (ic k n) (uc k n)) acc m))"
  by (induction acc arbitrary: m) (simp_all add: add_counts_def split_beta)

definition crossing :: "graph_rows \<Rightarrow> (node_id \<times> node_id) set" where
  "crossing d = {(c, p). (\<exists>b \<in> set (iter_bindings d). import_crosses d c p b) \<or> (\<exists>u \<in> set (iter_usages d). usage_crosses d c p u)}"

lemma per_edge_keys: "set (keys (per_edge_counts d)) = crossing d" "distinct (keys (per_edge_counts d))"
proof -
  let ?imports = "fold (count_import d) (iter_bindings d) []" and ?usages = "fold (count_usage d) (iter_usages d) []"
  let ?m = "fold (\<lambda>(k, n). add_counts (fst k, fst (snd k)) (fst (snd (snd k)), Some (binding_kind_label (snd (snd (snd k))))) n 0) ?imports []"
  have e: "per_edge_counts d = fold (\<lambda>(k, n). add_counts (fst k, fst (snd k)) (snd (snd k), None) 0 n) ?usages ?m"
  proof -
    have "(\<lambda>((c, p, t, bk), n). add_counts (c, p) (t, Some (binding_kind_label bk)) n 0) =
        (\<lambda>(k, n). add_counts (fst k, fst (snd k)) (fst (snd (snd k)), Some (binding_kind_label (snd (snd (snd k))))) n 0)"
      "(\<lambda>((c, p, t), n). add_counts (c, p) (t, None) 0 n) = (\<lambda>(k, n). add_counts (fst k, fst (snd k)) (snd (snd k), None) 0 n)"
      by (rule ext, auto)+
    then show ?thesis unfolding per_edge_counts_def Let_def by simp
  qed
  have img: "(\<lambda>k. (fst k, fst (snd k))) ` {(c, p, t, bk) | c p. Q c p} = {(c, p). Q c p}"
    "(\<lambda>k. (fst k, fst (snd k))) ` {(c, p, t) | c p. Q c p} = {(c, p). Q c p}"
    for Q :: "node_id \<Rightarrow> node_id \<Rightarrow> bool" and t :: node_id and bk :: binding_kind
    by (force simp: image_iff)+
  have "fst ` set (per_edge_counts d) =
      (\<lambda>k. (fst k, fst (snd k))) ` fst ` set ?imports \<union> (\<lambda>k. (fst k, fst (snd k))) ` fst ` set ?usages"
    unfolding e keys_per_edge(1) by simp
  also have "(\<lambda>k. (fst k, fst (snd k))) ` fst ` set ?imports = {(c, p). \<exists>b \<in> set (iter_bindings d). import_crosses d c p b}"
    unfolding keys_counted list.set(1) image_empty Un_empty_left image_UN img by auto
  also have "(\<lambda>k. (fst k, fst (snd k))) ` fst ` set ?usages = {(c, p). \<exists>u \<in> set (iter_usages d). usage_crosses d c p u}"
    unfolding keys_counted list.set(1) image_empty Un_empty_left image_UN img by auto
  finally show "set (keys (per_edge_counts d)) = crossing d" by (auto simp: crossing_def)
  show "distinct (keys (per_edge_counts d))" unfolding e by (intro keys_per_edge(2)) simp
qed

lemma total_sorted_values: "sum_list (map g (sort_key k (map snd m))) = sum_at (\<lambda>_. True) g m"
proof -
  have "sum_list (map g (sort_key k xs)) = sum_list (map g xs)" for xs
    by (metis mset_map mset_sort sum_mset_sum_list)
  moreover have "sum_list (map g (map snd m)) = sum_at (\<lambda>_. True) g m" by (induction m) auto
  ultimately show ?thesis by simp
qed

lemma edge_refs:
  "ce_consumer (make_edge d ((c, p), m)) = or_else (label_of d c) []" "ce_producer (make_edge d ((c, p), m)) = or_else (label_of d p) []"
  "ce_refs_via_imports (make_edge d ((c, p), m)) = all_imports m" "ce_refs_via_usages (make_edge d ((c, p), m)) = all_usages m"
proof -
  have "sum_at (\<lambda>_. True) es_import_count (fold (add_symbol d) m s) = sum_at (\<lambda>_. True) es_import_count s + all_imports m"
    "sum_at (\<lambda>_. True) es_usage_count (fold (add_symbol d) m s) = sum_at (\<lambda>_. True) es_usage_count s + all_usages m" for s
  proof (induction m arbitrary: s)
    case (Cons e m)
    obtain t bk ic uc where e: "e = ((t, bk), (ic, uc))" by (metis prod.exhaust)
    have step: "sum_at (\<lambda>_. True) es_import_count (add_symbol d e s) = sum_at (\<lambda>_. True) es_import_count s + ic"
      "sum_at (\<lambda>_. True) es_usage_count (add_symbol d e s) = sum_at (\<lambda>_. True) es_usage_count s + uc"
      for s unfolding add_symbol_def e by (simp_all add: total_btree_modify)
    { case 1 show ?case using Cons(1)[of "add_symbol d e s"] step by (simp add: e) }
    { case 2 show ?case using Cons(2)[of "add_symbol d e s"] step by (simp add: e) }
  qed simp_all
  then show "ce_refs_via_imports (make_edge d ((c, p), m)) = all_imports m" "ce_refs_via_usages (make_edge d ((c, p), m)) = all_usages m"
    by (simp_all add: make_edge_def Let_def total_sorted_values)
qed (simp_all add: make_edge_def Let_def)

text \<open>The references from the crate \<open>c\<close> to the crate \<open>p\<close> that the tables hold.\<close>

definition imports_across :: "graph_rows \<Rightarrow> node_id \<Rightarrow> node_id \<Rightarrow> node_id set" where
  "imports_across d c p = {i \<in> fst ` d BindingsById. \<exists>b. get_binding d i = Some b \<and> import_crosses d c p b}"

definition usages_across :: "graph_rows \<Rightarrow> node_id \<Rightarrow> node_id \<Rightarrow> node_id set" where
  "usages_across d c p = {i \<in> fst ` d UsagesById. \<exists>u. get_usage d i = Some u \<and> usage_crosses d c p u}"

definition dependencies :: "graph_rows \<Rightarrow> (node_id \<times> node_id) set" where
  "dependencies d = {(c, p). imports_across d c p \<noteq> {} \<or> usages_across d c p \<noteq> {}}"

lemma length_filter_map_filter:
  assumes "finite K"
  shows "length (filter P (List.map_filter f (sorted_list_of_set K))) = card {i \<in> K. \<exists>x. f i = Some x \<and> P x}"
proof -
  have "length (filter P (List.map_filter f is)) = card {i \<in> set is. \<exists>x. f i = Some x \<and> P x}" if "distinct is" for "is"
    using that
  proof (induction "is")
    case (Cons i "is")
    have "{j \<in> set (i # is). \<exists>x. f j = Some x \<and> P x} =
        (if \<exists>x. f i = Some x \<and> P x then {i} else {}) \<union> {j \<in> set is. \<exists>x. f j = Some x \<and> P x}" by auto
    then show ?case using Cons by (auto simp: map_filter_simps split: option.split)
  qed (simp add: map_filter_simps)
  from this[of "sorted_list_of_set K"] show ?thesis using assms by simp
qed

lemma set_map_filter_sorted: "finite K \<Longrightarrow> set (List.map_filter f (sorted_list_of_set K)) = {x. \<exists>i \<in> K. f i = Some x}"
  by (auto simp: map_filter_def image_iff) force

lemma crossing_dependencies:
  assumes "finite (d BindingsById)" "finite (d UsagesById)"
  shows "crossing d = dependencies d"
  using assms
  by (auto simp: crossing_def dependencies_def imports_across_def usages_across_def iter_bindings_def iter_usages_def
      set_map_filter_sorted)

definition shown :: "graph_rows \<Rightarrow> node_id \<Rightarrow> string" where
  "shown d c = or_else (label_of d c) []"

abbreviation edge_summary :: "crate_edge \<Rightarrow> string \<times> string \<times> nat \<times> nat" where
  "edge_summary e \<equiv> (ce_consumer e, ce_producer e, ce_refs_via_imports e, ce_refs_via_usages e)"

definition dependency_summary :: "graph_rows \<Rightarrow> node_id \<times> node_id \<Rightarrow> string \<times> string \<times> nat \<times> nat" where
  "dependency_summary d e =
     (shown d (fst e), shown d (snd e), card (imports_across d (fst e) (snd e)), card (usages_across d (fst e) (snd e)))"

lemma crate_edges_mset:
  assumes "finite (d BindingsById)" "finite (d UsagesById)"
  shows "image_mset edge_summary (mset (crate_edges d)) = image_mset (dependency_summary d) (mset_set (dependencies d))"
proof -
  let ?m = "per_edge_counts d"
  have "edge_summary (make_edge d x) = dependency_summary d (fst x)" if x: "x \<in> set ?m" for x
  proof -
    obtain c p v where e: "x = ((c, p), v)" by (metis prod.exhaust)
    have "all_imports v = length (filter (import_crosses d c p) (iter_bindings d))"
      "all_usages v = length (filter (usage_crosses d c p) (iter_usages d))"
      using total_at_key[OF per_edge_keys(2), of "(c, p)" v d] x per_edge_totals[of c p d] unfolding e by simp_all
    then show ?thesis
      using assms unfolding e dependency_summary_def shown_def
      by (simp add: edge_refs iter_bindings_def iter_usages_def length_filter_map_filter imports_across_def usages_across_def)
  qed
  then have "image_mset edge_summary (mset (crate_edges d)) = mset (map (\<lambda>x. dependency_summary d (fst x)) ?m)"
    unfolding crate_edges_def mset_sort mset_map image_mset.compositionality comp_def
    by (intro image_mset_cong) (simp only: set_mset_mset)
  also have "\<dots> = image_mset (dependency_summary d) (mset (keys ?m))" by (simp add: image_mset.compositionality comp_def)
  also have "mset (keys ?m) = mset_set (set (keys ?m))" using per_edge_keys(2) by (simp only: mset_set_set)
  also have "set (keys ?m) = dependencies d" unfolding per_edge_keys(1) by (rule crossing_dependencies[OF assms])
  finally show ?thesis .
qed

text \<open>The edges between crates are exact: one for each ordered pair of different crates of which the first refers to the
  second by an import or by a usage, with the number of import bindings and of usages that the tables hold between them;
  sorted by the labels of the two crates.\<close>

theorem crate_edges_are_exact:
  assumes "finite (d BindingsById)" "finite (d UsagesById)"
  shows "mset (map edge_summary (crate_edges d)) = image_mset (dependency_summary d) (mset_set (dependencies d)) \<and>
    sorted (map (\<lambda>e. (ce_consumer e, ce_producer e)) (crate_edges d))"
  using crate_edges_mset[OF assms] by (simp add: crate_edges_def)

subsection \<open>The violations are exact\<close>

definition rule_forbids :: "graph_rows \<Rightarrow> forbidden_rule \<Rightarrow> string \<Rightarrow> string \<Rightarrow> bool" where
  "rule_forbids d rule consumer producer \<longleftrightarrow>
     rule_allows_consumer_kind rule (or_else (map_of (crate_target_kind_by_name d) consumer) ''lib'') \<and>
     pattern_matches (fr_consumer rule) consumer \<and> pattern_matches (fr_producer rule) producer \<and>
     (\<forall>ex. fr_except rule = Some ex \<longrightarrow> \<not> pattern_matches ex consumer)"

abbreviation violation_summary :: "forbidden_violation \<Rightarrow> string \<times> string \<times> nat" where
  "violation_summary v \<equiv> (fv_consumer v, fv_producer v, fv_total_refs v)"

lemma check_rule_spec:
  "check_rule d e (i, rule) \<noteq> None \<longleftrightarrow> rule_forbids d rule (ce_consumer e) (ce_producer e)"
  "check_rule d e (i, rule) = Some v \<Longrightarrow> fv_rule_index v = i \<and>
     violation_summary v = (ce_consumer e, ce_producer e, ce_refs_via_imports e + ce_refs_via_usages e)"
  by (auto simp: check_rule_def rule_forbids_def Let_def glob_language split: if_splits option.splits)

lemma violations_of_edge:
  assumes "i < length rules"
  shows "filter (\<lambda>v. fv_rule_index v = i) (List.map_filter (check_rule d e) (zip [0..<length rules] rules)) =
    (case check_rule d e (i, rules ! i) of None \<Rightarrow> [] | Some v \<Rightarrow> [v])"
proof -
  have skip: "filter (\<lambda>v. fv_rule_index v = i) (List.map_filter (check_rule d e) (zip [k..<k + length rs] rs)) = []" if "i < k" for k rs
    using that
  proof (induction rs arbitrary: k)
    case (Cons r rs)
    have "zip [k..<k + length (r # rs)] (r # rs) = (k, r) # zip [Suc k..<Suc k + length rs] rs" by (simp add: upt_rec)
    then show ?case using Cons.IH[of "Suc k"] Cons.prems
      by (auto simp: map_filter_simps dest: check_rule_spec(2) split: option.split)
  qed (simp add: map_filter_simps)
  have "filter (\<lambda>v. fv_rule_index v = i) (List.map_filter (check_rule d e) (zip [k..<k + length rs] rs)) =
      (case check_rule d e (i, rs ! (i - k)) of None \<Rightarrow> [] | Some v \<Rightarrow> [v])" if "k \<le> i" "i < k + length rs" for k rs
    using that
  proof (induction rs arbitrary: k)
    case (Cons r rs)
    have z: "zip [k..<k + length (r # rs)] (r # rs) = (k, r) # zip [Suc k..<Suc k + length rs] rs" by (simp add: upt_rec)
    show ?case
    proof (cases "i = k")
      case True
      then show ?thesis using skip[of "Suc k" rs] unfolding z
        by (auto simp: map_filter_simps dest: check_rule_spec(2) split: option.split)
    next
      case False
      then have "(r # rs) ! (i - k) = rs ! (i - Suc k)" using Cons.prems by (simp add: nth_Cons')
      then show ?thesis using Cons.IH[of "Suc k"] Cons.prems False unfolding z
        by (auto simp: map_filter_simps dest: check_rule_spec(2) split: option.split)
    qed
  qed simp
  from this[of 0 rules] show ?thesis using assms by simp
qed

lemma sorted_by_first:
  fixes f :: "'x \<Rightarrow> 'k::linorder" and g :: "'x \<Rightarrow> 'l::linorder"
  shows "sorted (map (\<lambda>x. (f x, g x)) xs) \<Longrightarrow> sorted (map f xs)"
  by (induction xs) (auto simp: less_eq_prod_def less_imp_le)

text \<open>C39: The check of the architecture rules reports, for each rule, exactly the dependencies between crates that the rule forbids, each
  once: those whose labels match the patterns of the rule and not its exception, of a target kind that the rule inspects, with all
  their references counted. It reports nothing else, in the order of the rules.\<close>

theorem violations_are_exact:
  assumes "finite (d BindingsById)" "finite (d UsagesById)"
  shows "(\<forall>i < length rules.
      image_mset violation_summary (filter_mset (\<lambda>v. fv_rule_index v = i) (mset (forbidden_dependency_check d rules))) =
      image_mset (\<lambda>(c, p). (shown d c, shown d p, card (imports_across d c p) + card (usages_across d c p)))
        (filter_mset (\<lambda>(c, p). rule_forbids d (rules ! i) (shown d c) (shown d p)) (mset_set (dependencies d)))) \<and>
    (\<forall>v \<in> set (forbidden_dependency_check d rules). fv_rule_index v < length rules) \<and>
    sorted (map fv_rule_index (forbidden_dependency_check d rules))"
proof (intro conjI allI impI ballI)
  let ?found = "\<lambda>e. List.map_filter (check_rule d e) (zip [0..<length rules] rules)"
  have mset_check: "mset (forbidden_dependency_check d rules) = mset (concat (map ?found (crate_edges d)))"
    by (simp add: forbidden_dependency_check_def)
  { fix i assume i: "i < length rules"
    let ?P = "\<lambda>(c, p, a, b). rule_forbids d (rules ! i) c p" and ?s = "\<lambda>(c, p, a, b). (c, p, a + b)"
    have one: "image_mset violation_summary (mset (filter (\<lambda>v. fv_rule_index v = i) (?found e))) =
        image_mset ?s (filter_mset ?P {#edge_summary e#})" for e
      unfolding violations_of_edge[OF i]
      using check_rule_spec[of d e i "rules ! i"] by (cases "check_rule d e (i, rules ! i)") auto
    have "image_mset violation_summary (mset (filter (\<lambda>v. fv_rule_index v = i) (concat (map ?found es)))) =
        image_mset ?s (filter_mset ?P (image_mset edge_summary (mset es)))" for es
      by (induction es) (simp_all del: mset_filter add: one)
    from this[of "crate_edges d"]
    have "image_mset violation_summary (filter_mset (\<lambda>v. fv_rule_index v = i) (mset (forbidden_dependency_check d rules))) =
        image_mset ?s (filter_mset ?P (image_mset edge_summary (mset (crate_edges d))))"
      unfolding mset_check mset_filter[symmetric] .
    also have "\<dots> = image_mset ?s (filter_mset ?P (image_mset (dependency_summary d) (mset_set (dependencies d))))"
      unfolding crate_edges_mset[OF assms] ..
    also have "\<dots> = image_mset (\<lambda>(c, p). (shown d c, shown d p, card (imports_across d c p) + card (usages_across d c p)))
        (filter_mset (\<lambda>(c, p). rule_forbids d (rules ! i) (shown d c) (shown d p)) (mset_set (dependencies d)))"
      by (simp add: filter_mset_image_mset image_mset.compositionality comp_def case_prod_unfold dependency_summary_def)
    finally show "image_mset violation_summary (filter_mset (\<lambda>v. fv_rule_index v = i) (mset (forbidden_dependency_check d rules))) =
      image_mset (\<lambda>(c, p). (shown d c, shown d p, card (imports_across d c p) + card (usages_across d c p)))
        (filter_mset (\<lambda>(c, p). rule_forbids d (rules ! i) (shown d c) (shown d p)) (mset_set (dependencies d)))" . }
  { fix v assume "v \<in> set (forbidden_dependency_check d rules)"
    then obtain e r where "check_rule d e r = Some v" "r \<in> set (zip [0..<length rules] rules)"
      by (auto simp: forbidden_dependency_check_def map_filter_def)
    then show "fv_rule_index v < length rules" using check_rule_spec(2)[of d e "fst r" "snd r" v] by (auto simp: set_zip) }
  have "sorted (map (\<lambda>v. (fv_rule_index v, fv_consumer v, fv_producer v)) (forbidden_dependency_check d rules))"
    unfolding forbidden_dependency_check_def by (rule sorted_sort_key)
  then show "sorted (map fv_rule_index (forbidden_dependency_check d rules))"
    by (rule sorted_by_first)
qed

subsection \<open>Two crates\<close>

text \<open>A module of the crate \<open>app\<close> imports an item of the crate \<open>tokio\<close> by name; the rule forbids any crate to use \<open>tok*\<close>.\<close>

definition dep_node :: "node_id \<Rightarrow> node_kind \<Rightarrow> string \<Rightarrow> node_id \<Rightarrow> graph_node" where
  "dep_node i kind name krate = (rec_node i name)\<lparr>nd_kind := kind, nd_crate_id := Some krate\<rparr>"

definition dep_binding :: graph_binding where
  "dep_binding = \<lparr>bd_from_module = 3, bd_namespace = TypeNs, bd_visible_name = ''spawn'', bd_target = 4, bd_kind = NamedImport,
     bd_visibility = VisPrivate, bd_is_explicit_pub_use = False\<rparr>"

fun dep_rows :: graph_rows where
  "dep_rows NodesById = set [(1, NodeV (dep_node 1 KindCrate ''app'' 1)), (2, NodeV (dep_node 2 KindCrate ''tokio'' 2)),
     (3, NodeV (dep_node 3 KindModule ''app'' 1)), (4, NodeV (dep_node 4 KindItem ''tokio::spawn'' 2))]"
| "dep_rows BindingsById = set [(21, BindingV dep_binding)]"
| "dep_rows _ = {}"

definition dep_rule :: forbidden_rule where
  "dep_rule = \<lparr>fr_consumer = ''*'', fr_producer = ''tok*'', fr_consumer_kinds = None, fr_except = None, fr_severity = None,
     fr_message = None\<rparr>"

lemma dep_values:
  "values_at NodesById 3 dep_rows = {NodeV (dep_node 3 KindModule ''app'' 1)}"
  "values_at NodesById 4 dep_rows = {NodeV (dep_node 4 KindItem ''tokio::spawn'' 2)}"
  "values_at BindingsById 21 dep_rows = {BindingV dep_binding}"
  unfolding values_at_def by (auto simp: image_iff)

lemma dep_crosses: "imports_across dep_rows 1 2 = {21}"
  unfolding imports_across_def
  by (auto simp: get_binding_def get_row_def dep_values import_crosses_def dep_binding_def crate_of_def get_node_def dep_node_def)

theorem crate_edges_are_exact_witness:
  "(1, 2) \<in> dependencies dep_rows \<and>
   mset (map edge_summary (crate_edges dep_rows)) = image_mset (dependency_summary dep_rows) (mset_set (dependencies dep_rows))"
  using crate_edges_are_exact[of dep_rows] dep_crosses by (simp add: dependencies_def)

theorem violations_are_exact_witness:
  "image_mset violation_summary (filter_mset (\<lambda>v. fv_rule_index v = 0) (mset (forbidden_dependency_check dep_rows [dep_rule]))) =
     image_mset (\<lambda>(c, p). (shown dep_rows c, shown dep_rows p, card (imports_across dep_rows c p) + card (usages_across dep_rows c p)))
       (filter_mset (\<lambda>(c, p). rule_forbids dep_rows dep_rule (shown dep_rows c) (shown dep_rows p)) (mset_set (dependencies dep_rows)))"
  using violations_are_exact[of dep_rows "[dep_rule]"] by simp

end
