(* ===== verification/Surface_Queries.thy ===== *)
theory Surface_Queries
  imports Dependency_Rules
begin

text \<open>
  What a crate shows to others (rmc-graph: graph/query/imports.rs, graph/query/surface.rs, graph/query/usage.rs): the bindings that
  a module exports to a consumer, re-exports and their chains, public items that no other crate refers to, and the rollup of
  the usages of an item.

  As in \<open>Call_Queries\<close>, an index iterates as a list of entries and an entry without its row is an error.
\<close>

subsection \<open>Bindings\<close>

definition binding_entry :: "string \<Rightarrow> graph_rows \<Rightarrow> node_id \<Rightarrow> (string, graph_binding) result" where
  "binding_entry dangling d bid = (case get_binding d bid of None \<Rightarrow> Inl dangling | Some b \<Rightarrow> Inr b)"

definition bindings_for_from_module :: "graph_rows \<Rightarrow> node_id \<Rightarrow> (string, graph_binding) result list" where
  "bindings_for_from_module d m =
     map (binding_entry ''dangling BindingId in bindings_by_from_module'' d) (get_duplicates BindingsByFromModule m d)"

definition bindings_for_target :: "graph_rows \<Rightarrow> node_id \<Rightarrow> (string, graph_binding) result list" where
  "bindings_for_target d t =
     map (binding_entry ''dangling BindingId in bindings_by_target'' d) (get_duplicates BindingsByTarget t d)"

definition kept :: "('a \<Rightarrow> bool) \<Rightarrow> (string, 'a) result list \<Rightarrow> (string, 'a list) result" where
  "kept P entries = and_then (all_ok entries) (\<lambda>xs. Inr (filter P xs))"

definition imports_of :: "graph_rows \<Rightarrow> node_id \<Rightarrow> (string, graph_binding list) result" where
  "imports_of d m = kept (\<lambda>b. bd_kind b \<noteq> Declared) (bindings_for_from_module d m)"

definition who_imports :: "graph_rows \<Rightarrow> node_id \<Rightarrow> (string, graph_binding list) result" where
  "who_imports d t = kept (\<lambda>b. bd_kind b \<noteq> Declared) (bindings_for_target d t)"

text \<open>The set of a module and what encloses it; the loop ends at the root, or where it comes back to a module of the set.\<close>

function ancestors_loop :: "graph_rows \<Rightarrow> node_id option \<Rightarrow> node_id set \<Rightarrow> node_id set" where
  "ancestors_loop d None seen = seen"
| "ancestors_loop d (Some i) seen =
     (if i \<in> seen then seen else ancestors_loop d (Option.bind (get_node d i) nd_parent_id) (insert i seen))"
  by pat_completeness auto
termination
proof (relation "measure (\<lambda>(d, cur, seen). card (UNIV - seen))")
  fix d :: graph_rows and i :: node_id and seen :: "node_id set"
  assume "i \<notin> seen"
  then have "UNIV - insert i seen \<subset> UNIV - seen" by blast
  then have "card (UNIV - insert i seen) < card (UNIV - seen)" by (intro psubset_card_mono) simp_all
  then show "((d, Option.bind (get_node d i) nd_parent_id, insert i seen), d, Some i, seen)
      \<in> measure (\<lambda>(d, cur, seen). card (UNIV - seen))" by simp
qed simp

definition module_ancestors :: "graph_rows \<Rightarrow> node_id \<Rightarrow> node_id set" where
  "module_ancestors d m = ancestors_loop d (Some m) {}"

fun is_visible_from :: "binding_visibility \<Rightarrow> node_id option \<Rightarrow> node_id set \<Rightarrow> bool" where
  "is_visible_from VisPublic consumer_crate ancestry = True"
| "is_visible_from VisPrivate consumer_crate ancestry = False"
| "is_visible_from (VisCrate c) consumer_crate ancestry = (consumer_crate = Some c)"
| "is_visible_from (VisRestrictedTo a) consumer_crate ancestry = (a \<in> ancestry)"

definition exports_of :: "graph_rows \<Rightarrow> node_id \<Rightarrow> node_id \<Rightarrow> (string, graph_binding list) result" where
  "exports_of d m consumer =
     kept (\<lambda>b. is_visible_from (bd_visibility b) (crate_of d consumer) (module_ancestors d consumer)) (bindings_for_from_module d m)"

definition reexports_of :: "graph_rows \<Rightarrow> node_id \<Rightarrow> node_id \<Rightarrow> (string, graph_binding list) result" where
  "reexports_of d m consumer = and_then (exports_of d m consumer) (\<lambda>bs. Inr (filter (\<lambda>b. bd_kind b \<noteq> Declared) bs))"

definition declared_reexports_of :: "graph_rows \<Rightarrow> node_id \<Rightarrow> (string, graph_binding list) result" where
  "declared_reexports_of d m = kept (\<lambda>b. bd_kind b \<noteq> Declared \<and> bd_is_explicit_pub_use b) (bindings_for_from_module d m)"

subsection \<open>Public items that only their crate uses\<close>

record dead_pub_finding =
  dp_target :: node_id
  dp_qualified_name :: string
  dp_item_kind :: item_kind
  dp_visibility :: binding_visibility

definition from_outside :: "graph_rows \<Rightarrow> node_id \<Rightarrow> node_id \<Rightarrow> bool" where
  "from_outside d c m = (case get_node d m of None \<Rightarrow> False | Some n \<Rightarrow> nd_crate_id n \<noteq> Some c)"

definition check_dead_pub ::
  "graph_rows \<Rightarrow> node_id \<Rightarrow> node_id \<times> graph_node \<Rightarrow> (string, dead_pub_finding option) result" where
  "check_dead_pub d c e =
     (case e of (i, item) \<Rightarrow>
        and_then (all_ok (bindings_for_target d i)) (\<lambda>bs.
          case List.find (\<lambda>b. bd_kind b = Declared) bs of
            None \<Rightarrow> Inr None
          | Some declared \<Rightarrow>
              if bd_visibility declared \<noteq> VisPublic then Inr None
              else if list_ex (\<lambda>b. bd_kind b \<noteq> Declared \<and> from_outside d c (bd_from_module b)) bs then Inr None
              else and_then (all_ok (usages_for_target d i)) (\<lambda>us.
                if list_ex (\<lambda>u. from_outside d c (us_consumer_module u)) us then Inr None
                else case nd_item_kind item of
                       None \<Rightarrow> Inr None
                     | Some k \<Rightarrow> Inr (Some \<lparr>dp_target = i, dp_qualified_name = nd_qualified_name item, dp_item_kind = k,
                                           dp_visibility = bd_visibility declared\<rparr>))))"

fun dead_pub_items ::
  "graph_rows \<Rightarrow> node_id \<Rightarrow> (node_id \<times> graph_node) list \<Rightarrow> (string, dead_pub_finding list) result" where
  "dead_pub_items d c [] = Inr []"
| "dead_pub_items d c (e # es) =
     and_then (check_dead_pub d c e) (\<lambda>found. and_then (dead_pub_items d c es) (\<lambda>rest.
       Inr (case found of None \<Rightarrow> rest | Some x \<Rightarrow> x # rest)))"

definition dead_pub_in_crate :: "graph_rows \<Rightarrow> node_id \<Rightarrow> (string, dead_pub_finding list) result" where
  "dead_pub_in_crate d c =
     and_then (dead_pub_items d c (filter (\<lambda>(i, n). nd_kind n = KindItem \<and> nd_crate_id n = Some c) (iter_nodes d)))
       (\<lambda>out. Inr (sort_key dp_qualified_name out))"

fun report_crates ::
  "graph_rows \<Rightarrow> (node_id \<times> string) list \<Rightarrow> (string, (node_id \<times> string \<times> dead_pub_finding list) list) result" where
  "report_crates d [] = Inr []"
| "report_crates d ((c, name) # cs) =
     and_then (dead_pub_in_crate d c) (\<lambda>found. and_then (report_crates d cs) (\<lambda>rest. Inr ((c, name, found) # rest)))"

definition dead_pub_report :: "graph_rows \<Rightarrow> (string, (node_id \<times> string \<times> dead_pub_finding list) list) result" where
  "dead_pub_report d =
     report_crates d (sort_key snd (map (\<lambda>(i, n). (i, nd_qualified_name n)) (filter (\<lambda>(i, n). nd_kind n = KindCrate) (iter_nodes d))))"

subsection \<open>Chains of re-exports\<close>

definition MAX_REEXPORT_HOPS :: nat where
  "MAX_REEXPORT_HOPS = 8"

record re_export_link =
  rl_from_module :: node_id
  rl_from_module_name :: string
  rl_visible_name :: string
  rl_depth :: nat

record re_export_report =
  rx_canonical :: node_id
  rx_canonical_name :: string
  rx_links :: "re_export_link list"

text \<open>The loop over the bindings of one target: what was visited, the links, and the stack with its top at the head.\<close>

fun follow_bindings ::
  "graph_rows \<Rightarrow> nat \<Rightarrow> graph_binding list \<Rightarrow> (node_id \<times> string) set \<Rightarrow> re_export_link list \<Rightarrow> (node_id \<times> nat) list \<Rightarrow>
   (node_id \<times> string) set \<times> re_export_link list \<times> (node_id \<times> nat) list" where
  "follow_bindings d depth [] visited links stack = (visited, links, stack)"
| "follow_bindings d depth (b # bs) visited links stack =
     (if \<not> bd_is_explicit_pub_use b then follow_bindings d depth bs visited links stack
      else if (bd_from_module b, bd_visible_name b) \<in> visited then follow_bindings d depth bs visited links stack
      else follow_bindings d depth bs (insert (bd_from_module b, bd_visible_name b) visited)
             (links @ [\<lparr>rl_from_module = bd_from_module b, rl_from_module_name = name_or_empty d (bd_from_module b),
                        rl_visible_name = bd_visible_name b, rl_depth = depth\<rparr>])
             (if depth < MAX_REEXPORT_HOPS then (bd_from_module b, depth + 1) # stack else stack))"

definition binding_keys :: "graph_rows \<Rightarrow> (node_id \<times> string) set" where
  "binding_keys d = (\<Union>t. \<Union>e \<in> set (bindings_for_target d t). case e of Inl _ \<Rightarrow> {} | Inr b \<Rightarrow> {(bd_from_module b, bd_visible_name b)})"

lemma finite_binding_keys [simp]: "finite (binding_keys d)"
  unfolding binding_keys_def by (auto split: sum.split)

lemma all_ok_set: "all_ok es = Inr xs \<Longrightarrow> es = map Inr xs"
  by (induction es arbitrary: xs) (auto simp: and_then_Inr)

lemma keys_of_target:
  assumes "all_ok (bindings_for_target d target) = Inr bs"
  shows "(\<lambda>b. (bd_from_module b, bd_visible_name b)) ` set bs \<subseteq> binding_keys d"
proof
  fix k assume "k \<in> (\<lambda>b. (bd_from_module b, bd_visible_name b)) ` set bs"
  then obtain b where b: "b \<in> set bs" "k = (bd_from_module b, bd_visible_name b)" by blast
  then have "Inr b \<in> set (bindings_for_target d target)" using all_ok_set[OF assms] by simp
  then show "k \<in> binding_keys d" unfolding binding_keys_def
    by (intro UN_I[of target] UN_I[of "Inr b"]) (simp_all add: b(2))
qed

lemma follow_bindings_grows:
  assumes "follow_bindings d depth bs visited links stack = (visited', links', stack')"
    "(\<lambda>b. (bd_from_module b, bd_visible_name b)) ` set bs \<subseteq> K" "finite K"
  shows "visited \<subseteq> visited' \<and> (card (K - visited') < card (K - visited) \<or> (visited' = visited \<and> links' = links \<and> stack' = stack))"
  using assms(1,2)
proof (induction d depth bs visited links stack rule: follow_bindings.induct)
  case (2 d depth b bs visited links stack)
  consider "\<not> bd_is_explicit_pub_use b" | "bd_is_explicit_pub_use b" "(bd_from_module b, bd_visible_name b) \<in> visited"
    | "bd_is_explicit_pub_use b" "(bd_from_module b, bd_visible_name b) \<notin> visited" by blast
  then show ?case
  proof cases
    case 3
    let ?v = "insert (bd_from_module b, bd_visible_name b) visited"
    have "K - ?v \<subset> K - visited" using 3(2) "2.prems"(2) by auto
    then have "card (K - ?v) < card (K - visited)" using assms(3) by (intro psubset_card_mono) simp_all
    then show ?thesis using "2.IH"(3) 3 "2.prems" by fastforce
  qed (use 2 in simp_all)
qed simp

function chain_loop ::
  "graph_rows \<Rightarrow> (node_id \<times> nat) list \<Rightarrow> (node_id \<times> string) set \<Rightarrow> re_export_link list \<Rightarrow> (string, re_export_link list) result" where
  "chain_loop d [] visited links = Inr links"
| "chain_loop d ((target, depth) # stack) visited links =
     (if depth > MAX_REEXPORT_HOPS then chain_loop d stack visited links
      else case all_ok (bindings_for_target d target) of
             Inl e \<Rightarrow> Inl e
           | Inr bs \<Rightarrow> (case follow_bindings d depth bs visited links stack of
                         (visited', links', stack') \<Rightarrow> chain_loop d stack' visited' links'))"
  by pat_completeness auto
termination
proof (relation "measures [\<lambda>(d, stack, visited, links). card (binding_keys d - visited), \<lambda>(d, stack, visited, links). length stack]")
  fix d target bs and depth :: nat and stack visited links visited' y links' stack'
  assume "all_ok (bindings_for_target d target) = Inr bs" "(visited', y) = follow_bindings d depth bs visited links stack"
    "(links', stack') = y"
  moreover from this(1) have "(\<lambda>b. (bd_from_module b, bd_visible_name b)) ` set bs \<subseteq> binding_keys d"
    by (rule keys_of_target)
  ultimately have "card (binding_keys d - visited') < card (binding_keys d - visited) \<or> (visited' = visited \<and> stack' = stack)"
    using follow_bindings_grows[of d depth bs visited links stack visited' links' stack' "binding_keys d"] by fastforce
  then show "((d, stack', visited', links'), d, (target, depth) # stack, visited, links)
      \<in> measures [\<lambda>(d, stack, visited, links). card (binding_keys d - visited), \<lambda>(d, stack, visited, links). length stack]" by auto
qed simp_all

definition re_export_chain :: "graph_rows \<Rightarrow> node_id \<Rightarrow> (string, re_export_report) result" where
  "re_export_chain d target =
     and_then (chain_loop d [(target, 1)] {} []) (\<lambda>links.
       Inr \<lparr>rx_canonical = target, rx_canonical_name = name_or_empty d target,
            rx_links = sort_key (\<lambda>l. (rl_depth l, rl_from_module_name l, rl_visible_name l)) links\<rparr>)"

subsection \<open>Who uses an item\<close>

record usage_summary_row =
  ur_consumer :: string
  ur_crate :: "string option"
  ur_total :: nat
  ur_categories :: "(string \<times> nat) list"

definition who_uses_summary :: "graph_rows \<Rightarrow> node_id \<Rightarrow> (string, usage_summary_row list) result" where
  "who_uses_summary d target =
     and_then (all_ok (usages_for_target d target)) (\<lambda>us.
       let totals = fold (\<lambda>u. AList.map_default (us_consumer_module u) 1 Suc) us [];
           breakdown = fold (\<lambda>u. let c = usage_category_label (us_category u) in
               AList.map_default (us_consumer_module u) (btree_modify c 0 Suc []) (btree_modify c 0 Suc)) us []
       in Inr (sort_key (\<lambda>r. (- int (ur_total r), ur_consumer r))
            (map (\<lambda>(m, total). \<lparr>ur_consumer = name_or_empty d m, ur_crate = crate_name_of d m, ur_total = total,
                                 ur_categories = or_else (map_of breakdown m) []\<rparr>) totals)))"

subsection \<open>Reading the binding indexes\<close>

definition bindings_indexed :: "graph_rows \<Rightarrow> bool" where
  "bindings_indexed d \<longleftrightarrow>
     finite (d BindingsById) \<and> (\<forall>i v. (i, v) \<in> d BindingsById \<longrightarrow> (\<exists>b. v = BindingV b)) \<and>
     (\<forall>i v w. (i, v) \<in> d BindingsById \<longrightarrow> (i, w) \<in> d BindingsById \<longrightarrow> v = w) \<and>
     d BindingsByTarget = {(bd_target b, IdV i) | i b. (i, BindingV b) \<in> d BindingsById} \<and>
     d BindingsByFromModule = {(bd_from_module b, IdV i) | i b. (i, BindingV b) \<in> d BindingsById}"

lemma get_binding_indexed:
  assumes "bindings_indexed d" "(i, BindingV b) \<in> d BindingsById"
  shows "get_binding d i = Some b"
proof -
  have "values_at BindingsById i d = {BindingV b}"
    using assms unfolding bindings_indexed_def values_at_def by (auto simp: image_iff)
  then show ?thesis by (simp add: get_binding_def get_row_def)
qed

lemma binding_entries:
  assumes "bindings_indexed d" "values_at t k d = IdV ` {i. \<exists>b. (i, BindingV b) \<in> d BindingsById \<and> P b}"
  obtains bs where "map (binding_entry msg d) (get_duplicates t k d) = map Inr bs"
    "set bs = {b. \<exists>i. (i, BindingV b) \<in> d BindingsById \<and> P b}"
proof -
  let ?A = "{i. \<exists>b. (i, BindingV b) \<in> d BindingsById \<and> P b}"
  have "finite (fst ` d BindingsById)" using assms(1) by (simp add: bindings_indexed_def)
  then have "finite ?A" by (rule finite_subset[rotated]) force
  then have ids: "set (get_duplicates t k d) = ?A" by (rule duplicates_of_ids) (rule assms(2))
  let ?bs = "map (\<lambda>i. the (get_binding d i)) (get_duplicates t k d)"
  have found: "\<exists>b. get_binding d i = Some b \<and> (i, BindingV b) \<in> d BindingsById \<and> P b" if "i \<in> ?A" for i
    using that get_binding_indexed[OF assms(1)] by blast
  have "map (binding_entry msg d) (get_duplicates t k d) = map Inr ?bs"
  proof -
    have "binding_entry msg d i = Inr (the (get_binding d i))" if "i \<in> set (get_duplicates t k d)" for i
      using found[of i] that unfolding ids by (auto simp: binding_entry_def)
    then show ?thesis by simp
  qed
  moreover have "set ?bs = {b. \<exists>i. (i, BindingV b) \<in> d BindingsById \<and> P b}"
  proof (intro equalityI subsetI)
    fix b assume "b \<in> set ?bs"
    then show "b \<in> {b. \<exists>i. (i, BindingV b) \<in> d BindingsById \<and> P b}" using found ids by fastforce
  next
    fix b assume "b \<in> {b. \<exists>i. (i, BindingV b) \<in> d BindingsById \<and> P b}"
    then obtain i where i: "(i, BindingV b) \<in> d BindingsById" "P b" by blast
    then have "i \<in> set (get_duplicates t k d)" "the (get_binding d i) = b"
      using ids get_binding_indexed[OF assms(1) i(1)] by auto
    then show "b \<in> set ?bs" by force
  qed
  ultimately show ?thesis by (rule that)
qed

lemma target_bindings:
  assumes "bindings_indexed d"
  obtains bs where "bindings_for_target d t = map Inr bs" "set bs = {b. \<exists>i. (i, BindingV b) \<in> d BindingsById \<and> bd_target b = t}"
proof -
  have "d BindingsByTarget = {(bd_target b, IdV i) | i b. (i, BindingV b) \<in> d BindingsById}"
    using assms by (simp add: bindings_indexed_def)
  then have "values_at BindingsByTarget t d = IdV ` {i. \<exists>b. (i, BindingV b) \<in> d BindingsById \<and> bd_target b = t}"
    unfolding values_at_def by (auto simp: image_iff)
  from binding_entries[OF assms this] that show ?thesis unfolding bindings_for_target_def by blast
qed

lemma module_bindings:
  assumes "bindings_indexed d"
  obtains bs where "bindings_for_from_module d m = map Inr bs"
    "set bs = {b. \<exists>i. (i, BindingV b) \<in> d BindingsById \<and> bd_from_module b = m}"
proof -
  have "d BindingsByFromModule = {(bd_from_module b, IdV i) | i b. (i, BindingV b) \<in> d BindingsById}"
    using assms by (simp add: bindings_indexed_def)
  then have "values_at BindingsByFromModule m d = IdV ` {i. \<exists>b. (i, BindingV b) \<in> d BindingsById \<and> bd_from_module b = m}"
    unfolding values_at_def by (auto simp: image_iff)
  from binding_entries[OF assms this] that show ?thesis unfolding bindings_for_from_module_def by blast
qed

subsection \<open>What a consumer sees\<close>

definition parent_edges :: "graph_rows \<Rightarrow> (node_id \<times> node_id) set" where
  "parent_edges d = {(i, p). \<exists>n. get_node d i = Some n \<and> nd_parent_id n = Some p}"

lemma parent_edges_iff: "(i, p) \<in> parent_edges d \<longleftrightarrow> Option.bind (get_node d i) nd_parent_id = Some p"
  by (cases "get_node d i") (auto simp: parent_edges_def)

lemma ancestors_loop_spec:
  assumes "\<forall>a \<in> seen. \<forall>p. (a, p) \<in> parent_edges d \<longrightarrow> p \<in> seen \<or> cur = Some p"
  shows "seen \<subseteq> ancestors_loop d cur seen \<and> (\<forall>i. cur = Some i \<longrightarrow> i \<in> ancestors_loop d cur seen) \<and>
    (\<forall>a \<in> ancestors_loop d cur seen. \<forall>p. (a, p) \<in> parent_edges d \<longrightarrow> p \<in> ancestors_loop d cur seen) \<and>
    (\<forall>a \<in> ancestors_loop d cur seen. a \<in> seen \<or> (\<exists>i. cur = Some i \<and> (i, a) \<in> (parent_edges d)\<^sup>*))"
  using assms
proof (induction d cur seen rule: ancestors_loop.induct)
  case (2 d i seen)
  show ?case
  proof (cases "i \<in> seen")
    case True
    then show ?thesis using "2.prems" by auto
  next
    case False
    let ?next = "Option.bind (get_node d i) nd_parent_id"
    let ?R = "ancestors_loop d ?next (insert i seen)"
    have "\<forall>a \<in> insert i seen. \<forall>p. (a, p) \<in> parent_edges d \<longrightarrow> p \<in> insert i seen \<or> ?next = Some p"
      using "2.prems" parent_edges_iff[of i _ d] by blast
    note step = "2.IH"[OF False this]
    have R: "insert i seen \<subseteq> ?R" "\<forall>a \<in> ?R. \<forall>p. (a, p) \<in> parent_edges d \<longrightarrow> p \<in> ?R"
      "\<forall>a \<in> ?R. a \<in> insert i seen \<or> (\<exists>p. ?next = Some p \<and> (p, a) \<in> (parent_edges d)\<^sup>*)"
      using step by blast+
    have "a \<in> seen \<or> (i, a) \<in> (parent_edges d)\<^sup>*" if "a \<in> ?R" for a
    proof -
      from R(3) that consider "a \<in> insert i seen" | p where "(i, p) \<in> parent_edges d" "(p, a) \<in> (parent_edges d)\<^sup>*"
        unfolding parent_edges_iff by blast
      then show ?thesis by cases (auto intro: converse_rtrancl_into_rtrancl)
    qed
    moreover have "ancestors_loop d (Some i) seen = ?R" using False by simp
    ultimately show ?thesis using R(1,2) by auto
  qed
qed auto

lemma module_ancestors_closure: "module_ancestors d m = {a. (m, a) \<in> (parent_edges d)\<^sup>*}"
proof (intro equalityI subsetI)
  have spec: "m \<in> module_ancestors d m" "\<forall>a \<in> module_ancestors d m. \<forall>p. (a, p) \<in> parent_edges d \<longrightarrow> p \<in> module_ancestors d m"
    "\<forall>a \<in> module_ancestors d m. (m, a) \<in> (parent_edges d)\<^sup>*"
    using ancestors_loop_spec[of "{}" d "Some m"] by (simp_all add: module_ancestors_def del: ancestors_loop.simps)
  { fix a assume "a \<in> module_ancestors d m"
    then show "a \<in> {a. (m, a) \<in> (parent_edges d)\<^sup>*}" using spec(3) by simp }
  { fix a assume "a \<in> {a. (m, a) \<in> (parent_edges d)\<^sup>*}"
    then have "(m, a) \<in> (parent_edges d)\<^sup>*" by simp
    then show "a \<in> module_ancestors d m" by (induction rule: rtrancl_induct) (use spec in blast)+ }
qed

fun sees :: "graph_rows \<Rightarrow> node_id \<Rightarrow> binding_visibility \<Rightarrow> bool" where
  "sees d consumer VisPublic = True"
| "sees d consumer VisPrivate = False"
| "sees d consumer (VisCrate c) = (\<exists>n. get_node d consumer = Some n \<and> nd_crate_id n = Some c)"
| "sees d consumer (VisRestrictedTo a) = ((consumer, a) \<in> (parent_edges d)\<^sup>*)"

text \<open>What a module exports to a consumer is exactly what Rust's visibility grants: its bindings that are public, that are visible
  in the consumer's crate, or that are restricted to the consumer or a module that encloses it; whatever the parent links are, even
  when they form a cycle, the walk up the modules ends.\<close>

theorem exports_are_the_visible_bindings:
  assumes "bindings_indexed d"
  shows "\<exists>bs. exports_of d m consumer = Inr bs \<and>
    set bs = {b. \<exists>i. (i, BindingV b) \<in> d BindingsById \<and> bd_from_module b = m \<and> sees d consumer (bd_visibility b)}"
proof -
  obtain bs where bs: "bindings_for_from_module d m = map Inr bs"
    "set bs = {b. \<exists>i. (i, BindingV b) \<in> d BindingsById \<and> bd_from_module b = m}" by (rule module_bindings[OF assms])
  have "is_visible_from v (crate_of d consumer) (module_ancestors d consumer) \<longleftrightarrow> sees d consumer v" for v
    by (cases v) (auto simp: crate_of_def module_ancestors_closure bind_eq_Some_conv)
  then show ?thesis by (auto simp: exports_of_def kept_def bs)
qed

subsection \<open>Dead public items\<close>

text \<open>The binding that declares an item is the only one of its kind: the extraction keeps one declaration of an item.\<close>

definition declared_once :: "graph_rows \<Rightarrow> bool" where
  "declared_once d \<longleftrightarrow>
     (\<forall>i j b c. (i, BindingV b) \<in> d BindingsById \<longrightarrow> (j, BindingV c) \<in> d BindingsById \<longrightarrow> bd_kind b = Declared \<longrightarrow>
        bd_kind c = Declared \<longrightarrow> bd_target b = bd_target c \<longrightarrow> b = c)"

definition dead_pub :: "graph_rows \<Rightarrow> node_id \<Rightarrow> node_id \<Rightarrow> bool" where
  "dead_pub d c t \<longleftrightarrow>
     (\<exists>n k. t \<in> fst ` d NodesById \<and> get_node d t = Some n \<and> nd_kind n = KindItem \<and> nd_crate_id n = Some c \<and> nd_item_kind n = Some k) \<and>
     (\<exists>i b. (i, BindingV b) \<in> d BindingsById \<and> bd_target b = t \<and> bd_kind b = Declared \<and> bd_visibility b = VisPublic) \<and>
     \<not> (\<exists>i b n. (i, BindingV b) \<in> d BindingsById \<and> bd_target b = t \<and> bd_kind b \<noteq> Declared \<and>
          get_node d (bd_from_module b) = Some n \<and> nd_crate_id n \<noteq> Some c) \<and>
     \<not> (\<exists>i u n. (i, UsageV u) \<in> d UsagesById \<and> us_target u = t \<and>
          get_node d (us_consumer_module u) = Some n \<and> nd_crate_id n \<noteq> Some c)"

lemma from_outside_iff: "from_outside d c m \<longleftrightarrow> (\<exists>n. get_node d m = Some n \<and> nd_crate_id n \<noteq> Some c)"
  by (simp add: from_outside_def split: option.split)

lemma find_declared:
  assumes "\<And>b c. b \<in> set bs \<Longrightarrow> c \<in> set bs \<Longrightarrow> bd_kind b = Declared \<Longrightarrow> bd_kind c = Declared \<Longrightarrow> b = c"
  shows "List.find (\<lambda>b. bd_kind b = Declared) bs = Some x \<longleftrightarrow> x \<in> set bs \<and> bd_kind x = Declared"
  using assms
proof (induction bs)
  case (Cons b bs)
  have "List.find (\<lambda>b. bd_kind b = Declared) bs = Some x \<longleftrightarrow> x \<in> set bs \<and> bd_kind x = Declared"
    by (rule Cons.IH) (rule Cons.prems, simp_all)
  then show ?case using Cons.prems[of b x] by auto
qed simp

lemma check_dead_pub_spec:
  assumes "bindings_indexed d" "usages_indexed d" "declared_once d" "get_node d t = Some n" "t \<in> fst ` d NodesById"
    "nd_kind n = KindItem" "nd_crate_id n = Some c"
  shows "\<exists>r. check_dead_pub d c (t, n) = Inr r \<and> (r \<noteq> None \<longleftrightarrow> dead_pub d c t) \<and> (\<forall>x. r = Some x \<longrightarrow> dp_target x = t)"
proof -
  obtain bs where bs: "bindings_for_target d t = map Inr bs" "set bs = {b. \<exists>i. (i, BindingV b) \<in> d BindingsById \<and> bd_target b = t}"
    by (rule target_bindings[OF assms(1)])
  obtain us where us: "usages_for_target d t = map Inr us" "set us = {u. \<exists>i. (i, UsageV u) \<in> d UsagesById \<and> us_target u = t}"
    by (rule target_entries[OF assms(2)])
  have once: "b \<in> set bs \<Longrightarrow> b' \<in> set bs \<Longrightarrow> bd_kind b = Declared \<Longrightarrow> bd_kind b' = Declared \<Longrightarrow> b = b'" for b b'
    using assms(3) unfolding declared_once_def bs(2) by blast
  let ?importer = "list_ex (\<lambda>b. bd_kind b \<noteq> Declared \<and> from_outside d c (bd_from_module b)) bs"
  let ?user = "list_ex (\<lambda>u. from_outside d c (us_consumer_module u)) us"
  have dead: "dead_pub d c t \<longleftrightarrow> (\<exists>k. nd_item_kind n = Some k) \<and>
      (\<exists>b. List.find (\<lambda>b. bd_kind b = Declared) bs = Some b \<and> bd_visibility b = VisPublic) \<and> \<not> ?importer \<and> \<not> ?user"
  proof -
    have "List.find (\<lambda>b. bd_kind b = Declared) bs = Some b \<longleftrightarrow> b \<in> set bs \<and> bd_kind b = Declared" for b
      by (rule find_declared) (rule once)
    then have declared: "(\<exists>b. List.find (\<lambda>b. bd_kind b = Declared) bs = Some b \<and> bd_visibility b = VisPublic) \<longleftrightarrow>
        (\<exists>i b. (i, BindingV b) \<in> d BindingsById \<and> bd_target b = t \<and> bd_kind b = Declared \<and> bd_visibility b = VisPublic)"
      unfolding bs(2) by blast
    have importer: "?importer \<longleftrightarrow> (\<exists>i b n. (i, BindingV b) \<in> d BindingsById \<and> bd_target b = t \<and> bd_kind b \<noteq> Declared \<and>
        get_node d (bd_from_module b) = Some n \<and> nd_crate_id n \<noteq> Some c)"
      unfolding list_ex_iff bs(2) from_outside_iff by blast
    have user: "?user \<longleftrightarrow> (\<exists>i u n. (i, UsageV u) \<in> d UsagesById \<and> us_target u = t \<and>
        get_node d (us_consumer_module u) = Some n \<and> nd_crate_id n \<noteq> Some c)"
      unfolding list_ex_iff us(2) from_outside_iff by blast
    show ?thesis unfolding declared importer user dead_pub_def using assms(4-) by simp
  qed
  show ?thesis
    unfolding dead by (auto simp: check_dead_pub_def bs(1) us(1) split: option.split)
qed

lemma dead_pub_items_spec:
  assumes "bindings_indexed d" "usages_indexed d" "declared_once d"
    "\<And>t n. (t, n) \<in> set es \<Longrightarrow> get_node d t = Some n \<and> t \<in> fst ` d NodesById \<and> nd_kind n = KindItem \<and> nd_crate_id n = Some c"
  shows "\<exists>out. dead_pub_items d c es = Inr out \<and> map dp_target out = filter (dead_pub d c) (map fst es)"
  using assms(4)
proof (induction es)
  case (Cons e es)
  obtain t n where e: "e = (t, n)" by (cases e)
  obtain r where r: "check_dead_pub d c (t, n) = Inr r" "r \<noteq> None \<longleftrightarrow> dead_pub d c t" "\<forall>x. r = Some x \<longrightarrow> dp_target x = t"
    using check_dead_pub_spec[OF assms(1-3), of t n c] Cons.prems[of t n] by (auto simp: e)
  obtain out where "dead_pub_items d c es = Inr out" "map dp_target out = filter (dead_pub d c) (map fst es)"
    using Cons by (metis list.set_intros(2))
  then show ?case using r by (cases r) (auto simp: e)
qed simp

lemma set_iter_nodes: "finite (d NodesById) \<Longrightarrow> set (iter_nodes d) = {(i, n). i \<in> fst ` d NodesById \<and> get_node d i = Some n}"
  by (auto simp: iter_nodes_def set_map_filter_sorted)

lemma distinct_iter_nodes: "distinct (map fst (iter_nodes d))"
proof -
  have "map fst (List.map_filter (\<lambda>i. map_option (Pair i) (f i)) is) = filter (\<lambda>i. f i \<noteq> None) is"
    for f :: "node_id \<Rightarrow> graph_node option" and "is"
    by (induction "is") (simp_all add: map_filter_simps split: option.split)
  then show ?thesis by (simp add: iter_nodes_def)
qed

text \<open>C40: The audit of dead public items is exact: for a snapshot whose indexes are complete, it reports, once each and sorted by name,
  the items of the crate whose declaration is public and which no module of another crate imports or uses; and every read
  succeeds.\<close>

theorem dead_pub_audit_is_exact:
  assumes "bindings_indexed d" "usages_indexed d" "declared_once d" "finite (d NodesById)"
  shows "\<exists>out. dead_pub_in_crate d c = Inr out \<and> distinct (map dp_target out) \<and> set (map dp_target out) = {t. dead_pub d c t} \<and>
    sorted (map dp_qualified_name out)"
proof -
  let ?es = "filter (\<lambda>(i, n). nd_kind n = KindItem \<and> nd_crate_id n = Some c) (iter_nodes d)"
  obtain out where out: "dead_pub_items d c ?es = Inr out" "map dp_target out = filter (dead_pub d c) (map fst ?es)"
    using dead_pub_items_spec[OF assms(1-3), of ?es c] set_iter_nodes[of d] assms(4) by auto
  have "mset (map dp_target (sort_key dp_qualified_name out)) = mset (map dp_target out)" by simp
  then have same: "set (map dp_target (sort_key dp_qualified_name out)) = set (map dp_target out)"
    "distinct (map dp_target (sort_key dp_qualified_name out)) = distinct (map dp_target out)"
    by (rule mset_eq_setD, rule mset_eq_imp_distinct_iff)
  have "distinct (map fst ?es)" by (rule distinct_map_filter[OF distinct_iter_nodes])
  moreover have "set (filter (dead_pub d c) (map fst ?es)) = {t. dead_pub d c t}"
    using assms(4) by (auto simp: set_iter_nodes dead_pub_def image_iff)
  ultimately show ?thesis
    using out(1) same by (simp add: dead_pub_in_crate_def out(2) del: set_map)
qed

subsection \<open>A chain of re-exports\<close>

text \<open>The public item 1 is re-exported by the modules 2 and 3; 4 re-exports 3, 5 re-exports both 4 and 2, 6 re-exports 5.\<close>

definition reexport :: "node_id \<Rightarrow> node_id \<Rightarrow> string \<Rightarrow> graph_binding" where
  "reexport target m name = \<lparr>bd_from_module = m, bd_namespace = TypeNs, bd_visible_name = name, bd_target = target,
     bd_kind = NamedImport, bd_visibility = VisPublic, bd_is_explicit_pub_use = True\<rparr>"

definition sf_bindings :: "(node_id \<times> graph_binding) list" where
  "sf_bindings = [(30, (reexport 1 9 ''t'')\<lparr>bd_kind := Declared, bd_is_explicit_pub_use := False\<rparr>), (31, reexport 1 2 ''t''), (32, reexport 1 3 ''t''),
     (33, reexport 3 4 ''b''), (34, reexport 4 5 ''c''), (35, reexport 2 5 ''a''), (36, reexport 5 6 ''x'')]"

fun sf_rows :: graph_rows where
  "sf_rows NodesById = set [(1, NodeV (rec_node 1 ''t''))]"
| "sf_rows BindingsById = set (map (\<lambda>(i, b). (i, BindingV b)) sf_bindings)"
| "sf_rows BindingsByTarget = set (map (\<lambda>(i, b). (bd_target b, IdV i)) sf_bindings)"
| "sf_rows BindingsByFromModule = set (map (\<lambda>(i, b). (bd_from_module b, IdV i)) sf_bindings)"
| "sf_rows _ = {}"

lemma bindings_indexed_of_list:
  assumes "distinct (map fst bl)" "d BindingsById = set (map (\<lambda>(i, b). (i, BindingV b)) bl)"
    "d BindingsByTarget = set (map (\<lambda>(i, b). (bd_target b, IdV i)) bl)"
    "d BindingsByFromModule = set (map (\<lambda>(i, b). (bd_from_module b, IdV i)) bl)"
  shows "bindings_indexed d"
proof -
  have row: "(i, BindingV b) \<in> d BindingsById \<longleftrightarrow> (i, b) \<in> set bl" for i b unfolding assms(2) by auto
  have "v = w" if "(i, v) \<in> d BindingsById" "(i, w) \<in> d BindingsById" for i v w
    using that assms(1) unfolding assms(2) by (auto dest: eq_key_imp_eq_value)
  then show ?thesis unfolding bindings_indexed_def row unfolding assms(2-) by (auto simp: image_iff)
qed

lemma sf_indexed: "bindings_indexed sf_rows" "usages_indexed sf_rows" "declared_once sf_rows"
proof -
  show "bindings_indexed sf_rows" by (rule bindings_indexed_of_list[of sf_bindings]) (simp_all only: sf_rows.simps, simp add: sf_bindings_def)
  show "usages_indexed sf_rows" by (simp add: usages_indexed_def)
  have "b = (reexport 1 9 ''t'')\<lparr>bd_kind := Declared, bd_is_explicit_pub_use := False\<rparr>"
    if "(i, BindingV b) \<in> sf_rows BindingsById" "bd_kind b = Declared" for i b
    using that by (auto simp: sf_bindings_def reexport_def)
  then show "declared_once sf_rows" unfolding declared_once_def by blast
qed

lemma sf_values:
  "values_at BindingsByTarget 1 sf_rows = {IdV 30, IdV 31, IdV 32}" "values_at BindingsByTarget 2 sf_rows = {IdV 35}"
  "values_at BindingsByTarget 3 sf_rows = {IdV 33}" "values_at BindingsByTarget 4 sf_rows = {IdV 34}"
  "values_at BindingsByTarget 5 sf_rows = {IdV 36}" "values_at BindingsByTarget 6 sf_rows = {}"
  unfolding values_at_def by (auto simp: sf_bindings_def reexport_def image_iff)

lemma sf_lookups:
  "get_binding sf_rows 30 = Some ((reexport 1 9 ''t'')\<lparr>bd_kind := Declared, bd_is_explicit_pub_use := False\<rparr>)"
  "get_binding sf_rows 31 = Some (reexport 1 2 ''t'')" "get_binding sf_rows 32 = Some (reexport 1 3 ''t'')"
  "get_binding sf_rows 33 = Some (reexport 3 4 ''b'')" "get_binding sf_rows 34 = Some (reexport 4 5 ''c'')"
  "get_binding sf_rows 35 = Some (reexport 2 5 ''a'')" "get_binding sf_rows 36 = Some (reexport 5 6 ''x'')"
  by (rule get_binding_indexed[OF sf_indexed(1)], simp add: sf_bindings_def)+

lemma sf_targets:
  "bindings_for_target sf_rows 1 = [Inr ((reexport 1 9 ''t'')\<lparr>bd_kind := Declared, bd_is_explicit_pub_use := False\<rparr>),
     Inr (reexport 1 2 ''t''), Inr (reexport 1 3 ''t'')]"
  "bindings_for_target sf_rows 2 = [Inr (reexport 2 5 ''a'')]" "bindings_for_target sf_rows 3 = [Inr (reexport 3 4 ''b'')]"
  "bindings_for_target sf_rows 4 = [Inr (reexport 4 5 ''c'')]" "bindings_for_target sf_rows 5 = [Inr (reexport 5 6 ''x'')]"
  "bindings_for_target sf_rows 6 = []"
  by (simp_all add: bindings_for_target_def get_duplicates_def sf_values binding_entry_def sf_lookups)

definition reexport_edges :: "graph_rows \<Rightarrow> (node_id \<times> node_id) set" where
  "reexport_edges d = {(x, m). \<exists>i b. (i, BindingV b) \<in> d BindingsById \<and> bd_is_explicit_pub_use b \<and> bd_target b = x \<and> bd_from_module b = m}"

definition sf_link :: "node_id \<Rightarrow> string \<Rightarrow> nat \<Rightarrow> re_export_link" where
  "sf_link m name depth =
     \<lparr>rl_from_module = m, rl_from_module_name = name_or_empty sf_rows m, rl_visible_name = name, rl_depth = depth\<rparr>"

lemma sf_chain:
  "chain_loop sf_rows [(1, 1)] {} [] =
     Inr [sf_link 2 ''t'' 1, sf_link 3 ''t'' 1, sf_link 4 ''b'' 2, sf_link 5 ''c'' 3, sf_link 6 ''x'' 4, sf_link 5 ''a'' 2]"
  by (simp add: sf_targets MAX_REEXPORT_HOPS_def reexport_def sf_link_def)

text \<open>The walk takes the last module that it found first. So the depth that it reports for a re-export can exceed the length of the
  shortest chain to it, and with it the bound on the hops can cut chains that are short enough.\<close>

theorem chain_depth_can_exceed_the_shortest:
  "\<exists>r. re_export_chain sf_rows 1 = Inr r \<and> (1, 6) \<in> reexport_edges sf_rows ^^ 3 \<and>
     (\<forall>l \<in> set (rx_links r). rl_from_module l = 6 \<longrightarrow> rl_depth l = 4) \<and> (\<exists>l \<in> set (rx_links r). rl_from_module l = 6)"
proof -
  have "(31, BindingV (reexport 1 2 ''t'')) \<in> sf_rows BindingsById" "(35, BindingV (reexport 2 5 ''a'')) \<in> sf_rows BindingsById"
    "(36, BindingV (reexport 5 6 ''x'')) \<in> sf_rows BindingsById" by (simp_all add: sf_bindings_def)
  moreover have "(x, m) \<in> reexport_edges sf_rows" if "(i, BindingV (reexport x m name)) \<in> sf_rows BindingsById" for i x m name
    using that unfolding reexport_edges_def by (force simp: reexport_def)
  ultimately have "(1, 2) \<in> reexport_edges sf_rows" "(2, 5) \<in> reexport_edges sf_rows" "(5, 6) \<in> reexport_edges sf_rows" by blast+
  then have "(1, 6) \<in> reexport_edges sf_rows ^^ 3" by (auto simp: numeral_3_eq_3 relcomp_unfold)
  then show ?thesis unfolding re_export_chain_def sf_chain by (auto simp: sf_link_def)
qed

theorem exports_are_the_visible_bindings_witness:
  "\<exists>bs. exports_of sf_rows 2 6 = Inr bs \<and>
    set bs = {b. \<exists>i. (i, BindingV b) \<in> sf_rows BindingsById \<and> bd_from_module b = 2 \<and> sees sf_rows 6 (bd_visibility b)}"
  by (rule exports_are_the_visible_bindings[OF sf_indexed(1)])

theorem dead_pub_audit_is_exact_witness:
  "\<exists>out. dead_pub_in_crate sf_rows 9 = Inr out \<and> 1 \<in> set (map dp_target out)"
proof -
  have "values_at NodesById m sf_rows = (if m = 1 then {NodeV (rec_node 1 ''t'')} else {})" for m
    unfolding values_at_def by (auto simp: image_iff)
  then have node: "get_node sf_rows 1 = Some (rec_node 1 ''t'')" and other: "\<And>m. m \<noteq> 1 \<Longrightarrow> get_node sf_rows m = None"
    by (simp_all add: get_node_def get_row_def)
  have outside: "bd_from_module b \<noteq> 1" if "(i, BindingV b) \<in> sf_rows BindingsById" for i b
    using that by (auto simp: sf_bindings_def reexport_def)
  have "\<exists>i b. (i, BindingV b) \<in> sf_rows BindingsById \<and> bd_target b = 1 \<and> bd_kind b = Declared \<and> bd_visibility b = VisPublic"
    by (rule exI[of _ 30], rule exI[of _ "(reexport 1 9 ''t'')\<lparr>bd_kind := Declared, bd_is_explicit_pub_use := False\<rparr>"])
      (simp add: sf_bindings_def, simp add: reexport_def)
  moreover have "get_node sf_rows (bd_from_module b) = None" if "(i, BindingV b) \<in> sf_rows BindingsById" for i b
    using outside[OF that] by (rule other)
  ultimately have "dead_pub sf_rows 9 1" unfolding dead_pub_def using node by (auto simp: rec_node_def simp del: sf_rows.simps(2))
  then show ?thesis using dead_pub_audit_is_exact[OF sf_indexed, of 9] by auto
qed

end
