(* ===== verification/Query_Laws.thy ===== *)
theory Query_Laws
  imports Build_Laws Surface_Queries
begin

text \<open>
  What the queries find in a snapshot that a build wrote: the indexes of the bindings and the usages are exactly those of their
  tables, and the calls that the queries follow are the calls that the extraction found.

  Identifiers are hashes: \<open>ids_tell_apart\<close> says that in the models of one build two records of the same identifier agree in what the
  indexes and the queries read of them.
\<close>

subsection \<open>Rows of a contribution\<close>

definition ids_tell_apart ::
  "(string \<Rightarrow> node_id) \<Rightarrow> (expansion_site option \<Rightarrow> string) \<Rightarrow> extraction_model \<Rightarrow> bool" where
  "ids_tell_apart sha json M \<longleftrightarrow>
     (\<forall>u \<in> set (em_usages M). \<forall>v \<in> set (em_usages M). usage_id_for sha json u = usage_id_for sha json v \<longrightarrow>
        us_target u = us_target v \<and> us_consumer_module u = us_consumer_module v \<and> us_consumer_item u = us_consumer_item v \<and>
        us_consumer_function u = us_consumer_function v \<and> us_relation u = us_relation v) \<and>
     (\<forall>b \<in> set (em_bindings M). \<forall>c \<in> set (em_bindings M). binding_id_for sha b = binding_id_for sha c \<longrightarrow>
        bd_target b = bd_target c \<and> bd_from_module b = bd_from_module c)"

lemma fold_put_row_keys: "(\<exists>v. (k, v) \<in> fold put_row ps d t) \<longleftrightarrow> (\<exists>v. (k, v) \<in> d t) \<or> (\<exists>v. (t, k, v) \<in> set ps)"
proof (induction ps arbitrary: d)
  case (Cons p ps)
  obtain t' k' v' where p: "p = (t', k', v')" by (cases p)
  have "(\<exists>v. (k, v) \<in> put_row p d t) \<longleftrightarrow> (\<exists>v. (k, v) \<in> d t) \<or> (t = t' \<and> k = k')" unfolding p by (auto simp: in_put)
  then show ?case using Cons p by auto
qed simp

lemma contribution_in: "(k, v) \<in> contribution sha json M c t \<Longrightarrow> (t, k, v) \<in> set (owned_rows sha json M c)"
  unfolding contribution_def using in_fold_put_row[of "(k, v)"] by (auto simp: no_rows_def)

lemma contribution_key: "(t, k, v) \<in> set (owned_rows sha json M c) \<Longrightarrow> \<exists>w. (k, w) \<in> contribution sha json M c t"
  unfolding contribution_def fold_put_row_keys by blast

lemma contribution_dup: "is_dup_sort t \<Longrightarrow> (k, v) \<in> contribution sha json M c t \<longleftrightarrow> (t, k, v) \<in> set (owned_rows sha json M c)"
  unfolding contribution_def by (simp add: fold_put_row_dup no_rows_def)

definition owned_usages :: "extraction_model \<Rightarrow> node_id \<Rightarrow> graph_usage set" where
  "owned_usages M c = {u \<in> set (em_usages M). owner_of M (us_consumer_module u) = Inr c}"

definition owned_bindings :: "extraction_model \<Rightarrow> node_id \<Rightarrow> graph_binding set" where
  "owned_bindings M c = {b \<in> set (em_bindings M). owner_of M (bd_from_module b) = Inr c}"

lemmas owned_rows_defs = owned_rows_def owned_node_def owned_binding_def owned_contains_def owned_usage_def owned_call_rows_def
  owned_record_def Let_def

lemma owned_usage_rows:
  "(UsagesById, k, v) \<in> set (owned_rows sha json M c) \<longleftrightarrow> (\<exists>u \<in> owned_usages M c. k = usage_id_for sha json u \<and> v = UsageV u)"
  "(UsagesByTarget, k, v) \<in> set (owned_rows sha json M c) \<longleftrightarrow>
     (\<exists>u \<in> owned_usages M c. k = us_target u \<and> v = IdV (usage_id_for sha json u))"
  "(UsagesByConsumerFunction, k, v) \<in> set (owned_rows sha json M c) \<longleftrightarrow>
     (\<exists>u \<in> owned_usages M c. us_consumer_function u = Some k \<and> v = IdV (usage_id_for sha json u))"
  "(UsagesByConsumer, k, v) \<in> set (owned_rows sha json M c) \<longleftrightarrow>
     (\<exists>u \<in> owned_usages M c. k = us_consumer_module u \<and> v = IdV (usage_id_for sha json u))"
  "(UsagesByConsumerItem, k, v) \<in> set (owned_rows sha json M c) \<longleftrightarrow>
     (\<exists>u \<in> owned_usages M c. us_consumer_item u = Some k \<and> v = IdV (usage_id_for sha json u))"
  by (auto simp: owned_rows_defs owned_usages_def split: if_splits option.splits) (auto intro!: bexI dest: sym)

lemma owned_binding_rows:
  "(BindingsById, k, v) \<in> set (owned_rows sha json M c) \<longleftrightarrow> (\<exists>b \<in> owned_bindings M c. k = binding_id_for sha b \<and> v = BindingV b)"
  "(BindingsByTarget, k, v) \<in> set (owned_rows sha json M c) \<longleftrightarrow>
     (\<exists>b \<in> owned_bindings M c. k = bd_target b \<and> v = IdV (binding_id_for sha b))"
  "(BindingsByFromModule, k, v) \<in> set (owned_rows sha json M c) \<longleftrightarrow>
     (\<exists>b \<in> owned_bindings M c. k = bd_from_module b \<and> v = IdV (binding_id_for sha b))"
  by (auto simp: owned_rows_defs owned_bindings_def split: if_splits option.splits)

subsection \<open>Indexes that match their tables\<close>

text \<open>The two indexes of the usage table by the module and by the item that a usage stands in, beside those that
  \<open>usages_indexed\<close> states.\<close>

definition consumers_indexed :: "graph_rows \<Rightarrow> bool" where
  "consumers_indexed d \<longleftrightarrow>
     d UsagesByConsumer = {(us_consumer_module u, IdV i) | i u. (i, UsageV u) \<in> d UsagesById} \<and>
     d UsagesByConsumerItem = {(x, IdV i) | i u x. (i, UsageV u) \<in> d UsagesById \<and> us_consumer_item u = Some x}"

definition indexes_match :: "graph_rows \<Rightarrow> bool" where
  "indexes_match d \<longleftrightarrow>
     (\<forall>i v. (i, v) \<in> d UsagesById \<longrightarrow> (\<exists>u. v = UsageV u)) \<and> (\<forall>i v. (i, v) \<in> d BindingsById \<longrightarrow> (\<exists>b. v = BindingV b)) \<and>
     d UsagesByTarget = {(us_target u, IdV i) | i u. (i, UsageV u) \<in> d UsagesById} \<and>
     d UsagesByConsumerFunction = {(f, IdV i) | i u f. (i, UsageV u) \<in> d UsagesById \<and> us_consumer_function u = Some f} \<and>
     d BindingsByTarget = {(bd_target b, IdV i) | i b. (i, BindingV b) \<in> d BindingsById} \<and>
     d BindingsByFromModule = {(bd_from_module b, IdV i) | i b. (i, BindingV b) \<in> d BindingsById} \<and>
     consumers_indexed d"

lemma indexes_match_none: "indexes_match no_rows"
  by (simp add: indexes_match_def consumers_indexed_def no_rows_def)

lemma indexes_match_Union:
  assumes "\<And>c. indexes_match (C c)"
    "\<And>t. t \<in> {UsagesById, UsagesByTarget, UsagesByConsumerFunction, UsagesByConsumer, UsagesByConsumerItem,
         BindingsById, BindingsByTarget, BindingsByFromModule} \<Longrightarrow>
       d t = (\<Union>c. C c t)"
  shows "indexes_match d"
proof -
  note m = assms(1)[unfolded indexes_match_def]
  show ?thesis unfolding indexes_match_def
  proof (intro conjI)
    show "d UsagesByTarget = {(us_target u, IdV i) | i u. (i, UsageV u) \<in> d UsagesById}" using m by (simp add: assms(2)) blast
    show "d UsagesByConsumerFunction = {(f, IdV i) | i u f. (i, UsageV u) \<in> d UsagesById \<and> us_consumer_function u = Some f}"
      using m by (simp add: assms(2)) blast
    show "d BindingsByTarget = {(bd_target b, IdV i) | i b. (i, BindingV b) \<in> d BindingsById}" using m by (simp add: assms(2)) blast
    show "d BindingsByFromModule = {(bd_from_module b, IdV i) | i b. (i, BindingV b) \<in> d BindingsById}"
      using m by (simp add: assms(2)) blast
    show "consumers_indexed d" unfolding consumers_indexed_def
      using m[unfolded consumers_indexed_def] by (simp add: assms(2)) blast
    show "\<forall>i v. (i, v) \<in> d UsagesById \<longrightarrow> (\<exists>u. v = UsageV u)"
      unfolding assms(2)[of UsagesById, simplified] using m[THEN conjunct1] by blast
    show "\<forall>i v. (i, v) \<in> d BindingsById \<longrightarrow> (\<exists>b. v = BindingV b)"
      unfolding assms(2)[of BindingsById, simplified] using m[THEN conjunct2, THEN conjunct1] by blast
  qed
qed

text \<open>The row under an identifier is one of the usages with it, and agrees with all of them.\<close>

lemma usage_row_of:
  assumes "ids_tell_apart sha json M" "u \<in> owned_usages M c"
  obtains v where "(usage_id_for sha json u, UsageV v) \<in> contribution sha json M c UsagesById"
    "us_target v = us_target u" "us_consumer_function v = us_consumer_function u" "us_relation v = us_relation u"
    "us_consumer_module v = us_consumer_module u" "us_consumer_item v = us_consumer_item u"
proof -
  have "(UsagesById, usage_id_for sha json u, UsageV u) \<in> set (owned_rows sha json M c)"
    using assms(2) by (auto simp: owned_usage_rows)
  then obtain w where w: "(usage_id_for sha json u, w) \<in> contribution sha json M c UsagesById" by (blast dest: contribution_key)
  then obtain v where v: "v \<in> owned_usages M c" "usage_id_for sha json u = usage_id_for sha json v" "w = UsageV v"
    using contribution_in[OF w] by (auto simp: owned_usage_rows)
  then show ?thesis using assms w that[of v] unfolding ids_tell_apart_def owned_usages_def by fastforce
qed

lemma binding_row_of:
  assumes "ids_tell_apart sha json M" "b \<in> owned_bindings M c"
  obtains v where "(binding_id_for sha b, BindingV v) \<in> contribution sha json M c BindingsById"
    "bd_target v = bd_target b" "bd_from_module v = bd_from_module b"
proof -
  have "(BindingsById, binding_id_for sha b, BindingV b) \<in> set (owned_rows sha json M c)"
    using assms(2) by (auto simp: owned_binding_rows)
  then obtain w where w: "(binding_id_for sha b, w) \<in> contribution sha json M c BindingsById" by (blast dest: contribution_key)
  then obtain v where v: "v \<in> owned_bindings M c" "binding_id_for sha b = binding_id_for sha v" "w = BindingV v"
    using contribution_in[OF w] by (auto simp: owned_binding_rows)
  then show ?thesis using assms w that[of v] unfolding ids_tell_apart_def owned_bindings_def by fastforce
qed

lemma usage_row_in:
  "(i, UsageV u) \<in> contribution sha json M c UsagesById \<Longrightarrow> u \<in> owned_usages M c \<and> i = usage_id_for sha json u"
  by (drule contribution_in) (auto simp: owned_usage_rows)

lemma binding_row_in:
  "(i, BindingV b) \<in> contribution sha json M c BindingsById \<Longrightarrow> b \<in> owned_bindings M c \<and> i = binding_id_for sha b"
  by (drule contribution_in) (auto simp: owned_binding_rows)

lemma contribution_indexes_match:
  assumes "ids_tell_apart sha json M"
  shows "indexes_match (contribution sha json M c)"
proof -
  let ?C = "contribution sha json M c"
  have dup: "(k, v) \<in> ?C t \<longleftrightarrow> (t, k, v) \<in> set (owned_rows sha json M c)"
    if "t \<in> {UsagesByTarget, UsagesByConsumerFunction, UsagesByConsumer, UsagesByConsumerItem, BindingsByTarget, BindingsByFromModule}" for t k v
    by (rule contribution_dup) (use that in auto)
  have 1: "?C UsagesByTarget = {(us_target u, IdV i) | i u. (i, UsageV u) \<in> ?C UsagesById}"
    using usage_row_of[OF assms] usage_row_in by (auto simp: set_eq_iff dup owned_usage_rows) metis+
  have 2: "?C UsagesByConsumerFunction = {(f, IdV i) | i u f. (i, UsageV u) \<in> ?C UsagesById \<and> us_consumer_function u = Some f}"
    using usage_row_of[OF assms] usage_row_in by (auto simp: set_eq_iff dup owned_usage_rows) metis+
  have 3: "?C BindingsByTarget = {(bd_target b, IdV i) | i b. (i, BindingV b) \<in> ?C BindingsById}"
    using binding_row_of[OF assms] binding_row_in by (auto simp: set_eq_iff dup owned_binding_rows) metis+
  have 4: "?C BindingsByFromModule = {(bd_from_module b, IdV i) | i b. (i, BindingV b) \<in> ?C BindingsById}"
    using binding_row_of[OF assms] binding_row_in by (auto simp: set_eq_iff dup owned_binding_rows) metis+
  have 5: "consumers_indexed ?C" unfolding consumers_indexed_def
    using usage_row_of[OF assms] usage_row_in by (auto simp: set_eq_iff dup owned_usage_rows) metis+
  have "\<forall>i v. (i, v) \<in> ?C UsagesById \<longrightarrow> (\<exists>u. v = UsageV u)" "\<forall>i v. (i, v) \<in> ?C BindingsById \<longrightarrow> (\<exists>b. v = BindingV b)"
    by (auto dest!: contribution_in simp: owned_usage_rows owned_binding_rows)
  then show ?thesis unfolding indexes_match_def using 1 2 3 4 5 by simp
qed

subsection \<open>Snapshots\<close>

lemma unshared_rows:
  assumes "placement_ok P" "snapshot_of P w C d" "t \<notin> {NodesById, SignaturesByTarget, StaticMetadataByTarget, OwnedRowsByCrate}"
  shows "d t = (\<Union>c. C c t)"
proof -
  have "pl_stubs P t = {}" using assms(1,3) by (simp add: placement_ok_def)
  then have "shared_of P w C t = {}" using assms(3) by (simp add: shared_of_def)
  then show ?thesis using assms(2,3) by (simp add: snapshot_of_def rows_split_def)
qed

lemma unshared_unique:
  assumes "placement_ok P" "snapshot_of P w C d" "t \<in> {UsagesById, BindingsById}" "(i, v) \<in> d t" "(i, x) \<in> d t"
  shows "v = x"
proof -
  have d: "d t = (\<Union>c. C c t)" by (rule unshared_rows[OF assms(1,2)]) (use assms(3) in auto)
  have ok: "owned_ok P C" using assms(2) by (simp add: snapshot_of_def)
  obtain c c' where c: "(i, v) \<in> C c t" "(i, x) \<in> C c' t" using assms(4,5) d by blast
  have "home P t i v = home P t i x" using assms(3) by auto
  then have "c = c'" using owned_okD(3)[OF ok c(1)] owned_okD(3)[OF ok c(2)] by simp
  moreover have "\<not> is_dup_sort t" using assms(3) by auto
  ultimately show ?thesis using ok c unfolding owned_ok_def by blast
qed

lemma unshared_finite:
  assumes "placement_ok P" "snapshot_of P w C d" "finite {c. C c \<noteq> no_rows}"
    "t \<notin> {NodesById, SignaturesByTarget, StaticMetadataByTarget, OwnedRowsByCrate}"
  shows "finite (d t)"
proof -
  have named: "C c \<noteq> no_rows" if "e \<in> C c t" for e c using that by (auto simp: no_rows_def)
  have "d t = (\<Union>c \<in> {c. C c \<noteq> no_rows}. C c t)"
    unfolding unshared_rows[OF assms(1,2,4)] using named by blast
  moreover have "finite (C c t)" for c using assms(2) by (simp add: snapshot_of_def owned_ok_def)
  ultimately show ?thesis using assms(3) by simp
qed

lemma snapshot_indexed:
  assumes "placement_ok P" "snapshot_of P w C d" "finite {c. C c \<noteq> no_rows}" "\<And>c. indexes_match (C c)"
  shows "usages_indexed d" "bindings_indexed d" "consumers_indexed d"
proof -
  have "indexes_match d"
    by (rule indexes_match_Union[where C = C, OF assms(4)], rule unshared_rows[OF assms(1,2)]) auto
  note m = this[unfolded indexes_match_def]
  have fin: "finite (d UsagesById)" "finite (d BindingsById)" using unshared_finite[OF assms(1-3)] by simp_all
  show "usages_indexed d" unfolding usages_indexed_def
    using m fin unshared_unique[OF assms(1,2), of UsagesById] by simp
  show "bindings_indexed d" unfolding bindings_indexed_def
    using m fin unshared_unique[OF assms(1,2), of BindingsById] by simp
  show "consumers_indexed d" using m by simp
qed

definition extracted_call ::
  "(node_id \<Rightarrow> extraction_model) \<Rightarrow> crate_group list \<Rightarrow> node_id \<Rightarrow> node_id \<Rightarrow> bool" where
  "extracted_call M gs f t \<longleftrightarrow>
     (\<exists>g \<in> set gs. \<exists>u \<in> set (em_usages (M (cg_id g))). owner_of (M (cg_id g)) (us_consumer_module u) = Inr (cg_id g) \<and>
        is_call (us_relation u) \<and> us_consumer_function u = Some f \<and> us_target u = t)"

lemma contribution_calls:
  assumes "ids_tell_apart sha json M"
  shows "calls (contribution sha json M c) f t \<longleftrightarrow>
    (\<exists>u \<in> owned_usages M c. is_call (us_relation u) \<and> us_consumer_function u = Some f \<and> us_target u = t)"
proof
  assume "calls (contribution sha json M c) f t"
  then show "\<exists>u \<in> owned_usages M c. is_call (us_relation u) \<and> us_consumer_function u = Some f \<and> us_target u = t"
    unfolding calls_def using usage_row_in by metis
next
  assume "\<exists>u \<in> owned_usages M c. is_call (us_relation u) \<and> us_consumer_function u = Some f \<and> us_target u = t"
  then obtain u where u: "u \<in> owned_usages M c" "is_call (us_relation u)" "us_consumer_function u = Some f" "us_target u = t" by blast
  obtain v where "(usage_id_for sha json u, UsageV v) \<in> contribution sha json M c UsagesById"
    "us_target v = us_target u" "us_consumer_function v = us_consumer_function u" "us_relation v = us_relation u"
    by (rule usage_row_of[OF assms u(1)])
  then show "calls (contribution sha json M c) f t" unfolding calls_def using u by metis
qed

text \<open>C36: A full build leaves a snapshot whose two binding indexes and whose four usage indexes (by the target, and by the
  module, the item and the function that a usage stands in) are exactly those of their tables, so that every query over it can be
  answered; and the calls that the queries follow are exactly the calls that the extraction found in the crates of the workspace, each
  read from the model of the crate that owns the caller's module.\<close>

theorem queries_follow_the_extracted_calls:
  assumes "crate_groups sha L dirty = Inr gs" "models_ok sha json P M gs" "extracts extract dirty gs M"
    "\<forall>g \<in> set gs. ids_tell_apart sha json (M (cg_id g))"
  shows "\<exists>db counts. write_by_crate sha json extract L dirty hash fp i empty_db = Inr (db, counts) \<and>
    usages_indexed (gd_rows db) \<and> consumers_indexed (gd_rows db) \<and> bindings_indexed (gd_rows db) \<and>
    (\<forall>f t. calls (gd_rows db) f t \<longleftrightarrow> extracted_call M gs f t)"
proof -
  let ?C = "rebuilt sha json M gs (\<lambda>_. no_rows)"
  have P: "placement_ok P" using assms(2) by (simp add: models_ok_def)
  obtain db where db: "write_by_crate sha json extract L dirty hash fp i empty_db = Inr (db, row_counts (gd_rows db))"
    "snapshot_of P (False \<or> gs \<noteq> []) ?C (gd_rows db)"
    by (rule write_by_crate_snapshot[OF assms(1,2) empty_snapshot[OF P] assms(3)])
  have apart: "ids_tell_apart sha json (M c)" if "c \<in> cg_id ` set gs" for c using that assms(4) by blast
  have "indexes_match (?C c)" for c
    unfolding rebuilt_def by (simp add: contribution_indexes_match apart indexes_match_none)
  moreover have "{c. ?C c \<noteq> no_rows} \<subseteq> cg_id ` set gs" unfolding rebuilt_def by auto
  then have "finite {c. ?C c \<noteq> no_rows}" by (rule finite_subset) simp
  ultimately have ix: "usages_indexed (gd_rows db)" "bindings_indexed (gd_rows db)" "consumers_indexed (gd_rows db)"
    using snapshot_indexed[OF P db(2)] by blast+
  have "gd_rows db UsagesById = (\<Union>c. ?C c UsagesById)" by (rule unshared_rows[OF P db(2)]) simp
  then have "calls (gd_rows db) f t \<longleftrightarrow> (\<exists>c. calls (?C c) f t)" for f t unfolding calls_def by blast
  also have "\<dots> f t \<longleftrightarrow> (\<exists>c \<in> cg_id ` set gs. calls (contribution sha json (M c) c) f t)" for f t
    unfolding rebuilt_def by (auto simp: calls_def no_rows_def)
  also have "\<dots> f t \<longleftrightarrow> extracted_call M gs f t" for f t
    unfolding extracted_call_def using apart by (auto simp: contribution_calls owned_usages_def)
  finally show ?thesis using db(1) ix by blast
qed

lemma ex_ids_tell_apart: "ids_tell_apart byte_sum ex_json (new_models c)"
proof -
  have "binding_id_for byte_sum (ex_binding ''e'' 7) \<noteq> binding_id_for byte_sum (ex_binding ''l'' 4441)" by code_simp
  then show ?thesis by (auto simp: ids_tell_apart_def new_models_def plain_model_def app_model_def)
qed

theorem queries_follow_the_extracted_calls_witness:
  "\<exists>db counts. write_by_crate byte_sum ex_json (extract_with new_models) chain [0, 1, 2] ''h'' ''f'' ''i'' empty_db = Inr (db, counts) \<and>
    usages_indexed (gd_rows db) \<and> consumers_indexed (gd_rows db) \<and> bindings_indexed (gd_rows db) \<and>
    (\<forall>f t. calls (gd_rows db) f t \<longleftrightarrow> extracted_call new_models chain_groups f t)"
  by (rule queries_follow_the_extracted_calls[OF crate_groups_chain ex_models_ok(1) extracts_with])
    (simp add: ex_ids_tell_apart)

end
