(* ===== verification/Spec2Isabelle.thy ===== *)
theory Spec2Isabelle
  imports Merkle Unified_Laws Sync_Service Vram_Ledger Hybrid_Search Table_Types Snapshot_Compare Recursion_Check Workspace_Locks
    Similarity_Clusters Query_Laws
begin

text \<open>
  A verification development of rust-code-mcp: the pipeline that indexes Rust projects and keeps two search indexes in
  step with the tree (\<open>crates/rmc-indexing\<close>, \<open>crates/rmc-engine\<close>), the build of the workspace hypergraph
  (\<open>crates/rmc-graph\<close>), and the locks under which the daemon's calls run beside each other (\<open>crates/rmc-server\<close>).

  \<^bold>\<open>How the parts work together.\<close> A run of the indexing service finds what changed in a tree (\<open>Merkle\<close>), and for each changed
  file passes the gate (\<open>File_Gate\<close>), cuts it into chunks (\<open>Chunking\<close>), embeds them (\<open>Batching\<close>, on GPU sessions that
  \<open>Gpu_Broker\<close> lends and \<open>Vram_Ledger\<close> admits), and writes chunks and embeddings to the keyword index (\<open>Bm25\<close>) and the vector
  store (\<open>Vector_Store\<close>), with the metadata cache (\<open>Metadata_Cache\<close>) and the snapshot of the tree as its memory
  (\<open>Unified_Indexer\<close>, \<open>Incremental\<close>, \<open>Sync_Service\<close>). A search asks both indexes and fuses the answers (\<open>Hybrid_Search\<close>).
  Independently, a graph build hashes the tree by package (\<open>Build_Inputs\<close>), plans which crates to rebuild (\<open>Graph_Plan\<close>), and
  rewrites the rows of those crates in a copy of the last snapshot (\<open>Ownership\<close>, \<open>Graph_Build\<close>), which queries then read
  (\<open>Call_Queries\<close>, \<open>Dependency_Rules\<close>, \<open>Surface_Queries\<close>). All of it runs in calls of a
  daemon that take the locks of \<open>Workspace_Locks\<close>.

  \<^bold>\<open>Conventions.\<close> A struct is a record and an enum a datatype, with the names of the source. A fallible function returns
  \<open>('e, 'a) result\<close>, the error on the left; a panic is \<open>None\<close>; an error of an operation with state comes next to the state it
  leaves behind. Maps are association lists with distinct keys where their order or their duplicates matter, and functions
  elsewhere. Machine integers are words where they can wrap (\<open>Vram_Ledger\<close>, \<open>Gpu_Broker\<close>, the identifiers of \<open>Graph_Model\<close>) and
  naturals where a file or a list bounds them. What comes from other crates is a parameter: a record of operations
  (\<open>tantivy\<close>, \<open>lance\<close>, \<open>sled\<close>, \<open>gate\<close>, \<open>engine\<close>) or an argument (\<open>sha\<close>, the embedding model \<open>raw\<close>, the extraction \<open>extract\<close>).
  Their documented behaviour is a locale, and every locale is interpreted: the engines' locales on instances in memory, the
  locales of the clients (\<open>change_memory\<close>, \<open>chunk_store\<close>, \<open>keyword_index\<close>, \<open>lock_discipline\<close>) on the model of the code.
\<close>

subsection \<open>Indexing\<close>

text \<open>
  \<^item> \<open>Prelude\<close>, \<open>Texts\<close>: results, strings and paths of the Rust standard library; numbers read from texts. \<open>Floats\<close>:
    IEEE rounding to \<open>f32\<close> and \<open>f64\<close> over the rationals.
  \<^item> \<open>Filesystem\<close> (traversal.rs): the calls of \<open>std::fs\<close> and the walk that decides which files belong to a project.
  \<^item> \<open>Merkle\<close> (merkle.rs): \<open>from_directory\<close>, \<open>detect_changes\<close>, \<open>detect_disk_changes\<close>, \<open>snapshot_with_retries\<close>, saving and
    loading. The comparisons are exact; an interrupted save leaves the old snapshot; renames that keep the order of the
    content hashes are shown to be missed.
  \<^item> \<open>Index_Errors\<close> (error.rs, error_collection.rs): the errors, the classifier that decides what is retried, the counters.
  \<^item> \<open>Chunking\<close> (rmc-engine chunker): the cut of a file by symbols, elided containers, line splits of chunks that exceed the token
    budget; the parts of a split tile its lines.
  \<^item> \<open>Batching\<close> (batching.rs, embedding_batcher.rs, embeddings/mod.rs): batches planned under a padded token budget, the
    gate that keeps non-finite vectors out and recomputes, the order of the results.
  \<^item> \<open>Metadata_Cache\<close> (metadata_cache.rs), \<open>File_Gate\<close> (security, file_processor.rs, indexer_core.rs): what is remembered of a
    file, and what it has to pass before it is indexed.
  \<^item> \<open>Vector_Store\<close> (lancedb.rs, traits.rs), \<open>Bm25\<close> (tantivy_adapter.rs): rows and documents of a chunk, the SQL filters, the
    identity check of a store; refinement of an abstract store of chunks.
  \<^item> \<open>Unified_Indexer\<close> with \<open>Unified_Laws\<close> (unified.rs, unified_parallel.rs): preparing, writing to both stores, directory runs,
    dropping, clearing, repairing; what each does to both stores, branch by branch.
  \<^item> \<open>Incremental\<close> with \<open>Sync_Laws\<close>, \<open>Sync_Service\<close> (incremental.rs, incremental_service.rs): the run over a change set, readers kept
    out from the first write to the commit, pending writes, the snapshot that keeps failures for the next run. A run
    without failures makes both stores hold exactly the tree; every change is accounted for; a second run has nothing to do.
\<close>

subsection \<open>Search and GPU sessions\<close>

text \<open>
  \<^item> \<open>Hybrid_Search\<close> (search/mod.rs, resilient.rs, the search of lancedb.rs): reciprocal rank fusion in \<open>f32\<close>, the best of both
    engines, and the variant that survives the failure of one engine.
  \<^item> \<open>Gpu_Broker\<close> (gpu_broker.rs): one function for each critical section, a step relation that interleaves any number of
    threads over them; one session for each backend, priority of waiters, no lost wake-up, no overflow of a counter.
  \<^item> \<open>Vram_Ledger\<close> (vram_ledger.rs, the budget of gpu_broker.rs): 64-bit accounts of video memory, prices kept between processes,
    admission of a session.
\<close>

subsection \<open>The hypergraph\<close>

text \<open>
  \<^item> \<open>Graph_Model\<close> (ids.rs, model.rs, the tables of storage.rs): identifiers, records, tables as sets of rows.
  \<^item> \<open>Build_Inputs\<close> (storage.rs): hashes of a tree by package. A package whose hash is unchanged has the files it had.
  \<^item> \<open>Graph_Plan\<close> (incremental.rs, extract.rs, identity.rs): groups of crates in dependency order; an incremental plan rebuilds
    exactly what a changed package reaches against the dependencies.
  \<^item> \<open>Ownership\<close> with \<open>Ownership_Laws\<close> (ownership.rs): writing and deleting the rows of one crate. A snapshot is the disjoint union of
    its crates' contributions and the shared rows, whatever was written when.
  \<^item> \<open>Graph_Build\<close> with \<open>Build_Laws\<close>, \<open>Table_Types\<close> (snapshot.rs, input_slice.rs): reuse, staging, writing, publication, pruning,
    three attempts. An incremental build gives the rows of a full build; a failed build changes nothing; a successful
    one serves its tree; tables stay well-typed.
  \<^item> \<open>Snapshot_Compare\<close> (snapshot_compare.rs): the streaming comparison agrees with the difference of the sets of rows.
  \<^item> \<open>Recursion_Check\<close> (recursion_check.rs): exactly the simple cycles of bounded length, each once.
\<close>

subsection \<open>Queries over the hypergraph\<close>

text \<open>
  A query reads the tables of a snapshot through their indexes. \<open>Query_Laws\<close> shows that the indexes of a snapshot that a build
  wrote are exactly those of its tables, which the other theories take as a hypothesis, and that the calls that it holds are those
  that the extraction found.
  \<^item> \<open>Call_Queries\<close> (query/calls.rs, the usage iterators of query/shared.rs): call sites, the bounded call graph, which lists each
    function once whatever cycles there are, and the count of the callers within a depth, which is exact. A function first met at the
    depth limit is shown to hide callees that are within the depth.
  \<^item> \<open>Dependency_Rules\<close> (query/crates.rs): the edges between crates with their symbols; the rules that forbid some, with a glob
    matcher that is shown to accept the language of its patterns.
  \<^item> \<open>Similarity_Clusters\<close> (query/similarity.rs): union-find with path halving over the scored pairs; the clusters are the connected
    components; paging by members.
  \<^item> \<open>Surface_Queries\<close> (query/imports.rs, query/usage.rs, query/surface.rs): imports and exports of a module, who imports and who
    uses an item, public items that no other crate refers to, chains of re-exports. The walk of a chain is shown to report depths that
    exceed the shortest.
\<close>

subsection \<open>Locks\<close>

text \<open>
  \<^item> \<open>Lock_Protocol\<close>: tasks over fair read/write locks as an inductive step relation, and a locale of disciplines, with mutual
    exclusion, progress and bounded runs proved once.
  \<^item> \<open>Workspace_Locks\<close> (mcp/workspace_locks.rs and its callers): the guards and calls of the daemon keep the discipline, so that
    work obeys the lock table of the module, no set of calls deadlocks, and readers pass background work.
\<close>

subsection \<open>Bounds, fuel and termination\<close>

text \<open>
  Loops are structural recursion or recursive functions with a measure: the search for a package directory by the length of
  the path, the reachability loops by the nodes not yet reached, the depth-first searches by the nodes not yet on the path,
  the planning of batches by the rows left, the walk up the modules by the nodes not yet seen, the re-export chain by the
  bindings not yet visited and the stack, the hops of the caller count by the depth that is left. Path halving
  (\<open>find_root\<close>) is a partial function that is shown to return on the forests that union-find keeps. The retry loops count down the attempts of the source (three builds; the budget
  of the lock wait in \<open>Metadata_Cache\<close>, where opening is shown to return). There is no other fuel. The interleavings of
  \<open>Gpu_Broker\<close> and \<open>Lock_Protocol\<close> are unbounded; a run of daemon calls is shown to take at most two steps for each action.
\<close>

subsection \<open>Not modelled\<close>

text \<open>
  \<^item> The walks of rust-analyzer that extract the graph (loader.rs, usages.rs, bindings.rs, and others), the parser and the
    embedding runtimes: they are calls of other crates throughout, and are parameters of the model.
  \<^item> The other read-only reports over a snapshot: name lookup, module trees, metrics, overlaps, filters by attribute and signature
    (query), the scoring of similar items by embeddings, the audits, skeletons and code maps; health reports, metrics, backups and
    evaluation.
  \<^item> The protocol layer of the tools, the semantic service and the daemon's process life cycle: calls of the operating system and
    of rust-analyzer.
  \<^item> Within modelled parts: index maintenance and layout reports of the vector store, the choice of an embedding backend, the
    provenance part of a graph manifest, the rendering of rows in a comparison; failures of LMDB itself; logging and timing.
\<close>

end
